(* ===== verification/Kibble_Prelude.thy ===== *)
theory Kibble_Prelude
  imports Main "HOL-Library.Word" "HOL-Library.While_Combinator"
begin

text \<open>
  Shared material of the development: the machine integer types of the C++ code, the error
  values every checked operation may return, decimal printing, and generic lemmas on lists and
  loops that the component theories use.
\<close>

section \<open>Machine types\<close>

type_synonym u8 = "8 word"
type_synonym u16 = "16 word"
type_synonym u32 = "32 word"
type_synonym u64 = "64 word"

text \<open>\<open>kb::hash_t\<close>: a 64-bit string hash; the value 0 means ``no name''.\<close>

type_synonym hash_t = u64

section \<open>Collections of facts\<close>

text \<open>
  \<open>model_defs\<close> unfolds the small accessor definitions of the components, \<open>inv_defs\<close> their
  invariants.
\<close>

named_theorems model_defs
named_theorems inv_defs

section \<open>Errors\<close>

text \<open>
  The ways an operation of the library can fail: an assertion (\<open>K_ASSERT\<close>), an access outside
  the bounds of an array or a container (\<open>at()\<close>, an array index), the dereference of a
  null pointer, the call of a delegate that was never bound, a division by zero, an overflow of the
  signed arithmetic that sizes a pool, the end of the process after a log entry of fatal severity,
  or the lock of a mutex that is held already.
\<close>

datatype fault = Assertion_Failed | Out_Of_Bounds | Null_Dereference | Bad_Delegate_Call
  | Division_By_Zero | Signed_Overflow | Fatal_Error | Deadlock

section \<open>Lists\<close>

lemma butlast_conv_take_pred: "butlast xs = take (length xs - 1) xs"
  by (simp add: butlast_conv_take)

lemma last_conv_nth_pred: "xs \<noteq> [] \<Longrightarrow> last xs = xs ! (length xs - 1)"
  by (simp add: last_conv_nth)

lemma nth_tl_Suc: "Suc i < length xs \<Longrightarrow> tl xs ! i = xs ! Suc i"
  by (cases xs) auto

lemma last_take_Suc: "n < length xs \<Longrightarrow> last (take (Suc n) xs) = xs ! n"
  by (simp add: take_Suc_conv_app_nth)

lemma butlast_take_Suc: "n < length xs \<Longrightarrow> butlast (take (Suc n) xs) = take n xs"
  by (simp add: take_Suc_conv_app_nth)

section \<open>Decimal printing\<close>

text \<open>What a C++ output stream writes for an unsigned and for a signed integer.\<close>

fun show_nat :: "nat \<Rightarrow> string" where
  "show_nat n = (if n < 10 then [char_of (48 + n)]
     else show_nat (n div 10) @ [char_of (48 + n mod 10)])"

declare show_nat.simps [simp del]

definition show_int :: "int \<Rightarrow> string" where
  "show_int i = (if i < 0 then CHR ''-'' # show_nat (nat (- i)) else show_nat (nat i))"

definition show_bool :: "bool \<Rightarrow> string" where
  "show_bool b = (if b then ''true'' else ''false'')"

lemma remove_nth:
  assumes "distinct xs" "k < length xs"
  shows "distinct (take k xs @ drop (Suc k) xs)" "set (take k xs @ drop (Suc k) xs) = set xs - {xs ! k}"
proof -
  obtain ys z zs where "xs = ys @ z # zs" "length ys = k"
    using id_take_nth_drop [OF assms(2)] assms(2) by (metis length_take min.absorb2 less_imp_le_nat)
  with assms(1) show "distinct (take k xs @ drop (Suc k) xs)"
    "set (take k xs @ drop (Suc k) xs) = set xs - {xs ! k}"
    by auto
qed

section \<open>Words\<close>

lemma unat_inject [simp]: "unat x = unat y \<longleftrightarrow> x = y"
  by (simp add: word_unat_eq_iff)

lemma unat_word_of_nat: "n < 2 ^ LENGTH('w) \<Longrightarrow> unat (word_of_nat n :: 'w::len word) = n"
  by (simp add: unat_of_nat take_bit_nat_eq_self_iff)

lemma unat_succ: "Suc (unat x) < 2 ^ LENGTH('w) \<Longrightarrow> unat (x + 1) = Suc (unat (x :: 'w::len word))"
  by (simp add: unat_word_ariths)

lemma unat_add: "unat x + unat y < 2 ^ LENGTH('w) \<Longrightarrow> unat (x + y) = unat x + unat (y :: 'w::len word)"
  by (simp add: unat_word_ariths)

lemma ucast_u32_u64: "unat (ucast (x :: u32) :: u64) = unat x"
proof -
  have "unat x < 2 ^ LENGTH(32)" by (rule unsigned_less)
  then show ?thesis by (simp add: unsigned_ucast_eq take_bit_nat_eq_self_iff)
qed

lemma ucast_u64_u32: "unat (x :: u64) < 2 ^ 32 \<Longrightarrow> unat (ucast x :: u32) = unat x"
  by (simp add: unsigned_ucast_eq take_bit_nat_eq_self_iff)

section \<open>Results and checked array accesses\<close>

text \<open>
  Code that may fail returns \<open>fault + 'a\<close>; \<open>res_bind\<close> sequences two such computations. An access
  to an array or vector outside its bounds is undefined behaviour in the source and the fault
  \<open>Out_Of_Bounds\<close> here; a failing \<open>K_ASSERT\<close> is the fault \<open>Assertion_Failed\<close>.
\<close>

fun res_bind :: "'e + 'a \<Rightarrow> ('a \<Rightarrow> 'e + 'b) \<Rightarrow> 'e + 'b" where
  "res_bind (Inl e) f = Inl e"
| "res_bind (Inr x) f = f x"

definition arr_read :: "'a list \<Rightarrow> nat \<Rightarrow> fault + 'a" where
  "arr_read xs i = (if i < length xs then Inr (xs ! i) else Inl Out_Of_Bounds)"

definition arr_write :: "'a list \<Rightarrow> nat \<Rightarrow> 'a \<Rightarrow> fault + 'a list" where
  "arr_write xs i v = (if i < length xs then Inr (xs[i := v]) else Inl Out_Of_Bounds)"

definition k_assert :: "bool \<Rightarrow> fault + unit" where
  "k_assert b = (if b then Inr () else Inl Assertion_Failed)"

lemma arr_ok [simp]:
  "i < length xs \<Longrightarrow> arr_read xs i = Inr (xs ! i)"
  "i < length xs \<Longrightarrow> arr_write xs i v = Inr (xs[i := v])"
  "length xs \<le> i \<Longrightarrow> arr_read xs i = Inl Out_Of_Bounds"
  "length xs \<le> i \<Longrightarrow> arr_write xs i v = Inl Out_Of_Bounds"
  "k_assert True = Inr ()" "k_assert False = Inl Assertion_Failed"
  by (simp_all add: arr_read_def arr_write_def k_assert_def)

lemma res_bind_eq_Inr: "res_bind m f = Inr y \<longleftrightarrow> (\<exists>x. m = Inr x \<and> f x = Inr y)"
  by (cases m) auto

text \<open>A computation returns a value with a property.\<close>

fun returns_with :: "'e + 'a \<Rightarrow> ('a \<Rightarrow> bool) \<Rightarrow> bool" where
  "returns_with (Inl e) P = False"
| "returns_with (Inr x) P = P x"

lemma returns_with_iff: "returns_with r P \<longleftrightarrow> (\<exists>x. r = Inr x \<and> P x)"
  by (cases r) auto

text \<open>Running a list of operations, stopping at the first fault.\<close>

fun run_ops :: "('x \<Rightarrow> 's \<Rightarrow> 'e + 's) \<Rightarrow> 'x list \<Rightarrow> 's \<Rightarrow> 'e + 's" where
  "run_ops f [] s = Inr s"
| "run_ops f (x # xs) s = res_bind (f x s) (run_ops f xs)"

end
