(* ===== verification/Undo_Command.thy ===== *)
theory Undo_Command
  imports Kibble_Prelude
begin

text \<open>
  The command class of the undo engine (\<open>kb::undo::UndoCommand\<close>): its data members, the base
  implementations of its virtual functions, virtual dispatch, and the behavioural notion of a
  reversible command. The document the commands act on has an arbitrary type \<open>'d\<close>.
\<close>

section \<open>Commands\<close>

text \<open>
  A command has a merge id, an obsolete flag, a text, child commands, and the data of the user's
  derived class (\<open>payload\<close>).
\<close>

datatype 'p command = Command
  (merge_id: int) (is_obsolete: bool) (action_text: string)
  (children: "'p command list") (payload: 'p)

text \<open>
  The overrides of the user's derived classes. A derived class is recognised by its payload;
  \<open>None\<close> means the class inherits the base implementation. The member functions are not
  \<open>const\<close>, so an override may change the command as well as the document.
\<close>

record ('p, 'd) vtable =
  undo_override :: "'p \<Rightarrow> ('p command \<Rightarrow> 'd \<Rightarrow> 'p command \<times> 'd) option"
  redo_override :: "'p \<Rightarrow> ('p command \<Rightarrow> 'd \<Rightarrow> 'p command \<times> 'd) option"
  merge_override :: "'p \<Rightarrow> ('p command \<Rightarrow> 'p command \<Rightarrow> bool \<times> 'p command) option"

definition make_command :: "string \<Rightarrow> int \<Rightarrow> 'p \<Rightarrow> 'p command" where
  "make_command txt mid p = Command mid False txt [] p"

fun set_obsolete :: "'p command \<Rightarrow> 'p command" where
  "set_obsolete (Command m ob t cs p) = Command m True t cs p"

definition child_count :: "'p command \<Rightarrow> nat" where
  "child_count c = length (children c)"

text \<open>\<open>child\<close> uses \<open>vector::at\<close>, which throws when the index is out of range.\<close>

definition child :: "'p command \<Rightarrow> nat \<Rightarrow> fault + 'p command" where
  "child c i = (if i < length (children c) then Inr (children c ! i) else Inl Out_Of_Bounds)"

fun push_child :: "'p command \<Rightarrow> 'p command \<Rightarrow> 'p command" where
  "push_child (Command m ob t cs p) c = Command m ob t (cs @ [c]) p"

text \<open>
  Virtual \<open>redo()\<close>: the base implementation calls the children in order. The override, if
  any, replaces it.
\<close>

fun cmd_redo :: "('p, 'd) vtable \<Rightarrow> 'p command \<Rightarrow> 'd \<Rightarrow> 'p command \<times> 'd"
and children_redo :: "('p, 'd) vtable \<Rightarrow> 'p command list \<Rightarrow> 'd \<Rightarrow> 'p command list \<times> 'd" where
  "cmd_redo vt (Command m ob t cs p) d =
     (case redo_override vt p of
        Some f \<Rightarrow> f (Command m ob t cs p) d
      | None \<Rightarrow> (let (cs', d') = children_redo vt cs d in (Command m ob t cs' p, d')))"
| "children_redo vt [] d = ([], d)"
| "children_redo vt (c # cs) d =
     (let (c', d1) = cmd_redo vt c d; (cs', d2) = children_redo vt cs d1 in (c' # cs', d2))"

text \<open>Virtual \<open>undo()\<close>: the base implementation calls the children in reverse order.\<close>

fun cmd_undo :: "('p, 'd) vtable \<Rightarrow> 'p command \<Rightarrow> 'd \<Rightarrow> 'p command \<times> 'd"
and children_undo :: "('p, 'd) vtable \<Rightarrow> 'p command list \<Rightarrow> 'd \<Rightarrow> 'p command list \<times> 'd" where
  "cmd_undo vt (Command m ob t cs p) d =
     (case undo_override vt p of
        Some f \<Rightarrow> f (Command m ob t cs p) d
      | None \<Rightarrow> (let (cs', d') = children_undo vt cs d in (Command m ob t cs' p, d')))"
| "children_undo vt [] d = ([], d)"
| "children_undo vt (c # cs) d =
     (let (cs', d1) = children_undo vt cs d; (c', d2) = cmd_undo vt c d1 in (c' # cs', d2))"

text \<open>Virtual \<open>merge_with()\<close>: the base implementation refuses.\<close>

definition base_merge_with :: "'p command \<Rightarrow> 'p command \<Rightarrow> bool \<times> 'p command" where
  "base_merge_with this other = (False, this)"

definition cmd_merge_with :: "('p, 'd) vtable \<Rightarrow> 'p command \<Rightarrow> 'p command \<Rightarrow> bool \<times> 'p command" where
  "cmd_merge_with vt this other =
     (case merge_override vt (payload this) of
        Some f \<Rightarrow> f this other
      | None \<Rightarrow> base_merge_with this other)"

section \<open>Reversible commands\<close>

text \<open>
  \<open>done vt c d d'\<close>: the command \<open>c\<close> has been executed, it took the document from \<open>d\<close> to
  \<open>d'\<close>, undoing it restores \<open>d\<close>, redoing it then gives \<open>d'\<close> again, and so on forever.
  \<open>undone vt c d d'\<close> is the same command after an undo. Both are greatest fixpoints over the
  virtual functions of the model.
\<close>

coinductive cmd_done :: "('p, 'd) vtable \<Rightarrow> 'p command \<Rightarrow> 'd \<Rightarrow> 'd \<Rightarrow> bool"
and cmd_undone :: "('p, 'd) vtable \<Rightarrow> 'p command \<Rightarrow> 'd \<Rightarrow> 'd \<Rightarrow> bool" for vt where
  doneI: "cmd_undo vt c d' = (c', d) \<Longrightarrow> cmd_undone vt c' d d' \<Longrightarrow> cmd_done vt c d d'"
| undoneI: "cmd_redo vt c d = (c', d') \<Longrightarrow> cmd_done vt c' d d' \<Longrightarrow> cmd_undone vt c d d'"

inductive_cases cmd_doneE: "cmd_done vt c d d'"
inductive_cases cmd_undoneE: "cmd_undone vt c d d'"

text \<open>
  A timeline: the commands \<open>h\<close> with the documents \<open>ds\<close> before and after each of them, the
  first \<open>n\<close> commands executed and the others reverted.
\<close>

definition timeline ::
  "('c \<Rightarrow> 'd \<Rightarrow> 'd \<Rightarrow> bool) \<Rightarrow> ('c \<Rightarrow> 'd \<Rightarrow> 'd \<Rightarrow> bool) \<Rightarrow> 'c list \<Rightarrow> nat \<Rightarrow> 'd list \<Rightarrow> bool" where
  "timeline E R h n ds \<longleftrightarrow> length ds = Suc (length h) \<and> n \<le> length h \<and>
     (\<forall>i < length h. if i < n then E (h ! i) (ds ! i) (ds ! Suc i) else R (h ! i) (ds ! i) (ds ! Suc i))"

lemma timeline_take:
  "timeline E R h n ds \<Longrightarrow> timeline E R (take n h) n (take (Suc n) ds)"
  by (auto simp: timeline_def)

lemma timeline_snoc:
  assumes "timeline E R h (length h) ds" "E c (last ds) d"
  shows "timeline E R (h @ [c]) (Suc (length h)) (ds @ [d])"
proof -
  have len: "length ds = Suc (length h)" using assms(1) by (simp add: timeline_def)
  then have "ds \<noteq> []" by auto
  with len have "last ds = ds ! length h" by (simp add: last_conv_nth)
  with len assms show ?thesis by (auto simp: timeline_def nth_append less_Suc_eq)
qed

lemma timeline_tl:
  "timeline E R h (length h) ds \<Longrightarrow> h \<noteq> [] \<Longrightarrow> timeline E R (tl h) (length h - 1) (tl ds)"
  by (cases h; cases ds) (auto simp: timeline_def)

lemma timeline_butlast:
  "timeline E R h (length h) ds \<Longrightarrow> h \<noteq> [] \<Longrightarrow> timeline E R (butlast h) (length h - 1) (butlast ds)"
  by (auto simp: timeline_def nth_butlast)

lemma timeline_replace_last:
  assumes "timeline E R h (length h) ds" "h \<noteq> []" "E c (ds ! (length h - 1)) d"
  shows "timeline E R (h[length h - 1 := c]) (length h) (butlast ds @ [d])"
  using assms
  by (auto simp: timeline_def nth_append nth_butlast nth_list_update less_Suc_eq)

lemma timeline_last:
  assumes "timeline E R h (length h) ds" "h \<noteq> []"
  shows "E (last h) (ds ! (length h - 1)) (ds ! length h)"
proof -
  obtain n where "length h = Suc n" using assms(2) by (cases h) auto
  with assms show ?thesis by (auto simp: timeline_def last_conv_nth)
qed

text \<open>The contract the stack relies on, as an interface.\<close>

locale reversible =
  fixes undo redo :: "'c \<Rightarrow> 'd \<Rightarrow> 'c \<times> 'd"
    and executed reverted :: "'c \<Rightarrow> 'd \<Rightarrow> 'd \<Rightarrow> bool"
  assumes undo_executed: "executed c d d' \<Longrightarrow> snd (undo c d') = d \<and> reverted (fst (undo c d')) d d'"
    and redo_reverted: "reverted c d d' \<Longrightarrow> snd (redo c d) = d' \<and> executed (fst (redo c d)) d d'"
begin

text \<open>Undoing the command below position \<open>n\<close> of a timeline moves it back by one.\<close>

lemma timeline_undo:
  assumes "timeline executed reverted h (Suc n) ds" "n < length h"
  shows "snd (undo (h ! n) (ds ! Suc n)) = ds ! n"
    and "timeline executed reverted (h[n := fst (undo (h ! n) (ds ! Suc n))]) n ds"
proof -
  have e: "executed (h ! n) (ds ! n) (ds ! Suc n)"
    using assms by (auto simp: timeline_def)
  show "snd (undo (h ! n) (ds ! Suc n)) = ds ! n"
    using undo_executed [OF e] by simp
  show "timeline executed reverted (h[n := fst (undo (h ! n) (ds ! Suc n))]) n ds"
    using assms undo_executed [OF e] by (auto simp: timeline_def nth_list_update less_Suc_eq)
qed

lemma timeline_redo:
  assumes "timeline executed reverted h n ds" "n < length h"
  shows "snd (redo (h ! n) (ds ! n)) = ds ! Suc n"
    and "timeline executed reverted (h[n := fst (redo (h ! n) (ds ! n))]) (Suc n) ds"
proof -
  have r: "reverted (h ! n) (ds ! n) (ds ! Suc n)"
    using assms by (auto simp: timeline_def)
  show "snd (redo (h ! n) (ds ! n)) = ds ! Suc n"
    using redo_reverted [OF r] by simp
  show "timeline executed reverted (h[n := fst (redo (h ! n) (ds ! n))]) (Suc n) ds"
    using assms redo_reverted [OF r] by (auto simp: timeline_def nth_list_update less_Suc_eq)
qed

end

interpretation cmds: reversible "cmd_undo vt" "cmd_redo vt" "cmd_done vt" "cmd_undone vt" for vt
  by unfold_locales (auto elim: cmd_doneE cmd_undoneE)

text \<open>
  A command that may be pushed: executing it on any document gives an executed command.
\<close>

definition well_behaved :: "('p, 'd) vtable \<Rightarrow> 'p command \<Rightarrow> bool" where
  "well_behaved vt c \<longleftrightarrow> (\<forall>d. cmd_done vt (fst (cmd_redo vt c d)) d (snd (cmd_redo vt c d)))"

text \<open>
  Chains of executed (or undone) children, with the documents between them.
\<close>

fun done_chain :: "('p, 'd) vtable \<Rightarrow> 'p command list \<Rightarrow> 'd \<Rightarrow> 'd \<Rightarrow> bool" where
  "done_chain vt [] d d' \<longleftrightarrow> d = d'"
| "done_chain vt (c # cs) d d' \<longleftrightarrow> (\<exists>e. cmd_done vt c d e \<and> done_chain vt cs e d')"

fun undone_chain :: "('p, 'd) vtable \<Rightarrow> 'p command list \<Rightarrow> 'd \<Rightarrow> 'd \<Rightarrow> bool" where
  "undone_chain vt [] d d' \<longleftrightarrow> d = d'"
| "undone_chain vt (c # cs) d d' \<longleftrightarrow> (\<exists>e. cmd_undone vt c d e \<and> undone_chain vt cs e d')"

lemma children_undo_chain:
  "done_chain vt cs d d' \<Longrightarrow>
     snd (children_undo vt cs d') = d \<and> undone_chain vt (fst (children_undo vt cs d')) d d'"
proof (induction cs arbitrary: d)
  case (Cons c cs)
  then obtain e where e: "cmd_done vt c d e" "done_chain vt cs e d'" by auto
  obtain cs' where cs': "children_undo vt cs d' = (cs', e)" "undone_chain vt cs' e d'"
    using Cons.IH [OF e(2)] by (cases "children_undo vt cs d'") auto
  obtain c' where "cmd_undo vt c e = (c', d)" "cmd_undone vt c' d e"
    using e(1) by (auto elim: cmd_doneE)
  with cs' show ?case by auto
qed simp

lemma children_redo_chain:
  "undone_chain vt cs d d' \<Longrightarrow>
     snd (children_redo vt cs d) = d' \<and> done_chain vt (fst (children_redo vt cs d)) d d'"
proof (induction cs arbitrary: d)
  case (Cons c cs)
  then obtain e where e: "cmd_undone vt c d e" "undone_chain vt cs e d'" by auto
  obtain c' where "cmd_redo vt c d = (c', e)" "cmd_done vt c' d e"
    using e(1) by (auto elim: cmd_undoneE)
  moreover obtain cs' where "children_redo vt cs e = (cs', d')" "done_chain vt cs' e d'"
    using Cons.IH [OF e(2)] by (cases "children_redo vt cs e") auto
  ultimately show ?case by auto
qed simp

lemma children_redo_well_behaved:
  "\<forall>c \<in> set cs. well_behaved vt c \<Longrightarrow>
     done_chain vt (fst (children_redo vt cs d)) d (snd (children_redo vt cs d))"
proof (induction cs arbitrary: d)
  case (Cons c cs)
  then show ?case
    by (auto simp: well_behaved_def split_beta)
qed simp

text \<open>A macro command (no overrides) whose children form a chain is itself reversible.\<close>

lemma macro_done:
  assumes none: "undo_override vt p = None" "redo_override vt p = None"
    and chain: "done_chain vt cs d d'"
  shows "cmd_done vt (Command m ob t cs p) d d'"
proof -
  let ?D = "\<lambda>c d d'. \<exists>cs. c = Command m ob t cs p \<and> done_chain vt cs d d'"
  let ?U = "\<lambda>c d d'. \<exists>cs. c = Command m ob t cs p \<and> undone_chain vt cs d d'"
  have "(\<forall>c d d'. ?D c d d' \<longrightarrow> cmd_done vt c d d') \<and> (\<forall>c d d'. ?U c d d' \<longrightarrow> cmd_undone vt c d d')"
  proof (rule cmd_done_cmd_undone.coinduct, goal_cases)
    case (1 c d d')
    then show ?case by (auto simp: none split_beta dest: children_undo_chain)
  next
    case (2 c d d')
    then show ?case by (auto simp: none split_beta dest: children_redo_chain)
  qed
  with chain show ?thesis by blast
qed

text \<open>
  A leaf command that stores what it replaced: the payload of an executed command and of an
  undone one need not be equal, only to alternate. This rule proves reversibility from two
  predicates that the overrides map to each other.
\<close>

lemma leaf_done:
  assumes P: "\<And>c d d'. P c d d' \<Longrightarrow> snd (cmd_undo vt c d') = d \<and> Q (fst (cmd_undo vt c d')) d d'"
    and Q: "\<And>c d d'. Q c d d' \<Longrightarrow> snd (cmd_redo vt c d) = d' \<and> P (fst (cmd_redo vt c d)) d d'"
    and start: "P c d d'"
  shows "cmd_done vt c d d'"
proof -
  have "(\<forall>c d d'. P c d d' \<longrightarrow> cmd_done vt c d d') \<and> (\<forall>c d d'. Q c d d' \<longrightarrow> cmd_undone vt c d d')"
  proof (rule cmd_done_cmd_undone.coinduct, goal_cases)
    case (1 c d d')
    from P [OF this] show ?case by (cases "cmd_undo vt c d'") auto
  next
    case (2 c d d')
    from Q [OF this] show ?case by (cases "cmd_redo vt c d") auto
  qed
  with start show ?thesis by blast
qed

lemma macro_well_behaved_aux:
  assumes "undo_override vt p = None" "redo_override vt p = None"
    and "\<forall>c \<in> set cs. well_behaved vt c"
  shows "well_behaved vt (Command m ob t cs p)"
  unfolding well_behaved_def
  using macro_done [OF assms(1,2) children_redo_well_behaved [OF assms(3)]] assms(2)
  by (auto simp: split_beta)

end
