(* ===== verification/Undo_Stack.thy ===== *)
theory Undo_Stack
  imports Undo_Command
begin

text \<open>
  The undo stack (\<open>kb::undo::UndoStack\<close>): its state, every operation of
  \<open>undo/undo.cpp\<close> and \<open>undo/undo.h\<close>, the calls to the state-tracking functors, the
  well-formedness invariant, and the refinement to an abstract timeline of documents.
\<close>

section \<open>State\<close>

text \<open>
  The functors of the stack are identified by a token: the default lambda that does nothing, or
  a functor installed by the user. An operation returns the list of the calls it makes.
\<close>

datatype callback = Default_Functor | User_Functor nat

datatype signal =
    Head_Change callback nat
  | Clean_Change callback bool
  | Can_Undo_Change callback bool
  | Can_Redo_Change callback bool

record snapshot =
  snap_head :: nat
  snap_count :: nat
  snap_is_clean :: bool
  snap_can_undo :: bool
  snap_can_redo :: bool

record 'p undo_stack =
  history :: "'p command list"
  undo_limit :: nat
  head :: nat
  clean_index :: int
  last_snapshot :: snapshot
  on_head_change :: callback
  on_clean_change :: callback
  on_can_undo_change :: callback
  on_can_redo_change :: callback

definition empty_snapshot :: snapshot where
  "empty_snapshot = \<lparr>snap_head = 0, snap_count = 0, snap_is_clean = False,
     snap_can_undo = False, snap_can_redo = False\<rparr>"

definition new_stack :: "'p undo_stack" where
  "new_stack = \<lparr>history = [], undo_limit = 0, head = 0, clean_index = -1,
     last_snapshot = empty_snapshot,
     on_head_change = Default_Functor, on_clean_change = Default_Functor,
     on_can_undo_change = Default_Functor, on_can_redo_change = Default_Functor\<rparr>"

section \<open>Accessors\<close>

definition stack_count :: "'p undo_stack \<Rightarrow> nat" where
  [model_defs]: "stack_count s = length (history s)"

definition stack_empty :: "'p undo_stack \<Rightarrow> bool" where
  [model_defs]: "stack_empty s = (history s = [])"

definition can_redo :: "'p undo_stack \<Rightarrow> bool" where
  [model_defs]: "can_redo s = (head s < stack_count s)"

definition can_undo :: "'p undo_stack \<Rightarrow> bool" where
  [model_defs]: "can_undo s = (head s > 0)"

definition is_clean :: "'p undo_stack \<Rightarrow> bool" where
  [model_defs]: "is_clean s = (int (head s) = clean_index s)"

definition stack_at :: "'p undo_stack \<Rightarrow> nat \<Rightarrow> fault + 'p command" where
  "stack_at s i = (if i < stack_count s then Inr (history s ! i) else Inl Out_Of_Bounds)"

definition stack_text :: "'p undo_stack \<Rightarrow> nat \<Rightarrow> fault + string" where
  "stack_text s i = map_sum id action_text (stack_at s i)"

definition redo_text :: "'p undo_stack \<Rightarrow> string" where
  "redo_text s = (if can_redo s then action_text (history s ! head s) else '''')"

definition undo_text :: "'p undo_stack \<Rightarrow> string" where
  "undo_text s = (if can_undo s then action_text (history s ! (head s - 1)) else '''')"

definition dump :: "'p undo_stack \<Rightarrow> string" where
  "dump s = ''UndoStack: count='' @ show_nat (stack_count s) @ '', head='' @ show_nat (head s) @
     '', clean_idx='' @ show_int (clean_index s) @ '', clean='' @ show_bool (is_clean s)"

section \<open>State tracking\<close>

definition take_snapshot :: "'p undo_stack \<Rightarrow> 'p undo_stack" where
  "take_snapshot s = s\<lparr>last_snapshot := \<lparr>snap_head = head s, snap_count = stack_count s,
     snap_is_clean = is_clean s, snap_can_undo = can_undo s, snap_can_redo = can_redo s\<rparr>\<rparr>"

definition check_state_transitions :: "'p undo_stack \<Rightarrow> signal list" where
  "check_state_transitions s =
     (if head s \<noteq> snap_head (last_snapshot s)
      then [Head_Change (on_head_change s) (head s)] else []) @
     (if is_clean s \<noteq> snap_is_clean (last_snapshot s)
      then [Clean_Change (on_clean_change s) (is_clean s)] else []) @
     (if can_undo s \<noteq> snap_can_undo (last_snapshot s)
      then [Can_Undo_Change (on_can_undo_change s) (can_undo s)] else []) @
     (if can_redo s \<noteq> snap_can_redo (last_snapshot s)
      then [Can_Redo_Change (on_can_redo_change s) (can_redo s)] else [])"

section \<open>Operations\<close>

definition reset_clean_internal :: "'p undo_stack \<Rightarrow> 'p undo_stack" where
  [model_defs]: "reset_clean_internal s = s\<lparr>clean_index := -1\<rparr>"

definition undo_internal ::
  "('p, 'd) vtable \<Rightarrow> 'p undo_stack \<times> 'd \<Rightarrow> 'p undo_stack \<times> 'd" where
  "undo_internal vt = (\<lambda>(s, d).
     let i = head s - 1; (c, d') = cmd_undo vt (history s ! i) d
     in (s\<lparr>head := i, history := (history s)[i := c]\<rparr>, d'))"

definition redo_internal ::
  "('p, 'd) vtable \<Rightarrow> 'p undo_stack \<times> 'd \<Rightarrow> 'p undo_stack \<times> 'd" where
  "redo_internal vt = (\<lambda>(s, d).
     let i = head s; (c, d') = cmd_redo vt (history s ! i) d
     in (s\<lparr>head := Suc i, history := (history s)[i := c]\<rparr>, d'))"

definition set_undo_limit :: "nat \<Rightarrow> 'p undo_stack \<Rightarrow> bool \<times> 'p undo_stack" where
  "set_undo_limit n s = (if stack_empty s then (True, s\<lparr>undo_limit := n\<rparr>) else (False, s))"

text \<open>The four phases of \<open>push\<close>, after the command has been executed.\<close>

definition drop_redoable :: "'p undo_stack \<Rightarrow> 'p undo_stack" where
  "drop_redoable s =
     (if can_redo s
      then (let s1 = s\<lparr>history := take (head s) (history s)\<rparr>
            in if int (head s1) < clean_index s1 then reset_clean_internal s1 else s1)
      else s)"

definition try_merge ::
  "('p, 'd) vtable \<Rightarrow> 'p command \<Rightarrow> 'p undo_stack \<Rightarrow> bool \<times> 'p undo_stack" where
  "try_merge vt cmd s =
     (if can_undo s
      then (let i = head s - 1; prev = history s ! i
            in if merge_id cmd \<noteq> -1 \<and> merge_id prev = merge_id cmd
               then (let (ok, prev') = cmd_merge_with vt prev cmd
                     in (ok, s\<lparr>history := (history s)[i := prev']\<rparr>))
               else (False, s))
      else (False, s))"

definition append_command :: "'p command \<Rightarrow> 'p undo_stack \<Rightarrow> 'p undo_stack" where
  "append_command cmd s =
     (let s1 = (if undo_limit s > 0 \<and> stack_count s \<ge> undo_limit s
                then s\<lparr>history := tl (history s)\<rparr> else s)
      in s1\<lparr>history := history s1 @ [cmd]\<rparr>)"

definition drop_obsolete :: "'p undo_stack \<Rightarrow> 'p undo_stack" where
  "drop_obsolete s =
     (if is_obsolete (last (history s))
      then (let s1 = (if clean_index s \<ge> int (stack_count s) then reset_clean_internal s else s)
            in s1\<lparr>history := butlast (history s1)\<rparr>)
      else s)"

definition stack_push ::
  "('p, 'd) vtable \<Rightarrow> 'p command \<Rightarrow> 'p undo_stack \<times> 'd \<Rightarrow> ('p undo_stack \<times> 'd) \<times> signal list" where
  "stack_push vt cmd = (\<lambda>(s, d).
     let (cmd1, d1) = cmd_redo vt cmd d;
         s1 = drop_redoable (take_snapshot s);
         (has_merged, s2) = try_merge vt cmd1 s1;
         s3 = drop_obsolete (if has_merged then s2 else append_command cmd1 s2);
         s4 = s3\<lparr>head := stack_count s3\<rparr>
     in ((s4, d1), check_state_transitions s4))"

definition stack_clear :: "'p undo_stack \<times> 'd \<Rightarrow> ('p undo_stack \<times> 'd) \<times> signal list" where
  "stack_clear = (\<lambda>(s, d).
     let s1 = reset_clean_internal ((take_snapshot s)\<lparr>history := [], head := 0\<rparr>)
     in ((s1, d), check_state_transitions s1))"

definition stack_undo ::
  "('p, 'd) vtable \<Rightarrow> 'p undo_stack \<times> 'd \<Rightarrow> ('p undo_stack \<times> 'd) \<times> signal list" where
  "stack_undo vt = (\<lambda>(s, d).
     if can_undo s
     then (let (s1, d1) = undo_internal vt (take_snapshot s, d)
           in ((s1, d1), check_state_transitions s1))
     else ((s, d), []))"

definition stack_redo ::
  "('p, 'd) vtable \<Rightarrow> 'p undo_stack \<times> 'd \<Rightarrow> ('p undo_stack \<times> 'd) \<times> signal list" where
  "stack_redo vt = (\<lambda>(s, d).
     if can_redo s
     then (let (s1, d1) = redo_internal vt (take_snapshot s, d)
           in ((s1, d1), check_state_transitions s1))
     else ((s, d), []))"

text \<open>
  \<open>set_head\<close> loops until the head reaches the clipped index. The loop is kept as a loop:
  \<open>None\<close> would mean that it does not end.
\<close>

definition set_head ::
  "('p, 'd) vtable \<Rightarrow> nat \<Rightarrow> 'p undo_stack \<times> 'd \<Rightarrow> (('p undo_stack \<times> 'd) \<times> signal list) option" where
  "set_head vt index = (\<lambda>(s, d).
     let i = (if index > stack_count s then stack_count s else index)
     in if i = head s then Some ((s, d), [])
        else map_option (\<lambda>(s1, d1). ((s1, d1), check_state_transitions s1))
          (while_option (\<lambda>(t, e). head t \<noteq> i)
             (if i < head s then undo_internal vt else redo_internal vt)
             (take_snapshot s, d)))"

definition set_clean :: "'p undo_stack \<times> 'd \<Rightarrow> ('p undo_stack \<times> 'd) \<times> signal list" where
  "set_clean = (\<lambda>(s, d).
     let s1 = (take_snapshot s)\<lparr>clean_index := int (head s)\<rparr>
     in ((s1, d), check_state_transitions s1))"

definition reset_clean :: "'p undo_stack \<times> 'd \<Rightarrow> ('p undo_stack \<times> 'd) \<times> signal list" where
  "reset_clean = (\<lambda>(s, d).
     let s1 = reset_clean_internal (take_snapshot s)
     in ((s1, d), check_state_transitions s1))"

text \<open>The operations of the public interface that change the stack, as data.\<close>

datatype 'p stack_op =
    Push "'p command" | Clear | Undo | Redo | Set_Head nat | Set_Clean | Reset_Clean
  | Set_Undo_Limit nat

fun stack_step ::
  "('p, 'd) vtable \<Rightarrow> 'p stack_op \<Rightarrow> 'p undo_stack \<times> 'd \<Rightarrow> (('p undo_stack \<times> 'd) \<times> signal list) option" where
  "stack_step vt (Push c) sd = Some (stack_push vt c sd)"
| "stack_step vt Clear sd = Some (stack_clear sd)"
| "stack_step vt Undo sd = Some (stack_undo vt sd)"
| "stack_step vt Redo sd = Some (stack_redo vt sd)"
| "stack_step vt (Set_Head i) sd = set_head vt i sd"
| "stack_step vt Set_Clean sd = Some (set_clean sd)"
| "stack_step vt Reset_Clean sd = Some (reset_clean sd)"
| "stack_step vt (Set_Undo_Limit n) sd = Some ((snd (set_undo_limit n (fst sd)), snd sd), [])"

fun stack_run ::
  "('p, 'd) vtable \<Rightarrow> 'p stack_op list \<Rightarrow> 'p undo_stack \<times> 'd \<Rightarrow> (('p undo_stack \<times> 'd) \<times> signal list) option" where
  "stack_run vt [] sd = Some (sd, [])"
| "stack_run vt (x # xs) sd =
     (case stack_step vt x sd of
        None \<Rightarrow> None
      | Some (sd1, sigs1) \<Rightarrow>
          (case stack_run vt xs sd1 of
             None \<Rightarrow> None
           | Some (sd2, sigs2) \<Rightarrow> Some (sd2, sigs1 @ sigs2)))"

section \<open>Well-formedness\<close>

text \<open>
  The head is a valid position, the clean index is \<open>-1\<close> or a valid position, and the undo limit,
  when set, is respected.
\<close>

definition wf_stack :: "'p undo_stack \<Rightarrow> bool" where
  [inv_defs]: "wf_stack s \<longleftrightarrow> head s \<le> stack_count s \<and> -1 \<le> clean_index s \<and>
     clean_index s \<le> int (stack_count s) \<and> (undo_limit s > 0 \<longrightarrow> stack_count s \<le> undo_limit s)"

lemma new_stack_wf: "wf_stack new_stack"
  by (simp add: wf_stack_def new_stack_def model_defs)

text \<open>What moving the head leaves alone: everything but the head and the commands themselves.\<close>

definition same_frame :: "'p undo_stack \<Rightarrow> 'p undo_stack \<Rightarrow> bool" where
  "same_frame s t \<longleftrightarrow> t\<lparr>head := head s, history := history s\<rparr> = s \<and> stack_count t = stack_count s"

lemma same_frame_refl [simp]: "same_frame s s"
  by (simp add: same_frame_def)

lemma same_frame_fields:
  assumes "same_frame s t"
  shows "stack_count t = stack_count s" "clean_index t = clean_index s" "undo_limit t = undo_limit s"
    "last_snapshot t = last_snapshot s" "on_head_change t = on_head_change s"
    "on_clean_change t = on_clean_change s" "on_can_undo_change t = on_can_undo_change s"
    "on_can_redo_change t = on_can_redo_change s"
  using assms by (cases s; cases t; simp add: same_frame_def)+

lemma same_frame_trans: "same_frame s t \<Longrightarrow> same_frame t u \<Longrightarrow> same_frame s u"
  by (cases s; cases t; cases u) (auto simp: same_frame_def)

lemma undo_internal_frame: "same_frame s (fst (undo_internal vt (s, d)))"
  by (cases s) (simp add: same_frame_def undo_internal_def stack_count_def split_beta Let_def)

lemma redo_internal_frame: "same_frame s (fst (redo_internal vt (s, d)))"
  by (cases s) (simp add: same_frame_def redo_internal_def stack_count_def split_beta Let_def)

lemma undo_internal_head [simp]: "head (fst (undo_internal vt (s, d))) = head s - 1"
  by (simp add: undo_internal_def split_beta Let_def)

lemma redo_internal_head [simp]: "head (fst (redo_internal vt (s, d))) = Suc (head s)"
  by (simp add: redo_internal_def split_beta Let_def)

text \<open>The two loops of \<open>set_head\<close> end, with the head at the target.\<close>

lemma undo_loop:
  "i \<le> head s \<Longrightarrow> \<exists>s' d'. while_option (\<lambda>(t, e). head t \<noteq> i) (undo_internal vt) (s, d) = Some (s', d')
     \<and> head s' = i \<and> same_frame s s'"
proof (induction "head s - i" arbitrary: s d)
  case 0
  then show ?case by (subst while_option_unfold) auto
next
  case (Suc n)
  let ?sd = "undo_internal vt (s, d)"
  have "n = head (fst ?sd) - i" "i \<le> head (fst ?sd)" using Suc by auto
  from Suc.hyps(1) [OF this, of "snd ?sd"] obtain s' d' where
    "while_option (\<lambda>(t, e). head t \<noteq> i) (undo_internal vt) ?sd = Some (s', d')"
    "head s' = i" "same_frame (fst ?sd) s'"
    by auto
  moreover have "head s \<noteq> i" using Suc.hyps(2) by auto
  ultimately show ?case
    by (subst while_option_unfold) (auto intro: same_frame_trans [OF undo_internal_frame])
qed

lemma redo_loop:
  "head s \<le> i \<Longrightarrow> \<exists>s' d'. while_option (\<lambda>(t, e). head t \<noteq> i) (redo_internal vt) (s, d) = Some (s', d')
     \<and> head s' = i \<and> same_frame s s'"
proof (induction "i - head s" arbitrary: s d)
  case 0
  then show ?case by (subst while_option_unfold) auto
next
  case (Suc n)
  let ?sd = "redo_internal vt (s, d)"
  have "n = i - head (fst ?sd)" "head (fst ?sd) \<le> i" using Suc by auto
  from Suc.hyps(1) [OF this, of "snd ?sd"] obtain s' d' where
    "while_option (\<lambda>(t, e). head t \<noteq> i) (redo_internal vt) ?sd = Some (s', d')"
    "head s' = i" "same_frame (fst ?sd) s'"
    by auto
  moreover have "head s \<noteq> i" using Suc.hyps(2) by auto
  ultimately show ?case
    by (subst while_option_unfold) (auto intro: same_frame_trans [OF redo_internal_frame])
qed

lemma take_snapshot_fields [simp]:
  "history (take_snapshot s) = history s" "head (take_snapshot s) = head s"
  "clean_index (take_snapshot s) = clean_index s" "undo_limit (take_snapshot s) = undo_limit s"
  by (simp_all add: take_snapshot_def)

lemma set_head_returns:
  "\<exists>s' d' sigs. set_head vt index (s, d) = Some ((s', d'), sigs) \<and>
     head s' = min index (stack_count s) \<and>
     (s' = s \<and> d' = d \<and> sigs = [] \<or>
      same_frame (take_snapshot s) s' \<and> sigs = check_state_transitions s')"
proof -
  define i where "i = min index (stack_count s)"
  let ?l = "while_option (\<lambda>(t, e). head t \<noteq> i)
     (if i < head s then undo_internal vt else redo_internal vt) (take_snapshot s, d)"
  have "\<exists>s' d'. ?l = Some (s', d') \<and> head s' = i \<and> same_frame (take_snapshot s) s'"
    using undo_loop [of i "take_snapshot s" vt d] redo_loop [of "take_snapshot s" i vt d]
    by (cases "i < head s") auto
  then obtain s' d' where "?l = Some (s', d')" "head s' = i" "same_frame (take_snapshot s) s'"
    by blast
  moreover have "(if index > stack_count s then stack_count s else index) = i"
    by (auto simp: i_def)
  ultimately show ?thesis
    by (cases "i = head s") (auto simp: set_head_def Let_def simp flip: i_def)
qed

subsection \<open>Every operation keeps the stack well-formed\<close>

lemma same_frame_wf: "wf_stack s \<Longrightarrow> same_frame s t \<Longrightarrow> head t \<le> stack_count s \<Longrightarrow> wf_stack t"
  by (auto simp: wf_stack_def same_frame_fields)

lemma undo_internal_wf: "wf_stack s \<Longrightarrow> wf_stack (fst (undo_internal vt (s, d)))"
  by (rule same_frame_wf [OF _ undo_internal_frame]) (auto simp: wf_stack_def)

lemma redo_internal_wf: "wf_stack s \<Longrightarrow> can_redo s \<Longrightarrow> wf_stack (fst (redo_internal vt (s, d)))"
  by (rule same_frame_wf [OF _ redo_internal_frame]) (auto simp: can_redo_def)

lemma take_snapshot_wf [simp]: "wf_stack (take_snapshot s) = wf_stack s"
  by (simp add: wf_stack_def model_defs)

text \<open>After \<open>drop_redoable\<close> the head is at the end.\<close>

lemma drop_redoable_fields:
  assumes "wf_stack s"
  shows "history (drop_redoable s) = take (head s) (history s)" "head (drop_redoable s) = head s"
    "stack_count (drop_redoable s) = head s" "undo_limit (drop_redoable s) = undo_limit s"
    "clean_index (drop_redoable s) = (if int (head s) < clean_index s then -1 else clean_index s)"
  using assms by (auto simp: drop_redoable_def model_defs wf_stack_def Let_def)

lemma try_merge_fields [simp]:
  "head (snd (try_merge vt c s)) = head s" "stack_count (snd (try_merge vt c s)) = stack_count s"
  "undo_limit (snd (try_merge vt c s)) = undo_limit s"
  "clean_index (snd (try_merge vt c s)) = clean_index s"
  by (simp_all add: try_merge_def model_defs Let_def split_beta)

lemma try_merge_nonempty: "fst (try_merge vt c s) \<Longrightarrow> head s > 0"
  by (auto simp: try_merge_def model_defs split: if_splits)

definition over_limit :: "'p undo_stack \<Rightarrow> bool" where
  "over_limit s \<longleftrightarrow> undo_limit s > 0 \<and> stack_count s \<ge> undo_limit s"

lemma append_command_fields:
  "history (append_command c s) = (if over_limit s then tl (history s) else history s) @ [c]"
  "head (append_command c s) = head s" "clean_index (append_command c s) = clean_index s"
  "undo_limit (append_command c s) = undo_limit s"
  by (simp_all add: append_command_def over_limit_def Let_def)

lemma drop_obsolete_fields:
  "history (drop_obsolete s) = (if is_obsolete (last (history s)) then butlast (history s) else history s)"
  "head (drop_obsolete s) = head s" "undo_limit (drop_obsolete s) = undo_limit s"
  "clean_index (drop_obsolete s) =
     (if is_obsolete (last (history s)) \<and> clean_index s \<ge> int (stack_count s) then -1 else clean_index s)"
  by (simp_all add: drop_obsolete_def Let_def reset_clean_internal_def)

lemma stack_push_wf:
  assumes "wf_stack s"
  shows "wf_stack (fst (fst (stack_push vt c (s, d))))"
proof -
  let ?s1 = "drop_redoable (take_snapshot s)"
  obtain c1 d1 where c1: "cmd_redo vt c d = (c1, d1)" by fastforce
  obtain m s2 where m: "try_merge vt c1 ?s1 = (m, s2)" by fastforce
  note f = drop_redoable_fields [of "take_snapshot s"]
  have s2: "head s2 = head s" "stack_count s2 = head s" "undo_limit s2 = undo_limit s"
    "clean_index s2 = (if int (head s) < clean_index s then -1 else clean_index s)"
    using try_merge_fields [of vt c1 ?s1] f assms by (simp_all add: m)
  have pos: "m \<Longrightarrow> head s > 0"
    using try_merge_nonempty [of vt c1 ?s1] f(2) assms by (simp add: m)
  have "wf_stack (let t = drop_obsolete (if m then s2 else append_command c1 s2) in t\<lparr>head := stack_count t\<rparr>)"
    using assms s2 pos
    by (auto simp: wf_stack_def stack_count_def Let_def drop_obsolete_fields append_command_fields
        over_limit_def split: if_splits)
  then show ?thesis by (simp add: stack_push_def c1 m Let_def)
qed

lemma stack_step_wf:
  assumes "wf_stack s" "stack_step vt x (s, d) = Some ((s', d'), sigs)"
  shows "wf_stack s'"
proof (cases x)
  case (Push c)
  then show ?thesis using assms stack_push_wf [OF assms(1), of vt c d] by auto
next
  case Undo
  with assms undo_internal_wf [of "take_snapshot s" vt d] show ?thesis
    by (auto simp: stack_undo_def split_beta split: if_splits)
next
  case Redo
  with assms redo_internal_wf [of "take_snapshot s" vt d] show ?thesis
    by (auto simp: stack_redo_def split_beta can_redo_def stack_count_def split: if_splits)
next
  case (Set_Head i)
  with assms set_head_returns [of vt i s d] show ?thesis
    by (auto intro: same_frame_wf [of "take_snapshot s"] simp: stack_count_def)
qed (use assms in \<open>auto simp: stack_clear_def set_clean_def reset_clean_def set_undo_limit_def
       wf_stack_def model_defs Let_def split: if_splits\<close>)

section \<open>Observers\<close>

text \<open>
  An observer of the four functors keeps the values it was last told.
\<close>

record observer =
  obs_head :: nat
  obs_clean :: bool
  obs_can_undo :: bool
  obs_can_redo :: bool

fun observe :: "signal \<Rightarrow> observer \<Rightarrow> observer" where
  "observe (Head_Change f n) ob = ob\<lparr>obs_head := n\<rparr>"
| "observe (Clean_Change f b) ob = ob\<lparr>obs_clean := b\<rparr>"
| "observe (Can_Undo_Change f b) ob = ob\<lparr>obs_can_undo := b\<rparr>"
| "observe (Can_Redo_Change f b) ob = ob\<lparr>obs_can_redo := b\<rparr>"

definition view :: "'p undo_stack \<Rightarrow> observer" where
  "view s = \<lparr>obs_head = head s, obs_clean = is_clean s, obs_can_undo = can_undo s,
     obs_can_redo = can_redo s\<rparr>"

text \<open>The functor calls turn the view at the snapshot into the current view.\<close>

lemma check_state_transitions_sync:
  assumes "last_snapshot t = last_snapshot (take_snapshot s)"
  shows "fold observe (check_state_transitions t) (view s) = view t"
  using assms by (simp add: check_state_transitions_def view_def take_snapshot_def)

lemma phases_last_snapshot [simp]:
  "last_snapshot (drop_redoable s) = last_snapshot s"
  "last_snapshot (snd (try_merge vt c s)) = last_snapshot s"
  "last_snapshot (append_command c s) = last_snapshot s"
  "last_snapshot (drop_obsolete s) = last_snapshot s"
  by (simp_all add: drop_redoable_def try_merge_def append_command_def drop_obsolete_def
      reset_clean_internal_def Let_def split_beta)

lemma stack_step_sync:
  assumes "stack_step vt x (s, d) = Some ((s', d'), sigs)"
  shows "fold observe sigs (view s) = view s'"
proof (cases x)
  case (Push c)
  with assms show ?thesis
    by (auto simp: stack_push_def Let_def split_beta check_state_transitions_sync)
next
  case Undo
  have "last_snapshot (fst (undo_internal vt (take_snapshot s, d))) = last_snapshot (take_snapshot s)"
    by (rule same_frame_fields(4) [OF undo_internal_frame])
  with Undo assms show ?thesis
    by (auto simp: stack_undo_def split_beta check_state_transitions_sync split: if_splits)
next
  case Redo
  have "last_snapshot (fst (redo_internal vt (take_snapshot s, d))) = last_snapshot (take_snapshot s)"
    by (rule same_frame_fields(4) [OF redo_internal_frame])
  with Redo assms show ?thesis
    by (auto simp: stack_redo_def split_beta check_state_transitions_sync split: if_splits)
next
  case (Set_Head i)
  with assms set_head_returns [of vt i s d] show ?thesis
    by (auto simp: check_state_transitions_sync same_frame_fields(4))
next
  case (Set_Undo_Limit n)
  with assms show ?thesis by (auto simp: view_def set_undo_limit_def model_defs split: if_splits)
qed (use assms in \<open>auto simp: stack_clear_def set_clean_def reset_clean_def Let_def model_defs
       check_state_transitions_sync\<close>)

section \<open>Refinement: the stack is a timeline of documents\<close>

text \<open>
  \<open>tracks vt s d ds\<close>: the stack \<open>s\<close> with the document \<open>d\<close> represents the timeline \<open>ds\<close>, whose
  position \<open>i\<close> is the document as it was (or will be) when the head is at \<open>i\<close>.
\<close>

definition tracks :: "('p, 'd) vtable \<Rightarrow> 'p undo_stack \<Rightarrow> 'd \<Rightarrow> 'd list \<Rightarrow> bool" where
  "tracks vt s d ds \<longleftrightarrow> wf_stack s \<and>
     timeline (cmd_done vt) (cmd_undone vt) (history s) (head s) ds \<and> d = ds ! head s"

lemma tracks_new_stack: "tracks vt new_stack d [d]"
  by (simp add: tracks_def wf_stack_def timeline_def new_stack_def model_defs)

lemma tracks_snapshot [simp]: "tracks vt (take_snapshot s) d ds = tracks vt s d ds"
  by (simp add: tracks_def)

lemma undo_internal_tracks:
  assumes "tracks vt s d ds" "head s > 0"
  shows "tracks vt (fst (undo_internal vt (s, d))) (snd (undo_internal vt (s, d))) ds"
proof -
  obtain n where n: "head s = Suc n" using assms(2) by (cases "head s") auto
  have "timeline (cmd_done vt) (cmd_undone vt) (history s) (Suc n) ds" "n < length (history s)"
    using assms n by (auto simp: tracks_def wf_stack_def model_defs)
  from cmds.timeline_undo [OF this] show ?thesis
    using assms n undo_internal_wf [of s vt d]
    by (auto simp: tracks_def undo_internal_def Let_def split_beta)
qed

lemma redo_internal_tracks:
  assumes "tracks vt s d ds" "can_redo s"
  shows "tracks vt (fst (redo_internal vt (s, d))) (snd (redo_internal vt (s, d))) ds"
proof -
  have "timeline (cmd_done vt) (cmd_undone vt) (history s) (head s) ds" "head s < length (history s)"
    using assms by (auto simp: tracks_def model_defs)
  from cmds.timeline_redo [OF this] show ?thesis
    using assms redo_internal_wf [of s vt d]
    by (auto simp: tracks_def redo_internal_def Let_def split_beta)
qed

lemma undo_loop_tracks:
  assumes "tracks vt s d ds" "i \<le> head s"
    and "while_option (\<lambda>(t, e). head t \<noteq> i) (undo_internal vt) (s, d) = Some (s', d')"
  shows "tracks vt s' d' ds"
proof -
  have "case (s', d') of (t, e) \<Rightarrow> tracks vt t e ds \<and> i \<le> head t"
    by (rule while_option_rule [OF _ assms(3), where P = "\<lambda>(t, e). tracks vt t e ds \<and> i \<le> head t"])
      (use assms in \<open>auto simp: split_beta undo_internal_tracks\<close>)
  then show ?thesis by simp
qed

lemma redo_loop_tracks:
  assumes "tracks vt s d ds" "head s \<le> i" "i \<le> stack_count s"
    and "while_option (\<lambda>(t, e). head t \<noteq> i) (redo_internal vt) (s, d) = Some (s', d')"
  shows "tracks vt s' d' ds"
proof -
  let ?P = "\<lambda>(t, e). tracks vt t e ds \<and> head t \<le> i \<and> i \<le> stack_count t"
  have "?P (s', d')"
  proof (rule while_option_rule [OF _ assms(4), where P = ?P])
    show "?P (s, d)" using assms by simp
    show "?P (redo_internal vt x)" if "?P x" "(\<lambda>(t, e). head t \<noteq> i) x" for x
    proof (cases x)
      case (Pair t e)
      with that same_frame_fields(1) [OF redo_internal_frame [of t vt e]]
        redo_internal_tracks [of vt t e ds] show ?thesis
        by (auto simp: split_beta can_redo_def)
    qed
  qed
  then show ?thesis by simp
qed

lemma set_head_tracks:
  assumes "tracks vt s d ds"
  shows "\<exists>s' d' sigs. set_head vt index (s, d) = Some ((s', d'), sigs) \<and> tracks vt s' d' ds \<and>
    head s' = min index (stack_count s)"
proof -
  define i where "i = min index (stack_count s)"
  obtain s' d' sigs where r: "set_head vt index (s, d) = Some ((s', d'), sigs)" "head s' = i"
    using set_head_returns [of vt index s d] by (auto simp: i_def)
  have i: "(if index > stack_count s then stack_count s else index) = i"
    by (auto simp: i_def)
  have "tracks vt s' d' ds"
    using r(1) assms undo_loop_tracks [of vt "take_snapshot s" d ds i s' d']
      redo_loop_tracks [of vt "take_snapshot s" d ds i s' d']
    by (auto simp: set_head_def i Let_def i_def stack_count_def split: if_splits)
  with r show ?thesis by (auto simp: i_def)
qed

subsection \<open>Pushing\<close>

text \<open>
  What the documentation of \<open>merge_with\<close> and \<open>set_obsolete\<close> asks of the overrides: a merged
  command does what the two commands did in order, a refused merge leaves the command as it was,
  and an obsolete command has no effect.
\<close>

definition merge_contract :: "('p, 'd) vtable \<Rightarrow> bool" where
  "merge_contract vt \<longleftrightarrow> (\<forall>prev cmd d0 d1 d2 ok prev'.
     cmd_done vt prev d0 d1 \<longrightarrow> cmd_done vt cmd d1 d2 \<longrightarrow> cmd_merge_with vt prev cmd = (ok, prev') \<longrightarrow>
     cmd_done vt prev' d0 (if ok then d2 else d1))"

definition obsolete_contract :: "('p, 'd) vtable \<Rightarrow> bool" where
  "obsolete_contract vt \<longleftrightarrow> (\<forall>c d0 d1. cmd_done vt c d0 d1 \<longrightarrow> is_obsolete c \<longrightarrow> d0 = d1)"

text \<open>
  The effect of a push on the timeline \<open>ds\<close> at position \<open>n\<close>, for a new document \<open>d'\<close>: the
  future is cut off; a merge replaces the last document, otherwise the new document is
  appended and the oldest one forgotten when the limit is reached; an obsolete command adds
  nothing.
\<close>

definition push_timeline :: "bool \<Rightarrow> bool \<Rightarrow> bool \<Rightarrow> 'd list \<Rightarrow> nat \<Rightarrow> 'd \<Rightarrow> 'd list" where
  "push_timeline merged full obsolete ds n d' =
     (let past = (if merged then take n ds else if full then tl (take (Suc n) ds) else take (Suc n) ds)
      in if obsolete then past else past @ [d'])"

text \<open>
  A pushed command merges when there is a command before the head, both have the same merge id,
  which is not the id \<open>-1\<close> of the commands that never merge, and that command accepts the merge.
  What is then obsolete or not is the merged command, otherwise the pushed one.
\<close>

definition push_merges :: "('p, 'd) vtable \<Rightarrow> 'p command \<Rightarrow> 'p undo_stack \<Rightarrow> 'd \<Rightarrow> bool" where
  "push_merges vt c s d \<longleftrightarrow>
     (let c1 = fst (cmd_redo vt c d); prev = history s ! (head s - 1)
      in head s > 0 \<and> merge_id c1 = merge_id prev \<and> merge_id prev \<noteq> -1 \<and> fst (cmd_merge_with vt prev c1))"

definition push_obsolete :: "('p, 'd) vtable \<Rightarrow> 'p command \<Rightarrow> 'p undo_stack \<Rightarrow> 'd \<Rightarrow> bool" where
  "push_obsolete vt c s d \<longleftrightarrow>
     (let c1 = fst (cmd_redo vt c d)
      in is_obsolete (if push_merges vt c s d then snd (cmd_merge_with vt (history s ! (head s - 1)) c1) else c1))"

lemma push_flags:
  assumes "wf_stack s" "cmd_redo vt c d = (c1, d1)" "try_merge vt c1 (drop_redoable (take_snapshot s)) = (m, s2)"
  shows "push_merges vt c s d = m"
    "push_obsolete vt c s d = is_obsolete (last (history (if m then s2 else append_command c1 s2)))"
proof -
  note f = drop_redoable_fields [of "take_snapshot s", unfolded take_snapshot_wf, OF assms(1)]
  have n: "head s \<le> length (history s)" using assms(1) by (simp add: wf_stack_def stack_count_def)
  have prev: "head s > 0 \<Longrightarrow> history (drop_redoable (take_snapshot s)) ! (head s - 1) = history s ! (head s - 1)"
    using f(1) by simp
  show m: "push_merges vt c s d = m"
    using assms(2,3) f(2) prev by (auto simp: push_merges_def try_merge_def can_undo_def Let_def split: if_splits prod.splits)
  show "push_obsolete vt c s d = is_obsolete (last (history (if m then s2 else append_command c1 s2)))"
  proof (cases m)
    case True
    with m have pm: "push_merges vt c s d" by simp
    then have h: "head s > 0" by (simp add: push_merges_def Let_def)
    from True assms(3) f(2) prev [OF h] h have "history s2 =
        (history (drop_redoable (take_snapshot s)))[head s - 1 := snd (cmd_merge_with vt (history s ! (head s - 1)) c1)]"
      by (auto simp: try_merge_def can_undo_def Let_def split: if_splits prod.splits)
    then have "last (history s2) = snd (cmd_merge_with vt (history s ! (head s - 1)) c1)"
      using f(1) n h by (subst last_conv_nth) auto
    with pm True assms(2) show ?thesis by (simp add: push_obsolete_def)
  next
    case False
    with m assms(2) show ?thesis by (simp add: push_obsolete_def append_command_def)
  qed
qed

definition push_full :: "'p undo_stack \<Rightarrow> bool" where
  "push_full s \<longleftrightarrow> undo_limit s > 0 \<and> head s \<ge> undo_limit s"

lemma append_command_timeline:
  assumes t: "timeline E R (history s) (stack_count s) ds" and c: "E c (last ds) d"
  shows "timeline E R (history (append_command c s)) (stack_count (append_command c s))
           ((if over_limit s then tl ds else ds) @ [d])"
proof (cases "over_limit s")
  case True
  then have ne: "history s \<noteq> []" by (auto simp: over_limit_def stack_count_def)
  have "length ds = Suc (length (history s))" using t by (simp add: timeline_def)
  with ne have "last (tl ds) = last ds" by (cases ds; cases "tl ds") auto
  with timeline_snoc [of E R "tl (history s)" "tl ds" c d] timeline_tl [of E R "history s" ds] t c ne True
  show ?thesis by (simp add: append_command_fields stack_count_def)
next
  case False
  with timeline_snoc [of E R "history s" ds c d] t c show ?thesis
    by (simp add: append_command_fields stack_count_def)
qed

lemma try_merge_timeline:
  assumes t: "timeline (cmd_done vt) (cmd_undone vt) (history s) (stack_count s) ds"
    and hd: "head s = stack_count s" and mc: "merge_contract vt"
    and c: "cmd_done vt c (last ds) d" and m: "try_merge vt c s = (m, s')"
  shows "timeline (cmd_done vt) (cmd_undone vt) (history s') (stack_count s')
           (if m then butlast ds @ [d] else ds)"
proof (cases "history s = [] \<or> merge_id c = -1 \<or> merge_id (last (history s)) \<noteq> merge_id c")
  case True
  then have "m = False" "s' = s"
    using m hd by (auto simp: try_merge_def model_defs last_conv_nth split: if_splits)
  with t show ?thesis by simp
next
  case False
  let ?h = "history s" and ?n = "length (history s)"
  have ne: "?h \<noteq> []" using False by simp
  have len: "length ds = Suc ?n" using t by (simp add: timeline_def)
  then have ds: "last ds = ds ! ?n" "butlast ds @ [last ds] = ds"
    by (metis diff_Suc_1 last_conv_nth list.size(3) nat.simps(3),
        metis append_butlast_last_id list.size(3) nat.simps(3))
  obtain prev' ok where mm: "cmd_merge_with vt (last ?h) c = (ok, prev')" by fastforce
  have "try_merge vt c s = (ok, s\<lparr>history := ?h[?n - 1 := prev']\<rparr>)"
    using hd False mm last_conv_nth [OF ne]
    by (simp add: try_merge_def can_undo_def stack_count_def Let_def)
  with m have s': "s' = s\<lparr>history := ?h[?n - 1 := prev']\<rparr>" and [simp]: "ok = m" by auto
  have "cmd_done vt (last ?h) (ds ! (?n - 1)) (ds ! ?n)"
    using timeline_last [OF _ ne] t by (simp add: stack_count_def)
  with mc mm c ds(1) have "cmd_done vt prev' (ds ! (?n - 1)) (if m then d else last ds)"
    by (auto simp: merge_contract_def)
  with timeline_replace_last [of "cmd_done vt" "cmd_undone vt" ?h ds prev' "if m then d else last ds"]
    t ne ds(2) s' show ?thesis by (auto simp: stack_count_def)
qed

text \<open>The stack and the timeline after the merge-or-append phase.\<close>

lemma merge_or_append_tracks:
  assumes tr: "tracks vt s d ds" and wb: "well_behaved vt c" and mc: "merge_contract vt"
    and c1: "cmd_redo vt c d = (c1, d1)"
    and m: "try_merge vt c1 (drop_redoable (take_snapshot s)) = (m, s2)"
    and s3: "s3 = (if m then s2 else append_command c1 s2)"
  shows "timeline (cmd_done vt) (cmd_undone vt) (history s3) (stack_count s3)
           (push_timeline m (push_full s) False ds (head s) d1)"
proof -
  let ?n = "head s" and ?s1 = "drop_redoable (take_snapshot s)"
  have n: "?n < length ds" "?n \<le> length (history s)" and wf: "wf_stack s" and d: "d = ds ! ?n"
    using tr by (auto simp: tracks_def timeline_def)
  note f = drop_redoable_fields [of "take_snapshot s", unfolded take_snapshot_wf, OF wf]
  have t1: "timeline (cmd_done vt) (cmd_undone vt) (history ?s1) (stack_count ?s1) (take (Suc ?n) ds)"
    using tr timeline_take [of _ _ "history s" ?n ds] f by (simp add: tracks_def)
  have c1d: "cmd_done vt c1 (last (take (Suc ?n) ds)) d1"
    using wb c1 d last_take_Suc [OF n(1)]
    by (metis fst_conv snd_conv well_behaved_def)
  have t2: "timeline (cmd_done vt) (cmd_undone vt) (history s2) (stack_count s2)
      (if m then take ?n ds @ [d1] else take (Suc ?n) ds)"
    using try_merge_timeline [OF t1 _ mc c1d m] f butlast_take_Suc [OF n(1)] by (cases m) simp_all
  have "over_limit s2 = push_full s"
    using try_merge_fields [of vt c1 ?s1] m f by (simp add: over_limit_def push_full_def)
  with append_command_timeline [of "cmd_done vt" "cmd_undone vt" s2 "take (Suc ?n) ds" c1 d1] c1d t2 s3
  show ?thesis
    by (simp add: push_timeline_def split: if_splits)
qed

lemma drop_obsolete_tracks:
  assumes t: "timeline (cmd_done vt) (cmd_undone vt) (history s) (stack_count s) ds"
    and ne: "history s \<noteq> []" and oc: "obsolete_contract vt" and d: "d = last ds"
    and wf: "wf_stack ((drop_obsolete s)\<lparr>head := stack_count (drop_obsolete s)\<rparr>)"
  shows "tracks vt ((drop_obsolete s)\<lparr>head := stack_count (drop_obsolete s)\<rparr>) d
           (if is_obsolete (last (history s)) then butlast ds else ds)"
proof -
  let ?n = "length (history s)"
  have len: "length ds = Suc ?n" using t by (simp add: timeline_def)
  then have ne': "ds \<noteq> []" by auto
  have d': "d = ds ! ?n" using d len last_conv_nth [OF ne'] by simp
  have "cmd_done vt (last (history s)) (ds ! (?n - 1)) (ds ! ?n)"
    using timeline_last [OF _ ne] t by (simp add: stack_count_def)
  with oc have ob: "is_obsolete (last (history s)) \<Longrightarrow> ds ! (?n - 1) = ds ! ?n"
    by (auto simp: obsolete_contract_def)
  have "timeline (cmd_done vt) (cmd_undone vt) (butlast (history s)) (?n - 1) (butlast ds)"
    using timeline_butlast [OF _ ne] t by (simp add: stack_count_def)
  with t d' ob wf ne len show ?thesis
    by (auto simp: tracks_def stack_count_def drop_obsolete_fields nth_butlast)
qed

lemma stack_push_tracks:
  assumes tr: "tracks vt s d ds" and wb: "well_behaved vt c"
    and mc: "merge_contract vt" and oc: "obsolete_contract vt"
    and push: "stack_push vt c (s, d) = ((s', d'), sigs)"
  shows "tracks vt s' d' (push_timeline (push_merges vt c s d) (push_full s) (push_obsolete vt c s d)
      ds (head s) d')"
proof -
  obtain c1 d1 where c1: "cmd_redo vt c d = (c1, d1)" by fastforce
  obtain m s2 where m: "try_merge vt c1 (drop_redoable (take_snapshot s)) = (m, s2)" by fastforce
  let ?s3 = "if m then s2 else append_command c1 s2"
  let ?s4 = "(drop_obsolete ?s3)\<lparr>head := stack_count (drop_obsolete ?s3)\<rparr>"
  let ?ds = "push_timeline m (push_full s) False ds (head s) d1"
  have r: "s' = ?s4" "d' = d1" using push by (auto simp: stack_push_def c1 m Let_def)
  have "wf_stack s" using tr by (simp add: tracks_def)
  from stack_push_wf [OF this, of vt c d] push r have wf: "wf_stack ?s4" by simp
  have ne: "history ?s3 \<noteq> []"
    using try_merge_nonempty [of vt c1 "drop_redoable (take_snapshot s)"]
      try_merge_fields(2) [of vt c1 "drop_redoable (take_snapshot s)"] tr m
      drop_redoable_fields [of "take_snapshot s"]
    by (auto simp: append_command_fields tracks_def stack_count_def)
  have "d1 = last ?ds" by (simp add: push_timeline_def Let_def)
  from drop_obsolete_tracks [OF merge_or_append_tracks [OF tr wb mc c1 m refl] ne oc this wf]
  have "tracks vt s' d' (if is_obsolete (last (history ?s3)) then butlast ?ds else ?ds)"
    by (simp add: r)
  moreover have "butlast ?ds = push_timeline m (push_full s) True ds (head s) d1"
    by (simp add: push_timeline_def Let_def)
  moreover have "wf_stack s" using tr by (simp add: tracks_def)
  note push_flags [OF this c1 m]
  ultimately show ?thesis using r(2) by (cases "is_obsolete (last (history ?s3))") simp_all
qed

subsection \<open>Runs\<close>

definition op_well_behaved :: "('p, 'd) vtable \<Rightarrow> 'p stack_op \<Rightarrow> bool" where
  "op_well_behaved vt x = (case x of Push c \<Rightarrow> well_behaved vt c | _ \<Rightarrow> True)"

text \<open>The timeline after an operation.\<close>

definition step_timeline ::
  "('p, 'd) vtable \<Rightarrow> 'p stack_op \<Rightarrow> 'p undo_stack \<Rightarrow> 'd \<Rightarrow> 'd list \<Rightarrow> 'd list" where
  "step_timeline vt x s d ds = (case x of
     Push c \<Rightarrow> push_timeline (push_merges vt c s d) (push_full s) (push_obsolete vt c s d) ds (head s)
                (snd (cmd_redo vt c d))
   | Clear \<Rightarrow> [d]
   | _ \<Rightarrow> ds)"

lemma stack_step_returns: "\<exists>s' d' sigs. stack_step vt x (s, d) = Some ((s', d'), sigs)"
proof (cases x)
  case (Set_Head i)
  with set_head_returns [of vt i s d] show ?thesis by auto
qed (auto simp: prod_eq_iff)

lemma stack_step_tracks:
  assumes tr: "tracks vt s d ds" and wb: "op_well_behaved vt x"
    and mc: "merge_contract vt" and oc: "obsolete_contract vt"
    and step: "stack_step vt x (s, d) = Some ((s', d'), sigs)"
  shows "tracks vt s' d' (step_timeline vt x s d ds)"
proof -
  have wf: "wf_stack s'" using stack_step_wf [OF _ step] tr by (simp add: tracks_def)
  show ?thesis
  proof (cases x)
    case (Push c)
    with stack_push_tracks [OF tr _ mc oc, of c] wb step show ?thesis
      by (auto simp: op_well_behaved_def step_timeline_def stack_push_def split_beta Let_def)
  next
    case Undo
    with step tr undo_internal_tracks [of vt "take_snapshot s" d ds] show ?thesis
      by (auto simp: stack_undo_def step_timeline_def split_beta model_defs split: if_splits)
  next
    case Redo
    with step tr redo_internal_tracks [of vt "take_snapshot s" d ds] show ?thesis
      by (auto simp: stack_redo_def step_timeline_def split_beta model_defs split: if_splits)
  next
    case (Set_Head i)
    with step set_head_tracks [OF tr, of i] show ?thesis by (auto simp: step_timeline_def)
  qed (use step tr wf in \<open>auto simp: tracks_def timeline_def step_timeline_def stack_clear_def set_clean_def
         reset_clean_def set_undo_limit_def model_defs Let_def split: if_splits\<close>)
qed

lemma stack_run_tracks:
  assumes "tracks vt s d ds" "\<forall>x \<in> set xs. op_well_behaved vt x"
    and "merge_contract vt" "obsolete_contract vt"
  shows "\<exists>s' d' sigs ds'. stack_run vt xs (s, d) = Some ((s', d'), sigs) \<and> tracks vt s' d' ds' \<and>
     fold observe sigs (view s) = view s'"
  using assms(1,2)
proof (induction xs arbitrary: s d ds)
  case (Cons x xs)
  obtain s1 d1 sigs1 where step: "stack_step vt x (s, d) = Some ((s1, d1), sigs1)"
    using stack_step_returns [of vt x s d] by blast
  have "tracks vt s1 d1 (step_timeline vt x s d ds)"
    by (rule stack_step_tracks [OF Cons.prems(1) _ assms(3,4) step]) (use Cons.prems in simp)
  from Cons.IH [OF this] Cons.prems(2) obtain s' d' sigs ds' where
    "stack_run vt xs (s1, d1) = Some ((s', d'), sigs)" "tracks vt s' d' ds'"
    "fold observe sigs (view s1) = view s'"
    by auto
  with step stack_step_sync [OF step] show ?case by auto
qed auto

text \<open>Every run from any stack returns, keeps the invariant and informs observers exactly.\<close>

lemma stack_run_wf_sync:
  assumes "wf_stack s"
  shows "\<exists>s' d' sigs. stack_run vt xs (s, d) = Some ((s', d'), sigs) \<and> wf_stack s' \<and>
     fold observe sigs (view s) = view s'"
  using assms
proof (induction xs arbitrary: s d)
  case (Cons x xs)
  obtain s1 d1 sigs1 where step: "stack_step vt x (s, d) = Some ((s1, d1), sigs1)"
    using stack_step_returns [of vt x s d] by blast
  from Cons.IH [OF stack_step_wf [OF Cons.prems step], of d1] obtain s' d' sigs where
    "stack_run vt xs (s1, d1) = Some ((s', d'), sigs)" "wf_stack s'"
    "fold observe sigs (view s1) = view s'"
    by auto
  with step stack_step_sync [OF step] show ?case by auto
qed auto

text \<open>Operations that keep the oldest document: no clearing, no limit.\<close>

definition keeps_origin :: "'p stack_op \<Rightarrow> bool" where
  "keeps_origin x = (case x of Clear \<Rightarrow> False | Set_Undo_Limit n \<Rightarrow> n = 0 | _ \<Rightarrow> True)"

lemma same_frame_limit: "same_frame (take_snapshot s) t \<Longrightarrow> undo_limit t = undo_limit s"
  using same_frame_fields(3) by fastforce

lemma stack_step_unlimited:
  assumes "undo_limit s = 0" "keeps_origin x" "stack_step vt x (s, d) = Some ((s', d'), sigs)"
  shows "undo_limit s' = 0"
proof (cases x)
  case (Push c)
  have "undo_limit (drop_redoable (take_snapshot s)) = undo_limit s"
    by (simp add: drop_redoable_def reset_clean_internal_def Let_def)
  with Push assms show ?thesis
    by (auto simp: stack_push_def Let_def split_beta drop_obsolete_fields append_command_fields)
next
  case Undo
  with assms same_frame_limit [OF undo_internal_frame [of "take_snapshot s" vt d]] show ?thesis
    by (auto simp: stack_undo_def split_beta split: if_splits)
next
  case Redo
  with assms same_frame_limit [OF redo_internal_frame [of "take_snapshot s" vt d]] show ?thesis
    by (auto simp: stack_redo_def split_beta split: if_splits)
next
  case (Set_Head i)
  with assms set_head_returns [of vt i s d] show ?thesis by (auto dest: same_frame_limit)
qed (use assms in \<open>auto simp: stack_clear_def set_clean_def reset_clean_def set_undo_limit_def keeps_origin_def
       model_defs Let_def split: if_splits\<close>)

lemma push_merges_head: "push_merges vt c s d \<Longrightarrow> head s > 0"
  by (simp add: push_merges_def Let_def)

lemma step_timeline_origin:
  assumes "tracks vt s d ds" "undo_limit s = 0" "keeps_origin x"
  shows "step_timeline vt x s d ds ! 0 = ds ! 0"
proof -
  have "ds \<noteq> []" using assms(1) by (auto simp: tracks_def timeline_def)
  with assms show ?thesis
    by (auto simp: step_timeline_def push_timeline_def push_full_def keeps_origin_def nth_append Let_def
        dest: push_merges_head split: stack_op.splits)
qed

lemma stack_run_origin:
  assumes "tracks vt s d ds" "undo_limit s = 0" "\<forall>x \<in> set xs. op_well_behaved vt x \<and> keeps_origin x"
    and "merge_contract vt" "obsolete_contract vt"
  shows "\<exists>s' d' sigs ds'. stack_run vt xs (s, d) = Some ((s', d'), sigs) \<and> tracks vt s' d' ds' \<and>
     ds' ! 0 = ds ! 0"
  using assms(1-3)
proof (induction xs arbitrary: s d ds)
  case (Cons x xs)
  obtain s1 d1 sigs1 where step: "stack_step vt x (s, d) = Some ((s1, d1), sigs1)"
    using stack_step_returns [of vt x s d] by blast
  have x: "op_well_behaved vt x" "keeps_origin x" using Cons.prems(3) by auto
  note t1 = stack_step_tracks [OF Cons.prems(1) x(1) assms(4,5) step]
  from Cons.IH [OF t1 stack_step_unlimited [OF Cons.prems(2) x(2) step]] Cons.prems(3)
    step_timeline_origin [OF Cons.prems(1,2) x(2)] step
  show ?case by fastforce
qed auto

subsection \<open>The clean state\<close>

text \<open>
  \<open>saved_at s ds sv\<close>: when the stack has a clean index, the document at that position of the
  timeline is the document \<open>sv\<close> that was marked clean.
\<close>

definition saved_at :: "'p undo_stack \<Rightarrow> 'd list \<Rightarrow> 'd option \<Rightarrow> bool" where
  "saved_at s ds sv \<longleftrightarrow> (clean_index s \<ge> 0 \<longrightarrow> sv = Some (ds ! nat (clean_index s)))"

lemma stack_push_clean_index:
  assumes "wf_stack s" "stack_push vt c (s, d) = ((s', d'), sigs)" "clean_index s' \<ge> 0"
  shows "clean_index s' = clean_index s" "clean_index s \<le> int (head s)"
proof -
  obtain c1 d1 where c1: "cmd_redo vt c d = (c1, d1)" by fastforce
  obtain m s2 where m: "try_merge vt c1 (drop_redoable (take_snapshot s)) = (m, s2)" by fastforce
  have "clean_index s2 = (if int (head s) < clean_index s then -1 else clean_index s)"
    using try_merge_fields(4) [of vt c1 "drop_redoable (take_snapshot s)"] m
      drop_redoable_fields(5) [of "take_snapshot s"] assms(1) by simp
  with assms(2,3) show "clean_index s' = clean_index s" "clean_index s \<le> int (head s)"
    by (auto simp: stack_push_def c1 m Let_def drop_obsolete_fields append_command_fields split: if_splits)
qed

lemma stack_push_saved:
  assumes tr: "tracks vt s d ds" and sv: "saved_at s ds sv"
    and plain: "\<not> push_merges vt c s d" "\<not> push_full s"
    and push: "stack_push vt c (s, d) = ((s', d'), sigs)"
  shows "saved_at s' (push_timeline False False ob ds (head s) e) sv"
proof -
  have wf: "wf_stack s" and n: "head s < length ds" using tr by (auto simp: tracks_def timeline_def)
  show ?thesis
    using stack_push_clean_index [OF wf push] sv n
    by (auto simp: saved_at_def push_timeline_def nth_append nat_le_iff Let_def)
qed

lemma same_frame_clean: "same_frame (take_snapshot s) t \<Longrightarrow> clean_index t = clean_index s"
  using same_frame_fields(2) by fastforce

lemma no_merge: "merge_override vt = (\<lambda>_. None) \<Longrightarrow> \<not> push_merges vt c s d"
  by (auto simp: push_merges_def cmd_merge_with_def base_merge_with_def Let_def)

lemma no_merge_contract: "merge_override vt = (\<lambda>_. None) \<Longrightarrow> merge_contract vt"
  by (auto simp: merge_contract_def cmd_merge_with_def base_merge_with_def)

text \<open>The document marked clean by the last \<open>set_clean\<close> of a run.\<close>

fun saved_after ::
  "('p, 'd) vtable \<Rightarrow> 'p stack_op list \<Rightarrow> 'p undo_stack \<times> 'd \<Rightarrow> 'd option \<Rightarrow> 'd option" where
  "saved_after vt [] sd sv = sv"
| "saved_after vt (x # xs) (s, d) sv =
     (case stack_step vt x (s, d) of
        None \<Rightarrow> sv
      | Some (sd1, sigs) \<Rightarrow> saved_after vt xs sd1 (case x of Set_Clean \<Rightarrow> Some d | _ \<Rightarrow> sv))"

lemma stack_step_saved:
  assumes tr: "tracks vt s d ds" and sv: "saved_at s ds sv" and lim: "undo_limit s = 0"
    and nm: "merge_override vt = (\<lambda>_. None)" and step: "stack_step vt x (s, d) = Some ((s', d'), sigs)"
  shows "saved_at s' (step_timeline vt x s d ds) (case x of Set_Clean \<Rightarrow> Some d | _ \<Rightarrow> sv)"
proof (cases x)
  case (Push c)
  with stack_push_saved [OF tr sv no_merge [OF nm]] step lim show ?thesis
    by (auto simp: step_timeline_def push_full_def no_merge [OF nm] split: prod.splits)
next
  case Undo
  with sv step same_frame_clean [OF undo_internal_frame [of "take_snapshot s" vt d]] show ?thesis
    by (auto simp: stack_undo_def step_timeline_def saved_at_def split_beta split: if_splits)
next
  case Redo
  with sv step same_frame_clean [OF redo_internal_frame [of "take_snapshot s" vt d]] show ?thesis
    by (auto simp: stack_redo_def step_timeline_def saved_at_def split_beta split: if_splits)
next
  case (Set_Head i)
  with sv step set_head_returns [of vt i s d] show ?thesis
    by (auto simp: step_timeline_def saved_at_def dest: same_frame_clean)
qed (use sv step tr in \<open>auto simp: stack_clear_def set_clean_def reset_clean_def set_undo_limit_def saved_at_def
       step_timeline_def tracks_def model_defs Let_def split: if_splits\<close>)

definition op_unlimited :: "'p stack_op \<Rightarrow> bool" where
  "op_unlimited x = (case x of Set_Undo_Limit n \<Rightarrow> n = 0 | _ \<Rightarrow> True)"

lemma stack_run_saved:
  assumes "tracks vt s d ds" "saved_at s ds sv" "undo_limit s = 0"
    and "\<forall>x \<in> set xs. op_well_behaved vt x \<and> op_unlimited x"
    and nm: "merge_override vt = (\<lambda>_. None)" and oc: "obsolete_contract vt"
  shows "\<exists>s' d' sigs ds'. stack_run vt xs (s, d) = Some ((s', d'), sigs) \<and> tracks vt s' d' ds' \<and>
     saved_at s' ds' (saved_after vt xs (s, d) sv)"
  using assms(1-4)
proof (induction xs arbitrary: s d ds sv)
  case (Cons x xs)
  obtain s1 d1 sigs1 where step: "stack_step vt x (s, d) = Some ((s1, d1), sigs1)"
    using stack_step_returns [of vt x s d] by blast
  have x: "op_well_behaved vt x" "op_unlimited x" using Cons.prems(4) by auto
  have lim: "undo_limit s1 = 0"
    using stack_step_unlimited [OF Cons.prems(3) _ step] x(2) step Cons.prems(3)
    by (cases x) (auto simp: keeps_origin_def op_unlimited_def stack_clear_def reset_clean_internal_def Let_def)
  from Cons.IH [OF stack_step_tracks [OF Cons.prems(1) x(1) no_merge_contract [OF nm] oc step]
      stack_step_saved [OF Cons.prems(1-3) nm step] lim] Cons.prems(4)
  obtain s' d' sigs ds' where "stack_run vt xs (s1, d1) = Some ((s', d'), sigs)" "tracks vt s' d' ds'"
    "saved_at s' ds' (saved_after vt xs (s1, d1) (case x of Set_Clean \<Rightarrow> Some d | _ \<Rightarrow> sv))"
    by auto
  with step show ?case by auto
qed auto

section \<open>A concrete command class\<close>

text \<open>
  An editor of a list of numbers, in the style of the tests: the command appends its numbers to
  the document, undoing removes them, merging concatenates them, and an obsolete command
  appends nothing. The class shows that the contracts can hold.
\<close>

definition appended :: "nat list command \<Rightarrow> nat list" where
  "appended c = (if is_obsolete c then [] else payload c)"

definition append_vtable :: "(nat list, nat list) vtable" where
  "append_vtable = \<lparr>
     undo_override = (\<lambda>p. Some (\<lambda>c d. (c, take (length d - length (appended c)) d))),
     redo_override = (\<lambda>p. Some (\<lambda>c d. (c, d @ appended c))),
     merge_override = (\<lambda>p. Some (\<lambda>c c'. (True, Command (merge_id c) False (action_text c)
        (children c) (appended c @ appended c'))))\<rparr>"

definition plain_vtable :: "(nat list, nat list) vtable" where
  "plain_vtable = append_vtable\<lparr>merge_override := (\<lambda>_. None)\<rparr>"

definition append_cmd :: "int \<Rightarrow> nat \<Rightarrow> nat list command" where
  "append_cmd mid x = make_command ''append'' mid [x]"

lemma append_cmd_calls [simp]:
  "cmd_undo append_vtable c d = (c, take (length d - length (appended c)) d)"
  "cmd_redo append_vtable c d = (c, d @ appended c)"
  "cmd_undo plain_vtable c d = (c, take (length d - length (appended c)) d)"
  "cmd_redo plain_vtable c d = (c, d @ appended c)"
  by (cases c; simp add: append_vtable_def plain_vtable_def)+

lemma append_done_iff:
  assumes "vt = append_vtable \<or> vt = plain_vtable"
  shows "cmd_done vt c d d' \<longleftrightarrow> d' = d @ appended c"
proof
  assume "cmd_done vt c d d'"
  then obtain c' where u: "cmd_undo vt c d' = (c', d)" "cmd_undone vt c' d d'" by (rule cmd_doneE)
  from u(2) obtain c'' where "cmd_redo vt c' d = (c'', d')" by (rule cmd_undoneE)
  with u(1) assms show "d' = d @ appended c" by auto
next
  assume "d' = d @ appended c"
  then show "cmd_done vt c d d'"
    by (intro leaf_done [where P = "\<lambda>c d d'. d' = d @ appended c" and Q = "\<lambda>c d d'. d' = d @ appended c"])
      (use assms in auto)
qed

lemma append_class_contracts:
  assumes "vt = append_vtable \<or> vt = plain_vtable"
  shows "well_behaved vt c" "merge_contract vt" "obsolete_contract vt"
proof -
  show "well_behaved vt c" using assms by (auto simp: well_behaved_def append_done_iff)
  show "obsolete_contract vt"
    using assms by (auto simp: obsolete_contract_def append_done_iff appended_def)
  show "merge_contract vt"
    using assms unfolding merge_contract_def append_done_iff [OF assms]
    by (auto simp: cmd_merge_with_def base_merge_with_def append_vtable_def plain_vtable_def appended_def)
qed

section \<open>Properties of the undo stack\<close>

text \<open>
  C1. On a fresh stack without limit, after any sequence of pushes, undos, redos, head moves and
  clean marks, with reversible commands that keep the documented contracts of \<open>merge_with\<close> and
  \<open>set_obsolete\<close>, moving the head to 0 returns and restores the initial document exactly.
\<close>

theorem undo_all_restores_document:
  assumes "\<forall>x \<in> set xs. op_well_behaved vt x \<and> keeps_origin x"
    and "merge_contract vt" and "obsolete_contract vt"
  shows "\<exists>s d sigs s' sigs'. stack_run vt xs (new_stack, d0) = Some ((s, d), sigs) \<and>
     set_head vt 0 (s, d) = Some ((s', d0), sigs')"
proof -
  obtain s d sigs ds where run: "stack_run vt xs (new_stack, d0) = Some ((s, d), sigs)"
    and tr: "tracks vt s d ds" and o: "ds ! 0 = d0"
    using stack_run_origin [OF tracks_new_stack _ assms] by (fastforce simp: new_stack_def)
  from set_head_tracks [OF tr, of 0] o run show ?thesis by (fastforce simp: tracks_def)
qed

theorem undo_all_restores_document_witness:
  "\<exists>s d sigs s' sigs'.
     stack_run append_vtable [Push (append_cmd 1 7), Push (append_cmd 1 8), Push (append_cmd (-1) 9), Undo]
       (new_stack, [5]) = Some ((s, d), sigs) \<and>
     set_head append_vtable 0 (s, d) = Some ((s', [5]), sigs')"
  by (rule undo_all_restores_document)
    (simp_all add: append_class_contracts op_well_behaved_def keeps_origin_def)

text \<open>
  C3. \<open>set_head\<close> returns, puts the head at the index clipped to the command count, and the
  document becomes the one the timeline holds at that position; the timeline is unchanged.
\<close>

theorem set_head_follows_timeline:
  assumes "tracks vt s d ds"
  shows "\<exists>s' sigs. set_head vt index (s, d) = Some ((s', ds ! min index (stack_count s)), sigs) \<and>
     head s' = min index (stack_count s) \<and> tracks vt s' (ds ! min index (stack_count s)) ds"
  using set_head_tracks [OF assms, of index] by (auto simp: tracks_def)

definition two_pushed :: "nat list undo_stack" where
  "two_pushed = new_stack\<lparr>history := [append_cmd 4 1, append_cmd 4 2], head := 2\<rparr>"

lemma two_pushed_tracks:
  "vt = append_vtable \<or> vt = plain_vtable \<Longrightarrow> tracks vt two_pushed [1, 2] [[], [1], [1, 2]]"
  by (auto simp: tracks_def timeline_def two_pushed_def new_stack_def wf_stack_def model_defs
      append_done_iff less_Suc_eq numeral_2_eq_2 append_cmd_def make_command_def appended_def)

theorem set_head_follows_timeline_witness:
  "\<exists>s' sigs. set_head append_vtable 1 (two_pushed, [1, 2]) = Some ((s', [1]), sigs) \<and> head s' = 1"
  using set_head_follows_timeline [OF two_pushed_tracks, of append_vtable 1]
  by (auto simp: two_pushed_def model_defs)

text \<open>
  C2. A push refines the timeline operation: the future after the head is cut off, the executed
  command adds its document (or replaces the last one when it merges with the previous command,
  which happens exactly when both have the same merge id, not \<open>-1\<close>, and that command accepts it;
  or forgets the oldest one when the undo limit is reached), and a command found obsolete adds
  nothing. The document after the push is the one the pushed command's \<open>redo\<close> produced.
\<close>

theorem push_refines_timeline:
  assumes "tracks vt s d ds" and "well_behaved vt c" and "merge_contract vt" and "obsolete_contract vt"
    and "stack_push vt c (s, d) = ((s', d'), sigs)"
  shows "tracks vt s' d' (push_timeline (push_merges vt c s d) (push_full s) (push_obsolete vt c s d)
      ds (head s) d') \<and> d' = snd (cmd_redo vt c d) \<and> \<not> can_redo s'"
  using stack_push_tracks [OF assms] assms(5)
  by (auto simp: stack_push_def split_beta Let_def model_defs)

theorem push_refines_timeline_witness:
  "\<exists>s' sigs. stack_push append_vtable (append_cmd 4 3) (two_pushed, [1, 2]) = ((s', [1, 2, 3]), sigs) \<and>
     tracks append_vtable s' [1, 2, 3] [[], [1], [1, 2, 3]]"
proof -
  obtain s' d' sigs where p: "stack_push append_vtable (append_cmd 4 3) (two_pushed, [1, 2]) = ((s', d'), sigs)"
    by (metis prod.exhaust)
  have flags: "push_merges append_vtable (append_cmd 4 3) two_pushed [1, 2]"
    "\<not> push_full two_pushed" "\<not> push_obsolete append_vtable (append_cmd 4 3) two_pushed [1, 2]"
    by (simp_all add: push_merges_def push_full_def push_obsolete_def two_pushed_def new_stack_def
        drop_redoable_def take_snapshot_def try_merge_def model_defs append_cmd_def make_command_def
        cmd_merge_with_def append_vtable_def appended_def)
  have v: "appended (append_cmd 4 3) = [3]" "head two_pushed = 2"
    by (simp_all add: appended_def append_cmd_def make_command_def two_pushed_def)
  from push_refines_timeline [OF two_pushed_tracks _ _ _ p] p flags v show ?thesis
    by (auto simp: append_class_contracts push_timeline_def)
qed

text \<open>
  C4. Every sequence of operations on a fresh stack returns (no loop runs forever), leaves the
  head and the clean index at valid positions and the undo limit respected, and an observer that
  only listens to the four change functors knows the head, the clean state, and whether undo
  and redo are possible.
\<close>

theorem stack_run_invariant_and_observers:
  fixes vt :: "('p, 'd) vtable"
  shows "\<exists>s d sigs. stack_run vt xs (new_stack, d0) = Some ((s, d), sigs) \<and> wf_stack s \<and>
     fold observe sigs (view (new_stack :: 'p undo_stack)) = view s"
  by (rule stack_run_wf_sync [OF new_stack_wf])

text \<open>
  C5. On a stack without limit whose commands never merge, \<open>is_clean\<close> is sound: whenever it
  returns true, the document equals the one present at the last \<open>set_clean\<close>.
\<close>

theorem is_clean_sound:
  assumes "\<forall>x \<in> set xs. op_well_behaved vt x \<and> op_unlimited x"
    and "merge_override vt = (\<lambda>_. None)" and "obsolete_contract vt"
    and "stack_run vt xs (new_stack, d0) = Some ((s, d), sigs)" and "is_clean s"
  shows "saved_after vt xs (new_stack, d0) None = Some d"
proof -
  have "saved_at new_stack [d0] None" "undo_limit new_stack = 0"
    by (simp_all add: saved_at_def new_stack_def)
  from stack_run_saved [OF tracks_new_stack this assms(1-3)] assms(4) obtain ds where
    "tracks vt s d ds" "saved_at s ds (saved_after vt xs (new_stack, d0) None)" by auto
  moreover have "nat (clean_index s) = head s" "clean_index s \<ge> 0"
    using assms(5) by (auto simp: is_clean_def dest: sym)
  ultimately show ?thesis by (simp add: tracks_def saved_at_def)
qed

lemmas stack_eval = stack_push_def stack_undo_def stack_redo_def undo_internal_def redo_internal_def
  set_clean_def reset_clean_def set_undo_limit_def take_snapshot_def drop_redoable_def try_merge_def
  append_command_def drop_obsolete_def check_state_transitions_def new_stack_def empty_snapshot_def
  cmd_merge_with_def base_merge_with_def append_cmd_def make_command_def appended_def model_defs

theorem is_clean_sound_witness:
  "\<exists>s sigs. stack_run plain_vtable [Push (append_cmd 0 1), Set_Clean, Push (append_cmd 0 2), Undo]
       (new_stack, []) = Some ((s, [1]), sigs) \<and> is_clean s \<and>
     saved_after plain_vtable [Push (append_cmd 0 1), Set_Clean, Push (append_cmd 0 2), Undo]
       (new_stack, []) None = Some [1]"
proof -
  let ?xs = "[Push (append_cmd 0 1), Set_Clean, Push (append_cmd 0 2), Undo]"
  obtain s sigs where run: "stack_run plain_vtable ?xs (new_stack, []) = Some ((s, [1]), sigs)" "is_clean s"
    by (simp add: stack_eval plain_vtable_def append_vtable_def)
  have "saved_after plain_vtable ?xs (new_stack, []) None = Some [1]"
    by (rule is_clean_sound [OF _ _ _ run])
      (simp_all add: append_class_contracts op_well_behaved_def op_unlimited_def plain_vtable_def)
  with run show ?thesis by blast
qed

text \<open>
  Both restrictions of the last property are needed. When the undo limit drops the oldest
  command, the clean index is not shifted: after one undo the stack reports the clean state
  with another document than the saved one.
\<close>

theorem limit_breaks_clean:
  "\<exists>s sigs. stack_run plain_vtable
       [Set_Undo_Limit 2, Push (append_cmd (-1) 1), Set_Clean, Push (append_cmd (-1) 2),
        Push (append_cmd (-1) 3), Undo] (new_stack, []) = Some ((s, [1, 2]), sigs) \<and> is_clean s"
  by (simp add: stack_eval plain_vtable_def append_vtable_def)

text \<open>A push that merges into the command at the clean position leaves the stack clean.\<close>

theorem merge_breaks_clean:
  "\<exists>s sigs. stack_run append_vtable
       [Push (append_cmd 4 1), Set_Clean, Push (append_cmd 4 2)] (new_stack, []) = Some ((s, [1, 2]), sigs) \<and>
     is_clean s"
  by (simp add: stack_eval append_vtable_def)

section \<open>Macro commands\<close>

text \<open>
  A macro command (a class without overrides) built by pushing reversible children is itself
  reversible: its \<open>redo\<close> runs the children in order, its \<open>undo\<close> runs them in reverse order and restores
  the document.
\<close>

theorem macro_command_reversible:
  assumes "undo_override vt p = None" and "redo_override vt p = None"
    and "\<forall>c \<in> set cs. well_behaved vt c"
    and "cmd_redo vt (foldl push_child (make_command t mid p) cs) d = (macro, d')"
  shows "well_behaved vt (foldl push_child (make_command t mid p) cs) \<and>
     d' = snd (children_redo vt cs d) \<and> snd (cmd_undo vt macro d') = d"
proof -
  have "foldl push_child (Command mid ob t cs0 p) cs = Command mid ob t (cs0 @ cs) p" for ob cs0
    by (induction cs arbitrary: cs0) simp_all
  then have macro: "foldl push_child (make_command t mid p) cs = Command mid False t cs p"
    by (simp add: make_command_def)
  note wb = macro_well_behaved_aux [OF assms(1-3), of mid False t]
  then have "cmd_done vt macro d d'"
    using assms(4) unfolding well_behaved_def macro by (metis fst_conv snd_conv)
  with wb assms(2,4) show ?thesis unfolding macro
    by (auto elim!: cmd_doneE simp: split_beta)
qed

text \<open>A document class with a leaf command (payload \<open>Some x\<close>) and a macro class (payload \<open>None\<close>).\<close>

definition macro_vtable :: "(nat option, nat list) vtable" where
  "macro_vtable = \<lparr>
     undo_override = map_option (\<lambda>x c d. (c, butlast d)),
     redo_override = map_option (\<lambda>x c d. (c, d @ [x])),
     merge_override = (\<lambda>_. None)\<rparr>"

lemma macro_vtable_leaf: "well_behaved macro_vtable (make_command t mid (Some x))"
  unfolding well_behaved_def
  by (intro allI leaf_done [where P = "\<lambda>c d d'. c = make_command t mid (Some x) \<and> d' = d @ [x]"
        and Q = "\<lambda>c d d'. c = make_command t mid (Some x) \<and> d' = d @ [x]"])
    (auto simp: macro_vtable_def make_command_def)

theorem macro_command_reversible_witness:
  "\<exists>macro. cmd_redo macro_vtable (foldl push_child (make_command ''macro'' (-1) None)
       [make_command ''a'' (-1) (Some 1), make_command ''b'' (-1) (Some 2)]) [0] = (macro, [0, 1, 2]) \<and>
     snd (cmd_undo macro_vtable macro [0, 1, 2]) = [0]"
proof -
  let ?cs = "[make_command ''a'' (-1) (Some 1), make_command ''b'' (-1) (Some 2)]"
  obtain macro d' where redo: "cmd_redo macro_vtable
      (foldl push_child (make_command ''macro'' (-1) None) ?cs) [0] = (macro, d')" by fastforce
  have "d' = [0, 1, 2]" using redo by (auto simp: macro_vtable_def make_command_def)
  moreover have "snd (cmd_undo macro_vtable macro d') = [0]"
    by (rule macro_command_reversible [OF _ _ _ redo, THEN conjunct2, THEN conjunct2])
      (simp_all add: macro_vtable_leaf, simp_all add: macro_vtable_def)
  ultimately show ?thesis using redo by blast
qed

end
