(* ===== verification/Undo_Group.thy ===== *)
theory Undo_Group
  imports Undo_Stack "HOL-Library.AList"
begin

text \<open>
  The undo group (\<open>kb::undo::UndoGroup\<close>): named stacks of which one is active. The
  \<open>unordered_map\<close> is an association list with distinct keys; its iteration order is only used
  to install a functor on every stack. The name 0 means ``no active stack''.
\<close>

section \<open>State and operations\<close>

datatype group_signal = Active_Stack_Change callback hash_t | Stack_Signal signal

record 'p undo_group =
  active_stack_name :: hash_t
  stacks :: "(hash_t \<times> 'p undo_stack) list"
  on_active_stack_change :: callback
  group_on_head_change :: callback
  group_on_clean_change :: callback
  group_on_can_undo_change :: callback
  group_on_can_redo_change :: callback

definition new_group :: "'p undo_group" where
  "new_group = \<lparr>active_stack_name = 0, stacks = [],
     on_active_stack_change = Default_Functor, group_on_head_change = Default_Functor,
     group_on_clean_change = Default_Functor, group_on_can_undo_change = Default_Functor,
     group_on_can_redo_change = Default_Functor\<rparr>"

text \<open>\<open>unordered_map::at\<close> throws on a missing key, \<open>operator[]\<close> inserts a default stack.\<close>

definition group_stack :: "'p undo_group \<Rightarrow> hash_t \<Rightarrow> fault + 'p undo_stack" where
  "group_stack g name = (case map_of (stacks g) name of Some st \<Rightarrow> Inr st | None \<Rightarrow> Inl Out_Of_Bounds)"

definition active_stack :: "'p undo_group \<Rightarrow> fault + 'p undo_stack" where
  "active_stack g = group_stack g (active_stack_name g)"

definition stack_index :: "'p undo_group \<Rightarrow> hash_t \<Rightarrow> 'p undo_stack" where
  "stack_index g name = (case map_of (stacks g) name of Some st \<Rightarrow> st | None \<Rightarrow> new_stack)"

definition group_size :: "'p undo_group \<Rightarrow> nat" where
  "group_size g = length (stacks g)"

text \<open>Change of the active stack, with the calls to the group's functors.\<close>

definition change_active_stack ::
  "hash_t \<Rightarrow> 'p undo_group \<Rightarrow> fault + 'p undo_group \<times> group_signal list" where
  "change_active_stack name g =
     (let g1 = g\<lparr>active_stack_name := name\<rparr>;
          calls = (\<lambda>h cl un re.
            [Active_Stack_Change (on_active_stack_change g1) name,
             Stack_Signal (Head_Change (group_on_head_change g1) h),
             Stack_Signal (Clean_Change (group_on_clean_change g1) cl),
             Stack_Signal (Can_Undo_Change (group_on_can_undo_change g1) un),
             Stack_Signal (Can_Redo_Change (group_on_can_redo_change g1) re)])
      in if name \<noteq> 0
         then (case active_stack g1 of
                 Inl e \<Rightarrow> Inl e
               | Inr st \<Rightarrow> Inr (g1, calls (head st) (is_clean st) (can_undo st) (can_redo st)))
         else Inr (g1, calls 0 False False False))"

definition add_stack :: "hash_t \<Rightarrow> 'p undo_group \<Rightarrow> bool \<times> 'p undo_group" where
  "add_stack name g =
     (if name = 0 then (False, g)
      else (case map_of (stacks g) name of
              Some _ \<Rightarrow> (False, g)
            | None \<Rightarrow>
                (True, g\<lparr>stacks := (name, new_stack\<lparr>on_head_change := group_on_head_change g,
                     on_clean_change := group_on_clean_change g,
                     on_can_undo_change := group_on_can_undo_change g,
                     on_can_redo_change := group_on_can_redo_change g\<rparr>) # stacks g\<rparr>)))"

definition remove_stack ::
  "hash_t \<Rightarrow> 'p undo_group \<Rightarrow> fault + (bool \<times> 'p undo_group \<times> group_signal list)" where
  "remove_stack name g =
     (case map_of (stacks g) name of
        None \<Rightarrow> Inr (False, g, [])
      | Some _ \<Rightarrow>
          (let g1 = g\<lparr>stacks := AList.delete name (stacks g)\<rparr>
           in if active_stack_name g1 = name
              then (case change_active_stack 0 g1 of
                      Inl e \<Rightarrow> Inl e | Inr (g2, calls) \<Rightarrow> Inr (True, g2, calls))
              else Inr (True, g1, [])))"

definition set_active ::
  "hash_t \<Rightarrow> 'p undo_group \<Rightarrow> fault + (bool \<times> 'p undo_group \<times> group_signal list)" where
  "set_active name g =
     (if active_stack_name g = name then Inr (True, g, [])
      else (case map_of (stacks g) name of
              None \<Rightarrow> Inr (False, g, [])
            | Some _ \<Rightarrow> (case change_active_stack name g of
                           Inl e \<Rightarrow> Inl e | Inr (g1, calls) \<Rightarrow> Inr (True, g1, calls))))"

text \<open>
  \<open>relabel_stack\<close> extracts the node, changes its key and inserts it again; \<open>insert\<close> of a node
  whose key is taken destroys the node.
\<close>

definition relabel_stack :: "hash_t \<Rightarrow> hash_t \<Rightarrow> 'p undo_group \<Rightarrow> bool \<times> 'p undo_group" where
  "relabel_stack old_name new_name g =
     (case map_of (stacks g) old_name of
        None \<Rightarrow> (False, g)
      | Some st \<Rightarrow>
          (let rest = AList.delete old_name (stacks g);
               g1 = g\<lparr>stacks := (case map_of rest new_name of None \<Rightarrow> (new_name, st) # rest
                                                              | Some _ \<Rightarrow> rest)\<rparr>
           in (True, if active_stack_name g1 = old_name then g1\<lparr>active_stack_name := new_name\<rparr> else g1)))"

definition group_redo_text :: "'p undo_group \<Rightarrow> fault + string" where
  "group_redo_text g = (if active_stack_name g \<noteq> 0 then map_sum id redo_text (active_stack g) else Inr '''')"

definition group_undo_text :: "'p undo_group \<Rightarrow> fault + string" where
  "group_undo_text g = (if active_stack_name g \<noteq> 0 then map_sum id undo_text (active_stack g) else Inr '''')"

text \<open>The forwarding operations: nothing happens without an active stack.\<close>

definition with_active ::
  "('p undo_stack \<times> 'd \<Rightarrow> ('p undo_stack \<times> 'd) \<times> signal list) \<Rightarrow>
   'p undo_group \<times> 'd \<Rightarrow> ('p undo_group \<times> 'd) \<times> group_signal list" where
  "with_active f = (\<lambda>(g, d).
     if active_stack_name g \<noteq> 0
     then (let ((st, d'), calls) = f (stack_index g (active_stack_name g), d)
           in ((g\<lparr>stacks := AList.update (active_stack_name g) st (stacks g)\<rparr>, d'), map Stack_Signal calls))
     else ((g, d), []))"

definition group_push :: "('p, 'd) vtable \<Rightarrow> 'p command \<Rightarrow>
   'p undo_group \<times> 'd \<Rightarrow> ('p undo_group \<times> 'd) \<times> group_signal list" where
  "group_push vt c = with_active (stack_push vt c)"

definition group_clear :: "'p undo_group \<times> 'd \<Rightarrow> ('p undo_group \<times> 'd) \<times> group_signal list" where
  "group_clear = with_active stack_clear"

definition group_undo :: "('p, 'd) vtable \<Rightarrow>
   'p undo_group \<times> 'd \<Rightarrow> ('p undo_group \<times> 'd) \<times> group_signal list" where
  "group_undo vt = with_active (stack_undo vt)"

definition group_redo :: "('p, 'd) vtable \<Rightarrow>
   'p undo_group \<times> 'd \<Rightarrow> ('p undo_group \<times> 'd) \<times> group_signal list" where
  "group_redo vt = with_active (stack_redo vt)"

definition group_set_head :: "('p, 'd) vtable \<Rightarrow> nat \<Rightarrow>
   'p undo_group \<times> 'd \<Rightarrow> (('p undo_group \<times> 'd) \<times> group_signal list) option" where
  "group_set_head vt i = (\<lambda>(g, d).
     if active_stack_name g \<noteq> 0
     then map_option (\<lambda>((st, d'), calls).
            ((g\<lparr>stacks := AList.update (active_stack_name g) st (stacks g)\<rparr>, d'), map Stack_Signal calls))
          (set_head vt i (stack_index g (active_stack_name g), d))
     else Some ((g, d), []))"

definition group_set_clean :: "'p undo_group \<times> 'd \<Rightarrow> ('p undo_group \<times> 'd) \<times> group_signal list" where
  "group_set_clean = with_active set_clean"

definition group_reset_clean :: "'p undo_group \<times> 'd \<Rightarrow> ('p undo_group \<times> 'd) \<times> group_signal list" where
  "group_reset_clean = with_active reset_clean"

definition group_set_undo_limit :: "nat \<Rightarrow> 'p undo_group \<Rightarrow> bool \<times> 'p undo_group" where
  "group_set_undo_limit n g =
     (if active_stack_name g \<noteq> 0
      then (let (ok, st) = set_undo_limit n (stack_index g (active_stack_name g))
            in (ok, g\<lparr>stacks := AList.update (active_stack_name g) st (stacks g)\<rparr>))
      else (False, g))"

text \<open>Installing a functor on the group and, but for the first one, on every stack.\<close>

definition set_on_active_stack_change :: "callback \<Rightarrow> 'p undo_group \<Rightarrow> 'p undo_group" where
  "set_on_active_stack_change f g = g\<lparr>on_active_stack_change := f\<rparr>"

definition set_on_head_change :: "callback \<Rightarrow> 'p undo_group \<Rightarrow> 'p undo_group" where
  "set_on_head_change f g = g\<lparr>group_on_head_change := f,
     stacks := map (\<lambda>(n, st). (n, st\<lparr>on_head_change := f\<rparr>)) (stacks g)\<rparr>"

definition set_on_clean_change :: "callback \<Rightarrow> 'p undo_group \<Rightarrow> 'p undo_group" where
  "set_on_clean_change f g = g\<lparr>group_on_clean_change := f,
     stacks := map (\<lambda>(n, st). (n, st\<lparr>on_clean_change := f\<rparr>)) (stacks g)\<rparr>"

definition set_on_can_undo_change :: "callback \<Rightarrow> 'p undo_group \<Rightarrow> 'p undo_group" where
  "set_on_can_undo_change f g = g\<lparr>group_on_can_undo_change := f,
     stacks := map (\<lambda>(n, st). (n, st\<lparr>on_can_undo_change := f\<rparr>)) (stacks g)\<rparr>"

definition set_on_can_redo_change :: "callback \<Rightarrow> 'p undo_group \<Rightarrow> 'p undo_group" where
  "set_on_can_redo_change f g = g\<lparr>group_on_can_redo_change := f,
     stacks := map (\<lambda>(n, st). (n, st\<lparr>on_can_redo_change := f\<rparr>)) (stacks g)\<rparr>"

text \<open>The operations of the group as data, and a run of them.\<close>

datatype 'p group_op =
    Add_Stack hash_t | Remove_Stack hash_t | Set_Active hash_t | Relabel_Stack hash_t hash_t
  | On_Active "'p stack_op" | Install_Active_Change callback | Install_Head_Change callback
  | Install_Clean_Change callback | Install_Can_Undo_Change callback | Install_Can_Redo_Change callback

fun forward_op :: "('p, 'd) vtable \<Rightarrow> 'p stack_op \<Rightarrow>
   'p undo_group \<times> 'd \<Rightarrow> (('p undo_group \<times> 'd) \<times> group_signal list) option" where
  "forward_op vt (Push c) gd = Some (group_push vt c gd)"
| "forward_op vt Clear gd = Some (group_clear gd)"
| "forward_op vt Undo gd = Some (group_undo vt gd)"
| "forward_op vt Redo gd = Some (group_redo vt gd)"
| "forward_op vt (Set_Head i) gd = group_set_head vt i gd"
| "forward_op vt Set_Clean gd = Some (group_set_clean gd)"
| "forward_op vt Reset_Clean gd = Some (group_reset_clean gd)"
| "forward_op vt (Set_Undo_Limit n) gd = Some ((snd (group_set_undo_limit n (fst gd)), snd gd), [])"

fun group_step :: "('p, 'd) vtable \<Rightarrow> 'p group_op \<Rightarrow>
   'p undo_group \<times> 'd \<Rightarrow> (fault + ('p undo_group \<times> 'd) \<times> group_signal list) option" where
  "group_step vt (Add_Stack n) (g, d) = Some (Inr ((snd (add_stack n g), d), []))"
| "group_step vt (Remove_Stack n) (g, d) =
     Some (map_sum id (\<lambda>(_, g', calls). ((g', d), calls)) (remove_stack n g))"
| "group_step vt (Set_Active n) (g, d) =
     Some (map_sum id (\<lambda>(_, g', calls). ((g', d), calls)) (set_active n g))"
| "group_step vt (Relabel_Stack n m) (g, d) = Some (Inr ((snd (relabel_stack n m g), d), []))"
| "group_step vt (On_Active x) (g, d) = map_option Inr (forward_op vt x (g, d))"
| "group_step vt (Install_Active_Change f) (g, d) = Some (Inr ((set_on_active_stack_change f g, d), []))"
| "group_step vt (Install_Head_Change f) (g, d) = Some (Inr ((set_on_head_change f g, d), []))"
| "group_step vt (Install_Clean_Change f) (g, d) = Some (Inr ((set_on_clean_change f g, d), []))"
| "group_step vt (Install_Can_Undo_Change f) (g, d) = Some (Inr ((set_on_can_undo_change f g, d), []))"
| "group_step vt (Install_Can_Redo_Change f) (g, d) = Some (Inr ((set_on_can_redo_change f g, d), []))"

fun group_run :: "('p, 'd) vtable \<Rightarrow> 'p group_op list \<Rightarrow>
   'p undo_group \<times> 'd \<Rightarrow> (fault + ('p undo_group \<times> 'd) \<times> group_signal list) option" where
  "group_run vt [] gd = Some (Inr (gd, []))"
| "group_run vt (x # xs) gd =
     (case group_step vt x gd of
        None \<Rightarrow> None
      | Some (Inl e) \<Rightarrow> Some (Inl e)
      | Some (Inr (gd1, calls1)) \<Rightarrow>
          map_option (map_sum id (\<lambda>(gd2, calls2). (gd2, calls1 @ calls2))) (group_run vt xs gd1))"

section \<open>Invariant\<close>

text \<open>
  Names are distinct, the active name is 0 or the name of a stack, every stack is well-formed and
  carries the functors of the group.
\<close>

definition forwards :: "'p undo_group \<Rightarrow> 'p undo_stack \<Rightarrow> bool" where
  "forwards g st \<longleftrightarrow> on_head_change st = group_on_head_change g \<and>
     on_clean_change st = group_on_clean_change g \<and>
     on_can_undo_change st = group_on_can_undo_change g \<and>
     on_can_redo_change st = group_on_can_redo_change g"

definition wf_group :: "'p undo_group \<Rightarrow> bool" where
  "wf_group g \<longleftrightarrow> distinct (map fst (stacks g)) \<and>
     (active_stack_name g \<noteq> 0 \<longrightarrow> active_stack_name g \<in> fst ` set (stacks g)) \<and>
     (\<forall>(n, st) \<in> set (stacks g). wf_stack st \<and> forwards g st)"

lemma new_group_wf: "wf_group new_group"
  by (simp add: wf_group_def new_group_def)

lemma length_delete:
  "distinct (map fst al) \<Longrightarrow> map_of al k = Some v \<Longrightarrow> Suc (length (AList.delete k al)) = length al"
proof (induction al)
  case (Cons x al)
  then show ?case by (cases "fst x = k") (auto simp: delete_id)
qed simp

lemma map_of_deleteD: "map_of (AList.delete k al) n = Some v \<Longrightarrow> map_of al n = Some v \<and> n \<noteq> k"
  by (auto simp: delete_conv split: if_splits)

lemma wf_groupI:
  assumes "distinct (map fst (stacks g))"
    "active_stack_name g \<noteq> 0 \<Longrightarrow> map_of (stacks g) (active_stack_name g) \<noteq> None"
    "\<And>n st. map_of (stacks g) n = Some st \<Longrightarrow> wf_stack st \<and> forwards g st"
  shows "wf_group g"
  using assms by (auto simp: wf_group_def map_of_eq_None_iff)

lemma wf_groupD:
  assumes "wf_group g"
  shows "distinct (map fst (stacks g))"
    "active_stack_name g \<noteq> 0 \<Longrightarrow> \<exists>st. map_of (stacks g) (active_stack_name g) = Some st"
    "map_of (stacks g) n = Some st \<Longrightarrow> wf_stack st \<and> forwards g st"
  using assms by (fastforce simp: wf_group_def map_of_eq_None_iff simp flip: not_None_eq dest: map_of_SomeD)+

lemma active_stack_wf:
  assumes "wf_group g" "active_stack_name g \<noteq> 0"
  obtains st where "active_stack g = Inr st" "stack_index g (active_stack_name g) = st"
    "map_of (stacks g) (active_stack_name g) = Some st" "wf_stack st" "forwards g st"
proof -
  obtain st where "map_of (stacks g) (active_stack_name g) = Some st"
    using wf_groupD(2) [OF assms] by blast
  with wf_groupD(3) [OF assms(1) this] that show ?thesis
    by (simp add: active_stack_def group_stack_def stack_index_def)
qed

text \<open>The operations of a stack keep the functors.\<close>

lemma phases_functors:
  "forwards g (drop_redoable s) = forwards g s" "forwards g (snd (try_merge vt c s)) = forwards g s"
  "forwards g (append_command c s) = forwards g s" "forwards g (drop_obsolete s) = forwards g s"
  "forwards g (take_snapshot s) = forwards g s" "forwards g (s\<lparr>head := i\<rparr>) = forwards g s"
  "forwards g (s\<lparr>history := h\<rparr>) = forwards g s" "forwards g (s\<lparr>clean_index := j\<rparr>) = forwards g s"
  "forwards g (s\<lparr>undo_limit := i\<rparr>) = forwards g s"
  by (simp_all add: drop_redoable_def try_merge_def append_command_def drop_obsolete_def forwards_def
      reset_clean_internal_def Let_def split_beta take_snapshot_def)

lemma same_frame_functors: "same_frame s t \<Longrightarrow> forwards g t = forwards g s"
  by (simp add: forwards_def same_frame_fields)

lemma stack_step_functors:
  assumes "stack_step vt x (s, d) = Some ((s', d'), sigs)"
  shows "forwards g s' = forwards g s"
proof (cases x)
  case (Push c)
  with assms show ?thesis by (auto simp: stack_push_def Let_def split_beta phases_functors split: if_splits)
next
  case Undo
  with assms same_frame_functors [OF undo_internal_frame [of "take_snapshot s" vt d], of g]
  show ?thesis by (auto simp: stack_undo_def split_beta phases_functors split: if_splits)
next
  case Redo
  with assms same_frame_functors [OF redo_internal_frame [of "take_snapshot s" vt d], of g]
  show ?thesis by (auto simp: stack_redo_def split_beta phases_functors split: if_splits)
next
  case (Set_Head i)
  with assms set_head_returns [of vt i s d] show ?thesis
    by (auto simp: same_frame_functors phases_functors)
qed (use assms in \<open>auto simp: stack_clear_def set_clean_def reset_clean_def set_undo_limit_def
       reset_clean_internal_def Let_def phases_functors split: if_splits\<close>)

text \<open>The forwarding operations are the operation of the stack, in place.\<close>

definition put_active :: "'p undo_stack \<Rightarrow> 'p undo_group \<Rightarrow> 'p undo_group" where
  "put_active st g = g\<lparr>stacks := AList.update (active_stack_name g) st (stacks g)\<rparr>"

lemma forward_op_active:
  assumes "active_stack_name g \<noteq> 0"
    "stack_step vt x (stack_index g (active_stack_name g), d) = Some ((st, d'), calls)"
  shows "forward_op vt x (g, d) = Some ((put_active st g, d'), map Stack_Signal calls)"
  using assms by (cases x) (simp_all add: put_active_def with_active_def group_push_def group_clear_def
      group_undo_def group_redo_def group_set_head_def group_set_clean_def group_reset_clean_def
      group_set_undo_limit_def split_beta Let_def)

lemma forward_op_idle: "active_stack_name g = 0 \<Longrightarrow> forward_op vt x (g, d) = Some ((g, d), [])"
  by (cases x) (simp_all add: with_active_def group_push_def group_clear_def
      group_undo_def group_redo_def group_set_head_def group_set_clean_def group_reset_clean_def
      group_set_undo_limit_def)

lemma put_active_wf:
  assumes "wf_group g" "active_stack_name g \<noteq> 0" "wf_stack st" "forwards g st"
  shows "wf_group (put_active st g)"
proof (rule wf_groupI)
  show "distinct (map fst (stacks (put_active st g)))"
    using wf_groupD(1) [OF assms(1)] by (simp add: put_active_def distinct_update)
next
  fix n s assume "map_of (stacks (put_active st g)) n = Some s"
  then show "wf_stack s \<and> forwards (put_active st g) s"
    using assms(3,4) wf_groupD(3) [OF assms(1), of n s]
    by (auto simp: put_active_def update_conv' forwards_def split: if_splits)
qed (simp add: put_active_def update_conv')

lemma change_active_stack_ok:
  assumes "name \<noteq> 0 \<Longrightarrow> map_of (stacks g) name \<noteq> None"
  shows "\<exists>calls. change_active_stack name g = Inr (g\<lparr>active_stack_name := name\<rparr>, calls)"
  using assms by (auto simp: change_active_stack_def active_stack_def group_stack_def Let_def)

lemma set_functor_wf:
  assumes "wf_group g"
  shows "wf_group (set_on_active_stack_change f g)" "wf_group (set_on_head_change f g)"
    "wf_group (set_on_clean_change f g)" "wf_group (set_on_can_undo_change f g)"
    "wf_group (set_on_can_redo_change f g)"
  using assms by (auto simp: wf_group_def forwards_def set_on_active_stack_change_def
      set_on_head_change_def set_on_clean_change_def set_on_can_undo_change_def
      set_on_can_redo_change_def wf_stack_def model_defs comp_def split_beta image_image)

lemma add_stack_wf: "wf_group g \<Longrightarrow> wf_group (snd (add_stack n g))"
  by (auto simp: add_stack_def wf_group_def forwards_def wf_stack_def new_stack_def model_defs
      map_of_eq_None_iff split: option.splits)

lemma delete_wf:
  assumes "wf_group g" "active_stack_name g = n \<longrightarrow> m = 0" "active_stack_name g \<noteq> n \<longrightarrow> m = active_stack_name g"
  shows "wf_group (g\<lparr>stacks := AList.delete n (stacks g), active_stack_name := m\<rparr>)"
proof (rule wf_groupI)
  fix k st assume "map_of (stacks (g\<lparr>stacks := AList.delete n (stacks g), active_stack_name := m\<rparr>)) k = Some st"
  then show "wf_stack st \<and> forwards (g\<lparr>stacks := AList.delete n (stacks g), active_stack_name := m\<rparr>) st"
    using wf_groupD(3) [OF assms(1), of k st] by (auto dest!: map_of_deleteD simp: forwards_def)
qed (use assms wf_groupD(1,2) [OF assms(1)] in \<open>auto simp: delete_conv' distinct_delete\<close>)

lemma remove_stack_wf:
  assumes "wf_group g"
  shows "\<exists>b g' calls. remove_stack n g = Inr (b, g', calls) \<and> wf_group g'"
proof (cases "map_of (stacks g) n")
  case (Some st)
  with assms delete_wf [of g n 0] delete_wf [of g n "active_stack_name g"] show ?thesis
    by (auto simp: remove_stack_def Let_def change_active_stack_def)
qed (use assms in \<open>auto simp: remove_stack_def\<close>)

lemma set_active_wf:
  assumes "wf_group g"
  shows "\<exists>b g' calls. set_active n g = Inr (b, g', calls) \<and> wf_group g'"
proof (cases "map_of (stacks g) n")
  case (Some st)
  then obtain calls where "change_active_stack n g = Inr (g\<lparr>active_stack_name := n\<rparr>, calls)"
    using change_active_stack_ok [of n g] by auto
  moreover have "wf_group (g\<lparr>active_stack_name := n\<rparr>)"
    using assms Some by (auto simp: wf_group_def forwards_def dest: map_of_SomeD
        intro: rev_image_eqI)
  ultimately show ?thesis using assms Some by (auto simp: set_active_def)
qed (use assms in \<open>auto simp: set_active_def\<close>)

lemma relabel_stack_wf:
  assumes "wf_group g"
  shows "wf_group (snd (relabel_stack n m g))"
proof (cases "map_of (stacks g) n")
  case (Some st)
  let ?g = "snd (relabel_stack n m g)"
  show ?thesis
  proof (rule wf_groupI)
    show "distinct (map fst (stacks ?g))"
      using wf_groupD(1) [OF assms] Some
      by (auto simp: relabel_stack_def Let_def distinct_delete map_of_eq_None_iff split: option.splits)
  next
    assume "active_stack_name ?g \<noteq> 0"
    then show "map_of (stacks ?g) (active_stack_name ?g) \<noteq> None"
      using wf_groupD(2) [OF assms] Some
      by (auto simp: relabel_stack_def Let_def delete_conv' split: option.splits if_splits)
  next
    fix k s assume "map_of (stacks ?g) k = Some s"
    then show "wf_stack s \<and> forwards ?g s"
      using wf_groupD(3) [OF assms, of k s] wf_groupD(3) [OF assms Some] Some
      by (auto simp: relabel_stack_def Let_def forwards_def dest: map_of_deleteD
          split: option.splits if_splits)
  qed
qed (use assms in \<open>simp add: relabel_stack_def\<close>)

lemma forward_op_wf:
  assumes "wf_group g"
  shows "\<exists>g' d' calls. forward_op vt x (g, d) = Some ((g', d'), calls) \<and> wf_group g'"
proof (cases "active_stack_name g = 0")
  case False
  from active_stack_wf [OF assms this] obtain st where st:
    "stack_index g (active_stack_name g) = st" "wf_stack st" "forwards g st" by metis
  obtain st' d' calls where step: "stack_step vt x (st, d) = Some ((st', d'), calls)"
    using stack_step_returns [of vt x st d] by blast
  have "wf_group (put_active st' g)"
    by (rule put_active_wf [OF assms False stack_step_wf [OF st(2) step]])
      (simp add: stack_step_functors [OF step] st)
  with forward_op_active [OF False, of vt x d] st step show ?thesis by auto
qed (use assms in \<open>simp add: forward_op_idle\<close>)

lemma group_step_wf:
  assumes "wf_group g"
  shows "\<exists>g' d' calls. group_step vt x (g, d) = Some (Inr ((g', d'), calls)) \<and> wf_group g'"
proof (cases x)
  case (Remove_Stack n)
  then show ?thesis using remove_stack_wf [OF assms, of n] by force
next
  case (Set_Active n)
  then show ?thesis using set_active_wf [OF assms, of n] by force
next
  case (On_Active y)
  then show ?thesis using forward_op_wf [OF assms, of vt y d] by force
qed (use assms in \<open>simp_all add: add_stack_wf relabel_stack_wf set_functor_wf\<close>)

lemma group_run_wf:
  "wf_group g \<Longrightarrow> \<exists>g' d' calls. group_run vt xs (g, d) = Some (Inr ((g', d'), calls)) \<and> wf_group g'"
proof (induction xs arbitrary: g d)
  case (Cons x xs)
  then obtain g1 d1 calls where step: "group_step vt x (g, d) = Some (Inr ((g1, d1), calls))" "wf_group g1"
    using group_step_wf [of g vt x d] by blast
  from Cons.IH [OF step(2), of d1] obtain g2 d2 calls2 where
    "group_run vt xs (g1, d1) = Some (Inr ((g2, d2), calls2))" "wf_group g2" by blast
  with step(1) show ?case by simp
qed simp


section \<open>Observers of the group\<close>

text \<open>
  An observer of the group keeps the active name and the values it was last told; what it should
  see are the values of the active stack, and those of an empty one when no stack is active.
\<close>

definition blank_view :: observer where
  "blank_view = \<lparr>obs_head = 0, obs_clean = False, obs_can_undo = False, obs_can_redo = False\<rparr>"

definition group_view :: "'p undo_group \<Rightarrow> hash_t \<times> observer" where
  "group_view g = (active_stack_name g,
     if active_stack_name g = 0 then blank_view else view (stack_index g (active_stack_name g)))"

fun group_observe :: "group_signal \<Rightarrow> hash_t \<times> observer \<Rightarrow> hash_t \<times> observer" where
  "group_observe (Active_Stack_Change f n) (a, ob) = (n, ob)"
| "group_observe (Stack_Signal sig) (a, ob) = (a, observe sig ob)"

text \<open>A call goes to the functor that is installed in the group.\<close>

fun addressed :: "'p undo_group \<Rightarrow> group_signal \<Rightarrow> bool" where
  "addressed g (Active_Stack_Change f n) = (f = on_active_stack_change g)"
| "addressed g (Stack_Signal (Head_Change f n)) = (f = group_on_head_change g)"
| "addressed g (Stack_Signal (Clean_Change f b)) = (f = group_on_clean_change g)"
| "addressed g (Stack_Signal (Can_Undo_Change f b)) = (f = group_on_can_undo_change g)"
| "addressed g (Stack_Signal (Can_Redo_Change f b)) = (f = group_on_can_redo_change g)"

lemma fold_group_observe_stack:
  "fold group_observe (map Stack_Signal calls) (a, ob) = (a, fold observe calls ob)"
  by (induction calls arbitrary: ob) simp_all

lemma check_state_transitions_addressed:
  "forwards g s \<Longrightarrow> list_all (addressed g) (map Stack_Signal (check_state_transitions s))"
  by (simp add: check_state_transitions_def forwards_def)

lemma stack_step_addressed:
  assumes "stack_step vt x (s, d) = Some ((s', d'), sigs)" "forwards g s"
  shows "list_all (addressed g) (map Stack_Signal sigs)"
proof -
  have "sigs = [] \<or> sigs = check_state_transitions s'"
  proof (cases x)
    case (Set_Head i)
    with assms set_head_returns [of vt i s d] show ?thesis by auto
  qed (use assms(1) in \<open>auto simp: stack_push_def stack_undo_def stack_redo_def stack_clear_def
         set_clean_def reset_clean_def Let_def split_beta split: if_splits\<close>)
  moreover have "forwards g s'" using assms(2) stack_step_functors [OF assms(1), of g] by simp
  ultimately show ?thesis using check_state_transitions_addressed by auto
qed

lemma change_active_stack_sync:
  assumes "change_active_stack name g = Inr (g', calls)"
  shows "fold group_observe calls v = group_view g' \<and> list_all (addressed g) calls"
  using assms by (cases v) (auto simp: change_active_stack_def Let_def group_view_def blank_view_def
      active_stack_def group_stack_def stack_index_def view_def split: if_splits option.splits sum.splits)

fun is_relabel :: "'p group_op \<Rightarrow> bool" where
  "is_relabel (Relabel_Stack n m) = True"
| "is_relabel _ = False"

lemma map_of_map_snd: "map_of (map (\<lambda>(n, v). (n, f v)) al) k = map_option f (map_of al k)"
  by (induction al) auto

lemma set_functor_view:
  "group_view (set_on_active_stack_change f g) = group_view g"
  "group_view (set_on_head_change f g) = group_view g"
  "group_view (set_on_clean_change f g) = group_view g"
  "group_view (set_on_can_undo_change f g) = group_view g"
  "group_view (set_on_can_redo_change f g) = group_view g"
  by (auto simp: group_view_def set_on_active_stack_change_def set_on_head_change_def
      set_on_clean_change_def set_on_can_undo_change_def set_on_can_redo_change_def stack_index_def
      map_of_map_snd view_def model_defs new_stack_def split: option.split)

lemma add_stack_view: "wf_group g \<Longrightarrow> group_view (snd (add_stack n g)) = group_view g"
  using wf_groupD(2) [of g]
  by (auto simp: group_view_def add_stack_def stack_index_def split: option.splits)

lemma remove_stack_sync:
  assumes "remove_stack n g = Inr (b, g', calls)"
  shows "fold group_observe calls (group_view g) = group_view g' \<and> list_all (addressed g) calls"
proof (cases "map_of (stacks g) n \<noteq> None \<and> active_stack_name g = n")
  case True
  let ?g1 = "g\<lparr>stacks := AList.delete n (stacks g)\<rparr>"
  from True assms have "change_active_stack 0 ?g1 = Inr (g', calls)"
    by (auto simp: remove_stack_def Let_def split: sum.splits)
  from change_active_stack_sync [OF this] have "list_all (addressed ?g1) calls"
    "fold group_observe calls (group_view g) = group_view g'" by auto
  moreover have "addressed ?g1 sig = addressed g sig" for sig
    by (cases "(g, sig)" rule: addressed.cases) simp_all
  ultimately show ?thesis by (simp add: list_all_iff)
qed (use assms in \<open>auto simp: remove_stack_def Let_def group_view_def stack_index_def delete_conv'
       split: option.splits\<close>)

lemma set_active_sync:
  assumes "set_active n g = Inr (b, g', calls)"
  shows "fold group_observe calls (group_view g) = group_view g' \<and> list_all (addressed g) calls"
  using assms change_active_stack_sync [of n g g' calls "group_view g"]
  by (auto simp: set_active_def split: if_splits option.splits sum.splits)

lemma forward_op_sync:
  assumes "wf_group g" "forward_op vt x (g, d) = Some ((g', d'), calls)"
  shows "fold group_observe calls (group_view g) = group_view g' \<and> list_all (addressed g) calls"
proof (cases "active_stack_name g = 0")
  case False
  from active_stack_wf [OF assms(1) this] obtain st where st:
    "stack_index g (active_stack_name g) = st" "forwards g st" by metis
  obtain st' d1 sigs where step: "stack_step vt x (st, d) = Some ((st', d1), sigs)"
    using stack_step_returns [of vt x st d] by blast
  have "g' = put_active st' g" "calls = map Stack_Signal sigs"
    using forward_op_active [OF False, of vt x d st' d1 sigs] st step assms(2) by auto
  moreover have "group_view (put_active st' g) = (active_stack_name g, view st')"
    using False by (simp add: group_view_def put_active_def stack_index_def update_conv')
  moreover have "group_view g = (active_stack_name g, view st)"
    using False st(1) by (simp add: group_view_def)
  ultimately show ?thesis
    using stack_step_sync [OF step] stack_step_addressed [OF step st(2)]
    by (simp add: fold_group_observe_stack)
qed (use assms in \<open>simp add: forward_op_idle\<close>)

lemma group_step_sync:
  assumes "wf_group g" "group_step vt x (g, d) = Some (Inr ((g', d'), calls))"
  shows "(\<not> is_relabel x \<longrightarrow> fold group_observe calls (group_view g) = group_view g') \<and>
    list_all (addressed g) calls"
proof (cases x)
  case (Remove_Stack n)
  with remove_stack_wf [OF assms(1), of n] assms(2) remove_stack_sync [of n g _ g' calls]
  show ?thesis by auto
next
  case (Set_Active n)
  with set_active_wf [OF assms(1), of n] assms(2) set_active_sync [of n g _ g' calls]
  show ?thesis by auto
next
  case (On_Active y)
  with assms forward_op_sync [OF assms(1), of vt y d g' d' calls] show ?thesis by auto
qed (use assms in \<open>auto simp: set_functor_view add_stack_view\<close>)

lemma group_run_sync:
  assumes "wf_group g" "list_all (\<lambda>x. \<not> is_relabel x) xs"
    "group_run vt xs (g, d) = Some (Inr ((g', d'), calls))"
  shows "fold group_observe calls (group_view g) = group_view g'"
  using assms
proof (induction xs arbitrary: g d calls)
  case (Cons x xs)
  obtain g1 d1 calls1 where step: "group_step vt x (g, d) = Some (Inr ((g1, d1), calls1))" "wf_group g1"
    using group_step_wf [OF Cons.prems(1), of vt x d] by blast
  obtain calls2 where rest: "group_run vt xs (g1, d1) = Some (Inr ((g', d'), calls2))"
    "calls = calls1 @ calls2"
    using group_run_wf [OF step(2), of vt xs d1] Cons.prems(3) step(1) by auto
  from Cons.IH [OF step(2) _ rest(1)] group_step_sync [OF Cons.prems(1) step(1)] Cons.prems(2)
  show ?case by (simp add: rest(2))
qed simp


section \<open>Properties of the undo group\<close>

text \<open>
  C6. No sequence of operations on a fresh group throws or runs forever, and the group stays
  well-formed: distinct names, an active name that is 0 or names a stack, well-formed stacks that
  all carry the functors of the group.
\<close>

theorem group_run_never_faults:
  fixes vt :: "('p, 'd) vtable"
  shows "\<exists>g d calls. group_run vt xs (new_group, d0) = Some (Inr ((g, d), calls)) \<and> wf_group g"
  by (rule group_run_wf [OF new_group_wf])

text \<open>
  C7. An operation forwarded by the group is exactly the operation of the active stack: the
  active stack and the document evolve as \<open>stack_step\<close> says, its functor calls are forwarded, and
  every other stack and the active name stay as they are.
\<close>

theorem group_forwards_to_active_stack:
  assumes "group_run vt xs (new_group, d0) = Some (Inr ((g, d), calls0))" and "active_stack_name g \<noteq> 0"
  shows "\<exists>st st' d' calls g'. active_stack g = Inr st \<and> stack_step vt x (st, d) = Some ((st', d'), calls) \<and>
     group_step vt (On_Active x) (g, d) = Some (Inr ((g', d'), map Stack_Signal calls)) \<and>
     active_stack g' = Inr st' \<and> active_stack_name g' = active_stack_name g \<and>
     (\<forall>n. n \<noteq> active_stack_name g \<longrightarrow> group_stack g' n = group_stack g n)"
proof -
  have "wf_group g" using group_run_wf [OF new_group_wf, of vt xs d0] assms(1) by auto
  then obtain st where st: "active_stack g = Inr st" "stack_index g (active_stack_name g) = st"
    using active_stack_wf assms(2) by metis
  obtain st' d' calls where step: "stack_step vt x (st, d) = Some ((st', d'), calls)"
    using stack_step_returns [of vt x st d] by blast
  with forward_op_active [OF assms(2), of vt x d st' d' calls] st(2)
  have "group_step vt (On_Active x) (g, d) = Some (Inr ((put_active st' g, d'), map Stack_Signal calls))"
    by simp
  moreover have "active_stack (put_active st' g) = Inr st'" "active_stack_name (put_active st' g) = active_stack_name g"
    "\<forall>n. n \<noteq> active_stack_name g \<longrightarrow> group_stack (put_active st' g) n = group_stack g n"
    by (simp_all add: active_stack_def group_stack_def put_active_def update_conv')
  ultimately show ?thesis using st(1) step by blast
qed

definition two_stacks :: "nat list group_op list" where
  "two_stacks = [Add_Stack 1, Add_Stack 2, Set_Active 1, On_Active (Push (append_cmd 0 5)), Set_Active 2]"

lemmas group_eval = add_stack_def set_active_def change_active_stack_def remove_stack_def
  active_stack_def group_stack_def group_push_def with_active_def stack_index_def new_group_def

lemma two_stacks_run:
  "\<exists>g calls. group_run plain_vtable two_stacks (new_group, []) = Some (Inr ((g, [5]), calls)) \<and>
     active_stack_name g = 2 \<and> map_of (stacks g) 3 = None \<and>
     map fst (stacks g) = [2, 1] \<and> length calls = 12"
  by (simp add: two_stacks_def group_eval stack_eval plain_vtable_def append_vtable_def)

theorem group_forwards_to_active_stack_witness:
  "\<exists>g calls st' d' sigs g'. group_run plain_vtable two_stacks (new_group, []) = Some (Inr ((g, [5]), calls)) \<and>
     group_step plain_vtable (On_Active (Push (append_cmd 0 6))) (g, [5]) =
       Some (Inr ((g', d'), map Stack_Signal sigs)) \<and>
     active_stack g' = Inr st' \<and> group_stack g' 1 = group_stack g 1"
proof -
  obtain g calls where run: "group_run plain_vtable two_stacks (new_group, []) = Some (Inr ((g, [5]), calls))"
    "active_stack_name g = 2" using two_stacks_run by blast
  with group_forwards_to_active_stack [OF run(1), of "Push (append_cmd 0 6)"] show ?thesis by fastforce
qed

text \<open>
  C8. As long as no stack is relabelled, an observer that listens to the functors of the group
  knows the active name and, for the active stack, the head, the clean state and whether undo
  and redo are possible; with no active stack it sees the values of an empty one.
\<close>

theorem group_observers_in_sync:
  assumes "list_all (\<lambda>x. \<not> is_relabel x) xs"
    and "group_run vt xs (new_group, d0) = Some (Inr ((g, d), calls))"
  shows "fold group_observe calls (0, blank_view) = group_view g"
  using group_run_sync [OF new_group_wf assms] by (simp add: group_view_def new_group_def)

theorem group_observers_in_sync_witness:
  "\<exists>g calls. group_run plain_vtable two_stacks (new_group, []) = Some (Inr ((g, [5]), calls)) \<and>
     length calls = 12 \<and> fold group_observe calls (0, blank_view) = group_view g"
proof -
  obtain g calls where run: "group_run plain_vtable two_stacks (new_group, []) = Some (Inr ((g, [5]), calls))"
    "length calls = 12" using two_stacks_run by blast
  from group_observers_in_sync [OF _ run(1)] run show ?thesis by (auto simp: two_stacks_def)
qed

text \<open>
  Relabelling a stack to a fresh non-zero name succeeds and moves exactly that stack: the new
  name holds it, the old name is gone, every other stack is untouched, the number of stacks is
  unchanged, and the active name follows.
\<close>

theorem relabel_stack_fresh:
  assumes "wf_group g" and "map_of (stacks g) old_name = Some st"
    and "map_of (stacks g) new_name = None" and "new_name \<noteq> 0"
  shows "\<exists>g'. relabel_stack old_name new_name g = (True, g') \<and> wf_group g' \<and>
     group_stack g' new_name = Inr st \<and> group_stack g' old_name = Inl Out_Of_Bounds \<and>
     (\<forall>n. n \<noteq> old_name \<longrightarrow> n \<noteq> new_name \<longrightarrow> group_stack g' n = group_stack g n) \<and>
     active_stack_name g' = (if active_stack_name g = old_name then new_name else active_stack_name g) \<and>
     group_size g' = group_size g"
  using relabel_stack_wf [OF assms(1), of old_name new_name] assms(2,3)
    length_delete [OF wf_groupD(1) [OF assms(1)] assms(2)]
  by (auto simp: relabel_stack_def group_stack_def group_size_def Let_def delete_conv')

theorem relabel_stack_fresh_witness:
  "\<exists>g calls g'. group_run plain_vtable two_stacks (new_group, []) = Some (Inr ((g, [5]), calls)) \<and>
     relabel_stack 2 3 g = (True, g') \<and> active_stack_name g' = 3 \<and> group_stack g' 1 = group_stack g 1"
proof -
  obtain g calls where run: "group_run plain_vtable two_stacks (new_group, []) = Some (Inr ((g, [5]), calls))"
    "active_stack_name g = 2" "map_of (stacks g) 3 = None" using two_stacks_run by blast
  have "wf_group g" using group_run_wf [OF new_group_wf, of plain_vtable two_stacks "[]"] run(1) by auto
  then obtain st where "map_of (stacks g) 2 = Some st" using wf_groupD(2) [of g] run(2) by auto
  from relabel_stack_fresh [OF \<open>wf_group g\<close> this run(3)] run show ?thesis by fastforce
qed

text \<open>
  Relabelling to a name that is taken reports success, but the relabelled stack is destroyed with
  its history; if it was active, the other stack silently becomes the active one.
\<close>

theorem relabel_stack_collision:
  assumes "wf_group g" "map_of (stacks g) old_name = Some st"
    "map_of (stacks g) new_name = Some st'" "old_name \<noteq> new_name"
  shows "\<exists>g'. relabel_stack old_name new_name g = (True, g') \<and>
     group_stack g' new_name = Inr st' \<and> group_stack g' old_name = Inl Out_Of_Bounds \<and>
     (active_stack_name g = old_name \<longrightarrow> active_stack_name g' = new_name)"
  using assms by (auto simp: relabel_stack_def group_stack_def Let_def delete_conv')

text \<open>Relabelling to 0, the name \<open>add_stack\<close> refuses, succeeds and deactivates the active stack.\<close>

theorem relabel_stack_to_zero:
  assumes "wf_group g" "map_of (stacks g) (active_stack_name g) = Some st"
  shows "fst (relabel_stack (active_stack_name g) 0 g) \<and>
     active_stack_name (snd (relabel_stack (active_stack_name g) 0 g)) = 0"
  using assms by (auto simp: relabel_stack_def Let_def)

end
