(* ===== verification/Sparse_Set.thy ===== *)
theory Sparse_Set
  imports Kibble_Prelude
begin

text \<open>
  The sparse sets and handle pools of \<open>util/sparse_set.h\<close>: \<open>SparseSet\<close>, \<open>DynamicSparseSet\<close>,
  \<open>SparsePool\<close> and \<open>SecureSparsePool\<close>. The element type \<open>T\<close> is a word of any width, the
  template parameter \<open>SIZE\<close> is the length of the arrays; the arrays are not initialised by the
  source, so their initial contents are arbitrary.
\<close>

section \<open>SparseSet\<close>

record 'i sparse_set =
  dense :: "'i list"
  sparse :: "'i list"
  set_size :: nat

text \<open>A default-constructed set over arrays with whatever contents they have.\<close>

definition new_sparse_set :: "'w::len word list \<Rightarrow> 'w word list \<Rightarrow> 'w word sparse_set" where
  "new_sparse_set d0 s0 = \<lparr>dense = d0, sparse = s0, set_size = 0\<rparr>"

definition ss_iterate :: "'w::len word sparse_set \<Rightarrow> 'w word list" where
  "ss_iterate s = take (set_size s) (dense s)"

definition ss_size :: "'w::len word sparse_set \<Rightarrow> nat" where
  "ss_size s = set_size s"

definition ss_empty :: "'w::len word sparse_set \<Rightarrow> bool" where
  "ss_empty s = (set_size s = 0)"

definition ss_clear :: "'w::len word sparse_set \<Rightarrow> 'w word sparse_set" where
  "ss_clear s = s\<lparr>set_size := 0\<rparr>"

text \<open>The short-circuit conjunction shared by the four classes: \<open>SIZE\<close> or \<open>capacity_\<close> is \<open>bound\<close>.\<close>

definition lookup :: "nat \<Rightarrow> 'w::len word list \<Rightarrow> 'w word list \<Rightarrow> nat \<Rightarrow> 'w word \<Rightarrow> fault + bool" where
  "lookup bound den spa n val =
     (if unat val < bound
      then res_bind (arr_read spa (unat val)) (\<lambda>i.
             if unat i < n
             then res_bind (arr_read den (unat i)) (\<lambda>v. Inr (v = val))
             else Inr False)
      else Inr False)"

definition ss_has :: "'w::len word sparse_set \<Rightarrow> 'w word \<Rightarrow> fault + bool" where
  "ss_has s val = lookup (length (dense s)) (dense s) (sparse s) (set_size s) val"

text \<open>
  The mutating operations take \<open>const T& val\<close>: a reference to an object of the caller, which they
  do not change, or to an entry of \<open>dense\<close>, as a dereferenced iterator gives it. The second kind is
  read again from the array at every use of \<open>val\<close>, so it sees the writes made in between.
\<close>

datatype 'v cref = Temp 'v | Slot nat

fun cref_read :: "'v list \<Rightarrow> 'v cref \<Rightarrow> fault + 'v" where
  "cref_read den (Temp v) = Inr v"
| "cref_read den (Slot i) = arr_read den i"

definition ss_insert :: "'w::len word cref \<Rightarrow> 'w word sparse_set \<Rightarrow> fault + 'w word sparse_set" where
  "ss_insert r s =
     res_bind (cref_read (dense s) r) (\<lambda>val.
     res_bind (ss_has s val) (\<lambda>present.
       if present then Inr s
       else res_bind (k_assert (unat val < length (dense s))) (\<lambda>_.
            res_bind (arr_write (dense s) (set_size s) val) (\<lambda>den.
            res_bind (cref_read den r) (\<lambda>val'.
            res_bind (arr_write (sparse s) (unat val') (word_of_nat (set_size s))) (\<lambda>spa.
            Inr (s\<lparr>dense := den, sparse := spa, set_size := Suc (set_size s)\<rparr>)))))))"

text \<open>
  The body of \<open>erase\<close> when the element is present: the last dense element takes its place.
\<close>

definition swap_with_last ::
  "'w::len word list \<Rightarrow> 'w word list \<Rightarrow> nat \<Rightarrow> 'w word cref \<Rightarrow> fault + 'w word list \<times> 'w word list" where
  "swap_with_last den spa n r =
     res_bind (cref_read den r) (\<lambda>val.
     res_bind (arr_read spa (unat val)) (\<lambda>i.
     res_bind (arr_read den (n - 1)) (\<lambda>final.
     res_bind (arr_write den (unat i) final) (\<lambda>den'.
     res_bind (arr_read den' (n - 1)) (\<lambda>final'.
     res_bind (cref_read den' r) (\<lambda>val'.
     res_bind (arr_read spa (unat val')) (\<lambda>i'.
     res_bind (arr_write spa (unat final') i') (\<lambda>spa'. Inr (den', spa')))))))))"

definition ss_erase :: "'w::len word cref \<Rightarrow> 'w word sparse_set \<Rightarrow> fault + 'w word sparse_set" where
  "ss_erase r s =
     res_bind (cref_read (dense s) r) (\<lambda>val.
     res_bind (ss_has s val) (\<lambda>present.
       if present
       then res_bind (swap_with_last (dense s) (sparse s) (set_size s) r) (\<lambda>(den, spa).
            Inr (s\<lparr>dense := den, sparse := spa, set_size := set_size s - 1\<rparr>))
       else Inr s))"

section \<open>DynamicSparseSet\<close>

record 'i dyn_set =
  dyn_dense :: "'i list"
  dyn_sparse :: "'i list"
  dyn_size :: nat
  capacity :: nat

definition new_dyn_set :: "'w::len word dyn_set" where
  "new_dyn_set = \<lparr>dyn_dense = [], dyn_sparse = [], dyn_size = 0, capacity = 0\<rparr>"

definition dyn_iterate :: "'w::len word dyn_set \<Rightarrow> 'w word list" where
  "dyn_iterate s = take (dyn_size s) (dyn_dense s)"

definition dyn_empty :: "'w::len word dyn_set \<Rightarrow> bool" where
  "dyn_empty s = (dyn_size s = 0)"

definition dyn_clear :: "'w::len word dyn_set \<Rightarrow> 'w word dyn_set" where
  "dyn_clear s = s\<lparr>dyn_size := 0\<rparr>"

definition dyn_has :: "'w::len word dyn_set \<Rightarrow> 'w word \<Rightarrow> fault + bool" where
  "dyn_has s val = lookup (capacity s) (dyn_dense s) (dyn_sparse s) (dyn_size s) val"

text \<open>\<open>vector::resize(u, 0)\<close>.\<close>

definition resize :: "nat \<Rightarrow> 'w::len word list \<Rightarrow> 'w word list" where
  "resize u xs = take u xs @ replicate (u - length xs) 0"

definition reserve :: "nat \<Rightarrow> 'w::len word dyn_set \<Rightarrow> 'w word dyn_set" where
  "reserve u s =
     (if u > capacity s
      then s\<lparr>dyn_dense := resize u (dyn_dense s), dyn_sparse := resize u (dyn_sparse s), capacity := u\<rparr>
      else s)"

text \<open>
  The expression \<open>val + 1\<close>: an unsigned type narrower than \<open>int\<close> is promoted to \<open>int\<close>, a wider
  one wraps around.
\<close>

definition plus_one :: "'w::len word \<Rightarrow> nat" where
  "plus_one val = (if LENGTH('w) < 32 then unat val + 1 else unat (val + 1))"

text \<open>
  A reference into \<open>dyn_dense\<close> is left dangling when the vector grows: using it then is reported
  as an access out of bounds.
\<close>

definition dyn_insert :: "'w::len word cref \<Rightarrow> 'w word dyn_set \<Rightarrow> fault + 'w word dyn_set" where
  "dyn_insert r s =
     res_bind (cref_read (dyn_dense s) r) (\<lambda>val.
     res_bind (dyn_has s val) (\<lambda>present.
       if present then Inr s
       else (let s1 = (if unat val \<ge> capacity s then reserve (plus_one val) s else s);
                 mem = (if capacity s1 = capacity s then dyn_dense s1 else [])
             in res_bind (cref_read mem r) (\<lambda>val1.
                res_bind (arr_write (dyn_dense s1) (dyn_size s1) val1) (\<lambda>den.
                res_bind (cref_read (if capacity s1 = capacity s then den else []) r) (\<lambda>val2.
                res_bind (arr_write (dyn_sparse s1) (unat val2) (word_of_nat (dyn_size s1))) (\<lambda>spa.
                Inr (s1\<lparr>dyn_dense := den, dyn_sparse := spa, dyn_size := Suc (dyn_size s1)\<rparr>))))))))"

definition dyn_erase :: "'w::len word cref \<Rightarrow> 'w word dyn_set \<Rightarrow> fault + 'w word dyn_set" where
  "dyn_erase r s =
     res_bind (cref_read (dyn_dense s) r) (\<lambda>val.
     res_bind (dyn_has s val) (\<lambda>present.
       if present
       then res_bind (swap_with_last (dyn_dense s) (dyn_sparse s) (dyn_size s) r) (\<lambda>(den, spa).
            Inr (s\<lparr>dyn_dense := den, dyn_sparse := spa, dyn_size := dyn_size s - 1\<rparr>))
       else Inr s))"

section \<open>The packed-array invariant\<close>

text \<open>
  The first \<open>n\<close> dense entries are the elements, and the sparse array sends each of them to its
  position. What the other entries of the two arrays hold is arbitrary.
\<close>

definition packed :: "nat \<Rightarrow> 'w::len word list \<Rightarrow> 'w word list \<Rightarrow> nat \<Rightarrow> bool" where
  "packed N den spa n \<longleftrightarrow> length den = N \<and> length spa = N \<and> n \<le> N \<and>
     (\<forall>i<n. unat (den ! i) < N \<and> unat (spa ! unat (den ! i)) = i)"

lemma packed_distinct: "packed N den spa n \<Longrightarrow> distinct (take n den)"
  unfolding distinct_conv_nth packed_def by (auto, metis)

lemma packed_lookup:
  assumes "packed N den spa n"
  shows "lookup N den spa n v = Inr (v \<in> set (take n den))"
proof (cases "unat v < N \<and> unat (spa ! unat v) < n")
  case True
  with assms have "den ! unat (spa ! unat v) = v \<longleftrightarrow> v \<in> set (take n den)"
    by (auto simp: packed_def in_set_conv_nth)
  with True assms show ?thesis by (simp add: lookup_def packed_def)
next
  case False
  with assms have "v \<notin> set (take n den)" by (auto simp: packed_def in_set_conv_nth)
  with False assms show ?thesis by (auto simp: lookup_def packed_def)
qed

text \<open>Whenever an admissible value is missing, there is room for it, also in the index type.\<close>

lemma packed_room:
  fixes v :: "'w::len word"
  assumes "packed N den spa n" "v \<notin> set (take n den)" "unat v < N"
  shows "n < N" "n < 2 ^ LENGTH('w)"
proof -
  have "distinct (map unat (take n den))"
    using packed_distinct [OF assms(1)] by (simp add: distinct_map inj_on_def)
  then have c: "card (unat ` set (take n den)) = n"
    using assms(1) by (metis distinct_card length_map length_take list.set_map min.absorb2 packed_def)
  have "unat ` set (take n den) \<subseteq> {..<N} - {unat v}"
    using assms by (fastforce simp: packed_def in_set_conv_nth)
  from card_mono [OF _ this] c assms(3) show "n < N" by auto
  have "unat ` set (take n den) \<subseteq> {..<2 ^ LENGTH('w)} - {unat v}" using assms(2) by auto
  from card_mono [OF _ this] c show "n < 2 ^ LENGTH('w)"
    by (simp add: card_Diff_subset) (metis Suc_pred le_imp_less_Suc zero_less_numeral zero_less_power)
qed

lemma packed_insert:
  fixes v :: "'w::len word"
  assumes "packed N den spa n" "v \<notin> set (take n den)" "unat v < N"
  shows "packed N (den[n := v]) (spa[unat v := word_of_nat n]) (Suc n)"
    "set (take (Suc n) (den[n := v])) = insert v (set (take n den))"
proof -
  have room: "n < N" "unat (word_of_nat n :: 'w word) = n"
    using packed_room [OF assms] by (auto simp: unat_word_of_nat)
  have "\<And>i. i < n \<Longrightarrow> unat (den ! i) \<noteq> unat v"
    using assms(1,2) room(1) by (auto simp: packed_def in_set_conv_nth)
  with assms room show "packed N (den[n := v]) (spa[unat v := word_of_nat n]) (Suc n)"
    by (auto simp: packed_def nth_list_update less_Suc_eq)
  from room(1) assms(1) show "set (take (Suc n) (den[n := v])) = insert v (set (take n den))"
    by (simp add: packed_def take_Suc_conv_app_nth)
qed

lemma packed_swap:
  fixes v :: "'w::len word"
  assumes "packed N den spa n" "v \<in> set (take n den)"
  defines "i \<equiv> unat (spa ! unat v)"
  shows "swap_with_last den spa n (Temp v) = Inr (den[i := den ! (n - 1)], spa[unat (den ! (n - 1)) := spa ! unat v])"
    "packed N (den[i := den ! (n - 1)]) (spa[unat (den ! (n - 1)) := spa ! unat v]) (n - 1)"
    "set (take (n - 1) (den[i := den ! (n - 1)])) = set (take n den) - {v}"
proof -
  from assms(1,2) have i: "i < n" "den ! i = v" "unat v < N" "n \<le> N" "length den = N" "length spa = N"
    by (auto simp: packed_def in_set_conv_nth i_def)
  have idx: "\<And>j. j < n \<Longrightarrow> unat (den ! j) < N \<and> unat (spa ! unat (den ! j)) = j"
    using assms(1) by (auto simp: packed_def)
  have inj: "\<And>j k. j < n \<Longrightarrow> k < n \<Longrightarrow> den ! j = den ! k \<Longrightarrow> j = k" using idx by metis
  show "swap_with_last den spa n (Temp v) = Inr (den[i := den ! (n - 1)], spa[unat (den ! (n - 1)) := spa ! unat v])"
    using i idx [of "n - 1"] by (simp add: swap_with_last_def i_def [symmetric] nth_list_update)
  show "packed N (den[i := den ! (n - 1)]) (spa[unat (den ! (n - 1)) := spa ! unat v]) (n - 1)"
    unfolding packed_def
  proof (intro conjI allI impI)
    fix j assume j: "j < n - 1"
    then have "j < n" "n - 1 < n" by auto
    with j have "den ! j \<noteq> den ! (n - 1)" using inj by blast
    with j i idx [of j] idx [of "n - 1"]
    show "unat (den[i := den ! (n - 1)] ! j) < N"
      "unat (spa[unat (den ! (n - 1)) := spa ! unat v] ! unat (den[i := den ! (n - 1)] ! j)) = j"
      by (auto simp: nth_list_update i_def [symmetric])
  qed (use i in auto)
  show "set (take (n - 1) (den[i := den ! (n - 1)])) = set (take n den) - {v}" (is "?L = ?R")
  proof (rule set_eqI)
    fix x
    have "x \<in> ?L \<longleftrightarrow> (\<exists>j<n - 1. (den[i := den ! (n - 1)]) ! j = x)"
      using i by (auto simp: in_set_conv_nth)
    also have "\<dots> \<longleftrightarrow> (\<exists>j<n. j \<noteq> i \<and> den ! j = x)"
    proof
      assume "\<exists>j<n - 1. (den[i := den ! (n - 1)]) ! j = x"
      then obtain j where "j < n - 1" "(den[i := den ! (n - 1)]) ! j = x" by auto
      then show "\<exists>j<n. j \<noteq> i \<and> den ! j = x"
        using i by (intro exI [of _ "if j = i then n - 1 else j"]) auto
    next
      assume "\<exists>j<n. j \<noteq> i \<and> den ! j = x"
      then obtain j where "j < n" "j \<noteq> i" "den ! j = x" by auto
      then show "\<exists>j<n - 1. (den[i := den ! (n - 1)]) ! j = x"
        using i by (intro exI [of _ "if j = n - 1 then i else j"]) (auto simp: nth_list_update)
    qed
    also have "\<dots> \<longleftrightarrow> x \<in> ?R" using i inj by (auto simp: in_set_conv_nth)
    finally show "x \<in> ?L \<longleftrightarrow> x \<in> ?R" .
  qed
qed

section \<open>The interface of a set of integers\<close>

datatype 'v set_op = Insert 'v | Erase 'v | Clear_All

fun set_spec :: "'v set_op \<Rightarrow> 'v set \<Rightarrow> 'v set" where
  "set_spec (Insert v) A = insert v A"
| "set_spec (Erase v) A = A - {v}"
| "set_spec Clear_All A = {}"

fun inserted :: "'v set_op \<Rightarrow> 'v set" where
  "inserted (Insert v) = {v}"
| "inserted _ = {}"

text \<open>
  What a client of such a set relies on: membership, one step of each operation, and iteration
  over the elements without repetition. \<open>fits v\<close> says that the value \<open>v\<close> may be inserted.
\<close>

locale int_set =
  fixes inv :: "'s \<Rightarrow> bool" and has_op :: "'s \<Rightarrow> 'v \<Rightarrow> fault + bool"
    and step :: "'v set_op \<Rightarrow> 's \<Rightarrow> fault + 's" and iter :: "'s \<Rightarrow> 'v list"
    and fits :: "'v \<Rightarrow> bool"
  assumes has_iter: "inv s \<Longrightarrow> has_op s v = Inr (v \<in> set (iter s))"
    and iter_distinct: "inv s \<Longrightarrow> distinct (iter s)"
    and step_ok: "inv s \<Longrightarrow> (\<And>v. v \<in> inserted x \<Longrightarrow> fits v) \<Longrightarrow>
       \<exists>s'. step x s = Inr s' \<and> inv s' \<and> set (iter s') = set_spec x (set (iter s))"
begin

lemma run_refines:
  assumes "inv s" "\<forall>x \<in> set xs. \<forall>v \<in> inserted x. fits v"
  shows "\<exists>s'. run_ops step xs s = Inr s' \<and> inv s' \<and> set (iter s') = fold set_spec xs (set (iter s)) \<and>
     (\<forall>v. has_op s' v = Inr (v \<in> fold set_spec xs (set (iter s)))) \<and>
     length (iter s') = card (fold set_spec xs (set (iter s)))"
  using assms
proof (induction xs arbitrary: s)
  case Nil
  then show ?case by (simp add: has_iter distinct_card iter_distinct)
next
  case (Cons x xs)
  then obtain s1 where "step x s = Inr s1" "inv s1" "set (iter s1) = set_spec x (set (iter s))"
    using step_ok [of s x] by auto
  with Cons.IH [of s1] Cons.prems show ?case by auto
qed

end

subsection \<open>SparseSet provides it\<close>

text \<open>A client whose arguments are objects of its own, not references into the set.\<close>

fun ss_step :: "'w::len word set_op \<Rightarrow> 'w word sparse_set \<Rightarrow> fault + 'w word sparse_set" where
  "ss_step (Insert v) s = ss_insert (Temp v) s"
| "ss_step (Erase v) s = ss_erase (Temp v) s"
| "ss_step Clear_All s = Inr (ss_clear s)"

definition wf_ss :: "nat \<Rightarrow> 'w::len word sparse_set \<Rightarrow> bool" where
  "wf_ss N s \<longleftrightarrow> packed N (dense s) (sparse s) (set_size s)"

lemma ss_has_iter: "wf_ss N s \<Longrightarrow> ss_has s v = Inr (v \<in> set (ss_iterate s))"
  using packed_lookup [of N "dense s"] by (auto simp: ss_has_def wf_ss_def ss_iterate_def packed_def)

lemma ss_step_ok:
  assumes "wf_ss N s" "\<And>v. v \<in> inserted x \<Longrightarrow> unat v < N"
  shows "\<exists>s'. ss_step x s = Inr s' \<and> wf_ss N s' \<and> set (ss_iterate s') = set_spec x (set (ss_iterate s))"
proof (cases x)
  case (Insert v)
  show ?thesis
  proof (cases "v \<in> set (ss_iterate s)")
    case False
    then have v: "packed N (dense s) (sparse s) (set_size s)" "v \<notin> set (take (set_size s) (dense s))" "unat v < N"
      using assms Insert by (auto simp: wf_ss_def ss_iterate_def)
    note packed_insert [OF v] packed_room [OF v] 
    with v Insert False ss_has_iter [OF assms(1), of v] show ?thesis
      by (auto simp: ss_insert_def wf_ss_def packed_def ss_iterate_def)
  qed (use assms Insert ss_has_iter [OF assms(1), of v] in \<open>auto simp: ss_insert_def\<close>)
next
  case (Erase v)
  show ?thesis
  proof (cases "v \<in> set (ss_iterate s)")
    case True
    then have v: "packed N (dense s) (sparse s) (set_size s)" "v \<in> set (take (set_size s) (dense s))"
      using assms by (auto simp: wf_ss_def ss_iterate_def)
    from packed_swap [OF v] Erase True ss_has_iter [OF assms(1), of v] show ?thesis
      by (simp add: ss_erase_def wf_ss_def ss_iterate_def)
  qed (use assms Erase ss_has_iter [OF assms(1), of v] in \<open>auto simp: ss_erase_def\<close>)
qed (use assms in \<open>auto simp: ss_clear_def wf_ss_def packed_def ss_iterate_def\<close>)

interpretation ss: int_set "wf_ss N" ss_has ss_step ss_iterate "\<lambda>v. unat v < N" for N
  by unfold_locales
    (simp_all add: ss_has_iter ss_step_ok, auto simp: wf_ss_def ss_iterate_def intro: packed_distinct)

subsection \<open>DynamicSparseSet provides it\<close>

fun dyn_step :: "'w::len word set_op \<Rightarrow> 'w word dyn_set \<Rightarrow> fault + 'w word dyn_set" where
  "dyn_step (Insert v) s = dyn_insert (Temp v) s"
| "dyn_step (Erase v) s = dyn_erase (Temp v) s"
| "dyn_step Clear_All s = Inr (dyn_clear s)"

definition wf_dyn :: "'w::len word dyn_set \<Rightarrow> bool" where
  "wf_dyn s \<longleftrightarrow> packed (capacity s) (dyn_dense s) (dyn_sparse s) (dyn_size s)"

definition dyn_fits :: "'w::len word \<Rightarrow> bool" where
  "dyn_fits v \<longleftrightarrow> LENGTH('w) < 32 \<or> v \<noteq> -1"

lemma dyn_has_iter: "wf_dyn s \<Longrightarrow> dyn_has s v = Inr (v \<in> set (dyn_iterate s))"
  by (simp add: dyn_has_def wf_dyn_def dyn_iterate_def packed_lookup)

lemma reserve_wf:
  assumes "wf_dyn s"
  shows "wf_dyn (reserve u s)" "dyn_iterate (reserve u s) = dyn_iterate s"
    "dyn_size (reserve u s) = dyn_size s" "capacity (reserve u s) = max u (capacity s)"
  using assms by (auto simp: reserve_def wf_dyn_def packed_def dyn_iterate_def resize_def nth_append)

lemma plus_one_fits: "dyn_fits v \<Longrightarrow> plus_one v = unat v + 1"
  using unatSuc [of v] by (auto simp: dyn_fits_def plus_one_def add.commute eq_neg_iff_add_eq_0)

lemma dyn_step_ok:
  assumes "wf_dyn s" "\<And>v. v \<in> inserted x \<Longrightarrow> dyn_fits v"
  shows "\<exists>s'. dyn_step x s = Inr s' \<and> wf_dyn s' \<and> set (dyn_iterate s') = set_spec x (set (dyn_iterate s))"
proof (cases x)
  case (Insert v)
  show ?thesis
  proof (cases "v \<in> set (dyn_iterate s)")
    case False
    define s1 where "s1 = (if unat v \<ge> capacity s then reserve (plus_one v) s else s)"
    have s1: "wf_dyn s1" "dyn_iterate s1 = dyn_iterate s" "unat v < capacity s1"
      using reserve_wf [OF assms(1), of "plus_one v"] assms Insert by (auto simp: s1_def plus_one_fits)
    then have v: "packed (capacity s1) (dyn_dense s1) (dyn_sparse s1) (dyn_size s1)"
      "v \<notin> set (take (dyn_size s1) (dyn_dense s1))" "unat v < capacity s1"
      using False by (auto simp: wf_dyn_def dyn_iterate_def)
    have "dyn_step x s = Inr (s1\<lparr>dyn_dense := (dyn_dense s1)[dyn_size s1 := v],
        dyn_sparse := (dyn_sparse s1)[unat v := word_of_nat (dyn_size s1)], dyn_size := Suc (dyn_size s1)\<rparr>)"
      using packed_room(1) [OF v] v Insert False dyn_has_iter [OF assms(1), of v]
      by (simp add: dyn_insert_def Let_def packed_def flip: s1_def)
    with packed_insert [OF v] s1(2) Insert show ?thesis
      by (auto simp: wf_dyn_def dyn_iterate_def)
  qed (use assms Insert dyn_has_iter [OF assms(1), of v] in \<open>auto simp: dyn_insert_def\<close>)
next
  case (Erase v)
  show ?thesis
  proof (cases "v \<in> set (dyn_iterate s)")
    case True
    then have v: "packed (capacity s) (dyn_dense s) (dyn_sparse s) (dyn_size s)"
      "v \<in> set (take (dyn_size s) (dyn_dense s))"
      using assms by (auto simp: wf_dyn_def dyn_iterate_def)
    from packed_swap [OF v] Erase True dyn_has_iter [OF assms(1), of v] show ?thesis
      by (simp add: dyn_erase_def wf_dyn_def dyn_iterate_def)
  qed (use assms Erase dyn_has_iter [OF assms(1), of v] in \<open>auto simp: dyn_erase_def\<close>)
qed (use assms in \<open>auto simp: dyn_clear_def wf_dyn_def packed_def dyn_iterate_def\<close>)

interpretation dyn: int_set wf_dyn dyn_has dyn_step dyn_iterate dyn_fits
  by unfold_locales
    (simp_all add: dyn_has_iter dyn_step_ok, auto simp: wf_dyn_def dyn_iterate_def intro: packed_distinct)

section \<open>Properties of the sets\<close>

text \<open>
  C9. \<open>SparseSet\<close> refines a mathematical set: from arrays of any initial contents, a sequence of
  insertions of values below \<open>SIZE\<close>, erasures and clears never faults, \<open>has\<close> then answers
  membership for every value of the type, iteration visits each element exactly once, and \<open>size\<close>
  is the cardinality. The narrow index type never overflows, whatever \<open>SIZE\<close> is. The arguments are
  objects of the caller (\<open>Temp\<close>): what a reference into the set does is stated below, by
  \<open>insert_through_iterator\<close> and \<open>erase_through_iterator\<close>.
\<close>

theorem sparse_set_refines_set:
  fixes d0 s0 :: "'w::len word list"
  assumes "length d0 = SIZE" and "length s0 = SIZE"
    and "\<forall>x \<in> set xs. \<forall>v \<in> inserted x. unat v < SIZE"
  shows "\<exists>s. run_ops ss_step xs (new_sparse_set d0 s0) = Inr s \<and>
     (\<forall>v. ss_has s v = Inr (v \<in> fold set_spec xs {})) \<and>
     distinct (ss_iterate s) \<and> set (ss_iterate s) = fold set_spec xs {} \<and>
     ss_size s = card (fold set_spec xs {}) \<and> ss_empty s = (fold set_spec xs {} = {})"
proof -
  have "wf_ss SIZE (new_sparse_set d0 s0)" "ss_iterate (new_sparse_set d0 s0) = []"
    using assms(1,2) by (simp_all add: wf_ss_def new_sparse_set_def packed_def ss_iterate_def)
  with ss.run_refines [of SIZE "new_sparse_set d0 s0" xs] assms(3) obtain s where
    s: "run_ops ss_step xs (new_sparse_set d0 s0) = Inr s" "wf_ss SIZE s"
       "set (ss_iterate s) = fold set_spec xs {}" "\<forall>v. ss_has s v = Inr (v \<in> fold set_spec xs {})"
       "length (ss_iterate s) = card (fold set_spec xs {})" by auto
  moreover have "ss_size s = length (ss_iterate s)"
    using s(2) by (simp add: wf_ss_def packed_def ss_iterate_def ss_size_def)
  ultimately show ?thesis using ss.iter_distinct [OF s(2)]
    by (auto simp: ss_empty_def ss_size_def simp flip: s(3))
qed

theorem sparse_set_refines_set_witness:
  "\<exists>s. run_ops ss_step [Insert 3, Insert 0, Insert 3, Erase 3, Insert 2]
       (new_sparse_set [7, 7, 7, 7] [1, 2, 0, 9 :: 8 word]) = Inr s \<and>
     ss_has s 3 = Inr False \<and> ss_has s 2 = Inr True \<and> ss_size s = 2"
proof -
  have "fold set_spec [Insert 3, Insert 0, Insert 3, Erase 3, Insert 2] {} = {2, 0 :: 8 word}" by auto
  with sparse_set_refines_set [of "[7, 7, 7, 7]" 4 "[1, 2, 0, 9 :: 8 word]"
      "[Insert 3, Insert 0, Insert 3, Erase 3, Insert 2]"]
  show ?thesis by auto
qed

text \<open>
  Inserting what an iterator of the set refers to is harmless; erasing it is not, unless it is the
  last element. \<open>erase\<close> reads \<open>val\<close> again after the last element has overwritten it, so it leaves
  the sparse index of that last element as it was: the element is still visited by an iteration, and
  \<open>has\<close> denies it.
\<close>

lemma ss_has_entry:
  assumes "wf_ss N s" "i < ss_size s"
  shows "i < length (dense s)" "ss_has s (dense s ! i) = Inr True"
proof -
  show "i < length (dense s)" using assms by (simp add: wf_ss_def packed_def ss_size_def)
  then have "dense s ! i \<in> set (ss_iterate s)"
    using nth_mem [of i "ss_iterate s"] assms(2) by (simp add: ss_iterate_def ss_size_def)
  then show "ss_has s (dense s ! i) = Inr True" by (simp add: ss_has_iter [OF assms(1)])
qed

lemma insert_through_iterator:
  "wf_ss N s \<Longrightarrow> i < ss_size s \<Longrightarrow> ss_insert (Slot i) s = Inr s"
  by (simp add: ss_insert_def ss_has_entry)

theorem erase_through_iterator:
  assumes "wf_ss N s" "i + 1 < ss_size s"
  shows "\<exists>s'. ss_erase (Slot i) s = Inr s' \<and> last (ss_iterate s) \<in> set (ss_iterate s') \<and>
     ss_has s' (last (ss_iterate s)) = Inr False"
proof -
  define n where "n = set_size s"
  define l where "l = dense s ! (n - 1)"
  have i: "i < n - 1" "i < n" "n - 1 < n" "n \<le> N" "length (dense s) = N" "length (sparse s) = N" "0 < n"
    and idx: "\<And>j. j < n \<Longrightarrow> unat (dense s ! j) < N \<and> unat (sparse s ! unat (dense s ! j)) = j"
    using assms by (auto simp: wf_ss_def packed_def ss_size_def n_def)
  have has: "ss_has s (dense s ! i) = Inr True"
    using ss_has_entry [OF assms(1)] assms(2) by simp
  have last: "last (ss_iterate s) = l"
    unfolding ss_iterate_def l_def n_def [symmetric] using i by (subst last_conv_nth) auto
  have swap: "swap_with_last (dense s) (sparse s) n (Slot i) = Inr ((dense s)[i := l], sparse s)"
    using i idx [of i] idx [of "n - 1"] by (simp add: swap_with_last_def l_def)
  define s' where "s' = s\<lparr>dense := (dense s)[i := l], set_size := n - 1\<rparr>"
  have "ss_erase (Slot i) s = Inr s'"
    using has swap i by (simp add: ss_erase_def s'_def n_def [symmetric])
  moreover have "l \<in> set (ss_iterate s')"
    using i by (auto simp: s'_def ss_iterate_def in_set_conv_nth intro!: exI [of _ i])
  moreover have "ss_has s' l = Inr False"
    using i idx [of "n - 1"] by (simp add: s'_def ss_has_def lookup_def l_def)
  ultimately show ?thesis by (auto simp: last)
qed

theorem erase_first_witness:
  "\<exists>s'. run_ops ss_step [Insert 3, Insert 1] (new_sparse_set [0, 0, 0, 0] [0, 0, 0, 0 :: 8 word]) = Inr s' \<and>
     res_bind (ss_erase (Slot 0) s') (\<lambda>s. Inr (ss_iterate s, ss_has s 1)) = Inr ([1], Inr False)"
  by (simp add: new_sparse_set_def ss_insert_def ss_has_def lookup_def ss_erase_def swap_with_last_def ss_iterate_def)

text \<open>
  \<open>DynamicSparseSet\<close> refines a mathematical set too, growing as needed, for all values except
  the greatest one of an index type of 32 bits or more.
\<close>

theorem dyn_set_refines_set:
  fixes xs :: "'w::len word set_op list"
  assumes "\<forall>x \<in> set xs. \<forall>v \<in> inserted x. dyn_fits v"
  shows "\<exists>s. run_ops dyn_step xs new_dyn_set = Inr s \<and>
     (\<forall>v. dyn_has s v = Inr (v \<in> fold set_spec xs {})) \<and>
     distinct (dyn_iterate s) \<and> set (dyn_iterate s) = fold set_spec xs {} \<and>
     dyn_size s = card (fold set_spec xs {}) \<and> dyn_empty s = (fold set_spec xs {} = {})"
proof -
  have "wf_dyn (new_dyn_set :: 'w word dyn_set)" "dyn_iterate (new_dyn_set :: 'w word dyn_set) = []"
    by (simp_all add: wf_dyn_def new_dyn_set_def packed_def dyn_iterate_def)
  with dyn.run_refines [of new_dyn_set xs] assms obtain s where
    s: "run_ops dyn_step xs new_dyn_set = Inr s" "wf_dyn s"
       "set (dyn_iterate s) = fold set_spec xs {}" "\<forall>v. dyn_has s v = Inr (v \<in> fold set_spec xs {})"
       "length (dyn_iterate s) = card (fold set_spec xs {})" by auto
  moreover have "dyn_size s = length (dyn_iterate s)"
    using s(2) by (simp add: wf_dyn_def packed_def dyn_iterate_def)
  ultimately show ?thesis using dyn.iter_distinct [OF s(2)]
    by (auto simp: dyn_empty_def simp flip: s(3))
qed

theorem dyn_set_refines_set_witness:
  "\<exists>s. run_ops dyn_step [Insert 300, Insert 7, Erase 300, Insert (9 :: u32)] new_dyn_set = Inr s \<and>
     dyn_has s 300 = Inr False \<and> dyn_has s 9 = Inr True \<and> dyn_size s = 2"
proof -
  have "fold set_spec [Insert 300, Insert 7, Erase 300, Insert (9 :: u32)] {} = {9, 7}" by auto
  with dyn_set_refines_set [of "[Insert 300, Insert 7, Erase 300, Insert (9 :: u32)]"]
  show ?thesis by (auto simp: dyn_fits_def)
qed

text \<open>Inserting the excluded value writes outside the vectors.\<close>

theorem dyn_insert_max_out_of_bounds:
  "dyn_insert (Temp (-1 :: u32)) new_dyn_set = Inl Out_Of_Bounds"
  by (simp add: dyn_insert_def new_dyn_set_def dyn_has_def lookup_def plus_one_def reserve_def)

end
