(* ===== verification/Sparse_Pool.thy ===== *)
theory Sparse_Pool
  imports Sparse_Set
begin

unbundle bit_operations_syntax

text \<open>
  The handle pools of \<open>util/sparse_set.h\<close>: \<open>SparsePool\<close> produces and takes back integers,
  \<open>SecureSparsePool\<close> also counts the recyclings of each integer in the guard bits of its handles.
\<close>

section \<open>SparsePool\<close>

record 'i sparse_pool =
  pool_dense :: "'i list"
  pool_sparse :: "'i list"
  pool_size :: nat

text \<open>\<open>std::iota\<close> counts in \<open>int\<close> and assigns to the elements.\<close>

definition iota :: "nat \<Rightarrow> 'w::len word list" where
  "iota n = map word_of_nat [0..<n]"

definition sp_clear :: "'w::len word sparse_pool \<Rightarrow> 'w word sparse_pool" where
  "sp_clear s = s\<lparr>pool_size := 0, pool_dense := iota (length (pool_dense s))\<rparr>"

definition new_sparse_pool :: "'w::len word list \<Rightarrow> 'w word list \<Rightarrow> 'w word sparse_pool" where
  "new_sparse_pool d0 s0 = sp_clear \<lparr>pool_dense = d0, pool_sparse = s0, pool_size = 0\<rparr>"

definition sp_is_valid :: "'w::len word sparse_pool \<Rightarrow> 'w word \<Rightarrow> fault + bool" where
  "sp_is_valid s val = lookup (length (pool_dense s)) (pool_dense s) (pool_sparse s) (pool_size s) val"

definition sp_acquire :: "'w::len word sparse_pool \<Rightarrow> fault + 'w word \<times> 'w word sparse_pool" where
  "sp_acquire s =
     res_bind (k_assert (pool_size s + 1 < length (pool_dense s))) (\<lambda>_.
     let index = word_of_nat (pool_size s) :: 'w word in
     res_bind (arr_read (pool_dense s) (unat index)) (\<lambda>handle.
     res_bind (arr_write (pool_sparse s) (unat handle) index) (\<lambda>spa.
     Inr (handle, s\<lparr>pool_size := pool_size s + 1, pool_sparse := spa\<rparr>))))"

definition sp_release :: "'w::len word \<Rightarrow> 'w word sparse_pool \<Rightarrow> fault + 'w word sparse_pool" where
  "sp_release handle s =
     res_bind (sp_is_valid s handle) (\<lambda>valid.
     res_bind (k_assert valid) (\<lambda>_.
     res_bind (arr_read (pool_sparse s) (unat handle)) (\<lambda>index.
     let n = pool_size s - 1 in
     res_bind (arr_read (pool_dense s) n) (\<lambda>temp.
     res_bind (arr_write (pool_dense s) n handle) (\<lambda>den.
     res_bind (arr_write (pool_sparse s) (unat temp) index) (\<lambda>spa.
     res_bind (arr_write den (unat index) temp) (\<lambda>den'.
     Inr (s\<lparr>pool_size := n, pool_dense := den', pool_sparse := spa\<rparr>))))))))"

section \<open>SecureSparsePool\<close>

record 'i secure_pool =
  sec_dense :: "'i list"
  sec_sparse :: "'i list"
  guard :: "'i list"
  sec_size :: nat

text \<open>The loop of \<open>make_mask\<close> sets the bits from \<open>shift_pos\<close> on; \<open>GB\<close> is \<open>GUARD_BITS\<close>.\<close>

definition make_mask :: "nat \<Rightarrow> 'w::len word" where
  "make_mask shift_pos = fold (\<lambda>ii result. result OR push_bit ii 1) [shift_pos..<LENGTH('w)] 0"

definition k_guard_shift :: "'w::len itself \<Rightarrow> nat \<Rightarrow> nat" where
  "k_guard_shift _ GB = LENGTH('w) - GB"

definition k_guard_mask :: "nat \<Rightarrow> 'w::len word" where
  "k_guard_mask GB = make_mask (k_guard_shift TYPE('w) GB)"

definition k_handle_mask :: "nat \<Rightarrow> 'w::len word" where
  "k_handle_mask GB = NOT (k_guard_mask GB)"

definition unguard :: "nat \<Rightarrow> 'w::len word \<Rightarrow> 'w word" where
  "unguard GB handle = (k_handle_mask GB AND handle)"

definition guard_value :: "nat \<Rightarrow> 'w::len word \<Rightarrow> 'w word" where
  "guard_value GB handle = drop_bit (k_guard_shift TYPE('w) GB) (k_guard_mask GB AND handle)"

definition sec_clear :: "'w::len word secure_pool \<Rightarrow> 'w word secure_pool" where
  "sec_clear s = s\<lparr>sec_size := 0, sec_dense := iota (length (sec_dense s)),
     guard := replicate (length (guard s)) 0\<rparr>"

definition new_secure_pool :: "'w::len word list \<Rightarrow> 'w word list \<Rightarrow> 'w word list \<Rightarrow> 'w word secure_pool" where
  "new_secure_pool d0 s0 g0 = sec_clear \<lparr>sec_dense = d0, sec_sparse = s0, guard = g0, sec_size = 0\<rparr>"

definition sec_is_valid :: "nat \<Rightarrow> 'w::len word secure_pool \<Rightarrow> 'w word \<Rightarrow> fault + bool" where
  "sec_is_valid GB s val =
     (let unguarded = unguard GB val; guard_val = guard_value GB val in
      res_bind (lookup (length (sec_dense s)) (sec_dense s) (sec_sparse s) (sec_size s) unguarded) (\<lambda>found.
        if found then res_bind (arr_read (guard s) (unat unguarded)) (\<lambda>g. Inr (guard_val = g))
        else Inr False))"

definition sec_acquire :: "nat \<Rightarrow> 'w::len word secure_pool \<Rightarrow> fault + 'w word \<times> 'w word secure_pool" where
  "sec_acquire GB s =
     res_bind (k_assert (sec_size s + 1 < length (sec_dense s))) (\<lambda>_.
     let index = word_of_nat (sec_size s) :: 'w word in
     res_bind (arr_read (sec_dense s) (unat index)) (\<lambda>unguarded.
     res_bind (arr_write (sec_sparse s) (unat unguarded) index) (\<lambda>spa.
     res_bind (arr_read (guard s) (unat unguarded)) (\<lambda>g.
     Inr (unguarded OR push_bit (k_guard_shift TYPE('w) GB) g,
          s\<lparr>sec_size := sec_size s + 1, sec_sparse := spa\<rparr>)))))"

definition sec_release :: "nat \<Rightarrow> 'w::len word \<Rightarrow> 'w word secure_pool \<Rightarrow> fault + 'w word secure_pool" where
  "sec_release GB handle s =
     res_bind (sec_is_valid GB s handle) (\<lambda>valid.
     res_bind (k_assert valid) (\<lambda>_.
     let unguarded = handle AND k_handle_mask GB in
     res_bind (arr_read (sec_sparse s) (unat unguarded)) (\<lambda>index.
     let n = sec_size s - 1 in
     res_bind (arr_read (sec_dense s) n) (\<lambda>final.
     let temp = final AND k_handle_mask GB in
     res_bind (arr_write (sec_dense s) n unguarded) (\<lambda>den.
     res_bind (arr_write (sec_sparse s) (unat temp) index) (\<lambda>spa.
     res_bind (arr_write den (unat index) temp) (\<lambda>den'.
     res_bind (arr_read (guard s) (unat unguarded)) (\<lambda>g.
     res_bind (arr_write (guard s) (unat unguarded) (g + 1)) (\<lambda>gs.
     Inr (s\<lparr>sec_size := n, sec_dense := den', sec_sparse := spa, guard := gs\<rparr>))))))))))"

section \<open>The interface of a handle pool\<close>

text \<open>
  A client of a pool: it acquires handles and gives back the \<open>k\<close>-th of those it holds. It keeps
  the pool, the handles it holds, and the list of all the handles it ever received.
\<close>

datatype pool_op = Acquire | Give_Back nat

fun client_step :: "('s \<Rightarrow> fault + 'h \<times> 's) \<Rightarrow> ('h \<Rightarrow> 's \<Rightarrow> fault + 's) \<Rightarrow>
   pool_op \<Rightarrow> 's \<times> 'h list \<times> 'h list \<Rightarrow> fault + 's \<times> 'h list \<times> 'h list" where
  "client_step acq rel Acquire (s, hs, log) =
     res_bind (acq s) (\<lambda>(h, s'). Inr (s', hs @ [h], log @ [h]))"
| "client_step acq rel (Give_Back k) (s, hs, log) =
     (if k < length hs
      then res_bind (rel (hs ! k) s) (\<lambda>s'. Inr (s', take k hs @ drop (Suc k) hs, log))
      else Inr (s, hs, log))"

text \<open>The client never asks for more than the pool can give: fewer than \<open>bound\<close> handles at a time.\<close>

fun within :: "nat \<Rightarrow> nat \<Rightarrow> pool_op list \<Rightarrow> bool" where
  "within bound held [] = True"
| "within bound held (Acquire # xs) = (held + 1 < bound \<and> within bound (held + 1) xs)"
| "within bound held (Give_Back k # xs) = within bound (if k < held then held - 1 else held) xs"

fun returns :: "pool_op list \<Rightarrow> nat" where
  "returns [] = 0"
| "returns (Acquire # xs) = returns xs"
| "returns (Give_Back k # xs) = Suc (returns xs)"

text \<open>
  The contract: \<open>inv k s\<close> is the invariant of a pool that can still take back \<open>k\<close> handles. A new
  handle is never one that is outstanding.
\<close>

locale handle_pool =
  fixes inv :: "nat \<Rightarrow> 's \<Rightarrow> bool" and valid_op :: "'s \<Rightarrow> 'h \<Rightarrow> fault + bool"
    and acq :: "'s \<Rightarrow> fault + 'h \<times> 's" and rel :: "'h \<Rightarrow> 's \<Rightarrow> fault + 's"
    and outstanding :: "'s \<Rightarrow> 'h set" and bound :: nat
  assumes valid_iff: "inv k s \<Longrightarrow> valid_op s h = Inr (h \<in> outstanding s)"
    and acq_ok: "inv k s \<Longrightarrow> card (outstanding s) + 1 < bound \<Longrightarrow>
       \<exists>h s'. acq s = Inr (h, s') \<and> inv k s' \<and> h \<notin> outstanding s \<and> outstanding s' = insert h (outstanding s)"
    and rel_ok: "inv (Suc k) s \<Longrightarrow> h \<in> outstanding s \<Longrightarrow>
       \<exists>s'. rel h s = Inr s' \<and> inv k s' \<and> outstanding s' = outstanding s - {h}"
    and inv_mono: "inv (Suc k) s \<Longrightarrow> inv k s"
begin

lemma client_step_ok:
  assumes "inv (returns (x # xs)) s" "distinct hs" "set hs = outstanding s" "within bound (length hs) (x # xs)"
  shows "\<exists>s' hs' log'. client_step acq rel x (s, hs, log) = Inr (s', hs', log') \<and>
     inv (returns xs) s' \<and> distinct hs' \<and> set hs' = outstanding s' \<and> within bound (length hs') xs"
proof (cases x)
  case Acquire
  have "card (outstanding s) = length hs" using assms(2,3) distinct_card by metis
  with Acquire assms acq_ok [of "returns xs" s] show ?thesis by auto
next
  case (Give_Back k)
  show ?thesis
  proof (cases "k < length hs")
    case True
    note remove_nth [OF assms(2) this]
    moreover obtain s' where "rel (hs ! k) s = Inr s'" "inv (returns xs) s'" "outstanding s' = set hs - {hs ! k}"
      using rel_ok [of "returns xs" s "hs ! k"] nth_mem [OF True] Give_Back assms by auto
    ultimately show ?thesis using True Give_Back assms(4) by simp
  qed (use Give_Back assms in \<open>auto intro: inv_mono\<close>)
qed

lemma client_run_ok:
  assumes "inv (returns xs) s" "distinct hs" "set hs = outstanding s" "within bound (length hs) xs"
  shows "\<exists>s' hs' log'. run_ops (client_step acq rel) xs (s, hs, log) = Inr (s', hs', log') \<and>
     inv 0 s' \<and> distinct hs' \<and> set hs' = outstanding s' \<and> (\<forall>h. valid_op s' h = Inr (h \<in> set hs'))"
  using assms
proof (induction xs arbitrary: s hs log)
  case Nil
  then show ?case by (auto simp: valid_iff)
next
  case (Cons x xs)
  from client_step_ok [OF Cons.prems, of log] obtain s1 hs1 log1 where
    "client_step acq rel x (s, hs, log) = Inr (s1, hs1, log1)" "inv (returns xs) s1"
    "distinct hs1" "set hs1 = outstanding s1" "within bound (length hs1) xs" by blast
  with Cons.IH [of s1 hs1 log1] show ?case by auto
qed

end

subsection \<open>SparsePool provides it\<close>

text \<open>
  The arrays of a pool: packed as those of a set, and the dense array holds every number below
  \<open>SIZE\<close> once, so that the numbers after position \<open>n\<close> are the free ones.
\<close>

definition pool_arrays :: "nat \<Rightarrow> 'w::len word list \<Rightarrow> 'w word list \<Rightarrow> nat \<Rightarrow> bool" where
  "pool_arrays N den spa n \<longleftrightarrow> packed N den spa n \<and> distinct den \<and> (\<forall>v \<in> set den. unat v < N)"

lemma iota_props:
  assumes "N \<le> 2 ^ LENGTH('w)"
  shows "distinct (iota N :: 'w::len word list)" "v \<in> set (iota N :: 'w word list) \<Longrightarrow> unat v < N"
    "length (iota N :: 'w word list) = N"
proof -
  have "inj_on (word_of_nat :: nat \<Rightarrow> 'w word) {0..<N}"
    by (rule inj_on_inverseI [where g = unat]) (use assms in \<open>auto simp: unat_word_of_nat\<close>)
  then show "distinct (iota N :: 'w::len word list)" by (simp add: iota_def distinct_map)
  show "v \<in> set (iota N :: 'w word list) \<Longrightarrow> unat v < N"
    using assms by (auto simp: iota_def unat_word_of_nat)
qed (simp add: iota_def)

lemma pool_arrays_iota:
  "N \<le> 2 ^ LENGTH('w) \<Longrightarrow> length spa = N \<Longrightarrow> pool_arrays N (iota N :: 'w::len word list) spa 0"
  using iota_props [of N] by (auto simp: pool_arrays_def packed_def)

lemma packed_cong:
  "packed N den spa n \<Longrightarrow> length den' = length den \<Longrightarrow> take n den' = take n den \<Longrightarrow> packed N den' spa n"
  unfolding packed_def by (metis nth_take)

lemma pool_arrays_acquire:
  fixes den :: "'w::len word list"
  assumes "pool_arrays N den spa n" "n < N"
  shows "unat (den ! n) < N" "n < 2 ^ LENGTH('w)" "den ! n \<notin> set (take n den)"
    "pool_arrays N den (spa[unat (den ! n) := word_of_nat n]) (Suc n)"
    "set (take (Suc n) den) = insert (den ! n) (set (take n den))"
proof -
  have pk: "packed N den spa n" and len: "length den = N" and dis: "distinct den"
    and val: "\<forall>v \<in> set den. unat v < N" using assms(1) by (auto simp: pool_arrays_def packed_def)
  show v: "unat (den ! n) < N" using val len assms(2) by auto
  show fresh: "den ! n \<notin> set (take n den)"
    using dis len assms(2) by (auto simp: in_set_conv_nth nth_eq_iff_index_eq)
  show "n < 2 ^ LENGTH('w)" using packed_room [OF pk fresh v] by simp
  show "pool_arrays N den (spa[unat (den ! n) := word_of_nat n]) (Suc n)"
    "set (take (Suc n) den) = insert (den ! n) (set (take n den))"
    using packed_insert [OF pk fresh v] dis val by (simp_all add: pool_arrays_def)
qed

lemma pool_arrays_release:
  fixes den :: "'w::len word list"
  assumes "pool_arrays N den spa n" "h \<in> set (take n den)"
  defines "i \<equiv> unat (spa ! unat h)" and "t \<equiv> den ! (n - 1)"
  shows "unat h < N" "i < n" "n \<le> N" "unat t < N" "length den = N" "length spa = N"
    "pool_arrays N (den[n - 1 := h, i := t]) (spa[unat t := spa ! unat h]) (n - 1)"
    "set (take (n - 1) (den[n - 1 := h, i := t])) = set (take n den) - {h}"
proof -
  have pk: "packed N den spa n" and len: "length den = N" and lens: "length spa = N" and dis: "distinct den"
    and val: "\<forall>v \<in> set den. unat v < N" and le: "n \<le> N"
    using assms(1) by (auto simp: pool_arrays_def packed_def)
  from pk assms(2) have i: "i < n" "den ! i = h" "unat h < N"
    by (auto simp: packed_def in_set_conv_nth i_def)
  with le len show "unat h < N" "i < n" "n \<le> N" "length den = N" by auto
  show "length spa = N" by (rule lens)
  have "n - 1 < length den" using i(1) le len by auto
  then show "unat t < N" using val by (simp add: t_def)
  have swap: "den[n - 1 := h, i := t] = den[n - 1 := den ! i, i := den ! (n - 1)]"
    using i(2) by (simp add: t_def)
  have dis': "distinct (den[n - 1 := h, i := t])" "set (den[n - 1 := h, i := t]) = set den"
    unfolding swap using dis \<open>n - 1 < length den\<close> i(1) le len
    by (simp_all add: distinct_swap set_swap)
  have tk: "take (n - 1) (den[n - 1 := h, i := t]) = take (n - 1) (den[i := t])"
    by (simp add: take_update_swap list_update_beyond)
  from packed_swap(2,3) [OF pk assms(2)] dis' val tk
  show "pool_arrays N (den[n - 1 := h, i := t]) (spa[unat t := spa ! unat h]) (n - 1)"
    "set (take (n - 1) (den[n - 1 := h, i := t])) = set (take n den) - {h}"
    unfolding pool_arrays_def i_def [symmetric] t_def [symmetric]
    using packed_cong [of N "den[i := t]" _ "n - 1" "den[n - 1 := h, i := t]"] by simp_all
qed

definition wf_sp :: "nat \<Rightarrow> nat \<Rightarrow> 'w::len word sparse_pool \<Rightarrow> bool" where
  "wf_sp N k s \<longleftrightarrow> pool_arrays N (pool_dense s) (pool_sparse s) (pool_size s)"

definition sp_outstanding :: "'w::len word sparse_pool \<Rightarrow> 'w word set" where
  "sp_outstanding s = set (take (pool_size s) (pool_dense s))"

lemma pool_arrays_card: "pool_arrays N den spa n \<Longrightarrow> card (set (take n den)) = n"
  using packed_distinct [of N den spa n] distinct_card [of "take n den"]
  by (simp add: pool_arrays_def packed_def)

lemma sp_valid_iff: "wf_sp N k s \<Longrightarrow> sp_is_valid s h = Inr (h \<in> sp_outstanding s)"
  using packed_lookup [of N "pool_dense s" "pool_sparse s" "pool_size s" h]
  by (auto simp: wf_sp_def sp_is_valid_def sp_outstanding_def pool_arrays_def packed_def)

lemma sp_acquire_ok:
  assumes "wf_sp N k s" "card (sp_outstanding s) + 1 < N"
  shows "\<exists>h s'. sp_acquire s = Inr (h, s') \<and> wf_sp N k s' \<and> h \<notin> sp_outstanding s \<and>
     sp_outstanding s' = insert h (sp_outstanding s)"
proof -
  have pa: "pool_arrays N (pool_dense s) (pool_sparse s) (pool_size s)" using assms(1) by (simp add: wf_sp_def)
  have n: "pool_size s + 1 < N" using assms(2) pool_arrays_card [OF pa] by (simp add: sp_outstanding_def)
  then have "pool_size s < N" by simp
  note acq = pool_arrays_acquire [OF pa this]
  have len: "length (pool_dense s) = N" "length (pool_sparse s) = N"
    using pa by (auto simp: pool_arrays_def packed_def)
  have "sp_acquire s = Inr (pool_dense s ! pool_size s,
      s\<lparr>pool_size := pool_size s + 1,
        pool_sparse := (pool_sparse s)[unat (pool_dense s ! pool_size s) := word_of_nat (pool_size s)]\<rparr>)"
    using n len acq(1,2) by (simp add: sp_acquire_def unat_word_of_nat)
  with acq(3-) show ?thesis by (simp add: wf_sp_def sp_outstanding_def)
qed

lemma sp_release_ok:
  assumes "wf_sp N (Suc k) s" "h \<in> sp_outstanding s"
  shows "\<exists>s'. sp_release h s = Inr s' \<and> wf_sp N k s' \<and> sp_outstanding s' = sp_outstanding s - {h}"
proof -
  have pa: "pool_arrays N (pool_dense s) (pool_sparse s) (pool_size s)" using assms(1) by (simp add: wf_sp_def)
  note r = pool_arrays_release [OF pa assms(2) [unfolded sp_outstanding_def]]
  have "sp_release h s = Inr (s\<lparr>pool_size := pool_size s - 1,
      pool_dense := (pool_dense s)[pool_size s - 1 := h, unat (pool_sparse s ! unat h) := pool_dense s ! (pool_size s - 1)],
      pool_sparse := (pool_sparse s)[unat (pool_dense s ! (pool_size s - 1)) := pool_sparse s ! unat h]\<rparr>)"
    using r(1-6) sp_valid_iff [OF assms(1), of h] assms(2) by (simp add: sp_release_def Let_def)
  with r(7,8) show ?thesis by (simp add: wf_sp_def sp_outstanding_def)
qed

interpretation sp: handle_pool "wf_sp N" sp_is_valid sp_acquire sp_release sp_outstanding N for N
  by unfold_locales (simp_all add: sp_valid_iff sp_acquire_ok sp_release_ok, simp add: wf_sp_def)

text \<open>
  C10. \<open>SparsePool\<close> hands out unique integers: a client that holds fewer than \<open>SIZE\<close> handles at any
  time and only gives back handles it holds never sees a fault, the handles it holds are pairwise
  distinct at every moment, and \<open>is_valid\<close> accepts exactly those handles.
\<close>

theorem sparse_pool_unique_handles:
  fixes d0 s0 :: "'w::len word list"
  assumes "length d0 = SIZE" and "length s0 = SIZE" and "SIZE \<le> 2 ^ LENGTH('w)" and "within SIZE 0 xs"
  shows "\<exists>s hs log. run_ops (client_step sp_acquire sp_release) xs (new_sparse_pool d0 s0, [], []) = Inr (s, hs, log) \<and>
     distinct hs \<and> (\<forall>h. sp_is_valid s h = Inr (h \<in> set hs))"
proof -
  have "wf_sp SIZE (returns xs) (new_sparse_pool d0 s0)" "sp_outstanding (new_sparse_pool d0 s0) = {}"
    using assms(1-3) by (simp_all add: wf_sp_def new_sparse_pool_def sp_clear_def sp_outstanding_def pool_arrays_iota)
  from sp.client_run_ok [OF this(1), of "[]" "[]"] this(2) assms(4) show ?thesis by auto
qed

theorem sparse_pool_unique_handles_witness:
  "\<exists>s hs log. run_ops (client_step sp_acquire sp_release) [Acquire, Acquire, Give_Back 0, Acquire, Acquire]
       (new_sparse_pool [9, 9, 9, 9] [9, 9, 9, 9 :: 8 word], [], []) = Inr (s, hs, log) \<and>
     distinct hs \<and> (\<forall>h. sp_is_valid s h = Inr (h \<in> set hs))"
  by (rule sparse_pool_unique_handles [of _ 4]) simp_all

text \<open>
  The last integer of the pool is never produced: \<open>acquire\<close> asserts on a pool with one free
  handle left.
\<close>

theorem sparse_pool_last_handle_unavailable:
  "run_ops (client_step sp_acquire sp_release) [Acquire, Acquire] (new_sparse_pool [0, 0] [0, 0 :: 8 word], [], []) =
     Inl Assertion_Failed"
  by (simp add: new_sparse_pool_def sp_clear_def sp_acquire_def iota_def upt_rec)

subsection \<open>SecureSparsePool provides more\<close>

text \<open>
  A recycling pool also remembers which handles it produced, here by the relation \<open>seen\<close> between
  its state and the set of those handles: a new handle is none of them, even if the old one was
  given back.
\<close>

locale recycling_pool = handle_pool +
  fixes seen :: "'a \<Rightarrow> 'b set \<Rightarrow> bool"
  assumes acq_new: "inv k s \<Longrightarrow> seen s H \<Longrightarrow> acq s = Inr (h, s') \<Longrightarrow> h \<notin> H \<and> seen s' (insert h H)"
    and rel_seen: "inv (Suc k) s \<Longrightarrow> seen s H \<Longrightarrow> h \<in> outstanding s \<Longrightarrow> rel h s = Inr s' \<Longrightarrow> seen s' H"
begin

lemma client_run_log:
  assumes "inv (returns xs) s" "distinct hs" "set hs = outstanding s" "within bound (length hs) xs"
    "seen s (set log)" "distinct log" "run_ops (client_step acq rel) xs (s, hs, log) = Inr (s', hs', log')"
  shows "distinct log'"
  using assms
proof (induction xs arbitrary: s hs log)
  case (Cons x xs)
  from client_step_ok [OF Cons.prems(1-4), of log] obtain s1 hs1 log1 where st:
    "client_step acq rel x (s, hs, log) = Inr (s1, hs1, log1)" "inv (returns xs) s1"
    "distinct hs1" "set hs1 = outstanding s1" "within bound (length hs1) xs" by blast
  have "seen s1 (set log1) \<and> distinct log1"
  proof (cases x)
    case Acquire
    with st(1) Cons.prems acq_new [of "returns xs" s "set log"] show ?thesis
      by (auto simp: res_bind_eq_Inr)
  next
    case (Give_Back k)
    with st(1) Cons.prems rel_seen [of "returns xs" s "set log" "hs ! k"] show ?thesis
      by (auto simp: res_bind_eq_Inr dest: nth_mem split: if_splits)
  qed
  with Cons.IH [OF st(2-5), of log1] st(1) Cons.prems(7) show ?case by simp
qed simp

end

text \<open>The masks cut a handle into its base integer and its guard.\<close>

lemma bit_fold_mask:
  "bit (fold (\<lambda>ii r. r OR 2 ^ ii) xs (r0 :: 'w::len word)) n \<longleftrightarrow>
     bit r0 n \<or> n \<in> set xs \<and> n < LENGTH('w)"
proof (induction xs arbitrary: r0)
  case (Cons x xs)
  show ?case by (simp add: Cons bit_or_iff bit_exp_iff) blast
qed simp

lemma bit_make_mask: "bit (make_mask sp :: 'w::len word) n \<longleftrightarrow> sp \<le> n \<and> n < LENGTH('w)"
  by (auto simp: make_mask_def bit_fold_mask)

lemma unguard_take_bit: "unguard GB (h :: 'w::len word) = take_bit (LENGTH('w) - GB) h"
  by (rule bit_word_eqI) (auto simp: unguard_def k_handle_mask_def k_guard_mask_def k_guard_shift_def
      bit_make_mask bit_and_iff bit_not_iff bit_take_bit_iff)

lemma guard_value_drop_bit: "guard_value GB (h :: 'w::len word) = drop_bit (LENGTH('w) - GB) h"
  by (rule bit_word_eqI) (auto simp: guard_value_def k_guard_mask_def k_guard_shift_def
      bit_make_mask bit_and_iff bit_drop_bit_eq dest: bit_imp_le_length)

definition encode :: "nat \<Rightarrow> 'w::len word \<Rightarrow> 'w word \<Rightarrow> 'w word" where
  "encode GB u g = u OR push_bit (k_guard_shift TYPE('w) GB) g"

lemma take_bit_self: "unat (u :: 'w::len word) < 2 ^ n \<Longrightarrow> take_bit n u = u"
  by (simp add: word_unat_eq_iff unsigned_take_bit_eq take_bit_nat_eq_self del: unat_inject)

lemma encode_decode:
  fixes u g :: "'w::len word"
  assumes "unat u < 2 ^ (LENGTH('w) - GB)" "unat g < 2 ^ GB" "GB \<le> LENGTH('w)"
  shows "unguard GB (encode GB u g) = u" "guard_value GB (encode GB u g) = g"
proof -
  have u: "take_bit (LENGTH('w) - GB) u = u" and g: "take_bit GB g = g"
    using assms(1,2) by (auto intro: take_bit_self)
  have bu: "bit u n \<Longrightarrow> n < LENGTH('w) - GB" for n using u by (metis bit_take_bit_iff)
  have bg: "bit g n \<Longrightarrow> n < GB" for n using g by (metis bit_take_bit_iff)
  show "unguard GB (encode GB u g) = u" unfolding unguard_take_bit
    by (rule bit_word_eqI) (auto simp: encode_def k_guard_shift_def bit_take_bit_iff bit_or_iff
        bit_push_bit_iff dest: bu)
  show "guard_value GB (encode GB u g) = g" unfolding guard_value_drop_bit
    by (rule bit_word_eqI) (use assms(3) in \<open>auto simp: encode_def k_guard_shift_def bit_drop_bit_eq bit_or_iff
        bit_push_bit_iff dest: bu bg\<close>)
qed

lemma decode_encode:
  fixes h :: "'w::len word"
  shows "encode GB (unguard GB h) (guard_value GB h) = h"
proof (rule bit_word_eqI)
  fix n assume "n < LENGTH('w)"
  then show "bit (encode GB (unguard GB h) (guard_value GB h)) n = bit h n"
    unfolding unguard_take_bit guard_value_drop_bit encode_def
    by (cases "n < LENGTH('w) - GB") (auto simp: k_guard_shift_def bit_take_bit_iff bit_or_iff
        bit_push_bit_iff bit_drop_bit_eq)
qed

definition wf_sec :: "nat \<Rightarrow> nat \<Rightarrow> nat \<Rightarrow> 'w::len word secure_pool \<Rightarrow> bool" where
  "wf_sec GB N k s \<longleftrightarrow> GB \<le> LENGTH('w) \<and> N \<le> 2 ^ (LENGTH('w) - GB) \<and>
     pool_arrays N (sec_dense s) (sec_sparse s) (sec_size s) \<and>
     length (guard s) = N \<and> (\<forall>u<N. unat (guard s ! u) + k < 2 ^ GB)"

definition sec_handle :: "nat \<Rightarrow> 'w::len word secure_pool \<Rightarrow> 'w word \<Rightarrow> 'w word" where
  "sec_handle GB s u = encode GB u (guard s ! unat u)"

definition sec_outstanding :: "nat \<Rightarrow> 'w::len word secure_pool \<Rightarrow> 'w word set" where
  "sec_outstanding GB s = sec_handle GB s ` set (take (sec_size s) (sec_dense s))"

lemma wf_secD:
  assumes "wf_sec GB N k s"
  shows "pool_arrays N (sec_dense s) (sec_sparse s) (sec_size s)" "length (sec_dense s) = N"
    "length (sec_sparse s) = N" "length (guard s) = N" "sec_size s \<le> N"
    "packed N (sec_dense s) (sec_sparse s) (sec_size s)"
    "\<And>v. v \<in> set (take (sec_size s) (sec_dense s)) \<Longrightarrow> unat v < N"
  using assms by (auto simp: wf_sec_def pool_arrays_def packed_def dest: in_set_takeD)

lemma sec_handle_decode:
  assumes "wf_sec GB N k s" "unat u < N"
  shows "unguard GB (sec_handle GB s u) = u" "guard_value GB (sec_handle GB s u) = guard s ! unat u"
  using assms encode_decode [of u GB "guard s ! unat u"] unfolding wf_sec_def sec_handle_def
  by (meson add_lessD1 order_less_le_trans)+

lemma sec_handle_inj:
  "wf_sec GB N k s \<Longrightarrow> unat u < N \<Longrightarrow> unat v < N \<Longrightarrow> sec_handle GB s u = sec_handle GB s v \<longleftrightarrow> u = v"
  using sec_handle_decode(1) by metis

lemma sec_outstanding_iff:
  assumes "wf_sec GB N k s"
  shows "h \<in> sec_outstanding GB s \<longleftrightarrow> unguard GB h \<in> set (take (sec_size s) (sec_dense s)) \<and>
     guard_value GB h = guard s ! unat (unguard GB h)"
proof
  assume "h \<in> sec_outstanding GB s"
  then obtain u where u: "h = sec_handle GB s u" "u \<in> set (take (sec_size s) (sec_dense s))"
    by (auto simp: sec_outstanding_def)
  with sec_handle_decode [OF assms wf_secD(7) [OF assms u(2)]] show
    "unguard GB h \<in> set (take (sec_size s) (sec_dense s)) \<and> guard_value GB h = guard s ! unat (unguard GB h)"
    by simp
next
  assume "unguard GB h \<in> set (take (sec_size s) (sec_dense s)) \<and> guard_value GB h = guard s ! unat (unguard GB h)"
  then show "h \<in> sec_outstanding GB s"
    using decode_encode [of GB h] by (auto simp: sec_outstanding_def sec_handle_def intro!: rev_image_eqI)
qed

lemma sec_valid_iff:
  assumes "wf_sec GB N k s"
  shows "sec_is_valid GB s h = Inr (h \<in> sec_outstanding GB s)"
  using packed_lookup [OF wf_secD(6) [OF assms]] wf_secD(2,4,7) [OF assms]
  by (auto simp: sec_is_valid_def Let_def sec_outstanding_iff [OF assms])

lemma sec_outstanding_card: "wf_sec GB N k s \<Longrightarrow> card (sec_outstanding GB s) = sec_size s"
  unfolding sec_outstanding_def
  by (subst card_image) (auto simp: inj_on_def sec_handle_inj wf_secD(7) pool_arrays_card [OF wf_secD(1)])

lemma sec_acquire_eq:
  assumes "wf_sec GB N k s" "sec_size s + 1 < N"
  shows "sec_acquire GB s = Inr (sec_handle GB s (sec_dense s ! sec_size s), s\<lparr>sec_size := sec_size s + 1,
     sec_sparse := (sec_sparse s)[unat (sec_dense s ! sec_size s) := word_of_nat (sec_size s)]\<rparr>)"
proof -
  have "sec_size s < N" using assms(2) by simp
  from pool_arrays_acquire(1,2) [OF wf_secD(1) [OF assms(1)] this] assms wf_secD(2-4) [OF assms(1)]
  show ?thesis by (simp add: sec_acquire_def sec_handle_def encode_def unat_word_of_nat)
qed

lemma sec_acquire_ok:
  assumes "wf_sec GB N k s" "card (sec_outstanding GB s) + 1 < N"
  shows "\<exists>h s'. sec_acquire GB s = Inr (h, s') \<and> wf_sec GB N k s' \<and> h \<notin> sec_outstanding GB s \<and>
     sec_outstanding GB s' = insert h (sec_outstanding GB s)"
proof -
  have n: "sec_size s + 1 < N" using assms sec_outstanding_card by metis
  then have "sec_size s < N" by simp
  note acq = pool_arrays_acquire [OF wf_secD(1) [OF assms(1)] this]
  define s' where "s' = s\<lparr>sec_size := sec_size s + 1,
     sec_sparse := (sec_sparse s)[unat (sec_dense s ! sec_size s) := word_of_nat (sec_size s)]\<rparr>"
  have "wf_sec GB N k s'" using assms(1) acq(4) by (simp add: wf_sec_def s'_def)
  moreover have "sec_outstanding GB s' = insert (sec_handle GB s (sec_dense s ! sec_size s)) (sec_outstanding GB s)"
    using acq(5) by (simp add: sec_outstanding_def sec_handle_def s'_def)
  moreover have "sec_handle GB s (sec_dense s ! sec_size s) \<notin> sec_outstanding GB s"
    using sec_handle_decode(1) [OF assms(1) acq(1)] acq(3) by (simp add: sec_outstanding_iff [OF assms(1)])
  ultimately show ?thesis using sec_acquire_eq [OF assms(1) n] unfolding s'_def by blast
qed

lemma sec_release_eq:
  fixes s :: "'w::len word secure_pool"
  assumes "wf_sec GB N k s" "h \<in> sec_outstanding GB s"
  defines "u \<equiv> unguard GB h" and "t \<equiv> sec_dense s ! (sec_size s - 1)"
  shows "sec_release GB h s = Inr (s\<lparr>sec_size := sec_size s - 1,
     sec_dense := (sec_dense s)[sec_size s - 1 := u, unat (sec_sparse s ! unat u) := t],
     sec_sparse := (sec_sparse s)[unat t := sec_sparse s ! unat u],
     guard := (guard s)[unat u := guard s ! unat u + 1]\<rparr>)"
proof -
  have u: "u \<in> set (take (sec_size s) (sec_dense s))"
    using assms(2) by (simp add: sec_outstanding_iff [OF assms(1)] u_def)
  note r = pool_arrays_release [OF wf_secD(1) [OF assms(1)] u, folded t_def]
  have "unat t < 2 ^ (LENGTH('w) - GB)" using r(4) assms(1) by (auto simp: wf_sec_def)
  then have "t AND k_handle_mask GB = t"
    using unguard_take_bit [of GB t] take_bit_self [of t] by (simp add: unguard_def and.commute)
  moreover have "h AND k_handle_mask GB = u" by (simp add: u_def unguard_def and.commute)
  ultimately show ?thesis
    using r(1-6) wf_secD(4) [OF assms(1)] sec_valid_iff [OF assms(1), of h] assms(2)
    by (simp add: sec_release_def Let_def t_def)
qed

lemma sec_release_ok:
  assumes "wf_sec GB N (Suc k) s" "h \<in> sec_outstanding GB s"
  shows "\<exists>s'. sec_release GB h s = Inr s' \<and> wf_sec GB N k s' \<and>
     sec_outstanding GB s' = sec_outstanding GB s - {h}"
proof -
  define u where "u = unguard GB h"
  define t where "t = sec_dense s ! (sec_size s - 1)"
  define s' where "s' = s\<lparr>sec_size := sec_size s - 1,
     sec_dense := (sec_dense s)[sec_size s - 1 := u, unat (sec_sparse s ! unat u) := t],
     sec_sparse := (sec_sparse s)[unat t := sec_sparse s ! unat u],
     guard := (guard s)[unat u := guard s ! unat u + 1]\<rparr>"
  have u: "u \<in> set (take (sec_size s) (sec_dense s))" "sec_handle GB s u = h"
    using assms(2) decode_encode [of GB h]
    by (simp_all add: sec_outstanding_iff [OF assms(1)] u_def sec_handle_def)
  note r = pool_arrays_release [OF wf_secD(1) [OF assms(1)] u(1), folded t_def]
  have g: "unat (guard s ! unat u) + Suc k < 2 ^ GB" "GB \<le> LENGTH('a)"
    using assms(1) r(1) by (auto simp: wf_sec_def)
  have "(2::nat) ^ GB \<le> 2 ^ LENGTH('a)" using g(2) by (intro power_increasing) auto
  then have g1: "unat (guard s ! unat u + 1) = Suc (unat (guard s ! unat u))"
    using g(1) by (intro unat_succ) linarith
  have "wf_sec GB N k s'"
    using assms(1) r(1,7) g(1) g1 by (auto simp: wf_sec_def s'_def nth_list_update)
  moreover have "sec_outstanding GB s' = sec_outstanding GB s - {h}"
  proof -
    have "sec_outstanding GB s' = sec_handle GB s' ` (set (take (sec_size s) (sec_dense s)) - {u})"
      using r(8) by (simp add: sec_outstanding_def s'_def)
    also have "\<dots> = sec_handle GB s ` (set (take (sec_size s) (sec_dense s)) - {u})"
      using r(1) by (intro image_cong) (auto simp: sec_handle_def s'_def)
    also have "\<dots> = sec_outstanding GB s - {h}"
      using sec_handle_inj [OF assms(1) _ r(1)] wf_secD(7) [OF assms(1)] u(2)
      by (auto simp: sec_outstanding_def)
    finally show ?thesis .
  qed
  ultimately show ?thesis
    using sec_release_eq [OF assms] by (simp add: s'_def u_def t_def)
qed


text \<open>
  Every handle produced so far has a guard that is at most the current one, and an equal guard
  only while it is outstanding.
\<close>

definition sec_seen :: "nat \<Rightarrow> nat \<Rightarrow> 'w::len word secure_pool \<Rightarrow> 'w word set \<Rightarrow> bool" where
  "sec_seen GB N s H \<longleftrightarrow> (\<forall>h \<in> H. unat (unguard GB h) < N \<and>
     guard_value GB h \<le> guard s ! unat (unguard GB h) \<and>
     (guard_value GB h = guard s ! unat (unguard GB h) \<longrightarrow>
        unguard GB h \<in> set (take (sec_size s) (sec_dense s))))"

lemma sec_acquire_new:
  assumes "wf_sec GB N k s" "sec_seen GB N s H" "sec_acquire GB s = Inr (h, s')"
  shows "h \<notin> H \<and> sec_seen GB N s' (insert h H)"
proof -
  have n: "sec_size s + 1 < N"
    using assms(3) wf_secD(2) [OF assms(1)] by (auto simp: sec_acquire_def res_bind_eq_Inr k_assert_def split: if_splits)
  then have "sec_size s < N" by simp
  note acq = pool_arrays_acquire [OF wf_secD(1) [OF assms(1)] this]
  note dec = sec_handle_decode [OF assms(1) acq(1)]
  have h: "h = sec_handle GB s (sec_dense s ! sec_size s)" and s': "s' = s\<lparr>sec_size := sec_size s + 1,
     sec_sparse := (sec_sparse s)[unat (sec_dense s ! sec_size s) := word_of_nat (sec_size s)]\<rparr>"
    using sec_acquire_eq [OF assms(1) n] assms(3) by auto
  have "h \<notin> H"
    using assms(2) dec acq(3) unfolding sec_seen_def h by force
  moreover have "sec_seen GB N s' (insert h H)"
    using assms(2) dec acq(1,5) by (auto simp: sec_seen_def h s')
  ultimately show ?thesis by simp
qed

lemma sec_release_seen:
  assumes "wf_sec GB N (Suc k) s" "sec_seen GB N s H" "h \<in> sec_outstanding GB s" "sec_release GB h s = Inr s'"
  shows "sec_seen GB N s' H"
proof -
  define u where "u = unguard GB h"
  have u: "u \<in> set (take (sec_size s) (sec_dense s))"
    using assms(3) by (simp add: sec_outstanding_iff [OF assms(1)] u_def)
  note r = pool_arrays_release [OF wf_secD(1) [OF assms(1)] u]
  have g: "unat (guard s ! unat u) + Suc k < 2 ^ GB" "GB \<le> LENGTH('a)"
    using assms(1) r(1) by (auto simp: wf_sec_def)
  have "(2::nat) ^ GB \<le> 2 ^ LENGTH('a)" using g(2) by (intro power_increasing) auto
  then have g1: "unat (guard s ! unat u + 1) = Suc (unat (guard s ! unat u))"
    using g(1) by (intro unat_succ) linarith
  have up: "x \<le> guard s ! unat u + 1 \<and> x \<noteq> guard s ! unat u + 1" if "x \<le> guard s ! unat u" for x
    using that g1 by (auto simp: word_le_nat_alt)
  have s': "guard s' = (guard s)[unat u := guard s ! unat u + 1]"
    "set (take (sec_size s') (sec_dense s')) = set (take (sec_size s) (sec_dense s)) - {u}"
    using sec_release_eq [OF assms(1,3)] assms(4) r(8) by (auto simp: u_def)
  show ?thesis
    unfolding sec_seen_def s'
    using assms(2) r(1) wf_secD(4) [OF assms(1)] up
    by (auto simp: sec_seen_def nth_list_update)
qed

interpretation sec: recycling_pool "wf_sec GB N" "sec_is_valid GB" "sec_acquire GB" "sec_release GB"
  "sec_outstanding GB" N "sec_seen GB N" for GB N
proof (unfold_locales, goal_cases)
  case (4 k s)
  then show ?case by (auto simp: wf_sec_def)
qed (simp_all add: sec_valid_iff sec_acquire_ok sec_release_ok sec_acquire_new sec_release_seen)

text \<open>
  C11. \<open>SecureSparsePool\<close> never produces the same handle twice as long as fewer than
  \<open>2 ^ GUARD_BITS\<close> handles are given back: all the handles a client ever received are pairwise
  distinct, so a stale handle is never mistaken for a recycled one, and \<open>is_valid\<close> accepts exactly
  the handles the client holds.
\<close>

theorem secure_pool_never_repeats:
  fixes d0 s0 g0 :: "'w::len word list"
  assumes "length d0 = SIZE" and "length s0 = SIZE" and "length g0 = SIZE"
    and "GUARD_BITS \<le> LENGTH('w)" and "SIZE \<le> 2 ^ (LENGTH('w) - GUARD_BITS)"
    and "within SIZE 0 xs" and "returns xs < 2 ^ GUARD_BITS"
  shows "\<exists>s hs log. run_ops (client_step (sec_acquire GUARD_BITS) (sec_release GUARD_BITS)) xs
       (new_secure_pool d0 s0 g0, [], []) = Inr (s, hs, log) \<and>
     distinct log \<and> distinct hs \<and> (\<forall>h. sec_is_valid GUARD_BITS s h = Inr (h \<in> set hs))"
proof -
  have "SIZE \<le> 2 ^ LENGTH('w)"
    using assms(5) by (rule order_trans) (simp add: power_increasing)
  then have "wf_sec GUARD_BITS SIZE (returns xs) (new_secure_pool d0 s0 g0)"
    "sec_outstanding GUARD_BITS (new_secure_pool d0 s0 g0) = {}"
    using assms by (simp_all add: wf_sec_def new_secure_pool_def sec_clear_def sec_outstanding_def pool_arrays_iota)
  moreover from sec.client_run_ok [OF this(1), of "[]" "[]"] this(2) assms(6) obtain s hs log where
    "run_ops (client_step (sec_acquire GUARD_BITS) (sec_release GUARD_BITS)) xs
       (new_secure_pool d0 s0 g0, [], []) = Inr (s, hs, log)"
    "distinct hs" "\<forall>h. sec_is_valid GUARD_BITS s h = Inr (h \<in> set hs)" by auto
  ultimately show ?thesis
    using sec.client_run_log [of GUARD_BITS SIZE xs "new_secure_pool d0 s0 g0" "[]" "[]"] assms(6)
    by (auto simp: sec_seen_def)
qed

theorem secure_pool_never_repeats_witness:
  "\<exists>s hs log. run_ops (client_step (sec_acquire 2) (sec_release 2)) [Acquire, Give_Back 0, Acquire, Give_Back 0, Acquire]
       (new_secure_pool [9, 9, 9] [9, 9, 9] [9, 9, 9 :: 8 word], [], []) = Inr (s, hs, log) \<and>
     distinct log \<and> distinct hs \<and> (\<forall>h. sec_is_valid 2 s h = Inr (h \<in> set hs))"
  by (rule secure_pool_never_repeats [of _ 3]) simp_all

text \<open>
  Past that bound the guard counter is not reduced to its bits: with one guard bit, the handle
  acquired after two recyclings is not accepted by \<open>is_valid\<close>, so it can never be released.
\<close>

theorem secure_pool_guard_overflow:
  "res_bind (run_ops (client_step (sec_acquire 1) (sec_release 1))
         [Acquire, Give_Back 0, Acquire, Give_Back 0, Acquire]
         (new_secure_pool [0, 0] [0, 0] [0, 0 :: 8 word], [], []))
       (\<lambda>(s, hs, log). sec_is_valid 1 s (hs ! 0)) = Inr False"
  by code_simp

end
