(* ===== verification/Event_Bus.thy ===== *)
theory Event_Bus
  imports Kibble_Prelude "HOL-Library.AList" "HOL-Library.Multiset"
begin

text \<open>
  The event system: delegates (\<open>util/delegate.h\<close>), the queue of one event type
  (\<open>kb::event::detail::EventQueue\<close>) and the message broker (\<open>kb::event::EventBus\<close>) of
  \<open>event/event_bus.h\<close> and \<open>event/event_bus.cpp\<close>.
\<close>

section \<open>Delegates\<close>

text \<open>
  A delegate is an instance pointer (null for a free function) and a stub; a default-constructed
  delegate has the stub that throws.
\<close>

record delegate =
  instance_ptr :: "nat option"
  stub :: "nat option"

definition null_delegate :: delegate where
  "null_delegate = \<lparr>instance_ptr = None, stub = None\<rparr>"

definition create_free :: "nat \<Rightarrow> delegate" where
  "create_free f = null_delegate\<lparr>stub := Some f\<rparr>"

definition create_member :: "nat \<Rightarrow> nat \<Rightarrow> delegate" where
  "create_member f obj = null_delegate\<lparr>instance_ptr := Some obj, stub := Some f\<rparr>"

definition delegate_eq :: "delegate \<Rightarrow> delegate \<Rightarrow> bool" where
  "delegate_eq a b \<longleftrightarrow> instance_ptr a = instance_ptr b \<and> stub a = stub b"

text \<open>
  The user's functions: called through a stub on an event and the state \<open>'w\<close> of the application,
  they say whether the event is consumed, change that state, and may enqueue further events.
\<close>

type_synonym ('e, 'w) handlers =
  "nat \<Rightarrow> nat option \<Rightarrow> 'e \<Rightarrow> 'w \<Rightarrow> bool \<times> 'w \<times> (hash_t \<times> 'e) list"

definition call_delegate ::
  "('e, 'w) handlers \<Rightarrow> delegate \<Rightarrow> 'e \<Rightarrow> 'w \<Rightarrow> fault + bool \<times> 'w \<times> (hash_t \<times> 'e) list" where
  "call_delegate h d e w = (case stub d of Some f \<Rightarrow> Inr (h f (instance_ptr d) e w) | None \<Rightarrow> Inl Bad_Delegate_Call)"

section \<open>Event queues\<close>

record 'e event_queue =
  delegates :: "(u32 \<times> delegate) list"
  queue :: "'e list"

definition new_queue :: "'e event_queue" where
  "new_queue = \<lparr>delegates = [], queue = []\<rparr>"

text \<open>
  \<open>std::sort\<close> with the priorities compared by \<open><\<close>: an unstable sort, so a parameter that returns
  some sorted permutation.
\<close>

type_synonym sorter = "(u32 \<times> delegate) list \<Rightarrow> (u32 \<times> delegate) list"

definition is_sorter :: "sorter \<Rightarrow> bool" where
  "is_sorter srt \<longleftrightarrow> (\<forall>xs. mset (srt xs) = mset xs \<and> sorted (map fst (srt xs)))"

definition queue_subscribe :: "sorter \<Rightarrow> u32 \<Rightarrow> delegate \<Rightarrow> 'e event_queue \<Rightarrow> 'e event_queue" where
  "queue_subscribe srt priority d q =
     (if list_ex (\<lambda>p. delegate_eq (snd p) d) (delegates q) then q
      else q\<lparr>delegates := srt (delegates q @ [(priority, d)])\<rparr>)"

fun erase_first :: "('a \<Rightarrow> bool) \<Rightarrow> 'a list \<Rightarrow> 'a list" where
  "erase_first P [] = []"
| "erase_first P (x # xs) = (if P x then xs else x # erase_first P xs)"

definition queue_unsubscribe :: "delegate \<Rightarrow> 'e event_queue \<Rightarrow> bool \<times> 'e event_queue" where
  "queue_unsubscribe target q =
     (if list_ex (\<lambda>p. delegate_eq (snd p) target) (delegates q)
      then (True, q\<lparr>delegates := erase_first (\<lambda>p. delegate_eq (snd p) target) (delegates q)\<rparr>)
      else (False, q))"

definition submit :: "'e \<Rightarrow> 'e event_queue \<Rightarrow> 'e event_queue" where
  "submit e q = q\<lparr>queue := queue q @ [e]\<rparr>"

definition pop :: "'e event_queue \<Rightarrow> 'e event_queue" where
  "pop q = q\<lparr>queue := tl (queue q)\<rparr>"

definition queue_drop :: "'e event_queue \<Rightarrow> 'e event_queue" where
  "queue_drop q = q\<lparr>queue := []\<rparr>"

definition queue_empty :: "'e event_queue \<Rightarrow> bool" where
  "queue_empty q = (queue q = [])"

definition queue_size :: "'e event_queue \<Rightarrow> nat" where
  "queue_size q = length (queue q)"

text \<open>The reverse iteration over the delegates of \<open>fire\<close> and \<open>process\<close>.\<close>

definition call_order :: "'e event_queue \<Rightarrow> delegate list" where
  "call_order q = rev (map snd (delegates q))"

section \<open>The bus\<close>

text \<open>
  The \<open>std::map\<close> from event ids to queues is an association list sorted by key; a null
  \<open>unique_ptr\<close> is \<open>None\<close>.
\<close>

type_synonym 'e bus = "(hash_t \<times> 'e event_queue option) list"

fun map_emplace :: "hash_t \<Rightarrow> 'v \<Rightarrow> (hash_t \<times> 'v) list \<Rightarrow> (hash_t \<times> 'v) list" where
  "map_emplace k v [] = [(k, v)]"
| "map_emplace k v ((k', v') # m) =
     (if k < k' then (k, v) # (k', v') # m
      else if k = k' then (k', v') # m
      else (k', v') # map_emplace k v m)"

text \<open>\<open>operator[]\<close> inserts a null pointer for a missing key.\<close>

definition bus_index :: "hash_t \<Rightarrow> 'e bus \<Rightarrow> 'e event_queue option \<times> 'e bus" where
  "bus_index k b = (let b' = map_emplace k None b in (the (map_of b' k), b'))"

definition get_or_create :: "hash_t \<Rightarrow> 'e bus \<Rightarrow> 'e event_queue \<times> 'e bus" where
  "get_or_create k b =
     (case bus_index k b of
        (Some q, b') \<Rightarrow> (q, b')
      | (None, b') \<Rightarrow> (new_queue, AList.update k (Some new_queue) b'))"

definition subscribe :: "sorter \<Rightarrow> hash_t \<Rightarrow> u32 \<Rightarrow> delegate \<Rightarrow> 'e bus \<Rightarrow> 'e bus" where
  "subscribe srt k priority d b =
     (let (q, b') = get_or_create k b in AList.update k (Some (queue_subscribe srt priority d q)) b')"

definition unsubscribe :: "hash_t \<Rightarrow> delegate \<Rightarrow> 'e bus \<Rightarrow> bool \<times> 'e bus" where
  "unsubscribe k d b =
     (let (q, b') = get_or_create k b; (found, q') = queue_unsubscribe d q
      in (found, AList.update k (Some q') b'))"

text \<open>\<open>try_get\<close> visits the queue if the key exists, without looking at the pointer.\<close>

definition try_get :: "hash_t \<Rightarrow> ('e event_queue \<Rightarrow> fault + 'a) \<Rightarrow> 'a \<Rightarrow> 'e bus \<Rightarrow> fault + 'a" where
  "try_get k visit otherwise b =
     (case map_of b k of
        None \<Rightarrow> Inr otherwise
      | Some None \<Rightarrow> Inl Null_Dereference
      | Some (Some q) \<Rightarrow> visit q)"

definition enqueue :: "hash_t \<Rightarrow> 'e \<Rightarrow> 'e bus \<Rightarrow> fault + 'e bus" where
  "enqueue k e b = try_get k (\<lambda>q. Inr (AList.update k (Some (submit e q)) b)) b b"

fun enqueue_all :: "(hash_t \<times> 'e) list \<Rightarrow> 'e bus \<Rightarrow> fault + 'e bus" where
  "enqueue_all [] b = Inr b"
| "enqueue_all ((k, e) # es) b = res_bind (enqueue k e b) (enqueue_all es)"

text \<open>
  Calling the delegates in order until one of them consumes the event; what a handler enqueues
  reaches the bus before the next handler runs.
\<close>

fun run_handlers :: "('e, 'w) handlers \<Rightarrow> delegate list \<Rightarrow> 'e \<Rightarrow> 'e bus \<times> 'w \<Rightarrow> fault + 'e bus \<times> 'w" where
  "run_handlers h [] e bw = Inr bw"
| "run_handlers h (d # ds) e (b, w) =
     res_bind (call_delegate h d e w) (\<lambda>(consumed, w', es).
     res_bind (enqueue_all es b) (\<lambda>b'.
       if consumed then Inr (b', w') else run_handlers h ds e (b', w')))"

definition fire :: "('e, 'w) handlers \<Rightarrow> hash_t \<Rightarrow> 'e \<Rightarrow> 'e bus \<times> 'w \<Rightarrow> fault + 'e bus \<times> 'w" where
  "fire h k e bw = try_get k (\<lambda>q. run_handlers h (call_order q) e bw) bw (fst bw)"

text \<open>
  \<open>process\<close> on the queue of the key \<open>k\<close>. The state is the bus, the application and the number of
  times the clock was read; \<open>clock n\<close> is its \<open>n\<close>-th reading. The loop may run forever when
  handlers keep enqueueing events: then there is no result.
\<close>

type_synonym ('e, 'w) bus_state = "'e bus \<times> 'w \<times> nat"

partial_function (option) process ::
  "('e, 'w) handlers \<Rightarrow> (nat \<Rightarrow> int) \<Rightarrow> int \<Rightarrow> hash_t \<Rightarrow> ('e, 'w) bus_state \<Rightarrow>
   (fault + bool \<times> ('e, 'w) bus_state) option" where
  "process h clock deadline k st =
     (case st of (b, w, t) \<Rightarrow>
        (case map_of b k of
           Some (Some q) \<Rightarrow>
             (case queue q of
                [] \<Rightarrow> Some (Inr (True, st))
              | e # _ \<Rightarrow>
                  (case run_handlers h (call_order q) e (b, w) of
                     Inl err \<Rightarrow> Some (Inl err)
                   | Inr (b1, w1) \<Rightarrow>
                       (let b2 = AList.update k (map_option pop (the (map_of b1 k))) b1
                        in if clock t > deadline then Some (Inr (False, (b2, w1, Suc t)))
                           else process h clock deadline k (b2, w1, Suc t))))
         | _ \<Rightarrow> Some (Inl Null_Dereference)))"

fun bus_empty :: "'e bus \<Rightarrow> fault + bool" where
  "bus_empty [] = Inr True"
| "bus_empty ((k, None) # b) = Inl Null_Dereference"
| "bus_empty ((k, Some q) # b) = (if queue_empty q then bus_empty b else Inr False)"

definition get_unprocessed_count :: "'e bus \<Rightarrow> nat" where
  "get_unprocessed_count b =
     fold (\<lambda>(k, entry) acc. acc + (case entry of Some q \<Rightarrow> queue_size q | None \<Rightarrow> 0)) b 0"

fun bus_drop :: "'e bus \<Rightarrow> fault + 'e bus" where
  "bus_drop [] = Inr []"
| "bus_drop ((k, None) # b) = Inl Null_Dereference"
| "bus_drop ((k, Some q) # b) = res_bind (bus_drop b) (\<lambda>b'. Inr ((k, Some (queue_drop q)) # b'))"

definition drop_type :: "hash_t \<Rightarrow> 'e bus \<Rightarrow> fault + 'e bus" where
  "drop_type k b = try_get k (\<lambda>q. Inr (AList.update k (Some (queue_drop q)) b)) b b"

definition has_queue :: "hash_t \<Rightarrow> 'e bus \<Rightarrow> bool \<times> 'e bus" where
  "has_queue k b = (let (entry, b') = bus_index k b in (entry \<noteq> None, b'))"

text \<open>One pass of \<open>dispatch\<close> over the queues in key order, and the loop around it.\<close>

fun process_all ::
  "('e, 'w) handlers \<Rightarrow> (nat \<Rightarrow> int) \<Rightarrow> int \<Rightarrow> bool \<Rightarrow> hash_t list \<Rightarrow> ('e, 'w) bus_state \<Rightarrow>
   (fault + bool \<times> ('e, 'w) bus_state) option" where
  "process_all h clock deadline enable_timeout [] st = Some (Inr (True, st))"
| "process_all h clock deadline enable_timeout (k # ks) st =
     (case process h clock deadline k st of
        None \<Rightarrow> None
      | Some (Inl err) \<Rightarrow> Some (Inl err)
      | Some (Inr (all_done, st')) \<Rightarrow>
          if \<not> all_done \<and> enable_timeout then Some (Inr (False, st'))
          else process_all h clock deadline enable_timeout ks st')"

partial_function (option) dispatch_loop ::
  "('e, 'w) handlers \<Rightarrow> (nat \<Rightarrow> int) \<Rightarrow> int \<Rightarrow> bool \<Rightarrow> ('e, 'w) bus_state \<Rightarrow>
   (fault + bool \<times> ('e, 'w) bus_state) option" where
  "dispatch_loop h clock deadline enable_timeout st =
     (case bus_empty (fst st) of
        Inl err \<Rightarrow> Some (Inl err)
      | Inr no_event \<Rightarrow>
          if no_event then Some (Inr (True, st))
          else
            (case process_all h clock deadline enable_timeout (map fst (fst st)) st of
               None \<Rightarrow> None
             | Some (Inl err) \<Rightarrow> Some (Inl err)
             | Some (Inr (all_done, st')) \<Rightarrow>
                 if all_done then dispatch_loop h clock deadline enable_timeout st'
                 else Some (Inr (False, st'))))"

definition k_timepoint_max :: int where
  "k_timepoint_max = 2 ^ 63 - 1"

text \<open>
  A point in time and a duration count nanoseconds in 64-bit signed integers. Their sum is
  undefined in the source when it leaves that range; the model then takes the two's complement value,
  which the addition of the machine gives. \<open>dispatch\<close> makes one such addition. That it returns and
  does not fault is proved for every value of the deadline; which events it delivers, only for exact sums.
\<close>

definition plus_ns :: "int \<Rightarrow> int \<Rightarrow> int" where
  "plus_ns now d = sint (word_of_int (now + d) :: u64)"

definition is_ns :: "int \<Rightarrow> bool" where
  "is_ns i \<longleftrightarrow> - (2 ^ 63) \<le> i \<and> i \<le> k_timepoint_max"

lemma plus_ns_exact: "is_ns (now + d) \<Longrightarrow> plus_ns now d = now + d"
  unfolding plus_ns_def is_ns_def k_timepoint_max_def sint_sbintrunc' by (rule signed_take_bit_int_eq_self) simp_all

definition dispatch ::
  "('e, 'w) handlers \<Rightarrow> (nat \<Rightarrow> int) \<Rightarrow> int \<Rightarrow> ('e, 'w) bus_state \<Rightarrow>
   (fault + bool \<times> ('e, 'w) bus_state) option" where
  "dispatch h clock timeout = (\<lambda>(b, w, t).
     let enable_timeout = timeout > 0
     in if enable_timeout then dispatch_loop h clock (plus_ns (clock t) timeout) True (b, w, Suc t)
        else dispatch_loop h clock k_timepoint_max False (b, w, t))"

section \<open>Invariant of the queues\<close>

text \<open>
  The subscribed delegates are distinct and bound, and sorted by priority.
\<close>

definition wf_delegates :: "(u32 \<times> delegate) list \<Rightarrow> bool" where
  "wf_delegates ds \<longleftrightarrow> distinct (map snd ds) \<and> sorted (map fst ds) \<and> (\<forall>p \<in> set ds. stub (snd p) \<noteq> None)"

lemma delegate_eq_iff [simp]: "delegate_eq a b \<longleftrightarrow> a = b"
  by (cases a; cases b) (simp add: delegate_eq_def)

lemma created_bound [simp]: "stub (create_free f) = Some f" "stub (create_member f i) = Some f"
  by (simp_all add: create_free_def create_member_def)

lemma erase_first_split:
  "list_ex P xs \<Longrightarrow> \<exists>ys x zs. xs = ys @ x # zs \<and> P x \<and> erase_first P xs = ys @ zs"
proof (induction xs)
  case (Cons y xs)
  show ?case
  proof (cases "P y")
    case False
    with Cons obtain ys x zs where "xs = ys @ x # zs \<and> P x \<and> erase_first P xs = ys @ zs" by auto
    with False show ?thesis by (intro exI [of _ "y # ys"]) auto
  qed (auto intro: exI [of _ "[]"])
qed simp

lemma sorter_distinct:
  assumes "is_sorter srt"
  shows "set (srt xs) = set xs" "distinct (map snd (srt xs)) = distinct (map snd xs)" "sorted (map fst (srt xs))"
proof -
  have m: "mset (srt xs) = mset xs" "sorted (map fst (srt xs))" using assms by (auto simp: is_sorter_def)
  then show "sorted (map fst (srt xs))" by simp
  from m(1) show "set (srt xs) = set xs" by (rule mset_eq_setD)
  from m(1) have "mset (map snd (srt xs)) = mset (map snd xs)" by simp
  then show "distinct (map snd (srt xs)) = distinct (map snd xs)" by (rule mset_eq_imp_distinct_iff)
qed

lemma queue_subscribe_wf:
  assumes "is_sorter srt" "wf_delegates (delegates q)" "stub d \<noteq> None"
  shows "wf_delegates (delegates (queue_subscribe srt p d q))"
    "set (map snd (delegates (queue_subscribe srt p d q))) = insert d (set (map snd (delegates q)))"
  using assms(2,3) sorter_distinct [OF assms(1), of "delegates q @ [(p, d)]"]
  by (auto simp: queue_subscribe_def wf_delegates_def list_ex_iff)

lemma queue_unsubscribe_wf:
  assumes "wf_delegates (delegates q)"
  shows "wf_delegates (delegates (snd (queue_unsubscribe d q)))"
    "set (map snd (delegates (snd (queue_unsubscribe d q)))) = set (map snd (delegates q)) - {d}"
    "fst (queue_unsubscribe d q) \<longleftrightarrow> d \<in> set (map snd (delegates q))"
proof -
  show "fst (queue_unsubscribe d q) \<longleftrightarrow> d \<in> set (map snd (delegates q))"
    by (auto simp: queue_unsubscribe_def list_ex_iff image_iff)
  show "wf_delegates (delegates (snd (queue_unsubscribe d q)))"
    "set (map snd (delegates (snd (queue_unsubscribe d q)))) = set (map snd (delegates q)) - {d}"
  proof (atomize (full), cases "list_ex (\<lambda>p. delegate_eq (snd p) d) (delegates q)")
    case True
    from erase_first_split [OF this] obtain ys x zs where
      "delegates q = ys @ x # zs" "snd x = d" "erase_first (\<lambda>p. delegate_eq (snd p) d) (delegates q) = ys @ zs"
      by auto
    with True assms show "wf_delegates (delegates (snd (queue_unsubscribe d q))) \<and>
        set (map snd (delegates (snd (queue_unsubscribe d q)))) = set (map snd (delegates q)) - {d}"
      by (auto simp: queue_unsubscribe_def wf_delegates_def sorted_append)
  next
    case False
    then have "d \<notin> snd ` set (delegates q)" by (auto simp: list_ex_iff image_iff)
    with False assms show "wf_delegates (delegates (snd (queue_unsubscribe d q))) \<and>
        set (map snd (delegates (snd (queue_unsubscribe d q)))) = set (map snd (delegates q)) - {d}"
      by (auto simp: queue_unsubscribe_def)
  qed
qed

section \<open>Invariant of the bus\<close>

text \<open>
  The shape of a bus: its keys and the delegates of its queues. It is all that the invariant
  depends on, and what enqueueing and processing events leave alone.
\<close>

definition shape :: "'e bus \<Rightarrow> (hash_t \<times> (u32 \<times> delegate) list option) list" where
  "shape b = map (\<lambda>(k, entry). (k, map_option delegates entry)) b"

definition wf_shape :: "(hash_t \<times> (u32 \<times> delegate) list option) list \<Rightarrow> bool" where
  "wf_shape sh \<longleftrightarrow> sorted_wrt (<) (map fst sh) \<and> (\<forall>(k, ds) \<in> set sh. \<exists>d. ds = Some d \<and> wf_delegates d)"

abbreviation wf_bus :: "'e bus \<Rightarrow> bool" where
  "wf_bus b \<equiv> wf_shape (shape b)"

lemma shape_keys: "map fst (shape b) = map fst b"
  by (simp add: shape_def comp_def split_beta)

lemma shape_eq_keys: "shape b' = shape b \<Longrightarrow> map fst b' = map fst b"
  by (metis shape_keys)

lemma map_of_shape: "map_of (shape b) k = map_option (map_option delegates) (map_of b k)"
  by (induction b) (auto simp: shape_def)

lemma shape_update:
  "map_of b k = Some (Some q) \<Longrightarrow> delegates q' = delegates q \<Longrightarrow> shape (AList.update k (Some q') b) = shape b"
  by (induction b) (auto simp: shape_def)

lemma wf_bus_entry:
  assumes "wf_bus b" "map_of b k = Some entry"
  obtains q where "entry = Some q" "wf_delegates (delegates q)"
proof -
  have "(k, entry) \<in> set b" using assms(2) by (rule map_of_SomeD)
  then have "(k, map_option delegates entry) \<in> set (shape b)" by (force simp: shape_def)
  with assms(1) that show thesis by (cases entry) (auto simp: wf_shape_def)
qed

lemma call_order_bound: "wf_delegates (delegates q) \<Longrightarrow> d \<in> set (call_order q) \<Longrightarrow> stub d \<noteq> None"
  by (auto simp: call_order_def wf_delegates_def)

lemma enqueue_ok:
  assumes "wf_bus b"
  shows "\<exists>b'. enqueue k e b = Inr b' \<and> shape b' = shape b"
proof (cases "map_of b k")
  case (Some entry)
  with wf_bus_entry [OF assms Some] obtain q where "map_of b k = Some (Some q)" by auto
  then show ?thesis by (auto simp: enqueue_def try_get_def submit_def intro: shape_update)
qed (simp add: enqueue_def try_get_def)

lemma enqueue_all_ok:
  "wf_bus b \<Longrightarrow> \<exists>b'. enqueue_all es b = Inr b' \<and> shape b' = shape b"
proof (induction es b rule: enqueue_all.induct)
  case (2 k e es b)
  from enqueue_ok [OF 2(2), of k e] obtain b1 where "enqueue k e b = Inr b1" "shape b1 = shape b" by auto
  with 2(1) [of b1] 2(2) show ?case by auto
qed simp

lemma run_handlers_ok:
  "wf_bus b \<Longrightarrow> \<forall>d \<in> set ds. stub d \<noteq> None \<Longrightarrow>
     \<exists>b' w'. run_handlers h ds e (b, w) = Inr (b', w') \<and> shape b' = shape b"
proof (induction ds arbitrary: b w)
  case (Cons d ds)
  then obtain f where "stub d = Some f" by auto
  obtain c w1 es where h: "h f (instance_ptr d) e w = (c, w1, es)" by (metis prod_cases3)
  obtain b1 where b1: "enqueue_all es b = Inr b1" "shape b1 = shape b"
    using enqueue_all_ok [OF Cons.prems(1), of es] by auto
  with Cons.IH [of b1 w1] Cons.prems h \<open>stub d = Some f\<close> show ?case
    by (auto simp: call_delegate_def)
qed simp

text \<open>One iteration of the loop of \<open>process\<close>: deliver the front event, then pop it.\<close>

lemma process_iteration:
  assumes "wf_bus b" "map_of b k = Some (Some q)" "queue q = e # es"
  obtains b1 w1 q1 where "run_handlers h (call_order q) e (b, w) = Inr (b1, w1)" "shape b1 = shape b"
    "map_of b1 k = Some (Some q1)" "delegates q1 = delegates q"
    "\<And>clock deadline t. process h clock deadline k (b, w, t) =
       (let b2 = AList.update k (Some (pop q1)) b1
        in if clock t > deadline then Some (Inr (False, (b2, w1, Suc t)))
           else process h clock deadline k (b2, w1, Suc t))"
    "shape (AList.update k (Some (pop q1)) b1) = shape b"
proof -
  have wq: "wf_delegates (delegates q)" using wf_bus_entry [OF assms(1,2)] by auto
  obtain b1 w1 where run: "run_handlers h (call_order q) e (b, w) = Inr (b1, w1)" "shape b1 = shape b"
    using run_handlers_ok [OF assms(1), of "call_order q" h e w] call_order_bound [OF wq] by auto
  have "map_option (map_option delegates) (map_of b1 k) = Some (Some (delegates q))"
    using map_of_shape [of b1 k] map_of_shape [of b k] run(2) assms(2) by simp
  then obtain q1 where q1: "map_of b1 k = Some (Some q1)" "delegates q1 = delegates q" by auto
  show thesis
  proof (rule that [OF run q1])
    fix clock deadline t
    show "process h clock deadline k (b, w, t) =
       (let b2 = AList.update k (Some (pop q1)) b1
        in if clock t > deadline then Some (Inr (False, (b2, w1, Suc t)))
           else process h clock deadline k (b2, w1, Suc t))"
      by (subst process.simps) (simp add: assms(2,3) run(1) q1(1))
    show "shape (AList.update k (Some (pop q1)) b1) = shape b"
      using shape_update [OF q1(1), of "pop q1"] run(2) by (simp add: pop_def)
  qed
qed

lemma process_empty:
  "map_of b k = Some (Some q) \<Longrightarrow> queue q = [] \<Longrightarrow> process h clock deadline k (b, w, t) = Some (Inr (True, (b, w, t)))"
  by (subst process.simps) simp

text \<open>A result that is no fault and leaves the shape of the bus alone.\<close>

definition intact :: "(hash_t \<times> (u32 \<times> delegate) list option) list \<Rightarrow> fault + bool \<times> ('e, 'w) bus_state \<Rightarrow> bool" where
  "intact sh r \<longleftrightarrow> (case r of Inl _ \<Rightarrow> False | Inr (x, st) \<Rightarrow> shape (fst st) = sh)"

lemma intact_simps [simp]: "intact sh (Inl e) = False" "intact sh (Inr (x, st)) \<longleftrightarrow> shape (fst st) = sh"
  by (simp_all add: intact_def)

lemma intactE: "intact sh r \<Longrightarrow> (\<And>x st. r = Inr (x, st) \<Longrightarrow> shape (fst st) = sh \<Longrightarrow> thesis) \<Longrightarrow> thesis"
  by (cases r) auto

lemma process_ok:
  assumes "process h clock deadline k st = Some r" "wf_bus (fst st)" "k \<in> fst ` set (fst st)"
  shows "intact (shape (fst st)) r"
  using assms
proof (induction rule: process.raw_induct [rotated, consumes 1, case_names step])
  case (step process h clock deadline k st r)
  obtain b w t where st: "st = (b, w, t)" by (cases st)
  obtain q where q: "map_of b k = Some (Some q)"
    using step(3,4) wf_bus_entry [of b k] unfolding st by (metis fst_conv map_of_eq_None_iff not_None_eq)
  show ?case
  proof (cases "queue q")
    case Nil
    with step(2) q st show ?thesis by auto
  next
    case (Cons e es)
    have "wf_bus b" using step(3) st by simp
    from process_iteration [OF this q Cons, of h w] obtain b1 w1 q1 where
      i: "run_handlers h (call_order q) e (b, w) = Inr (b1, w1)" "map_of b1 k = Some (Some q1)"
         "shape (AList.update k (Some (pop q1)) b1) = shape b" by metis
    let ?st = "(AList.update k (Some (pop q1)) b1, w1, Suc t)"
    have "k \<in> fst ` set (AList.update k (Some (pop q1)) b1)" by (simp add: dom_update)
    with i Cons q st step(1) [of h clock deadline k ?st r] step(2) \<open>wf_bus b\<close> show ?thesis
      by (auto simp: Let_def split: if_splits)
  qed
qed

lemma process_all_ok:
  "process_all h clock deadline en ks st = Some r \<Longrightarrow> wf_bus (fst st) \<Longrightarrow> set ks \<subseteq> fst ` set (fst st) \<Longrightarrow>
     intact (shape (fst st)) r"
proof (induction ks arbitrary: st)
  case (Cons k ks)
  from Cons.prems(1) obtain r1 where r1: "process h clock deadline k st = Some r1"
    by (auto split: option.splits)
  from process_ok [OF this] Cons.prems obtain x st1 where x: "r1 = Inr (x, st1)" "shape (fst st1) = shape (fst st)"
    by (auto elim: intactE)
  have "fst ` set (fst st1) = fst ` set (fst st)" using shape_eq_keys [OF x(2)] by (metis list.set_map)
  with Cons.IH [of st1] Cons.prems r1 x show ?case by (auto split: if_splits)
qed auto

lemma bus_empty_ok: "wf_bus b \<Longrightarrow> bus_empty b = Inr (get_unprocessed_count b = 0)"
proof -
  have count: "fold (\<lambda>(k, entry) acc. acc + (case entry of Some q \<Rightarrow> queue_size q | None \<Rightarrow> 0)) b n = 0 \<longleftrightarrow>
    n = 0 \<and> (\<forall>(k, entry) \<in> set b. case entry of Some q \<Rightarrow> queue_empty q | None \<Rightarrow> True)" for b :: "'a bus" and n
    by (induction b arbitrary: n) (auto simp: queue_size_def queue_empty_def split: option.splits)
  assume "wf_bus b"
  then have "\<forall>(k, entry) \<in> set b. entry \<noteq> None" by (auto simp: wf_shape_def shape_def)
  then have "bus_empty b = Inr (\<forall>(k, entry) \<in> set b. case entry of Some q \<Rightarrow> queue_empty q | None \<Rightarrow> True)"
    by (induction b rule: bus_empty.induct) auto
  then show ?thesis by (simp add: count get_unprocessed_count_def)
qed

lemma dispatch_loop_ok:
  assumes "dispatch_loop h clock deadline en st = Some r" "wf_bus (fst st)"
  shows "intact (shape (fst st)) r"
  using assms
proof (induction rule: dispatch_loop.raw_induct [rotated, consumes 1, case_names step])
  case (step dl h clock deadline en st r)
  show ?case
  proof (cases "get_unprocessed_count (fst st) = 0")
    case True
    with step(2,3) show ?thesis by (auto simp: bus_empty_ok)
  next
    case False
    with step(2,3) obtain r1 where r1: "process_all h clock deadline en (map fst (fst st)) st = Some r1"
      by (auto simp: bus_empty_ok split: option.splits)
    from process_all_ok [OF this step(3)] obtain x st1 where
      x: "r1 = Inr (x, st1)" "shape (fst st1) = shape (fst st)" by (auto elim: intactE)
    with False r1 step(2,3) step(1) [of h clock deadline en st1 r] show ?thesis
      by (auto simp: bus_empty_ok split: if_splits)
  qed
qed

subsection \<open>The operations of the bus\<close>

text \<open>
  The public interface except \<open>has_queue\<close>; a handler is a free function or a member function of an
  object.
\<close>

datatype handler_ref = Free_Function nat | Member_Function nat nat

fun to_delegate :: "handler_ref \<Rightarrow> delegate" where
  "to_delegate (Free_Function f) = create_free f"
| "to_delegate (Member_Function f obj) = create_member f obj"

datatype 'e bus_op =
    Subscribe hash_t u32 handler_ref | Unsubscribe hash_t handler_ref
  | Enqueue hash_t 'e | Fire hash_t 'e | Dispatch int | Drop_Type hash_t | Drop_All

fun bus_step :: "sorter \<Rightarrow> ('e, 'w) handlers \<Rightarrow> (nat \<Rightarrow> int) \<Rightarrow> 'e bus_op \<Rightarrow> ('e, 'w) bus_state \<Rightarrow>
   (fault + ('e, 'w) bus_state) option" where
  "bus_step srt h clock (Subscribe k p r) (b, w, t) = Some (Inr (subscribe srt k p (to_delegate r) b, w, t))"
| "bus_step srt h clock (Unsubscribe k r) (b, w, t) = Some (Inr (snd (unsubscribe k (to_delegate r) b), w, t))"
| "bus_step srt h clock (Enqueue k e) (b, w, t) = Some (map_sum id (\<lambda>b'. (b', w, t)) (enqueue k e b))"
| "bus_step srt h clock (Fire k e) (b, w, t) =
     Some (map_sum id (\<lambda>(b', w'). (b', w', t)) (fire h k e (b, w)))"
| "bus_step srt h clock (Dispatch timeout) (b, w, t) = map_option (map_sum id snd) (dispatch h clock timeout (b, w, t))"
| "bus_step srt h clock (Drop_Type k) (b, w, t) = Some (map_sum id (\<lambda>b'. (b', w, t)) (drop_type k b))"
| "bus_step srt h clock Drop_All (b, w, t) = Some (map_sum id (\<lambda>b'. (b', w, t)) (bus_drop b))"

text \<open>The states a program can bring a fresh bus into.\<close>

inductive reachable :: "sorter \<Rightarrow> ('e, 'w) handlers \<Rightarrow> (nat \<Rightarrow> int) \<Rightarrow> ('e, 'w) bus_state \<Rightarrow> bool"
  for srt h clock where
  fresh: "reachable srt h clock ([], w, t)"
| step: "reachable srt h clock st \<Longrightarrow> bus_step srt h clock x st = Some (Inr st') \<Longrightarrow> reachable srt h clock st'"

lemma to_delegate_bound [simp]: "stub (to_delegate r) \<noteq> None"
  by (cases r) simp_all

lemma wf_bus_iff:
  "wf_bus b \<longleftrightarrow> sorted_wrt (<) (map fst b) \<and>
     (\<forall>k entry. map_of b k = Some entry \<longrightarrow> (\<exists>q. entry = Some q \<and> wf_delegates (delegates q)))"
proof -
  have "wf_bus b \<longleftrightarrow> sorted_wrt (<) (map fst b) \<and>
     (\<forall>(k, x) \<in> set b. \<exists>q. x = Some q \<and> wf_delegates (delegates q))"
    by (simp add: wf_shape_def shape_keys) (simp add: shape_def split_beta, blast)
  moreover have "sorted_wrt (<) (map fst b) \<Longrightarrow> map_of b k = Some x \<longleftrightarrow> (k, x) \<in> set b" for k x
    by (metis map_of_eq_Some_iff strict_sorted_iff)
  ultimately show ?thesis by auto
qed

lemma map_emplace_keys: "fst ` set (map_emplace k v m) = insert k (fst ` set m)"
  by (induction k v m rule: map_emplace.induct) auto

lemma map_emplace_sorted: "sorted_wrt (<) (map fst m) \<Longrightarrow> sorted_wrt (<) (map fst (map_emplace k v m))"
proof (induction k v m rule: map_emplace.induct)
  case (2 k v k' v' m)
  have "\<forall>x \<in> fst ` set m. k' < x" using 2(2) by auto
  with 2 show ?case
    by (auto simp: map_emplace_keys image_iff dest: order.strict_trans)
qed simp

lemma map_emplace_map_of:
  "sorted_wrt (<) (map fst m) \<Longrightarrow>
     map_of (map_emplace k v m) = (case map_of m k of None \<Rightarrow> (map_of m)(k \<mapsto> v) | Some _ \<Rightarrow> map_of m)"
proof (induction k v m rule: map_emplace.induct)
  case (2 k v k' v' m)
  have "k \<notin> fst ` set ((k', v') # m)" if "k < k'" using 2(2) that by force
  then have "k < k' \<Longrightarrow> map_of ((k', v') # m) k = None" by (simp add: map_of_eq_None_iff)
  with 2 show ?case by (auto simp: fun_upd_twist split: option.splits)
qed (simp add: fun_eq_iff)

lemma wf_bus_update:
  assumes "wf_bus b" "map_of b k \<noteq> None" "wf_delegates (delegates q)"
  shows "wf_bus (AList.update k (Some q) b)"
proof -
  have "map fst (AList.update k (Some q) b) = map fst b"
    using assms(2) by (simp add: update_keys map_of_eq_None_iff)
  with assms show ?thesis by (auto simp: wf_bus_iff update_conv')
qed

lemma get_or_create_ok:
  assumes "wf_bus b" "get_or_create k b = (q, b')"
  shows "wf_bus b'" "map_of b' = (map_of b)(k \<mapsto> Some q)"
    "map_of b k = Some (Some q) \<or> map_of b k = None \<and> q = new_queue"
proof -
  have srt: "sorted_wrt (<) (map fst b)" using assms(1) by (simp add: wf_bus_iff)
  show "map_of b' = (map_of b)(k \<mapsto> Some q)"
    "map_of b k = Some (Some q) \<or> map_of b k = None \<and> q = new_queue"
    using assms(2) map_emplace_map_of [OF srt, of k None] wf_bus_entry [OF assms(1), of k]
    by (auto simp: get_or_create_def bus_index_def Let_def update_conv' fun_eq_iff split: option.splits)
  have keys: "map fst (AList.update k x (map_emplace k None b)) = map fst (map_emplace k None b)" for x
    by (simp add: update_keys map_emplace_keys)
  have "sorted_wrt (<) (map fst b')"
    using assms(2) map_emplace_sorted [OF srt, of k None] keys
    by (auto simp: get_or_create_def bus_index_def Let_def split: option.splits)
  with assms(1) \<open>map_of b' = _\<close> \<open>_ \<or> _\<close> show "wf_bus b'"
    by (auto simp: wf_bus_iff new_queue_def wf_delegates_def)
qed

lemma subscribe_wf:
  assumes "is_sorter srt" "wf_bus b" "stub d \<noteq> None"
  shows "wf_bus (subscribe srt k p d b)"
proof -
  obtain q b' where g: "get_or_create k b = (q, b')" by fastforce
  note g' = get_or_create_ok [OF assms(2) g]
  then have q: "map_of b' k = Some (Some q)" by simp
  have "wf_delegates (delegates q)" using wf_bus_entry [OF g'(1) q] by auto
  from wf_bus_update [OF g'(1) _ queue_subscribe_wf(1) [OF assms(1) this assms(3)]] q g show ?thesis
    by (simp add: subscribe_def)
qed

lemma unsubscribe_wf:
  assumes "wf_bus b"
  shows "wf_bus (snd (unsubscribe k d b))"
proof -
  obtain q b' where g: "get_or_create k b = (q, b')" by fastforce
  note g' = get_or_create_ok [OF assms g]
  then have q: "map_of b' k = Some (Some q)" by simp
  have "wf_delegates (delegates q)" using wf_bus_entry [OF g'(1) q] by auto
  from wf_bus_update [OF g'(1) _ queue_unsubscribe_wf(1) [OF this]] q g show ?thesis
    by (simp add: unsubscribe_def split_beta)
qed

lemma bus_drop_ok: "wf_bus b \<Longrightarrow> \<exists>b'. bus_drop b = Inr b' \<and> shape b' = shape b"
proof (induction b rule: bus_drop.induct)
  case (3 k q b)
  then have "wf_bus b" by (simp add: wf_shape_def shape_def)
  with 3 show ?case by (auto simp: shape_def queue_drop_def)
qed (auto simp: wf_shape_def shape_def)

lemma drop_type_ok:
  assumes "wf_bus b"
  shows "\<exists>b'. drop_type k b = Inr b' \<and> shape b' = shape b"
proof (cases "map_of b k")
  case (Some entry)
  with wf_bus_entry [OF assms Some] obtain q where "map_of b k = Some (Some q)" by auto
  then show ?thesis by (auto simp: drop_type_def try_get_def queue_drop_def intro: shape_update)
qed (simp add: drop_type_def try_get_def)

lemma fire_ok:
  assumes "wf_bus b"
  shows "\<exists>b' w'. fire h k e (b, w) = Inr (b', w') \<and> shape b' = shape b"
proof (cases "map_of b k")
  case (Some entry)
  with wf_bus_entry [OF assms Some] obtain q where q: "map_of b k = Some (Some q)" "wf_delegates (delegates q)" by auto
  with run_handlers_ok [OF assms, of "call_order q" h e w] call_order_bound [OF q(2)] show ?thesis
    by (auto simp: fire_def try_get_def)
qed (simp add: fire_def try_get_def)

lemma bus_step_ok:
  assumes "is_sorter srt" "wf_bus (fst st)" "bus_step srt h clock x st = Some r"
  shows "\<exists>st'. r = Inr st' \<and> wf_bus (fst st')"
proof -
  obtain b w t where st: "st = (b, w, t)" by (cases st)
  with assms(2) have wf: "wf_bus b" by simp
  show ?thesis
  proof (cases x)
    case (Dispatch timeout)
    then obtain r' where r': "dispatch h clock timeout (b, w, t) = Some r'" "r = map_sum id snd r'"
      using assms(3) st by auto
    have "intact (shape b) r'"
      using r'(1) wf dispatch_loop_ok [of h clock _ _ "(b, w, _)" r']
      by (auto simp: dispatch_def Let_def split: if_splits)
    then show ?thesis using r'(2) wf by (elim intactE) auto
  next
    case (Subscribe k p d)
    with assms st wf show ?thesis by (auto simp: subscribe_wf)
  next
    case (Unsubscribe k d)
    with assms st wf show ?thesis by (auto simp: unsubscribe_wf)
  next
    case (Enqueue k e)
    with assms(3) st wf enqueue_ok [OF wf, of k e] show ?thesis by auto
  next
    case (Fire k e)
    with assms(3) st wf fire_ok [OF wf, of h k e w] show ?thesis by auto
  next
    case (Drop_Type k)
    with assms(3) st wf drop_type_ok [OF wf, of k] show ?thesis by auto
  next
    case Drop_All
    with assms(3) st wf bus_drop_ok [OF wf] show ?thesis by auto
  qed
qed

lemma reachable_wf:
  assumes "is_sorter srt" "reachable srt h clock st"
  shows "wf_bus (fst st)"
  using assms(2)
proof induction
  case (fresh w t)
  then show ?case by (simp add: wf_shape_def shape_def)
next
  case (step st x st')
  with bus_step_ok [OF assms(1) step.IH step.hyps(2)] show ?case by auto
qed

section \<open>Delivery\<close>

text \<open>
  The handlers that are called for an event: those up to the first one that consumes it, with
  the application state threaded through; \<open>notify\<close> is the resulting state.
\<close>

fun called :: "('e, 'w) handlers \<Rightarrow> delegate list \<Rightarrow> 'e \<Rightarrow> 'w \<Rightarrow> delegate list" where
  "called h [] e w = []"
| "called h (d # ds) e w =
     (let (consumed, w', es) = h (the (stub d)) (instance_ptr d) e w
      in d # (if consumed then [] else called h ds e w'))"

fun notify :: "('e, 'w) handlers \<Rightarrow> delegate list \<Rightarrow> 'e \<Rightarrow> 'w \<Rightarrow> 'w" where
  "notify h [] e w = w"
| "notify h (d # ds) e w =
     (let (consumed, w', es) = h (the (stub d)) (instance_ptr d) e w
      in if consumed then w' else notify h ds e w')"

lemma run_handlers_state:
  "wf_bus b \<Longrightarrow> \<forall>d \<in> set ds. stub d \<noteq> None \<Longrightarrow> run_handlers h ds e (b, w) = Inr (b', w') \<Longrightarrow>
     w' = notify h ds e w"
proof (induction ds arbitrary: b w)
  case (Cons d ds)
  then obtain f where f: "stub d = Some f" by auto
  obtain c w1 es where h: "h f (instance_ptr d) e w = (c, w1, es)" by (metis prod_cases3)
  obtain b1 where b1: "enqueue_all es b = Inr b1" "shape b1 = shape b"
    using enqueue_all_ok [OF Cons.prems(1), of es] by auto
  with Cons.IH [of b1 w1] Cons.prems h f show ?case
    by (auto simp: call_delegate_def split: if_splits)
qed simp

text \<open>Handlers that enqueue nothing.\<close>

definition quiet :: "('e, 'w) handlers \<Rightarrow> bool" where
  "quiet h \<longleftrightarrow> (\<forall>f i e w. snd (snd (h f i e w)) = [])"

lemma run_handlers_quiet:
  "quiet h \<Longrightarrow> \<forall>d \<in> set ds. stub d \<noteq> None \<Longrightarrow> run_handlers h ds e (b, w) = Inr (b, notify h ds e w)"
proof (induction ds arbitrary: w)
  case (Cons d ds)
  then obtain f where f: "stub d = Some f" by auto
  obtain c w1 where h: "h f (instance_ptr d) e w = (c, w1, [])"
    using Cons.prems(1) unfolding quiet_def by (metis prod.collapse)
  with Cons f show ?case by (auto simp: call_delegate_def)
qed simp

lemma update_same: "map_of b k = Some v \<Longrightarrow> AList.update k v b = b"
  by (induction b) auto

lemma update_twice: "AList.update k v (AList.update k v' b) = AList.update k v b"
  by (induction b) auto

lemma process_quiet:
  assumes "quiet h" "wf_bus b" "map_of b k = Some (Some q)"
  shows "\<exists>n r. process h clock deadline k (b, w, t) = Some (Inr (r,
       (AList.update k (Some (q\<lparr>queue := drop n (queue q)\<rparr>)) b,
        fold (notify h (call_order q)) (take n (queue q)) w, t + n))) \<and>
     n \<le> length (queue q) \<and> (r \<longrightarrow> n = length (queue q)) \<and>
     (\<not> r \<longrightarrow> n > 0 \<and> clock (t + n - 1) > deadline)"
  using assms(2,3)
proof (induction "queue q" arbitrary: q b w t)
  case Nil
  then show ?case by (intro exI [of _ 0] exI [of _ True]) (auto simp: process_empty update_same)
next
  case (Cons e es)
  have wq: "wf_delegates (delegates q)" using wf_bus_entry [OF Cons.prems] by auto
  define b2 where "b2 = AList.update k (Some (pop q)) b"
  define w2 where "w2 = notify h (call_order q) e w"
  have proc: "process h clock deadline k (b, w, t) =
      (if clock t > deadline then Some (Inr (False, (b2, w2, Suc t))) else process h clock deadline k (b2, w2, Suc t))"
    using Cons.prems(2) Cons.hyps(2) run_handlers_quiet [OF assms(1), of "call_order q" e b w] call_order_bound [OF wq]
    by (subst process.simps) (auto simp: b2_def w2_def Let_def split: list.splits)
  show ?case
  proof (cases "clock t > deadline")
    case True
    with proc Cons.hyps(2) [symmetric] show ?thesis
      by (intro exI [of _ 1] exI [of _ False]) (auto simp: b2_def w2_def pop_def)
  next
    case False
    have q2: "es = queue (pop q)" "wf_bus b2" "map_of b2 k = Some (Some (pop q))" "call_order (pop q) = call_order q"
      using Cons.hyps(2) Cons.prems shape_update [OF Cons.prems(2), of "pop q"]
      by (auto simp: b2_def update_conv' pop_def call_order_def dest: sym)
    obtain n r where IH: "process h clock deadline k (b2, w2, Suc t) = Some (Inr (r,
         (AList.update k (Some (pop q\<lparr>queue := drop n (queue (pop q))\<rparr>)) b2,
          fold (notify h (call_order (pop q))) (take n (queue (pop q))) w2, Suc t + n)))"
       "n \<le> length (queue (pop q))" "r \<longrightarrow> n = length (queue (pop q))"
       "\<not> r \<longrightarrow> n > 0 \<and> clock (Suc t + n - 1) > deadline"
      using Cons.hyps(1) [OF q2(1-3), of w2 "Suc t"] by blast
    have eqs: "AList.update k (Some (pop q\<lparr>queue := drop n (queue (pop q))\<rparr>)) b2 =
        AList.update k (Some (q\<lparr>queue := drop (Suc n) (queue q)\<rparr>)) b"
      "fold (notify h (call_order (pop q))) (take n (queue (pop q))) w2 =
        fold (notify h (call_order q)) (take (Suc n) (queue q)) w"
      "length (queue q) = Suc (length (queue (pop q)))"
      using Cons.hyps(2) q2(4) by (auto simp: b2_def w2_def update_twice pop_def dest: sym)
    show ?thesis
      by (rule exI [of _ "Suc n"], rule exI [of _ r])
        (use proc False IH eqs in auto)
  qed
qed

text \<open>The pending events in the order in which a pass of \<open>dispatch\<close> meets them.\<close>

fun pending :: "'e bus \<Rightarrow> (hash_t \<times> 'e) list" where
  "pending [] = []"
| "pending ((k, None) # b) = pending b"
| "pending ((k, Some q) # b) = map (Pair k) (queue q) @ pending b"

text \<open>Delivering one event to the subscribers of its type, in a bus of the given shape.\<close>

definition deliver ::
  "('e, 'w) handlers \<Rightarrow> (hash_t \<times> (u32 \<times> delegate) list option) list \<Rightarrow> hash_t \<times> 'e \<Rightarrow> 'w \<Rightarrow> 'w" where
  "deliver h sh = (\<lambda>(k, e). notify h (rev (map snd (the (the (map_of sh k))))) e)"

lemma pending_append: "pending (b @ b') = pending b @ pending b'"
  by (induction b rule: pending.induct) auto

lemma pending_count: "get_unprocessed_count b = length (pending b)"
proof -
  have "fold (\<lambda>(k, entry) acc. acc + (case entry of Some q \<Rightarrow> queue_size q | None \<Rightarrow> 0)) b n =
    n + length (pending b)" for n
    by (induction b arbitrary: n rule: pending.induct) (auto simp: queue_size_def)
  then show ?thesis by (simp add: get_unprocessed_count_def)
qed

lemma update_middle: "k \<notin> fst ` set pre \<Longrightarrow> AList.update k v (pre @ (k, v') # suf) = pre @ (k, v) # suf"
  by (induction pre) auto

lemma shape_append: "shape (b @ b') = shape b @ shape b'"
  by (simp add: shape_def)

lemma fold_deliver_same_key:
  assumes "map_of sh k = Some (Some (delegates q))"
  shows "fold (deliver h sh) (map (Pair k) es) w = fold (notify h (call_order q)) es w"
  using assms by (induction es arbitrary: w) (auto simp: deliver_def call_order_def)

lemma process_all_quiet:
  assumes "quiet h" "en \<or> (\<forall>n. clock n \<le> deadline)" "wf_bus (pre @ suf)" "pending pre = []" "sh = shape (pre @ suf)"
  shows "\<exists>n r b'. process_all h clock deadline en (map fst suf) (pre @ suf, w, t) =
       Some (Inr (r, (b', fold (deliver h sh) (take n (pending suf)) w, t + n))) \<and>
     shape b' = sh \<and> pending b' = drop n (pending suf) \<and> n \<le> length (pending suf) \<and>
     (r \<longrightarrow> n = length (pending suf)) \<and> (\<not> r \<longrightarrow> en \<and> n > 0 \<and> clock (t + n - 1) > deadline)"
  using assms(3-5)
proof (induction suf arbitrary: pre w t)
  case Nil
  then show ?case by (intro exI [of _ 0] exI [of _ True] exI [of _ pre]) auto
next
  case (Cons x suf)
  obtain k entry where x: "x = (k, entry)" by fastforce
  have fresh: "k \<notin> fst ` set pre" using Cons.prems(1) by (auto simp: x wf_bus_iff sorted_wrt_append)
  then have "map_of pre k = None" by (simp add: map_of_eq_None_iff)
  then have at_k: "map_of (pre @ x # suf) k = Some entry" by (simp add: x map_add_def)
  from wf_bus_entry [OF Cons.prems(1) at_k] obtain q where q: "entry = Some q" by auto
  let ?q = "\<lambda>n. q\<lparr>queue := drop n (queue q)\<rparr>" and ?ev = "map (Pair k) (queue q)"
  have same: "fold (notify h (call_order q)) (take n (queue q)) w = fold (deliver h sh) (map (Pair k) (take n (queue q))) w" for n
    using fold_deliver_same_key [of sh k q h "take n (queue q)" w] map_of_shape [of "pre @ x # suf" k] at_k
    by (simp add: Cons.prems(3) q)
  from process_quiet [OF assms(1) Cons.prems(1) at_k [unfolded q], of clock deadline w t] obtain n r where
    p: "process h clock deadline k (pre @ x # suf, w, t) = Some (Inr (r, (pre @ (k, Some (?q n)) # suf,
          fold (deliver h sh) (map (Pair k) (take n (queue q))) w, t + n)))"
       "n \<le> length (queue q)" "r \<longrightarrow> n = length (queue q)" "\<not> r \<longrightarrow> n > 0 \<and> clock (t + n - 1) > deadline"
    unfolding same x update_middle [OF fresh] by blast
  have sh1: "shape (pre @ (k, Some (?q n)) # suf) = sh"
    by (simp add: Cons.prems(3) shape_def x q)
  show ?case
  proof (cases r)
    case False
    then have "en" using p(4) assms(2) by (meson linorder_not_le)
    with False p x sh1 Cons.prems(2) show ?thesis
      by (intro exI [of _ n] exI [of _ False] exI [of _ "pre @ (k, Some (?q n)) # suf"])
        (auto simp: q pending_append take_map drop_map)
  next
    case True
    then have n: "n = length (queue q)" using p(3) by simp
    let ?pre = "pre @ [(k, Some (?q n))]" and ?w = "fold (deliver h sh) (map (Pair k) (take n (queue q))) w"
    have "wf_bus (?pre @ suf)" "sh = shape (?pre @ suf)" "pending ?pre = []"
      using sh1 Cons.prems by (auto simp: pending_append n)
    from Cons.IH [OF this(1) this(3,2), of ?w "t + n"] obtain m r' b' where
      "process_all h clock deadline en (map fst suf) (?pre @ suf, ?w, t + n) =
         Some (Inr (r', (b', fold (deliver h sh) (take m (pending suf)) ?w, t + n + m)))"
      "shape b' = sh" "pending b' = drop m (pending suf)" "m \<le> length (pending suf)"
      "r' \<longrightarrow> m = length (pending suf)" "\<not> r' \<longrightarrow> en \<and> m > 0 \<and> clock (t + n + m - 1) > deadline"
      by blast
    with True p(1) n x show ?thesis
      by (intro exI [of _ "n + m"] exI [of _ r'] exI [of _ b']) (auto simp: q add.assoc)
  qed
qed

lemma dispatch_loop_quiet:
  assumes "quiet h" "en \<or> (\<forall>n. clock n \<le> deadline)" "wf_bus b"
  shows "\<exists>n r b'. dispatch_loop h clock deadline en (b, w, t) =
       Some (Inr (r, (b', fold (deliver h (shape b)) (take n (pending b)) w, t + n))) \<and>
     shape b' = shape b \<and> pending b' = drop n (pending b) \<and> n \<le> length (pending b) \<and>
     (r \<longrightarrow> n = length (pending b)) \<and> (\<not> r \<longrightarrow> en \<and> n > 0 \<and> clock (t + n - 1) > deadline)"
proof (cases "pending b = []")
  case True
  then show ?thesis
    by (subst dispatch_loop.simps, intro exI [of _ 0] exI [of _ True] exI [of _ b])
      (simp add: bus_empty_ok [OF assms(3)] pending_count)
next
  case False
  from process_all_quiet [OF assms(1,2), of "[]" b "shape b" w t, unfolded append_Nil, OF assms(3) _ refl] obtain n r b' where
    p: "process_all h clock deadline en (map fst b) (b, w, t) =
       Some (Inr (r, (b', fold (deliver h (shape b)) (take n (pending b)) w, t + n)))"
     "shape b' = shape b" "pending b' = drop n (pending b)" "n \<le> length (pending b)"
     "r \<longrightarrow> n = length (pending b)" "\<not> r \<longrightarrow> en \<and> n > 0 \<and> clock (t + n - 1) > deadline" unfolding pending.simps(1) by blast
  have "bus_empty b' = Inr True" if r
    using bus_empty_ok [of b'] p that assms(3) by (simp add: pending_count)
  then have "r \<Longrightarrow> dispatch_loop h clock deadline en (b', w', t') = Some (Inr (True, (b', w', t')))" for w' t'
    by (subst dispatch_loop.simps) simp
  with False p show ?thesis
    by (subst dispatch_loop.simps, intro exI [of _ n] exI [of _ r] exI [of _ b'])
      (simp add: bus_empty_ok [OF assms(3)] pending_count)
qed

section \<open>Termination of dispatch\<close>

text \<open>
  Handlers that enqueue further events only of a smaller rank. The ranks of the pending events
  form a multiset that every processed event makes smaller.
\<close>

definition ranked :: "('e \<Rightarrow> nat) \<Rightarrow> ('e, 'w) handlers \<Rightarrow> bool" where
  "ranked rank h \<longleftrightarrow> (\<forall>f i e w. \<forall>(k', e') \<in> set (snd (snd (h f i e w))). rank e' < rank e)"

definition weight :: "('e \<Rightarrow> nat) \<Rightarrow> 'e bus \<Rightarrow> nat multiset" where
  "weight rank b = image_mset (rank \<circ> snd) (mset (pending b))"

lemma mset_pending_update:
  "map_of b k = Some (Some q) \<Longrightarrow>
     mset (pending (AList.update k (Some q') b)) + image_mset (Pair k) (mset (queue q)) =
     mset (pending b) + image_mset (Pair k) (mset (queue q'))"
proof (induction b rule: pending.induct)
  case (3 k0 q0 b)
  then show ?case by (cases "k0 = k") (auto simp: ac_simps)
qed (auto split: if_splits)

text \<open>
  What handlers do to a bus: they add events \<open>M\<close>, at the back of the queues.
\<close>

definition grows :: "(hash_t \<times> 'e) multiset \<Rightarrow> 'e bus \<Rightarrow> 'e bus \<Rightarrow> bool" where
  "grows M b b' \<longleftrightarrow> shape b' = shape b \<and> mset (pending b') = mset (pending b) + M \<and>
     (\<forall>k q. map_of b k = Some (Some q) \<longrightarrow> (\<exists>q' es. map_of b' k = Some (Some q') \<and> queue q' = queue q @ es))"

lemma grows_refl: "grows {#} b b"
  by (simp add: grows_def)

lemma grows_trans: "grows M b b1 \<Longrightarrow> grows N b1 b2 \<Longrightarrow> grows (M + N) b b2"
  unfolding grows_def by (simp add: add.assoc) (metis append.assoc)

lemma enqueue_grows:
  assumes "wf_bus b" "enqueue k e b = Inr b'"
  shows "\<exists>M. M \<subseteq># {#(k, e)#} \<and> grows M b b'"
proof (cases "map_of b k")
  case None
  with assms(2) have "b' = b" by (simp add: enqueue_def try_get_def)
  then show ?thesis using grows_refl [of b] by (intro exI [of _ "{#}"]) simp
next
  case (Some entry)
  with wf_bus_entry [OF assms(1) Some] obtain q where q: "map_of b k = Some (Some q)" by auto
  with assms(2) have b': "b' = AList.update k (Some (submit e q)) b" by (simp add: enqueue_def try_get_def)
  have "grows {#(k, e)#} b b'"
    using mset_pending_update [OF q, of "submit e q"] shape_update [OF q, of "submit e q"]
    unfolding grows_def b' by (auto simp: submit_def update_conv' q)
  then show ?thesis by auto
qed

lemma enqueue_all_grows:
  "wf_bus b \<Longrightarrow> enqueue_all es b = Inr b' \<Longrightarrow> \<exists>M. set_mset M \<subseteq> set es \<and> grows M b b'"
proof (induction es b arbitrary: b' rule: enqueue_all.induct)
  case (1 b)
  then show ?case using grows_refl [of b] by (intro exI [of _ "{#}"]) simp
next
  case (2 k e es b)
  then obtain b1 where b1: "enqueue k e b = Inr b1" "enqueue_all es b1 = Inr b'" by (auto simp: res_bind_eq_Inr)
  from enqueue_grows [OF 2(2) b1(1)] obtain M where M: "M \<subseteq># {#(k, e)#}" "grows M b b1" by auto
  then have "wf_bus b1" using 2(2) by (simp add: grows_def)
  from 2(1) [OF this b1(2)] obtain N where "set_mset N \<subseteq> set es" "grows N b1 b'" by auto
  with M grows_trans [of M b b1 N b'] show ?case
    by (intro exI [of _ "M + N"]) (auto dest: mset_subset_eqD)
qed

lemma run_handlers_grows:
  assumes "ranked rank h"
  shows "wf_bus b \<Longrightarrow> run_handlers h ds e (b, w) = Inr (b', w') \<Longrightarrow>
     \<exists>M. (\<forall>x \<in># M. rank (snd x) < rank e) \<and> grows M b b'"
proof (induction ds arbitrary: b w)
  case Nil
  then show ?case using grows_refl [of b] by (intro exI [of _ "{#}"]) simp
next
  case (Cons d ds)
  then obtain f c w1 es b1 where s: "h f (instance_ptr d) e w = (c, w1, es)" "enqueue_all es b = Inr b1"
    "(if c then Inr (b1, w1) else run_handlers h ds e (b1, w1)) = Inr (b', w')"
    by (auto simp: res_bind_eq_Inr call_delegate_def split: option.splits)
  from enqueue_all_grows [OF Cons.prems(1) s(2)] obtain M where M: "set_mset M \<subseteq> set es" "grows M b b1" by auto
  have rM: "\<forall>x \<in># M. rank (snd x) < rank e"
    using assms M(1) s(1) unfolding ranked_def by (metis case_prodD prod.collapse snd_conv subsetD)
  show ?case
  proof (cases c)
    case True
    with M rM s(3) show ?thesis by auto
  next
    case False
    have "wf_bus b1" using M(2) Cons.prems(1) by (simp add: grows_def)
    from Cons.IH [OF this] False s(3) obtain N where "\<forall>x \<in># N. rank (snd x) < rank e" "grows N b1 b'" by auto
    with rM M(2) grows_trans [of M b b1 N b'] show ?thesis by (intro exI [of _ "M + N"]) auto
  qed
qed

text \<open>One iteration of \<open>process\<close> makes the weight smaller.\<close>

lemma process_iteration_weight:
  assumes "ranked rank h" "wf_bus b" "map_of b k = Some (Some q)" "queue q = e # es"
  obtains b2 w2 where "shape b2 = shape b" "(weight rank b2, weight rank b) \<in> mult less_than"
    "\<And>clock deadline t. process h clock deadline k (b, w, t) =
       (if clock t > deadline then Some (Inr (False, (b2, w2, Suc t)))
        else process h clock deadline k (b2, w2, Suc t))"
proof -
  from process_iteration [OF assms(2-4), of h w] obtain b1 w1 q1 where
    i: "run_handlers h (call_order q) e (b, w) = Inr (b1, w1)" "map_of b1 k = Some (Some q1)"
      "\<And>clock deadline t. process h clock deadline k (b, w, t) =
       (let b2 = AList.update k (Some (pop q1)) b1
        in if clock t > deadline then Some (Inr (False, (b2, w1, Suc t)))
           else process h clock deadline k (b2, w1, Suc t))"
      "shape (AList.update k (Some (pop q1)) b1) = shape b" by metis
  from run_handlers_grows [OF assms(1,2) i(1)] obtain M where
    M: "\<forall>x \<in># M. rank (snd x) < rank e" "grows M b b1" by auto
  then obtain zs where q1: "queue q1 = e # es @ zs" using i(2) assms(3,4) by (fastforce simp: grows_def)
  let ?b2 = "AList.update k (Some (pop q1)) b1"
  have "mset (pending ?b2) + {#(k, e)#} = mset (pending b) + M"
    using mset_pending_update [OF i(2), of "pop q1"] q1 M(2) by (simp add: pop_def grows_def)
  moreover have "(k, e) \<in># mset (pending b)"
  proof -
    have "(k, Some q) \<in> set b" using assms(3) by (rule map_of_SomeD)
    then obtain pre suf where "b = pre @ (k, Some q) # suf" by (auto simp: in_set_conv_decomp)
    then show ?thesis by (simp add: pending_append assms(4))
  qed
  then obtain K where K: "mset (pending b) = add_mset (k, e) K" by (metis insert_DiffM)
  ultimately have K2: "mset (pending ?b2) = K + M" by (simp add: union_commute)
  have "(weight rank ?b2, weight rank b) \<in> mult less_than"
    unfolding weight_def K K2
    using one_step_implies_mult [of "{#rank e#}" "image_mset (rank \<circ> snd) M" less_than "image_mset (rank \<circ> snd) K"] M(1)
    by (auto simp: union_commute)
  then show thesis by (rule that [of ?b2 w1, rotated]) (use i in \<open>simp_all add: Let_def\<close>)
qed

text \<open>Weights compared: strictly smaller, or equal.\<close>

definition lighter :: "('e \<Rightarrow> nat) \<Rightarrow> bool \<Rightarrow> 'e bus \<Rightarrow> 'e bus \<Rightarrow> bool" where
  "lighter rank strict b' b \<longleftrightarrow> (weight rank b', weight rank b) \<in> mult less_than \<or> \<not> strict \<and> weight rank b' = weight rank b"

lemma lighter_trans: "lighter rank s1 b1 b \<Longrightarrow> lighter rank s2 b2 b1 \<Longrightarrow> lighter rank (s1 \<or> s2) b2 b"
  unfolding lighter_def by (auto intro: transD [OF trans_mult])

lemma process_returns:
  assumes "ranked rank h" "wf_bus b" "map_of b k = Some (Some q)"
  shows "\<exists>r b' w' t'. process h clock deadline k (b, w, t) = Some (Inr (r, (b', w', t'))) \<and>
     shape b' = shape b \<and> lighter rank (queue q \<noteq> []) b' b"
  using assms(2,3)
proof (induction "weight rank b" arbitrary: b q w t rule: wf_induct_rule [OF wf_mult [OF wf_less_than]])
  case (1 b q w t)
  show ?case
  proof (cases "queue q")
    case Nil
    with process_empty [OF 1(3) Nil, of h clock deadline w t] show ?thesis by (auto simp: lighter_def)
  next
    case (Cons e es)
    from process_iteration_weight [OF assms(1) 1(2,3) Cons, of w] obtain b2 w2 where
      it: "shape b2 = shape b" "(weight rank b2, weight rank b) \<in> mult less_than"
      "\<And>clock deadline t. process h clock deadline k (b, w, t) =
         (if clock t > deadline then Some (Inr (False, (b2, w2, Suc t)))
          else process h clock deadline k (b2, w2, Suc t))" by blast
    have "map_option (map_option delegates) (map_of b2 k) = Some (Some (delegates q))"
      using map_of_shape [of b2 k] map_of_shape [of b k] it(1) 1(3) by simp
    then obtain q2 where q2: "map_of b2 k = Some (Some q2)" by auto
    from 1(1) [OF it(2) _ q2] it(1) 1(2) obtain r b' w' t' where
      "process h clock deadline k (b2, w2, Suc t) = Some (Inr (r, (b', w', t')))" "shape b' = shape b2"
      "lighter rank (queue q2 \<noteq> []) b' b2" by auto metis
    moreover have "lighter rank True b2 b" using it(2) by (simp add: lighter_def)
    ultimately show ?thesis
      using it lighter_trans [of rank True b2 b "queue q2 \<noteq> []" b'] Cons by (auto simp: lighter_def)
  qed
qed

lemma process_all_returns:
  assumes "ranked rank h"
  shows "wf_bus b \<Longrightarrow> set ks \<subseteq> fst ` set b \<Longrightarrow>
     \<exists>r b' w' t'. process_all h clock deadline en ks (b, w, t) = Some (Inr (r, (b', w', t'))) \<and>
     shape b' = shape b \<and> (\<not> en \<longrightarrow> r) \<and>
     lighter rank (\<exists>k \<in> set ks. \<exists>q. map_of b k = Some (Some q) \<and> queue q \<noteq> []) b' b"
proof (induction ks arbitrary: b w t)
  case Nil
  then show ?case by (intro exI [of _ True]) (simp add: lighter_def)
next
  case (Cons k ks)
  have "map_of b k \<noteq> None" using Cons.prems(2) by (simp add: map_of_eq_None_iff)
  then obtain q where q: "map_of b k = Some (Some q)" using wf_bus_entry [OF Cons.prems(1)] by blast
  show ?case
  proof (cases "queue q = []")
    case True
    with Cons.IH [OF Cons.prems(1), of w t] Cons.prems(2) q process_empty [OF q True, of h clock deadline w t]
    show ?thesis by auto
  next
    case False
    obtain r b1 w1 t1 where p: "process h clock deadline k (b, w, t) = Some (Inr (r, (b1, w1, t1)))"
      "shape b1 = shape b" "lighter rank True b1 b"
      using process_returns [OF assms Cons.prems(1) q, of clock deadline w t] False by auto
    have "fst ` set b1 = fst ` set b" using shape_eq_keys [OF p(2)] by (metis list.set_map)
    then have b1: "wf_bus b1" "set ks \<subseteq> fst ` set b1" using p(2) Cons.prems by auto
    obtain r2 b2 w2 t2 x where p2: "process_all h clock deadline en ks (b1, w1, t1) = Some (Inr (r2, (b2, w2, t2)))"
      "shape b2 = shape b1" "\<not> en \<longrightarrow> r2" "lighter rank x b2 b1" using Cons.IH [OF b1, of w1 t1] by blast
    have "lighter rank True b2 b" using lighter_trans [OF p(3) p2(4)] by simp
    then have "lighter rank y b2 b" "lighter rank y b1 b" for y using p(3) by (auto simp: lighter_def)
    with p p2 show ?thesis by auto
  qed
qed

lemma nonempty_queue: "wf_bus b \<Longrightarrow> pending b \<noteq> [] \<Longrightarrow>
   \<exists>k \<in> set (map fst b). \<exists>q. map_of b k = Some (Some q) \<and> queue q \<noteq> []"
proof -
  assume wf: "wf_bus b"
  assume "pending b \<noteq> []"
  then have "\<exists>(k, x) \<in> set b. \<exists>q. x = Some q \<and> queue q \<noteq> []"
    by (induction b rule: pending.induct) auto
  then obtain k q where "(k, Some q) \<in> set b" "queue q \<noteq> []" by auto
  moreover have "distinct (map fst b)" using wf by (metis strict_sorted_iff wf_bus_iff)
  ultimately show ?thesis by force
qed

lemma dispatch_loop_returns:
  assumes "ranked rank h"
  shows "wf_bus b \<Longrightarrow> \<exists>r b' w' t'. dispatch_loop h clock deadline en (b, w, t) = Some (Inr (r, (b', w', t'))) \<and>
     shape b' = shape b \<and> (\<not> en \<longrightarrow> r) \<and> (r \<longrightarrow> pending b' = [])"
proof (induction "weight rank b" arbitrary: b w t rule: wf_induct_rule [OF wf_mult [OF wf_less_than]])
  case (1 b w t)
  show ?case
  proof (cases "pending b = []")
    case True
    then show ?thesis using bus_empty_ok [OF 1(2)]
      by (subst dispatch_loop.simps) (auto simp: pending_count)
  next
    case False
    from process_all_returns [OF assms 1(2), of "map fst b" clock deadline en w t] nonempty_queue [OF 1(2) False]
    obtain r b1 w1 t1 where p: "process_all h clock deadline en (map fst b) (b, w, t) = Some (Inr (r, (b1, w1, t1)))"
      "shape b1 = shape b" "\<not> en \<longrightarrow> r" "lighter rank True b1 b" by auto
    have "(weight rank b1, weight rank b) \<in> mult less_than" using p(4) by (simp add: lighter_def)
    from 1(1) [OF this, of w1 t1] p(2) 1(2) obtain r2 b2 w2 t2 where
      "dispatch_loop h clock deadline en (b1, w1, t1) = Some (Inr (r2, (b2, w2, t2)))" "shape b2 = shape b1"
      "\<not> en \<longrightarrow> r2" "r2 \<longrightarrow> pending b2 = []" by auto
    with p bus_empty_ok [OF 1(2)] False show ?thesis
      by (subst dispatch_loop.simps) (auto simp: pending_count)
  qed
qed

section \<open>Properties of the event bus\<close>

text \<open>
  C14. From a fresh bus, whatever the program does through \<open>subscribe\<close>, \<open>unsubscribe\<close>, \<open>enqueue\<close>,
  \<open>fire\<close>, \<open>dispatch\<close> and \<open>drop\<close>, an operation that returns does so without a fault, and the keys
  stay strictly ordered, no queue pointer is null, and the handlers of every queue stay distinct
  and sorted by priority. \<open>empty\<close> then returns whether the unprocessed count is zero.
\<close>

theorem bus_never_faults:
  assumes "is_sorter srt" and "reachable srt h clock st" and "bus_step srt h clock x st = Some r"
  shows "\<exists>b w t. r = Inr (b, w, t) \<and> reachable srt h clock (b, w, t) \<and> sorted_wrt (<) (map fst b) \<and>
     (\<forall>k entry. map_of b k = Some entry \<longrightarrow> (\<exists>q. entry = Some q \<and> distinct (map snd (delegates q)) \<and>
        sorted (map fst (delegates q)))) \<and>
     bus_empty b = Inr (get_unprocessed_count b = 0)"
proof -
  from bus_step_ok [OF assms(1) reachable_wf [OF assms(1,2)] assms(3)] obtain b w t where
    r: "r = Inr (b, w, t)" "wf_bus b" by auto
  moreover have "reachable srt h clock (b, w, t)" using assms(2,3) r(1) by (auto intro: reachable.step)
  moreover have "sorted_wrt (<) (map fst b)" "\<forall>k entry. map_of b k = Some entry \<longrightarrow>
      (\<exists>q. entry = Some q \<and> distinct (map snd (delegates q)) \<and> sorted (map fst (delegates q)))"
    using r(2) unfolding wf_bus_iff wf_delegates_def by blast+
  ultimately show ?thesis using bus_empty_ok [OF r(2)] by blast
qed

text \<open>A logging handler, used to exhibit instances.\<close>

definition log_handlers :: "(nat, (nat \<times> nat) list) handlers" where
  "log_handlers f i e w = (e = 0 \<and> f = 7, w @ [(f, e)], [])"

definition stable_sort :: sorter where
  "stable_sort xs = sort_key fst xs"

lemma stable_sort_sorts: "is_sorter stable_sort"
  by (simp add: is_sorter_def stable_sort_def)

lemmas bus_eval = subscribe_def get_or_create_def bus_index_def Let_def queue_subscribe_def new_queue_def
  stable_sort_def enqueue_def try_get_def submit_def create_free_def null_delegate_def call_order_def

lemma two_subscribed:
  "reachable stable_sort log_handlers clock
     ([(5, Some \<lparr>delegates = [(1, create_free 7), (3, create_free 8)], queue = []\<rparr>)], [], 0)"
proof -
  have "bus_step stable_sort log_handlers clock (Subscribe 5 3 (Free_Function 8)) ([], [], 0) =
      Some (Inr ([(5, Some \<lparr>delegates = [(3, create_free 8)], queue = []\<rparr>)], [], 0))"
    by (simp add: bus_eval)
  from reachable.step [OF reachable.fresh this]
  have "reachable stable_sort log_handlers clock ([(5, Some \<lparr>delegates = [(3, create_free 8)], queue = []\<rparr>)], [], 0)" .
  moreover have "bus_step stable_sort log_handlers clock (Subscribe 5 1 (Free_Function 7))
      ([(5, Some \<lparr>delegates = [(3, create_free 8)], queue = []\<rparr>)], [], 0) =
      Some (Inr ([(5, Some \<lparr>delegates = [(1, create_free 7), (3, create_free 8)], queue = []\<rparr>)], [], 0))"
    by (simp add: bus_eval word_le_nat_alt)
  ultimately show ?thesis by (rule reachable.step)
qed

theorem bus_never_faults_witness:
  "\<exists>b w t. bus_step stable_sort log_handlers (\<lambda>n. int n) (Enqueue 5 4)
       ([(5, Some \<lparr>delegates = [(1, create_free 7), (3, create_free 8)], queue = []\<rparr>)], [], 0) = Some (Inr (b, w, t)) \<and>
     bus_empty b = Inr (get_unprocessed_count b = 0)"
proof -
  obtain r where r: "bus_step stable_sort log_handlers (\<lambda>n. int n) (Enqueue 5 4)
       ([(5, Some \<lparr>delegates = [(1, create_free 7), (3, create_free 8)], queue = []\<rparr>)], [], 0) = Some r" by simp
  from bus_never_faults [OF stable_sort_sorts two_subscribed r] r show ?thesis by auto
qed

text \<open>
  \<open>fire\<close> calls the subscribers of the event type in order of decreasing priority, each at most
  once, up to and including the first one that returns true; without a queue for the type it does
  nothing.
\<close>

theorem fire_by_priority:
  assumes "is_sorter srt" and "reachable srt h clock (b, w, t)"
  shows "(map_of b k = None \<longrightarrow> fire h k e (b, w) = Inr (b, w)) \<and>
     (\<forall>q. map_of b k = Some (Some q) \<longrightarrow>
        (\<exists>b'. fire h k e (b, w) = Inr (b', notify h (call_order q) e w)) \<and>
        distinct (call_order q) \<and> sorted_wrt (\<ge>) (rev (map fst (delegates q))) \<and>
        (\<exists>rest. call_order q = called h (call_order q) e w @ rest))"
proof -
  have wf: "wf_bus b" using reachable_wf [OF assms] by simp
  have prefix: "\<exists>rest. ds = called h ds e w @ rest" for ds
    by (induction ds arbitrary: w) (auto simp: split_beta)
  have "\<exists>b'. fire h k e (b, w) = Inr (b', notify h (call_order q) e w)"
    "distinct (call_order q)" "sorted_wrt (\<ge>) (rev (map fst (delegates q)))"
    if q: "map_of b k = Some (Some q)" for q
  proof -
    have wq: "wf_delegates (delegates q)" using wf_bus_entry [OF wf q] by auto
    then have bound: "\<forall>d \<in> set (call_order q). stub d \<noteq> None" using call_order_bound by blast
    from run_handlers_ok [OF wf bound, of h e w] run_handlers_state [OF wf bound]
    show "\<exists>b'. fire h k e (b, w) = Inr (b', notify h (call_order q) e w)"
      using q by (auto simp: fire_def try_get_def)
    show "distinct (call_order q)" "sorted_wrt (\<ge>) (rev (map fst (delegates q)))"
      using wq by (auto simp: wf_delegates_def call_order_def sorted_wrt_rev)
  qed
  moreover have "map_of b k = None \<longrightarrow> fire h k e (b, w) = Inr (b, w)" by (simp add: fire_def try_get_def)
  ultimately show ?thesis using prefix by blast
qed

theorem fire_by_priority_witness:
  "\<exists>b'. fire log_handlers 5 0 ([(5, Some \<lparr>delegates = [(1, create_free 7), (3, create_free 8)], queue = []\<rparr>)], []) =
     Inr (b', [(8, 0), (7, 0)])"
  using fire_by_priority [OF stable_sort_sorts two_subscribed, of 5 0]
  by (simp add: call_order_def log_handlers_def)

text \<open>
  C12. \<open>dispatch\<close> with handlers that enqueue nothing: it returns, the events are delivered in the
  order of the event ids and, within one queue, in the order they were enqueued; exactly the
  delivered events leave the queues. It returns true when all of them were delivered; it returns
  false only with a timeout, after at least one event, when the clock passed the deadline. The
  readings of the clock are 64-bit counts of nanoseconds, and a timeout must be one for which the
  deadline is such a count too; \<open>dispatch_overflowing_deadline\<close> is what happens beyond.
\<close>

theorem dispatch_delivers_in_order:
  assumes "is_sorter srt" and "reachable srt h clock (b, w, t)" and "quiet h" and "\<forall>n. is_ns (clock n)"
    and "timeout > 0 \<longrightarrow> clock t + timeout \<le> k_timepoint_max"
  shows "\<exists>r b' n t'. dispatch h clock timeout (b, w, t) =
       Some (Inr (r, (b', fold (deliver h (shape b)) (take n (pending b)) w, t'))) \<and>
     pending b' = drop n (pending b) \<and> shape b' = shape b \<and> n \<le> length (pending b) \<and>
     (r \<longrightarrow> n = length (pending b)) \<and>
     (\<not> r \<longrightarrow> timeout > 0 \<and> n > 0 \<and> clock (t' - 1) > clock t + timeout)"
proof -
  have wf: "wf_bus b" using reachable_wf [OF assms(1,2)] by simp
  show ?thesis
  proof (cases "timeout > 0")
    case True
    have "is_ns (clock t)" using assms(4) by (rule spec)
    with True assms(5) have "is_ns (clock t + timeout)" by (simp add: is_ns_def)
    with True have d: "dispatch h clock timeout (b, w, t) = dispatch_loop h clock (clock t + timeout) True (b, w, Suc t)"
      by (simp add: dispatch_def plus_ns_exact)
    show ?thesis
      using dispatch_loop_quiet [OF assms(3) disjI1 [OF TrueI] wf, of clock "clock t + timeout" w "Suc t"] True
      unfolding d by blast
  next
    case False
    then have d: "dispatch h clock timeout (b, w, t) = dispatch_loop h clock k_timepoint_max False (b, w, t)"
      by (simp add: dispatch_def)
    have "False \<or> (\<forall>n. clock n \<le> k_timepoint_max)" using assms(4) by (simp add: is_ns_def)
    from dispatch_loop_quiet [OF assms(3) this wf, of w t] show ?thesis unfolding d by blast
  qed
qed

lemma two_enqueued:
  "reachable stable_sort log_handlers clock
     ([(5, Some \<lparr>delegates = [(1, create_free 7), (3, create_free 8)], queue = [0, 4]\<rparr>)], [], 0)"
proof -
  let ?b = "\<lambda>es. [(5 :: hash_t, Some \<lparr>delegates = [(1, create_free 7), (3, create_free 8)], queue = es\<rparr>)]"
  have "bus_step stable_sort log_handlers clock (Enqueue 5 e) (?b es, [], 0) = Some (Inr (?b (es @ [e]), [], 0))" for e es
    by (simp add: enqueue_def try_get_def submit_def)
  from reachable.step [OF reachable.step [OF two_subscribed this [of 0]] this [of 4]] show ?thesis by simp
qed

text \<open>A clock that ticks once before the first event and jumps by 20 after it: a timeout of 15 has passed.\<close>

definition slow_clock :: "nat \<Rightarrow> int" where
  "slow_clock n = (if n = 0 then 1 else 21)"

lemma dispatch_two_enqueued:
  "dispatch log_handlers slow_clock 15
     ([(5, Some \<lparr>delegates = [(1, create_free 7), (3, create_free 8)], queue = [0, 4]\<rparr>)], [], 0) =
   Some (Inr (False, ([(5, Some \<lparr>delegates = [(1, create_free 7), (3, create_free 8)], queue = [4]\<rparr>)],
     [(8, 0), (7, 0)], 2)))"
  by (simp add: dispatch_def plus_ns_exact is_ns_def slow_clock_def process.simps dispatch_loop.simps queue_empty_def
      call_order_def call_delegate_def log_handlers_def pop_def k_timepoint_max_def)

theorem dispatch_delivers_in_order_witness:
  "\<exists>b'. dispatch log_handlers slow_clock 15
       ([(5, Some \<lparr>delegates = [(1, create_free 7), (3, create_free 8)], queue = [0, 4]\<rparr>)], [], 0) =
       Some (Inr (False, (b', [(8, 0), (7, 0)], 2))) \<and> pending b' = [(5, 4)] \<and>
     slow_clock 1 > slow_clock 0 + 15"
proof -
  let ?b = "[(5, Some \<lparr>delegates = [(1, create_free 7), (3, create_free 8)], queue = [0, 4 :: nat]\<rparr>)]"
  have q: "quiet log_handlers" "\<forall>n. is_ns (slow_clock n)"
    by (simp_all add: quiet_def log_handlers_def is_ns_def k_timepoint_max_def slow_clock_def)
  have "15 > (0 :: int) \<longrightarrow> slow_clock 0 + 15 \<le> k_timepoint_max" by (simp add: slow_clock_def k_timepoint_max_def)
  from dispatch_delivers_in_order [OF stable_sort_sorts two_enqueued q this] obtain r b' n t' where
    d: "dispatch log_handlers slow_clock 15 (?b, [], 0) =
       Some (Inr (r, (b', fold (deliver log_handlers (shape ?b)) (take n (pending ?b)) [], t')))"
      "pending b' = drop n (pending ?b)" "r \<longrightarrow> n = length (pending ?b)"
      "\<not> r \<longrightarrow> n > 0 \<and> slow_clock (t' - 1) > slow_clock 0 + 15" "n \<le> length (pending ?b)" by blast
  have r: "r = False" "t' = 2" "pending b' = [(5, 4)]"
    using d(1) by (auto simp: dispatch_two_enqueued)
  with d show ?thesis by (simp add: dispatch_two_enqueued)
qed

text \<open>
  C13. \<open>dispatch\<close> ends even when handlers enqueue further events, provided that a handled event only
  causes events of a smaller rank (no cycle of events): it returns without a fault, all queues are
  empty when it returns true, and without a timeout it does return true.
\<close>

theorem dispatch_terminates:
  assumes "is_sorter srt" and "reachable srt h clock (b, w, t)" and "ranked rank h"
  shows "\<exists>r b' w' t'. dispatch h clock timeout (b, w, t) = Some (Inr (r, (b', w', t'))) \<and>
     (r \<longrightarrow> bus_empty b' = Inr True \<and> get_unprocessed_count b' = 0) \<and> (timeout \<le> 0 \<longrightarrow> r)"
proof -
  have wf: "wf_bus b" using reachable_wf [OF assms(1,2)] by simp
  define en where "en \<longleftrightarrow> timeout > 0"
  obtain d t0 where d: "dispatch h clock timeout (b, w, t) = dispatch_loop h clock d en (b, w, t0)"
    by (cases en) (auto simp: dispatch_def en_def Let_def)
  from dispatch_loop_returns [OF assms(3) wf, of clock d en w t0] obtain r b' w' t' where
    "dispatch_loop h clock d en (b, w, t0) = Some (Inr (r, (b', w', t')))" "shape b' = shape b"
    "\<not> en \<longrightarrow> r" "r \<longrightarrow> pending b' = []" by blast
  with d wf bus_empty_ok [of b'] show ?thesis by (auto simp: en_def pending_count)
qed

text \<open>A handler that answers an event \<open>n + 1\<close> with an event \<open>n\<close>.\<close>

definition countdown :: "(nat, nat list) handlers" where
  "countdown f i e w = (True, w @ [e], if e > 0 then [(5, e - 1)] else [])"

theorem dispatch_terminates_witness:
  "\<exists>b' w' t'. dispatch countdown (\<lambda>n. 0) 0 ([(5, Some \<lparr>delegates = [(0, create_free 7)], queue = [3]\<rparr>)], [], 0) =
     Some (Inr (True, (b', w', t'))) \<and> get_unprocessed_count b' = 0"
proof -
  have "bus_step stable_sort countdown (\<lambda>n. 0) (Subscribe 5 0 (Free_Function 7)) ([], [], 0) =
      Some (Inr ([(5, Some \<lparr>delegates = [(0, create_free 7)], queue = []\<rparr>)], [], 0))"
    by (simp add: bus_eval)
  note s1 = reachable.step [OF reachable.fresh this]
  have "bus_step stable_sort countdown (\<lambda>n. 0) (Enqueue 5 3) ([(5, Some \<lparr>delegates = [(0, create_free 7)], queue = []\<rparr>)], [], 0) =
      Some (Inr ([(5, Some \<lparr>delegates = [(0, create_free 7)], queue = [3]\<rparr>)], [], 0))"
    by (simp add: bus_eval)
  note s2 = reachable.step [OF s1 this]
  have "ranked (\<lambda>e. e) countdown" by (auto simp: ranked_def countdown_def)
  from dispatch_terminates [OF stable_sort_sorts s2 this, of 0] show ?thesis by auto
qed

text \<open>
  \<open>has_queue\<close> on an unknown event type leaves a null pointer in the map, which the next \<open>empty\<close>,
  \<open>dispatch\<close>, \<open>fire\<close> or \<open>drop\<close> dereferences.
\<close>

theorem has_queue_breaks_bus:
  "has_queue k [] = (False, [(k, None)]) \<and> bus_empty [(k, None)] = Inl Null_Dereference \<and>
   fire h k e ([(k, None)], w) = Inl Null_Dereference \<and> bus_drop [(k, None)] = Inl Null_Dereference \<and>
   dispatch h clock 0 ([(k, None)], w, t) = Some (Inl Null_Dereference)"
  by (simp add: has_queue_def bus_index_def fire_def try_get_def dispatch_def dispatch_loop.simps)

text \<open>
  \<open>dispatch\<close> may return false although no event is left: the deadline is tested after the last
  event was popped.
\<close>

theorem dispatch_false_without_events:
  "\<exists>b' w'. dispatch log_handlers (\<lambda>n. 10 * int n) 5
       ([(5, Some \<lparr>delegates = [(0, create_free 8)], queue = [4]\<rparr>)], [], 0) =
     Some (Inr (False, (b', w', 2))) \<and> pending b' = []"
  using plus_ns_exact [of 0 5]
  by (simp add: is_ns_def k_timepoint_max_def dispatch_def process.simps dispatch_loop.simps queue_empty_def call_order_def
      call_delegate_def log_handlers_def pop_def create_free_def null_delegate_def)

text \<open>
  A timeout as long as the type allows (\<open>nanoseconds::max()\<close>) makes the sum with the time of day
  overflow: with the two's complement value the deadline lies in the past, and \<open>dispatch\<close> gives up
  after the first event.
\<close>

theorem dispatch_overflowing_deadline:
  "\<not> is_ns (1 + k_timepoint_max) \<and> plus_ns 1 k_timepoint_max = - (2 ^ 63) \<and>
   (\<exists>b' w'. dispatch log_handlers (\<lambda>n. 1) k_timepoint_max
       ([(5, Some \<lparr>delegates = [(0, create_free 8)], queue = [4, 6]\<rparr>)], [], 0) =
     Some (Inr (False, (b', w', 2))) \<and> pending b' = [(5, 6)])"
proof -
  have "plus_ns 1 k_timepoint_max = - (2 ^ 63)"
    by (simp add: plus_ns_def k_timepoint_max_def)
  moreover have "dispatch log_handlers (\<lambda>n. 1) k_timepoint_max
       ([(5, Some \<lparr>delegates = [(0, create_free 8)], queue = [4, 6]\<rparr>)], [], 0) =
     Some (Inr (False, ([(5, Some \<lparr>delegates = [(0, create_free 8)], queue = [6]\<rparr>)], [(8, 4)], 2)))"
    unfolding dispatch_def using calculation
    by (simp add: k_timepoint_max_def process.simps dispatch_loop.simps queue_empty_def call_order_def
      call_delegate_def log_handlers_def pop_def create_free_def null_delegate_def)
  ultimately show ?thesis by (simp add: is_ns_def)
qed

text \<open>
  An unstable sort is free to put the newer of two handlers of equal priority in front, so that
  it is called last.
\<close>

theorem equal_priority_order_unspecified:
  "\<exists>srt. is_sorter srt \<and>
     map_option (map_option call_order) (map_of (subscribe srt 5 0 (create_free 8) (subscribe srt 5 0 (create_free 7) [])) 5) =
       Some (Some [create_free 7, create_free 8])"
  by (rule exI [of _ "\<lambda>xs. sort_key fst (rev xs)"])
    (simp add: is_sorter_def bus_eval)

text \<open>The handlers subscribed to an event type.\<close>

definition subscribers :: "'e bus \<Rightarrow> hash_t \<Rightarrow> delegate set" where
  "subscribers b k = (case map_of b k of Some (Some q) \<Rightarrow> set (call_order q) | _ \<Rightarrow> {})"

lemma subscribers_get_or_create:
  assumes "wf_bus b" "get_or_create k b = (q, b')"
  shows "subscribers b k = set (map snd (delegates q))" "wf_delegates (delegates q)"
proof -
  note g = get_or_create_ok [OF assms]
  show "subscribers b k = set (map snd (delegates q))"
    using g(3) by (elim disjE) (simp_all add: subscribers_def call_order_def new_queue_def)
  have "map_of b' k = Some (Some q)" by (simp add: g(2))
  from wf_bus_entry [OF g(1) this] show "wf_delegates (delegates q)" by blast
qed

lemma subscribers_upd:
  assumes "wf_bus b" "get_or_create k b = (q, b')"
  shows "subscribers (AList.update k (Some q') b') = (subscribers b)(k := set (map snd (delegates q')))"
  using get_or_create_ok(2) [OF assms]
  by (auto simp: fun_eq_iff subscribers_def update_conv' call_order_def split: option.splits)

text \<open>
  C15. \<open>subscribe\<close> adds exactly the given handler to exactly the given event type; \<open>unsubscribe\<close>
  reports whether the handler was subscribed and removes exactly it. Unsubscribing a handler that
  was just subscribed for the first time succeeds and restores the subscribers of every type.
\<close>

theorem subscribe_unsubscribe:
  assumes "is_sorter srt" and "reachable srt h clock (b, w, t)"
  shows "subscribers (subscribe srt k p (to_delegate r) b) =
       (subscribers b)(k := insert (to_delegate r) (subscribers b k)) \<and>
     fst (unsubscribe k (to_delegate r) b) = (to_delegate r \<in> subscribers b k) \<and>
     subscribers (snd (unsubscribe k (to_delegate r) b)) =
       (subscribers b)(k := subscribers b k - {to_delegate r}) \<and>
     (to_delegate r \<notin> subscribers b k \<longrightarrow>
        fst (unsubscribe k (to_delegate r) (subscribe srt k p (to_delegate r) b)) \<and>
        subscribers (snd (unsubscribe k (to_delegate r) (subscribe srt k p (to_delegate r) b))) = subscribers b)"
proof -
  let ?d = "to_delegate r"
  have sub: "subscribers (subscribe srt k p ?d b) = (subscribers b)(k := insert ?d (subscribers b k))"
    if "wf_bus b" for b :: "'a bus"
  proof -
    obtain q b' where g: "get_or_create k b = (q, b')" by fastforce
    note q = subscribers_get_or_create [OF that g]
    from queue_subscribe_wf(2) [OF assms(1) q(2) to_delegate_bound] q(1) show ?thesis
      by (simp add: subscribe_def g subscribers_upd [OF that g])
  qed
  have unsub: "fst (unsubscribe k ?d b) = (?d \<in> subscribers b k) \<and>
      subscribers (snd (unsubscribe k ?d b)) = (subscribers b)(k := subscribers b k - {?d})"
    if "wf_bus b" for b :: "'a bus"
  proof -
    obtain q b' where g: "get_or_create k b = (q, b')" by fastforce
    note q = subscribers_get_or_create [OF that g]
    from queue_unsubscribe_wf(2,3) [OF q(2), of ?d] q(1) show ?thesis
      by (simp add: unsubscribe_def g split_beta subscribers_upd [OF that g])
  qed
  have wf: "wf_bus b" using reachable_wf [OF assms] by simp
  note s = sub [OF wf] and u = unsub [OF wf] and su = unsub [OF subscribe_wf [OF assms(1) wf to_delegate_bound [of r]], of k p]
  show ?thesis using s u su by (auto simp: fun_eq_iff)
qed

theorem subscribe_unsubscribe_witness:
  "subscribers (subscribe stable_sort 5 2 (to_delegate (Member_Function 9 1))
      [(5 :: hash_t, Some \<lparr>delegates = [(1, create_free 7), (3, create_free 8)], queue = [] :: nat list\<rparr>)]) 5 =
     {create_member 9 1, create_free 7, create_free 8}"
  using subscribe_unsubscribe [OF stable_sort_sorts two_subscribed, of 5 2 "Member_Function 9 1"]
  by (auto simp: subscribers_def call_order_def)

end
