(* ===== verification/Memory_Area.thy ===== *)
theory Memory_Area
  imports Kibble_Prelude
begin

unbundle bit_operations_syntax

text \<open>
  The memory resource of the arenas: alignment padding (\<open>memory/util/alignment.h\<close>), a byte
  addressed memory, and \<open>kb::memory::HeapArea\<close> (\<open>memory/heap_area.h\<close>, \<open>memory/heap_area.cpp\<close>).
  Pointers and sizes are 64-bit words. The build always defines \<open>K_USE_MEM_MARK_PADDING\<close> and
  \<open>K_USE_MEM_AREA_MEMSET\<close> (\<open>config.h.in\<close>), so the marking of padded zones is part of the model.
\<close>

section \<open>Alignment\<close>

definition k_cache_line_size :: u64 where
  "k_cache_line_size = 64"

definition alignment_padding :: "u64 \<Rightarrow> u64 \<Rightarrow> fault + u64" where
  "alignment_padding base_address alignment =
     (if alignment = 0 then Inl Division_By_Zero
      else if base_address mod alignment = 0 then Inr 0
      else (let multiplier = base_address div alignment + 1;
                aligned_address = multiplier * alignment
            in Inr (aligned_address - base_address)))"

text \<open>The padding as a natural number.\<close>

definition padding_nat :: "nat \<Rightarrow> nat \<Rightarrow> nat" where
  "padding_nat a al = (if a mod al = 0 then 0 else al - a mod al)"

lemma round_up_div: "0 < al \<Longrightarrow> (a div al + 1) * al = a + (al - a mod al)" for a al :: nat
  unfolding add_mult_distrib nat_mult_1
  using mod_less_divisor [of al a] div_mult_mod_eq [of a al] by linarith

lemma padding_nat_props:
  assumes "0 < al"
  shows "padding_nat a al < al" "(a + padding_nat a al) mod al = 0"
proof -
  show "padding_nat a al < al" using assms mod_less_divisor [OF assms, of a] by (auto simp: padding_nat_def)
  show "(a + padding_nat a al) mod al = 0"
    using round_up_div [OF assms, of a] by (auto simp: padding_nat_def simp del: add_mult_distrib mult_Suc)
      (metis mod_mult_self2_is_0 mult.commute)
qed

lemma alignment_padding_nat:
  assumes "alignment \<noteq> 0"
  shows "\<exists>p. alignment_padding a alignment = Inr p \<and> unat p = padding_nat (unat a) (unat alignment)"
proof (cases "a mod alignment = 0")
  case True
  then have "unat a mod unat alignment = 0" by (metis unat_mod unat_0)
  with True assms show ?thesis by (simp add: alignment_padding_def padding_nat_def)
next
  case False
  define A L where "A = unat a" and "L = unat alignment"
  have L: "0 < L" using assms by (simp add: L_def unat_gt_0)
  have mod: "A mod L \<noteq> 0" using False by (metis A_def L_def unat_mod unat_eq_zero)
  note up = round_up_div [OF L, of A]
  have "(a div alignment + 1) * alignment = word_of_nat ((A div L + 1) * L)"
    by (simp add: A_def L_def algebra_simps flip: unat_div)
  also have "\<dots> - a = word_of_nat (L - A mod L)"
    unfolding up by (simp add: A_def L_def)
  finally have "alignment_padding a alignment = Inr (word_of_nat (L - A mod L))"
    using assms False by (simp add: alignment_padding_def)
  moreover have "unat alignment < 2 ^ LENGTH(64)" by (rule unsigned_less)
  then have "L - A mod L < 2 ^ 64" by (simp add: L_def)
  ultimately show ?thesis using mod by (auto simp: padding_nat_def A_def L_def unat_word_of_nat)
qed

section \<open>Byte memory\<close>

type_synonym memory = "nat \<Rightarrow> u8"

definition mem_fill :: "nat \<Rightarrow> nat \<Rightarrow> u8 \<Rightarrow> memory \<Rightarrow> memory" where
  "mem_fill a n v m = (\<lambda>x. if a \<le> x \<and> x < a + n then v else m x)"

definition mem_write :: "nat \<Rightarrow> u8 list \<Rightarrow> memory \<Rightarrow> memory" where
  "mem_write a bs m = (\<lambda>x. if a \<le> x \<and> x < a + length bs then bs ! (x - a) else m x)"

definition mem_read :: "nat \<Rightarrow> nat \<Rightarrow> memory \<Rightarrow> u8 list" where
  "mem_read a n m = map (\<lambda>i. m (a + i)) [0..<n]"

lemma mem_read_length [simp]: "length (mem_read a n m) = n"
  by (simp add: mem_read_def)

lemma mem_read_write [simp]: "n = length bs \<Longrightarrow> mem_read a n (mem_write a bs m) = bs"
  by (rule nth_equalityI) (simp_all add: mem_read_def mem_write_def)

lemma mem_read_write_disjoint:
  "a + n \<le> b \<or> b + length bs \<le> a \<Longrightarrow> mem_read a n (mem_write b bs m) = mem_read a n m"
  by (auto simp: mem_read_def mem_write_def)

section \<open>Words in memory\<close>

text \<open>The object representation of a pointer or a \<open>size_t\<close>, least significant byte first.\<close>

definition u64_bytes :: "u64 \<Rightarrow> u8 list" where
  "u64_bytes x = map (\<lambda>i. ucast (drop_bit (8 * i) x)) [0..<8]"

definition bytes_u64 :: "u8 list \<Rightarrow> u64" where
  "bytes_u64 bs = fold (\<lambda>b acc. push_bit 8 acc OR ucast b) (rev bs) 0"

definition load64 :: "nat \<Rightarrow> memory \<Rightarrow> u64" where
  "load64 a m = bytes_u64 (mem_read a 8 m)"

definition store64 :: "nat \<Rightarrow> u64 \<Rightarrow> memory \<Rightarrow> memory" where
  "store64 a v = mem_write a (u64_bytes v)"

lemma u64_bytes_length [simp]: "length (u64_bytes x) = 8"
  by (simp add: u64_bytes_def)

lemma bit_little_endian:
  "bit (foldr (\<lambda>b acc. push_bit 8 acc OR ucast b) bs (0 :: 'a::len word)) n \<longleftrightarrow>
     n < LENGTH('a) \<and> n < 8 * length bs \<and> bit ((bs :: u8 list) ! (n div 8)) (n mod 8)"
proof (induction bs arbitrary: n)
  case (Cons b bs)
  show ?case
  proof (cases "n < 8")
    case True
    then show ?thesis by (auto simp: bit_or_iff bit_push_bit_iff bit_ucast_iff)
  next
    case False
    then have "n div 8 = Suc ((n - 8) div 8)" "n mod 8 = (n - 8) mod 8"
      by (simp_all add: le_div_geq le_mod_geq)
    moreover have "\<not> bit b n" using False bit_imp_le_length [of b n] by auto
    ultimately show ?thesis using False Cons.IH [of "n - 8"]
      by (auto simp: bit_or_iff bit_push_bit_iff bit_ucast_iff)
  qed
qed simp

lemma bytes_u64_u64_bytes: "bytes_u64 (u64_bytes x) = x"
proof (rule bit_word_eqI)
  fix n assume "n < LENGTH(64)"
  then have n: "n < 64" "n div 8 < 8" "n mod 8 < 8" "8 * (n div 8) + n mod 8 = n" by auto
  have "bit (bytes_u64 (u64_bytes x)) n \<longleftrightarrow> bit (u64_bytes x ! (n div 8)) (n mod 8)"
    unfolding bytes_u64_def foldr_conv_fold [symmetric] bit_little_endian using n(1) by simp
  also have "\<dots> \<longleftrightarrow> bit x n"
    using n by (simp add: u64_bytes_def bit_ucast_iff bit_drop_bit_eq)
  finally show "bit (bytes_u64 (u64_bytes x)) n = bit x n" .
qed

lemma u64_bytes_bytes_u64:
  assumes "length bs = 8"
  shows "u64_bytes (bytes_u64 bs) = bs"
proof (rule nth_equalityI)
  fix i assume "i < length (u64_bytes (bytes_u64 bs))"
  then have i: "i < 8" by simp
  have "bit (bytes_u64 bs) (8 * i + j) \<longleftrightarrow> bit (bs ! i) j" if "j < 8" for j
    unfolding bytes_u64_def foldr_conv_fold [symmetric] bit_little_endian using i that assms by auto
  with i show "u64_bytes (bytes_u64 bs) ! i = bs ! i"
    by (intro bit_word_eqI) (simp add: u64_bytes_def bit_ucast_iff bit_drop_bit_eq)
qed (use assms in simp)

lemma load64_store64 [simp]: "load64 a (store64 a v m) = v"
  by (simp add: load64_def store64_def bytes_u64_u64_bytes)

lemma load64_frame: "(\<And>x. a \<le> x \<Longrightarrow> x < a + 8 \<Longrightarrow> m' x = m x) \<Longrightarrow> load64 a m' = load64 a m"
  unfolding load64_def mem_read_def by (intro arg_cong [of _ _ bytes_u64] map_cong) auto

lemma store64_frame: "x < a \<or> a + 8 \<le> x \<Longrightarrow> store64 a v m x = m x"
  by (auto simp: store64_def mem_write_def)

section \<open>Chunks\<close>

text \<open>A chunk of memory: address and size.\<close>

type_synonym chunk = "nat \<times> nat"

definition chunk_end :: "chunk \<Rightarrow> nat" where
  "chunk_end = (\<lambda>(p, n). p + n)"

definition chunk_bytes :: "chunk \<Rightarrow> nat set" where
  "chunk_bytes c = {fst c..<chunk_end c}"

definition k_alignment_padding_mark :: u8 where
  "k_alignment_padding_mark = 0xd0"

section \<open>The interface of the allocators\<close>

text \<open>
  What a \<open>MemoryArena\<close> relies on: \<open>alloc\<close> (size, alignment, offset of the user pointer) and
  \<open>dealloc\<close> of an allocation policy, on the state of the allocator and the memory it manages.
  \<open>inv\<close> relates them to the set of live chunks. Live chunks are apart; a new chunk is aligned and
  fresh; no operation touches the bytes of another live chunk; and what the owner of a chunk writes
  into it does not disturb the allocator. The promises hold for the requests an allocator is made for, \<open>request\<close>.
\<close>

definition good_request :: "u64 \<Rightarrow> u64 \<Rightarrow> u64 \<Rightarrow> bool" where
  "good_request sz al off \<longleftrightarrow> 0 < sz \<and> unat sz < 2 ^ 62 \<and> 0 < al \<and> unat al < 2 ^ 60 \<and> unat off < 2 ^ 60"

locale arena_allocator =
  fixes alloc :: "u64 \<Rightarrow> u64 \<Rightarrow> u64 \<Rightarrow> 'a \<times> memory \<Rightarrow> fault + u64 \<times> 'a \<times> memory"
    and dealloc :: "u64 \<Rightarrow> 'a \<times> memory \<Rightarrow> fault + 'a \<times> memory"
    and inv :: "'a \<times> memory \<Rightarrow> chunk set \<Rightarrow> bool"
    and request :: "u64 \<Rightarrow> u64 \<Rightarrow> u64 \<Rightarrow> bool"
  assumes inv_finite: "inv s live \<Longrightarrow> finite live"
    and inv_apart: "inv s live \<Longrightarrow> c \<in> live \<Longrightarrow> d \<in> live \<Longrightarrow> c \<noteq> d \<Longrightarrow> chunk_bytes c \<inter> chunk_bytes d = {}"
    and alloc_fresh: "inv (a, m) live \<Longrightarrow> request sz al off \<Longrightarrow> alloc sz al off (a, m) = Inr (p, a', m') \<Longrightarrow>
      p \<noteq> 0 \<and> unat p + unat sz < 2 ^ 63 \<and> (unat p + unat off) mod unat al = 0 \<and> (unat p, unat sz) \<notin> live"
    and alloc_inv: "inv (a, m) live \<Longrightarrow> request sz al off \<Longrightarrow> alloc sz al off (a, m) = Inr (p, a', m') \<Longrightarrow>
      inv (a', m') (insert (unat p, unat sz) live)"
    and alloc_frame: "inv (a, m) live \<Longrightarrow> request sz al off \<Longrightarrow> alloc sz al off (a, m) = Inr (p, a', m') \<Longrightarrow>
      c \<in> live \<Longrightarrow> x \<in> chunk_bytes c \<Longrightarrow> m' x = m x"
    and dealloc_ok: "inv (a, m) live \<Longrightarrow> (unat p, n) \<in> live \<Longrightarrow>
      \<exists>a' m'. dealloc p (a, m) = Inr (a', m') \<and> inv (a', m') (live - {(unat p, n)}) \<and>
        (\<forall>c \<in> live - {(unat p, n)}. \<forall>x \<in> chunk_bytes c. m' x = m x)"
    and write_ok: "inv (a, m) live \<Longrightarrow> c \<in> live \<Longrightarrow> (\<And>x. x \<notin> chunk_bytes c \<Longrightarrow> m' x = m x) \<Longrightarrow> inv (a, m') live"

section \<open>HeapArea\<close>

record slab_descriptor =
  slab_name :: string
  slab_begin :: u64
  slab_end :: u64
  slab_size :: u64

record heap_area =
  area_size :: u64
  area_begin :: u64
  area_head :: u64
  items :: "slab_descriptor list"

text \<open>The constructor: \<open>addr\<close> is what \<open>new uint8_t[size]\<close> returned.\<close>

definition k_area_memset_byte :: u8 where
  "k_area_memset_byte = 0"

definition new_area :: "u64 \<Rightarrow> u64 \<Rightarrow> memory \<Rightarrow> heap_area \<times> memory" where
  "new_area addr sz m =
     (\<lparr>area_size = sz, area_begin = addr, area_head = addr, items = []\<rparr>,
      mem_fill (unat addr) (unat sz) k_area_memset_byte m)"

definition area_end :: "heap_area \<Rightarrow> u64" where
  "area_end ha = area_begin ha + area_size ha + 1"

definition area_range :: "heap_area \<Rightarrow> u64 \<times> u64" where
  "area_range ha = (area_begin ha, area_end ha)"

definition free_size :: "heap_area \<Rightarrow> u64" where
  "free_size ha = area_end ha - area_head ha"

definition used_size :: "heap_area \<Rightarrow> u64" where
  "used_size ha = area_head ha - area_begin ha"

definition area_fill :: "u8 \<Rightarrow> heap_area \<times> memory \<Rightarrow> heap_area \<times> memory" where
  "area_fill filler = (\<lambda>(ha, m). (ha, mem_fill (unat (area_begin ha)) (unat (area_size ha)) filler m))"

definition require_slab ::
  "u64 \<Rightarrow> string \<Rightarrow> heap_area \<times> memory \<Rightarrow> fault + (u64 \<times> u64) \<times> heap_area \<times> memory" where
  "require_slab sz name = (\<lambda>(ha, m).
     res_bind (alignment_padding (area_head ha) k_cache_line_size) (\<lambda>padding.
     res_bind (k_assert (area_head ha + sz + padding < area_end ha)) (\<lambda>_.
     let m' = mem_fill (unat (area_head ha)) (unat padding) k_alignment_padding_mark m;
         rng = (area_head ha + padding, area_head ha + padding + sz + 1)
     in Inr (rng, ha\<lparr>area_head := area_head ha + (sz + padding),
          items := items ha @ [\<lparr>slab_name = name, slab_begin = fst rng, slab_end = snd rng,
                                slab_size = sz + padding\<rparr>]\<rparr>, m'))))"

section \<open>Invariant of the area\<close>

text \<open>
  The area lies in the lower half of the address space, as every object of a process does. The
  bytes of a slab are those before \<open>end - 1\<close>: the second pointer of its range is one too far.
\<close>

definition slab_last :: "slab_descriptor \<Rightarrow> nat" where
  "slab_last it = unat (slab_end it) - 1"

definition wf_area :: "heap_area \<Rightarrow> bool" where
  "wf_area ha \<longleftrightarrow> unat (area_begin ha) + unat (area_size ha) < 2 ^ 62 \<and>
     unat (area_begin ha) \<le> unat (area_head ha) \<and>
     unat (area_head ha) \<le> unat (area_begin ha) + unat (area_size ha) \<and>
     sorted_wrt (\<lambda>i j. slab_last i \<le> unat (slab_begin j)) (items ha) \<and>
     (\<forall>it \<in> set (items ha). unat (area_begin ha) \<le> unat (slab_begin it) \<and> unat (slab_begin it) mod 64 = 0 \<and>
        unat (slab_begin it) \<le> slab_last it \<and> slab_last it \<le> unat (area_head ha))"

lemma new_area_wf: "unat addr + unat sz < 2 ^ 62 \<Longrightarrow> wf_area (fst (new_area addr sz m))"
  by (simp add: wf_area_def new_area_def)

lemma head_padding:
  obtains p where "alignment_padding a k_cache_line_size = Inr p" "unat p = padding_nat (unat a) 64" "unat p < 64"
    "(unat a + unat p) mod 64 = 0"
proof -
  from alignment_padding_nat [of k_cache_line_size a] obtain p where
    "alignment_padding a k_cache_line_size = Inr p" "unat p = padding_nat (unat a) 64"
    by (auto simp: k_cache_line_size_def)
  with padding_nat_props [of 64 "unat a"] that show thesis by simp
qed

lemma require_slab_fits:
  fixes sz :: u64
  assumes "wf_area ha" "unat sz < 2 ^ 62"
  defines "b \<equiv> unat (area_head ha) + padding_nat (unat (area_head ha)) 64"
  shows "if b + unat sz \<le> unat (area_begin ha) + unat (area_size ha)
     then \<exists>it ha' m'. require_slab sz name (ha, m) = Inr ((slab_begin it, slab_end it), ha', m') \<and>
       unat (slab_begin it) = b \<and> unat (slab_end it) = b + unat sz + 1 \<and> slab_name it = name \<and>
       ha' = ha\<lparr>area_head := area_head ha', items := items ha @ [it]\<rparr> \<and>
       unat (area_head ha') = b + unat sz \<and>
       m' = mem_fill (unat (area_head ha)) (padding_nat (unat (area_head ha)) 64) k_alignment_padding_mark m
     else require_slab sz name (ha, m) = Inl Assertion_Failed"
proof -
  obtain p where p: "alignment_padding (area_head ha) k_cache_line_size = Inr p"
    "unat p = padding_nat (unat (area_head ha)) 64" "unat p < 64" by (rule head_padding)
  have h: "unat (area_head ha) < 2 ^ 62" "unat (area_begin ha) + unat (area_size ha) < 2 ^ 62"
    using assms(1) by (auto simp: wf_area_def)
  have u: "unat (area_head ha + sz + p) = b + unat sz" "unat (area_head ha + p) = b"
    "unat (area_head ha + p + sz + 1) = b + unat sz + 1" "unat (area_head ha + (sz + p)) = b + unat sz"
    "unat (area_end ha) = unat (area_begin ha) + unat (area_size ha) + 1"
    using h p(2,3) assms(2) by (simp_all add: unat_word_ariths area_end_def b_def)
  have lt: "area_head ha + sz + p < area_end ha \<longleftrightarrow> b + unat sz \<le> unat (area_begin ha) + unat (area_size ha)"
    by (simp add: word_less_nat_alt u less_Suc_eq_le)
  let ?it = "\<lparr>slab_name = name, slab_begin = area_head ha + p, slab_end = area_head ha + p + sz + 1, slab_size = sz + p\<rparr>"
  show ?thesis
  proof (cases "b + unat sz \<le> unat (area_begin ha) + unat (area_size ha)")
    case True
    then have "require_slab sz name (ha, m) = Inr ((slab_begin ?it, slab_end ?it),
        ha\<lparr>area_head := area_head ha + (sz + p), items := items ha @ [?it]\<rparr>,
        mem_fill (unat (area_head ha)) (padding_nat (unat (area_head ha)) 64) k_alignment_padding_mark m)"
      by (simp add: require_slab_def p lt Let_def)
    with True u show ?thesis by (intro if_P [THEN iffD2]) (auto intro!: exI [of _ ?it])
  next
    case False
    then show ?thesis by (simp add: require_slab_def p lt)
  qed
qed

lemma require_slab_wf:
  assumes "wf_area ha" "unat sz < 2 ^ 62" "require_slab sz name (ha, m) = Inr (rng, ha', m')"
  shows "wf_area ha'"
proof -
  define b where "b = unat (area_head ha) + padding_nat (unat (area_head ha)) 64"
  note r = require_slab_fits [OF assms(1,2), folded b_def, of name m]
  have fits: "b + unat sz \<le> unat (area_begin ha) + unat (area_size ha)"
    using r assms(3) by (auto split: if_splits)
  then obtain it where it: "unat (slab_begin it) = b" "unat (slab_end it) = b + unat sz + 1"
    "ha' = ha\<lparr>area_head := area_head ha', items := items ha @ [it]\<rparr>" "unat (area_head ha') = b + unat sz"
    using r assms(3) by auto
  have "items ha' = items ha @ [it]" "area_begin ha' = area_begin ha" "area_size ha' = area_size ha"
    by (subst it(3), simp)+
  moreover have b: "b mod 64 = 0" "unat (area_head ha) \<le> b"
    using padding_nat_props(2) [of 64 "unat (area_head ha)"] by (simp_all add: b_def)
  moreover have "slab_last x \<le> b" "slab_last x \<le> b + unat sz" if "x \<in> set (items ha)" for x
    using assms(1) that b(2) by (auto simp: wf_area_def intro: order_trans trans_le_add1)
  moreover have "slab_last it = b + unat sz" using it(2) by (simp add: slab_last_def)
  ultimately show ?thesis
    using assms(1) it(1,4) fits by (auto simp: wf_area_def sorted_wrt_append)
qed

text \<open>A sequence of requests (size and name), stopping at the first one that fails.\<close>

definition slab_step :: "u64 \<times> string \<Rightarrow> heap_area \<times> memory \<Rightarrow> fault + heap_area \<times> memory" where
  "slab_step = (\<lambda>(sz, name) s. map_sum id snd (require_slab sz name s))"

lemma slab_run_wf:
  "wf_area (fst s) \<Longrightarrow> \<forall>(sz, name) \<in> set rs. unat sz < 2 ^ 62 \<Longrightarrow> run_ops slab_step rs s = Inr s' \<Longrightarrow> wf_area (fst s')"
proof (induction rs arbitrary: s)
  case (Cons r rs)
  obtain sz name where r: "r = (sz, name)" by fastforce
  from Cons.prems(3) obtain s1 where s1: "slab_step r s = Inr s1" "run_ops slab_step rs s1 = Inr s'"
    by (auto simp: res_bind_eq_Inr)
  then obtain rng where "require_slab sz name (fst s, snd s) = Inr (rng, fst s1, snd s1)"
    by (cases "require_slab sz name s") (auto simp: slab_step_def r)
  from require_slab_wf [OF Cons.prems(1) _ this] Cons.prems(2) r have "wf_area (fst s1)" by auto
  from Cons.IH [OF this _ s1(2)] Cons.prems(2) show ?case by auto
qed simp

section \<open>Properties of the area\<close>

text \<open>
  \<open>alignment_padding\<close> returns, for every address and every non-zero alignment, the least
  padding that makes the address a multiple of the alignment; the intermediate products may wrap
  around without harm.
\<close>

theorem alignment_padding_least:
  assumes "alignment \<noteq> 0"
  shows "\<exists>p. alignment_padding a alignment = Inr p \<and> unat p < unat alignment \<and>
     (unat a + unat p) mod unat alignment = 0 \<and>
     (\<forall>n. (unat a + n) mod unat alignment = 0 \<longrightarrow> unat p \<le> n)"
proof -
  obtain p where p: "alignment_padding a alignment = Inr p" "unat p = padding_nat (unat a) (unat alignment)"
    using alignment_padding_nat [OF assms] by blast
  have L: "0 < unat alignment" using assms by (simp add: unat_gt_0)
  have "padding_nat (unat a) (unat alignment) \<le> n" if n: "(unat a + n) mod unat alignment = 0" for n
  proof (rule ccontr)
    assume less: "\<not> padding_nat (unat a) (unat alignment) \<le> n"
    then have "unat a mod unat alignment + n < unat alignment" "unat a mod unat alignment \<noteq> 0"
      by (auto simp: padding_nat_def split: if_splits)
    then have "(unat a + n) mod unat alignment = unat a mod unat alignment + n"
      by (metis mod_add_left_eq mod_less)
    with n \<open>unat a mod unat alignment \<noteq> 0\<close> show False by simp
  qed
  with p padding_nat_props [OF L, of "unat a"] show ?thesis by auto
qed

theorem alignment_padding_least_witness:
  "\<exists>p. alignment_padding (-3) 64 = Inr p \<and> unat p < 64"
  using alignment_padding_least [of 64 "-3"] by auto

text \<open>
  C25. \<open>require_slab\<close> succeeds exactly when the padded request fits in the area; it then returns
  the first cache-line-aligned address at or after the head. After any sequence of requests, the
  slabs of the journal are aligned, lie inside the area and do not overlap (a slab being its
  first \<open>size\<close> bytes).
\<close>

theorem slabs_disjoint:
  assumes "unat addr + unat total_size < 2 ^ 62" and "\<forall>(sz, name) \<in> set rs. unat sz < 2 ^ 62"
    and "run_ops slab_step rs (new_area addr total_size m0) = Inr (ha, m)" and "unat sz < 2 ^ 62"
  shows "sorted_wrt (\<lambda>i j. slab_last i \<le> unat (slab_begin j)) (items ha) \<and>
     (\<forall>it \<in> set (items ha). unat (area_begin ha) \<le> unat (slab_begin it) \<and> unat (slab_begin it) mod 64 = 0 \<and>
        slab_last it \<le> unat (area_begin ha) + unat (area_size ha)) \<and>
     (if unat (area_head ha) + padding_nat (unat (area_head ha)) 64 + unat sz \<le> unat (area_begin ha) + unat (area_size ha)
      then \<exists>b e s'. require_slab sz name (ha, m) = Inr ((b, e), s') \<and>
        unat b = unat (area_head ha) + padding_nat (unat (area_head ha)) 64
      else require_slab sz name (ha, m) = Inl Assertion_Failed)"
proof -
  have wf: "wf_area ha" using slab_run_wf [OF _ assms(2,3)] new_area_wf [OF assms(1)] by simp
  moreover have "slab_last it \<le> unat (area_begin ha) + unat (area_size ha)" if "it \<in> set (items ha)" for it
    using wf that by (auto simp: wf_area_def dest!: bspec)
  ultimately show ?thesis
    using require_slab_fits [OF wf assms(4), of name m] by (auto simp: wf_area_def split: if_splits)
qed

theorem slabs_disjoint_witness:
  "\<exists>ha m. run_ops slab_step [(100, ''a''), (64, ''b'')] (new_area 4096 1024 (\<lambda>_. 0)) = Inr (ha, m) \<and>
     map (\<lambda>it. (slab_begin it, slab_end it)) (items ha) = [(4096, 4197), (4224, 4289)] \<and>
     sorted_wrt (\<lambda>i j. slab_last i \<le> unat (slab_begin j)) (items ha)"
proof -
  obtain ha m where run: "run_ops slab_step [(100, ''a''), (64, ''b'')] (new_area 4096 1024 (\<lambda>_. 0)) = Inr (ha, m)"
    "map (\<lambda>it. (slab_begin it, slab_end it)) (items ha) = [(4096, 4197), (4224, 4289)]"
    by (simp add: slab_step_def new_area_def require_slab_def alignment_padding_def k_cache_line_size_def area_end_def)
  with slabs_disjoint [of 4096 1024 "[(100, ''a''), (64, ''b'')]" "\<lambda>_. 0" ha m 0] show ?thesis by auto
qed

text \<open>
  The ranges that \<open>require_slab\<close> returns do overlap: the end of the first range is past the
  beginning of the second one.
\<close>

theorem slab_ranges_overlap:
  "map_sum id (\<lambda>(ha, m). map (\<lambda>it. (slab_begin it, slab_end it)) (items ha))
     (run_ops slab_step [(64, ''a''), (64, ''b'')] (new_area 4096 1024 (\<lambda>_. 0))) =
   Inr [(4096, 4161), (4160, 4225)]"
  by (simp add: slab_step_def new_area_def require_slab_def alignment_padding_def k_cache_line_size_def area_end_def)

end
