(* ===== verification/Linear_Memory.thy ===== *)
theory Linear_Memory
  imports Memory_Area
begin

unbundle bit_operations_syntax

text \<open>
  Linear allocation on a slab: \<open>kb::memory::LinearAllocator\<close> (\<open>memory/allocator/linear_allocator\<close>)
  and \<open>kb::memory::LinearBuffer\<close> (\<open>memory/linear_buffer.h\<close>).
\<close>

section \<open>LinearAllocator\<close>

record linear_allocator =
  la_begin :: u64
  la_end :: u64
  la_head :: u32

definition new_linear_allocator ::
  "u64 \<Rightarrow> string \<Rightarrow> heap_area \<times> memory \<Rightarrow> fault + linear_allocator \<times> heap_area \<times> memory" where
  "new_linear_allocator sz name s =
     res_bind (require_slab sz name s) (\<lambda>((b, e), s').
       Inr (\<lparr>la_begin = b, la_end = e, la_head = 0\<rparr>, s'))"

text \<open>
  The head is a 32-bit offset; \<open>head_ += padding + size\<close> converts the sum back to 32 bits.
\<close>

definition linear_allocate ::
  "u64 \<Rightarrow> u64 \<Rightarrow> u64 \<Rightarrow> linear_allocator \<times> memory \<Rightarrow> fault + u64 \<times> linear_allocator \<times> memory" where
  "linear_allocate sz alignment offset = (\<lambda>(la, m).
     let current = la_begin la + ucast (la_head la) in
     res_bind (alignment_padding (current + offset) alignment) (\<lambda>padding.
     if current + padding + sz > la_end la then Inl Assertion_Failed
     else (let m' = mem_fill (unat current) (unat padding) k_alignment_padding_mark m
           in Inr (current + padding, la\<lparr>la_head := ucast (ucast (la_head la) + (padding + sz))\<rparr>, m'))))"

definition linear_reset :: "linear_allocator \<Rightarrow> linear_allocator" where
  "linear_reset la = la\<lparr>la_head := 0\<rparr>"

definition linear_deallocate :: "u64 \<Rightarrow> linear_allocator \<Rightarrow> linear_allocator" where
  "linear_deallocate ptr la = la"

definition linear_total_size :: "linear_allocator \<Rightarrow> u64" where
  "linear_total_size la = la_end la - la_begin la"

definition linear_used_size :: "linear_allocator \<Rightarrow> u64" where
  "linear_used_size la = ucast (la_head la)"

text \<open>
  A client: it asks for chunks (size, alignment, offset of the user pointer) and keeps the chunks
  it received since the last reset.
\<close>

datatype linear_op = Allocate u64 u64 u64 | Reset

fun linear_step :: "linear_op \<Rightarrow> (linear_allocator \<times> memory) \<times> chunk list \<Rightarrow>
   fault + (linear_allocator \<times> memory) \<times> chunk list" where
  "linear_step (Allocate sz al off) (s, cs) =
     res_bind (linear_allocate sz al off s) (\<lambda>(p, s'). Inr (s', cs @ [(unat p, unat sz)]))"
| "linear_step Reset ((la, m), cs) = Inr ((linear_reset la, m), [])"

text \<open>
  Invariant: the chunks follow each other between the beginning and the head. It needs blocks
  smaller than 4 GiB, because of the width of the head.
\<close>

definition la_pos :: "linear_allocator \<Rightarrow> nat" where
  "la_pos la = unat (la_begin la) + unat (la_head la)"

definition wf_linear :: "linear_allocator \<Rightarrow> chunk list \<Rightarrow> bool" where
  "wf_linear la cs \<longleftrightarrow> unat (la_end la) < 2 ^ 63 \<and> unat (la_begin la) \<le> unat (la_end la) \<and>
     unat (la_end la) - unat (la_begin la) < 2 ^ 32 \<and> la_pos la \<le> unat (la_end la) \<and>
     sorted_wrt (\<lambda>c d. chunk_end c \<le> fst d) cs \<and>
     (\<forall>c \<in> set cs. unat (la_begin la) \<le> fst c \<and> chunk_end c \<le> la_pos la)"

fun modest :: "linear_op \<Rightarrow> bool" where
  "modest (Allocate sz al off) = (unat sz < 2 ^ 62 \<and> 0 < al \<and> unat al < 2 ^ 60 \<and> unat off < 2 ^ 60)"
| "modest Reset = True"

lemma linear_allocate_fits:
  fixes sz al off :: u64
  assumes "wf_linear la cs" "modest (Allocate sz al off)"
  defines "p \<equiv> la_pos la + padding_nat (la_pos la + unat off) (unat al)"
  shows "if p + unat sz \<le> unat (la_end la)
     then \<exists>ptr la' m'. linear_allocate sz al off (la, m) = Inr (ptr, la', m') \<and> unat ptr = p \<and>
       la' = la\<lparr>la_head := la_head la'\<rparr> \<and> la_pos la' = p + unat sz \<and> wf_linear la' (cs @ [(p, unat sz)])
     else linear_allocate sz al off (la, m) = Inl Assertion_Failed"
proof -
  define cur where "cur = la_begin la + ucast (la_head la)"
  have wf: "unat (la_end la) < 2 ^ 63" "unat (la_begin la) \<le> unat (la_end la)"
    "unat (la_end la) - unat (la_begin la) < 2 ^ 32" "la_pos la \<le> unat (la_end la)"
    using assms(1) by (auto simp: wf_linear_def)
  have m: "unat sz < 2 ^ 62" "0 < unat al" "unat al < 2 ^ 60" "unat off < 2 ^ 60"
    using assms(2) by (auto simp: unat_gt_0 word_gt_0)
  have cur: "unat cur = la_pos la"
    using wf by (simp add: cur_def unat_word_ariths ucast_u32_u64 la_pos_def)
  have off: "unat (cur + off) = la_pos la + unat off"
    using wf m(4) by (simp add: unat_word_ariths cur)
  obtain pad where pad: "alignment_padding (cur + off) al = Inr pad"
    "unat pad = padding_nat (la_pos la + unat off) (unat al)"
    using alignment_padding_nat [of al "cur + off"] m(2) off by (auto simp: unat_gt_0)
  have pl: "unat pad < 2 ^ 60" using padding_nat_props(1) [OF m(2)] m(3) pad(2) by (metis order_less_trans)
  have u: "unat (cur + pad) = p" "unat (cur + pad + sz) = p + unat sz"
    using wf m pl by (simp_all add: unat_word_ariths cur p_def pad(2) [symmetric])
  show ?thesis
  proof (cases "p + unat sz \<le> unat (la_end la)")
    case False
    then show ?thesis using u pad(1)
      by (simp add: linear_allocate_def Let_def word_less_nat_alt flip: cur_def)
  next
    case True
    define la' where "la' = la\<lparr>la_head := ucast (ucast (la_head la) + (pad + sz))\<rparr>"
    have "unat (ucast (la_head la) + (pad + sz) :: u64) = unat (la_head la) + unat pad + unat sz"
      using wf m pl by (simp add: unat_word_ariths ucast_u32_u64 la_pos_def)
    moreover have "unat (la_head la) + unat pad + unat sz < 2 ^ 32"
      using True wf by (simp add: p_def pad(2) la_pos_def)
    ultimately have "unat (la_head la') = unat (la_head la) + unat pad + unat sz"
      by (simp add: la'_def ucast_u64_u32)
    then have pos: "la_pos la' = p + unat sz" by (simp add: la_pos_def la'_def p_def pad(2))
    have "p + unat sz \<ge> la_pos la" "la_pos la \<le> p" "unat (la_begin la) \<le> p" by (simp_all add: p_def la_pos_def)
    then have "wf_linear la' (cs @ [(p, unat sz)])"
      using assms(1) True wf pos unfolding wf_linear_def
      by (auto simp: la'_def chunk_end_def sorted_wrt_append intro: order_trans)
    moreover have "linear_allocate sz al off (la, m) = Inr (cur + pad, la',
        mem_fill (unat cur) (unat pad) k_alignment_padding_mark m)"
      using True u pad(1) by (simp add: linear_allocate_def Let_def word_less_nat_alt la'_def flip: cur_def)
    moreover have "la' = la\<lparr>la_head := la_head la'\<rparr>" by (simp add: la'_def)
    ultimately show ?thesis using True u(1) pos by auto
  qed
qed

lemma linear_step_wf:
  assumes "wf_linear (fst (fst x)) (snd x)" "modest op" "linear_step op x = Inr y"
  shows "wf_linear (fst (fst y)) (snd y) \<and> la_begin (fst (fst y)) = la_begin (fst (fst x)) \<and>
     la_end (fst (fst y)) = la_end (fst (fst x))"
proof -
  obtain la m cs where x: "x = ((la, m), cs)" by (metis prod_cases3 surj_pair)
  show ?thesis
  proof (cases op)
    case (Allocate sz al off)
    from linear_allocate_fits [OF assms(1) assms(2) [unfolded Allocate], of m] assms(3) Allocate x show ?thesis
      by (auto simp: res_bind_eq_Inr split: if_splits) (metis linear_allocator.select_convs linear_allocator.update_convs linear_allocator.surjective)+
  next
    case Reset
    with assms x show ?thesis by (auto simp: wf_linear_def linear_reset_def la_pos_def)
  qed
qed

lemma linear_run_wf:
  "wf_linear (fst (fst x)) (snd x) \<Longrightarrow> \<forall>op \<in> set ops. modest op \<Longrightarrow> run_ops linear_step ops x = Inr y \<Longrightarrow>
     wf_linear (fst (fst y)) (snd y) \<and> la_begin (fst (fst y)) = la_begin (fst (fst x)) \<and>
     la_end (fst (fst y)) = la_end (fst (fst x))"
proof (induction ops arbitrary: x)
  case (Cons op ops)
  then obtain z where z: "linear_step op x = Inr z" "run_ops linear_step ops z = Inr y"
    by (auto simp: res_bind_eq_Inr)
  with Cons.IH [of z] linear_step_wf [of x op z] Cons.prems show ?case by auto
qed simp

section \<open>LinearBuffer\<close>

record linear_buffer =
  lb_begin :: u64
  lb_end :: u64
  lb_head :: u64
  debug_name :: string

definition buffer_init ::
  "u64 \<Rightarrow> string \<Rightarrow> heap_area \<times> memory \<Rightarrow> fault + linear_buffer \<times> heap_area \<times> memory" where
  "buffer_init sz name s =
     res_bind (require_slab sz name s) (\<lambda>((b, e), s').
       Inr (\<lparr>lb_begin = b, lb_end = e, lb_head = b, debug_name = name\<rparr>, s'))"

text \<open>
  \<open>write\<close> and \<open>read\<close> report an overrun as a fatal log entry. Whether that ends the process
  depends on the log channel (none for a buffer built by the second constructor) and its policies:
  the parameter \<open>exits\<close>. If it does not, the copy goes on past the end.
\<close>

definition buffer_write :: "bool \<Rightarrow> u8 list \<Rightarrow> linear_buffer \<times> memory \<Rightarrow> fault + linear_buffer \<times> memory" where
  "buffer_write exits source = (\<lambda>(lb, m).
     if lb_head lb + word_of_nat (length source) \<ge> lb_end lb \<and> exits then Inl Fatal_Error
     else Inr (lb\<lparr>lb_head := lb_head lb + word_of_nat (length source)\<rparr>,
               mem_write (unat (lb_head lb)) source m))"

definition buffer_read :: "bool \<Rightarrow> nat \<Rightarrow> linear_buffer \<times> memory \<Rightarrow> fault + u8 list \<times> linear_buffer \<times> memory" where
  "buffer_read exits n = (\<lambda>(lb, m).
     if lb_head lb + word_of_nat n \<ge> lb_end lb \<and> exits then Inl Fatal_Error
     else Inr (mem_read (unat (lb_head lb)) n m, lb\<lparr>lb_head := lb_head lb + word_of_nat n\<rparr>, m))"

text \<open>The object representation of a \<open>uint32_t\<close>, least significant byte first.\<close>

definition u32_bytes :: "u32 \<Rightarrow> u8 list" where
  "u32_bytes x = map (\<lambda>i. ucast (drop_bit (8 * i) x)) [0..<4]"

definition bytes_u32 :: "u8 list \<Rightarrow> u32" where
  "bytes_u32 bs = fold (\<lambda>b acc. push_bit 8 acc OR ucast b) (rev bs) 0"

definition write_str :: "bool \<Rightarrow> u8 list \<Rightarrow> linear_buffer \<times> memory \<Rightarrow> fault + linear_buffer \<times> memory" where
  "write_str exits str s =
     (let str_size = word_of_nat (length str) :: u32 in
      res_bind (buffer_write exits (u32_bytes str_size) s)
        (buffer_write exits (take (unat str_size) str)))"

definition read_str :: "bool \<Rightarrow> linear_buffer \<times> memory \<Rightarrow> fault + u8 list \<times> linear_buffer \<times> memory" where
  "read_str exits s =
     res_bind (buffer_read exits 4 s) (\<lambda>(size_bytes, s1).
       buffer_read exits (unat (bytes_u32 size_bytes)) s1)"

definition buffer_reset :: "linear_buffer \<Rightarrow> linear_buffer" where
  "buffer_reset lb = lb\<lparr>lb_head := lb_begin lb\<rparr>"

definition buffer_seek :: "u64 \<Rightarrow> linear_buffer \<Rightarrow> fault + linear_buffer" where
  "buffer_seek ptr lb =
     res_bind (k_assert (ptr \<ge> lb_begin lb)) (\<lambda>_.
     res_bind (k_assert (ptr < lb_end lb)) (\<lambda>_. Inr (lb\<lparr>lb_head := ptr\<rparr>)))"

lemma u32_bytes_length [simp]: "length (u32_bytes x) = 4"
  by (simp add: u32_bytes_def)

lemma bytes_u32_u32_bytes: "bytes_u32 (u32_bytes x) = x"
proof (rule bit_word_eqI)
  fix n assume "n < LENGTH(32)"
  then have "n < 8 \<or> 8 \<le> n \<and> n < 16 \<or> 16 \<le> n \<and> n < 24 \<or> 24 \<le> n \<and> n < 32" by auto
  moreover have "[0..<4] = [0, 1, 2, 3 :: nat]" by (simp add: upt_rec)
  ultimately show "bit (bytes_u32 (u32_bytes x)) n = bit x n"
    by (elim disjE) (auto simp: bytes_u32_def u32_bytes_def bit_or_iff bit_push_bit_iff bit_ucast_iff
        bit_drop_bit_eq)
qed

text \<open>Writing and reading several strings.\<close>

fun read_strs :: "bool \<Rightarrow> nat \<Rightarrow> linear_buffer \<times> memory \<Rightarrow> fault + u8 list list \<times> linear_buffer \<times> memory" where
  "read_strs exits 0 s = Inr ([], s)"
| "read_strs exits (Suc n) s =
     res_bind (read_str exits s) (\<lambda>(x, s1). res_bind (read_strs exits n s1) (\<lambda>(xs, s2). Inr (x # xs, s2)))"


lemma buffer_write_fits:
  assumes "unat (lb_end lb) < 2 ^ 63" "unat (lb_head lb) + length bs < unat (lb_end lb)"
  shows "\<exists>lb'. buffer_write exits bs (lb, m) = Inr (lb', mem_write (unat (lb_head lb)) bs m) \<and>
     lb' = lb\<lparr>lb_head := lb_head lb'\<rparr> \<and> unat (lb_head lb') = unat (lb_head lb) + length bs"
proof -
  have "unat (lb_head lb + word_of_nat (length bs)) = unat (lb_head lb) + length bs"
    using assms by (simp add: unat_word_ariths unat_word_of_nat)
  with assms(2) show ?thesis by (simp add: buffer_write_def word_le_nat_alt)
qed

lemma buffer_read_fits:
  assumes "unat (lb_end lb) < 2 ^ 63" "unat (lb_head lb) + n < unat (lb_end lb)"
  shows "\<exists>lb'. buffer_read exits n (lb, m) = Inr (mem_read (unat (lb_head lb)) n m, lb', m) \<and>
     lb' = lb\<lparr>lb_head := lb_head lb'\<rparr> \<and> unat (lb_head lb') = unat (lb_head lb) + n"
proof -
  have "unat (lb_head lb + word_of_nat n) = unat (lb_head lb) + n"
    using assms by (simp add: unat_word_ariths unat_word_of_nat)
  with assms(2) show ?thesis by (simp add: buffer_read_def word_le_nat_alt)
qed

text \<open>What a string occupies, and a region of memory that holds some strings one after the other.\<close>

definition str_bytes :: "u8 list \<Rightarrow> u8 list" where
  "str_bytes str = u32_bytes (word_of_nat (length str)) @ str"

lemma str_bytes_length [simp]: "length (str_bytes str) = 4 + length str"
  by (simp add: str_bytes_def)

lemma mem_write_append: "mem_write (a + length xs) ys (mem_write a xs m) = mem_write a (xs @ ys) m"
  by (auto simp: mem_write_def fun_eq_iff nth_append)

lemma mem_read_append: "mem_read a (n + k) m = mem_read a n m @ mem_read (a + n) k m"
  by (rule nth_equalityI) (auto simp: mem_read_def nth_append)

lemma write_str_fits:
  assumes "unat (lb_end lb) < 2 ^ 63" "unat (lb_head lb) + length (str_bytes str) < unat (lb_end lb)"
    "length str < 2 ^ 32"
  shows "\<exists>lb'. write_str exits str (lb, m) = Inr (lb', mem_write (unat (lb_head lb)) (str_bytes str) m) \<and>
     lb' = lb\<lparr>lb_head := lb_head lb'\<rparr> \<and> unat (lb_head lb') = unat (lb_head lb) + length (str_bytes str)"
proof -
  let ?n = "word_of_nat (length str) :: u32"
  have n: "unat ?n = length str" using assms(3) by (simp add: unat_word_of_nat)
  obtain l1 where l1: "buffer_write exits (u32_bytes ?n) (lb, m) = Inr (l1, mem_write (unat (lb_head lb)) (u32_bytes ?n) m)"
    "l1 = lb\<lparr>lb_head := lb_head l1\<rparr>" "unat (lb_head l1) = unat (lb_head lb) + 4"
    using buffer_write_fits [OF assms(1), of "u32_bytes ?n" exits m] assms(2) by auto
  have e1: "lb_end l1 = lb_end lb" by (subst l1(2)) simp
  have "unat (lb_end l1) < 2 ^ 63" "unat (lb_head l1) + length str < unat (lb_end l1)"
    using assms(1,2) l1(3) by (simp_all add: e1)
  from buffer_write_fits [OF this, of exits "mem_write (unat (lb_head lb)) (u32_bytes ?n) m"] obtain l2 where
    l2: "buffer_write exits str (l1, mem_write (unat (lb_head lb)) (u32_bytes ?n) m) =
        Inr (l2, mem_write (unat (lb_head l1)) str (mem_write (unat (lb_head lb)) (u32_bytes ?n) m))"
      "l2 = l1\<lparr>lb_head := lb_head l2\<rparr>" "unat (lb_head l2) = unat (lb_head l1) + length str" by auto
  have "l2 = lb\<lparr>lb_head := lb_head l2\<rparr>" by (subst l2(2), subst l1(2)) simp
  with l1 l2 n mem_write_append [of "unat (lb_head lb)" "u32_bytes ?n" str m] show ?thesis
    by (auto simp: write_str_def str_bytes_def Let_def)
qed

lemma read_str_fits:
  assumes "unat (lb_end lb) < 2 ^ 63" "unat (lb_head lb) + length (str_bytes str) < unat (lb_end lb)"
    "length str < 2 ^ 32" "mem_read (unat (lb_head lb)) (length (str_bytes str)) m = str_bytes str"
  shows "\<exists>lb'. read_str exits (lb, m) = Inr (str, lb', m) \<and>
     lb' = lb\<lparr>lb_head := lb_head lb'\<rparr> \<and> unat (lb_head lb') = unat (lb_head lb) + length (str_bytes str)"
proof -
  let ?n = "word_of_nat (length str) :: u32"
  have n: "unat ?n = length str" using assms(3) by (simp add: unat_word_of_nat)
  have mr: "mem_read (unat (lb_head lb)) 4 m = u32_bytes ?n" "mem_read (unat (lb_head lb) + 4) (length str) m = str"
    using assms(4) mem_read_append [of "unat (lb_head lb)" 4 "length str" m] by (simp_all add: str_bytes_def)
  obtain l1 where l1: "buffer_read exits 4 (lb, m) = Inr (u32_bytes ?n, l1, m)"
    "l1 = lb\<lparr>lb_head := lb_head l1\<rparr>" "unat (lb_head l1) = unat (lb_head lb) + 4"
    using buffer_read_fits [OF assms(1), of 4 exits m] assms(2) mr(1) by auto
  have e1: "lb_end l1 = lb_end lb" by (subst l1(2)) simp
  have "unat (lb_end l1) < 2 ^ 63" "unat (lb_head l1) + length str < unat (lb_end l1)"
    using assms(1,2) l1(3) by (simp_all add: e1)
  from buffer_read_fits [OF this, of exits m] mr(2) l1(3) obtain l2 where
    l2: "buffer_read exits (length str) (l1, m) = Inr (str, l2, m)"
      "l2 = l1\<lparr>lb_head := lb_head l2\<rparr>" "unat (lb_head l2) = unat (lb_head l1) + length str" by auto
  have "l2 = lb\<lparr>lb_head := lb_head l2\<rparr>" by (subst l2(2), subst l1(2)) simp
  with l1 l2 n show ?thesis by (auto simp: read_str_def bytes_u32_u32_bytes)
qed

section \<open>Properties of linear allocation\<close>

lemma new_linear_wf:
  assumes "unat addr + unat total_sz < 2 ^ 62" "unat sz < 2 ^ 32 - 1"
    "new_linear_allocator sz name (new_area addr total_sz m0) = Inr (la, s)"
  shows "wf_linear la []"
proof -
  obtain ha m where a: "new_area addr total_sz m0 = (ha, m)" by fastforce
  then have wf: "wf_area ha" using new_area_wf [OF assms(1), of m0] by simp
  obtain b e where "require_slab sz name (ha, m) = Inr ((b, e), s)"
    "la = \<lparr>la_begin = b, la_end = e, la_head = 0\<rparr>"
    using assms(3) by (auto simp: new_linear_allocator_def a res_bind_eq_Inr)
  with require_slab_fits [OF wf, of sz name m] assms(2) wf show ?thesis
    by (auto simp: wf_linear_def la_pos_def wf_area_def split: if_splits)
qed

text \<open>
  A \<open>LinearAllocator\<close> on a slab smaller than 4 GiB of a fresh area: after any sequence of
  allocations and resets, the chunks handed out since the last reset follow each other without
  overlap between \<open>begin()\<close> and \<open>end()\<close>. The next request fails exactly when its padded size does
  not fit; otherwise the chunk comes after all the others, within the block, and the user pointer
  is aligned as requested.
\<close>

theorem linear_chunks_disjoint:
  fixes n al off :: u64
  assumes "unat addr + unat total_sz < 2 ^ 62" and "unat sz < 2 ^ 32 - 1"
    and "new_linear_allocator sz name (new_area addr total_sz m0) = Inr (la0, ha, m1)"
    and "\<forall>op \<in> set ops. modest op" and "run_ops linear_step ops ((la0, m1), []) = Inr ((la, m), cs)"
    and "modest (Allocate n al off)"
  shows "sorted_wrt (\<lambda>c d. chunk_end c \<le> fst d) cs \<and>
     (\<forall>c \<in> set cs. unat (la_begin la0) \<le> fst c \<and> chunk_end c \<le> unat (la_end la0)) \<and>
     (case linear_allocate n al off (la, m) of
        Inr (ptr, _) \<Rightarrow> (unat ptr + unat off) mod unat al = 0 \<and> (\<forall>c \<in> set cs. chunk_end c \<le> unat ptr) \<and>
          unat ptr + unat n \<le> unat (la_end la0)
      | Inl e \<Rightarrow> e = Assertion_Failed \<and>
          la_pos la + padding_nat (la_pos la + unat off) (unat al) + unat n > unat (la_end la0))"
proof -
  have wf: "wf_linear la cs" "la_begin la = la_begin la0" "la_end la = la_end la0"
    using linear_run_wf [OF _ assms(4,5)] new_linear_wf [OF assms(1,2,3)] by auto
  define p where "p = la_pos la + padding_nat (la_pos la + unat off) (unat al)"
  have al: "0 < unat al" using assms(6) by (simp add: unat_gt_0 word_gt_0)
  have "(p + unat off) mod unat al = 0"
    using padding_nat_props(2) [OF al, of "la_pos la + unat off"] by (simp add: p_def ac_simps)
  moreover have "\<forall>c \<in> set cs. chunk_end c \<le> p" "\<forall>c \<in> set cs. chunk_end c \<le> unat (la_end la)"
    "\<forall>c \<in> set cs. unat (la_begin la) \<le> fst c" "sorted_wrt (\<lambda>c d. chunk_end c \<le> fst d) cs"
    using wf(1) by (force simp: wf_linear_def p_def dest!: bspec)+
  ultimately show ?thesis
    using linear_allocate_fits [OF wf(1) assms(6), of m, folded p_def] wf(2,3)
    by (fastforce simp flip: p_def split: if_splits)
qed

theorem linear_chunks_disjoint_witness:
  "\<exists>la0 ha m1 la m cs. new_linear_allocator 100 ''la'' (new_area 4096 1024 (\<lambda>_. 0)) = Inr (la0, ha, m1) \<and>
     run_ops linear_step [Allocate 10 4 0, Allocate 3 16 8] ((la0, m1), []) = Inr ((la, m), cs) \<and>
     cs = [(4096, 10), (4120, 3)] \<and> sorted_wrt (\<lambda>c d. chunk_end c \<le> fst d) cs"
proof -
  obtain la0 ha m1 where n: "new_linear_allocator 100 ''la'' (new_area 4096 1024 (\<lambda>_. 0)) = Inr (la0, ha, m1)"
    and la0: "la0 = \<lparr>la_begin = 4096, la_end = 4197, la_head = 0\<rparr>"
    by (simp add: new_linear_allocator_def new_area_def require_slab_def alignment_padding_def k_cache_line_size_def area_end_def)
  obtain la m cs where r: "run_ops linear_step [Allocate 10 4 0, Allocate 3 16 8] ((la0, m1), []) = Inr ((la, m), cs)"
    and cs: "cs = [(4096, 10), (4120, 3)]"
    by (simp add: la0 linear_allocate_def alignment_padding_def)
  have "sorted_wrt (\<lambda>c d. chunk_end c \<le> fst d) cs"
    using linear_chunks_disjoint [OF _ _ n _ r, of 1 1 0] by simp
  with n r cs show ?thesis by blast
qed


text \<open>
  The 32-bit head: after a chunk of 4 GiB of an 8 GiB block, the head is 0 again and the next chunk
  is handed out at the same address.
\<close>

theorem linear_head_wraps:
  "\<exists>la0 ha m1 la m. new_linear_allocator 0x200000000 ''la'' (new_area 4096 0x280000000 (\<lambda>_. 0)) = Inr (la0, ha, m1) \<and>
     run_ops linear_step [Allocate 0x100000000 8 0, Allocate 8 8 0] ((la0, m1), []) =
       Inr ((la, m), [(4096, 0x100000000), (4096, 8)])"
  by (simp add: new_linear_allocator_def new_area_def require_slab_def alignment_padding_def
      k_cache_line_size_def area_end_def linear_allocate_def)

text \<open>
  Two allocators on neighbouring slabs of 64 bytes: the first one hands out a byte of the second.
\<close>

theorem linear_blocks_overlap:
  "\<exists>la1 la2 s1 s2. new_linear_allocator 64 ''a'' (new_area 4096 1024 (\<lambda>_. 0)) = Inr (la1, s1) \<and>
     new_linear_allocator 64 ''b'' s1 = Inr (la2, s2) \<and>
     map_sum id fst (linear_allocate 65 1 0 (la1, snd s2)) = Inr 4096 \<and>
     map_sum id fst (linear_allocate 64 1 0 (la2, snd s2)) = Inr 4160"
  by (simp add: new_linear_allocator_def new_area_def require_slab_def alignment_padding_def
      k_cache_line_size_def area_end_def linear_allocate_def)

section \<open>Properties of the buffer\<close>

abbreviation strs_bytes :: "u8 list list \<Rightarrow> u8 list" where
  "strs_bytes strs \<equiv> concat (map str_bytes strs)"

lemma write_strs_fits:
  assumes "unat (lb_end lb) < 2 ^ 63" "unat (lb_head lb) + length (strs_bytes strs) < unat (lb_end lb)"
    "\<forall>str \<in> set strs. length str < 2 ^ 32"
  shows "\<exists>lb'. run_ops (write_str exits) strs (lb, m) = Inr (lb', mem_write (unat (lb_head lb)) (strs_bytes strs) m) \<and>
     lb' = lb\<lparr>lb_head := lb_head lb'\<rparr> \<and> unat (lb_head lb') = unat (lb_head lb) + length (strs_bytes strs)"
  using assms
proof (induction strs arbitrary: lb m)
  case Nil
  have "mem_write a [] m = m" for a by (auto simp: mem_write_def fun_eq_iff)
  then show ?case by simp
next
  case (Cons str strs)
  from write_str_fits [OF Cons.prems(1), of str exits m] Cons.prems obtain l1 where
    l1: "write_str exits str (lb, m) = Inr (l1, mem_write (unat (lb_head lb)) (str_bytes str) m)"
      "l1 = lb\<lparr>lb_head := lb_head l1\<rparr>" "unat (lb_head l1) = unat (lb_head lb) + length (str_bytes str)" by auto
  have "lb_end l1 = lb_end lb" by (subst l1(2)) simp
  with Cons.IH [of l1 "mem_write (unat (lb_head lb)) (str_bytes str) m"] Cons.prems l1(3) obtain l2 where
    l2: "run_ops (write_str exits) strs (l1, mem_write (unat (lb_head lb)) (str_bytes str) m) =
        Inr (l2, mem_write (unat (lb_head l1)) (strs_bytes strs) (mem_write (unat (lb_head lb)) (str_bytes str) m))"
      "l2 = l1\<lparr>lb_head := lb_head l2\<rparr>" "unat (lb_head l2) = unat (lb_head l1) + length (strs_bytes strs)" by auto
  have "l2 = lb\<lparr>lb_head := lb_head l2\<rparr>" by (subst l2(2), subst l1(2)) simp
  with l1 l2 mem_write_append [of "unat (lb_head lb)" "str_bytes str" "strs_bytes strs" m] show ?case by auto
qed

lemma read_strs_fits:
  assumes "unat (lb_end lb) < 2 ^ 63" "unat (lb_head lb) + length (strs_bytes strs) < unat (lb_end lb)"
    "\<forall>str \<in> set strs. length str < 2 ^ 32"
    "mem_read (unat (lb_head lb)) (length (strs_bytes strs)) m = strs_bytes strs"
  shows "\<exists>lb'. read_strs exits (length strs) (lb, m) = Inr (strs, lb', m) \<and>
     lb' = lb\<lparr>lb_head := lb_head lb'\<rparr> \<and> unat (lb_head lb') = unat (lb_head lb) + length (strs_bytes strs)"
  using assms
proof (induction strs arbitrary: lb)
  case (Cons str strs)
  have mr: "mem_read (unat (lb_head lb)) (length (str_bytes str)) m = str_bytes str"
    "mem_read (unat (lb_head lb) + length (str_bytes str)) (length (strs_bytes strs)) m = strs_bytes strs"
    using Cons.prems(4) mem_read_append [of "unat (lb_head lb)" "length (str_bytes str)" "length (strs_bytes strs)" m]
    by (simp_all del: str_bytes_length)
  from read_str_fits [OF Cons.prems(1) _ _ mr(1), of exits] Cons.prems obtain l1 where
    l1: "read_str exits (lb, m) = Inr (str, l1, m)"
      "l1 = lb\<lparr>lb_head := lb_head l1\<rparr>" "unat (lb_head l1) = unat (lb_head lb) + length (str_bytes str)" by auto
  have "lb_end l1 = lb_end lb" by (subst l1(2)) simp
  with Cons.IH [of l1] Cons.prems l1(3) mr(2) obtain l2 where
    l2: "read_strs exits (length strs) (l1, m) = Inr (strs, l2, m)"
      "l2 = l1\<lparr>lb_head := lb_head l2\<rparr>" "unat (lb_head l2) = unat (lb_head l1) + length (strs_bytes strs)" by auto
  have "l2 = lb\<lparr>lb_head := lb_head l2\<rparr>" by (subst l2(2), subst l1(2)) simp
  with l1 l2 show ?case by auto
qed simp

lemma buffer_init_fields:
  assumes "unat addr + unat total_sz < 2 ^ 62" "unat sz < 2 ^ 62"
    "buffer_init sz name (new_area addr total_sz m0) = Inr (lb, s)"
  shows "lb_head lb = lb_begin lb \<and> unat (lb_end lb) = unat (lb_begin lb) + unat sz + 1 \<and> unat (lb_end lb) < 2 ^ 63"
proof -
  obtain ha m where a: "new_area addr total_sz m0 = (ha, m)" by fastforce
  then have wf: "wf_area ha" using new_area_wf [OF assms(1), of m0] by simp
  obtain b e where "require_slab sz name (ha, m) = Inr ((b, e), s)"
    "lb = \<lparr>lb_begin = b, lb_end = e, lb_head = b, debug_name = name\<rparr>"
    using assms(3) by (auto simp: buffer_init_def a res_bind_eq_Inr)
  with require_slab_fits [OF wf assms(2), of name m] wf show ?thesis
    by (auto simp: wf_area_def split: if_splits)
qed

text \<open>
  Strings written one after the other to a \<open>LinearBuffer\<close> of a fresh area whose size is at least
  the bytes they need (four for each length) are read back in order after a \<open>reset\<close>, whatever
  their bytes; no overrun is reported and no byte outside those is written.
\<close>

theorem buffer_strings_roundtrip:
  assumes "unat addr + unat total_sz < 2 ^ 62" and "unat sz < 2 ^ 62"
    and "buffer_init sz name (new_area addr total_sz m0) = Inr (lb, ha, m)"
    and "(\<Sum>str \<leftarrow> strs. 4 + length str) \<le> unat sz" and "\<forall>str \<in> set strs. length str < 2 ^ 32"
  shows "\<exists>lb1 m1. run_ops (write_str exits) strs (lb, m) = Inr (lb1, m1) \<and>
     read_strs exits (length strs) (buffer_reset lb1, m1) = Inr (strs, lb1, m1) \<and>
     (\<forall>a. a < unat (lb_begin lb) \<or> unat (lb_begin lb) + unat sz \<le> a \<longrightarrow> m1 a = m a)"
proof -
  let ?h = "unat (lb_head lb)" and ?bs = "strs_bytes strs"
  note f = buffer_init_fields [OF assms(1-3)]
  have len: "length ?bs = (\<Sum>str \<leftarrow> strs. 4 + length str)"
    by (simp add: length_concat comp_def)
  from f write_strs_fits [of lb strs exits m] assms(4,5) len obtain l1 where
    l1: "run_ops (write_str exits) strs (lb, m) = Inr (l1, mem_write ?h ?bs m)"
      "l1 = lb\<lparr>lb_head := lb_head l1\<rparr>" "unat (lb_head l1) = ?h + length ?bs" by auto
  have reset: "buffer_reset l1 = lb" by (subst l1(2)) (simp add: buffer_reset_def f [THEN conjunct1, symmetric])
  have "mem_read ?h (length ?bs) (mem_write ?h ?bs m) = ?bs" by (rule mem_read_write) simp
  with f assms(4,5) len read_strs_fits [of lb strs "mem_write ?h ?bs m" exits] obtain l2 where
    l2: "read_strs exits (length strs) (lb, mem_write ?h ?bs m) = Inr (strs, l2, mem_write ?h ?bs m)"
      "l2 = lb\<lparr>lb_head := lb_head l2\<rparr>" "unat (lb_head l2) = ?h + length ?bs" by auto
  have "l2 = l1" using l1(2,3) l2(2,3) by (metis unat_inject)
  moreover have "mem_write ?h ?bs m a = m a" if "a < ?h \<or> ?h + unat sz \<le> a" for a
    using that assms(4) len by (auto simp: mem_write_def)
  ultimately show ?thesis using l1(1) l2(1) reset f by auto
qed

theorem buffer_strings_roundtrip_witness:
  "\<exists>lb ha m lb1 m1. buffer_init 13 ''buf'' (new_area 4096 1024 (\<lambda>_. 7)) = Inr (lb, ha, m) \<and>
     run_ops (write_str True) [[104, 105], [0, 255, 10]] (lb, m) = Inr (lb1, m1) \<and>
     read_strs True 2 (buffer_reset lb1, m1) = Inr ([[104, 105], [0, 255, 10]], lb1, m1)"
proof -
  obtain lb ha m where i: "buffer_init 13 ''buf'' (new_area 4096 1024 (\<lambda>_. 7)) = Inr (lb, ha, m)"
    by (simp add: buffer_init_def new_area_def require_slab_def alignment_padding_def k_cache_line_size_def area_end_def)
  obtain lb1 m1 where "run_ops (write_str True) [[104, 105], [0, 255, 10]] (lb, m) = Inr (lb1, m1)"
    "read_strs True (length [[104, 105], [0, 255, 10 :: u8]]) (buffer_reset lb1, m1) =
       Inr ([[104, 105], [0, 255, 10]], lb1, m1)"
    using buffer_strings_roundtrip [OF _ _ i, of "[[104, 105], [0, 255, 10]]" True]
    by (auto simp del: run_ops.simps)
  moreover have "length [[104, 105], [0, 255, 10 :: u8]] = 2" by simp
  ultimately show ?thesis using i by metis
qed

text \<open>
  A buffer without a log channel, as the constructor that takes an area leaves it, lets a write run
  past its end into the next slab.
\<close>

theorem silent_buffer_overrun:
  "\<exists>lb s lb2 s2 lb1 m1. buffer_init 64 ''a'' (new_area 4096 1024 (\<lambda>_. 0)) = Inr (lb, s) \<and>
     buffer_init 64 ''b'' s = Inr (lb2, s2) \<and>
     buffer_write False (replicate 65 7) (lb, snd s2) = Inr (lb1, m1) \<and> m1 (unat (lb_begin lb2)) = 7"
  by (simp add: buffer_init_def new_area_def require_slab_def alignment_padding_def
      k_cache_line_size_def area_end_def buffer_write_def mem_write_def)

section \<open>The linear allocator as an allocation policy\<close>

text \<open>
  \<open>deallocate\<close> does nothing: the chunk merely stops being live. All the chunks handed out since the
  last reset are apart, hence so are the live ones.
\<close>

definition linear_dealloc :: "u64 \<Rightarrow> linear_allocator \<times> memory \<Rightarrow> fault + linear_allocator \<times> memory" where
  "linear_dealloc ptr = (\<lambda>(la, m). Inr (linear_deallocate ptr la, m))"

definition linear_live :: "linear_allocator \<times> memory \<Rightarrow> chunk set \<Rightarrow> bool" where
  "linear_live s live \<longleftrightarrow> 0 < unat (la_begin (fst s)) \<and>
     (\<exists>cs. wf_linear (fst s) cs \<and> (\<forall>c \<in> set cs. 0 < snd c) \<and> live \<subseteq> set cs)"

lemma linear_chunks_apart:
  assumes "sorted_wrt (\<lambda>c d. chunk_end c \<le> fst d) cs" "c \<in> set cs" "d \<in> set cs" "c \<noteq> d"
  shows "chunk_bytes c \<inter> chunk_bytes d = {}"
proof -
  obtain i j where ij: "i < length cs" "c = cs ! i" "j < length cs" "d = cs ! j" "i \<noteq> j"
    using assms(2,3,4) by (metis in_set_conv_nth)
  then have "chunk_end c \<le> fst d \<or> chunk_end d \<le> fst c"
    using sorted_wrt_nth_less [OF assms(1), of i j] sorted_wrt_nth_less [OF assms(1), of j i] by (cases "i < j") auto
  then show ?thesis by (auto simp: chunk_bytes_def)
qed

lemma linear_live_allocate:
  assumes "linear_live (la, m) live" "good_request sz al off" "linear_allocate sz al off (la, m) = Inr (p, la', m')"
  shows "p \<noteq> 0 \<and> unat p + unat sz < 2 ^ 63 \<and> (unat p + unat off) mod unat al = 0 \<and> (unat p, unat sz) \<notin> live \<and>
     linear_live (la', m') (insert (unat p, unat sz) live) \<and> (\<forall>c \<in> live. \<forall>x \<in> chunk_bytes c. m' x = m x)"
proof -
  obtain cs where cs: "wf_linear la cs" "\<forall>c \<in> set cs. 0 < snd c" "live \<subseteq> set cs" "0 < unat (la_begin la)"
    using assms(1) by (auto simp: linear_live_def)
  have req: "modest (Allocate sz al off)" "0 < unat sz" "0 < unat al"
    using assms(2) by (auto simp: good_request_def unat_gt_0 word_gt_0)
  define q where "q = la_pos la + padding_nat (la_pos la + unat off) (unat al)"
  from linear_allocate_fits [OF cs(1) req(1), of m, folded q_def] assms(3)
  have r: "q + unat sz \<le> unat (la_end la)" "unat p = q" "la' = la\<lparr>la_head := la_head la'\<rparr>"
    "wf_linear la' (cs @ [(q, unat sz)])"
    by (auto split: if_splits)
  have "(q + unat off) mod unat al = 0"
    using padding_nat_props(2) [OF req(3), of "la_pos la + unat off"] by (simp add: q_def ac_simps)
  moreover have below: "chunk_end c \<le> q" if "c \<in> set cs" for c
    using cs(1) that by (auto simp: wf_linear_def q_def intro: trans_le_add1)
  moreover have "(q, unat sz) \<notin> set cs" using below [of "(q, unat sz)"] req(2) by (auto simp: chunk_end_def)
  moreover have "p \<noteq> 0" using cs(4) r(2) by (auto simp: q_def la_pos_def)
  moreover have "la_begin la' = la_begin la" by (subst r(3)) simp
  then have "linear_live (la', m') (insert (unat p, unat sz) live)"
    unfolding linear_live_def using cs r(2,4) req(2) by (auto intro!: exI [of _ "cs @ [(q, unat sz)]"])
  moreover have "m' x = m x" if "c \<in> set cs" "x \<in> chunk_bytes c" for c x
  proof -
    have "x < la_pos la" using cs(1) that by (force simp: wf_linear_def chunk_bytes_def)
    moreover have "unat (la_begin la + ucast (la_head la)) = la_pos la"
      using cs(1) by (subst unat_add) (auto simp: wf_linear_def la_pos_def ucast_u32_u64)
    ultimately show ?thesis using assms(3)
      by (auto simp: linear_allocate_def Let_def res_bind_eq_Inr mem_fill_def split: if_splits)
  qed
  moreover have "unat (la_end la) < 2 ^ 63" using cs(1) by (simp add: wf_linear_def)
  ultimately show ?thesis using r(1,2) cs(3) by auto
qed

interpretation lin: arena_allocator linear_allocate linear_dealloc linear_live good_request
proof unfold_locales
  show "finite live" if "linear_live s live" for s live
    using that by (auto simp: linear_live_def intro: finite_subset)
  show "chunk_bytes c \<inter> chunk_bytes d = {}"
    if "linear_live s live" "c \<in> live" "d \<in> live" "c \<noteq> d" for s live c d
  proof -
    obtain cs where "wf_linear (fst s) cs" "live \<subseteq> set cs" using \<open>linear_live s live\<close> by (auto simp: linear_live_def)
    with that(2-4) show ?thesis by (intro linear_chunks_apart [of cs]) (auto simp: wf_linear_def)
  qed
  show "\<exists>a' m'. linear_dealloc p (a, m) = Inr (a', m') \<and> linear_live (a', m') (live - {(unat p, n)}) \<and>
      (\<forall>c \<in> live - {(unat p, n)}. \<forall>x \<in> chunk_bytes c. m' x = m x)"
    if "linear_live (a, m) live" for a m live p n
    using that by (auto simp: linear_dealloc_def linear_deallocate_def linear_live_def)
  show "linear_live (a, m') live" if "linear_live (a, m) live" for a m m' live
    using that by (simp add: linear_live_def)
qed (use linear_live_allocate in blast)+

end
