(* ===== verification/Const_Math.thy ===== *)
theory Const_Math
  imports Kibble_Prelude
begin

unbundle bit_operations_syntax

text \<open>
  The integer functions of \<open>math/constexpr_math.h\<close>. \<open>int\<close> arithmetic outside the 32-bit range is
  undefined behaviour in the source and \<open>None\<close> here.
\<close>

section \<open>Powers of two\<close>

text \<open>The five shift-or lines that \<open>pp2\<close> and \<open>np2\<close> have in common.\<close>

definition smear :: "u32 \<Rightarrow> u32" where
  "smear x0 =
     (let x1 = x0 OR drop_bit 1 x0;
          x2 = x1 OR drop_bit 2 x1;
          x3 = x2 OR drop_bit 4 x2;
          x4 = x3 OR drop_bit 8 x3
      in x4 OR drop_bit 16 x4)"

definition pp2 :: "u32 \<Rightarrow> u32" where
  "pp2 x = (let y = smear x in y - drop_bit 1 y)"

definition np2 :: "u32 \<Rightarrow> u32" where
  "np2 x = smear (x - 1) + 1"

text \<open>The result of an operation on \<open>int\<close> (\<open>int32_t\<close>), if it is one.\<close>

definition int32 :: "int \<Rightarrow> int option" where
  "int32 i = (if - (2 ^ 31) \<le> i \<and> i < 2 ^ 31 then Some i else None)"

text \<open>The arguments are \<open>int32_t\<close>; the result is converted to 64 bits, by its sign.\<close>

definition round_up_pow2 :: "int \<Rightarrow> int \<Rightarrow> u64 option" where
  "round_up_pow2 base multiple =
     (case int32 (base + multiple) of
        None \<Rightarrow> None
      | Some s \<Rightarrow>
          (case (int32 (s - 1), int32 (- multiple)) of
             (Some l, Some r) \<Rightarrow> Some (word_of_int (l AND r))
           | _ \<Rightarrow> None))"

lemma smear_step:
  fixes x y :: "'a::len word"
  assumes "\<And>n. bit y n \<longleftrightarrow> (\<exists>d < s. bit x (n + d))"
  shows "bit (y OR drop_bit s y) n \<longleftrightarrow> (\<exists>d < 2 * s. bit x (n + d))"
proof -
  have "(\<exists>d < 2 * s. bit x (n + d)) \<longleftrightarrow> (\<exists>d < s. bit x (n + d)) \<or> (\<exists>d < s. bit x (s + n + d))"
  proof (intro iffI)
    assume "\<exists>d < 2 * s. bit x (n + d)"
    then obtain d where d: "d < 2 * s" "bit x (n + d)" by blast
    show "(\<exists>d < s. bit x (n + d)) \<or> (\<exists>d < s. bit x (s + n + d))"
    proof (cases "d < s")
      case False
      with d show ?thesis by (intro disjI2 exI [of _ "d - s"]) (auto simp: ac_simps)
    qed (use d in blast)
  next
    assume "(\<exists>d < s. bit x (n + d)) \<or> (\<exists>d < s. bit x (s + n + d))"
    then show "\<exists>d < 2 * s. bit x (n + d)"
    proof
      assume "\<exists>d < s. bit x (n + d)"
      then obtain d where "d < s" "bit x (n + d)" by blast
      then show ?thesis by (intro exI [of _ d]) auto
    next
      assume "\<exists>d < s. bit x (s + n + d)"
      then obtain d where "d < s" "bit x (s + n + d)" by blast
      then show ?thesis by (intro exI [of _ "s + d"]) (auto simp: ac_simps)
    qed
  qed
  with assms show ?thesis by (simp add: bit_or_iff bit_drop_bit_eq)
qed

lemma bit_smear: "bit (smear x) n \<longleftrightarrow> (\<exists>d < 32. bit x (n + d))"
proof -
  define x1 where "x1 = x OR drop_bit 1 x"
  define x2 where "x2 = x1 OR drop_bit 2 x1"
  define x3 where "x3 = x2 OR drop_bit 4 x2"
  define x4 where "x4 = x3 OR drop_bit 8 x3"
  have "bit x1 n \<longleftrightarrow> (\<exists>d < 2. bit x (n + d))" for n
    using smear_step [of x 1 x] by (simp add: x1_def)
  then have "bit x2 n \<longleftrightarrow> (\<exists>d < 4. bit x (n + d))" for n
    using smear_step [of x1 2 x] by (simp add: x2_def)
  then have "bit x3 n \<longleftrightarrow> (\<exists>d < 8. bit x (n + d))" for n
    using smear_step [of x2 4 x] by (simp add: x3_def)
  then have "bit x4 n \<longleftrightarrow> (\<exists>d < 16. bit x (n + d))" for n
    using smear_step [of x3 8 x] by (simp add: x4_def)
  then show ?thesis
    using smear_step [of x4 16 x] unfolding smear_def Let_def x1_def [symmetric] x2_def [symmetric] x3_def [symmetric]
      x4_def [symmetric] by simp
qed

lemma bits_of_bounded:
  fixes x :: "'a::len word"
  assumes "2 ^ k \<le> unat x" "unat x < 2 ^ (k + 1)"
  shows "bit x k" "k < n \<Longrightarrow> \<not> bit x n" "k < LENGTH('a)"
proof -
  have "2 ^ k < (2 :: nat) ^ LENGTH('a)" using assms(1) unsigned_less [of x] by (rule order_le_less_trans)
  then show k: "k < LENGTH('a)" using power_less_imp_less_exp [of 2] by auto
  have bit: "bit x i \<longleftrightarrow> odd (unat x div 2 ^ i)" for i
    by (simp add: bit_unsigned_iff flip: bit_iff_odd)
  have "unat x div 2 ^ k = 1"
    using assms by (intro div_nat_eqI) (simp_all add: mult.commute)
  with bit show "bit x k" by simp
  assume "k < n"
  then have "(2::nat) ^ (k + 1) \<le> 2 ^ n" by (intro power_increasing) auto
  with assms(2) have "unat x div 2 ^ n = 0" by simp
  with bit show "\<not> bit x n" by simp
qed

lemma smear_mask:
  assumes "2 ^ k \<le> unat x" "unat x < 2 ^ (k + 1)"
  shows "smear x = mask (Suc k)"
proof (rule bit_word_eqI)
  fix n assume n: "n < LENGTH(32)"
  note b = bits_of_bounded [OF assms]
  show "bit (smear x) n \<longleftrightarrow> bit (mask (Suc k) :: u32) n"
  proof (cases "n \<le> k")
    case True
    then have "bit x (n + (k - n))" "k - n < 32" using b(1,3) by auto
    then have "\<exists>d < 32. bit x (n + d)" by blast
    with True n show ?thesis by (simp add: bit_smear bit_mask_iff)
  next
    case False
    with b(2) n show ?thesis by (auto simp: bit_smear bit_mask_iff)
  qed
qed

lemma pow2_bracket:
  fixes n :: nat
  assumes "0 < n"
  obtains k where "2 ^ k \<le> n" "n < 2 ^ (k + 1)"
  using ex_power_ivl1 [of 2 n] assms that by auto

lemma unat_pow2_32: "k < 32 \<Longrightarrow> unat ((2 :: u32) ^ k) = 2 ^ k"
proof -
  assume "k < 32"
  then have "(2::nat) ^ k < 2 ^ LENGTH(32)" by (intro power_strict_increasing) simp_all
  from unat_word_of_nat [OF this] show ?thesis by simp
qed

section \<open>Properties\<close>

text \<open>
  \<open>pp2\<close> returns, for every non-zero argument, the greatest power of two that is not greater.
\<close>

theorem pp2_greatest:
  assumes "x \<noteq> 0"
  shows "\<exists>k. unat (pp2 x) = 2 ^ k \<and> 2 ^ k \<le> unat x \<and> unat x < 2 ^ (k + 1)"
proof -
  obtain k where k: "2 ^ k \<le> unat x" "unat x < 2 ^ (k + 1)"
    using assms by (auto simp: unat_gt_0 intro: pow2_bracket [of "unat x"])
  have "k < 32" using bits_of_bounded(3) [OF k] by simp
  have "drop_bit 1 (mask (Suc k)) = (mask k :: u32)"
    by (rule bit_word_eqI) (use \<open>k < 32\<close> in \<open>auto simp: bit_drop_bit_eq bit_mask_iff\<close>)
  then have "pp2 x = mask (Suc k) - mask k" by (simp add: pp2_def smear_mask [OF k])
  also have "\<dots> = 2 ^ k" by (simp add: mask_eq_exp_minus_1)
  finally show ?thesis using k \<open>k < 32\<close> by (auto simp: unat_pow2_32)
qed

theorem pp2_greatest_witness: "\<exists>k. unat (pp2 100) = 2 ^ k \<and> 2 ^ k \<le> unat (100 :: u32) \<and> unat (100 :: u32) < 2 ^ (k + 1)"
  by (rule pp2_greatest) simp

text \<open>
  \<open>np2\<close> returns the least power of two that is not smaller, for every argument from 1 to
  \<open>2^31\<close>; beyond, where that power does not fit in 32 bits, and at 0 it returns 0.
\<close>

theorem np2_least:
  "if x = 0 \<or> unat x > 2 ^ 31 then np2 x = 0
   else \<exists>k. unat (np2 x) = 2 ^ k \<and> unat x \<le> 2 ^ k \<and> (\<forall>j. unat x \<le> 2 ^ j \<longrightarrow> k \<le> j)"
proof (cases "x = 0 \<or> x = 1")
  case True
  moreover have "np2 0 = 0" by (simp add: np2_def smear_def Let_def)
  moreover have "np2 1 = 1" by (simp add: np2_def smear_def Let_def)
  ultimately show ?thesis by (auto intro: exI [of _ 0])
next
  case False
  then have x: "unat (x - 1) = unat x - 1" "1 < unat x"
    by (auto simp: unat_minus_one word_unat_eq_iff)
  obtain k where k: "2 ^ k \<le> unat (x - 1)" "unat (x - 1) < 2 ^ (k + 1)"
    using x pow2_bracket [of "unat (x - 1)"] by auto
  have k32: "k < 32" using bits_of_bounded(3) [OF k] by simp
  have np2: "np2 x = 2 ^ (Suc k)" by (simp add: np2_def smear_mask [OF k] mask_eq_exp_minus_1)
  show ?thesis
  proof (cases "unat x > 2 ^ 31")
    case True
    have "unat x < 2 ^ LENGTH(32)" by (rule unsigned_less)
    have "(2::nat) ^ 31 \<le> unat (x - 1)" using True x by simp
    then have "(2::nat) ^ 31 < 2 ^ (k + 1)" using k(2) by (rule order_le_less_trans)
    then have "31 < k + 1" by (rule power_less_imp_less_exp [rotated]) simp
    with k32 have "k = 31" by simp
    with True np2 show ?thesis by simp
  next
    case below: False
    then have "unat (x - 1) < 2 ^ 31" using x by simp
    with k(1) have "2 ^ k < (2::nat) ^ 31" by (rule order_le_less_trans)
    then have "k < 31" by (rule power_less_imp_less_exp [rotated]) simp
    then have "unat (np2 x) = 2 ^ Suc k" unfolding np2 by (intro unat_pow2_32) simp
    moreover have "Suc k \<le> j" if "unat x \<le> 2 ^ j" for j
    proof -
      have "unat (x - 1) < 2 ^ j" using that x by simp
      with k(1) have "(2::nat) ^ k < 2 ^ j" by (rule order_le_less_trans)
      then have "k < j" by (rule power_less_imp_less_exp [rotated]) simp
      then show ?thesis by simp
    qed
    moreover have "unat x \<le> 2 ^ Suc k" using k(2) x by simp
    ultimately have "\<exists>k. unat (np2 x) = 2 ^ k \<and> unat x \<le> 2 ^ k \<and> (\<forall>j. unat x \<le> 2 ^ j \<longrightarrow> k \<le> j)"
      by (intro exI [of _ "Suc k"] conjI) simp_all
    with below False show ?thesis by simp
  qed
qed


theorem np2_least_witness: "\<exists>k. unat (np2 100) = 2 ^ k \<and> unat (100 :: u32) \<le> 2 ^ k"
  using np2_least [of 100] by auto

lemma and_minus_exp: "l AND - (2 ^ k) = l div 2 ^ k * 2 ^ k" for l :: int
proof -
  have "l AND - (2 ^ k) = push_bit k (drop_bit k l)"
    unfolding minus_exp_eq_not_mask
    by (rule bit_eqI) (auto simp: bit_and_iff bit_not_iff bit_mask_iff bit_push_bit_iff bit_drop_bit_eq)
  then show ?thesis by (simp add: push_bit_eq_mult drop_bit_eq_div)
qed

lemma round_up_pow2_eq:
  assumes "- (2 ^ 31) \<le> base" "k \<le> 30"
  shows "round_up_pow2 base (2 ^ k) =
    (if base + 2 ^ k < 2 ^ 31 then Some (word_of_int ((base + 2 ^ k - 1) div 2 ^ k * 2 ^ k)) else None)"
proof -
  define q :: int where "q = 2 ^ k"
  have "q \<le> 2 ^ 30" unfolding q_def using assms(2) by (intro power_increasing) auto
  moreover have "1 \<le> q" by (simp add: q_def)
  ultimately have "int32 (- q) = Some (- q)"
    "int32 (base + q) = (if base + q < 2 ^ 31 then Some (base + q) else None)"
    "base + q < 2 ^ 31 \<Longrightarrow> int32 (base + q - 1) = Some (base + q - 1)"
    using assms(1) by (simp_all add: int32_def)
  then show ?thesis unfolding q_def by (simp add: round_up_pow2_def and_minus_exp)
qed

lemma le_round_up: "0 < m \<Longrightarrow> b \<le> (b + m - 1) div m * m" for b m :: int
  using div_mult_mod_eq [of "b + m - 1" m] pos_mod_bound [of m "b + m - 1"] by linarith

lemma round_up_le: "0 < m \<Longrightarrow> (b + m - 1) div m * m \<le> b + m - 1" for b m :: int
  using div_mult_mod_eq [of "b + m - 1" m] pos_mod_sign [of m "b + m - 1"] by linarith

lemma round_up_least:
  fixes b m n :: int
  assumes "0 < m" "m dvd n" "b \<le> n"
  shows "(b + m - 1) div m * m \<le> n"
proof (rule ccontr)
  assume "\<not> (b + m - 1) div m * m \<le> n"
  moreover have "m dvd (b + m - 1) div m * m - n" using assms(2) by (intro dvd_diff) simp_all
  ultimately have "m \<le> (b + m - 1) div m * m - n" by (intro zdvd_imp_le) simp_all
  with round_up_le [OF assms(1), of b] assms(3) show False by linarith
qed

lemma sint_of_int_small: "- (2 ^ 63) \<le> i \<Longrightarrow> i < 2 ^ 63 \<Longrightarrow> sint (word_of_int i :: u64) = i"
  unfolding sint_sbintrunc' by (rule signed_take_bit_int_eq_self) simp_all

text \<open>
  C26. \<open>round_up_pow2\<close> returns the least multiple of the power of two \<open>multiple\<close> that is not smaller
  than \<open>base\<close>, for every \<open>int32_t\<close> \<open>base\<close> (the result of a negative one read as a signed number, as
  the conversion to \<open>size_t\<close> keeps its bits), exactly when the sum of both is an \<open>int32_t\<close>; otherwise
  that addition overflows and there is no result. The greatest power of two of the type is \<open>2 ^ 30\<close>.
\<close>

theorem round_up_pow2_least:
  assumes "- (2 ^ 31) \<le> base" and "k \<le> 30"
  shows "case round_up_pow2 base (2 ^ k) of
       None \<Rightarrow> 2 ^ 31 \<le> base + 2 ^ k
     | Some r \<Rightarrow> base + 2 ^ k < 2 ^ 31 \<and> 2 ^ k dvd sint r \<and> base \<le> sint r \<and>
         (\<forall>n. 2 ^ k dvd n \<longrightarrow> base \<le> n \<longrightarrow> sint r \<le> n) \<and> (0 \<le> base \<longrightarrow> uint r = sint r)"
proof (cases "base + 2 ^ k < 2 ^ 31")
  case True
  define i where "i = (base + 2 ^ k - 1) div 2 ^ k * 2 ^ k"
  have pos: "(0::int) < 2 ^ k" by simp
  note i = le_round_up [OF pos, of base, folded i_def] round_up_le [OF pos, of base, folded i_def]
    round_up_least [OF pos, of _ base, folded i_def]
  have "sint (word_of_int i :: u64) = i" using assms(1) True i(1,2) by (intro sint_of_int_small) simp_all
  moreover have "0 \<le> base \<Longrightarrow> uint (word_of_int i :: u64) = i"
    using True i(1,2) by (simp add: unsigned_of_int take_bit_int_eq_self)
  moreover have "2 ^ k dvd i" by (simp add: i_def)
  ultimately show ?thesis using True i(1,3) by (simp add: round_up_pow2_eq [OF assms] flip: i_def)
qed (simp add: round_up_pow2_eq [OF assms])

theorem round_up_pow2_least_witness:
  "(\<exists>r. round_up_pow2 29 (2 ^ 3) = Some r \<and> 2 ^ 3 dvd sint r \<and> 29 \<le> sint r \<and> sint r \<le> 32) \<and>
   round_up_pow2 (2 ^ 31 - 8) (2 ^ 3) = None"
proof
  have "round_up_pow2 29 (2 ^ 3) \<noteq> None" using round_up_pow2_least [of 29 3] by (cases "round_up_pow2 29 (2 ^ 3)") auto
  then obtain r where r: "round_up_pow2 29 (2 ^ 3) = Some r" by blast
  with round_up_pow2_least [of 29 3]
  have "2 ^ 3 dvd sint r" "29 \<le> sint r" "\<forall>n. 2 ^ 3 dvd n \<longrightarrow> 29 \<le> n \<longrightarrow> sint r \<le> n" by auto
  with r show "\<exists>r. round_up_pow2 29 (2 ^ 3) = Some r \<and> 2 ^ 3 dvd sint r \<and> 29 \<le> sint r \<and> sint r \<le> 32"
    by (intro exI [of _ r]) (simp add: dvd_def)
  show "round_up_pow2 (2 ^ 31 - 8) (2 ^ 3) = None"
    using round_up_pow2_least [of "2 ^ 31 - 8" 3] by (cases "round_up_pow2 (2 ^ 31 - 8) (2 ^ 3)") auto
qed

section \<open>round\_up, factorial and choose\<close>

text \<open>\<open>round_up\<close> at an unsigned type.\<close>

definition round_up :: "'a::len word \<Rightarrow> 'a word \<Rightarrow> 'a word" where
  "round_up base multiple =
     (if multiple = 0 then base
      else (let remainder = base mod multiple
            in if remainder = 0 then base else base + multiple - remainder))"

function factorial :: "int \<Rightarrow> int option" where
  "factorial n = (if n \<le> 1 then Some 1
     else case factorial (n - 1) of None \<Rightarrow> None | Some f \<Rightarrow> int32 (n * f))"
  by auto
termination by (relation "measure nat") auto

declare factorial.simps [simp del]

definition parity :: "int \<Rightarrow> int" where
  "parity ii = (if even ii then 1 else - 1)"

definition choose_int :: "int \<Rightarrow> int \<Rightarrow> int option" where
  "choose_int nn ii =
     (if ii \<le> nn
      then case (factorial nn, factorial ii, factorial (nn - ii)) of
          (Some f, Some g, Some h) \<Rightarrow> (case int32 (g * h) of Some d \<Rightarrow> Some (f div d) | None \<Rightarrow> None)
        | _ \<Rightarrow> None
      else Some 0)"

lemma factorial_fact:
  "factorial (int n) = (if fact n < (2 ^ 31 :: int) then Some (fact n) else None)"
proof (induction n)
  case 0
  show ?case by (simp add: factorial.simps)
next
  case (Suc n)
  show ?case
  proof (cases "n = 0")
    case True
    then show ?thesis by (simp add: factorial.simps)
  next
    case False
    then have eq: "factorial (int (Suc n)) =
        (case factorial (int n) of None \<Rightarrow> None | Some f \<Rightarrow> int32 (int (Suc n) * f))"
      by (subst factorial.simps) simp
    have "(fact n :: int) \<le> fact (Suc n)" by (simp add: fact_mono del: fact_Suc)
    moreover have "(0 :: int) \<le> fact (Suc n)" by (simp del: fact_Suc)
    moreover have "- (2 ^ 31) \<le> (fact (Suc n) :: int)" by (rule order_trans [of _ 0]) (simp_all del: fact_Suc)
    ultimately show ?thesis unfolding eq Suc.IH
      by (auto simp: int32_def simp flip: fact_Suc of_nat_Suc)
  qed
qed

text \<open>
  \<open>choose(n, i)\<close> is the binomial coefficient for all \<open>0 \<le> i\<close> and \<open>n \<le> 12\<close>, without overflow;
  from 13 on, \<open>n!\<close> overflows \<open>int\<close> for every \<open>i \<le> n\<close>, however small the coefficient.
\<close>

theorem choose_binomial:
  "choose_int (int n) (int i) = (if i \<le> n \<and> 13 \<le> n then None else Some (int (n choose i)))"
proof -
  have mono: "(fact m :: int) \<le> fact n" if "m \<le> n" for m n :: nat using that by (rule fact_mono)
  have f12: "(fact 12 :: int) < 2 ^ 31" "\<not> (fact 13 :: int) < 2 ^ 31" by (simp_all add: fact_numeral)
  have small: "factorial (int m) = Some (fact m)" if "m \<le> 12" for m
    using mono [OF that] f12 by (simp add: factorial_fact)
  have large: "factorial (int m) = None" if "13 \<le> m" for m
    using mono [OF that] f12 by (simp add: factorial_fact)
  show ?thesis
  proof (cases "i \<le> n \<and> n \<le> 12")
    case True
    then have e: "(fact i * fact (n - i) * int (n choose i) :: int) = fact n"
      using binomial_fact_lemma [of i n] by (metis of_nat_fact of_nat_mult)
    have "(1 :: int) \<le> int (n choose i)" using True by (simp add: Suc_le_eq)
    then have "(fact i * fact (n - i) :: int) * 1 \<le> fact i * fact (n - i) * int (n choose i)"
      by (intro mult_left_mono) auto
    then have "(fact i * fact (n - i) :: int) < 2 ^ 31" using e mono [of n 12] True f12(1) by linarith
    moreover have "(fact n :: int) div (fact i * fact (n - i)) = int (n choose i)"
      by (metis e nonzero_mult_div_cancel_left fact_nonzero mult_eq_0_iff)
    moreover have "- (2 ^ 31) \<le> (fact i * fact (n - i) :: int)" by (rule order_trans [of _ 0]) simp_all
    moreover have "n - i \<le> 12" using True by linarith
    then have "factorial (int n - int i) = Some (fact (n - i))" using small [of "n - i"] True by (simp add: of_nat_diff)
    ultimately show ?thesis using True small [of n] small [of i] by (simp add: choose_int_def int32_def)
  next
    case False
    then show ?thesis using large [of n] by (auto simp: choose_int_def)
  qed
qed

end
