(* ===== verification/Pool_Memory.thy ===== *)
theory Pool_Memory
  imports Memory_Area Const_Math
begin

unbundle bit_operations_syntax

text \<open>
  \<open>kb::memory::Freelist\<close> (\<open>memory/util/free_list\<close>) and \<open>kb::memory::PoolAllocator\<close>
  (\<open>memory/allocator/pool_allocator\<close>): nodes of a fixed size, the free ones chained by a pointer
  stored in their own first eight bytes.
\<close>

section \<open>Freelist\<close>

text \<open>
  The list object is its \<open>next_\<close> pointer; a node of the list is an address that holds the
  next one. The loop of \<open>init\<close> runs \<open>max_elements - 1\<close> times.
\<close>

fun freelist_loop :: "nat \<Rightarrow> u64 \<Rightarrow> u64 \<Rightarrow> u64 \<Rightarrow> memory \<Rightarrow> memory" where
  "freelist_loop 0 element_size as_byte runner m = store64 (unat runner) 0 m"
| "freelist_loop (Suc n) element_size as_byte runner m =
     freelist_loop n element_size (as_byte + element_size) as_byte (store64 (unat runner) as_byte m)"

definition freelist_init :: "u64 \<Rightarrow> u64 \<Rightarrow> u64 \<Rightarrow> memory \<Rightarrow> u64 \<times> memory" where
  "freelist_init begin_ptr element_size max_elements m =
     (begin_ptr, freelist_loop (unat max_elements - 1) element_size (begin_ptr + element_size) begin_ptr m)"

definition freelist_acquire :: "u64 \<Rightarrow> memory \<Rightarrow> u64 \<times> u64" where
  "freelist_acquire next_ptr m =
     (if next_ptr = 0 then (0, next_ptr)
      else (let head = next_ptr in (head, load64 (unat head) m)))"

definition freelist_release :: "u64 \<Rightarrow> u64 \<times> memory \<Rightarrow> u64 \<times> memory" where
  "freelist_release ptr = (\<lambda>(next_ptr, m). (ptr, store64 (unat ptr) next_ptr m))"

text \<open>The addresses that the list holds.\<close>

fun chain :: "memory \<Rightarrow> u64 \<Rightarrow> nat list \<Rightarrow> bool" where
  "chain m p [] = (p = 0)"
| "chain m p (a # as) = (p \<noteq> 0 \<and> unat p = a \<and> chain m (load64 a m) as)"

lemma chain_frame:
  "chain m p as \<Longrightarrow> (\<And>a x. a \<in> set as \<Longrightarrow> a \<le> x \<Longrightarrow> x < a + 8 \<Longrightarrow> m' x = m x) \<Longrightarrow> chain m' p as"
proof (induction as arbitrary: p)
  case (Cons a as)
  have "load64 a m' = load64 a m" by (rule load64_frame) (use Cons.prems(2) in auto)
  with Cons show ?case by auto
qed simp

lemma chain_null: "chain m p as \<Longrightarrow> p = 0 \<longleftrightarrow> as = []"
  by (cases as) auto

lemma next_node_no_wrap:
  fixes es cur runner :: u64
  assumes "unat cur = unat runner + unat es" "unat runner + (Suc n + 1) * unat es < 2 ^ 63"
  shows "unat (cur + es) = unat cur + unat es"
proof (rule unat_add)
  have "unat cur + unat es \<le> unat runner + (Suc n + 1) * unat es" using assms(1) by simp
  then have "unat cur + unat es < 2 ^ 63" using assms(2) by (rule order_le_less_trans)
  then show "unat cur + unat es < 2 ^ LENGTH(64)" by simp
qed

lemma freelist_loop_frame:
  assumes "8 \<le> unat es" "unat cur = unat runner + unat es" "unat runner + (n + 1) * unat es < 2 ^ 63"
    and "x < unat runner \<or> unat runner + (n + 1) * unat es \<le> x"
  shows "freelist_loop n es cur runner m x = m x"
  using assms
proof (induction n arbitrary: cur runner m)
  case 0
  then show ?case by (auto simp: store64_frame)
next
  case (Suc n)
  have e: "unat (cur + es) = unat cur + unat es" using Suc.prems(2,3) by (rule next_node_no_wrap)
  have "freelist_loop n es (cur + es) cur (store64 (unat runner) cur m) x = store64 (unat runner) cur m x"
    using Suc.prems e by (intro Suc.IH) (auto simp: algebra_simps)
  also have "\<dots> = m x" using Suc.prems by (intro store64_frame) (auto simp: algebra_simps)
  finally show ?case by simp
qed

lemma freelist_loop_chain:
  assumes "8 \<le> unat es" "unat cur = unat runner + unat es" "unat runner + (n + 1) * unat es < 2 ^ 63" "runner \<noteq> 0"
  shows "chain (freelist_loop n es cur runner m) runner (map (\<lambda>i. unat runner + i * unat es) [0..<Suc n])"
  using assms
proof (induction n arbitrary: cur runner m)
  case (Suc n)
  let ?m = "freelist_loop n es (cur + es) cur (store64 (unat runner) cur m)"
  have cur: "cur \<noteq> 0" using Suc.prems(1,2) by (auto simp flip: unat_gt_0)
  have e: "unat (cur + es) = unat cur + unat es" using Suc.prems(2,3) by (rule next_node_no_wrap)
  have bound: "unat cur + (n + 1) * unat es < 2 ^ 63" using Suc.prems(2,3) by (simp add: algebra_simps)
  have "chain ?m cur (map (\<lambda>i. unat cur + i * unat es) [0..<Suc n])"
    using Suc.prems(1) e bound cur by (rule Suc.IH)
  moreover have "map (\<lambda>i. unat runner + i * unat es) [0..<Suc (Suc n)] =
     unat runner # map (\<lambda>i. unat cur + i * unat es) [0..<Suc n]"
    by (subst upt_conv_Cons) (simp_all add: Suc.prems(2) map_Suc_upt [symmetric] del: upt_Suc)
  moreover have "load64 (unat runner) ?m = load64 (unat runner) (store64 (unat runner) cur m)"
    by (rule load64_frame, rule freelist_loop_frame) (use Suc.prems e bound in auto)
  ultimately show ?case using Suc.prems(4) by (simp del: upt_Suc)
qed simp


section \<open>PoolAllocator\<close>

record pool_allocator =
  node_size :: u64
  max_nodes :: u64
  node_count :: u64
  pool_begin :: u64
  pool_end :: u64
  free_list :: u64

text \<open>
  The constructor converts the sizes to \<open>int32_t\<close>, keeping their low 32 bits, before rounding, whose
  signed sum may overflow; \<open>decoration_size\<close> is a \<open>uint32_t\<close>.
\<close>

definition to_int32 :: "u64 \<Rightarrow> int" where
  "to_int32 w = sint (ucast w :: u32)"

definition new_pool_allocator ::
  "u32 \<Rightarrow> u64 \<Rightarrow> u64 \<Rightarrow> u64 \<Rightarrow> string \<Rightarrow> heap_area \<times> memory \<Rightarrow> fault + pool_allocator \<times> heap_area \<times> memory" where
  "new_pool_allocator decoration_size max_nodes_arg user_size max_alignment name s =
     (case round_up_pow2 (to_int32 (user_size + ucast decoration_size + max_alignment)) (to_int32 max_alignment) of
        None \<Rightarrow> Inl Signed_Overflow
      | Some ns \<Rightarrow>
         res_bind (require_slab (ns * max_nodes_arg) name s) (\<lambda>((b, _), ha, m).
         let (fl, m') = freelist_init b ns max_nodes_arg m
         in Inr (\<lparr>node_size = ns, max_nodes = max_nodes_arg, node_count = 0, pool_begin = b,
                  pool_end = b + max_nodes_arg * ns, free_list = fl\<rparr>, ha, m')))"

definition pool_allocate ::
  "u64 \<Rightarrow> u64 \<Rightarrow> u64 \<Rightarrow> pool_allocator \<times> memory \<Rightarrow> fault + u64 \<times> pool_allocator \<times> memory" where
  "pool_allocate sz alignment offset = (\<lambda>(pa, m).
     let (next_ptr, fl) = freelist_acquire (free_list pa) m in
     if next_ptr = 0 then Inl Assertion_Failed
     else res_bind (alignment_padding (next_ptr + offset) alignment) (\<lambda>padding.
          res_bind (k_assert (padding + sz \<le> node_size pa)) (\<lambda>_.
          let m' = mem_fill (unat next_ptr) (unat padding) k_alignment_padding_mark m
          in Inr (next_ptr + padding, pa\<lparr>free_list := fl, node_count := node_count pa + 1\<rparr>, m'))))"

definition pool_deallocate :: "u64 \<Rightarrow> pool_allocator \<times> memory \<Rightarrow> fault + pool_allocator \<times> memory" where
  "pool_deallocate ptr = (\<lambda>(pa, m).
     if node_size pa = 0 then Inl Division_By_Zero
     else (let offset = ptr - pool_begin pa;
               padding = offset mod node_size pa;
               (fl, m') = freelist_release (ptr - padding) (free_list pa, m)
           in Inr (pa\<lparr>node_count := node_count pa - 1, free_list := fl\<rparr>, m')))"

definition pool_reset :: "pool_allocator \<Rightarrow> pool_allocator" where
  "pool_reset pa = pa"

definition pool_total_size :: "pool_allocator \<Rightarrow> u64" where
  "pool_total_size pa = pool_end pa - pool_begin pa"

definition pool_used_size :: "pool_allocator \<Rightarrow> u64" where
  "pool_used_size pa = node_count pa * node_size pa"

section \<open>Invariant of the pool\<close>

text \<open>
  Node \<open>i\<close> starts at \<open>node_at pa i\<close>. The free nodes are chained; every live chunk lies in one
  of the other nodes, two chunks never in the same.
\<close>

definition node_at :: "pool_allocator \<Rightarrow> nat \<Rightarrow> nat" where
  "node_at pa i = unat (pool_begin pa) + i * unat (node_size pa)"

definition node_of :: "pool_allocator \<Rightarrow> nat \<Rightarrow> nat" where
  "node_of pa p = (p - unat (pool_begin pa)) div unat (node_size pa)"

definition in_node :: "pool_allocator \<Rightarrow> chunk \<Rightarrow> nat \<Rightarrow> bool" where
  "in_node pa c i \<longleftrightarrow> node_at pa i \<le> fst c \<and> 0 < snd c \<and> chunk_end c \<le> node_at pa (Suc i)"

definition wf_pool :: "pool_allocator \<times> memory \<Rightarrow> chunk set \<Rightarrow> nat list \<Rightarrow> bool" where
  "wf_pool = (\<lambda>(pa, m) live free.
     8 \<le> unat (node_size pa) \<and> pool_begin pa \<noteq> 0 \<and> node_at pa (unat (max_nodes pa)) < 2 ^ 63 \<and>
     chain m (free_list pa) (map (node_at pa) free) \<and> distinct free \<and> finite live \<and>
     inj_on (\<lambda>c. node_of pa (fst c)) live \<and>
     (\<forall>c \<in> live. in_node pa c (node_of pa (fst c))) \<and>
     (\<lambda>c. node_of pa (fst c)) ` live \<inter> set free = {} \<and>
     (\<lambda>c. node_of pa (fst c)) ` live \<union> set free = {..<unat (max_nodes pa)} \<and>
     unat (node_count pa) = card live)"

lemma node_at_mono: "i \<le> j \<Longrightarrow> node_at pa i \<le> node_at pa j"
  by (simp add: node_at_def)

lemma node_at_Suc: "node_at pa (Suc i) = node_at pa i + unat (node_size pa)"
  by (simp add: node_at_def)

lemma node_of_in: "0 < unat (node_size pa) \<Longrightarrow> node_at pa i \<le> p \<Longrightarrow> p < node_at pa (Suc i) \<Longrightarrow> node_of pa p = i"
  unfolding node_of_def node_at_def by (intro div_nat_eqI) (auto simp: mult.commute)

text \<open>The parts of different nodes do not overlap.\<close>

lemma nodes_apart:
  assumes "i \<noteq> j" "node_at pa i \<le> x" "x < node_at pa (Suc i)" "node_at pa j \<le> y" "y < node_at pa (Suc j)"
  shows "x \<noteq> y"
proof (cases "i < j")
  case True
  then have "node_at pa (Suc i) \<le> node_at pa j" by (intro node_at_mono) simp
  with assms show ?thesis by simp
next
  case False
  with assms(1) have "node_at pa (Suc j) \<le> node_at pa i" by (intro node_at_mono) simp
  with assms show ?thesis by simp
qed


lemma node_upd [simp]:
  "node_at (pa\<lparr>free_list := fl, node_count := k\<rparr>) = node_at pa"
  "node_of (pa\<lparr>free_list := fl, node_count := k\<rparr>) = node_of pa"
  "in_node (pa\<lparr>free_list := fl, node_count := k\<rparr>) = in_node pa"
  "node_at (pa\<lparr>node_count := k, free_list := fl\<rparr>) = node_at pa"
  "node_of (pa\<lparr>node_count := k, free_list := fl\<rparr>) = node_of pa"
  "in_node (pa\<lparr>node_count := k, free_list := fl\<rparr>) = in_node pa"
  by (simp_all add: fun_eq_iff node_at_def node_of_def in_node_def)

lemma wf_poolD:
  assumes "wf_pool (pa, m) live free"
  shows "8 \<le> unat (node_size pa)" "pool_begin pa \<noteq> 0" "node_at pa (unat (max_nodes pa)) < 2 ^ 63"
    "chain m (free_list pa) (map (node_at pa) free)" "distinct free" "finite live"
    "inj_on (\<lambda>c. node_of pa (fst c)) live" "\<And>c. c \<in> live \<Longrightarrow> in_node pa c (node_of pa (fst c))"
    "(\<lambda>c. node_of pa (fst c)) ` live \<inter> set free = {}"
    "(\<lambda>c. node_of pa (fst c)) ` live \<union> set free = {..<unat (max_nodes pa)}" "unat (node_count pa) = card live"
  using assms by (auto simp: wf_pool_def)

text \<open>Number of live chunks, and that the counter does not wrap.\<close>

lemma wf_pool_count:
  assumes "wf_pool (pa, m) live free"
  shows "card live + length free = unat (max_nodes pa)" "unat (max_nodes pa) < 2 ^ 63"
proof -
  note w = wf_poolD [OF assms]
  have "card ((\<lambda>c. node_of pa (fst c)) ` live \<union> set free) = card live + length free"
    using w(5,6,7,9) by (simp add: card_Un_disjoint card_image distinct_card)
  then show "card live + length free = unat (max_nodes pa)" by (simp add: w(10))
  have "unat (max_nodes pa) \<le> unat (max_nodes pa) * unat (node_size pa)" using w(1) by simp
  also have "\<dots> \<le> node_at pa (unat (max_nodes pa))" by (simp add: node_at_def)
  finally show "unat (max_nodes pa) < 2 ^ 63" using w(3) by (rule order_le_less_trans)
qed

lemma wf_pool_node_bound:
  assumes "wf_pool (pa, m) live free" "i < unat (max_nodes pa)"
  shows "node_at pa i + unat (node_size pa) < 2 ^ 63"
  using node_at_mono [of "Suc i" "unat (max_nodes pa)" pa] assms wf_poolD(3) [OF assms(1)]
  by (simp add: node_at_Suc)

text \<open>A write inside a node that is not on the free list keeps the list.\<close>

lemma chain_other_nodes:
  assumes "chain m p (map (node_at pa) fs)" "i \<notin> set fs" "8 \<le> unat (node_size pa)"
    and "\<And>x. x < node_at pa i \<or> node_at pa (Suc i) \<le> x \<Longrightarrow> m' x = m x"
  shows "chain m' p (map (node_at pa) fs)"
proof (rule chain_frame [OF assms(1)])
  fix a x assume "a \<in> set (map (node_at pa) fs)" and x: "a \<le> x" "x < a + 8"
  then obtain j where j: "j \<in> set fs" "a = node_at pa j" by auto
  with x assms(3) have "node_at pa j \<le> x" "x < node_at pa (Suc j)" by (auto simp: node_at_Suc)
  moreover have "i \<noteq> j" using j assms(2) by auto
  ultimately show "m' x = m x" using nodes_apart [of i j pa x x] by (intro assms(4)) force
qed

lemma pool_acquire_node:
  assumes "wf_pool (pa, m) live (i # fs)"
  obtains p where "freelist_acquire (free_list pa) m = (p, load64 (node_at pa i) m)" "p \<noteq> 0" "unat p = node_at pa i"
    "i < unat (max_nodes pa)" "node_at pa i + unat (node_size pa) < 2 ^ 63"
proof -
  have i: "i < unat (max_nodes pa)" using wf_poolD(10) [OF assms] by auto
  have "free_list pa \<noteq> 0" "unat (free_list pa) = node_at pa i" using wf_poolD(4) [OF assms] by auto
  with i wf_pool_node_bound [OF assms i] that show thesis by (simp add: freelist_acquire_def)
qed

lemma pool_insert_chunk:
  assumes wf: "wf_pool (pa, m) live (i # fs)" and n: "0 < n" "pad + n \<le> unat (node_size pa)"
    and m': "\<And>x. x < node_at pa i \<or> node_at pa (Suc i) \<le> x \<Longrightarrow> m' x = m x"
  shows "wf_pool (pa\<lparr>free_list := load64 (node_at pa i) m, node_count := node_count pa + 1\<rparr>, m')
     (insert (node_at pa i + pad, n) live) fs"
proof -
  note w = wf_poolD [OF wf]
  let ?c = "(node_at pa i + pad, n)"
  have of: "node_of pa (fst ?c) = i"
    using n w(1) by (intro node_of_in) (simp_all add: node_at_Suc)
  then have new: "?c \<notin> live" using w(9) by force
  have "unat (node_count pa + 1) = Suc (card live)"
    using wf_pool_count [OF wf] w(11) by (subst unat_succ) simp_all
  moreover have "chain m' (load64 (node_at pa i) m) (map (node_at pa) fs)"
    using w(1,4,5) by (intro chain_other_nodes [OF _ _ _ m']) auto
  moreover have "in_node pa ?c i" using n by (simp add: in_node_def chunk_end_def node_at_Suc)
  ultimately show ?thesis
    using w of new by (auto simp: wf_pool_def)
qed


lemma pool_allocate_fits:
  fixes sz al off :: u64
  assumes "wf_pool (pa, m) live free" "0 < unat sz" "unat sz < 2 ^ 62" "0 < al" "unat al < 2 ^ 60" "unat off < 2 ^ 60"
  defines "pad \<equiv> \<lambda>i. padding_nat (node_at pa i + unat off) (unat al)"
  shows "case free of
       [] \<Rightarrow> pool_allocate sz al off (pa, m) = Inl Assertion_Failed
     | i # fs \<Rightarrow> if pad i + unat sz \<le> unat (node_size pa)
         then \<exists>ptr pa' m'. pool_allocate sz al off (pa, m) = Inr (ptr, pa', m') \<and> unat ptr = node_at pa i + pad i \<and>
           wf_pool (pa', m') (insert (unat ptr, unat sz) live) fs \<and>
           (\<forall>x. x < node_at pa i \<or> node_at pa (Suc i) \<le> x \<longrightarrow> m' x = m x)
         else pool_allocate sz al off (pa, m) = Inl Assertion_Failed"
proof (cases free)
  case Nil
  then show ?thesis using wf_poolD(4) [OF assms(1)] by (simp add: pool_allocate_def freelist_acquire_def)
next
  case (Cons i fs)
  obtain p where p: "freelist_acquire (free_list pa) m = (p, load64 (node_at pa i) m)" "p \<noteq> 0" "unat p = node_at pa i"
    "i < unat (max_nodes pa)" "node_at pa i + unat (node_size pa) < 2 ^ 63"
    using pool_acquire_node [OF assms(1) [unfolded Cons]] by metis
  have al: "0 < unat al" using assms(4) by (simp add: unat_gt_0 word_gt_0)
  have off: "unat (p + off) = node_at pa i + unat off"
    using p(3,5) assms(6) by (subst unat_add) simp_all
  obtain pd where pd: "alignment_padding (p + off) al = Inr pd" "unat pd = pad i"
    using alignment_padding_nat [of al "p + off"] assms(4) off by (auto simp: pad_def)
  have lim: "pad i < 2 ^ 60" using padding_nat_props(1) [OF al] assms(5) unfolding pad_def by (rule order_less_trans)
  have u: "unat (pd + sz) = pad i + unat sz" "unat (p + pd) = node_at pa i + pad i"
    using lim assms(3) p(3,5) pd(2) by (subst unat_add; simp)+
  let ?m = "mem_fill (unat p) (unat pd) k_alignment_padding_mark m"
  show ?thesis
  proof (cases "pad i + unat sz \<le> unat (node_size pa)")
    case True
    then have fr: "?m x = m x" if "x < node_at pa i \<or> node_at pa (Suc i) \<le> x" for x
      using that assms(2) p(3) pd(2) by (auto simp: mem_fill_def node_at_Suc)
    from pool_insert_chunk [OF assms(1) [unfolded Cons] assms(2) True, of ?m] fr True p(1,2) pd(1) u show ?thesis
      by (simp add: Cons pool_allocate_def word_le_nat_alt Let_def)
  next
    case False
    then show ?thesis using p(1,2) pd(1) u by (simp add: Cons pool_allocate_def word_le_nat_alt)
  qed
qed

lemma pool_deallocate_ok:
  assumes "wf_pool (pa, m) live free" "c \<in> live" "fst c = unat ptr"
  shows "\<exists>pa' m'. pool_deallocate ptr (pa, m) = Inr (pa', m') \<and>
     wf_pool (pa', m') (live - {c}) (node_of pa (fst c) # free) \<and>
     (\<forall>x. x < node_at pa (node_of pa (fst c)) \<or> node_at pa (Suc (node_of pa (fst c))) \<le> x \<longrightarrow> m' x = m x)"
proof -
  note w = wf_poolD [OF assms(1)]
  define i where "i = node_of pa (fst c)"
  let ?b = "unat (pool_begin pa)" and ?n = "unat (node_size pa)"
  have c: "node_at pa i \<le> unat ptr" "unat ptr < node_at pa (Suc i)"
    using w(8) [OF assms(2)] assms(3) by (auto simp: in_node_def chunk_end_def i_def split: prod.splits)
  have i: "i < unat (max_nodes pa)" "i \<notin> set free"
    using w(9,10) assms(2) by (auto simp: i_def)
  have "?b \<le> unat ptr" using c(1) by (simp add: node_at_def)
  then have off: "unat (ptr - pool_begin pa) = unat ptr - ?b" by (simp add: unat_sub word_le_nat_alt)
  have "(unat ptr - ?b) mod ?n = unat ptr - node_at pa i"
    unfolding minus_div_mult_eq_mod [symmetric] by (simp add: i_def assms(3) node_of_def node_at_def)
  then have md: "unat ((ptr - pool_begin pa) mod node_size pa) = unat ptr - node_at pa i"
    by (simp add: unat_mod off)
  then have base: "unat (ptr - (ptr - pool_begin pa) mod node_size pa) = node_at pa i"
    using c(1) by (simp add: unat_sub word_le_nat_alt)
  let ?q = "ptr - (ptr - pool_begin pa) mod node_size pa"
  let ?m = "store64 (unat ?q) (free_list pa) m"
  have fr: "?m x = m x" if "x < node_at pa i \<or> node_at pa (Suc i) \<le> x" for x
    using that w(1) by (intro store64_frame) (auto simp: base node_at_Suc)
  have "chain ?m (free_list pa) (map (node_at pa) free)"
    using i(2) w(1) fr by (rule chain_other_nodes [OF w(4)])
  moreover have "?q \<noteq> 0"
  proof
    assume "?q = 0"
    with base have "node_at pa i = 0" by simp
    with w(2) show False by (simp add: node_at_def unat_eq_zero)
  qed
  ultimately have ch: "chain ?m ?q (map (node_at pa) (i # free))" by (simp add: base)
  have pos: "0 < card live" using assms(2) w(6) by (auto simp: card_gt_0_iff)
  then have cnt: "unat (node_count pa - 1) = card (live - {c})"
    using w(6,11) assms(2) by (metis card_Diff_singleton unat_minus_one unat_0 less_irrefl)
  have img: "(\<lambda>c. node_of pa (fst c)) ` (live - {c}) = (\<lambda>c. node_of pa (fst c)) ` live - {i}"
    using w(7) assms(2) by (auto simp: i_def inj_on_def)
  have inj: "inj_on (\<lambda>c. node_of pa (fst c)) (live - {c})"
    using w(7) by (rule inj_on_subset) auto
  have "wf_pool (pa\<lparr>node_count := node_count pa - 1, free_list := ?q\<rparr>, ?m) (live - {c}) (i # free)"
    unfolding wf_pool_def prod.case node_upd img
    using w ch cnt inj i by auto
  moreover have "node_size pa \<noteq> 0" using w(1) by auto
  ultimately show ?thesis using fr unfolding i_def [symmetric]
    by (simp add: pool_deallocate_def freelist_release_def Let_def)
qed

text \<open>Whatever the owner of a chunk writes into it.\<close>

lemma pool_client_write:
  assumes "wf_pool (pa, m) live free" "c \<in> live" "\<And>x. x \<notin> chunk_bytes c \<Longrightarrow> m' x = m x"
  shows "wf_pool (pa, m') live free"
proof -
  note w = wf_poolD [OF assms(1)]
  let ?i = "node_of pa (fst c)"
  have "?i \<notin> set free" using w(9) assms(2) by auto
  moreover have "m' x = m x" if "x < node_at pa ?i \<or> node_at pa (Suc ?i) \<le> x" for x
    using that w(8) [OF assms(2)] by (intro assms(3)) (auto simp: in_node_def chunk_bytes_def)
  ultimately have "chain m' (free_list pa) (map (node_at pa) free)"
    using w(1) by (intro chain_other_nodes [OF w(4)])
  with assms(1) show ?thesis by (auto simp: wf_pool_def)
qed


section \<open>The constructor establishes the invariant\<close>

lemma freelist_init_wf:
  fixes b ns k :: u64
  assumes "8 \<le> unat ns" "0 < unat b" "0 < unat k" "unat b + unat k * unat ns < 2 ^ 62"
    and "freelist_init b ns k m = (fl, m')"
  shows "wf_pool (\<lparr>node_size = ns, max_nodes = k, node_count = 0, pool_begin = b, pool_end = e, free_list = fl\<rparr>, m') {} [0..<unat k]"
proof -
  let ?pa = "\<lparr>node_size = ns, max_nodes = k, node_count = 0, pool_begin = b, pool_end = e, free_list = fl\<rparr>"
  have S: "Suc (unat k - 1) = unat k" "unat k - 1 + 1 = unat k" using assms(3) by simp_all
  have bound: "unat b + (unat k - 1 + 1) * unat ns < 2 ^ 63" using assms(4) S by simp
  have "unat b + unat ns \<le> unat b + unat k * unat ns" using assms(3) by simp
  then have "unat b + unat ns < 2 ^ 62" using assms(4) by (rule order_le_less_trans)
  then have "unat (b + ns) = unat b + unat ns" by (intro unat_add) simp
  from freelist_loop_chain [OF assms(1) this bound, of m] assms(2,5)
  have "chain m' fl (map (\<lambda>i. unat b + i * unat ns) [0..<Suc (unat k - 1)])"
    by (auto simp: freelist_init_def unat_gt_0)
  then have "chain m' fl (map (\<lambda>i. unat b + i * unat ns) [0..<unat k])" by (simp only: S)
  moreover have "node_at ?pa = (\<lambda>i. unat b + i * unat ns)" by (simp add: node_at_def fun_eq_iff)
  ultimately show ?thesis
    using assms(1,2,4) by (auto simp: wf_pool_def)
qed

text \<open>The node size: at least what was asked for, and a multiple of the greatest alignment.\<close>

lemma to_int32_small:
  assumes "unat w < 2 ^ 31"
  shows "to_int32 w = int (unat w)"
proof -
  have "unat (ucast w :: u32) = unat w" using assms by (intro ucast_u64_u32) simp
  then have "uint (ucast w :: u32) = int (unat w)" by (metis uint_nat)
  moreover have "signed_take_bit 31 (int n) = int n" if "n < 2 ^ 31" for n
    using that by (intro signed_take_bit_int_eq_self) simp_all
  note this [OF assms]
  ultimately show ?thesis unfolding to_int32_def sint_uint by simp
qed

lemma pool_node_size:
  fixes user_size max_alignment :: u64 and deco :: u32
  assumes "unat max_alignment = 2 ^ k" "unat user_size + unat deco + 2 ^ k + 2 ^ k \<le> 2 ^ 31"
    and "round_up_pow2 (to_int32 (user_size + ucast deco + max_alignment)) (to_int32 max_alignment) = Some ns"
  shows "unat user_size + unat deco + 2 ^ k \<le> unat ns" "2 ^ k dvd unat ns" "unat ns \<le> 2 ^ 31"
proof -
  define S where "S = unat user_size + unat deco + 2 ^ k"
  have "unat (user_size + ucast deco :: u64) = unat user_size + unat deco"
    using assms(2) by (subst unat_add) (simp_all add: ucast_u32_u64)
  then have "unat (user_size + ucast deco + max_alignment) = S"
    using assms(1,2) by (subst unat_add) (simp_all add: S_def)
  moreover have "(2::nat) ^ (k + 1) \<le> 2 ^ 31" using assms(2) by simp
  then have k: "k \<le> 30" using power_le_imp_le_exp [of "2::nat" "k + 1" 31] by simp
  have q: "0 < (2::nat) ^ k" by simp
  then have S: "S < 2 ^ 31" "unat max_alignment < 2 ^ 31" using assms(1,2) unfolding S_def by linarith+
  ultimately have eq: "to_int32 (user_size + ucast deco + max_alignment) = int S" "to_int32 max_alignment = 2 ^ k"
    using assms(1) by (simp_all add: to_int32_small)
  have low: "- (2 ^ 31) \<le> int S" by simp
  define i :: int where "i = (int S + 2 ^ k - 1) div 2 ^ k * 2 ^ k"
  have fit: "int S + 2 ^ k < 2 ^ 31" "ns = word_of_int i"
    using round_up_pow2_eq [OF low k] assms(3) by (simp_all add: eq i_def split: if_splits)
  have pos: "(0::int) < 2 ^ k" by simp
  note le_round_up [OF pos, of "int S", folded i_def] round_up_le [OF pos, of "int S", folded i_def]
  with fit(1) have i: "int S \<le> i" "i < 2 ^ 31" by linarith+
  then have "uint ns = i" unfolding fit(2) by (simp add: unsigned_of_int take_bit_int_eq_self)
  then have u: "int (unat ns) = i" by simp
  with i(1) have "S \<le> unat ns" by linarith
  then show "unat user_size + unat deco + 2 ^ k \<le> unat ns" by (simp add: S_def)
  from i(2) u have "int (unat ns) < int (2 ^ 31)" by (simp only: of_nat_power of_nat_numeral)
  then show "unat ns \<le> 2 ^ 31" by (simp only: of_nat_less_iff less_imp_le)
  have "int (2 ^ k) dvd int (unat ns)" unfolding u by (simp add: i_def)
  then show "2 ^ k dvd unat ns" by (simp only: of_nat_dvd_iff)
qed

lemma new_pool_wf:
  fixes addr total_sz user_size max_alignment nodes :: u64 and deco :: u32
  assumes "0 < unat addr" "unat addr + unat total_sz < 2 ^ 62" "unat max_alignment = 2 ^ k"
    and "unat user_size + unat deco + 2 ^ k + 2 ^ k \<le> 2 ^ 31" "8 \<le> unat user_size + unat deco + 2 ^ k"
    and "0 < unat nodes" "unat nodes < 2 ^ 31"
    and "new_pool_allocator deco nodes user_size max_alignment name (new_area addr total_sz m0) = Inr (pa, ha, m)"
  shows "wf_pool (pa, m) {} [0..<unat nodes] \<and> max_nodes pa = nodes \<and>
    unat user_size + unat deco + 2 ^ k \<le> unat (node_size pa) \<and> 2 ^ k dvd unat (node_size pa) \<and>
    unat (pool_begin pa) mod 64 = 0 \<and>
    unat addr \<le> unat (pool_begin pa) \<and> node_at pa (unat nodes) \<le> unat addr + unat total_sz"
proof -
  obtain ns where ns: "round_up_pow2 (to_int32 (user_size + ucast deco + max_alignment)) (to_int32 max_alignment) = Some ns"
    using assms(8) by (auto simp: new_pool_allocator_def split: option.splits)
  note N = pool_node_size [OF assms(3,4) ns]
  obtain ha0 m1 where a: "new_area addr total_sz m0 = (ha0, m1)" by fastforce
  then have wf: "wf_area ha0" and ha0: "area_begin ha0 = addr" "area_size ha0 = total_sz" "area_head ha0 = addr"
    using new_area_wf [OF assms(2), of m0] by (auto simp: new_area_def)
  from assms(8) obtain b e m2 where r: "require_slab (ns * nodes) name (ha0, m1) = Inr ((b, e), ha, m2)"
    "freelist_init b ns nodes m2 = (b, m)"
    and pa: "pa = \<lparr>node_size = ns, max_nodes = nodes, node_count = 0, pool_begin = b, pool_end = b + nodes * ns, free_list = b\<rparr>"
    by (auto simp: new_pool_allocator_def ns a res_bind_eq_Inr Let_def freelist_init_def)
  have "unat ns * unat nodes \<le> 2 ^ 31 * (2 ^ 31 - 1)" using N(3) assms(7) by (intro mult_mono) auto
  then have sz: "unat (ns * nodes) = unat ns * unat nodes" "unat (ns * nodes) < 2 ^ 62"
    by (auto simp: unat_word_ariths)
  have b: "unat b = unat addr + padding_nat (unat addr) 64" "unat b + unat ns * unat nodes \<le> unat addr + unat total_sz"
    using require_slab_fits [OF wf sz(2), of name m1] r(1) by (auto simp: ha0 sz(1) split: if_splits)
  have "wf_pool (pa, m) {} [0..<unat nodes]"
    unfolding pa using N(1) assms(1,2,5,6) b by (intro freelist_init_wf [OF _ _ _ _ r(2)]) (simp_all add: mult.commute)
  then show ?thesis
    using N b assms(1) padding_nat_props(2) [of 64 "unat addr"] by (simp add: pa node_at_def mult.commute)
qed

section \<open>The pool as an allocation policy\<close>

definition pool_live :: "pool_allocator \<times> memory \<Rightarrow> chunk set \<Rightarrow> bool" where
  "pool_live s live \<longleftrightarrow> (\<exists>free. wf_pool s live free)"

lemma pool_liveE:
  assumes "pool_live (pa, m) live"
  obtains free where "wf_pool (pa, m) live free"
  using assms by (auto simp: pool_live_def)

lemma pool_chunk_in_node:
  assumes "wf_pool (pa, m) live free" "c \<in> live" "x \<in> chunk_bytes c"
  shows "node_at pa (node_of pa (fst c)) \<le> x \<and> x < node_at pa (Suc (node_of pa (fst c)))"
  using wf_poolD(8) [OF assms(1,2)] assms(3) by (auto simp: in_node_def chunk_bytes_def)

lemma pool_frame:
  assumes "wf_pool (pa, m) live free" "c \<in> live" "x \<in> chunk_bytes c" "node_of pa (fst c) \<noteq> i"
    and "\<And>x. x < node_at pa i \<or> node_at pa (Suc i) \<le> x \<Longrightarrow> m' x = m x"
  shows "m' x = m x"
  using pool_chunk_in_node [OF assms(1-3)] nodes_apart [OF assms(4), of pa x x]
  by (intro assms(5)) force

lemma pool_live_allocate:
  assumes "pool_live (pa, m) live" "good_request sz al off" "pool_allocate sz al off (pa, m) = Inr (p, pa', m')"
  shows "p \<noteq> 0 \<and> unat p + unat sz < 2 ^ 63 \<and> (unat p + unat off) mod unat al = 0 \<and> (unat p, unat sz) \<notin> live \<and>
     pool_live (pa', m') (insert (unat p, unat sz) live) \<and> (\<forall>c \<in> live. \<forall>x \<in> chunk_bytes c. m' x = m x)"
proof -
  obtain free where wf: "wf_pool (pa, m) live free" using assms(1) by (rule pool_liveE)
  have req: "0 < unat sz" "unat sz < 2 ^ 62" "0 < al" "unat al < 2 ^ 60" "unat off < 2 ^ 60" "0 < unat al"
    using assms(2) by (auto simp: good_request_def unat_gt_0 word_gt_0)
  note fits = pool_allocate_fits [OF wf req(1-5)]
  obtain i fs where free: "free = i # fs" using fits assms(3) by (cases free) auto
  define pad where "pad = padding_nat (node_at pa i + unat off) (unat al)"
  from fits assms(3) have r: "pad + unat sz \<le> unat (node_size pa)" "unat p = node_at pa i + pad"
    "wf_pool (pa', m') (insert (unat p, unat sz) live) fs"
    "\<And>x. x < node_at pa i \<or> node_at pa (Suc i) \<le> x \<Longrightarrow> m' x = m x"
    by (auto simp: free simp flip: pad_def split: if_splits)
  have i: "i < unat (max_nodes pa)" "i \<notin> (\<lambda>c. node_of pa (fst c)) ` live"
    using wf_poolD(9,10) [OF wf] by (auto simp: free)
  have "node_of pa (unat p) = i"
    using r(1,2) req(1) wf_poolD(1) [OF wf] by (intro node_of_in) (auto simp: node_at_Suc)
  then have "(unat p, unat sz) \<notin> live" using i(2) by force
  moreover have "m' x = m x" if "c \<in> live" "x \<in> chunk_bytes c" for c x
    using i(2) that(1) r(4) by (intro pool_frame [OF wf that]) auto
  moreover have "(node_at pa i + pad + unat off) mod unat al = 0"
    using padding_nat_props(2) [OF req(6), of "node_at pa i + unat off"] by (simp add: pad_def ac_simps)
  moreover have "p \<noteq> 0"
    using r(2) wf_poolD(2) [OF wf] by (auto simp: node_at_def unat_eq_zero)
  ultimately show ?thesis
    using r(1,2,3) wf_pool_node_bound [OF wf i(1)] by (auto simp: pool_live_def)
qed

interpretation pool: arena_allocator pool_allocate pool_deallocate pool_live good_request
proof unfold_locales
  show "finite live" if "pool_live s live" for s live
    using that wf_poolD(6) by (cases s) (auto simp: pool_live_def)
  show "chunk_bytes c \<inter> chunk_bytes d = {}"
    if "pool_live s live" "c \<in> live" "d \<in> live" "c \<noteq> d" for s live c d
  proof -
    obtain pa m free where wf: "wf_pool (pa, m) live free" using \<open>pool_live s live\<close> unfolding pool_live_def by (metis surj_pair)
    have "node_of pa (fst c) \<noteq> node_of pa (fst d)" using wf_poolD(7) [OF wf] that(2-4) by (auto dest: inj_onD)
    with nodes_apart [of "node_of pa (fst c)" "node_of pa (fst d)" pa] pool_chunk_in_node [OF wf] that(2,3)
    show ?thesis by blast
  qed
  show "\<exists>a' m'. pool_deallocate p (a, m) = Inr (a', m') \<and> pool_live (a', m') (live - {(unat p, n)}) \<and>
      (\<forall>c \<in> live - {(unat p, n)}. \<forall>x \<in> chunk_bytes c. m' x = m x)"
    if l: "pool_live (a, m) live" and c: "(unat p, n) \<in> live" for a m live p n
  proof -
    obtain free where wf: "wf_pool (a, m) live free" using l by (rule pool_liveE)
    from pool_deallocate_ok [OF wf c, of p] obtain a' m' where r: "pool_deallocate p (a, m) = Inr (a', m')"
      "wf_pool (a', m') (live - {(unat p, n)}) (node_of a (unat p) # free)"
      "\<forall>x. x < node_at a (node_of a (unat p)) \<or> node_at a (Suc (node_of a (unat p))) \<le> x \<longrightarrow> m' x = m x"
      by auto
    have "m' x = m x" if "d \<in> live" "d \<noteq> (unat p, n)" "x \<in> chunk_bytes d" for d x
    proof (rule pool_frame [OF wf that(1,3), where i = "node_of a (unat p)"])
      show "node_of a (fst d) \<noteq> node_of a (unat p)"
        using inj_onD [OF wf_poolD(7) [OF wf], of d "(unat p, n)"] that(1,2) c by auto
    qed (use r(3) in blast)
    with r(1,2) show ?thesis unfolding pool_live_def by blast
  qed
  show "pool_live (a, m') live"
    if "pool_live (a, m) live" "c \<in> live" "\<And>x. x \<notin> chunk_bytes c \<Longrightarrow> m' x = m x" for a m m' live c
    using that pool_client_write unfolding pool_live_def by metis
qed (use pool_live_allocate in blast)+

section \<open>Properties of the pool\<close>

text \<open>
  C24. A pool serves all of its nodes: in every well-formed state, a request whose size and worst
  padding fit in a node succeeds exactly when fewer chunks than \<open>max_nodes\<close> are live, and fails with
  the out-of-memory assertion otherwise.
\<close>

theorem pool_serves_every_node:
  assumes "pool_live (pa, m) live" and "good_request sz al off" and "unat sz + unat al \<le> unat (node_size pa) + 1"
  shows "if card live < unat (max_nodes pa) then \<exists>p s'. pool_allocate sz al off (pa, m) = Inr (p, s')
     else pool_allocate sz al off (pa, m) = Inl Assertion_Failed"
proof -
  obtain free where wf: "wf_pool (pa, m) live free" using assms(1) by (rule pool_liveE)
  have req: "0 < unat sz" "unat sz < 2 ^ 62" "0 < al" "unat al < 2 ^ 60" "unat off < 2 ^ 60" "0 < unat al"
    using assms(2) by (auto simp: good_request_def unat_gt_0 word_gt_0)
  have "padding_nat a (unat al) + unat sz \<le> unat (node_size pa)" for a
    using padding_nat_props(1) [OF req(6), of a] assms(3) by linarith
  with pool_allocate_fits [OF wf req(1-5)] wf_pool_count(1) [OF wf] show ?thesis
    by (cases free) auto
qed

theorem pool_serves_every_node_witness:
  "\<exists>pa m p s'. node_size pa = 16 \<and> max_nodes pa = 2 \<and> pool_live (pa, m) {} \<and> pool_allocate 9 8 4 (pa, m) = Inr (p, s')"
proof -
  obtain fl m where f: "freelist_init 4096 16 2 (\<lambda>_. 0) = (fl, m)" by fastforce
  let ?pa = "\<lparr>node_size = 16, max_nodes = 2, node_count = 0, pool_begin = 4096, pool_end = 4128, free_list = fl\<rparr>"
  have l: "pool_live (?pa, m) {}"
    using freelist_init_wf [OF _ _ _ _ f] unfolding pool_live_def by (intro exI) simp
  have "\<exists>p s'. pool_allocate 9 8 4 (?pa, m) = Inr (p, s')"
    using pool_serves_every_node [OF l, of 9 8 4] by (simp add: good_request_def)
  with l show ?thesis by (intro exI [of _ ?pa] exI [of _ m]) simp
qed

text \<open>The default value of the alignment parameter of \<open>allocate\<close> makes it divide by zero.\<close>

theorem pool_default_alignment_faults:
  "free_list pa \<noteq> 0 \<Longrightarrow> pool_allocate sz 0 0 (pa, m) = Inl Division_By_Zero"
  by (simp add: pool_allocate_def freelist_acquire_def alignment_padding_def Let_def)

text \<open>
  The conversion of the node size to \<open>int32_t\<close> drops its upper half: nodes of four gigabytes become
  nodes of 16 bytes. From two gigabytes on, the sum of the rounding overflows.
\<close>

theorem huge_nodes:
  "round_up_pow2 (to_int32 (2 ^ 32 + 16)) (to_int32 8) = Some 16 \<and>
   round_up_pow2 (to_int32 (2 ^ 31 - 8)) (to_int32 8) = None"
  by code_simp

text \<open>A free list over nodes smaller than a pointer: the links overwrite each other and the second node is lost.\<close>

theorem small_nodes_corrupt_list:
  "(let (fl, m) = freelist_init 4096 4 3 (\<lambda>_. 0); (p1, fl1) = freelist_acquire fl m
    in p1 = 4096 \<and> fl1 \<noteq> 4100)"
  by code_simp

end
