(* ===== verification/Memory_Arena.thy ===== *)
theory Memory_Arena
  imports Linear_Memory Pool_Memory
begin

text \<open>
  \<open>kb::memory::MemoryArena\<close> (\<open>memory/arena.h\<close>): an allocation policy behind a thread guard, with the
  size of each allocation and, with bounds checking, sentinels written around the user data, and a
  memory tracker. The allocator is a parameter of the operations, as it is of the class template;
  the policies that a template argument switches on are fields of the arena. No memory
  tagging policy exists in the library, so tagging is always the null policy.
\<close>

section \<open>Policies\<close>

text \<open>\<open>SimpleMemoryTracking\<close> and \<open>VerboseMemoryTracking\<close>; a location is a file and a line.\<close>

type_synonym location = "string \<times> int"

record alloc_info =
  info_begin :: u64
  info_decorated_size :: u64
  info_alignment :: u64
  info_location :: location

datatype tracker = No_Memory_Tracking | Simple_Memory_Tracking int
  | Verbose_Memory_Tracking int "u64 \<rightharpoonup> alloc_info"

fun on_allocation :: "u64 \<Rightarrow> u64 \<Rightarrow> u64 \<Rightarrow> location \<Rightarrow> tracker \<Rightarrow> tracker" where
  "on_allocation b sz al loc No_Memory_Tracking = No_Memory_Tracking"
| "on_allocation b sz al loc (Simple_Memory_Tracking n) = Simple_Memory_Tracking (n + 1)"
| "on_allocation b sz al loc (Verbose_Memory_Tracking n infos) =
     Verbose_Memory_Tracking (n + 1)
       (case infos b of Some _ \<Rightarrow> infos
        | None \<Rightarrow> infos(b \<mapsto> \<lparr>info_begin = b, info_decorated_size = sz, info_alignment = al, info_location = loc\<rparr>))"

fun on_deallocation :: "u64 \<Rightarrow> tracker \<Rightarrow> tracker" where
  "on_deallocation b No_Memory_Tracking = No_Memory_Tracking"
| "on_deallocation b (Simple_Memory_Tracking n) = Simple_Memory_Tracking (n - 1)"
| "on_deallocation b (Verbose_Memory_Tracking n infos) = Verbose_Memory_Tracking (n - 1) (infos(b := None))"

text \<open>The report: the mismatch and the unresolved allocations, if the count is not zero.\<close>

fun tracker_report :: "tracker \<Rightarrow> (int \<times> u64 set) option" where
  "tracker_report No_Memory_Tracking = None"
| "tracker_report (Simple_Memory_Tracking n) = (if n \<noteq> 0 then Some (n, {}) else None)"
| "tracker_report (Verbose_Memory_Tracking n infos) = (if n \<noteq> 0 then Some (n, dom infos) else None)"

definition k_sentinel_front :: u64 where
  "k_sentinel_front = 0xf0f0f0f0f0f0f0f0"

definition k_sentinel_back :: u64 where
  "k_sentinel_back = 0x0f0f0f0f0f0f0f0f"

section \<open>The arena\<close>

record 'a arena =
  allocator :: 'a
  bounds_checked :: bool
  guarded :: bool
  locked :: bool
  memory_tracker :: tracker

definition sentinel_size :: "'a arena \<Rightarrow> u64" where
  "sentinel_size ar = (if bounds_checked ar then 8 else 0)"

definition k_front_overhead :: "'a arena \<Rightarrow> u64" where
  "k_front_overhead ar = sentinel_size ar + 8"

definition k_back_overhead :: "'a arena \<Rightarrow> u64" where
  "k_back_overhead ar = sentinel_size ar"

definition k_allocation_overhead :: "'a arena \<Rightarrow> u64" where
  "k_allocation_overhead ar = k_front_overhead ar + k_back_overhead ar"

definition guard_enter :: "'a arena \<Rightarrow> fault + 'a arena" where
  "guard_enter ar =
     (if guarded ar then (if locked ar then Inl Deadlock else Inr (ar\<lparr>locked := True\<rparr>)) else Inr ar)"

definition guard_leave :: "'a arena \<Rightarrow> 'a arena" where
  "guard_leave ar = (if guarded ar then ar\<lparr>locked := False\<rparr> else ar)"

definition put_sentinel :: "'a arena \<Rightarrow> u64 \<Rightarrow> u64 \<Rightarrow> memory \<Rightarrow> memory" where
  "put_sentinel ar ptr v m = (if bounds_checked ar then store64 (unat ptr) v m else m)"

definition check_sentinel :: "'a arena \<Rightarrow> u64 \<Rightarrow> u64 \<Rightarrow> memory \<Rightarrow> fault + unit" where
  "check_sentinel ar ptr v m = k_assert (bounds_checked ar \<longrightarrow> load64 (unat ptr) m = v)"

definition arena_allocate ::
  "(u64 \<Rightarrow> u64 \<Rightarrow> u64 \<Rightarrow> 'a \<times> memory \<Rightarrow> fault + u64 \<times> 'a \<times> memory) \<Rightarrow>
   u64 \<Rightarrow> u64 \<Rightarrow> u64 \<Rightarrow> location \<Rightarrow> 'a arena \<times> memory \<Rightarrow> fault + u64 \<times> 'a arena \<times> memory" where
  "arena_allocate alloc sz alignment offset loc = (\<lambda>(ar, m).
     res_bind (guard_enter ar) (\<lambda>ar0.
     let decorated_size = k_allocation_overhead ar + sz;
         offset' = offset + k_front_overhead ar
     in res_bind (alloc decorated_size alignment offset' (allocator ar0, m)) (\<lambda>(begin_ptr, a, m0).
     let ar1 = ar0\<lparr>allocator := a\<rparr>
     in if begin_ptr = 0 then Inr (0, ar1, m0)
        else (let m1 = put_sentinel ar begin_ptr k_sentinel_front m0;
                  m2 = store64 (unat (begin_ptr + sentinel_size ar)) decorated_size m1;
                  user_ptr = begin_ptr + k_front_overhead ar;
                  m3 = put_sentinel ar (user_ptr + sz) k_sentinel_back m2;
                  ar2 = ar1\<lparr>memory_tracker :=
                    on_allocation begin_ptr decorated_size alignment loc (memory_tracker ar1)\<rparr>
              in Inr (user_ptr, guard_leave ar2, m3)))))"

definition arena_deallocate ::
  "(u64 \<Rightarrow> 'a \<times> memory \<Rightarrow> fault + 'a \<times> memory) \<Rightarrow> u64 \<Rightarrow> 'a arena \<times> memory \<Rightarrow> fault + 'a arena \<times> memory" where
  "arena_deallocate dealloc ptr = (\<lambda>(ar, m).
     res_bind (guard_enter ar) (\<lambda>ar0.
     let begin_ptr = ptr - k_front_overhead ar
     in res_bind (check_sentinel ar begin_ptr k_sentinel_front m) (\<lambda>_.
     let decorated_size = load64 (unat (begin_ptr + sentinel_size ar)) m
     in res_bind (check_sentinel ar (begin_ptr + decorated_size - sentinel_size ar) k_sentinel_back m) (\<lambda>_.
     let ar1 = ar0\<lparr>memory_tracker := on_deallocation begin_ptr (memory_tracker ar0)\<rparr>
     in res_bind (dealloc begin_ptr (allocator ar1, m)) (\<lambda>(a, m0).
     Inr (guard_leave (ar1\<lparr>allocator := a\<rparr>), m0))))))"

definition arena_reset :: "('a \<Rightarrow> 'a) \<Rightarrow> 'a arena \<Rightarrow> fault + 'a arena" where
  "arena_reset reset ar =
     res_bind (guard_enter ar) (\<lambda>ar0. Inr (guard_leave (ar0\<lparr>allocator := reset (allocator ar0)\<rparr>)))"

text \<open>
  Arrays of \<open>n\<close> objects of \<open>tsz\<close> bytes. The operations also return the addresses of the objects that
  are constructed or destroyed, in order (none when the type is trivial).
\<close>

definition arena_new_array ::
  "(u64 \<Rightarrow> u64 \<Rightarrow> u64 \<Rightarrow> 'a \<times> memory \<Rightarrow> fault + u64 \<times> 'a \<times> memory) \<Rightarrow>
   bool \<Rightarrow> u64 \<Rightarrow> u64 \<Rightarrow> u64 \<Rightarrow> location \<Rightarrow> 'a arena \<times> memory \<Rightarrow> fault + (u64 \<times> u64 list) \<times> 'a arena \<times> memory" where
  "arena_new_array alloc trivial tsz n alignment loc s =
     (if trivial
      then res_bind (arena_allocate alloc (tsz * n) alignment 0 loc s) (\<lambda>(ptr, s'). Inr ((ptr, []), s'))
      else res_bind (arena_allocate alloc (tsz * n + 8) alignment 8 loc s) (\<lambda>(ptr, ar, m).
           if ptr = 0 then Inl Null_Dereference
           else (let as_T = ptr + 8
                 in Inr ((as_T, map (\<lambda>i. as_T + word_of_nat i * tsz) [0..<unat n]), ar, store64 (unat ptr) n m))))"

definition arena_delete_array ::
  "(u64 \<Rightarrow> 'a \<times> memory \<Rightarrow> fault + 'a \<times> memory) \<Rightarrow>
   bool \<Rightarrow> u64 \<Rightarrow> u64 \<Rightarrow> 'a arena \<times> memory \<Rightarrow> fault + u64 list \<times> 'a arena \<times> memory" where
  "arena_delete_array dealloc trivial tsz object s =
     (if trivial then res_bind (arena_deallocate dealloc object s) (\<lambda>s'. Inr ([], s'))
      else (let n = load64 (unat (object - 8)) (snd s)
            in res_bind (arena_deallocate dealloc (object - 8) s) (\<lambda>s'.
               Inr (map (\<lambda>i. object + word_of_nat i * tsz) (rev [0..<unat n]), s'))))"


section \<open>The arena as a store of blocks\<close>

text \<open>
  The abstraction: a map from user pointers to the bytes of the blocks. A block of \<open>n\<close> bytes at
  \<open>p\<close> is a chunk of the allocator together with its decorations.
\<close>

type_synonym blocks = "nat \<rightharpoonup> u8 list"

definition front_size :: "'a arena \<Rightarrow> nat" where
  "front_size ar = (if bounds_checked ar then 16 else 8)"

definition back_size :: "'a arena \<Rightarrow> nat" where
  "back_size ar = (if bounds_checked ar then 8 else 0)"

definition block_chunk :: "'a arena \<Rightarrow> nat \<Rightarrow> nat \<Rightarrow> chunk" where
  "block_chunk ar p n = (p - front_size ar, front_size ar + n + back_size ar)"

definition block_chunks :: "'a arena \<Rightarrow> blocks \<Rightarrow> chunk set" where
  "block_chunks ar blocks = (\<lambda>p. block_chunk ar p (length (the (blocks p)))) ` dom blocks"

definition decorated :: "'a arena \<Rightarrow> memory \<Rightarrow> nat \<Rightarrow> nat \<Rightarrow> bool" where
  "decorated ar m p n \<longleftrightarrow> load64 (p - 8) m = word_of_nat (front_size ar + n + back_size ar) \<and>
     (bounds_checked ar \<longrightarrow> load64 (p - 16) m = k_sentinel_front \<and> load64 (p + n) m = k_sentinel_back)"

definition block_ok :: "'a arena \<Rightarrow> memory \<Rightarrow> nat \<Rightarrow> u8 list \<Rightarrow> bool" where
  "block_ok ar m p bs \<longleftrightarrow> front_size ar \<le> p \<and> p + length bs + back_size ar < 2 ^ 63 \<and>
     decorated ar m p (length bs) \<and> mem_read p (length bs) m = bs"

fun tracks :: "'a arena \<Rightarrow> tracker \<Rightarrow> nat set \<Rightarrow> bool" where
  "tracks ar No_Memory_Tracking ps = True"
| "tracks ar (Simple_Memory_Tracking n) ps = (n = int (card ps))"
| "tracks ar (Verbose_Memory_Tracking n infos) ps =
     (n = int (card ps) \<and> dom infos = (\<lambda>p. word_of_nat (p - front_size ar)) ` ps)"

definition store_rel :: "('a \<times> memory \<Rightarrow> chunk set \<Rightarrow> bool) \<Rightarrow> 'a arena \<times> memory \<Rightarrow> blocks \<Rightarrow> bool" where
  "store_rel I = (\<lambda>(ar, m) blocks. (guarded ar \<longrightarrow> \<not> locked ar) \<and> finite (dom blocks) \<and>
     I (allocator ar, m) (block_chunks ar blocks) \<and>
     (\<forall>p bs. blocks p = Some bs \<longrightarrow> block_ok ar m p bs) \<and> tracks ar (memory_tracker ar) (dom blocks))"

lemma overheads:
  "unat (sentinel_size ar) = back_size ar" "unat (k_front_overhead ar) = front_size ar"
  "unat (k_allocation_overhead ar) = front_size ar + back_size ar"
  "front_size ar = back_size ar + 8" "back_size ar \<le> 8"
  by (simp_all add: sentinel_size_def k_front_overhead_def k_back_overhead_def k_allocation_overhead_def
      front_size_def back_size_def)

lemma block_bytes:
  "front_size ar \<le> p \<Longrightarrow> chunk_bytes (block_chunk ar p n) = {p - front_size ar..<p + n + back_size ar}"
  by (auto simp: chunk_bytes_def block_chunk_def chunk_end_def)

lemma mem_read_frame: "(\<And>x. a \<le> x \<Longrightarrow> x < a + n \<Longrightarrow> m' x = m x) \<Longrightarrow> mem_read a n m' = mem_read a n m"
  unfolding mem_read_def by (intro map_cong) auto

lemma decorated_frame:
  assumes "front_size ar \<le> p"
    "\<And>x. p - front_size ar \<le> x \<Longrightarrow> x < p \<or> p + n \<le> x \<Longrightarrow> x < p + n + back_size ar \<Longrightarrow> m' x = m x"
  shows "decorated ar m' p n = decorated ar m p n"
proof -
  have "load64 (p - 8) m' = load64 (p - 8) m"
    using assms(1) by (intro load64_frame assms(2)) (auto simp: front_size_def split: if_splits)
  moreover have "load64 (p - 16) m' = load64 (p - 16) m \<and> load64 (p + n) m' = load64 (p + n) m"
    if "bounds_checked ar"
    using that assms(1) by (intro conjI load64_frame assms(2)) (auto simp: front_size_def back_size_def)
  ultimately show ?thesis by (auto simp: decorated_def)
qed

lemma block_frame:
  assumes "block_ok ar m p bs" "\<And>x. x \<in> chunk_bytes (block_chunk ar p (length bs)) \<Longrightarrow> m' x = m x"
  shows "block_ok ar m' p bs"
proof -
  have p: "front_size ar \<le> p" using assms(1) by (simp add: block_ok_def)
  have "decorated ar m' p (length bs) = decorated ar m p (length bs)"
    using p by (intro decorated_frame assms(2)) (auto simp: block_bytes)
  moreover have "mem_read p (length bs) m' = mem_read p (length bs) m"
    using p by (intro mem_read_frame assms(2)) (auto simp: block_bytes)
  ultimately show ?thesis using assms(1) by (simp add: block_ok_def)
qed

lemma block_ok_cong:
  "bounds_checked ar' = bounds_checked ar \<Longrightarrow> block_ok ar' = block_ok ar"
  "bounds_checked ar' = bounds_checked ar \<Longrightarrow> block_chunks ar' = block_chunks ar"
  "bounds_checked ar' = bounds_checked ar \<Longrightarrow> tracks ar' = tracks ar"
proof -
  assume b: "bounds_checked ar' = bounds_checked ar"
  then have f: "front_size ar' = front_size ar" "back_size ar' = back_size ar"
    by (simp_all add: front_size_def back_size_def)
  with b show "block_ok ar' = block_ok ar" by (intro ext) (simp add: block_ok_def decorated_def)
  from f show "block_chunks ar' = block_chunks ar" by (intro ext) (simp add: block_chunks_def block_chunk_def)
  have "tracks ar' t ps = tracks ar t ps" for t ps using f by (cases t) auto
  then show "tracks ar' = tracks ar" by (intro ext)
qed

text \<open>What \<open>arena_allocate\<close> writes around a chunk it received.\<close>

definition decorate :: "'a arena \<Rightarrow> u64 \<Rightarrow> u64 \<Rightarrow> memory \<Rightarrow> memory" where
  "decorate ar begin_ptr sz m =
     put_sentinel ar (begin_ptr + k_front_overhead ar + sz) k_sentinel_back
       (store64 (unat (begin_ptr + sentinel_size ar)) (k_allocation_overhead ar + sz)
         (put_sentinel ar begin_ptr k_sentinel_front m))"

lemma decorate_ok:
  assumes "unat q + (front_size ar + unat sz + back_size ar) < 2 ^ 63"
  shows "decorated ar (decorate ar q sz m) (unat q + front_size ar) (unat sz)"
    "x < unat q \<or> unat q + front_size ar + unat sz + back_size ar \<le> x \<Longrightarrow> decorate ar q sz m x = m x"
proof -
  have u: "unat (q + sentinel_size ar) = unat q + back_size ar"
    "unat (q + k_front_overhead ar) = unat q + front_size ar"
    using assms by (subst unat_add; simp add: overheads)+
  then have u3: "unat (q + k_front_overhead ar + sz) = unat q + front_size ar + unat sz"
    using assms by (subst unat_add) simp_all
  have a: "unat (k_allocation_overhead ar + sz) = front_size ar + unat sz + back_size ar"
    using assms by (subst unat_add) (simp_all add: overheads)
  have sz: "k_allocation_overhead ar + sz = word_of_nat (front_size ar + unat sz + back_size ar)"
    unfolding a [symmetric] by simp
  note d = decorate_def put_sentinel_def u u3 sz
  show "x < unat q \<or> unat q + front_size ar + unat sz + back_size ar \<le> x \<Longrightarrow> decorate ar q sz m x = m x"
    unfolding d by (auto simp: store64_frame front_size_def back_size_def)
  show "decorated ar (decorate ar q sz m) (unat q + front_size ar) (unat sz)"
    unfolding decorated_def
  proof (intro conjI impI)
    let ?v = "word_of_nat (front_size ar + unat sz + back_size ar) :: u64"
    have "load64 (unat q + back_size ar) (decorate ar q sz m) =
        load64 (unat q + back_size ar) (store64 (unat q + back_size ar) ?v (put_sentinel ar q k_sentinel_front m))"
      by (rule load64_frame) (auto simp: d front_size_def back_size_def intro!: store64_frame)
    then show "load64 (unat q + front_size ar - 8) (decorate ar q sz m) = ?v" by (simp add: overheads)
    assume b: "bounds_checked ar"
    have "load64 (unat q) (decorate ar q sz m) = load64 (unat q) (store64 (unat q) k_sentinel_front m)"
      by (rule load64_frame) (use b in \<open>auto simp: d front_size_def back_size_def store64_frame\<close>)
    then show "load64 (unat q + front_size ar - 16) (decorate ar q sz m) = k_sentinel_front"
      using b by (simp add: front_size_def)
    show "load64 (unat q + front_size ar + unat sz) (decorate ar q sz m) = k_sentinel_back"
      using b by (simp add: d)
  qed
qed


lemma block_chunks_upd:
  "blocks p = None \<Longrightarrow> block_chunks ar (blocks(p \<mapsto> bs)) = insert (block_chunk ar p (length bs)) (block_chunks ar blocks)"
proof -
  assume none: "blocks p = None"
  then have "(\<lambda>q. block_chunk ar q (length (the ((blocks(p \<mapsto> bs)) q)))) ` dom blocks =
     (\<lambda>q. block_chunk ar q (length (the (blocks q)))) ` dom blocks"
    by (intro image_cong) auto
  then show ?thesis unfolding block_chunks_def by simp
qed

lemma block_chunks_same:
  "blocks p = Some cs \<Longrightarrow> length bs = length cs \<Longrightarrow> block_chunks ar (blocks(p \<mapsto> bs)) = block_chunks ar blocks"
  unfolding block_chunks_def by (intro image_cong) auto

lemma block_chunks_del:
  assumes "\<And>q cs. blocks q = Some cs \<Longrightarrow> front_size ar \<le> q" "blocks p = Some bs"
  shows "block_chunks ar (blocks(p := None)) = block_chunks ar blocks - {block_chunk ar p (length bs)}"
proof -
  have q: "q = p" if "block_chunk ar q n = block_chunk ar p k" "blocks q = Some cs" for q n k cs
    using that(1) assms(1) [OF that(2)] assms(1) [OF assms(2)] by (auto simp: block_chunk_def)
  have "inj_on (\<lambda>q. block_chunk ar q (length (the (blocks q)))) (dom blocks)"
    using assms(1) by (auto simp: inj_on_def block_chunk_def) (metis le_add_diff_inverse)
  from inj_on_image_set_diff [OF this, of "dom blocks" "{p}"] assms(2)
  have "block_chunks ar blocks - {block_chunk ar p (length bs)} =
     (\<lambda>q. block_chunk ar q (length (the (blocks q)))) ` (dom blocks - {p})"
    by (auto simp: block_chunks_def)
  then show ?thesis unfolding block_chunks_def by (auto intro!: image_cong)
qed

lemma block_chunksI: "blocks p = Some bs \<Longrightarrow> block_chunk ar p (length bs) \<in> block_chunks ar blocks"
  unfolding block_chunks_def by (force intro: image_eqI)

lemma store_relD:
  assumes "store_rel I (ar, m) blocks"
  shows "guarded ar \<longrightarrow> \<not> locked ar" "finite (dom blocks)" "I (allocator ar, m) (block_chunks ar blocks)"
    "\<And>p bs. blocks p = Some bs \<Longrightarrow> block_ok ar m p bs" "tracks ar (memory_tracker ar) (dom blocks)"
    "\<And>p bs. blocks p = Some bs \<Longrightarrow> front_size ar \<le> p"
  using assms by (auto simp: store_rel_def block_ok_def)

lemma begin_inj:
  assumes "store_rel I (ar, m) blocks" "blocks p = Some bs" "q \<in> dom blocks"
  shows "(word_of_nat (p - front_size ar) :: u64) = word_of_nat (q - front_size ar) \<longleftrightarrow> p = q"
proof -
  obtain cs where q: "blocks q = Some cs" using assms(3) by blast
  have "p < 2 ^ 63" "q < 2 ^ 63" "front_size ar \<le> p" "front_size ar \<le> q"
    using store_relD(4) [OF assms(1,2)] store_relD(4) [OF assms(1) q] by (auto simp: block_ok_def)
  then have "unat (word_of_nat (p - front_size ar) :: u64) = p - front_size ar"
    "unat (word_of_nat (q - front_size ar) :: u64) = q - front_size ar" "p - front_size ar = q - front_size ar \<longleftrightarrow> p = q"
    by (auto intro!: unat_word_of_nat simp del: of_nat_diff)
  then show ?thesis by metis
qed

lemma tracks_allocation:
  assumes "tracks ar t ps" "finite ps" "p \<notin> ps" "b = word_of_nat (p - front_size ar)"
    and "b \<notin> (\<lambda>p. word_of_nat (p - front_size ar)) ` ps"
  shows "tracks ar (on_allocation b sz al loc t) (insert p ps)"
  using assms by (cases t) (auto split: option.splits)

lemma tracks_deallocation:
  assumes "tracks ar t ps" "finite ps" "p \<in> ps" "b = word_of_nat (p - front_size ar)"
    and "\<And>q. q \<in> ps \<Longrightarrow> b = word_of_nat (q - front_size ar) \<Longrightarrow> p = q"
  shows "tracks ar (on_deallocation b t) (ps - {p})"
proof -
  have "int (card (ps - {p})) = int (card ps) - 1" 
    using assms(2,3) card_gt_0_iff [of ps] by (auto simp: card_Diff_singleton of_nat_diff Suc_le_eq)
  moreover have "(\<lambda>q. word_of_nat (q - front_size ar)) ` ps - {b} = (\<lambda>q. word_of_nat (q - front_size ar)) ` (ps - {p})"
  proof -
    have "word_of_nat (q - front_size ar) \<noteq> b" if "q \<in> ps" "q \<noteq> p" for q using assms(5) [OF that(1)] that(2) by metis
    then show ?thesis unfolding assms(4) by (auto simp del: of_nat_diff)
  qed
  ultimately show ?thesis using assms(1) by (cases t) (auto simp del: of_nat_diff)
qed


lemma decorated_request:
  fixes al sz off :: u64
  assumes "0 < al" "unat al < 2 ^ 60" "unat sz < 2 ^ 61" "unat off < 2 ^ 59"
  shows "good_request (k_allocation_overhead ar + sz) al (off + k_front_overhead ar)"
    "unat (off + k_front_overhead ar) = unat off + front_size ar"
proof -
  have s: "unat (k_allocation_overhead ar + sz) = front_size ar + back_size ar + unat sz"
    using assms(3) overheads(4,5) [of ar] by (subst unat_add) (simp_all add: overheads(3))
  show o: "unat (off + k_front_overhead ar) = unat off + front_size ar"
    using assms(4) overheads(4,5) [of ar] by (subst unat_add) (simp_all add: overheads(2))
  have "0 < front_size ar" by (simp add: front_size_def)
  then have "0 < k_allocation_overhead ar + sz" using s by (simp add: word_less_nat_alt)
  then show "good_request (k_allocation_overhead ar + sz) al (off + k_front_overhead ar)"
    using assms overheads(4,5) [of ar] unfolding good_request_def s o by simp
qed

text \<open>Where \<open>arena_deallocate\<close> looks for the header and the sentinels.\<close>

lemma dealloc_addresses:
  fixes ptr :: u64
  assumes "front_size ar \<le> unat ptr" "unat ptr + n + back_size ar < 2 ^ 63"
  shows "unat (ptr - k_front_overhead ar) = unat ptr - front_size ar"
    "unat (ptr - k_front_overhead ar + sentinel_size ar) = unat ptr - 8"
    "unat (ptr - k_front_overhead ar + word_of_nat (front_size ar + n + back_size ar) - sentinel_size ar) = unat ptr + n"
proof -
  let ?q = "ptr - k_front_overhead ar" and ?n = "front_size ar + n + back_size ar"
  show q: "unat ?q = unat ptr - front_size ar"
    using assms(1) by (subst unat_sub) (simp_all add: word_le_nat_alt overheads)
  show "unat (?q + sentinel_size ar) = unat ptr - 8"
    using assms overheads(4) [of ar] by (subst unat_add) (simp_all add: q overheads(1))
  have "unat (word_of_nat ?n :: u64) = ?n" using assms by (intro unat_word_of_nat) simp
  then have "unat (?q + word_of_nat ?n) = unat ptr + n + back_size ar"
    using assms by (subst unat_add) (simp_all add: q)
  then show "unat (?q + word_of_nat ?n - sentinel_size ar) = unat ptr + n"
    by (subst unat_sub) (simp_all add: word_le_nat_alt overheads(1))
qed

text \<open>The address of a chunk apart from all blocks belongs to none of them.\<close>

lemma apart_begin:
  assumes "\<And>d. d \<in> block_chunks ar blocks \<Longrightarrow> unat (q :: u64) \<notin> chunk_bytes d"
    and "\<And>r bs. blocks r = Some bs \<Longrightarrow> block_ok ar m r bs"
  shows "blocks (unat q + front_size ar) = None" "q \<notin> (\<lambda>p. word_of_nat (p - front_size ar)) ` dom blocks"
proof -
  have begin_in: "r - front_size ar \<in> chunk_bytes (block_chunk ar r n)" for r n
    by (simp add: chunk_bytes_def chunk_end_def block_chunk_def front_size_def)
  have out: "unat q \<noteq> r - front_size ar" if "blocks r = Some bs" for r bs
    using assms(1) [OF block_chunksI [of blocks r, OF that]] begin_in by metis
  show "blocks (unat q + front_size ar) = None"
    using out [of "unat q + front_size ar"] by (cases "blocks (unat q + front_size ar)") auto
  show "q \<notin> (\<lambda>p. word_of_nat (p - front_size ar)) ` dom blocks"
  proof
    assume "q \<in> (\<lambda>p. word_of_nat (p - front_size ar)) ` dom blocks"
    then obtain r bs where r: "blocks r = Some bs" "q = word_of_nat (r - front_size ar)" by blast
    have "r - front_size ar < 2 ^ LENGTH(64)" using assms(2) [OF r(1)] by (auto simp: block_ok_def)
    then have "unat q = r - front_size ar" unfolding r(2) by (rule unat_word_of_nat)
    with out [OF r(1)] show False by simp
  qed
qed

section \<open>The operations on the store\<close>

text \<open>For any allocator that satisfies the interface.\<close>

context arena_allocator
begin

lemma arena_allocate_result:
  assumes "store_rel inv (ar, m) blocks" "arena_allocate alloc sz al off loc (ar, m) = Inr (p, ar', m')"
    and "request (k_allocation_overhead ar + sz) al (off + k_front_overhead ar)"
    and "unat sz < 2 ^ 61" "unat off < 2 ^ 59"
  obtains q a m0 where
    "alloc (k_allocation_overhead ar + sz) al (off + k_front_overhead ar) (allocator ar, m) = Inr (q, a, m0)"
    "m' = decorate ar q sz m0" "unat p = unat q + front_size ar"
    "allocator ar' = a" "bounds_checked ar' = bounds_checked ar" "guarded ar' = guarded ar" "guarded ar' \<longrightarrow> \<not> locked ar'"
    "memory_tracker ar' = on_allocation q (k_allocation_overhead ar + sz) al loc (memory_tracker ar)"
    "unat q + (front_size ar + unat sz + back_size ar) < 2 ^ 63"
    "unat (k_allocation_overhead ar + sz) = front_size ar + unat sz + back_size ar"
proof -
  note d = store_relD [OF assms(1)]
  obtain ar0 where enter: "guard_enter ar = Inr ar0" "allocator ar0 = allocator ar" "bounds_checked ar0 = bounds_checked ar"
    "guarded ar0 = guarded ar" "memory_tracker ar0 = memory_tracker ar"
    using d(1) by (cases "guarded ar") (auto simp: guard_enter_def)
  obtain q a m0 where al: "alloc (k_allocation_overhead ar + sz) al (off + k_front_overhead ar) (allocator ar, m) = Inr (q, a, m0)"
    using assms(2) enter(1,2) by (auto simp: arena_allocate_def res_bind_eq_Inr Let_def)
  note f = alloc_fresh [OF d(3) assms(3) al]
  have sz: "unat (k_allocation_overhead ar + sz) = front_size ar + unat sz + back_size ar"
    using assms(4) overheads(4,5) [of ar] by (subst unat_add) (simp_all add: overheads(3))
  then have b: "unat q + (front_size ar + unat sz + back_size ar) < 2 ^ 63" using f by simp
  have "unat (q + k_front_overhead ar) = unat q + front_size ar"
    using b by (subst unat_add) (simp_all add: overheads(2))
  moreover have "guard_leave (ar0\<lparr>allocator := a, memory_tracker := t\<rparr>) = ar' \<Longrightarrow>
     allocator ar' = a \<and> bounds_checked ar' = bounds_checked ar \<and> guarded ar' = guarded ar \<and>
     (guarded ar' \<longrightarrow> \<not> locked ar') \<and> memory_tracker ar' = t" for t
    using enter by (auto simp: guard_leave_def)
  moreover have "p = q + k_front_overhead ar" "m' = decorate ar q sz m0"
    "guard_leave (ar0\<lparr>allocator := a, memory_tracker := on_allocation q (k_allocation_overhead ar + sz) al loc (memory_tracker ar)\<rparr>) = ar'"
    using assms(2) enter al f by (auto simp: arena_allocate_def Let_def decorate_def)
  ultimately show thesis using that [OF al] b sz by blast
qed

lemma arena_allocate_store:
  assumes rel: "store_rel inv (ar, m) blocks" and al: "0 < al" "unat al < 2 ^ 60" and sz: "unat sz < 2 ^ 61" "unat off < 2 ^ 59"
    and req: "request (k_allocation_overhead ar + sz) al (off + k_front_overhead ar)"
    and run: "arena_allocate alloc sz al off loc (ar, m) = Inr (p, ar', m')"
  shows "blocks (unat p) = None \<and> (unat p + unat off) mod unat al = 0 \<and>
     store_rel inv (ar', m') (blocks(unat p \<mapsto> mem_read (unat p) (unat sz) m'))"
proof -
  note d = store_relD [OF rel]
  note off = decorated_request(2) [OF al sz, of ar]
  obtain q a m0 where q: "alloc (k_allocation_overhead ar + sz) al (off + k_front_overhead ar) (allocator ar, m) = Inr (q, a, m0)"
    and m': "m' = decorate ar q sz m0" and p: "unat p = unat q + front_size ar"
    and ar': "allocator ar' = a" "bounds_checked ar' = bounds_checked ar" "guarded ar' = guarded ar" "guarded ar' \<longrightarrow> \<not> locked ar'"
      "memory_tracker ar' = on_allocation q (k_allocation_overhead ar + sz) al loc (memory_tracker ar)"
    and b: "unat q + (front_size ar + unat sz + back_size ar) < 2 ^ 63"
    and s: "unat (k_allocation_overhead ar + sz) = front_size ar + unat sz + back_size ar"
    using arena_allocate_result [OF rel run req sz] by metis
  note f = alloc_fresh [OF d(3) req q] and I = alloc_inv [OF d(3) req q] and fr = alloc_frame [OF d(3) req q]
  let ?c = "(unat q, front_size ar + unat sz + back_size ar)"
  have c: "?c = block_chunk ar (unat p) (unat sz)" by (simp add: block_chunk_def p)
  have fresh: "?c \<notin> block_chunks ar blocks" using f s by simp
  have outside: "m' x = m0 x" if "x \<notin> chunk_bytes ?c" for x
    unfolding m' using that by (intro decorate_ok(2) [OF b]) (auto simp: chunk_bytes_def chunk_end_def)
  have apart: "chunk_bytes d \<inter> chunk_bytes ?c = {}" if "d \<in> block_chunks ar blocks" for d
    using inv_apart [OF I, of d ?c] that fresh s by auto
  have nonempty: "unat q \<in> chunk_bytes ?c" by (simp add: chunk_bytes_def chunk_end_def front_size_def)
  have "unat q \<notin> chunk_bytes d" if "d \<in> block_chunks ar blocks" for d using apart [OF that] nonempty by blast
  note ab = apart_begin [of ar blocks q, OF this d(4)]
  have none: "blocks (unat p) = None" using ab(1) by (simp add: p)
  have "inv (a, m') (insert ?c (block_chunks ar blocks))"
    using I [unfolded s] insertI1 outside by (rule write_ok)
  then have inv': "inv (allocator ar', m') (block_chunks ar' (blocks(unat p \<mapsto> mem_read (unat p) (unat sz) m')))"
    using block_chunks_upd [of blocks "unat p" ar, OF none] ar'(1) block_ok_cong(2) [OF ar'(2)] c by simp
  have old: "block_ok ar m' r bs" if "blocks r = Some bs" for r bs
  proof (rule block_frame [OF d(4) [OF that]])
    fix x assume x: "x \<in> chunk_bytes (block_chunk ar r (length bs))"
    note mem = block_chunksI [of blocks r, OF that]
    have "x \<notin> chunk_bytes ?c" using apart [OF mem] x by blast
    then show "m' x = m x" using outside fr [OF mem x] by simp
  qed
  have new: "block_ok ar m' (unat p) (mem_read (unat p) (unat sz) m')"
    using decorate_ok(1) [OF b, of m0] b by (simp add: block_ok_def m' p)
  have "q = word_of_nat (unat p - front_size ar)" by (simp add: p)
  then have "tracks ar (memory_tracker ar') (insert (unat p) (dom blocks))"
    unfolding ar'(5) using d(2,5) none ab(2) by (intro tracks_allocation) (auto simp: domIff)
  then have "store_rel inv (ar', m') (blocks(unat p \<mapsto> mem_read (unat p) (unat sz) m'))"
    using d(2) ar'(4) inv' old new block_ok_cong [OF ar'(2)] by (auto simp: store_rel_def)
  moreover have "(unat p + unat off) mod unat al = 0" using f off by (simp add: p ac_simps)
  ultimately show ?thesis using none by blast
qed


lemma arena_write_store:
  assumes rel: "store_rel inv (ar, m) blocks" and p: "blocks p = Some bs" and fits: "i + length ds \<le> length bs"
  shows "store_rel inv (ar, mem_write (p + i) ds m) (blocks(p \<mapsto> take i bs @ ds @ drop (i + length ds) bs))"
proof -
  note d = store_relD [OF rel]
  let ?m = "mem_write (p + i) ds m" and ?bs = "take i bs @ ds @ drop (i + length ds) bs"
  let ?c = "block_chunk ar p (length bs)"
  have len: "length ?bs = length bs" using fits by simp
  have fr: "front_size ar \<le> p" using d(6) [OF p] .
  have outside: "?m x = m x" if "x < p + i \<or> p + i + length ds \<le> x" for x using that by (auto simp: mem_write_def)
  have out: "?m x = m x" if "x \<notin> chunk_bytes ?c" for x
    using that fits block_bytes [OF fr, of "length bs"] by (intro outside) auto
  have "decorated ar ?m p (length bs) = decorated ar m p (length bs)"
    using fr fits by (intro decorated_frame outside) auto
  moreover have "mem_read p (length bs) ?m = ?bs"
  proof (rule nth_equalityI)
    fix k assume "k < length (mem_read p (length bs) ?m)"
    then have k: "k < length bs" by simp
    have "m (p + k) = bs ! k"
      using d(4) [OF p] k by (auto simp: block_ok_def mem_read_def dest!: arg_cong [of _ _ "\<lambda>xs. xs ! k"])
    with k fits show "mem_read p (length bs) ?m ! k = ?bs ! k"
      by (auto simp: mem_read_def mem_write_def nth_append min_def)
  qed (use len in simp)
  ultimately have new: "block_ok ar ?m p ?bs" using d(4) [OF p] len by (simp add: block_ok_def)
  have old: "block_ok ar ?m q cs" if q: "blocks q = Some cs" "q \<noteq> p" for q cs
  proof (rule block_frame [OF d(4) [OF q(1)]], rule out)
    fix x assume x: "x \<in> chunk_bytes (block_chunk ar q (length cs))"
    have "block_chunk ar q (length cs) \<noteq> ?c" using q(2) fr d(6) [OF q(1)] by (auto simp: block_chunk_def)
    with inv_apart [OF d(3) block_chunksI [of blocks q cs ar] block_chunksI [of blocks p bs ar]] q(1) p x show "x \<notin> chunk_bytes ?c" by blast
  qed
  have "inv (allocator ar, ?m) (block_chunks ar blocks)"
    using d(3) block_chunksI [of blocks p, OF p] out by (rule write_ok)
  moreover have "dom (blocks(p \<mapsto> ?bs)) = dom blocks" using p by auto
  ultimately show ?thesis
    using d(1,2,5) new old block_chunks_same [of blocks p bs ?bs ar, OF p len] by (auto simp: store_rel_def)
qed

lemma arena_deallocate_store:
  assumes rel: "store_rel inv (ar, m) blocks" and p: "blocks (unat ptr) = Some bs"
  shows "\<exists>ar' m'. arena_deallocate dealloc ptr (ar, m) = Inr (ar', m') \<and> store_rel inv (ar', m') (blocks(unat ptr := None))"
proof -
  note d = store_relD [OF rel]
  let ?q = "ptr - k_front_overhead ar" and ?n = "front_size ar + length bs + back_size ar"
  have ok: "front_size ar \<le> unat ptr" "unat ptr + length bs + back_size ar < 2 ^ 63" "decorated ar m (unat ptr) (length bs)"
    using d(4) [OF p] by (auto simp: block_ok_def)
  note q = dealloc_addresses(1) [OF ok(1,2)] and hdr = dealloc_addresses(2) [OF ok(1,2)]
    and bk = dealloc_addresses(3) [OF ok(1,2)]
  have sz: "load64 (unat ptr - 8) m = word_of_nat ?n" using ok(3) by (simp add: decorated_def)
  obtain ar0 where enter: "guard_enter ar = Inr ar0" "allocator ar0 = allocator ar" "bounds_checked ar0 = bounds_checked ar"
    "guarded ar0 = guarded ar" "memory_tracker ar0 = memory_tracker ar"
    using d(1) by (cases "guarded ar") (auto simp: guard_enter_def)
  have chk: "check_sentinel ar ?q k_sentinel_front m = Inr ()"
    "check_sentinel ar (?q + word_of_nat ?n - sentinel_size ar) k_sentinel_back m = Inr ()"
    using ok(3) unfolding check_sentinel_def decorated_def bk q by (auto simp: k_assert_def front_size_def)
  have c: "(unat ?q, ?n) = block_chunk ar (unat ptr) (length bs)" by (simp add: block_chunk_def q)
  then have "(unat ?q, ?n) \<in> block_chunks ar blocks" using block_chunksI [of blocks "unat ptr" bs ar, OF p] by simp
  from dealloc_ok [OF d(3) this] obtain a m' where de: "dealloc ?q (allocator ar, m) = Inr (a, m')"
    "inv (a, m') (block_chunks ar blocks - {(unat ?q, ?n)})"
    "\<forall>c \<in> block_chunks ar blocks - {(unat ?q, ?n)}. \<forall>x \<in> chunk_bytes c. m' x = m x" by blast
  define ar' where "ar' = guard_leave (ar0\<lparr>memory_tracker := on_deallocation ?q (memory_tracker ar), allocator := a\<rparr>)"
  have run: "arena_deallocate dealloc ptr (ar, m) = Inr (ar', m')"
    using enter chk de(1) unfolding arena_deallocate_def ar'_def by (simp add: Let_def hdr sz)
  have ar': "allocator ar' = a" "bounds_checked ar' = bounds_checked ar" "guarded ar' \<longrightarrow> \<not> locked ar'"
    "memory_tracker ar' = on_deallocation ?q (memory_tracker ar)"
    using enter by (auto simp: ar'_def guard_leave_def)
  have del: "block_chunks ar (blocks(unat ptr := None)) = block_chunks ar blocks - {(unat ?q, ?n)}"
    unfolding c using d(6) p by (rule block_chunks_del)
  have "block_ok ar m' r cs" if r: "(blocks(unat ptr := None)) r = Some cs" for r cs
    using de(3) block_chunksI [of "blocks(unat ptr := None)" r cs ar, OF r] r unfolding del by (intro block_frame [OF d(4)]) (auto split: if_splits)
  moreover have "word_of_nat (unat ptr - front_size ar) = ?q" unfolding q [symmetric] by simp
  then have "tracks ar (memory_tracker ar') (dom blocks - {unat ptr})"
    unfolding ar'(4) using d(2,5) p begin_inj [OF rel p] by (intro tracks_deallocation) (auto simp: domIff)
  ultimately have "store_rel inv (ar', m') (blocks(unat ptr := None))"
    using d(2) ar'(1,3) de(2) del block_ok_cong [OF ar'(2)] by (auto simp: store_rel_def)
  with run show ?thesis by blast
qed

end

section \<open>Clients of an arena\<close>

text \<open>
  The constructor: the allocation overhead is passed to the allocator, whose constructor has
  run; the mutex is free and the tracker is new.
\<close>

definition new_arena :: "'a \<Rightarrow> bool \<Rightarrow> bool \<Rightarrow> tracker \<Rightarrow> 'a arena" where
  "new_arena a bounds guard t = \<lparr>allocator = a, bounds_checked = bounds, guarded = guard, locked = False, memory_tracker = t\<rparr>"

definition new_tracker :: "tracker \<Rightarrow> bool" where
  "new_tracker t \<longleftrightarrow> (case t of No_Memory_Tracking \<Rightarrow> True | Simple_Memory_Tracking n \<Rightarrow> n = 0
     | Verbose_Memory_Tracking n infos \<Rightarrow> n = 0 \<and> infos = Map.empty)"

definition new_linear_arena ::
  "bool \<Rightarrow> bool \<Rightarrow> tracker \<Rightarrow> u64 \<Rightarrow> string \<Rightarrow> heap_area \<times> memory \<Rightarrow> fault + linear_allocator arena \<times> heap_area \<times> memory" where
  "new_linear_arena bounds guard t sz name s =
     res_bind (new_linear_allocator sz name s) (\<lambda>(la, s'). Inr (new_arena la bounds guard t, s'))"

definition new_pool_arena ::
  "bool \<Rightarrow> bool \<Rightarrow> tracker \<Rightarrow> u64 \<Rightarrow> u64 \<Rightarrow> u64 \<Rightarrow> string \<Rightarrow> heap_area \<times> memory \<Rightarrow>
   fault + pool_allocator arena \<times> heap_area \<times> memory" where
  "new_pool_arena bounds guard t nodes user_size max_alignment name s =
     res_bind (new_pool_allocator (if bounds then 24 else 8) nodes user_size max_alignment name s) (\<lambda>(pa, s').
       Inr (new_arena pa bounds guard t, s'))"

definition client_request :: "u64 \<Rightarrow> u64 \<Rightarrow> u64 \<Rightarrow> bool" where
  "client_request sz al off \<longleftrightarrow> 0 < al \<and> unat al < 2 ^ 60 \<and> unat sz < 2 ^ 61 \<and> unat off < 2 ^ 59"

text \<open>
  The states that a client reaches who allocates blocks, writes within the blocks it holds and
  deallocates them; the map records what it wrote.
\<close>

inductive arena_reach ::
  "(u64 \<Rightarrow> u64 \<Rightarrow> u64 \<Rightarrow> bool) \<Rightarrow> (u64 \<Rightarrow> u64 \<Rightarrow> u64 \<Rightarrow> 'a \<times> memory \<Rightarrow> fault + u64 \<times> 'a \<times> memory) \<Rightarrow>
   (u64 \<Rightarrow> 'a \<times> memory \<Rightarrow> fault + 'a \<times> memory) \<Rightarrow> 'a arena \<times> memory \<Rightarrow> 'a arena \<times> memory \<Rightarrow> blocks \<Rightarrow> bool"
  for client alloc dealloc s0 where
  arena_start: "arena_reach client alloc dealloc s0 s0 Map.empty"
| arena_new: "arena_reach client alloc dealloc s0 (ar, m) blocks \<Longrightarrow> client sz al off \<Longrightarrow>
     arena_allocate alloc sz al off loc (ar, m) = Inr (p, ar', m') \<Longrightarrow>
     arena_reach client alloc dealloc s0 (ar', m') (blocks(unat p \<mapsto> mem_read (unat p) (unat sz) m'))"
| arena_write: "arena_reach client alloc dealloc s0 (ar, m) blocks \<Longrightarrow> blocks p = Some bs \<Longrightarrow> i + length ds \<le> length bs \<Longrightarrow>
     arena_reach client alloc dealloc s0 (ar, mem_write (p + i) ds m) (blocks(p \<mapsto> take i bs @ ds @ drop (i + length ds) bs))"
| arena_delete: "arena_reach client alloc dealloc s0 (ar, m) blocks \<Longrightarrow> blocks (unat p) = Some bs \<Longrightarrow>
     arena_deallocate dealloc p (ar, m) = Inr (ar', m') \<Longrightarrow>
     arena_reach client alloc dealloc s0 (ar', m') (blocks(unat p := None))"

text \<open>An arena relies on its allocator for what its clients ask of it, with the overhead of the decorations added.\<close>

locale arena_client = arena_allocator alloc dealloc inv request
  for alloc :: "u64 \<Rightarrow> u64 \<Rightarrow> u64 \<Rightarrow> 'a \<times> memory \<Rightarrow> fault + u64 \<times> 'a \<times> memory"
    and dealloc :: "u64 \<Rightarrow> 'a \<times> memory \<Rightarrow> fault + 'a \<times> memory"
    and inv :: "'a \<times> memory \<Rightarrow> chunk set \<Rightarrow> bool"
    and request :: "u64 \<Rightarrow> u64 \<Rightarrow> u64 \<Rightarrow> bool" +
  fixes client :: "u64 \<Rightarrow> u64 \<Rightarrow> u64 \<Rightarrow> bool"
  assumes client_modest: "client sz al off \<Longrightarrow> client_request sz al off"
    and client_served: "client sz al off \<Longrightarrow> request (k_allocation_overhead (ar :: 'a arena) + sz) al (off + k_front_overhead ar)"
begin

lemma client_allocate_store:
  assumes "store_rel inv (ar, m) blocks" "client sz al off" "arena_allocate alloc sz al off loc (ar, m) = Inr (p, ar', m')"
  shows "blocks (unat p) = None" "(unat p + unat off) mod unat al = 0"
    "store_rel inv (ar', m') (blocks(unat p \<mapsto> mem_read (unat p) (unat sz) m'))"
  using arena_allocate_store [OF assms(1) _ _ _ _ client_served assms(3)] client_modest assms(2) by (auto simp: client_request_def)

lemma reach_store:
  assumes "arena_reach client alloc dealloc s0 s blocks" "store_rel inv s0 Map.empty"
  shows "store_rel inv s blocks"
  using assms
proof (induction rule: arena_reach.induct)
  case (arena_new ar m blocks sz al off loc p ar' m')
  then show ?case by (intro client_allocate_store(3)) simp_all
next
  case (arena_write ar m blocks p bs i ds)
  then show ?case by (intro arena_write_store) simp_all
next
  case (arena_delete ar m blocks p bs ar' m')
  then show ?case using arena_deallocate_store [of ar m blocks p bs] by (auto simp: fun_upd_def)
qed simp

lemma store_blocks_apart:
  assumes "store_rel inv (ar, m) blocks" "blocks p = Some bs" "blocks q = Some cs" "p \<noteq> q"
  shows "{p..<p + length bs} \<inter> {q..<q + length cs} = {}"
proof -
  note d = store_relD [OF assms(1)]
  have f: "front_size ar \<le> p" "front_size ar \<le> q" using d(6) assms(2,3) by auto
  then have "block_chunk ar p (length bs) \<noteq> block_chunk ar q (length cs)"
    using assms(4) by (auto simp: block_chunk_def)
  with inv_apart [OF d(3) block_chunksI [of blocks p bs ar] block_chunksI [of blocks q cs ar]] assms(2,3)
  have "chunk_bytes (block_chunk ar p (length bs)) \<inter> chunk_bytes (block_chunk ar q (length cs)) = {}" by blast
  moreover have "{p..<p + length bs} \<subseteq> chunk_bytes (block_chunk ar p (length bs))"
    "{q..<q + length cs} \<subseteq> chunk_bytes (block_chunk ar q (length cs))"
    using f by (auto simp: block_bytes)
  ultimately show ?thesis by blast
qed

text \<open>What a client may rely on in every state it reaches.\<close>

lemma reach_blocks:
  assumes "arena_reach client alloc dealloc s0 (ar, m) blocks" "store_rel inv s0 Map.empty" "blocks p = Some bs"
  shows "mem_read p (length bs) m = bs \<and>
     (\<forall>q cs. blocks q = Some cs \<longrightarrow> q \<noteq> p \<longrightarrow> {p..<p + length bs} \<inter> {q..<q + length cs} = {}) \<and>
     (\<exists>s'. arena_deallocate dealloc (word_of_nat p) (ar, m) = Inr s')"
proof -
  note rel = reach_store [OF assms(1,2)]
  have ok: "block_ok ar m p bs" using store_relD(4) [OF rel assms(3)] .
  then have "p < 2 ^ LENGTH(64)" by (auto simp: block_ok_def)
  then have p: "unat (word_of_nat p :: u64) = p" by (rule unat_word_of_nat)
  show ?thesis
    using ok store_blocks_apart [OF rel assms(3)] arena_deallocate_store [OF rel, of "word_of_nat p" bs] assms(3)
    unfolding p by (auto simp: block_ok_def)
qed

lemma reach_allocate:
  assumes "arena_reach client alloc dealloc s0 (ar, m) blocks" "store_rel inv s0 Map.empty" "client sz al off"
    and "arena_allocate alloc sz al off loc (ar, m) = Inr (p, ar', m')"
  shows "(unat p + unat off) mod unat al = 0 \<and>
     (\<forall>q cs. blocks q = Some cs \<longrightarrow> {unat p..<unat p + unat sz} \<inter> {q..<q + length cs} = {} \<and> mem_read q (length cs) m' = cs)"
proof -
  have "arena_reach client alloc dealloc s0 (ar', m') (blocks(unat p \<mapsto> mem_read (unat p) (unat sz) m'))"
    using assms(1,3,4) by (rule arena_new)
  from reach_store [OF this assms(2)] have rel: "store_rel inv (ar', m') (blocks(unat p \<mapsto> mem_read (unat p) (unat sz) m'))" .
  have a: "blocks (unat p) = None" "(unat p + unat off) mod unat al = 0"
    by (rule client_allocate_store [OF reach_store [OF assms(1,2)] assms(3,4)])+
  have "{unat p..<unat p + unat sz} \<inter> {q..<q + length cs} = {} \<and> mem_read q (length cs) m' = cs" if q: "blocks q = Some cs" for q cs
  proof -
    have "q \<noteq> unat p" using a(1) q by auto
    with store_blocks_apart [OF rel, of "unat p" "mem_read (unat p) (unat sz) m'" q cs] store_relD(4) [OF rel, of q cs] q show ?thesis
      by (simp add: block_ok_def)
  qed
  with a show ?thesis by blast
qed

lemma reach_count:
  assumes "arena_reach client alloc dealloc s0 (ar, m) blocks" "store_rel inv s0 Map.empty"
  shows "tracker_report (memory_tracker ar) = None \<longleftrightarrow> memory_tracker ar = No_Memory_Tracking \<or> blocks = Map.empty"
proof -
  note d = store_relD [OF reach_store [OF assms]]
  show ?thesis using d(2,5) by (cases "memory_tracker ar") auto
qed


text \<open>Bytes written just behind a block destroy its back sentinel.\<close>

lemma overrun_fails:
  assumes rel: "store_rel inv (ar, m) blocks" and p: "blocks (unat ptr) = Some bs" and "bounds_checked ar"
    and ds: "length ds \<le> 8" "ds \<noteq> take (length ds) (u64_bytes k_sentinel_back)"
  shows "arena_deallocate dealloc ptr (ar, mem_write (unat ptr + length bs) ds m) = Inl Assertion_Failed"
proof -
  let ?m = "mem_write (unat ptr + length bs) ds m" and ?n = "front_size ar + length bs + back_size ar"
  have ok: "front_size ar \<le> unat ptr" "unat ptr + length bs + back_size ar < 2 ^ 63" "decorated ar m (unat ptr) (length bs)"
    using store_relD(4) [OF rel p] by (auto simp: block_ok_def)
  note u = dealloc_addresses [OF ok(1,2)]
  have fs: "front_size ar = 16" using assms(3) by (simp add: front_size_def)
  have below: "load64 a ?m = load64 a m" if "a + 8 \<le> unat ptr" for a
    using that by (intro load64_frame) (simp add: mem_write_def)
  have hdr: "load64 (unat ptr - 8) ?m = word_of_nat ?n" "load64 (unat ptr - 16) ?m = k_sentinel_front"
    using ok(1,3) assms(3) below fs by (auto simp: decorated_def)
  have "load64 (unat ptr + length bs) ?m \<noteq> k_sentinel_back"
  proof
    assume "load64 (unat ptr + length bs) ?m = k_sentinel_back"
    then have "mem_read (unat ptr + length bs) 8 ?m = u64_bytes k_sentinel_back"
      by (metis load64_def u64_bytes_bytes_u64 mem_read_length)
    moreover have "take (length ds) (mem_read (unat ptr + length bs) 8 ?m) = ds"
      using ds(1) by (intro nth_equalityI) (auto simp: mem_read_def mem_write_def)
    ultimately show False using ds(2) by simp
  qed
  then have "check_sentinel ar (ptr - k_front_overhead ar + word_of_nat ?n - sentinel_size ar) k_sentinel_back ?m = Inl Assertion_Failed"
    using assms(3) unfolding check_sentinel_def u(3) by (simp add: k_assert_def)
  moreover have "check_sentinel ar (ptr - k_front_overhead ar) k_sentinel_front ?m = Inr ()"
    using hdr(2) fs unfolding check_sentinel_def u(1) by simp
  moreover have "\<exists>ar0. guard_enter ar = Inr ar0" using store_relD(1) [OF rel] by (auto simp: guard_enter_def)
  ultimately show ?thesis by (auto simp: arena_deallocate_def Let_def u(2) hdr(1))
qed

text \<open>Arrays of objects that need construction.\<close>

lemma new_array_store:
  assumes rel: "store_rel inv (ar, m) blocks" and al: "client (tsz * n + 8) al 8" and sz: "unat tsz * unat n < 2 ^ 60"
    and run: "arena_new_array alloc False tsz n al loc (ar, m) = Inr ((obj, objs), ar', m')"
  shows "\<exists>bs. store_rel inv (ar', m') (blocks(unat obj - 8 \<mapsto> bs)) \<and> blocks (unat obj - 8) = None \<and> 8 \<le> unat obj \<and>
     take 8 bs = u64_bytes n \<and> length bs = 8 + unat tsz * unat n \<and> unat obj mod unat al = 0 \<and>
     objs = map (\<lambda>i. obj + word_of_nat i * tsz) [0..<unat n]"
proof -
  have len: "unat (tsz * n + 8) = unat tsz * unat n + 8" using sz by (simp add: unat_word_ariths)
  obtain ptr m1 where a: "arena_allocate alloc (tsz * n + 8) al 8 loc (ar, m) = Inr (ptr, ar', m1)"
    and o: "obj = ptr + 8" "objs = map (\<lambda>i. obj + word_of_nat i * tsz) [0..<unat n]" "m' = store64 (unat ptr) n m1"
    using run by (auto simp: arena_new_array_def res_bind_eq_Inr Let_def split: if_splits)
  let ?bs = "mem_read (unat ptr) (unat (tsz * n + 8)) m1"
  from client_allocate_store [OF rel al a] sz len
  have r: "blocks (unat ptr) = None" "(unat ptr + 8) mod unat al = 0" "store_rel inv (ar', m1) (blocks(unat ptr \<mapsto> ?bs))"
    by auto
  have "unat ptr < 2 ^ 63" using store_relD(4) [OF r(3), of "unat ptr" ?bs] by (auto simp: block_ok_def)
  then have ob: "unat obj = unat ptr + 8" unfolding o(1) by (subst unat_add) simp_all
  have "store_rel inv (ar', m') (blocks(unat ptr \<mapsto> take 0 ?bs @ u64_bytes n @ drop (0 + 8) ?bs))"
    using arena_write_store [OF r(3), of "unat ptr" ?bs 0 "u64_bytes n"] len by (simp add: o(3) store64_def)
  then show ?thesis using r(1,2) o(2) ob len by (intro exI) (auto simp: o(2))
qed

lemma delete_array_store:
  assumes rel: "store_rel inv (ar, m) blocks" and p: "blocks (unat obj - 8) = Some bs" "8 \<le> unat obj"
    and hd: "take 8 bs = u64_bytes n"
  shows "\<exists>ar' m'. arena_delete_array dealloc False tsz obj (ar, m) =
       Inr (rev (map (\<lambda>i. obj + word_of_nat i * tsz) [0..<unat n]), ar', m') \<and>
     store_rel inv (ar', m') (blocks(unat obj - 8 := None))"
proof -
  have o: "unat (obj - 8) = unat obj - 8" using p(2) by (subst unat_sub) (simp_all add: word_le_nat_alt)
  have len: "8 \<le> length bs" using arg_cong [OF hd, of length] by simp
  have "mem_read (unat obj - 8) (length bs) m = bs" using store_relD(4) [OF rel p(1)] by (simp add: block_ok_def)
  then have "take 8 (mem_read (unat obj - 8) (length bs) m) = u64_bytes n" using hd by simp
  moreover have "take 8 (mem_read (unat obj - 8) (length bs) m) = mem_read (unat obj - 8) 8 m"
    using len by (simp add: mem_read_def take_map)
  ultimately have "load64 (unat obj - 8) m = n" by (simp add: load64_def bytes_u64_u64_bytes)
  with arena_deallocate_store [OF rel, of "obj - 8" bs] p(1) show ?thesis
    by (auto simp: arena_delete_array_def o Let_def rev_map)
qed

end


section \<open>Properties of the arenas\<close>

interpretation lin_arena: arena_client linear_allocate linear_dealloc linear_live good_request client_request
  by unfold_locales (auto simp: client_request_def intro: decorated_request(1))

interpretation pool_arena: arena_client pool_allocate pool_deallocate pool_live good_request client_request
  by unfold_locales (auto simp: client_request_def intro: decorated_request(1))

lemma guard_bounds: "guard_enter ar = Inr ar' \<Longrightarrow> bounds_checked ar' = bounds_checked ar"
  "bounds_checked (guard_leave ar) = bounds_checked ar"
  by (auto simp: guard_enter_def guard_leave_def split: if_splits)

lemma arena_reach_bounds:
  "arena_reach client alloc dealloc s0 s blocks \<Longrightarrow> bounds_checked (fst s) = bounds_checked (fst s0)"
proof (induction rule: arena_reach.induct)
  case (arena_new ar m blocks sz al off loc p ar' m')
  then show ?case
    by (auto simp: arena_allocate_def res_bind_eq_Inr Let_def guard_bounds split: if_splits)
next
  case (arena_delete ar m blocks p bs ar' m')
  then show ?case by (auto simp: arena_deallocate_def res_bind_eq_Inr Let_def guard_bounds)
qed simp_all

lemma array_client:
  assumes "0 < al" "unat al < 2 ^ 60" "unat tsz * unat n < 2 ^ 60"
  shows "client_request (tsz * n + 8) al 8"
  using assms by (simp add: client_request_def unat_word_ariths)

lemma new_arena_store:
  assumes "I (a, m) {}" "new_tracker t"
  shows "store_rel I (new_arena a bounds guard t, m) Map.empty"
  using assms by (cases t) (simp_all add: store_rel_def new_arena_def block_chunks_def new_tracker_def)

lemma new_linear_arena_store:
  assumes "0 < unat addr" "unat addr + unat total_sz < 2 ^ 62" "unat sz < 2 ^ 32 - 1" "new_tracker t"
    and "new_linear_arena bounds guard t sz name (new_area addr total_sz m0) = Inr (ar, ha, m)"
  shows "store_rel linear_live (ar, m) Map.empty"
proof -
  obtain la where la: "new_linear_allocator sz name (new_area addr total_sz m0) = Inr (la, ha, m)"
    "ar = new_arena la bounds guard t"
    using assms(5) by (auto simp: new_linear_arena_def res_bind_eq_Inr)
  note wf = new_linear_wf [OF assms(2,3) la(1)]
  have "wf_area (fst (new_area addr total_sz m0))" using new_area_wf [OF assms(2)] .
  then have "unat addr \<le> unat (la_begin la)"
    using la(1) require_slab_fits [of "fst (new_area addr total_sz m0)" sz name "snd (new_area addr total_sz m0)"] assms(3)
    by (auto simp: new_linear_allocator_def res_bind_eq_Inr new_area_def split: if_splits)
  with wf assms(1) have "linear_live (la, m) {}" unfolding linear_live_def by (auto intro: exI [of _ "[]"])
  then show ?thesis unfolding la(2) using assms(4) by (rule new_arena_store)
qed

lemma new_pool_arena_store:
  assumes "0 < unat addr" "unat addr + unat total_sz < 2 ^ 62" "unat max_alignment = 2 ^ k"
    and "unat user_size + 24 + 2 ^ k + 2 ^ k \<le> 2 ^ 31" "0 < unat nodes" "unat nodes < 2 ^ 31" "new_tracker t"
    and "new_pool_arena bounds guard t nodes user_size max_alignment name (new_area addr total_sz m0) = Inr (ar, ha, m)"
  shows "store_rel pool_live (ar, m) Map.empty"
proof -
  define deco :: u32 where "deco = (if bounds then 24 else 8)"
  have deco: "8 \<le> unat deco" "unat deco \<le> 24" by (simp_all add: deco_def)
  obtain pa where pa: "new_pool_allocator deco nodes user_size max_alignment name (new_area addr total_sz m0) = Inr (pa, ha, m)"
    "ar = new_arena pa bounds guard t"
    using assms(8) by (auto simp: new_pool_arena_def res_bind_eq_Inr deco_def)
  have "unat user_size + unat deco + 2 ^ k + 2 ^ k \<le> 2 ^ 31" "8 \<le> unat user_size + unat deco + 2 ^ k"
    using assms(4) deco by linarith+
  from new_pool_wf [OF assms(1,2,3) this assms(5,6) pa(1)] have "pool_live (pa, m) {}" by (auto simp: pool_live_def)
  then show ?thesis unfolding pa(2) using assms(7) by (rule new_arena_store)
qed

text \<open>A concrete pool arena of two nodes for objects of 16 bytes, with a mutex, sentinels and a tracker.\<close>

definition demo_pool_arena :: "fault + pool_allocator arena \<times> heap_area \<times> memory" where
  "demo_pool_arena = new_pool_arena True True (Simple_Memory_Tracking 0) 2 16 8 ''pool'' (new_area 4096 1024 (\<lambda>_. 0))"

lemma demo_pool_run:
  "returns_with demo_pool_arena (\<lambda>(ar, ha, m).
     returns_with (arena_allocate pool_allocate 8 8 0 (''f'', 1) (ar, m)) (\<lambda>(p, ar', m'). p = 4112))"
  by code_simp

lemma demo_pool_reach:
  obtains ar0 ha m1 ar m where "demo_pool_arena = Inr (ar0, ha, m1)"
    "arena_reach client_request pool_allocate pool_deallocate (ar0, m1) (ar, m) [4112 \<mapsto> mem_read 4112 8 m]"
proof -
  obtain ar0 ha m1 ar m where d: "demo_pool_arena = Inr (ar0, ha, m1)"
    "arena_allocate pool_allocate 8 8 0 (''f'', 1) (ar0, m1) = Inr (4112, ar, m)"
    using demo_pool_run by (auto simp: returns_with_iff)
  have "client_request 8 8 0" by (simp add: client_request_def)
  from arena_new [where client = client_request, OF arena_start this d(2), of pool_deallocate] d(1) that show thesis by simp
qed

text \<open>And a linear arena.\<close>

definition demo_linear_arena :: "fault + linear_allocator arena \<times> heap_area \<times> memory" where
  "demo_linear_arena = new_linear_arena True True (Simple_Memory_Tracking 0) 100 ''lin'' (new_area 4096 1024 (\<lambda>_. 0))"

lemma demo_linear_run:
  "returns_with demo_linear_arena (\<lambda>(ar, ha, m).
     returns_with (arena_allocate linear_allocate 8 8 0 (''f'', 1) (ar, m)) (\<lambda>(p, ar', m'). p = 4112 \<and>
       returns_with (arena_allocate linear_allocate 5 1 0 (''f'', 2) (ar', m')) (\<lambda>(q, _). q = 4144)))"
  by code_simp

lemma demo_array_run:
  "returns_with demo_linear_arena (\<lambda>(ar, ha, m).
     returns_with (arena_new_array linear_allocate False 4 3 8 (''f'', 3) (ar, m)) (\<lambda>((obj, objs), _).
       obj = 4120 \<and> objs = [4120, 4124, 4128]))"
  by code_simp

text \<open>
  C22. An arena on a pool allocator is a store of independent blocks: in every state that a client
  reaches by allocating, writing within its blocks and deallocating (with any bounds checking,
  thread guard and tracking policy), each block holds exactly what was written to it, the
  blocks are apart, and each of them can be deallocated: the sentinel checks pass.
\<close>

theorem pool_arena_store:
  assumes "0 < unat addr" and "unat addr + unat total_sz < 2 ^ 62" and "unat max_alignment = 2 ^ k"
    and "unat user_size + 24 + 2 ^ k + 2 ^ k \<le> 2 ^ 31" and "0 < unat nodes" and "unat nodes < 2 ^ 31" and "new_tracker t"
    and "new_pool_arena bounds guard t nodes user_size max_alignment name (new_area addr total_sz m0) = Inr (ar0, ha, m1)"
    and "arena_reach client_request pool_allocate pool_deallocate (ar0, m1) (ar, m) blocks" and "blocks p = Some bs"
  shows "mem_read p (length bs) m = bs \<and>
     (\<forall>q cs. blocks q = Some cs \<longrightarrow> q \<noteq> p \<longrightarrow> {p..<p + length bs} \<inter> {q..<q + length cs} = {}) \<and>
     (\<exists>s'. arena_deallocate pool_deallocate (word_of_nat p) (ar, m) = Inr s')"
  using pool_arena.reach_blocks [OF assms(9) new_pool_arena_store [OF assms(1-8)] assms(10)] .

theorem pool_arena_store_witness:
  "\<exists>ar0 ha m1 ar m. demo_pool_arena = Inr (ar0, ha, m1) \<and>
     arena_reach client_request pool_allocate pool_deallocate (ar0, m1) (ar, m) [4112 \<mapsto> mem_read 4112 8 m] \<and>
     (\<exists>s'. arena_deallocate pool_deallocate (word_of_nat 4112) (ar, m) = Inr s')"
proof -
  obtain ar0 ha m1 ar m where d: "demo_pool_arena = Inr (ar0, ha, m1)"
    "arena_reach client_request pool_allocate pool_deallocate (ar0, m1) (ar, m) [4112 \<mapsto> mem_read 4112 8 m]"
    by (rule demo_pool_reach)
  have "\<exists>s'. arena_deallocate pool_deallocate (word_of_nat 4112) (ar, m) = Inr s'"
    using pool_arena_store [of 4096 1024 8 3, OF _ _ _ _ _ _ _ d(1) [unfolded demo_pool_arena_def] d(2), of 4112 "mem_read 4112 8 m"]
    by (simp add: new_tracker_def)
  with d show ?thesis by blast
qed

text \<open>
  The same for an arena on a linear allocator: the contents of the blocks survive every later
  operation. A further allocation returns a block whose user pointer is aligned at the given
  offset, which overlaps no block the client holds and leaves their contents as they were.
\<close>

theorem linear_arena_store:
  assumes "0 < unat addr" and "unat addr + unat total_sz < 2 ^ 62" and "unat slab_sz < 2 ^ 32 - 1" and "new_tracker t"
    and "new_linear_arena bounds guard t slab_sz name (new_area addr total_sz m0) = Inr (ar0, ha, m1)"
    and "arena_reach client_request linear_allocate linear_dealloc (ar0, m1) (ar, m) blocks"
    and "client_request sz al off" and "arena_allocate linear_allocate sz al off loc (ar, m) = Inr (p, ar', m')"
  shows "(unat p + unat off) mod unat al = 0 \<and>
     (\<forall>q cs. blocks q = Some cs \<longrightarrow> mem_read q (length cs) m = cs \<and>
        {unat p..<unat p + unat sz} \<inter> {q..<q + length cs} = {} \<and> mem_read q (length cs) m' = cs)"
  using lin_arena.reach_allocate [OF assms(6) new_linear_arena_store [OF assms(1-5)] assms(7,8)]
    lin_arena.reach_blocks [OF assms(6) new_linear_arena_store [OF assms(1-5)]] by blast

theorem linear_arena_store_witness:
  "\<exists>ar0 ha m1 ar m ar' m'. demo_linear_arena = Inr (ar0, ha, m1) \<and>
     arena_reach client_request linear_allocate linear_dealloc (ar0, m1) (ar, m) [4112 \<mapsto> mem_read 4112 8 m] \<and>
     arena_allocate linear_allocate 5 1 0 (''f'', 2) (ar, m) = Inr (4144, ar', m') \<and>
     {4144..<4144 + 5} \<inter> {4112..<4112 + 8 :: nat} = {} \<and> mem_read 4112 8 m' = mem_read 4112 8 m"
proof -
  obtain ar0 ha m1 ar m ar' m' where d: "demo_linear_arena = Inr (ar0, ha, m1)"
    "arena_allocate linear_allocate 8 8 0 (''f'', 1) (ar0, m1) = Inr (4112, ar, m)"
    "arena_allocate linear_allocate 5 1 0 (''f'', 2) (ar, m) = Inr (4144, ar', m')"
    using demo_linear_run by (auto simp: returns_with_iff)
  have req: "client_request 8 8 0" "client_request 5 1 0" by (simp_all add: client_request_def)
  have r: "arena_reach client_request linear_allocate linear_dealloc (ar0, m1) (ar, m) [4112 \<mapsto> mem_read 4112 8 m]"
    using arena_new [where client = client_request, OF arena_start req(1) d(2), of linear_dealloc] by simp
  have "\<forall>q cs. [4112 \<mapsto> mem_read 4112 8 m] q = Some cs \<longrightarrow> mem_read q (length cs) m = cs \<and>
        {4144..<4144 + 5} \<inter> {q..<q + length cs} = {} \<and> mem_read q (length cs) m' = cs"
    using linear_arena_store [of 4096 1024 100, OF _ _ _ _ d(1) [unfolded demo_linear_arena_def] r req(2) d(3)]
    by (simp add: new_tracker_def)
  then have "{4144..<4144 + 5} \<inter> {4112..<4112 + 8 :: nat} = {} \<and> mem_read 4112 8 m' = mem_read 4112 8 m"
    by (metis fun_upd_same mem_read_length)
  with d r show ?thesis by blast
qed

text \<open>
  C23. With bounds checking, \<open>deallocate\<close> detects every overrun of up to eight bytes: if bytes
  behind a block are overwritten with anything but the sentinel's own bytes, it fails.
\<close>

theorem pool_arena_overrun_detected:
  assumes "0 < unat addr" and "unat addr + unat total_sz < 2 ^ 62" and "unat max_alignment = 2 ^ k"
    and "unat user_size + 24 + 2 ^ k + 2 ^ k \<le> 2 ^ 31" and "0 < unat nodes" and "unat nodes < 2 ^ 31" and "new_tracker t"
    and "new_pool_arena True guard t nodes user_size max_alignment name (new_area addr total_sz m0) = Inr (ar0, ha, m1)"
    and "arena_reach client_request pool_allocate pool_deallocate (ar0, m1) (ar, m) blocks" and "blocks (unat ptr) = Some bs"
    and "length ds \<le> 8" and "ds \<noteq> take (length ds) (u64_bytes k_sentinel_back)"
  shows "arena_deallocate pool_deallocate ptr (ar, mem_write (unat ptr + length bs) ds m) = Inl Assertion_Failed"
proof -
  have "bounds_checked ar0" using assms(8) by (auto simp: new_pool_arena_def new_arena_def res_bind_eq_Inr)
  then have "bounds_checked ar" using arena_reach_bounds [OF assms(9)] by simp
  with pool_arena.overrun_fails [OF pool_arena.reach_store [OF assms(9) new_pool_arena_store [OF assms(1-8)]] assms(10) _ assms(11,12)]
  show ?thesis .
qed


theorem pool_arena_overrun_detected_witness:
  "\<exists>ar0 ha m1 ar m. demo_pool_arena = Inr (ar0, ha, m1) \<and>
     arena_reach client_request pool_allocate pool_deallocate (ar0, m1) (ar, m) [4112 \<mapsto> mem_read 4112 8 m] \<and>
     arena_deallocate pool_deallocate 4112 (ar, mem_write 4120 [7] m) = Inl Assertion_Failed"
proof -
  obtain ar0 ha m1 ar m where d: "demo_pool_arena = Inr (ar0, ha, m1)"
    "arena_reach client_request pool_allocate pool_deallocate (ar0, m1) (ar, m) [4112 \<mapsto> mem_read 4112 8 m]"
    by (rule demo_pool_reach)
  have "arena_deallocate pool_deallocate 4112 (ar, mem_write (unat (4112 :: u64) + length (mem_read 4112 8 m)) [7] m) = Inl Assertion_Failed"
    by (rule pool_arena_overrun_detected [of 4096 1024 8 3, OF _ _ _ _ _ _ _ d(1) [unfolded demo_pool_arena_def] d(2)])
      (simp_all add: new_tracker_def u64_bytes_def k_sentinel_back_def upt_rec)
  then have r: "arena_deallocate pool_deallocate 4112 (ar, mem_write 4120 [7] m) = Inl Assertion_Failed" by simp
  show ?thesis by (intro exI conjI, rule d(1), rule d(2), rule r)
qed

text \<open>
  An array of objects in a linear arena: the first object is aligned as requested, and
  whatever is written to the objects, \<open>delete_array\<close> calls the destructors of exactly the
  objects that were constructed, in reverse order, and frees the block.
\<close>

theorem array_roundtrip:
  assumes "0 < unat addr" and "unat addr + unat total_sz < 2 ^ 62" and "unat slab_sz < 2 ^ 32 - 1" and "new_tracker t"
    and "new_linear_arena bounds guard t slab_sz name (new_area addr total_sz m0) = Inr (ar0, ha, m1)"
    and "arena_reach client_request linear_allocate linear_dealloc (ar0, m1) (ar, m) blocks"
    and "0 < al" and "unat al < 2 ^ 60" and "unat tsz * unat n < 2 ^ 60"
    and "arena_new_array linear_allocate False tsz n al loc (ar, m) = Inr ((obj, objs), ar', m')"
    and "i + length ds \<le> unat tsz * unat n"
  shows "unat obj mod unat al = 0 \<and> objs = map (\<lambda>i. obj + word_of_nat i * tsz) [0..<unat n] \<and>
     (\<exists>s'. arena_delete_array linear_dealloc False tsz obj (ar', mem_write (unat obj + i) ds m') = Inr (rev objs, s') \<and>
        store_rel linear_live s' blocks)"
proof -
  note rel = lin_arena.reach_store [OF assms(6) new_linear_arena_store [OF assms(1-5)]]
  obtain bs where
    bs: "store_rel linear_live (ar', m') (blocks(unat obj - 8 \<mapsto> bs))" "blocks (unat obj - 8) = None" "8 \<le> unat obj"
      "take 8 bs = u64_bytes n" "length bs = 8 + unat tsz * unat n" "unat obj mod unat al = 0"
      "objs = map (\<lambda>i. obj + word_of_nat i * tsz) [0..<unat n]"
    using lin_arena.new_array_store [OF rel array_client [OF assms(7-9)] assms(9,10)] by (elim exE conjE)
  let ?bs = "take (8 + i) bs @ ds @ drop (8 + i + length ds) bs"
  have "unat obj - 8 + (8 + i) = unat obj + i" using bs(3) by simp
  then have w: "store_rel linear_live (ar', mem_write (unat obj + i) ds m') (blocks(unat obj - 8 \<mapsto> ?bs))"
    using lin.arena_write_store [OF bs(1), of "unat obj - 8" bs "8 + i" ds] bs(5) assms(11) by simp
  have "take 8 ?bs = u64_bytes n" using bs(4,5) assms(11) by simp
  from lin_arena.delete_array_store [OF w _ bs(3) this, of tsz] bs(2,7) have
    "\<exists>s'. arena_delete_array linear_dealloc False tsz obj (ar', mem_write (unat obj + i) ds m') = Inr (rev objs, s') \<and>
       store_rel linear_live s' (blocks(unat obj - 8 := None))" by auto
  moreover have "blocks(unat obj - 8 := None) = blocks" using bs(2) by auto
  ultimately show ?thesis using bs(6,7) by auto
qed

theorem array_roundtrip_witness:
  "\<exists>ar0 ha m1 ar' m' s'. demo_linear_arena = Inr (ar0, ha, m1) \<and>
     arena_new_array linear_allocate False 4 3 8 (''f'', 3) (ar0, m1) = Inr ((4120, [4120, 4124, 4128]), ar', m') \<and>
     arena_delete_array linear_dealloc False 4 4120 (ar', mem_write 4124 [1, 2, 3, 4] m') = Inr ([4128, 4124, 4120], s')"
proof -
  obtain ar0 ha m1 ar' m' where d: "demo_linear_arena = Inr (ar0, ha, m1)"
    "arena_new_array linear_allocate False 4 3 8 (''f'', 3) (ar0, m1) = Inr ((4120, [4120, 4124, 4128]), ar', m')"
    using demo_array_run by (auto simp: returns_with_iff)
  from array_roundtrip [of 4096 1024 100, OF _ _ _ _ d(1) [unfolded demo_linear_arena_def] arena_start _ _ _ d(2), of 4 "[1, 2, 3, 4]"]
  obtain s' where "arena_delete_array linear_dealloc False 4 4120 (ar', mem_write 4124 [1, 2, 3, 4] m') = Inr ([4128, 4124, 4120], s')"
    by (auto simp: new_tracker_def)
  with d show ?thesis by blast
qed

text \<open>
  The memory tracking policies report a leak exactly when a block is left: in every state a
  client reaches on a pool arena, the report is empty if and only if all blocks were
  deallocated (or nothing is tracked).
\<close>

theorem leak_report_exact:
  assumes "0 < unat addr" and "unat addr + unat total_sz < 2 ^ 62" and "unat max_alignment = 2 ^ k"
    and "unat user_size + 24 + 2 ^ k + 2 ^ k \<le> 2 ^ 31" and "0 < unat nodes" and "unat nodes < 2 ^ 31" and "new_tracker t"
    and "new_pool_arena bounds guard t nodes user_size max_alignment name (new_area addr total_sz m0) = Inr (ar0, ha, m1)"
    and "arena_reach client_request pool_allocate pool_deallocate (ar0, m1) (ar, m) blocks"
  shows "tracker_report (memory_tracker ar) = None \<longleftrightarrow> memory_tracker ar = No_Memory_Tracking \<or> blocks = Map.empty"
  using pool_arena.reach_count [OF assms(9) new_pool_arena_store [OF assms(1-8)]] .

theorem leak_report_exact_witness:
  "\<exists>ar0 ha m1 ar m. demo_pool_arena = Inr (ar0, ha, m1) \<and>
     arena_reach client_request pool_allocate pool_deallocate (ar0, m1) (ar, m) [4112 \<mapsto> mem_read 4112 8 m] \<and>
     (tracker_report (memory_tracker ar) = None \<longleftrightarrow> memory_tracker ar = No_Memory_Tracking)"
proof -
  obtain ar0 ha m1 ar m where d: "demo_pool_arena = Inr (ar0, ha, m1)"
    "arena_reach client_request pool_allocate pool_deallocate (ar0, m1) (ar, m) [4112 \<mapsto> mem_read 4112 8 m]"
    by (rule demo_pool_reach)
  have r: "tracker_report (memory_tracker ar) = None \<longleftrightarrow> memory_tracker ar = No_Memory_Tracking"
    using leak_report_exact [of 4096 1024 8 3, OF _ _ _ _ _ _ _ d(1) [unfolded demo_pool_arena_def] d(2)]
    by (simp add: new_tracker_def)
  show ?thesis by (intro exI conjI, rule d(1), rule d(2), rule r)
qed

text \<open>
  When an allocator returns null, as all of them do when assertions are compiled out, the arena
  returns without leaving the thread guard: the next operation never acquires the lock.
\<close>

theorem null_allocation_keeps_lock:
  assumes "guarded ar" "\<not> locked ar"
    and "alloc (k_allocation_overhead ar + sz) al (off + k_front_overhead ar) (allocator ar, m) = Inr (0, a, m')"
  shows "\<exists>ar'. arena_allocate alloc sz al off loc (ar, m) = Inr (0, ar', m') \<and>
     (\<forall>ptr. arena_deallocate dealloc ptr (ar', m') = Inl Deadlock)"
  using assms by (simp add: arena_allocate_def arena_deallocate_def guard_enter_def)

text \<open>The size of an array is not checked for overflow: \<open>2^60\<close> objects of 16 bytes fit in a block of 8 bytes.\<close>

theorem new_array_overflow:
  "\<exists>ar ha m ar' m' objs. new_linear_arena False False No_Memory_Tracking 100 ''a'' (new_area 4096 1024 (\<lambda>_. 0)) = Inr (ar, ha, m) \<and>
     arena_new_array linear_allocate False 16 0x1000000000000000 8 (''f'', 1) (ar, m) = Inr ((4112, objs), ar', m') \<and>
     la_head (allocator ar') = 16"
  by (simp add: new_linear_arena_def new_linear_allocator_def new_area_def require_slab_def alignment_padding_def
      k_cache_line_size_def area_end_def linear_allocate_def arena_new_array_def arena_allocate_def new_arena_def
      guard_enter_def guard_leave_def k_allocation_overhead_def k_front_overhead_def k_back_overhead_def
      sentinel_size_def put_sentinel_def)

end
