(* ===== verification/Tlsf_Bits.thy ===== *)
theory Tlsf_Bits
  imports Kibble_Prelude
begin

text \<open>
  Bit scans and size classes of the TLSF allocator (\<open>memory/allocator/tlsf/impl/bit.h\<close>, \<open>common.h\<close>,
  \<open>common.cpp\<close>): the portable bit scans agree with the compiler builtins, and the two-level
  index of a request only leads to blocks that are large enough.
\<close>

unbundle bit_operations_syntax

section \<open>Bit scans\<close>

text \<open>
  \<open>__builtin_clz\<close> counts the leading zero bits; \<open>__builtin_ffs\<close> is one plus the position of the lowest set
  bit, and 0 for 0. An \<open>int\<close> is passed as its 32-bit pattern.
\<close>

definition builtin_clz :: "u32 \<Rightarrow> nat" where
  "builtin_clz w = length (takeWhile (\<lambda>i. \<not> bit w i) (rev [0..<32]))"

definition builtin_ffs :: "u32 \<Rightarrow> nat" where
  "builtin_ffs w = (if w = 0 then 0 else Suc (length (takeWhile (\<lambda>i. \<not> bit w i) [0..<32])))"

definition ffs :: "u32 \<Rightarrow> int" where
  "ffs w = int (builtin_ffs w) - 1"

definition fls :: "u32 \<Rightarrow> int" where
  "fls w = (let bit = (if w \<noteq> 0 then 32 - int (builtin_clz w) else 0) in bit - 1)"

definition fls_shift :: "u32 \<Rightarrow> nat \<Rightarrow> u32 \<times> int \<Rightarrow> u32 \<times> int" where
  "fls_shift m s = (\<lambda>(word, bit). if word AND m = 0 then (push_bit s word, bit - int s) else (word, bit))"

definition fls_generic :: "u32 \<Rightarrow> int" where
  "fls_generic w =
     (let s0 = (w, if w = 0 then 31 else 32);
          s1 = fls_shift 0xFFFF0000 16 s0;
          s2 = fls_shift 0xFF000000 8 s1;
          s3 = fls_shift 0xF0000000 4 s2;
          s4 = fls_shift 0xC0000000 2 s3;
          s5 = fls_shift 0x80000000 1 s4
      in snd s5)"

definition ffs_fallback :: "u32 \<Rightarrow> int" where
  "ffs_fallback w = fls_generic (w AND (NOT w + 1)) - 1"

definition fls_fallback :: "u32 \<Rightarrow> int" where
  "fls_fallback w = fls_generic w - 1"

definition fls_size_t :: "u64 \<Rightarrow> int" where
  "fls_size_t sz =
     (let size_hi = ucast (drop_bit 32 sz) :: u32
      in if size_hi \<noteq> 0 then 32 + fls size_hi else fls (ucast sz AND 0xFFFFFFFF))"

section \<open>Constants and alignment\<close>

definition k_align_size :: u64 where "k_align_size = 8"
definition k_sl_index_count_log2 :: nat where "k_sl_index_count_log2 = 5"
definition k_sl_index_count :: nat where "k_sl_index_count = 32"
definition k_fl_index_shift :: nat where "k_fl_index_shift = 8"
definition k_fl_index_count :: nat where "k_fl_index_count = 25"
definition k_small_block_size :: u64 where "k_small_block_size = 256"

definition is_pow2 :: "u64 \<Rightarrow> bool" where
  "is_pow2 x \<longleftrightarrow> x AND (x - 1) = 0"

definition align_up :: "u64 \<Rightarrow> u64 \<Rightarrow> fault + u64" where
  "align_up x alignment = res_bind (k_assert (is_pow2 alignment)) (\<lambda>_. Inr ((x + (alignment - 1)) AND NOT (alignment - 1)))"

definition align_down :: "u64 \<Rightarrow> u64 \<Rightarrow> fault + u64" where
  "align_down x alignment = res_bind (k_assert (is_pow2 alignment)) (\<lambda>_. Inr (x - (x AND (alignment - 1))))"

definition align_ptr :: "u64 \<Rightarrow> u64 \<Rightarrow> fault + u64" where
  "align_ptr ptr alignment = res_bind (k_assert (is_pow2 alignment)) (\<lambda>_. Inr ((ptr + (alignment - 1)) AND NOT (alignment - 1)))"

section \<open>Size classes\<close>

text \<open>\<open>int(size)\<close> keeps the low 32 bits as a signed number; \<open>>>\<close> on it is an arithmetic shift.\<close>

definition mapping_insert :: "u64 \<Rightarrow> int \<times> int" where
  "mapping_insert sz =
     (if sz < k_small_block_size then (0, sint (ucast sz :: u32) div 8)
      else (let fli = fls_size_t sz;
                sli = drop_bit (nat (fli - int k_sl_index_count_log2)) (sint (ucast sz :: u32)) XOR 32
            in (fli - (int k_fl_index_shift - 1), sli)))"

definition mapping_search :: "u64 \<Rightarrow> int \<times> int" where
  "mapping_search sz =
     (if k_small_block_size \<le> sz
      then (let round = scast (push_bit (nat (fls_size_t sz) - k_sl_index_count_log2) (1 :: u32) - 1)
            in mapping_insert (sz + round))
      else mapping_insert sz)"

section \<open>The scans find the highest and the lowest bit\<close>

definition highest :: "'a::len word \<Rightarrow> nat \<Rightarrow> bool" where
  "highest w n \<longleftrightarrow> bit w n \<and> (\<forall>i. n < i \<longrightarrow> \<not> bit w i)"

definition lowest :: "'a::len word \<Rightarrow> nat \<Rightarrow> bool" where
  "lowest w n \<longleftrightarrow> bit w n \<and> (\<forall>i < n. \<not> bit w i)"

lemma highest_bound: "highest (w :: 'a::len word) n \<Longrightarrow> n < LENGTH('a)"
  by (auto simp: highest_def dest: bit_imp_le_length)

lemma bit_unat_odd: "bit (w :: 'a::len word) i \<longleftrightarrow> odd (unat w div 2 ^ i)"
proof -
  have "bit (unat w) i \<longleftrightarrow> bit w i" by (auto simp: bit_unsigned_iff dest: bit_imp_le_length)
  then show ?thesis by (simp add: bit_iff_odd)
qed

lemma highest_iff:
  fixes w :: "'a::len word"
  shows "highest w n \<longleftrightarrow> 2 ^ n \<le> unat w \<and> unat w < 2 ^ Suc n"
proof
  assume h: "highest w n"
  have "w = take_bit (Suc n) w" using h by (auto intro!: bit_word_eqI simp: bit_take_bit_iff highest_def less_Suc_eq_le) (metis not_le)
  then have "unat w = take_bit (Suc n) (unat w)" by (metis unsigned_take_bit_eq)
  then have "unat w < 2 ^ Suc n" by (metis take_bit_nat_less_exp)
  moreover have "unat w div 2 ^ n \<noteq> 0" using h by (metis highest_def bit_unat_odd even_zero)
  ultimately show "2 ^ n \<le> unat w \<and> unat w < 2 ^ Suc n" by (metis div_less not_le)
next
  assume b: "2 ^ n \<le> unat w \<and> unat w < 2 ^ Suc n"
  then have "unat w div 2 ^ n = 1" by (intro div_nat_eqI) simp_all
  moreover have "unat w div 2 ^ i = 0" if "n < i" for i
  proof -
    have "(2::nat) ^ Suc n \<le> 2 ^ i" using that by (intro power_increasing) auto
    then show ?thesis using b by simp
  qed
  ultimately show "highest w n" by (auto simp: highest_def bit_unat_odd)
qed

lemma highest_unique: "highest w n \<Longrightarrow> highest w k \<Longrightarrow> n = k"
  unfolding highest_def by (metis linorder_neqE_nat)

lemma highest_exists: "w \<noteq> 0 \<Longrightarrow> \<exists>n. highest (w :: 'a::len word) n"
proof -
  assume "w \<noteq> 0"
  then have "0 < unat w" by (simp add: unat_gt_0)
  then show ?thesis unfolding highest_iff using ex_power_ivl1 [of 2 "unat w"] by auto
qed

lemma lowest_exists: "w \<noteq> 0 \<Longrightarrow> \<exists>n. lowest (w :: 'a::len word) n"
  unfolding lowest_def using exists_least_iff [of "bit w"] by (metis bit_eqI bit_0_eq bot_apply bot_bool_def)

lemma takeWhile_first:
  "n < length xs \<Longrightarrow> P (xs ! n) \<Longrightarrow> (\<And>i. i < n \<Longrightarrow> \<not> P (xs ! i)) \<Longrightarrow> length (takeWhile (\<lambda>x. \<not> P x) xs) = n"
proof (induction xs arbitrary: n)
  case (Cons x xs)
  show ?case
  proof (cases n)
    case (Suc k)
    have "\<not> P x" using Cons.prems(3) [of 0] Suc by simp
    moreover have "length (takeWhile (\<lambda>x. \<not> P x) xs) = k"
      by (rule Cons.IH) (use Cons.prems(1,2) Cons.prems(3) [of "Suc _"] Suc in auto)
    ultimately show ?thesis using Suc by simp
  qed (use Cons.prems in simp)
qed simp

lemma fls_highest: "highest w n \<Longrightarrow> fls w = int n"
proof -
  assume h: "highest w n"
  have n: "n < 32" using highest_bound [OF h] by simp
  have "builtin_clz w = 31 - n" unfolding builtin_clz_def
    by (rule takeWhile_first) (use h n in \<open>auto simp: highest_def rev_nth\<close>)
  moreover have "w \<noteq> 0" using h by (auto simp: highest_def)
  ultimately show ?thesis using n by (simp add: fls_def)
qed

lemma fls_zero [simp]: "fls 0 = - 1"
  by (simp add: fls_def)

lemma ffs_lowest: "lowest w n \<Longrightarrow> ffs w = int n"
proof -
  assume h: "lowest w n"
  then have n: "n < 32" using bit_imp_le_length [of w n] by (simp add: lowest_def)
  have "length (takeWhile (\<lambda>i. \<not> bit w i) [0..<32]) = n"
    by (rule takeWhile_first) (use h n in \<open>auto simp: lowest_def\<close>)
  moreover have "w \<noteq> 0" using h by (auto simp: lowest_def)
  ultimately show ?thesis by (simp add: ffs_def builtin_ffs_def)
qed

section \<open>The portable scans\<close>

definition top_bits :: "nat \<Rightarrow> u32 \<Rightarrow> bool" where
  "top_bits s m \<longleftrightarrow> map (bit m) [0..<32] = map (\<lambda>i. 32 - s \<le> i) [0..<32]"

lemma top_masks: "top_bits 16 0xFFFF0000" "top_bits 8 0xFF000000" "top_bits 4 0xF0000000" "top_bits 2 0xC0000000" "top_bits 1 0x80000000"
  unfolding top_bits_def by code_simp+

lemma top_bits_bit: "top_bits s m \<Longrightarrow> i < 32 \<Longrightarrow> bit m i \<longleftrightarrow> 32 - s \<le> i"
  unfolding top_bits_def by (metis (mono_tags, lifting) add_0 diff_zero length_upt nth_map nth_upt)

lemma fls_shift_step:
  assumes "highest w p" "top_bits s m" "32 - 2 * s \<le> p" "s \<le> 16"
  shows "\<exists>w' p'. fls_shift m s (w, b) = (w', b + int p - int p') \<and> highest w' p' \<and> 32 - s \<le> p'"
proof (cases "w AND m = 0")
  case True
  have p: "p < 32" "p < 32 - s"
  proof -
    show "p < 32" using highest_bound [OF assms(1)] by simp
    then show "p < 32 - s" using True assms(1) top_bits_bit [OF assms(2), of p] unfolding highest_def
      by (metis bit_0_eq bit_and_iff bot_apply bot_bool_def not_le_imp_less)
  qed
  have "highest (push_bit s w) (p + s)" using assms(1) p by (auto simp: highest_def bit_push_bit_iff)
  then show ?thesis using True assms(3) by (intro exI [of _ "push_bit s w"] exI [of _ "p + s"]) (auto simp: fls_shift_def)
next
  case False
  then obtain i where i: "bit w i" "bit m i" by (auto simp: bit_eq_iff bit_and_iff)
  then have "32 - s \<le> i" using top_bits_bit [OF assms(2), of i] bit_imp_le_length [OF i(1)] by simp
  moreover have "i \<le> p" using i(1) assms(1) by (auto simp: highest_def not_less [symmetric])
  ultimately show ?thesis using False assms(1) by (intro exI [of _ w] exI [of _ p]) (auto simp: fls_shift_def)
qed

lemma fls_generic_highest:
  assumes "highest w n"
  shows "fls_generic w = int n + 1"
proof -
  have w: "w \<noteq> 0" using assms by (auto simp: highest_def)
  obtain w1 p1 where 1: "fls_shift 0xFFFF0000 16 (w, 32) = (w1, 32 + int n - int p1)" "highest w1 p1" "16 \<le> p1"
    using fls_shift_step [OF assms top_masks(1), of 32] by auto
  obtain w2 p2 where 2: "fls_shift 0xFF000000 8 (w1, 32 + int n - int p1) = (w2, 32 + int n - int p2)" "highest w2 p2" "24 \<le> p2"
    using fls_shift_step [OF 1(2) top_masks(2), of "32 + int n - int p1"] 1(3) by auto
  obtain w3 p3 where 3: "fls_shift 0xF0000000 4 (w2, 32 + int n - int p2) = (w3, 32 + int n - int p3)" "highest w3 p3" "28 \<le> p3"
    using fls_shift_step [OF 2(2) top_masks(3), of "32 + int n - int p2"] 2(3) by auto
  obtain w4 p4 where 4: "fls_shift 0xC0000000 2 (w3, 32 + int n - int p3) = (w4, 32 + int n - int p4)" "highest w4 p4" "30 \<le> p4"
    using fls_shift_step [OF 3(2) top_masks(4), of "32 + int n - int p3"] 3(3) by auto
  obtain w5 p5 where 5: "fls_shift 0x80000000 1 (w4, 32 + int n - int p4) = (w5, 32 + int n - int p5)" "highest w5 p5" "31 \<le> p5"
    using fls_shift_step [OF 4(2) top_masks(5), of "32 + int n - int p4"] 4(3) by auto
  have "p5 = 31" using 5(3) highest_bound [OF 5(2)] by simp
  then show ?thesis unfolding fls_generic_def Let_def using w 1(1) 2(1) 3(1) 4(1) 5(1) by simp
qed

lemma lowest_isolated:
  fixes w :: "'a::len word"
  assumes "lowest w n"
  shows "w AND (NOT w + 1) = push_bit n 1"
proof -
  have n: "n < LENGTH('a)" using assms bit_imp_le_length by (auto simp: lowest_def)
  have "w - push_bit n 1 = w AND NOT (push_bit n 1)" using assms
    by (intro disjunctive_diff) (auto simp: lowest_def bit_simps)
  moreover have "push_bit n 1 - 1 = (mask n :: 'a word)" by (simp add: mask_eq_exp_minus_1 push_bit_eq_mult)
  ultimately have "w - 1 = (w AND NOT (push_bit n 1)) + mask n" by (simp add: algebra_simps)
  also have "\<dots> = (w AND NOT (push_bit n 1)) OR mask n" using assms
    by (intro disjunctive_add) (auto simp: lowest_def bit_simps)
  finally have "NOT w + 1 = NOT ((w AND NOT (push_bit n 1)) OR mask n)" by (simp add: minus_eq_not_plus_1 [symmetric] minus_eq_not_minus_1)
  then show ?thesis using assms n by (auto intro!: bit_word_eqI simp: bit_simps lowest_def)
qed

text \<open>
  The portable bit scans \<open>fls_generic\<close> and its clients, used with compilers that have no builtins, compute the same as the
  builtin versions for every word, zero included.
\<close>

theorem scans_agree: "fls_fallback w = fls w \<and> ffs_fallback w = ffs w"
proof (cases "w = 0")
  case True
  have "fls_generic 0 = 0" by code_simp
  then show ?thesis using True by (simp add: fls_fallback_def ffs_fallback_def ffs_def builtin_ffs_def)
next
  case False
  obtain n k where n: "highest w n" and k: "lowest w k" using highest_exists [OF False] lowest_exists [OF False] by blast
  have "highest (push_bit k 1 :: u32) k" using k bit_imp_le_length [of w k] by (auto simp: highest_def lowest_def bit_simps)
  then have "fls_generic (w AND (NOT w + 1)) = int k + 1" unfolding lowest_isolated [OF k] by (rule fls_generic_highest)
  then show ?thesis using fls_generic_highest [OF n] fls_highest [OF n] ffs_lowest [OF k] by (simp add: fls_fallback_def ffs_fallback_def)
qed

lemma fls_size_t_highest:
  assumes "highest sz n"
  shows "fls_size_t sz = int n"
proof (cases "n < 32")
  case True
  then have "ucast (drop_bit 32 sz) = (0 :: u32)" using assms by (auto intro!: bit_word_eqI simp: highest_def bit_simps)
  moreover have "highest (ucast sz AND 0xFFFFFFFF :: u32) n"
  proof -
    have all: "(0xFFFFFFFF :: u32) = - 1" by simp
    show ?thesis using assms True unfolding all by (auto simp: highest_def bit_simps)
  qed
  ultimately show ?thesis using fls_highest by (simp add: fls_size_t_def)
next
  case False
  have n: "n < 64" using highest_bound [OF assms] by simp
  have h: "highest (ucast (drop_bit 32 sz) :: u32) (n - 32)" using assms False n by (auto simp: highest_def bit_simps)
  then have "ucast (drop_bit 32 sz) \<noteq> (0 :: u32)" by (auto simp: highest_def)
  then show ?thesis using fls_highest [OF h] False by (simp add: fls_size_t_def)
qed

section \<open>Size classes\<close>

lemma sint_u32_small: "unat sz < 2 ^ 31 \<Longrightarrow> sint (ucast (sz :: u64) :: u32) = int (unat sz)"
proof -
  assume sz: "unat sz < 2 ^ 31"
  then have u: "unat (ucast sz :: u32) = unat sz" by (intro ucast_u64_u32) simp
  have "sint (ucast sz :: u32) = signed_take_bit 31 (int (unat (ucast sz :: u32)))" by (simp add: sint_uint)
  moreover have "signed_take_bit 31 (int k) = int k" if "k < 2 ^ 31" for k
    using that by (intro signed_take_bit_int_eq_self) simp_all
  ultimately show ?thesis using u sz by metis
qed

lemma xor_32: "32 \<le> q \<Longrightarrow> q < 64 \<Longrightarrow> int q XOR 32 = int q - 32"
proof -
  have "\<forall>r \<in> set [0..<32]. int (32 + r) XOR 32 = int r" by code_simp
  moreover assume "32 \<le> q" "q < 64"
  then have "q - 32 \<in> set [0..<32]" "32 + (q - 32) = q" "int (q - 32) = int q - 32" by auto
  ultimately show ?thesis by metis
qed

lemma mapping_insert_small: "unat sz < 256 \<Longrightarrow> mapping_insert sz = (0, int (unat sz div 8))"
proof -
  assume sz: "unat sz < 256"
  then have "sz < 256" by (simp add: word_less_nat_alt)
  moreover have "sint (ucast sz :: u32) = int (unat sz)" using sz by (intro sint_u32_small) simp
  ultimately show ?thesis by (simp add: mapping_insert_def k_small_block_size_def zdiv_int)
qed

lemma mapping_insert_large:
  assumes h: "highest sz n" and n: "8 \<le> n" "n < 31"
  shows "mapping_insert sz = (int n - 7, int (unat sz div 2 ^ (n - 5)) - 32)" "32 \<le> unat sz div 2 ^ (n - 5)" "unat sz div 2 ^ (n - 5) < 64"
proof -
  have b: "2 ^ n \<le> unat sz" "unat sz < 2 ^ Suc n" using h by (simp_all add: highest_iff)
  have "(2::nat) ^ 8 \<le> 2 ^ n" "(2::nat) ^ Suc n \<le> 2 ^ 31" using n by (intro power_increasing; simp)+
  then have "256 \<le> unat sz" and sz: "unat sz < 2 ^ 31" using b by simp_all
  then have "\<not> sz < 256" by (simp add: word_less_nat_alt)
  have "(2::nat) ^ n = 32 * 2 ^ (n - 5)" "(2::nat) ^ Suc n = 64 * 2 ^ (n - 5)"
    using n power_add [of "2::nat" 5 "n - 5"] power_add [of "2::nat" 6 "n - 5"] by (simp_all flip: power_Suc)
  then show q: "32 \<le> unat sz div 2 ^ (n - 5)" "unat sz div 2 ^ (n - 5) < 64"
    using b by (simp_all add: less_eq_div_iff_mult_less_eq less_mult_imp_div_less)
  have "drop_bit (n - 5) (int (unat sz)) = int (unat sz div 2 ^ (n - 5))" by (simp add: drop_bit_eq_div zdiv_int)
  then show "mapping_insert sz = (int n - 7, int (unat sz div 2 ^ (n - 5)) - 32)"
    using \<open>\<not> sz < 256\<close> n xor_32 [OF q] nat_diff_distrib [of 5 "int n"]
    by (simp add: mapping_insert_def k_small_block_size_def k_sl_index_count_log2_def k_fl_index_shift_def Let_def
        fls_size_t_highest [OF h] sint_u32_small [OF sz])
qed

lemma search_round:
  assumes k: "k < 32"
  shows "unat (scast (push_bit k (1 :: u32) - 1) :: u64) = 2 ^ k - 1"
proof -
  have "push_bit k (1 :: u32) - 1 = mask k" by (simp add: mask_eq_exp_minus_1)
  moreover have "(scast (mask k :: u32) :: u64) = mask k"
    using k by (intro bit_word_eqI) (auto simp: bit_signed_iff bit_mask_iff min_def)
  moreover have "(mask k :: u64) = word_of_nat (2 ^ k - 1)" by (simp add: mask_eq_exp_minus_1 of_nat_diff)
  moreover have "(2::nat) ^ k \<le> 2 ^ 32" using k by (intro power_increasing) auto
  then have "unat (word_of_nat (2 ^ k - 1) :: u64) = 2 ^ k - 1" by (intro unat_word_of_nat) simp
  ultimately show ?thesis by simp
qed

text \<open>The class of a block is at most as high as the class of any larger block.\<close>

lemma mapping_insert_range:
  assumes "unat sz < 2 ^ 31" "mapping_insert sz = (f, s)"
  shows "0 \<le> f" "f < 24" "0 \<le> s" "s < 32"
proof -
  have "0 \<le> f \<and> f < 24 \<and> 0 \<le> s \<and> s < 32"
  proof (cases "unat sz < 256")
    case True
    then show ?thesis using assms(2) mapping_insert_small [OF True] by auto
  next
    case False
    then have "sz \<noteq> 0" by auto
    then obtain n where n: "highest sz n" using highest_exists by blast
    then have b: "2 ^ n \<le> unat sz" "unat sz < 2 ^ Suc n" by (simp_all add: highest_iff)
    have "8 \<le> n" using b(2) False power_increasing_iff [of "2::nat" "Suc n" 8] by (cases "n < 8") auto
    moreover have "n < 31" using b(1) assms(1) power_increasing_iff [of "2::nat" 31 n] by (cases "n < 31") auto
    ultimately show ?thesis using mapping_insert_large [OF n] assms(2) by auto
  qed
  then show "0 \<le> f" "f < 24" "0 \<le> s" "s < 32" by auto
qed

lemma highest_range:
  assumes "highest sz n" "256 \<le> unat sz" "unat sz < 2 ^ k"
  shows "8 \<le> n" "n < k"
proof -
  have b: "2 ^ n \<le> unat sz" "unat sz < 2 ^ Suc n" using assms(1) by (simp_all add: highest_iff)
  show "8 \<le> n" using b(2) assms(2) power_increasing_iff [of "2::nat" "Suc n" 8] by (cases "n < 8") auto
  show "n < k"
  proof (rule ccontr)
    assume "\<not> n < k"
    then have "(2::nat) ^ k \<le> 2 ^ n" by (intro power_increasing) auto
    then show False using b(1) assms(3) by linarith
  qed
qed

text \<open>A request is rounded up to the next class: the search starts at the class of \<open>t\<close>.\<close>

lemma search_target:
  assumes "unat sz < 2 ^ 30"
  obtains t where "mapping_search sz = mapping_insert t" "unat sz \<le> unat t" "unat t \<le> unat sz + unat sz div 32" "unat t < 2 ^ 31"
    "unat sz < 256 \<Longrightarrow> t = sz" "\<And>n. 8 \<le> n \<Longrightarrow> highest sz n \<Longrightarrow> unat t = unat sz + (2 ^ (n - 5) - 1)"
proof (cases "unat sz < 256")
  case True
  then have "\<not> k_small_block_size \<le> sz" by (simp add: k_small_block_size_def word_le_nat_alt)
  then have ms: "mapping_search sz = mapping_insert sz" by (simp add: mapping_search_def)
  have no: False if "highest sz n" "8 \<le> n" for n
  proof -
    have "(2::nat) ^ 8 \<le> 2 ^ n" using that(2) by (intro power_increasing) auto
    then show False using that(1) True unfolding highest_iff by simp
  qed
  show thesis by (rule that [OF ms]) (use True assms no in auto)
next
  case False
  then have "sz \<noteq> 0" by auto
  then obtain n where h: "highest sz n" using highest_exists by blast
  have n: "8 \<le> n" "n < 30" using highest_range [OF h _ assms] False by auto
  have b: "2 ^ n \<le> unat sz" "unat sz < 2 ^ Suc n" using h by (simp_all add: highest_iff)
  define t where "t = sz + scast (push_bit (n - 5) (1 :: u32) - 1)"
  have q: "(2::nat) ^ (n - 5) \<le> 2 ^ 25" "(0::nat) < 2 ^ (n - 5)" using n power_increasing [of "n - 5" 25 "2::nat"] by auto
  have "2 ^ (n - 5) * 32 = (2::nat) ^ n" using n power_add [of "2::nat" "n - 5" 5] by simp
  then have d: "2 ^ (n - 5) \<le> unat sz div 32" using b(1) by (simp add: less_eq_div_iff_mult_less_eq)
  have "unat (scast (push_bit (n - 5) (1 :: u32) - 1) :: u64) = 2 ^ (n - 5) - 1" using n by (intro search_round) simp
  then have t: "unat t = unat sz + (2 ^ (n - 5) - 1)" unfolding t_def using assms q by (subst unat_add) auto
  have ms: "mapping_search sz = mapping_insert t"
    using False n by (simp add: mapping_search_def k_small_block_size_def word_le_nat_alt fls_size_t_highest [OF h]
        k_sl_index_count_log2_def t_def Let_def)
  show thesis
  proof (rule that [OF ms])
    show "unat t = unat sz + (2 ^ (k - 5) - 1)" if "highest sz k" for k using t highest_unique [OF h that] by simp
    show "unat sz \<le> unat t" unfolding t by (rule le_add1)
  qed (use t q d assms False in auto)
qed

lemma class_mono:
  assumes "unat x \<le> unat y" "unat y < 2 ^ 31" "mapping_insert x = (f, s)" "mapping_insert y = (f', s')"
  shows "f < f' \<or> f = f' \<and> s \<le> s'"
proof (cases "unat x < 256")
  case x: True
  show ?thesis
  proof (cases "unat y < 256")
    case True
    then show ?thesis using x assms mapping_insert_small by (auto simp: div_le_mono)
  next
    case False
    then have "y \<noteq> 0" by auto
    then obtain n where h: "highest y n" using highest_exists by blast
    then show ?thesis using highest_range [OF h _ assms(2)] mapping_insert_large(1) [OF h] mapping_insert_small [OF x] False assms(3,4) by auto
  qed
next
  case x: False
  then have "x \<noteq> 0" "y \<noteq> 0" using assms(1) by auto
  then obtain n k where h: "highest x n" "highest y k" using highest_exists by metis
  have n: "8 \<le> n" "n < 31" "8 \<le> k" "k < 31" using highest_range [OF h(1), of 31] highest_range [OF h(2), of 31] x assms(1,2) by auto
  have "(2::nat) ^ n < 2 ^ Suc k" using h assms(1) unfolding highest_iff by linarith
  then have "n \<le> k" using power_strict_increasing_iff [of "2::nat" n "Suc k"] by simp
  then show ?thesis
    using mapping_insert_large(1) [OF h(1) n(1,2)] mapping_insert_large(1) [OF h(2) n(3,4)] assms by (auto simp: div_le_mono)
qed

text \<open>Every list at or above the class of a request holds only blocks that are large enough.\<close>

lemma mapping_search_fits:
  assumes "unat sz < 2 ^ 30" "unat bs < 2 ^ 31" "unat sz mod 8 = 0" "unat bs mod 8 = 0"
    and search: "mapping_search sz = (f, s)" and insert: "mapping_insert bs = (f', s')" and le: "f < f' \<or> f = f' \<and> s \<le> s'"
  shows "unat sz \<le> unat bs"
proof (rule ccontr)
  assume "\<not> unat sz \<le> unat bs"
  then have less: "unat bs < unat sz" by simp
  obtain t where t: "mapping_insert t = (f, s)" "unat sz \<le> unat t" "unat t < 2 ^ 31" "unat sz < 256 \<Longrightarrow> t = sz"
    "\<And>n. 8 \<le> n \<Longrightarrow> highest sz n \<Longrightarrow> unat t = unat sz + (2 ^ (n - 5) - 1)" using search_target [OF assms(1)] search by metis
  have "f' < f \<or> f' = f \<and> s' \<le> s" using class_mono [of bs t f' s' f s] insert t(1,2,3) less by simp
  then have eq: "f' = f" "s' = s" using le by auto
  show False
  proof (cases "unat sz < 256")
    case True
    have "unat bs = 8 * (unat bs div 8)" "unat sz = 8 * (unat sz div 8)"
      using mult_div_mod_eq [of 8 "unat bs"] mult_div_mod_eq [of 8 "unat sz"] assms(3,4) by simp_all
    then show False using mapping_insert_small [OF True] mapping_insert_small [of bs] t(1) t(4) [OF True] insert less True eq by auto
  next
    case False
    then have "sz \<noteq> 0" "t \<noteq> 0" using t(2) by auto
    then obtain n k where h: "highest sz n" "highest t k" using highest_exists by metis
    have n: "8 \<le> n" "8 \<le> k" "k < 31" using highest_range [OF h(1), of 31] highest_range [OF h(2), of 31] False assms(1) t(2,3) by auto
    have fk: "f = int k - 7" "s = int (unat t div 2 ^ (k - 5)) - 32" using mapping_insert_large(1) [OF h(2) n(2,3)] t(1) by auto
    then have "\<not> unat bs < 256" using mapping_insert_small [of bs] insert eq n(2) by auto
    moreover from this have "bs \<noteq> 0" by auto
    then obtain j where j: "highest bs j" using highest_exists by blast
    ultimately have jr: "8 \<le> j" "j < 31" using highest_range [OF j _ assms(2)] by auto
    from mapping_insert_large(1) [OF j jr] have "j = k" and bq: "unat t div 2 ^ (k - 5) = unat bs div 2 ^ (k - 5)"
      using insert eq fk by auto
    have "(2::nat) ^ j < 2 ^ Suc n" "(2::nat) ^ n < 2 ^ Suc k" using j h less t(2) unfolding highest_iff by linarith+
    then have "n = k" using \<open>j = k\<close> power_strict_increasing_iff [of "2::nat"] by (metis One_nat_def Suc_leI le_antisym less_Suc_eq_le one_less_numeral_iff semiring_norm(76))
    have "unat t = unat sz - 1 + 2 ^ (k - 5)" using t(5) [OF n(1) h(1)] \<open>n = k\<close> less by simp
    then have "unat t div 2 ^ (k - 5) = Suc ((unat sz - 1) div 2 ^ (k - 5))"
      using div_add_self2 [of "2 ^ (k - 5)" "unat sz - 1"] by simp
    moreover have "unat bs div 2 ^ (k - 5) \<le> (unat sz - 1) div 2 ^ (k - 5)" using less by (intro div_le_mono) simp
    ultimately show False using bq by simp
  qed
qed

text \<open>A block of two gigabytes or more gets a negative second-level index.\<close>

lemma mapping_insert_overflows: "mapping_insert 0x80000000 = (24, - 64) \<and> mapping_insert 0x100000000 = (25, 32)"
  by code_simp

section \<open>Alignment\<close>

lemma is_pow2_iff: "is_pow2 w \<longleftrightarrow> w = 0 \<or> (\<exists>n < 64. w = push_bit n 1)"
proof (cases "w = 0")
  case False
  then obtain n where n: "lowest w n" using lowest_exists by blast
  have iso: "w AND - w = push_bit n 1" using lowest_isolated [OF n] by (simp add: minus_eq_not_plus_1)
  have "w - 1 = NOT (- w)" by (simp add: not_eq_complement)
  then have w: "is_pow2 w \<longleftrightarrow> w AND NOT (- w) = 0" by (simp add: is_pow2_def)
  have n64: "n < 64" using n bit_imp_le_length [of w n] by (simp add: lowest_def)
  show ?thesis
  proof
    assume "is_pow2 w"
    then have "bit (- w) i" if "bit w i" for i
      using that bit_imp_le_length [of w i] unfolding w bit_eq_iff [of "_ AND _"] bit_and_iff bit_not_iff by auto
    then have "w = w AND - w" by (intro bit_word_eqI) (auto simp: bit_and_iff)
    then show "w = 0 \<or> (\<exists>n < 64. w = push_bit n 1)" using iso n64 by metis
  next
    assume "w = 0 \<or> (\<exists>n < 64. w = push_bit n 1)"
    then obtain k where k: "k < 64" "w = push_bit k 1" using False by blast
    have "w - 1 = mask k" by (simp add: k mask_eq_exp_minus_1 push_bit_eq_mult)
    moreover have "push_bit k 1 AND mask k = (0 :: u64)"
      by (rule bit_word_eqI) (auto simp: bit_and_iff bit_mask_iff bit_exp_iff)
    ultimately show "is_pow2 w" by (simp add: is_pow2_def k)
  qed
qed (simp add: is_pow2_def)

lemma and_not_mask:
  fixes w :: u64
  shows "unat (w AND NOT (mask k)) = unat w div 2 ^ k * 2 ^ k"
proof -
  have "w AND NOT (mask k) = push_bit k (drop_bit k w)"
    by (rule bit_word_eqI) (auto simp: bit_and_iff bit_not_iff bit_mask_iff bit_push_bit_iff bit_drop_bit_eq)
  moreover have "unat (push_bit k (drop_bit k w)) = push_bit k (drop_bit k (unat w))"
  proof (rule bit_eqI)
    fix n
    have "bit (unat w) n \<Longrightarrow> n < 64" using bit_imp_le_length [of w n] by (simp add: bit_unsigned_iff)
    then show "bit (unat (push_bit k (drop_bit k w))) n \<longleftrightarrow> bit (push_bit k (drop_bit k (unat w))) n"
      by (auto simp: bit_unsigned_iff bit_push_bit_iff bit_drop_bit_eq)
  qed
  ultimately show ?thesis by (simp add: push_bit_eq_mult drop_bit_eq_div)
qed

lemma align_up_nat:
  assumes "k < 60" "unat x < 2 ^ 63"
  shows "\<exists>y. align_up x (push_bit k 1) = Inr y \<and> unat y = (unat x + (2 ^ k - 1)) div 2 ^ k * 2 ^ k"
proof -
  have p: "is_pow2 (push_bit k 1)" unfolding is_pow2_iff using assms(1) by (intro disjI2 exI [of _ k]) simp
  have m: "push_bit k 1 - 1 = (mask k :: u64)" by (simp add: mask_eq_exp_minus_1 push_bit_eq_mult)
  have "(2::nat) ^ k \<le> 2 ^ 60" using assms(1) by (intro power_increasing) auto
  moreover from this have "unat (word_of_nat (mask k) :: u64) = mask k"
    by (intro unat_word_of_nat) (simp add: mask_eq_exp_minus_1 less_imp_diff_less)
  ultimately have "unat (x + mask k) = unat x + (2 ^ k - 1)"
    using assms by (subst unat_add) (simp_all add: of_nat_mask_eq mask_eq_exp_minus_1)
  then show ?thesis using p m by (simp add: align_up_def and_not_mask)
qed

lemma align_ptr_eq: "align_ptr = align_up"
  by (intro ext) (simp add: align_ptr_def align_up_def)

lemma round_up_bounds:
  fixes n k :: nat
  defines "r \<equiv> (n + (2 ^ k - 1)) div 2 ^ k * 2 ^ k"
  shows "n \<le> r" "r < n + 2 ^ k" "r mod 2 ^ k = 0" "n mod 2 ^ k = 0 \<Longrightarrow> r = n"
proof -
  have "(n + (2 ^ k - 1)) mod 2 ^ k < 2 ^ k" by simp
  moreover have "n + (2 ^ k - 1) = r + (n + (2 ^ k - 1)) mod 2 ^ k" unfolding r_def by (rule div_mult_mod_eq [symmetric])
  moreover have pos: "(0::nat) < 2 ^ k" by simp
  ultimately show "n \<le> r" "r < n + 2 ^ k" by linarith+
  show "r mod 2 ^ k = 0" by (simp add: r_def)
  assume "n mod 2 ^ k = 0"
  then obtain q where "n = q * 2 ^ k" by (metis mod_0_imp_dvd dvd_mult_div_cancel mult.commute)
  moreover have "(q * P + (P - 1)) div P = q" if "0 < P" for P :: nat
    by (rule div_nat_eqI) (use that in \<open>simp_all add: mult.commute\<close>)
  ultimately show "r = n" using pos unfolding r_def by metis
qed

end
