(* ===== verification/Tlsf_Block.thy ===== *)
theory Tlsf_Block
  imports Tlsf_Bits Memory_Area
begin

text \<open>
  Blocks of the TLSF allocator (\<open>memory/allocator/tlsf/impl/block.h\<close>, \<open>block.cpp\<close>): a block is the address of a header in
  memory, with the size and two flags in one word. The second half relates the memory of a pool to a list of
  blocks and shows what the operations on headers do to that list.
\<close>

unbundle bit_operations_syntax

section \<open>Block headers\<close>

text \<open>
  \<open>BlockHeader\<close> has four fields of eight bytes: \<open>prev_physical\<close>, \<open>size\<close>, \<open>next_free\<close>, \<open>prev_free\<close>. The
  null pointer is the address 0.
\<close>

type_synonym block_ptr = nat

definition sizeof_block_header :: u64 where "sizeof_block_header = 32"
definition k_block_header_free_bit :: u64 where "k_block_header_free_bit = push_bit 0 1"
definition k_block_header_prev_free_bit :: u64 where "k_block_header_prev_free_bit = push_bit 1 1"
definition k_block_header_overhead :: u64 where "k_block_header_overhead = 8"
definition k_block_start_offset :: nat where "k_block_start_offset = 8 + 8"
definition k_block_size_min :: u64 where "k_block_size_min = sizeof_block_header - 8"
definition k_block_size_max :: u64 where "k_block_size_max = push_bit 32 1"

definition prev_physical :: "block_ptr \<Rightarrow> memory \<Rightarrow> block_ptr" where
  "prev_physical b m = unat (load64 b m)"

definition size_field :: "block_ptr \<Rightarrow> memory \<Rightarrow> u64" where
  "size_field b m = load64 (b + 8) m"

definition next_free :: "block_ptr \<Rightarrow> memory \<Rightarrow> block_ptr" where
  "next_free b m = unat (load64 (b + 16) m)"

definition prev_free :: "block_ptr \<Rightarrow> memory \<Rightarrow> block_ptr" where
  "prev_free b m = unat (load64 (b + 24) m)"

definition put_prev_physical :: "block_ptr \<Rightarrow> block_ptr \<Rightarrow> memory \<Rightarrow> memory" where
  "put_prev_physical b p = store64 b (word_of_nat p)"

definition put_size_field :: "block_ptr \<Rightarrow> u64 \<Rightarrow> memory \<Rightarrow> memory" where
  "put_size_field b v = store64 (b + 8) v"

definition put_next_free :: "block_ptr \<Rightarrow> block_ptr \<Rightarrow> memory \<Rightarrow> memory" where
  "put_next_free b p = store64 (b + 16) (word_of_nat p)"

definition put_prev_free :: "block_ptr \<Rightarrow> block_ptr \<Rightarrow> memory \<Rightarrow> memory" where
  "put_prev_free b p = store64 (b + 24) (word_of_nat p)"

definition block_size :: "block_ptr \<Rightarrow> memory \<Rightarrow> u64" where
  "block_size b m = size_field b m AND NOT (k_block_header_free_bit OR k_block_header_prev_free_bit)"

definition set_size :: "block_ptr \<Rightarrow> u64 \<Rightarrow> memory \<Rightarrow> memory" where
  "set_size b sz m =
     put_size_field b (sz OR (size_field b m AND (k_block_header_free_bit OR k_block_header_prev_free_bit))) m"

definition is_last :: "block_ptr \<Rightarrow> memory \<Rightarrow> bool" where
  "is_last b m \<longleftrightarrow> block_size b m = 0"

definition is_free :: "block_ptr \<Rightarrow> memory \<Rightarrow> bool" where
  "is_free b m \<longleftrightarrow> size_field b m AND k_block_header_free_bit \<noteq> 0"

definition set_free :: "block_ptr \<Rightarrow> memory \<Rightarrow> memory" where
  "set_free b m = put_size_field b (size_field b m OR k_block_header_free_bit) m"

definition set_used :: "block_ptr \<Rightarrow> memory \<Rightarrow> memory" where
  "set_used b m = put_size_field b (size_field b m AND NOT k_block_header_free_bit) m"

definition is_prev_free :: "block_ptr \<Rightarrow> memory \<Rightarrow> bool" where
  "is_prev_free b m \<longleftrightarrow> size_field b m AND k_block_header_prev_free_bit \<noteq> 0"

definition set_prev_free :: "block_ptr \<Rightarrow> memory \<Rightarrow> memory" where
  "set_prev_free b m = put_size_field b (size_field b m OR k_block_header_prev_free_bit) m"

definition set_prev_used :: "block_ptr \<Rightarrow> memory \<Rightarrow> memory" where
  "set_prev_used b m = put_size_field b (size_field b m AND NOT k_block_header_prev_free_bit) m"

definition from_void_ptr :: "nat \<Rightarrow> block_ptr" where
  "from_void_ptr p = p - k_block_start_offset"

definition to_void_ptr :: "block_ptr \<Rightarrow> nat" where
  "to_void_ptr b = b + k_block_start_offset"

text \<open>An offset is a \<open>ptrdiff_t\<close>; sizes are converted to it with their sign.\<close>

definition offset_to_block :: "nat \<Rightarrow> int \<Rightarrow> block_ptr" where
  "offset_to_block p off = nat (int p + off)"

definition get_prev :: "block_ptr \<Rightarrow> memory \<Rightarrow> fault + block_ptr" where
  "get_prev b m = res_bind (k_assert (is_prev_free b m)) (\<lambda>_. Inr (prev_physical b m))"

definition get_next :: "block_ptr \<Rightarrow> memory \<Rightarrow> fault + block_ptr" where
  "get_next b m = res_bind (k_assert (\<not> is_last b m)) (\<lambda>_.
     Inr (offset_to_block (to_void_ptr b) (sint (block_size b m - k_block_header_overhead))))"

definition link_next :: "block_ptr \<Rightarrow> memory \<Rightarrow> fault + block_ptr \<times> memory" where
  "link_next b m = res_bind (get_next b m) (\<lambda>next. Inr (next, put_prev_physical next b m))"

definition can_split :: "block_ptr \<Rightarrow> u64 \<Rightarrow> memory \<Rightarrow> bool" where
  "can_split b size_request m \<longleftrightarrow> sizeof_block_header + size_request \<le> block_size b m"

definition mark_as_free :: "block_ptr \<Rightarrow> memory \<Rightarrow> fault + memory" where
  "mark_as_free b m = res_bind (link_next b m) (\<lambda>(next, m1). Inr (set_free b (set_prev_free next m1)))"

definition mark_as_used :: "block_ptr \<Rightarrow> memory \<Rightarrow> fault + memory" where
  "mark_as_used b m = res_bind (get_next b m) (\<lambda>next. Inr (set_used b (set_prev_used next m)))"

definition aligned_block :: "block_ptr \<Rightarrow> fault + unit" where
  "aligned_block b = res_bind (align_ptr (word_of_nat (to_void_ptr b)) k_align_size) (\<lambda>p.
     k_assert (word_of_nat (to_void_ptr b) = p))"

definition split_block :: "block_ptr \<Rightarrow> u64 \<Rightarrow> memory \<Rightarrow> fault + block_ptr \<times> memory" where
  "split_block b size_request m =
     (let remaining = offset_to_block (to_void_ptr b) (sint (size_request - k_block_header_overhead));
          size_remaining = block_size b m - (size_request + k_block_header_overhead)
      in res_bind (aligned_block remaining) (\<lambda>_.
         res_bind (k_assert (block_size b m = size_remaining + size_request + k_block_header_overhead)) (\<lambda>_.
         let m1 = set_size remaining size_remaining m
         in res_bind (k_assert (k_block_size_min \<le> block_size remaining m1)) (\<lambda>_.
            let m2 = set_size b size_request m1
            in res_bind (mark_as_free remaining m2) (\<lambda>m3. Inr (remaining, m3))))))"

text \<open>\<open>absorb\<close> of \<open>control.cpp\<close> works on headers only.\<close>

definition absorb :: "block_ptr \<Rightarrow> block_ptr \<Rightarrow> memory \<Rightarrow> fault + block_ptr \<times> memory" where
  "absorb prev block m = res_bind (k_assert (\<not> is_last prev m)) (\<lambda>_.
     let m1 = put_size_field prev (size_field prev m + (block_size block m + k_block_header_overhead)) m
     in res_bind (link_next prev m1) (\<lambda>(_, m2). Inr (prev, m2)))"

lemmas block_consts = sizeof_block_header_def k_block_header_free_bit_def k_block_header_prev_free_bit_def
  k_block_header_overhead_def k_block_start_offset_def k_block_size_min_def k_block_size_max_def k_align_size_def

section \<open>The size word\<close>

text \<open>The size word of a block of \<open>s\<close> bytes with its two flags.\<close>

definition hdr :: "nat \<Rightarrow> bool \<Rightarrow> bool \<Rightarrow> u64" where
  "hdr s f pf = word_of_nat s OR ((if f then 1 else 0) OR (if pf then 2 else 0))"

definition good_size :: "nat \<Rightarrow> bool" where
  "good_size s \<longleftrightarrow> s mod 8 = 0 \<and> s < 2 ^ 31"

lemma good_size_bit:
  assumes "good_size s"
  shows "\<not> bit (word_of_nat s :: u64) 0" "\<not> bit (word_of_nat s :: u64) 1" "unat (word_of_nat s :: u64) = s"
proof -
  show u: "unat (word_of_nat s :: u64) = s" using assms by (intro unat_word_of_nat) (simp add: good_size_def)
  have "s mod 8 = 0" using assms by (simp add: good_size_def)
  then have "even s" "even (s div 2)" by presburger+
  then show "\<not> bit (word_of_nat s :: u64) 0" "\<not> bit (word_of_nat s :: u64) 1"
    by (simp_all add: bit_unat_odd u)
qed

lemma bit_hdr:
  "bit (hdr s f pf) n \<longleftrightarrow> n < 64 \<and> (bit (word_of_nat s :: u64) n \<or> n = 0 \<and> f \<or> n = 1 \<and> pf)"
proof -
  have "bit (2 :: u64) n \<longleftrightarrow> n = 1" "bit (1 :: u64) n \<longleftrightarrow> n = 0" by (auto simp: bit_2_iff bit_1_iff)
  then show ?thesis unfolding hdr_def bit_or_iff by (auto dest: bit_imp_le_length)
qed

text \<open>The operations on the size word, in terms of size and flags.\<close>

lemma size_word:
  assumes "good_size s"
  shows "hdr s f pf AND NOT 3 = word_of_nat s" "hdr s f pf AND 1 \<noteq> 0 \<longleftrightarrow> f" "hdr s f pf AND 2 \<noteq> 0 \<longleftrightarrow> pf"
    "hdr s f pf OR 1 = hdr s True pf" "hdr s f pf AND NOT 1 = hdr s False pf"
    "hdr s f pf OR 2 = hdr s f True" "hdr s f pf AND NOT 2 = hdr s f False"
    "word_of_nat s OR (w AND 3) = hdr s (bit w 0) (bit w 1)"
proof -
  have s: "1 < n" if "bit (word_of_nat s :: u64) n" for n
    using good_size_bit(1,2) [OF assms] that by (cases n; cases "n - 1") auto
  have b: "bit (3 :: u64) n \<longleftrightarrow> n = 0 \<or> n = 1" "bit (2 :: u64) n \<longleftrightarrow> n = 1" "bit (1 :: u64) n \<longleftrightarrow> n = 0" for n
  proof -
    have "bit (1 OR 2 :: u64) n \<longleftrightarrow> n = 0 \<or> n = 1" unfolding bit_or_iff by (auto simp: bit_2_iff bit_1_iff)
    then show "bit (3 :: u64) n \<longleftrightarrow> n = 0 \<or> n = 1" by simp
  qed (auto simp: bit_2_iff bit_1_iff)
  show "hdr s f pf AND NOT 3 = word_of_nat s" "hdr s f pf OR 1 = hdr s True pf" "hdr s f pf AND NOT 1 = hdr s False pf"
    "hdr s f pf OR 2 = hdr s f True" "hdr s f pf AND NOT 2 = hdr s f False"
    "word_of_nat s OR (w AND 3) = hdr s (bit w 0) (bit w 1)"
    by (rule bit_word_eqI; unfold bit_hdr b bit_and_iff bit_or_iff bit_not_iff; auto dest: s)+
  show "hdr s f pf AND 1 \<noteq> 0 \<longleftrightarrow> f" "hdr s f pf AND 2 \<noteq> 0 \<longleftrightarrow> pf"
    unfolding bit_eq_iff [of "_ AND _"] bit_and_iff bit_hdr b by (auto dest: s)
qed

lemma hdr_flags: "good_size s \<Longrightarrow> bit (hdr s f pf) 0 = f" "good_size s \<Longrightarrow> bit (hdr s f pf) 1 = pf"
  unfolding bit_hdr using good_size_bit [of s] by auto

lemma sint_word_of_nat: "n < 2 ^ 63 \<Longrightarrow> sint (word_of_nat n :: u64) = int n"
  by (simp add: signed_of_nat signed_take_bit_int_eq_self)

lemma word_diff_of_nat: "k \<le> n \<Longrightarrow> (word_of_nat n :: 'a::len word) - word_of_nat k = word_of_nat (n - k)"
  by (simp add: of_nat_diff)

lemma block_hdr:
  assumes "load64 (b + 8) m = hdr s f pf" "good_size s"
  shows "block_size b m = word_of_nat s" "is_free b m = f" "is_prev_free b m = pf" "is_last b m \<longleftrightarrow> s = 0"
    "set_free b m = store64 (b + 8) (hdr s True pf) m" "set_used b m = store64 (b + 8) (hdr s False pf) m"
    "set_prev_free b m = store64 (b + 8) (hdr s f True) m" "set_prev_used b m = store64 (b + 8) (hdr s f False) m"
    "good_size t \<Longrightarrow> set_size b (word_of_nat t) m = store64 (b + 8) (hdr t f pf) m"
    "t < 2 ^ 32 \<Longrightarrow> can_split b (word_of_nat t) m \<longleftrightarrow> 32 + t \<le> s"
proof -
  note d = size_field_def put_size_field_def assms(1) block_consts
  show bs: "block_size b m = word_of_nat s" using size_word(1) [OF assms(2)] by (simp add: block_size_def d)
  show "is_free b m = f" using size_word(2) [OF assms(2)] by (simp add: is_free_def d)
  show "is_prev_free b m = pf" using size_word(3) [OF assms(2)] by (simp add: is_prev_free_def d)
  show "set_free b m = store64 (b + 8) (hdr s True pf) m" using size_word(4) [OF assms(2)] by (simp add: set_free_def d)
  show "set_used b m = store64 (b + 8) (hdr s False pf) m"
    using size_word(5) [OF assms(2)] by (simp add: set_used_def d)
  show "set_prev_free b m = store64 (b + 8) (hdr s f True) m"
    using size_word(6) [OF assms(2)] by (simp add: set_prev_free_def d)
  show "set_prev_used b m = store64 (b + 8) (hdr s f False) m"
    using size_word(7) [OF assms(2)] by (simp add: set_prev_used_def d)
  show "set_size b (word_of_nat t) m = store64 (b + 8) (hdr t f pf) m" if "good_size t"
    using size_word(8) [OF that, of "hdr s f pf"] hdr_flags [OF assms(2)] by (simp add: set_size_def d)
  note u = good_size_bit(3) [OF assms(2)]
  show "is_last b m \<longleftrightarrow> s = 0" 
  proof
    assume "is_last b m"
    then have "(word_of_nat s :: u64) = 0" by (simp only: is_last_def bs)
    then show "s = 0" using arg_cong [of _ _ unat] u by fastforce
  qed (simp add: is_last_def bs)
  have "unat (32 + word_of_nat t :: u64) = 32 + t" if "t < 2 ^ 32"
    using that by (subst unat_add) (simp_all add: unat_word_of_nat)
  then show "can_split b (word_of_nat t) m \<longleftrightarrow> 32 + t \<le> s" if "t < 2 ^ 32"
    using that by (simp add: can_split_def bs d word_le_nat_alt u)
qed

lemma set_size_hdr:
  "good_size t \<Longrightarrow>
     set_size b (word_of_nat t) m = store64 (b + 8) (hdr t (bit (load64 (b + 8) m) 0) (bit (load64 (b + 8) m) 1)) m"
  using size_word(8) [of t "load64 (b + 8) m"]
  by (simp add: set_size_def size_field_def put_size_field_def block_consts)

lemma block_next:
  assumes "load64 (b + 8) m = hdr s f pf" "good_size s" "8 \<le> s"
  shows "get_next b m = Inr (b + 8 + s)" "link_next b m = Inr (b + 8 + s, store64 (b + 8 + s) (word_of_nat b) m)"
proof -
  have "s < 2 ^ 63" using assms(2) by (simp add: good_size_def)
  then have "sint (word_of_nat s - word_of_nat 8 :: u64) = int (s - 8)"
    unfolding word_diff_of_nat [OF assms(3)] by (intro sint_word_of_nat) simp
  then show n: "get_next b m = Inr (b + 8 + s)" using assms
    by (simp add: get_next_def block_hdr [OF assms(1,2)] offset_to_block_def to_void_ptr_def block_consts of_nat_diff)
  show "link_next b m = Inr (b + 8 + s, store64 (b + 8 + s) (word_of_nat b) m)"
    by (simp add: link_next_def n put_prev_physical_def)
qed

section \<open>Memory\<close>

lemma load64_other [simp]: "a + 8 \<le> a' \<or> a' + 8 \<le> a \<Longrightarrow> load64 a' (store64 a v m) = load64 a' m"
  by (rule load64_frame) (auto intro!: store64_frame)

lemma mem_read_other [simp]: "a + 8 \<le> a' \<or> a' + n \<le> a \<Longrightarrow> mem_read a' n (store64 a v m) = mem_read a' n m"
  unfolding mem_read_def by (intro map_cong refl store64_frame) auto

lemma mem_read_eq: "(\<And>x. a \<le> x \<Longrightarrow> x < a + n \<Longrightarrow> m' x = m x) \<Longrightarrow> mem_read a n m' = mem_read a n m"
  unfolding mem_read_def by (intro map_cong) auto

section \<open>The pool as a list of blocks\<close>

text \<open>
  A block is its size and the bytes of its user (\<open>None\<close> if it is free). \<open>seg m b pf p bs\<close> says that the
  blocks \<open>bs\<close> lie one after the other from \<open>b\<close> on; \<open>pf\<close> and \<open>p\<close> tell whether the block before \<open>b\<close> is free and
  where it is. The field \<open>prev_physical\<close> of a block is its own only if the block before is free: otherwise it
  holds the last bytes of that block's user.
\<close>

type_synonym pool_block = "nat \<times> u8 list option"

fun seg :: "memory \<Rightarrow> nat \<Rightarrow> bool \<Rightarrow> nat \<Rightarrow> pool_block list \<Rightarrow> bool" where
  "seg m b pf p [] = True"
| "seg m b pf p ((s, k) # bs) =
     (load64 (b + 8) m = hdr s (k = None) pf \<and> (pf \<longrightarrow> load64 b m = word_of_nat p) \<and>
      (\<forall>d. k = Some d \<longrightarrow> d = mem_read (b + 16) s m) \<and> seg m (b + 8 + s) (k = None) b bs)"

fun end_of :: "nat \<Rightarrow> pool_block list \<Rightarrow> nat" where
  "end_of b [] = b"
| "end_of b ((s, k) # bs) = end_of (b + 8 + s) bs"

fun last_of :: "bool \<Rightarrow> nat \<Rightarrow> nat \<Rightarrow> pool_block list \<Rightarrow> bool \<times> nat" where
  "last_of pf p b [] = (pf, p)"
| "last_of pf p b ((s, k) # bs) = last_of (k = None) b (b + 8 + s) bs"

lemma end_of_append [simp]: "end_of b (xs @ ys) = end_of (end_of b xs) ys"
  by (induction xs arbitrary: b) auto

lemma end_of_le: "b \<le> end_of b xs"
proof (induction xs arbitrary: b)
  case (Cons x xs)
  obtain s k where "x = (s, k)" by fastforce
  with Cons [of "b + 8 + s"] show ?case by simp
qed simp

lemma seg_append: "seg m b pf p (xs @ ys) \<longleftrightarrow>
  seg m b pf p xs \<and> seg m (end_of b xs) (fst (last_of pf p b xs)) (snd (last_of pf p b xs)) ys"
  by (induction xs arbitrary: b pf p) auto

text \<open>What a segment occupies.\<close>

lemma seg_frame:
  "(\<And>x. (if pf then b else b + 8) \<le> x \<Longrightarrow> x < end_of b xs + 8 \<Longrightarrow> m' x = m x) \<Longrightarrow> seg m' b pf p xs = seg m b pf p xs"
proof (induction xs arbitrary: b pf p)
  case (Cons x xs)
  obtain s k where x: "x = (s, k)" by fastforce
  have e: "b + 8 + s \<le> end_of (b + 8 + s) xs" by (rule end_of_le)
  have 1: "load64 (b + 8) m' = load64 (b + 8) m" using e by (intro load64_frame Cons.prems) (auto simp: x)
  have 2: "mem_read (b + 16) s m' = mem_read (b + 16) s m" using e by (intro mem_read_eq Cons.prems) (auto simp: x)
  have 3: "load64 b m' = load64 b m" if pf using that e by (intro load64_frame Cons.prems) (auto simp: x)
  have 4: "seg m' (b + 8 + s) (k = None) b xs = seg m (b + 8 + s) (k = None) b xs"
    by (rule Cons.IH) (use Cons.prems in \<open>auto simp: x split: if_splits\<close>)
  show ?case using 3 by (auto simp: x 1 2 4)
qed simp

section \<open>Operations on neighbouring blocks\<close>

lemma aligned_block_ok: "b mod 8 = 0 \<Longrightarrow> b + 16 < 2 ^ 63 \<Longrightarrow> aligned_block b = Inr ()"
proof -
  assume b: "b mod 8 = 0" "b + 16 < 2 ^ 63"
  have u: "unat (word_of_nat (b + 16) :: u64) = b + 16" using b by (intro unat_word_of_nat) simp
  obtain y where y: "align_up (word_of_nat (b + 16)) (push_bit 3 1) = Inr y"
    "unat y = (b + 16 + (2 ^ 3 - 1)) div 2 ^ 3 * 2 ^ 3" using align_up_nat [of 3 "word_of_nat (b + 16)"] u b(2) by auto
  have "(b + 16) mod 8 = 0" using b(1) by presburger
  then have "unat y = b + 16" unfolding y(2) by (intro round_up_bounds(4)) simp
  then have "y = word_of_nat (b + 16)" using u by (metis unat_inject)
  then show ?thesis using y(1) by (simp add: aligned_block_def align_ptr_eq to_void_ptr_def block_consts)
qed

lemma hdr_nat: "good_size s \<Longrightarrow> hdr s f pf = word_of_nat (s + ((if f then 1 else 0) + (if pf then 2 else 0)))"
proof -
  assume s: "good_size s"
  have low: "1 < n" if "bit (word_of_nat s :: u64) n" for n
    using good_size_bit(1,2) [OF s] that by (cases n; cases "n - 1") auto
  let ?w = "(if f then 1 else 0) OR (if pf then 2 else 0) :: u64"
  have "\<not> bit ?w n" if "1 < n" for n
    unfolding bit_or_iff using that by (auto simp: bit_1_iff bit_2_iff split: if_splits)
  then have "\<not> bit (word_of_nat s :: u64) n \<or> \<not> bit ?w n" for n using low by blast
  then have "hdr s f pf = word_of_nat s + ?w" unfolding hdr_def by (intro disjunctive_add [symmetric])
  then show ?thesis by (cases f; cases pf) simp_all
qed

lemma absorb_hdr:
  assumes "load64 (b + 8) m = hdr s f pf" "load64 (b + 16 + s) m = hdr s2 f2 pf2"
    "good_size s" "good_size s2" "8 \<le> s" "good_size (s + 8 + s2)"
  shows "absorb b (b + 8 + s) m =
    Inr (b, store64 (b + 16 + s + s2) (word_of_nat b) (store64 (b + 8) (hdr (s + 8 + s2) f pf) m))"
proof -
  have h2: "load64 (b + 8 + s + 8) m = hdr s2 f2 pf2" using assms(2) by (simp add: add.commute add.left_commute)
  have n: "size_field b m + (block_size (b + 8 + s) m + k_block_header_overhead) = hdr (s + 8 + s2) f pf"
    unfolding block_hdr(1) [OF h2 assms(4)] using assms(1)
    by (simp add: size_field_def hdr_nat assms(3,6) block_consts)
  have "link_next b (store64 (b + 8) (hdr (s + 8 + s2) f pf) m) =
    Inr (b + 8 + (s + 8 + s2), store64 (b + 8 + (s + 8 + s2)) (word_of_nat b) (store64 (b + 8) (hdr (s + 8 + s2) f pf) m))"
    by (rule block_next(2)) (use assms in auto)
  moreover have "b + 8 + (s + 8 + s2) = b + 16 + s + s2" by simp
  ultimately show ?thesis
    using assms(5) by (simp add: absorb_def block_hdr(4) [OF assms(1,3)] n put_size_field_def Let_def)
qed

text \<open>The rest of the pool after a block whose status or extent changes.\<close>

lemma seg_tail:
  assumes "seg m b pf p ((s, k) # ys)" "ys = [] \<or> 8 \<le> s" "\<And>x. b + 16 \<le> x \<Longrightarrow> m' x = m x"
    "load64 (b + 8) m' = hdr s (k = None) pf'" "pf' \<Longrightarrow> load64 b m' = word_of_nat p'"
  shows "seg m' b pf' p' ((s, k) # ys)"
proof -
  have "mem_read (b + 16) s m' = mem_read (b + 16) s m" by (rule mem_read_eq) (use assms(3) in simp)
  moreover have "seg m' (b + 8 + s) (k = None) b ys = seg m (b + 8 + s) (k = None) b ys"
  proof (cases ys)
    case (Cons y zs)
    then have "8 \<le> s" using assms(2) by simp
    then show ?thesis using assms(3) by (intro seg_frame) (auto split: if_splits)
  qed simp
  ultimately show ?thesis using assms(1,4,5) by auto
qed

lemma seg_head: "(\<And>x. x < end_of b xs + 8 \<Longrightarrow> m' x = m x) \<Longrightarrow> seg m b pf p xs \<Longrightarrow> seg m' b pf p xs"
  by (subst seg_frame [where m = m]) auto

text \<open>
  \<open>same_but m m' A\<close>: the memories agree outside \<open>A\<close>.
\<close>

definition same_but :: "memory \<Rightarrow> memory \<Rightarrow> nat set \<Rightarrow> bool" where
  "same_but m m' A \<longleftrightarrow> (\<forall>x. x \<notin> A \<longrightarrow> m' x = m x)"

lemma same_butD: "same_but m m' A \<Longrightarrow> x \<notin> A \<Longrightarrow> m' x = m x"
  by (simp add: same_but_def)

lemma same_but_refl [simp]: "same_but m m A"
  by (simp add: same_but_def)

lemma same_but_store: "{a..<a + 8} \<subseteq> A \<Longrightarrow> same_but m m' A \<Longrightarrow> same_but m (store64 a v m') A"
  unfolding same_but_def by (metis atLeastLessThan_iff not_le store64_frame subsetD)

lemma same_but_trans: "same_but m m' A \<Longrightarrow> same_but m' m'' B \<Longrightarrow> A \<union> B \<subseteq> C \<Longrightarrow> same_but m m'' C"
  unfolding same_but_def by (metis Un_iff subsetD)

lemma same_but_load: "same_but m m' A \<Longrightarrow> {a..<a + 8} \<inter> A = {} \<Longrightarrow> load64 a m' = load64 a m"
  by (rule load64_frame) (auto simp: same_but_def disjoint_iff)

lemma same_but_read: "same_but m m' A \<Longrightarrow> {a..<a + n} \<inter> A = {} \<Longrightarrow> mem_read a n m' = mem_read a n m"
  by (rule mem_read_eq) (auto simp: same_but_def disjoint_iff)

lemma mark_as_free_hdr:
  assumes "load64 (b + 8) m = hdr s f pf" "load64 (b + 16 + s) m = hdr s2 f2 pf2" "good_size s" "good_size s2" "8 \<le> s"
  shows "mark_as_free b m = Inr (store64 (b + 8) (hdr s True pf)
    (store64 (b + 16 + s) (hdr s2 f2 True) (store64 (b + 8 + s) (word_of_nat b) m)))"
proof -
  let ?m1 = "store64 (b + 8 + s) (word_of_nat b) m"
  have e: "b + 8 + s + 8 = b + 16 + s" by simp
  have "load64 (b + 8 + s + 8) ?m1 = hdr s2 f2 pf2" using assms(2) by (simp add: e)
  from block_hdr(7) [OF this assms(4)]
  have 1: "set_prev_free (b + 8 + s) ?m1 = store64 (b + 16 + s) (hdr s2 f2 True) ?m1" by (simp only: e)
  have "load64 (b + 8) (store64 (b + 16 + s) (hdr s2 f2 True) ?m1) = hdr s f pf" using assms(1,5) by simp
  from block_hdr(5) [OF this assms(3)] show ?thesis
    by (simp add: mark_as_free_def block_next [OF assms(1,3,5)] 1)
qed

lemma mark_as_used_hdr:
  assumes "load64 (b + 8) m = hdr s f pf" "load64 (b + 16 + s) m = hdr s2 f2 pf2" "good_size s" "good_size s2" "8 \<le> s"
  shows "mark_as_used b m = Inr (store64 (b + 8) (hdr s False pf) (store64 (b + 16 + s) (hdr s2 f2 False) m))"
proof -
  have e: "b + 8 + s + 8 = b + 16 + s" by simp
  have "load64 (b + 8 + s + 8) m = hdr s2 f2 pf2" using assms(2) by (simp add: e)
  from block_hdr(8) [OF this assms(4)]
  have 1: "set_prev_used (b + 8 + s) m = store64 (b + 16 + s) (hdr s2 f2 False) m" by (simp only: e)
  have "load64 (b + 8) (store64 (b + 16 + s) (hdr s2 f2 False) m) = hdr s f pf" using assms(1,5) by simp
  from block_hdr(6) [OF this assms(3)] show ?thesis
    by (simp add: mark_as_used_def block_next [OF assms(1,3,5)] 1)
qed

text \<open>The flag that tells whether the block before the new one is free is arbitrary after a split.\<close>

lemma split_block_hdr:
  assumes "load64 (b + 8) m = hdr s f pf" "load64 (b + 16 + s) m = hdr s2 f2 pf2"
    and g: "good_size s" "good_size s2" "good_size z" and le: "8 \<le> z" "z + 32 \<le> s"
    and b: "b mod 8 = 0" "b + 16 + s < 2 ^ 63"
  shows "\<exists>g1 g2. split_block b (word_of_nat z) m = Inr (b + 8 + z,
     store64 (b + 16 + z) (hdr (s - (z + 8)) True g2) (store64 (b + 16 + s) (hdr s2 f2 True)
       (store64 (b + 8 + s) (word_of_nat (b + 8 + z)) (store64 (b + 8) (hdr z f pf)
         (store64 (b + 16 + z) (hdr (s - (z + 8)) g1 g2) m)))))"
proof -
  define t where "t = s - (z + 8)"
  let ?r = "b + 8 + z"
  have s: "t + z + 8 = s" using le(2) by (simp add: t_def)
  have t: "good_size t" "24 \<le> t" using g le s unfolding good_size_def by (presburger, simp)
  have r: "offset_to_block (to_void_ptr b) (sint (word_of_nat z - k_block_header_overhead)) = ?r"
  proof -
    have "sint (word_of_nat z - word_of_nat 8 :: u64) = int (z - 8)" unfolding word_diff_of_nat [OF le(1)]
      using g(3) by (intro sint_word_of_nat) (auto simp: good_size_def)
    then show ?thesis using le(1) by (simp add: offset_to_block_def to_void_ptr_def block_consts of_nat_diff)
  qed
  have rem: "(word_of_nat s :: u64) - (word_of_nat z + k_block_header_overhead) = word_of_nat t"
    by (simp add: block_consts flip: s)
  have "?r mod 8 = 0" using b(1) g(3) unfolding good_size_def by presburger
  then have al: "aligned_block ?r = Inr ()" by (rule aligned_block_ok) (use b le(2) in simp)
  have sum: "(word_of_nat s :: u64) = word_of_nat t + word_of_nat z + k_block_header_overhead"
    by (simp add: block_consts flip: s)
  obtain g1 g2 where m1: "set_size ?r (word_of_nat t) m = store64 (?r + 8) (hdr t g1 g2) m"
    using set_size_hdr [OF t(1)] by blast
  let ?m1 = "store64 (?r + 8) (hdr t g1 g2) m"
  have "block_size ?r ?m1 = word_of_nat t" by (rule block_hdr(1) [OF _ t(1)]) simp
  then have min: "k_block_size_min \<le> block_size ?r ?m1"
    using t by (simp add: block_consts word_le_nat_alt good_size_bit(3))
  have m2: "set_size b (word_of_nat z) ?m1 = store64 (b + 8) (hdr z f pf) ?m1"
    by (rule block_hdr(9) [OF _ g(1,3)]) (use assms(1) le in simp)
  let ?m2 = "store64 (b + 8) (hdr z f pf) ?m1"
  have e: "?r + 16 + t = b + 16 + s" "?r + 8 + t = b + 8 + s" "?r + 8 = b + 16 + z" using s by simp_all
  have "mark_as_free ?r ?m2 = Inr (store64 (?r + 8) (hdr t True g2)
    (store64 (?r + 16 + t) (hdr s2 f2 True) (store64 (?r + 8 + t) (word_of_nat ?r) ?m2)))"
  proof (rule mark_as_free_hdr [of _ _ _ g1 _ _ _ pf2])
    show "load64 (?r + 16 + t) ?m2 = hdr s2 f2 pf2" unfolding e using assms(2) le by simp
  qed (use t g(2) le in simp_all)
  then have "split_block b (word_of_nat z) m = Inr (?r, store64 (?r + 8) (hdr t True g2)
    (store64 (?r + 16 + t) (hdr s2 f2 True) (store64 (?r + 8 + t) (word_of_nat ?r) ?m2)))"
    unfolding split_block_def block_hdr(1) [OF assms(1) g(1)] r rem Let_def
    by (simp only: al m1 min m2 sum arr_ok res_bind.simps simp_thms)
  then show ?thesis unfolding e(1,2) unfolding e(3) t_def [symmetric] by blast
qed

section \<open>The list of blocks under the operations\<close>

lemma seg_midE:
  assumes "seg m b pf p (xs @ (s, k) # ys)"
  obtains pf1 p1 where "last_of pf p b xs = (pf1, p1)" "seg m b pf p xs"
    "load64 (end_of b xs + 8) m = hdr s (k = None) pf1" "pf1 \<longrightarrow> load64 (end_of b xs) m = word_of_nat p1"
    "\<forall>d. k = Some d \<longrightarrow> d = mem_read (end_of b xs + 16) s m" "seg m (end_of b xs + 8 + s) (k = None) (end_of b xs) ys"
  using assms that by (cases "last_of pf p b xs") (auto simp: seg_append)

lemma seg_midI:
  assumes "last_of pf p b xs = (pf1, p1)" "seg m b pf p xs" "pf1 \<longrightarrow> load64 (end_of b xs) m = word_of_nat p1"
    and "same_but m m' A" "A \<subseteq> {end_of b xs + 8..}" "load64 (end_of b xs + 8) m' = hdr s (k = None) pf1"
    "\<forall>d. k = Some d \<longrightarrow> d = mem_read (end_of b xs + 16) s m'" "seg m' (end_of b xs + 8 + s) (k = None) (end_of b xs) ys"
  shows "seg m' b pf p (xs @ (s, k) # ys)"
proof -
  have "x \<notin> A" if "x < end_of b xs + 8" for x using assms(5) that by auto
  then have eq: "m' x = m x" if "x < end_of b xs + 8" for x using assms(4) that by (simp add: same_but_def)
  have "seg m' b pf p xs" by (rule seg_head [OF eq assms(2)])
  moreover have "load64 (end_of b xs) m' = load64 (end_of b xs) m" by (rule load64_frame) (simp add: eq)
  ultimately show ?thesis using assms(1,3,6-8) by (simp add: seg_append)
qed

text \<open>Neighbouring blocks of a pool: sizes, and room for the two words of the header.\<close>

definition good_blocks :: "pool_block list \<Rightarrow> bool" where
  "good_blocks bs \<longleftrightarrow> (\<forall>(s, k) \<in> set bs. good_size s \<and> 24 \<le> s)"

abbreviation sentinel :: pool_block where
  "sentinel \<equiv> (0, Some [])"

lemma good_blocks_simps [simp]:
  "good_blocks []" "good_blocks ((s, k) # bs) \<longleftrightarrow> good_size s \<and> 24 \<le> s \<and> good_blocks bs"
  "good_blocks (xs @ ys) \<longleftrightarrow> good_blocks xs \<and> good_blocks ys"
  by (auto simp: good_blocks_def)

definition good_next :: "nat \<Rightarrow> pool_block list \<Rightarrow> bool" where
  "good_next s ys \<longleftrightarrow> good_size s \<and> (ys = [] \<or> 8 \<le> s)"

lemma seg_mark_free:
  assumes S: "seg m b pf p (xs @ (s, k) # (s2, k2) # ys)" and g: "good_size s" "8 \<le> s" "good_next s2 ys"
  defines "x \<equiv> end_of b xs"
  shows "\<exists>m'. mark_as_free x m = Inr m' \<and> seg m' b pf p (xs @ (s, None) # (s2, k2) # ys) \<and>
    same_but m m' ({x + 8..<x + 16} \<union> {x + 8 + s..<x + 24 + s})"
proof -
  from S obtain pf1 p1 where l: "last_of pf p b xs = (pf1, p1)" "seg m b pf p xs"
    "load64 (x + 8) m = hdr s (k = None) pf1" "pf1 \<longrightarrow> load64 x m = word_of_nat p1"
    and "\<forall>d. k = Some d \<longrightarrow> d = mem_read (x + 16) s m"
    and t: "seg m (x + 8 + s) (k = None) x ((s2, k2) # ys)" unfolding x_def by (rule seg_midE)
  have e: "x + 8 + s + 8 = x + 16 + s" by simp
  have h2: "load64 (x + 16 + s) m = hdr s2 (k2 = None) (k = None)" using t by (simp add: e)
  define m' where "m' = store64 (x + 8) (hdr s True pf1)
    (store64 (x + 16 + s) (hdr s2 (k2 = None) True) (store64 (x + 8 + s) (word_of_nat x) m))"
  have "mark_as_free x m = Inr m'" unfolding m'_def
    by (rule mark_as_free_hdr [OF l(3) h2]) (use g in \<open>simp_all add: good_next_def\<close>)
  moreover have sb: "same_but m m' ({x + 8..<x + 16} \<union> {x + 8 + s..<x + 24 + s})"
    unfolding m'_def by (intro same_but_store same_but_refl) auto
  moreover have "seg m' (x + 8 + s) True x ((s2, k2) # ys)"
  proof (rule seg_tail [OF t])
    show "m' a = m a" if "x + 8 + s + 16 \<le> a" for a using that by (intro same_butD [OF sb]) auto
    show "load64 (x + 8 + s + 8) m' = hdr s2 (k2 = None) True" unfolding e m'_def using g by simp
    show "load64 (x + 8 + s) m' = word_of_nat x" using g by (simp add: m'_def)
  qed (use g in \<open>simp add: good_next_def\<close>)
  ultimately show ?thesis using l by (intro exI [of _ m'] conjI) (auto simp: x_def m'_def intro!: seg_midI)
qed

lemma seg_mark_used:
  assumes S: "seg m b pf p (xs @ (s, None) # (s2, k2) # ys)" and g: "good_size s" "8 \<le> s" "good_next s2 ys"
  defines "x \<equiv> end_of b xs"
  shows "\<exists>m'. mark_as_used x m = Inr m' \<and> seg m' b pf p (xs @ (s, Some (mem_read (x + 16) s m)) # (s2, k2) # ys) \<and>
    same_but m m' ({x + 8..<x + 16} \<union> {x + 16 + s..<x + 24 + s})"
proof -
  from S obtain pf1 p1 where l: "last_of pf p b xs = (pf1, p1)" "seg m b pf p xs"
    "load64 (x + 8) m = hdr s True pf1" "pf1 \<longrightarrow> load64 x m = word_of_nat p1"
    and t: "seg m (x + 8 + s) True x ((s2, k2) # ys)" unfolding x_def by (elim seg_midE) auto
  have e: "x + 8 + s + 8 = x + 16 + s" by simp
  have h2: "load64 (x + 16 + s) m = hdr s2 (k2 = None) True" using t by (simp add: e)
  define m' where "m' = store64 (x + 8) (hdr s False pf1) (store64 (x + 16 + s) (hdr s2 (k2 = None) False) m)"
  have "mark_as_used x m = Inr m'" unfolding m'_def
    by (rule mark_as_used_hdr [OF l(3) h2]) (use g in \<open>simp_all add: good_next_def\<close>)
  moreover have sb: "same_but m m' ({x + 8..<x + 16} \<union> {x + 16 + s..<x + 24 + s})"
    unfolding m'_def by (intro same_but_store same_but_refl) auto
  moreover have "seg m' (x + 8 + s) False x ((s2, k2) # ys)"
  proof (rule seg_tail [OF t])
    show "m' a = m a" if "x + 8 + s + 16 \<le> a" for a using that by (intro same_butD [OF sb]) auto
    show "load64 (x + 8 + s + 8) m' = hdr s2 (k2 = None) False" unfolding e m'_def using g by simp
  qed (use g in \<open>simp_all add: good_next_def\<close>)
  moreover have "mem_read (x + 16) s m' = mem_read (x + 16) s m" by (rule same_but_read [OF sb]) auto
  ultimately show ?thesis using l by (intro exI [of _ m'] conjI) (auto simp: x_def m'_def intro!: seg_midI)
qed

lemma seg_absorb:
  assumes S: "seg m b pf p (xs @ (s, k) # (s2, None) # (s3, k3) # ys)"
    and g: "good_size s" "good_size s2" "8 \<le> s" "8 \<le> s2" "good_size (s + 8 + s2)" "good_next s3 ys"
  defines "x \<equiv> end_of b xs"
  shows "\<exists>m'. absorb x (x + 8 + s) m = Inr (x, m') \<and>
    same_but m m' ({x + 8..<x + 16} \<union> {x + 16 + s + s2..<x + 24 + s + s2}) \<and>
    (k = None \<longrightarrow> seg m' b pf p (xs @ (s + 8 + s2, None) # (s3, k3) # ys)) \<and>
    (\<forall>d. k = Some d \<longrightarrow> (\<exists>m2. mark_as_used x m' = Inr m2 \<and>
      same_but m m2 ({x + 8..<x + 16} \<union> {x + 16 + s + s2..<x + 32 + s + s2}) \<and>
      seg m2 b pf p (xs @ (s + 8 + s2, Some (mem_read (x + 16) (s + 8 + s2) m2)) # (s3, k3) # ys) \<and>
      take s (mem_read (x + 16) (s + 8 + s2) m2) = d))"
proof -
  from S obtain pf1 p1 where l: "last_of pf p b xs = (pf1, p1)" "seg m b pf p xs"
    "load64 (x + 8) m = hdr s (k = None) pf1" "pf1 \<longrightarrow> load64 x m = word_of_nat p1"
    and d: "\<forall>d. k = Some d \<longrightarrow> d = mem_read (x + 16) s m"
    and t: "seg m (x + 8 + s) (k = None) x ((s2, None) # (s3, k3) # ys)" unfolding x_def by (rule seg_midE)
  let ?n = "x + 8 + (s + 8 + s2)"
  have e: "x + 8 + s + 8 = x + 16 + s" "x + 8 + s + 8 + s2 = ?n" "x + 16 + s + s2 = ?n" "x + 24 + s + s2 = ?n + 8"
    "x + 32 + s + s2 = ?n + 16" "?n + 8 = x + 16 + (s + 8 + s2)" by simp_all
  have h2: "load64 (x + 16 + s) m = hdr s2 (None = None) (k = None)" using t by (simp add: e)
  have t3: "seg m ?n True (x + 8 + s) ((s3, k3) # ys)" using t unfolding seg.simps e by simp
  define m' where "m' = store64 ?n (word_of_nat x) (store64 (x + 8) (hdr (s + 8 + s2) (k = None) pf1) m)"
  have ab: "absorb x (x + 8 + s) m = Inr (x, m')" unfolding m'_def e(3) [symmetric]
    by (rule absorb_hdr [OF l(3) h2]) (use g in simp_all)
  have sb: "same_but m m' ({x + 8..<x + 16} \<union> {?n..<?n + 8})"
    unfolding m'_def by (intro same_but_store same_but_refl) auto
  have h: "load64 (x + 8) m' = hdr (s + 8 + s2) (k = None) pf1" by (simp add: m'_def)
  have h3: "load64 (?n + 8) m = hdr s3 (k3 = None) True" using t3 by simp
  have h3': "load64 (?n + 8) m' = hdr s3 (k3 = None) True" using h3 by (simp add: m'_def)
  have "seg m' b pf p (xs @ (s + 8 + s2, None) # (s3, k3) # ys)" if k: "k = None"
  proof (rule seg_midI [OF l(1,2) l(4) [unfolded x_def] sb])
    show "seg m' (end_of b xs + 8 + (s + 8 + s2)) (None = None) (end_of b xs) ((s3, k3) # ys)"
      unfolding x_def [symmetric]
    proof (rule seg_tail [OF t3])
      show "m' a = m a" if "?n + 16 \<le> a" for a using that by (intro same_butD [OF sb]) auto
      show "load64 ?n m' = word_of_nat x" by (simp add: m'_def)
    qed (use g h3' in \<open>simp_all add: good_next_def\<close>)
  qed (use k h x_def in auto)
  moreover have "\<exists>m2. mark_as_used x m' = Inr m2 \<and> same_but m m2 ({x + 8..<x + 16} \<union> {?n..<?n + 16}) \<and>
      seg m2 b pf p (xs @ (s + 8 + s2, Some (mem_read (x + 16) (s + 8 + s2) m2)) # (s3, k3) # ys) \<and>
      take s (mem_read (x + 16) (s + 8 + s2) m2) = d" if k: "k = Some d" for d
  proof -
    define m2 where "m2 = store64 (x + 8) (hdr (s + 8 + s2) False pf1)
      (store64 (x + 16 + (s + 8 + s2)) (hdr s3 (k3 = None) False) m')"
    have "mark_as_used x m' = Inr m2" unfolding m2_def
      by (rule mark_as_used_hdr [OF h h3' [unfolded e(6)]]) (use g in \<open>simp_all add: good_next_def\<close>)
    moreover have sb2: "same_but m m2 ({x + 8..<x + 16} \<union> {?n..<?n + 16})"
      unfolding m2_def m'_def by (intro same_but_store same_but_refl) auto
    moreover have "seg m2 b pf p (xs @ (s + 8 + s2, Some (mem_read (x + 16) (s + 8 + s2) m2)) # (s3, k3) # ys)"
    proof (rule seg_midI [OF l(1,2) l(4) [unfolded x_def] sb2])
      show "seg m2 (end_of b xs + 8 + (s + 8 + s2)) (Some (mem_read (x + 16) (s + 8 + s2) m2) = None) (end_of b xs) ((s3, k3) # ys)"
        unfolding x_def [symmetric]
      proof (rule seg_tail [OF t3])
        show "m2 a = m a" if "?n + 16 \<le> a" for a using that by (intro same_butD [OF sb2]) auto
        show "load64 (?n + 8) m2 = hdr s3 (k3 = None) (Some (mem_read (x + 16) (s + 8 + s2) m2) = None)"
          unfolding m2_def e(6) by simp
      qed (use g in \<open>simp_all add: good_next_def\<close>)
    qed (auto simp: m2_def x_def)
    moreover have "take s (mem_read (x + 16) (s + 8 + s2) m2) = mem_read (x + 16) s m2" by (simp add: mem_read_def take_map)
    moreover have "mem_read (x + 16) s m2 = mem_read (x + 16) s m" by (rule same_but_read [OF sb2]) auto
    ultimately show ?thesis using d k by auto
  qed
  ultimately show ?thesis using ab sb unfolding e by blast
qed

lemma seg_split:
  assumes S: "seg m b pf p (xs @ (s, k) # (s2, k2) # ys)"
    and g: "good_size s" "good_size z" "good_next s2 ys" "8 \<le> z" "z + 32 \<le> s"
    and b: "end_of b xs mod 8 = 0" "end_of b xs + 16 + s < 2 ^ 63"
  defines "x \<equiv> end_of b xs"
  defines "r \<equiv> x + 8 + z"
  defines "A \<equiv> {x + 8..<x + 16} \<union> {r..<r + 16} \<union> {x + 8 + s..<x + 24 + s}"
  shows "\<exists>m3. split_block x (word_of_nat z) m = Inr (r, m3) \<and>
    (k = None \<longrightarrow> (\<exists>m4. link_next x m3 = Inr (r, m4) \<and>
        seg (set_prev_free r m4) b pf p (xs @ (z, None) # (s - (z + 8), None) # (s2, k2) # ys) \<and>
        same_but m (set_prev_free r m4) A) \<and>
      (\<exists>m4. link_next x (set_prev_free r m3) = Inr (r, m4) \<and>
        seg m4 b pf p (xs @ (z, None) # (s - (z + 8), None) # (s2, k2) # ys) \<and> same_but m m4 A)) \<and>
    (\<forall>d. k = Some d \<longrightarrow>
      seg (set_prev_used r m3) b pf p (xs @ (z, Some (take z d)) # (s - (z + 8), None) # (s2, k2) # ys) \<and>
      same_but m (set_prev_used r m3) A)"
proof -
  from S obtain pf1 p1 where l: "last_of pf p b xs = (pf1, p1)" "seg m b pf p xs"
    "load64 (x + 8) m = hdr s (k = None) pf1" "pf1 \<longrightarrow> load64 x m = word_of_nat p1"
    and d: "\<forall>d. k = Some d \<longrightarrow> d = mem_read (x + 16) s m"
    and t: "seg m (x + 8 + s) (k = None) x ((s2, k2) # ys)" unfolding x_def by (rule seg_midE)
  have h2: "load64 (x + 16 + s) m = hdr s2 (k2 = None) (k = None)" using t by (simp add: add.commute add.left_commute)
  define t' where "t' = s - (z + 8)"
  have s: "s = z + 8 + t'" "24 \<le> t'" "good_size t'" using g unfolding t'_def good_size_def by (simp, simp, presburger)
  have "good_size s2" using g(3) by (simp add: good_next_def)
  from split_block_hdr [OF l(3) h2 g(1) this g(2,4,5) b [folded x_def]] obtain g1 g2 where
    sp: "split_block x (word_of_nat z) m = Inr (x + 8 + z, store64 (x + 16 + z) (hdr t' True g2)
      (store64 (x + 16 + s) (hdr s2 (k2 = None) True) (store64 (x + 8 + s) (word_of_nat (x + 8 + z))
        (store64 (x + 8) (hdr z (k = None) pf1) (store64 (x + 16 + z) (hdr t' g1 g2) m)))))"
    unfolding t'_def by blast
  have e: "x + 16 + z = r + 8" "x + 16 + s = r + 8 + t' + 8" "x + 8 + s = r + 8 + t'" "x + 8 + z = r"
    by (simp_all add: r_def s)
  define m3 where "m3 = store64 (r + 8) (hdr t' True g2) (store64 (r + 8 + t' + 8) (hdr s2 (k2 = None) True)
    (store64 (r + 8 + t') (word_of_nat r) (store64 (x + 8) (hdr z (k = None) pf1) (store64 (r + 8) (hdr t' g1 g2) m))))"
  have r: "x + 16 \<le> r" using g(4) by (simp add: r_def)
  have sp: "split_block x (word_of_nat z) m = Inr (r, m3)" using sp unfolding e m3_def .
  have A: "A = {x + 8..<x + 16} \<union> {r..<r + 16} \<union> {r + 8 + t'..<r + 24 + t'}" by (simp add: A_def r_def s add.assoc)
  have sb: "same_but m m3 A" unfolding m3_def A by (intro same_but_store same_but_refl) auto
  have h: "load64 (x + 8) m3 = hdr z (k = None) pf1" "load64 (r + 8) m3 = hdr t' True g2"
    using r s(2) by (simp_all add: m3_def)
  have t3: "seg m' (r + 8 + t') True r ((s2, k2) # ys)"
    if "same_but m3 m' ({x + 8..<x + 16} \<union> {r..<r + 16})" for m'
  proof (rule seg_tail [OF t [unfolded e]])
    have sb': "same_but m m' A" by (rule same_but_trans [OF sb that]) (simp add: A)
    show "m' a = m a" if "r + 8 + t' + 16 \<le> a" for a using that r by (intro same_butD [OF sb']) (auto simp: A)
    have "load64 (r + 8 + t' + 8) m' = load64 (r + 8 + t' + 8) m3" using r s(2) by (intro same_but_load [OF that]) auto
    then show "load64 (r + 8 + t' + 8) m' = hdr s2 (k2 = None) True" using r s(2) by (simp add: m3_def)
    have "load64 (r + 8 + t') m' = load64 (r + 8 + t') m3" using r s(2) by (intro same_but_load [OF that]) auto
    then show "load64 (r + 8 + t') m' = word_of_nat r" using r s(2) by (simp add: m3_def)
  qed (use g in \<open>simp add: good_next_def\<close>)
  have new: "seg m' b pf p (xs @ (z, k') # (t', None) # (s2, k2) # ys)"
    if "same_but m3 m' ({x + 8..<x + 16} \<union> {r..<r + 16})" "load64 (x + 8) m' = hdr z (k' = None) pf1"
      "load64 (r + 8) m' = hdr t' True (k' = None)" "k' = None \<longrightarrow> load64 r m' = word_of_nat x"
      "\<forall>d. k' = Some d \<longrightarrow> d = mem_read (x + 16) z m'" for m' k'
  proof (rule seg_midI [OF l(1,2) l(4) [unfolded x_def] same_but_trans [OF sb that(1) subset_refl]])
    show "A \<union> ({x + 8..<x + 16} \<union> {r..<r + 16}) \<subseteq> {end_of b xs + 8..}" using r by (auto simp: A simp flip: x_def)
  qed (use that t3 [OF that(1)] in \<open>auto simp: x_def [symmetric] r_def [symmetric]\<close>)
  have lk: "load64 (x + 8) m' = hdr z (k = None) pf1 \<Longrightarrow> link_next x m' = Inr (r, store64 r (word_of_nat x) m')" for m'
    using block_next(2) [of x m' z] g by (simp add: r_def)
  have 1: "set_prev_free r (store64 r (word_of_nat x) m3) = store64 (r + 8) (hdr t' True True) (store64 r (word_of_nat x) m3)"
    by (rule block_hdr(7) [OF _ s(3)]) (simp add: h)
  have 2: "set_prev_free r m3 = store64 (r + 8) (hdr t' True True) m3" by (rule block_hdr(7) [OF h(2) s(3)])
  have 3: "set_prev_used r m3 = store64 (r + 8) (hdr t' True False) m3" by (rule block_hdr(8) [OF h(2) s(3)])
  have sbs: "same_but m3 (store64 (r + 8) v (store64 r w m3)) ({x + 8..<x + 16} \<union> {r..<r + 16})"
    "same_but m3 (store64 r w (store64 (r + 8) v m3)) ({x + 8..<x + 16} \<union> {r..<r + 16})"
    "same_but m3 (store64 (r + 8) v m3) ({x + 8..<x + 16} \<union> {r..<r + 16})" for v w
    by (intro same_but_store same_but_refl; auto)+
  note sbA = same_but_trans [OF sb, of _ "{x + 8..<x + 16} \<union> {r..<r + 16}" A]
  have free: "(\<exists>m4. link_next x m3 = Inr (r, m4) \<and>
        seg (set_prev_free r m4) b pf p (xs @ (z, None) # (t', None) # (s2, k2) # ys) \<and>
        same_but m (set_prev_free r m4) A) \<and>
      (\<exists>m4. link_next x (set_prev_free r m3) = Inr (r, m4) \<and>
        seg m4 b pf p (xs @ (z, None) # (t', None) # (s2, k2) # ys) \<and> same_but m m4 A)" if k: "k = None"
    using h r k by (auto simp: lk 1 2 intro!: new sbs sbA [OF sbs(1)] sbA [OF sbs(2)]) (auto simp: A)
  have used: "seg (set_prev_used r m3) b pf p (xs @ (z, Some (take z d)) # (t', None) # (s2, k2) # ys) \<and>
      same_but m (set_prev_used r m3) A" if k: "k = Some d" for d
  proof -
    have "same_but m (set_prev_used r m3) A" unfolding 3 by (rule sbA [OF sbs(3)]) (auto simp: A)
    moreover have "mem_read (x + 16) z (set_prev_used r m3) = mem_read (x + 16) z m"
      unfolding 3 unfolding m3_def by (simp add: r_def)
    moreover have "take z (mem_read (x + 16) s m) = mem_read (x + 16) z m" using g(5) by (simp add: mem_read_def take_map)
    ultimately show ?thesis using d h r k unfolding 3 by (auto intro!: new sbs)
  qed
  show ?thesis using sp free used unfolding t'_def by blast
qed

end
