(* ===== verification/Tlsf_Control.thy ===== *)
theory Tlsf_Control
  imports Tlsf_Block
begin

text \<open>
  The control structure of the TLSF allocator (\<open>memory/allocator/tlsf/impl/control.h\<close>, \<open>control.cpp\<close>): segregated,
  doubly linked free lists with two levels of bitmaps, and the operations that take blocks from the lists, trim, merge and
  return them. An operation works on a pair of the control structure and the memory; only the null block of the
  structure is addressed through pointers and therefore lives in the memory.
\<close>

unbundle bit_operations_syntax

section \<open>The structure\<close>

record control =
  null_block :: block_ptr
  fl_bitmap :: u32
  sl_bitmap :: "u32 list"
  control_blocks :: "block_ptr list list"

text \<open>Array accesses and shifts with an \<open>int32_t\<close>; a negative or too large count of a shift is undefined behaviour.\<close>

definition arr_at :: "'a list \<Rightarrow> int \<Rightarrow> fault + 'a" where
  "arr_at xs i = (if 0 \<le> i then arr_read xs (nat i) else Inl Out_Of_Bounds)"

definition shl :: "u32 \<Rightarrow> int \<Rightarrow> fault + u32" where
  "shl w n = (if 0 \<le> n \<and> n < 32 then Inr (push_bit (nat n) w) else Inl Out_Of_Bounds)"

definition list_head :: "control \<Rightarrow> int \<Rightarrow> int \<Rightarrow> fault + block_ptr" where
  "list_head c fli sli = res_bind (arr_at (control_blocks c) fli) (\<lambda>row. arr_at row sli)"

definition put_list_head :: "int \<Rightarrow> int \<Rightarrow> block_ptr \<Rightarrow> control \<Rightarrow> fault + control" where
  "put_list_head fli sli b c = res_bind (list_head c fli sli) (\<lambda>_.
     Inr (c\<lparr>control_blocks := (control_blocks c)[nat fli := (control_blocks c ! nat fli)[nat sli := b]]\<rparr>))"

definition new_control :: "nat \<Rightarrow> memory \<Rightarrow> control \<times> memory" where
  "new_control addr m =
     (\<lparr>null_block = addr, fl_bitmap = 0, sl_bitmap = replicate k_fl_index_count 0,
       control_blocks = replicate k_fl_index_count (replicate k_sl_index_count addr)\<rparr>,
      put_prev_free addr addr (put_next_free addr addr m))"

section \<open>Free lists\<close>

definition search_suitable_block :: "int \<Rightarrow> int \<Rightarrow> control \<Rightarrow> fault + block_ptr \<times> int \<times> int" where
  "search_suitable_block fli sli c =
     res_bind (arr_at (sl_bitmap c) fli) (\<lambda>row.
     res_bind (shl (NOT 0) sli) (\<lambda>from_sli.
     let sl_map = row AND from_sli;
         found = (\<lambda>fli sl_map. res_bind (k_assert (sl_map \<noteq> 0)) (\<lambda>_.
           let sli = ffs sl_map in res_bind (list_head c fli sli) (\<lambda>block. Inr (block, fli, sli))))
     in if sl_map \<noteq> 0 then found fli sl_map
        else res_bind (shl (NOT 0) (fli + 1)) (\<lambda>from_fli.
             let fl_map = fl_bitmap c AND from_fli
             in if fl_map = 0 then Inr (0, fli, sli)
                else (let fli = ffs fl_map in res_bind (arr_at (sl_bitmap c) fli) (found fli)))))"

definition clear_bits :: "int \<Rightarrow> int \<Rightarrow> control \<Rightarrow> fault + control" where
  "clear_bits fli sli c =
     res_bind (arr_at (sl_bitmap c) fli) (\<lambda>row.
     res_bind (shl 1 sli) (\<lambda>sbit.
     let row' = row AND NOT sbit; c1 = c\<lparr>sl_bitmap := (sl_bitmap c)[nat fli := row']\<rparr>
     in if row' = 0 then res_bind (shl 1 fli) (\<lambda>fbit. Inr (c1\<lparr>fl_bitmap := fl_bitmap c1 AND NOT fbit\<rparr>))
        else Inr c1))"

definition remove_free_block ::
  "block_ptr \<Rightarrow> int \<Rightarrow> int \<Rightarrow> control \<times> memory \<Rightarrow> fault + control \<times> memory" where
  "remove_free_block block fli sli = (\<lambda>(c, m).
     let prev = prev_free block m; next = next_free block m
     in res_bind (k_assert (prev \<noteq> 0)) (\<lambda>_.
        res_bind (k_assert (next \<noteq> 0)) (\<lambda>_.
        let m1 = put_prev_free next prev m; m2 = put_next_free prev next m1
        in res_bind (list_head c fli sli) (\<lambda>head.
           if head = block
           then res_bind (put_list_head fli sli next c) (\<lambda>c1.
                if next = null_block c then res_bind (clear_bits fli sli c1) (\<lambda>c2. Inr (c2, m2))
                else Inr (c1, m2))
           else Inr (c, m2)))))"

definition insert_free_block ::
  "block_ptr \<Rightarrow> int \<Rightarrow> int \<Rightarrow> control \<times> memory \<Rightarrow> fault + control \<times> memory" where
  "insert_free_block block fli sli = (\<lambda>(c, m).
     res_bind (list_head c fli sli) (\<lambda>current.
     res_bind (k_assert (current \<noteq> 0)) (\<lambda>_.
     res_bind (k_assert (block \<noteq> 0)) (\<lambda>_.
     let m1 = put_next_free block current m;
         m2 = put_prev_free block (null_block c) m1;
         m3 = put_prev_free current block m2
     in res_bind (aligned_block block) (\<lambda>_.
        res_bind (put_list_head fli sli block c) (\<lambda>c1.
        res_bind (shl 1 fli) (\<lambda>fbit.
        res_bind (arr_at (sl_bitmap c1) fli) (\<lambda>row.
        res_bind (shl 1 sli) (\<lambda>sbit.
        Inr (c1\<lparr>fl_bitmap := fl_bitmap c1 OR fbit, sl_bitmap := (sl_bitmap c1)[nat fli := row OR sbit]\<rparr>, m3))))))))))"

definition remove_block :: "block_ptr \<Rightarrow> control \<times> memory \<Rightarrow> fault + control \<times> memory" where
  "remove_block block s = (case mapping_insert (block_size block (snd s)) of (fli, sli) \<Rightarrow> remove_free_block block fli sli s)"

definition insert_block :: "block_ptr \<Rightarrow> control \<times> memory \<Rightarrow> fault + control \<times> memory" where
  "insert_block block s = (case mapping_insert (block_size block (snd s)) of (fli, sli) \<Rightarrow> insert_free_block block fli sli s)"

section \<open>Merging and trimming\<close>

definition merge_prev :: "block_ptr \<Rightarrow> control \<times> memory \<Rightarrow> fault + block_ptr \<times> control \<times> memory" where
  "merge_prev block = (\<lambda>(c, m).
     if is_prev_free block m
     then res_bind (get_prev block m) (\<lambda>prev.
          res_bind (k_assert (prev \<noteq> 0)) (\<lambda>_.
          res_bind (k_assert (is_free prev m)) (\<lambda>_.
          res_bind (remove_block prev (c, m)) (\<lambda>(c1, m1).
          res_bind (absorb prev block m1) (\<lambda>(block', m2). Inr (block', c1, m2))))))
     else Inr (block, c, m))"

definition merge_next :: "block_ptr \<Rightarrow> control \<times> memory \<Rightarrow> fault + block_ptr \<times> control \<times> memory" where
  "merge_next block = (\<lambda>(c, m).
     res_bind (get_next block m) (\<lambda>next.
     res_bind (k_assert (next \<noteq> 0)) (\<lambda>_.
     if is_free next m
     then res_bind (k_assert (\<not> is_last block m)) (\<lambda>_.
          res_bind (remove_block next (c, m)) (\<lambda>(c1, m1).
          res_bind (absorb block next m1) (\<lambda>(block', m2). Inr (block', c1, m2))))
     else Inr (block, c, m))))"

definition trim_free :: "block_ptr \<Rightarrow> u64 \<Rightarrow> control \<times> memory \<Rightarrow> fault + control \<times> memory" where
  "trim_free block sz = (\<lambda>(c, m).
     res_bind (k_assert (is_free block m)) (\<lambda>_.
     if can_split block sz m
     then res_bind (split_block block sz m) (\<lambda>(remaining_block, m1).
          res_bind (link_next block m1) (\<lambda>(_, m2).
          insert_block remaining_block (c, set_prev_free remaining_block m2)))
     else Inr (c, m)))"

definition trim_free_leading :: "block_ptr \<Rightarrow> u64 \<Rightarrow> control \<times> memory \<Rightarrow> fault + block_ptr \<times> control \<times> memory" where
  "trim_free_leading block sz = (\<lambda>(c, m).
     if can_split block sz m
     then res_bind (split_block block (sz - k_block_header_overhead) m) (\<lambda>(remaining_block, m1).
          let m2 = set_prev_free remaining_block m1
          in res_bind (link_next block m2) (\<lambda>(_, m3).
             res_bind (insert_block block (c, m3)) (\<lambda>s. Inr (remaining_block, s))))
     else Inr (block, c, m))"

definition trim_used :: "block_ptr \<Rightarrow> u64 \<Rightarrow> control \<times> memory \<Rightarrow> fault + control \<times> memory" where
  "trim_used block sz = (\<lambda>(c, m).
     res_bind (k_assert (\<not> is_free block m)) (\<lambda>_.
     if can_split block sz m
     then res_bind (split_block block sz m) (\<lambda>(remaining_block, m1).
          res_bind (merge_next remaining_block (c, set_prev_used remaining_block m1)) (\<lambda>(remaining_block', s).
          insert_block remaining_block' s))
     else Inr (c, m)))"

definition locate_free_block :: "u64 \<Rightarrow> control \<times> memory \<Rightarrow> fault + block_ptr \<times> control \<times> memory" where
  "locate_free_block sz = (\<lambda>(c, m).
     res_bind
       (if sz \<noteq> 0
        then (case mapping_search sz of (fli, sli) \<Rightarrow>
                if fli < int k_fl_index_count then search_suitable_block fli sli c else Inr (0, fli, sli))
        else Inr (0, 0, 0))
       (\<lambda>(block, fli, sli).
        if block \<noteq> 0
        then res_bind (k_assert (sz \<le> block_size block m)) (\<lambda>_.
             res_bind (remove_free_block block fli sli (c, m)) (\<lambda>s. Inr (block, s)))
        else Inr (0, c, m)))"

definition prepare_used :: "block_ptr \<Rightarrow> u64 \<Rightarrow> control \<times> memory \<Rightarrow> fault + nat \<times> control \<times> memory" where
  "prepare_used block sz s =
     (if block \<noteq> 0
      then res_bind (k_assert (sz \<noteq> 0)) (\<lambda>_.
           res_bind (trim_free block sz s) (\<lambda>(c, m1).
           res_bind (mark_as_used block m1) (\<lambda>m2. Inr (to_void_ptr block, c, m2))))
      else Inr (0, s))"

section \<open>Doubly linked lists\<close>

text \<open>
  \<open>dll m n p h xs\<close>: the list that starts with \<open>h\<close> runs through \<open>xs\<close> and ends with the pointer \<open>n\<close>; the block before it is \<open>p\<close>.
\<close>

fun dll :: "memory \<Rightarrow> nat \<Rightarrow> nat \<Rightarrow> nat \<Rightarrow> nat list \<Rightarrow> bool" where
  "dll m n p h [] \<longleftrightarrow> h = n"
| "dll m n p h (x # xs) \<longleftrightarrow> h = x \<and> prev_free x m = p \<and> dll m n x (next_free x m) xs"

lemma dll_append: "dll m n p h (us @ vs) \<longleftrightarrow> (\<exists>t. dll m t p h us \<and> dll m n (last (p # us)) t vs)"
  by (induction us arbitrary: p h) auto

lemma dll_snoc: "dll m t p h (us @ [u]) \<longleftrightarrow> dll m u p h us \<and> prev_free u m = last (p # us) \<and> next_free u m = t"
  unfolding dll_append by auto

text \<open>The sixteen bytes of the two links of a block.\<close>

definition links :: "nat \<Rightarrow> nat set" where
  "links x = {x + 16..<x + 32}"

lemma links_frame:
  "same_but m m' A \<Longrightarrow> links x \<inter> A = {} \<Longrightarrow> next_free x m' = next_free x m"
  "same_but m m' A \<Longrightarrow> links x \<inter> A = {} \<Longrightarrow> prev_free x m' = prev_free x m"
  unfolding next_free_def prev_free_def
  by (rule arg_cong [of _ _ unat], rule same_but_load, assumption, fastforce simp: links_def disjoint_iff)+

lemma dll_frame:
  "same_but m m' A \<Longrightarrow> (\<And>x. x \<in> set xs \<Longrightarrow> links x \<inter> A = {}) \<Longrightarrow> dll m' n p h xs = dll m n p h xs"
  by (induction xs arbitrary: p h) (auto simp: links_frame)

lemma links_put [simp]:
  "v < 2 ^ 64 \<Longrightarrow> next_free x (put_next_free x v m) = v" "v < 2 ^ 64 \<Longrightarrow> prev_free x (put_prev_free x v m) = v"
  "next_free x (put_prev_free x v m) = next_free x m" "prev_free x (put_next_free x v m) = prev_free x m"
  by (simp_all add: next_free_def prev_free_def put_next_free_def put_prev_free_def unat_word_of_nat)

lemma put_same_but: "same_but m (put_next_free x v m) (links x)" "same_but m (put_prev_free x v m) (links x)"
  unfolding put_next_free_def put_prev_free_def links_def by (intro same_but_store same_but_refl; auto)+

text \<open>Blocks whose links do not overlap.\<close>

definition apart :: "nat set \<Rightarrow> bool" where
  "apart N \<longleftrightarrow> (\<forall>x \<in> N. \<forall>y \<in> N. x \<noteq> y \<longrightarrow> x + 32 \<le> y \<or> y + 32 \<le> x)"

lemma apart_links: "apart N \<Longrightarrow> x \<in> N \<Longrightarrow> y \<in> N \<Longrightarrow> x \<noteq> y \<Longrightarrow> links x \<inter> links y = {}"
  unfolding apart_def links_def by fastforce

lemma apart_subset: "apart N \<Longrightarrow> M \<subseteq> N \<Longrightarrow> apart M"
  unfolding apart_def by blast

lemma links_put_other:
  assumes "apart N" "x \<in> N" "y \<in> N" "x \<noteq> y"
  shows "next_free y (put_next_free x v m) = next_free y m" "prev_free y (put_next_free x v m) = prev_free y m"
    "next_free y (put_prev_free x v m) = next_free y m" "prev_free y (put_prev_free x v m) = prev_free y m"
proof -
  have "links y \<inter> links x = {}" using apart_links [OF assms(1,3,2)] assms(4) by simp
  note f = links_frame [OF put_same_but(1) this] links_frame [OF put_same_but(2) this]
  show "next_free y (put_next_free x v m) = next_free y m" "prev_free y (put_next_free x v m) = prev_free y m"
    "next_free y (put_prev_free x v m) = next_free y m" "prev_free y (put_prev_free x v m) = prev_free y m"
    by (simp_all add: f)
qed

lemma dll_put_other:
  assumes "apart N" "x \<in> N" "set xs \<subseteq> N" "x \<notin> set xs"
  shows "dll (put_next_free x v m) n p h xs = dll m n p h xs" "dll (put_prev_free x v m) n p h xs = dll m n p h xs"
proof -
  have "links y \<inter> links x = {}" if "y \<in> set xs" for y
    using that assms by (intro apart_links [OF assms(1)]) auto
  then show "dll (put_next_free x v m) n p h xs = dll m n p h xs" "dll (put_prev_free x v m) n p h xs = dll m n p h xs"
    by (auto intro!: dll_frame put_same_but)
qed

lemma dll_head: "dll m n p h xs \<Longrightarrow> h = hd (xs @ [n])"
  by (cases xs) auto

lemma dll_unlink:
  assumes dll: "dll m n n h (us @ x # vs)" and ap: "apart N" "insert n (set (us @ x # vs)) \<subseteq> N" "\<forall>y \<in> N. y < 2 ^ 63"
    and d: "distinct (n # us @ x # vs)"
  shows "prev_free x m = last (n # us)" "next_free x m = hd (vs @ [n])"
    "dll (put_next_free (last (n # us)) (hd (vs @ [n])) (put_prev_free (hd (vs @ [n])) (last (n # us)) m)) n n
       (if us = [] then hd (vs @ [n]) else h) (us @ vs)"
proof -
  define p where "p = last (n # us)"
  define q where "q = hd (vs @ [n])"
  let ?m1 = "put_prev_free q p m" and ?m2 = "put_next_free p q (put_prev_free q p m)"
  from dll have us: "dll m x n h us" and px: "prev_free x m = p" and vs: "dll m n x (next_free x m) vs"
    by (auto simp: dll_append p_def)
  show "prev_free x m = last (n # us)" "next_free x m = hd (vs @ [n])" using px dll_head [OF vs] by (simp_all add: p_def)
  have pN: "p \<in> N" "p < 2 ^ 64" using ap(2,3) by (cases us rule: rev_cases; force simp: p_def)+
  have qN: "q \<in> N" "q < 2 ^ 64" using ap(2,3) by (cases vs; force simp: q_def)+
  have 1: "dll ?m2 n p q vs"
  proof (cases vs)
    case (Cons v vs')
    have v: "v \<in> N" "v \<noteq> p" "v \<noteq> n" "v \<notin> set vs'" "set vs' \<subseteq> N" "p \<notin> set vs'"
      using ap(2) d Cons by (cases us rule: rev_cases; auto simp: p_def)+
    have "dll m n v (next_free v m) vs'" using vs Cons by simp
    moreover have "q = v" by (simp add: q_def Cons)
    ultimately show ?thesis using v pN
      by (simp add: Cons dll_put_other [OF ap(1)] links_put_other [OF ap(1) pN(1) v(1)])
  qed (simp add: q_def)
  have 2: "dll ?m2 q n (if us = [] then q else h) us"
  proof (cases us rule: rev_cases)
    case (snoc us' u)
    have u: "u \<in> N" "u \<noteq> q" "q \<notin> set us'" "u \<notin> set us'" "set us' \<subseteq> N"
      using ap(2) d snoc by (cases vs; auto simp: q_def)+
    have "dll m u n h us'" "prev_free u m = last (n # us')" using us snoc by (auto simp: dll_snoc)
    moreover have "p = u" by (simp add: p_def snoc)
    ultimately show ?thesis using u qN
      by (auto simp: snoc dll_snoc dll_put_other [OF ap(1)] links_put_other [OF ap(1) qN(1) u(1)])
  qed simp
  have "dll ?m2 n n (if us = [] then q else h) (us @ vs)" unfolding dll_append using 1 2 p_def by blast
  then show "dll (put_next_free (last (n # us)) (hd (vs @ [n])) (put_prev_free (hd (vs @ [n])) (last (n # us)) m)) n n
    (if us = [] then hd (vs @ [n]) else h) (us @ vs)" unfolding p_def q_def .
qed

lemma dll_link:
  assumes dll: "dll m n n h xs" and ap: "apart N" "insert n (insert x (set xs)) \<subseteq> N" "\<forall>y \<in> N. y < 2 ^ 63"
    and d: "distinct (n # x # xs)"
  shows "h \<in> N" "dll (put_prev_free h x (put_prev_free x n (put_next_free x h m))) n n x (x # xs)"
proof -
  have h: "h = hd (xs @ [n])" by (rule dll_head [OF dll])
  then show hN: "h \<in> N" using ap(2) by (cases xs) auto
  have b: "h < 2 ^ 64" "x < 2 ^ 64" "n < 2 ^ 64" "x \<in> N" "n \<in> N" "x \<noteq> h" using ap(2,3) hN d h by (cases xs; force)+
  let ?m = "put_prev_free h x (put_prev_free x n (put_next_free x h m))"
  have "prev_free x ?m = n" "next_free x ?m = h" using b hN by (simp_all add: links_put_other [OF ap(1) hN b(4)])
  moreover have "dll ?m n x h xs"
  proof (cases xs)
    case (Cons y ys)
    have y: "h = y" "y \<in> N" "y \<noteq> x" "y \<notin> set ys" "x \<notin> set ys" "set ys \<subseteq> N" using ap(2) d Cons h by auto
    have "dll m n y (next_free y m) ys" using dll Cons by simp
    then show ?thesis using y b
      by (simp add: Cons dll_put_other [OF ap(1)] links_put_other [OF ap(1) b(4) y(2)])
  qed (use h in simp)
  ultimately show "dll ?m n n x (x # xs)" by simp
qed

section \<open>The lists and the bitmaps\<close>

text \<open>\<open>L f s\<close> is the list of the free blocks of the class with indices \<open>f\<close> and \<open>s\<close>.\<close>

type_synonym free_lists = "nat \<Rightarrow> nat \<Rightarrow> nat list"

definition lists_ok :: "memory \<Rightarrow> control \<Rightarrow> free_lists \<Rightarrow> bool" where
  "lists_ok m c L \<longleftrightarrow> length (sl_bitmap c) = 25 \<and> length (control_blocks c) = 25 \<and>
     (\<forall>f < 25. length (control_blocks c ! f) = 32) \<and>
     (\<forall>f < 25. \<forall>s < 32. dll m (null_block c) (null_block c) (control_blocks c ! f ! s) (L f s) \<and>
        (bit (sl_bitmap c ! f) s \<longleftrightarrow> L f s \<noteq> [])) \<and>
     (\<forall>f. bit (fl_bitmap c) f \<longleftrightarrow> f < 25 \<and> sl_bitmap c ! f \<noteq> 0)"

definition nodes :: "free_lists \<Rightarrow> nat set" where
  "nodes L = (\<Union>f. \<Union>s. set (L f s))"

text \<open>The lists are disjoint, without repetition and without the null block; no links overlap.\<close>

definition sep_lists :: "nat \<Rightarrow> free_lists \<Rightarrow> nat set \<Rightarrow> bool" where
  "sep_lists n L N \<longleftrightarrow> apart N \<and> insert n (nodes L) \<subseteq> N \<and> (\<forall>y \<in> N. 0 < y \<and> y < 2 ^ 63) \<and> n \<notin> nodes L \<and>
     (\<forall>f s. distinct (L f s)) \<and> (\<forall>x f s f' s'. x \<in> set (L f s) \<longrightarrow> x \<in> set (L f' s') \<longrightarrow> f = f' \<and> s = s')"

lemma sep_listsD:
  assumes "sep_lists n L N"
  shows "apart N" "n \<in> N" "nodes L \<subseteq> N" "\<And>y. y \<in> N \<Longrightarrow> 0 < y" "\<And>y. y \<in> N \<Longrightarrow> y < 2 ^ 63" "n \<notin> nodes L"
    "distinct (L f s)" "\<And>f s f' s'. x \<in> set (L f s) \<Longrightarrow> x \<in> set (L f' s') \<Longrightarrow> f = f' \<and> s = s'"
  using assms unfolding sep_lists_def by blast+

definition put_list :: "nat \<Rightarrow> nat \<Rightarrow> nat list \<Rightarrow> free_lists \<Rightarrow> free_lists" where
  "put_list f s xs L = L(f := (L f)(s := xs))"

lemma put_list_simps [simp]:
  "put_list f s xs L f s = xs" "f' \<noteq> f \<or> s' \<noteq> s \<Longrightarrow> put_list f s xs L f' s' = L f' s'"
  by (auto simp: put_list_def)

lemma put_list_if: "put_list f s xs L f' s' = (if f' = f \<and> s' = s then xs else L f' s')"
  by auto

lemma nodesI: "x \<in> set (L f s) \<Longrightarrow> x \<in> nodes L"
  by (auto simp: nodes_def)

lemma lists_okD:
  assumes "lists_ok m c L"
  shows "length (sl_bitmap c) = 25" "length (control_blocks c) = 25" "\<And>f. f < 25 \<Longrightarrow> length (control_blocks c ! f) = 32"
    "\<And>f s. f < 25 \<Longrightarrow> s < 32 \<Longrightarrow> dll m (null_block c) (null_block c) (control_blocks c ! f ! s) (L f s)"
    "\<And>f s. f < 25 \<Longrightarrow> s < 32 \<Longrightarrow> bit (sl_bitmap c ! f) s \<longleftrightarrow> L f s \<noteq> []"
    "\<And>f. bit (fl_bitmap c) f \<longleftrightarrow> f < 25 \<and> sl_bitmap c ! f \<noteq> 0"
  using assms unfolding lists_ok_def by blast+

lemma lists_ok_upd:
  assumes ok: "lists_ok m c L" and i: "f < 25" "s < 32" and N: "sep_lists (null_block c) L N"
    and c': "null_block c' = null_block c" "control_blocks c' = (control_blocks c)[f := (control_blocks c ! f)[s := h]]"
      "sl_bitmap c' = (sl_bitmap c)[f := row]"
    and row: "\<And>j. j < 32 \<Longrightarrow> bit row j \<longleftrightarrow> (if j = s then xs \<noteq> [] else bit (sl_bitmap c ! f) j)"
    and fl: "\<And>j. bit (fl_bitmap c') j \<longleftrightarrow> (if j = f then row \<noteq> 0 else bit (fl_bitmap c) j)"
    and m': "dll m' (null_block c) (null_block c) h xs" "same_but m m' (\<Union>y \<in> insert (null_block c) B. links y)"
      "B \<subseteq> N" "B \<inter> (nodes L - set (L f s)) = {}"
  shows "lists_ok m' c' (put_list f s xs L)"
proof -
  note D = lists_okD [OF ok]
  have other: "dll m' (null_block c) (null_block c) (control_blocks c ! f' ! s') (L f' s')"
    if "f' < 25" "s' < 32" "f' \<noteq> f \<or> s' \<noteq> s" for f' s'
  proof -
    have "links x \<inter> (\<Union>y \<in> insert (null_block c) B. links y) = {}" if "x \<in> set (L f' s')" for x
    proof -
      have x: "x \<in> nodes L" "x \<in> N" "x \<notin> set (L f s)" "x \<noteq> null_block c"
        using nodesI [of x L f' s'] that sep_listsD(3,6,8) [OF N] \<open>f' \<noteq> f \<or> s' \<noteq> s\<close> by blast+
      then have "links x \<inter> links y = {}" if "y \<in> insert (null_block c) B" for y
        using that m'(3,4) sep_listsD(1,2) [OF N] by (intro apart_links [of N]) auto
      then show ?thesis by blast
    qed
    then show ?thesis using D(4) [OF that(1,2)] dll_frame [OF m'(2)] by simp
  qed
  show ?thesis unfolding lists_ok_def put_list_if c'
  proof (intro conjI allI impI)
    fix f' assume f': "f' < (25::nat)"
    show "length ((control_blocks c)[f := (control_blocks c ! f)[s := h]] ! f') = 32"
      using D(2,3) f' i by (simp add: nth_list_update)
    fix s' assume s': "s' < (32::nat)"
    show "dll m' (null_block c) (null_block c) ((control_blocks c)[f := (control_blocks c ! f)[s := h]] ! f' ! s')
        (if f' = f \<and> s' = s then xs else L f' s')"
      using D(2,3) f' s' i m'(1) other [OF f' s'] by (auto simp: nth_list_update)
    show "bit ((sl_bitmap c)[f := row] ! f') s' = ((if f' = f \<and> s' = s then xs else L f' s') \<noteq> [])"
      using D(1) D(5) [OF f' s'] f' s' i row [OF s'] by (auto simp: nth_list_update)
  next
    fix f'
    show "bit (fl_bitmap c') f' = (f' < 25 \<and> (sl_bitmap c)[f := row] ! f' \<noteq> 0)"
      using D(1) D(6) [of f'] i fl [of f'] by (simp add: nth_list_update)
  qed (use D(1,2) in simp_all)
qed

lemma arr_at_nat [simp]: "arr_at xs (int i) = arr_read xs i"
  by (simp add: arr_at_def)

lemma shl_nat [simp]: "n < 32 \<Longrightarrow> shl w (int n) = Inr (push_bit n w)"
  by (simp add: shl_def)

lemma list_head_ok:
  assumes "lists_ok m c L" "f < 25" "s < 32"
  shows "list_head c (int f) (int s) = Inr (control_blocks c ! f ! s)"
    "put_list_head (int f) (int s) h c =
       Inr (c\<lparr>control_blocks := (control_blocks c)[f := (control_blocks c ! f)[s := h]]\<rparr>)"
  using lists_okD(2,3) [OF assms(1)] assms(2,3) by (simp_all add: list_head_def put_list_head_def)

lemma bit_clear: "bit (w AND NOT (push_bit s 1) :: u32) j \<longleftrightarrow> j \<noteq> s \<and> bit w j"
  by (auto simp: bit_and_iff bit_not_iff bit_exp_iff push_bit_of_1 dest: bit_imp_le_length)

lemma bit_raise: "s < 32 \<Longrightarrow> bit (w OR push_bit s 1 :: u32) j \<longleftrightarrow> j = s \<or> bit w j"
  by (auto simp: bit_or_iff bit_exp_iff push_bit_of_1)

lemma row_nonzero: "bit (w :: u32) j \<Longrightarrow> w \<noteq> 0"
  by auto

lemma clear_bits_ok:
  assumes "lists_ok m c L" "f < 25" "s < 32"
  shows "\<exists>c'. clear_bits (int f) (int s) (c\<lparr>control_blocks := bl\<rparr>) = Inr c' \<and> null_block c' = null_block c \<and> control_blocks c' = bl \<and>
    sl_bitmap c' = (sl_bitmap c)[f := sl_bitmap c ! f AND NOT (push_bit s 1)] \<and>
    (\<forall>j. bit (fl_bitmap c') j \<longleftrightarrow>
      (if j = f then bit (fl_bitmap c) f \<and> sl_bitmap c ! f AND NOT (push_bit s 1) \<noteq> 0 else bit (fl_bitmap c) j))"
proof -
  have l: "f < length (sl_bitmap c)" using lists_okD(1) [OF assms(1)] assms(2) by simp
  have f: "bit (fl_bitmap c AND NOT (push_bit f 1)) j \<longleftrightarrow> j \<noteq> f \<and> bit (fl_bitmap c) j" for j by (rule bit_clear)
  show ?thesis
  proof (cases "sl_bitmap c ! f AND NOT (push_bit s 1) = 0")
    case True
    then show ?thesis using assms(2,3) l f by (auto simp: clear_bits_def Let_def)
  next
    case False
    then show ?thesis using assms(2,3) l by (auto simp: clear_bits_def Let_def)
  qed
qed

lemma remove_free_block_ok:
  assumes ok: "lists_ok m c L" and N: "sep_lists (null_block c) L N" and i: "f < 25" "s < 32" and x: "L f s = us @ x # vs"
  shows "\<exists>c' m'. remove_free_block x (int f) (int s) (c, m) = Inr (c', m') \<and> lists_ok m' c' (put_list f s (us @ vs) L) \<and>
    null_block c' = null_block c \<and> same_but m m' (\<Union>y \<in> insert (null_block c) (nodes L). links y)"
proof -
  let ?n = "null_block c" and ?h = "control_blocks c ! f ! s"
  note D = lists_okD [OF ok] and S = sep_listsD [OF N]
  define p where "p = last (?n # us)"
  define q where "q = hd (vs @ [?n])"
  define m' where "m' = put_next_free p q (put_prev_free q p m)"
  have dll: "dll m ?n ?n ?h (us @ x # vs)" using D(4) [OF i] x by simp
  have sub: "set (us @ x # vs) \<subseteq> nodes L" using nodesI [of _ L f s] x by auto
  then have dist: "distinct (?n # us @ x # vs)" using S(7) [of f s] x S(6) by auto
  have "insert ?n (set (us @ x # vs)) \<subseteq> N" "\<forall>y \<in> N. y < 2 ^ 63" using S(2,3,5) sub by blast+
  note un = dll_unlink [OF dll S(1) this dist, folded p_def q_def, folded m'_def]
  have pq: "p \<in> insert ?n (set (L f s))" "q \<in> insert ?n (set (L f s))"
    unfolding x p_def q_def by (cases us rule: rev_cases; simp) (cases vs; simp)
  then have pos: "0 < p" "0 < q" using S(2,3,4) sub x by auto
  have sb: "same_but m m' (\<Union>y \<in> insert ?n (set (L f s)). links y)"
    unfolding m'_def by (rule same_but_trans [OF put_same_but(2) put_same_but(1)]) (use pq in blast)
  have sb': "same_but m m' (\<Union>y \<in> insert ?n (nodes L). links y)"
    by (rule same_but_trans [OF sb same_but_refl [of _ "{}"]]) (use sub x in auto)
  have h: "?h = x \<longleftrightarrow> us = []" using dll_head [OF dll] dist by (cases us) auto
  have q: "q = ?n \<longleftrightarrow> vs = []" using dist by (cases vs) (auto simp: q_def)
  have r: "remove_free_block x (int f) (int s) (c, m) = (if us = []
      then res_bind (put_list_head (int f) (int s) q c) (\<lambda>c1.
             if vs = [] then res_bind (clear_bits (int f) (int s) c1) (\<lambda>c2. Inr (c2, m')) else Inr (c1, m'))
      else Inr (c, m'))"
    using pos h q by (simp add: remove_free_block_def un(1,2) list_head_ok [OF ok i] Let_def m'_def)
  have bitx: "bit (sl_bitmap c ! f) s" using D(5) [OF i] x by simp
  note upd = lists_ok_upd [OF ok i N, where B = "set (L f s)" and m' = m', OF _ _ _ _ _ _ sb]
  consider "us \<noteq> []" | "us = []" "vs \<noteq> []" | "us = []" "vs = []" by blast
  then show ?thesis
  proof cases
    case 1
    have "lists_ok m' c (put_list f s (us @ vs) L)"
      by (rule upd [where h = ?h and row = "sl_bitmap c ! f"])
        (use 1 bitx D(1,2,6) un(3) sub S(3) x i in \<open>auto simp: list_update_same_conv\<close>)
    then show ?thesis using 1 r sb' by auto
  next
    case 2
    let ?c = "c\<lparr>control_blocks := (control_blocks c)[f := (control_blocks c ! f)[s := q]]\<rparr>"
    have "lists_ok m' ?c (put_list f s (us @ vs) L)"
      by (rule upd [where h = q and row = "sl_bitmap c ! f"])
        (use 2 bitx D(1,2,6) un(3) sub S(3) x i in \<open>auto simp: list_update_same_conv\<close>)
    then show ?thesis using 2 r sb' list_head_ok(2) [OF ok i] by (intro exI [of _ ?c] exI [of _ m']) simp
  next
    case 3
    let ?c = "c\<lparr>control_blocks := (control_blocks c)[f := (control_blocks c ! f)[s := q]]\<rparr>"
    obtain c' where c': "clear_bits (int f) (int s) ?c = Inr c'" "null_block c' = ?n"
      "control_blocks c' = (control_blocks c)[f := (control_blocks c ! f)[s := q]]"
      "sl_bitmap c' = (sl_bitmap c)[f := sl_bitmap c ! f AND NOT (push_bit s 1)]"
      "\<And>j. bit (fl_bitmap c') j \<longleftrightarrow>
        (if j = f then bit (fl_bitmap c) f \<and> sl_bitmap c ! f AND NOT (push_bit s 1) \<noteq> 0 else bit (fl_bitmap c) j)"
      using clear_bits_ok [OF ok i] by blast
    have "lists_ok m' c' (put_list f s (us @ vs) L)"
    proof (rule upd [OF c'(2-4)])
      show "bit (fl_bitmap c') j \<longleftrightarrow> (if j = f then sl_bitmap c ! f AND NOT (push_bit s 1) \<noteq> 0 else bit (fl_bitmap c) j)" for j
        using c'(5) [of j] bitx D(6) [of f] i by auto
      show "bit (sl_bitmap c ! f AND NOT (push_bit s 1)) j \<longleftrightarrow> (if j = s then us @ vs \<noteq> [] else bit (sl_bitmap c ! f) j)" for j
        unfolding bit_clear using 3 by simp
    qed (use 3 un(3) sub S(3) x in auto)
    then show ?thesis using 3 r c'(1,2) sb' list_head_ok(2) [OF ok i] by auto
  qed
qed

lemma insert_free_block_ok:
  assumes ok: "lists_ok m c L" and N: "sep_lists (null_block c) L N" and i: "f < 25" "s < 32"
    and x: "x \<in> N" "x \<notin> nodes L" "x \<noteq> null_block c" "x mod 8 = 0" "x + 16 < 2 ^ 63"
  shows "\<exists>c' m'. insert_free_block x (int f) (int s) (c, m) = Inr (c', m') \<and> lists_ok m' c' (put_list f s (x # L f s) L) \<and>
    null_block c' = null_block c \<and> same_but m m' (\<Union>y \<in> insert (null_block c) (insert x (nodes L)). links y)"
proof -
  let ?n = "null_block c" and ?h = "control_blocks c ! f ! s"
  note D = lists_okD [OF ok] and S = sep_listsD [OF N]
  define m' where "m' = put_prev_free ?h x (put_prev_free x ?n (put_next_free x ?h m))"
  have sub: "set (L f s) \<subseteq> nodes L" using nodesI [of _ L f s] by auto
  have "insert ?n (insert x (set (L f s))) \<subseteq> N" "\<forall>y \<in> N. y < 2 ^ 63" "distinct (?n # x # L f s)"
    using S(2,3,5,6) S(7) [of f s] sub x by auto
  note dl = dll_link [OF D(4) [OF i] S(1) this, folded m'_def]
  have hn: "?h \<in> insert ?n (set (L f s))" using dll_head [OF D(4) [OF i]] by (cases "L f s") auto
  have sb: "same_but m m' (\<Union>y \<in> insert ?n (insert x (set (L f s))). links y)"
    unfolding m'_def
    by (rule same_but_trans [OF same_but_trans [OF put_same_but(1) put_same_but(2) subset_refl] put_same_but(2)]) (use hn in blast)
  have sb': "same_but m m' (\<Union>y \<in> insert ?n (insert x (nodes L)). links y)"
    by (rule same_but_trans [OF sb same_but_refl [of _ "{}"]]) (use sub in auto)
  let ?c = "c\<lparr>control_blocks := (control_blocks c)[f := (control_blocks c ! f)[s := x]],
    fl_bitmap := fl_bitmap c OR push_bit f 1, sl_bitmap := (sl_bitmap c)[f := sl_bitmap c ! f OR push_bit s 1]\<rparr>"
  have "insert_free_block x (int f) (int s) (c, m) = Inr (?c, m')"
    using S(4) [OF dl(1)] S(4) [OF x(1)] i D(1)
    by (simp add: insert_free_block_def list_head_ok [OF ok i] aligned_block_ok [OF x(4,5)] Let_def m'_def)
  moreover have "lists_ok m' ?c (put_list f s (x # L f s) L)"
  proof (rule lists_ok_upd [OF ok i N, where B = "insert x (set (L f s))", OF _ _ _ _ _ dl(2) sb])
    show "bit (sl_bitmap c ! f OR push_bit s 1) j \<longleftrightarrow> (if j = s then x # L f s \<noteq> [] else bit (sl_bitmap c ! f) j)" for j
      unfolding bit_raise [OF i(2)] by simp
    have ne: "sl_bitmap c ! f OR push_bit s 1 \<noteq> 0" using bit_raise [OF i(2), of "sl_bitmap c ! f" s] by (metis row_nonzero)
    have "bit (fl_bitmap c OR push_bit f 1) j \<longleftrightarrow> j = f \<or> bit (fl_bitmap c) j" for j using i(1) by (intro bit_raise) simp
    then show "bit (fl_bitmap ?c) j \<longleftrightarrow> (if j = f then sl_bitmap c ! f OR push_bit s 1 \<noteq> 0 else bit (fl_bitmap c) j)" for j
      using ne by auto
  qed (use x S(3) sub in auto)
  ultimately show ?thesis using sb' by auto
qed

section \<open>Search\<close>

text \<open>
  The search returns the head of the first non-empty list at or above the given class.
\<close>

definition from_class :: "nat \<times> nat \<Rightarrow> nat \<times> nat \<Rightarrow> bool" where
  "from_class = (\<lambda>(f, s) (f', s'). f < f' \<or> f = f' \<and> s \<le> s')"

lemma bit_from: "s < 32 \<Longrightarrow> bit (w AND push_bit s (NOT 0) :: u32) j \<longleftrightarrow> s \<le> j \<and> bit w j"
  unfolding bit_and_iff bit_push_bit_iff bit_not_iff by (auto dest: bit_imp_le_length)

lemma lowest_from:
  assumes "lowest (w AND push_bit s (NOT 0) :: u32) k" "s < 32"
  shows "ffs (w AND push_bit s (NOT 0)) = int k" "k < 32" "s \<le> k" "bit w k" "\<And>j. s \<le> j \<Longrightarrow> j < k \<Longrightarrow> \<not> bit w j"
  using assms ffs_lowest [OF assms(1)] bit_imp_le_length [of "w AND push_bit s (NOT 0)" k]
  unfolding lowest_def bit_from [OF assms(2)] by auto

lemma search_ok:
  assumes ok: "lists_ok m c L" and i: "f < 25" "s < 32"
  shows "(\<exists>f' s'. search_suitable_block (int f) (int s) c = Inr (control_blocks c ! f' ! s', int f', int s') \<and>
      f' < 25 \<and> s' < 32 \<and> L f' s' \<noteq> [] \<and> from_class (f, s) (f', s') \<and>
      (\<forall>f'' < 25. \<forall>s'' < 32. from_class (f, s) (f'', s'') \<and> L f'' s'' \<noteq> [] \<longrightarrow> from_class (f', s') (f'', s''))) \<or>
    search_suitable_block (int f) (int s) c = Inr (0, int f, int s) \<and>
      (\<forall>f'' < 25. \<forall>s'' < 32. from_class (f, s) (f'', s'') \<longrightarrow> L f'' s'' = [])"
proof -
  note D = lists_okD [OF ok]
  let ?w = "sl_bitmap c ! f AND push_bit s (NOT 0)"
  have found: "res_bind (k_assert (w \<noteq> 0)) (\<lambda>_. let sli = ffs w in res_bind (list_head c (int f') sli)
      (\<lambda>block. Inr (block, int f', sli))) = Inr (control_blocks c ! f' ! s', int f', int s')"
    if "lowest w s'" "f' < 25" for w f' s'
  proof -
    have "s' < 32" using that(1) bit_imp_le_length [of w s'] by (simp add: lowest_def)
    moreover have "w \<noteq> 0" using that(1) by (auto simp: lowest_def)
    ultimately show ?thesis using list_head_ok(1) [OF ok that(2)] by (simp add: ffs_lowest [OF that(1)] Let_def)
  qed
  show ?thesis
  proof (cases "?w = 0")
    case False
    then obtain k where k: "lowest ?w k" using lowest_exists by blast
    note lk = lowest_from [OF k i(2)]
    have "search_suitable_block (int f) (int s) c = Inr (control_blocks c ! f ! k, int f, int k)"
      using i D(1) False found [OF k i(1)] by (simp add: search_suitable_block_def Let_def)
    moreover have "from_class (f, k) (f'', s'')"
      if "f'' < 25" "s'' < 32" "from_class (f, s) (f'', s'')" "L f'' s'' \<noteq> []" for f'' s''
      using that lk(5) [of s''] D(5) [OF that(1,2)] by (force simp: from_class_def)
    moreover have "L f k \<noteq> []" using D(5) [OF i(1) lk(2)] lk(4) by simp
    moreover have "from_class (f, s) (f, k)" using lk(3) by (simp add: from_class_def)
    ultimately show ?thesis using i(1) lk(2) by blast
  next
    case True
    then have none: "L f s'' = []" if "s \<le> s''" "s'' < 32" for s''
      using that bit_from [OF i(2), of "sl_bitmap c ! f" s''] D(5) [OF i(1) that(2)] by simp
    let ?u = "fl_bitmap c AND push_bit (Suc f) (NOT 0)"
    have shf: "shl (NOT 0) (int f + 1) = Inr (push_bit (Suc f) (NOT 0))"
      using i(1) shl_nat [of "Suc f" "NOT 0"] by (simp add: add.commute)
    have f32: "Suc f < 32" using i(1) by simp
    show ?thesis
    proof (cases "?u = 0")
      case u: True
      have "search_suitable_block (int f) (int s) c = Inr (0, int f, int s)"
        using i D(1) True u shf by (simp add: search_suitable_block_def Let_def)
      moreover have "L f'' s'' = []" if "f'' < 25" "s'' < 32" "from_class (f, s) (f'', s'')" for f'' s''
        using that none [of s''] bit_from [OF f32, of "fl_bitmap c" f''] u D(5) [OF that(1,2)] D(6) [of f'']
        by (auto simp: from_class_def)
      ultimately show ?thesis by blast
    next
      case u: False
      then obtain k where k: "lowest ?u k" using lowest_exists by blast
      note lk = lowest_from [OF k f32]
      have k25: "k < 25" "sl_bitmap c ! k \<noteq> 0" using D(6) [of k] lk(4) by auto
      then obtain j where j: "lowest (sl_bitmap c ! k) j" using lowest_exists by blast
      have j32: "j < 32" "bit (sl_bitmap c ! k) j" using j bit_imp_le_length [of "sl_bitmap c ! k" j] by (auto simp: lowest_def)
      have "search_suitable_block (int f) (int s) c = Inr (control_blocks c ! k ! j, int k, int j)"
        using i D(1) True u shf k25(1) found [OF j k25(1)] lk(1) by (simp add: search_suitable_block_def Let_def)
      moreover have "from_class (k, j) (f'', s'')"
        if a: "f'' < 25" "s'' < 32" "from_class (f, s) (f'', s'')" "L f'' s'' \<noteq> []" for f'' s''
      proof -
        have "f < f''" using a none [of s''] by (auto simp: from_class_def)
        moreover have "bit (fl_bitmap c) f''" using D(5) [OF a(1,2)] D(6) [of f''] a by auto
        ultimately have "k \<le> f''" using lk(5) [of f''] by (meson Suc_leI not_le)
        moreover have "j \<le> s''" if "k = f''" using that j D(5) [OF a(1,2)] a(4) by (auto simp: lowest_def not_less [symmetric])
        ultimately show ?thesis by (auto simp: from_class_def)
      qed
      moreover have "L k j \<noteq> []" using D(5) [OF k25(1) j32(1)] j32(2) by simp
      moreover have "from_class (f, s) (k, j)" using lk(3) by (simp add: from_class_def)
      ultimately show ?thesis using k25(1) j32(1) by blast
    qed
  qed
qed

end
