(* ===== verification/Tlsf_Pool.thy ===== *)
theory Tlsf_Pool
  imports Tlsf_Control
begin

text \<open>
  The invariant that ties the free lists of the TLSF control structure to the blocks of the pool, and its preservation by the
  operations of \<open>control.cpp\<close>. Within an operation a free block may be in no list: such blocks are the set \<open>X\<close> of the invariant.
\<close>

section \<open>Addresses of blocks\<close>

fun blocks_at :: "nat \<Rightarrow> pool_block list \<Rightarrow> (nat \<times> nat \<times> u8 list option) list" where
  "blocks_at b [] = []"
| "blocks_at b ((s, k) # bs) = (b, s, k) # blocks_at (b + 8 + s) bs"

definition free_set :: "nat \<Rightarrow> pool_block list \<Rightarrow> (nat \<times> nat) set" where
  "free_set b bs = {(x, s). (x, s, None) \<in> set (blocks_at b bs)}"

lemma blocks_at_append [simp]: "blocks_at b (xs @ ys) = blocks_at b xs @ blocks_at (end_of b xs) ys"
  by (induction xs arbitrary: b) auto

lemma free_set_simps [simp]:
  "free_set b [] = {}" "free_set b ((s, None) # bs) = insert (b, s) (free_set (b + 8 + s) bs)"
  "free_set b ((s, Some d) # bs) = free_set (b + 8 + s) bs" "free_set b (xs @ ys) = free_set b xs \<union> free_set (end_of b xs) ys"
  by (auto simp: free_set_def)

lemma blocks_at_range: "(x, s, k) \<in> set (blocks_at b bs) \<Longrightarrow> b \<le> x \<and> x + 8 + s \<le> end_of b bs"
proof (induction bs arbitrary: b)
  case (Cons y bs)
  obtain t l where y: "y = (t, l)" by fastforce
  from Cons.prems consider "x = b" "s = t" | "(x, s, k) \<in> set (blocks_at (b + 8 + t) bs)" by (auto simp: y)
  then show ?case
  proof cases
    case 1
    then show ?thesis using end_of_le [of "b + 8 + t" bs] by (simp add: y)
  next
    case 2
    then show ?thesis using Cons.IH [OF 2] by (simp add: y)
  qed
qed simp

lemma blocks_at_apart:
  "(x, s, k) \<in> set (blocks_at b bs) \<Longrightarrow> (y, t, l) \<in> set (blocks_at b bs) \<Longrightarrow>
   x = y \<and> s = t \<and> k = l \<or> x + 8 + s \<le> y \<or> y + 8 + t \<le> x"
proof (induction bs arbitrary: b)
  case (Cons z bs)
  obtain u j where z: "z = (u, j)" by fastforce
  have r: "b + 8 + u \<le> v" if "(v, w, i) \<in> set (blocks_at (b + 8 + u) bs)" for v w i
    using blocks_at_range [OF that] by simp
  show ?case using Cons.prems Cons.IH [of "b + 8 + u"] r by (auto simp: z)
qed simp

lemma blocks_at_split:
  "(x, s, k) \<in> set (blocks_at b bs) \<Longrightarrow> \<exists>xs ys. bs = xs @ (s, k) # ys \<and> end_of b xs = x"
proof (induction bs arbitrary: b)
  case (Cons z bs)
  obtain u j where z: "z = (u, j)" by fastforce
  from Cons.prems consider "x = b" "s = u" "k = j" | "(x, s, k) \<in> set (blocks_at (b + 8 + u) bs)" by (auto simp: z)
  then show ?case
  proof cases
    case 1
    then show ?thesis by (intro exI [of _ "[]"] exI [of _ bs]) (simp add: z)
  next
    case 2
    with Cons.IH obtain xs ys where "bs = xs @ (s, k) # ys" "end_of (b + 8 + u) xs = x" by blast
    then show ?thesis by (intro exI [of _ "(u, j) # xs"] exI [of _ ys]) (simp add: z)
  qed
qed simp

lemma good_blocks_at: "good_blocks bs \<Longrightarrow> (x, s, k) \<in> set (blocks_at b bs) \<Longrightarrow> good_size s \<and> 24 \<le> s"
  by (induction bs arbitrary: b) auto

lemma end_of_mod: "good_blocks bs \<Longrightarrow> b mod 8 = 0 \<Longrightarrow> end_of b bs mod 8 = 0"
proof (induction bs arbitrary: b)
  case (Cons z bs)
  obtain u j where z: "z = (u, j)" by fastforce
  have "u mod 8 = 0" "b mod 8 = 0" using Cons.prems by (simp_all add: z good_size_def)
  then have "(b + 8 + u) mod 8 = 0" by presburger
  then show ?case using Cons by (simp add: z)
qed simp

text \<open>The links of free blocks are outside everything that a segment describes.\<close>

lemma seg_links:
  assumes "same_but m m' A" "\<forall>a \<in> A. a < b \<or> (\<exists>y z. (y, z) \<in> free_set b bs \<and> 24 \<le> z \<and> a \<in> links y)"
  shows "seg m' b pf p bs = seg m b pf p bs"
  using assms(2)
proof (induction bs arbitrary: b pf p)
  case (Cons z bs)
  obtain s k where z: "z = (s, k)" by fastforce
  have far: "b + 8 + s \<le> y" if "(y, w) \<in> free_set (b + 8 + s) bs" for y w
    using that blocks_at_range [of y w None] by (fastforce simp: free_set_def)
  have A: "a < b \<or> b + 24 + s \<le> a \<or> k = None \<and> 24 \<le> s \<and> a \<in> links b" if "a \<in> A" for a
    using bspec [OF Cons.prems that] by (cases k) (auto simp: z links_def dest: far)
  have 1: "load64 (b + 8) m' = load64 (b + 8) m" "load64 b m' = load64 b m"
    by (rule same_but_load [OF assms(1)]; use A in \<open>force simp: links_def\<close>)+
  have 2: "mem_read (b + 16) s m' = mem_read (b + 16) s m" if "k = Some d" for d
    by (rule same_but_read [OF assms(1)]) (use A that in force)
  have 3: "seg m' (b + 8 + s) (k = None) b bs = seg m (b + 8 + s) (k = None) b bs"
  proof (rule Cons.IH, rule ballI)
    fix a assume "a \<in> A"
    then show "a < b + 8 + s \<or> (\<exists>y w. (y, w) \<in> free_set (b + 8 + s) bs \<and> 24 \<le> w \<and> a \<in> links y)"
      using bspec [OF Cons.prems, of a] by (cases k) (auto simp: z links_def)
  qed
  show ?case using 2 by (auto simp: z 1 3)
qed simp

section \<open>Size classes\<close>

definition cls :: "nat \<Rightarrow> nat \<times> nat" where
  "cls s = map_prod nat nat (mapping_insert (word_of_nat s))"

lemma cls_ok:
  assumes "good_size s"
  shows "mapping_insert (word_of_nat s) = (int (fst (cls s)), int (snd (cls s)))" "fst (cls s) < 25" "snd (cls s) < 32"
proof -
  obtain f t where ft: "mapping_insert (word_of_nat s) = (f, t)" by fastforce
  have "unat (word_of_nat s :: u64) < 2 ^ 31" using good_size_bit(3) [OF assms] assms by (simp add: good_size_def)
  from mapping_insert_range [OF this ft] ft
  show "mapping_insert (word_of_nat s) = (int (fst (cls s)), int (snd (cls s)))" "fst (cls s) < 25" "snd (cls s) < 32"
    by (auto simp: cls_def)
qed

section \<open>The invariant\<close>

text \<open>
  The blocks of the pool start at \<open>b\<close>, after the null block, and take less than two gigabytes; the free ones, except those in \<open>X\<close>, are in
  the lists of their classes.
\<close>

definition listed :: "free_lists \<Rightarrow> (nat \<times> nat) set \<Rightarrow> nat set \<Rightarrow> bool" where
  "listed L F X \<longleftrightarrow> (\<forall>f s. distinct (L f s)) \<and>
     (\<forall>f s x. x \<in> set (L f s) \<longleftrightarrow> x \<notin> X \<and> (\<exists>z. (x, z) \<in> F \<and> cls z = (f, s)))"

definition pool_ok :: "control \<times> memory \<Rightarrow> nat \<Rightarrow> pool_block list \<Rightarrow> nat set \<Rightarrow> free_lists \<Rightarrow> bool" where
  "pool_ok = (\<lambda>(c, m) b bs X L. seg m b False 0 (bs @ [sentinel]) \<and> good_blocks bs \<and> b mod 8 = 0 \<and>
     0 < null_block c \<and> null_block c + 32 \<le> b \<and> end_of b bs < 2 ^ 62 \<and> end_of b bs < b + 2 ^ 31 \<and>
     lists_ok m c L \<and> listed L (free_set b bs) X)"

lemma pool_okD:
  assumes "pool_ok (c, m) b bs X L"
  shows "seg m b False 0 (bs @ [sentinel])" "good_blocks bs" "b mod 8 = 0" "0 < null_block c" "null_block c + 32 \<le> b"
    "end_of b bs < 2 ^ 62" "end_of b bs < b + 2 ^ 31" "lists_ok m c L" "listed L (free_set b bs) X"
  using assms by (simp_all add: pool_ok_def)

lemma free_unique: "(x, z) \<in> free_set b bs \<Longrightarrow> (x, w) \<in> free_set b bs \<Longrightarrow> z = w"
  using blocks_at_apart [of x z None b bs x w None] by (auto simp: free_set_def)

definition block_addrs :: "nat \<Rightarrow> pool_block list \<Rightarrow> nat set" where
  "block_addrs b bs = fst ` set (blocks_at b bs)"

lemma pool_sep:
  assumes "pool_ok (c, m) b bs X L"
  shows "sep_lists (null_block c) L (insert (null_block c) (block_addrs b bs))"
proof -
  note D = pool_okD [OF assms]
  have mem: "b \<le> x \<and> x + 32 \<le> end_of b bs" if "(x, s, k) \<in> set (blocks_at b bs)" for x s k
    using blocks_at_range [OF that] good_blocks_at [OF D(2) that] by auto
  have sub: "nodes L \<subseteq> fst ` free_set b bs" using D(9) unfolding listed_def nodes_def by force
  have fs: "fst ` free_set b bs \<subseteq> block_addrs b bs" by (force simp: free_set_def block_addrs_def)
  show ?thesis unfolding sep_lists_def
  proof (intro conjI)
    show "apart (insert (null_block c) (block_addrs b bs))" unfolding apart_def
    proof (intro ballI impI)
      fix x y assume x: "x \<in> insert (null_block c) (block_addrs b bs)" and y: "y \<in> insert (null_block c) (block_addrs b bs)" and "x \<noteq> y"
      have n: "null_block c + 32 \<le> z" if "z \<in> block_addrs b bs" for z using that mem D(5) by (force simp: block_addrs_def)
      show "x + 32 \<le> y \<or> y + 32 \<le> x"
      proof (cases "x = null_block c \<or> y = null_block c")
        case True
        then show ?thesis using x y n \<open>x \<noteq> y\<close> by auto
      next
        case False
        then obtain s k t l where xy: "(x, s, k) \<in> set (blocks_at b bs)" "(y, t, l) \<in> set (blocks_at b bs)"
          using x y by (auto simp: block_addrs_def)
        then show ?thesis
          using blocks_at_apart [OF xy] good_blocks_at [OF D(2) xy(1)] good_blocks_at [OF D(2) xy(2)] \<open>x \<noteq> y\<close> by auto
      qed
    qed
    show "insert (null_block c) (nodes L) \<subseteq> insert (null_block c) (block_addrs b bs)" using sub fs by auto
    show "\<forall>y \<in> insert (null_block c) (block_addrs b bs). 0 < y \<and> y < 2 ^ 63"
      using mem D(4-6) end_of_le [of b bs] by (force simp: block_addrs_def)
    show "null_block c \<notin> nodes L" using sub mem D(5) by (force simp: free_set_def)
    show "\<forall>f s. distinct (L f s)" using D(9) by (simp add: listed_def)
    show "\<forall>x f s f' s'. x \<in> set (L f s) \<longrightarrow> x \<in> set (L f' s') \<longrightarrow> f = f' \<and> s = s'"
      using D(9) unfolding listed_def by (metis free_unique prod.inject)
  qed
qed

lemma pool_links_frame:
  assumes P: "pool_ok (c, m) b bs X L" and sb: "same_but m m' (\<Union>y \<in> insert (null_block c) Y. links y)" and Y: "Y \<subseteq> fst ` free_set b bs"
  shows "seg m' b False 0 (bs @ [sentinel])"
proof -
  note D = pool_okD [OF P]
  have "seg m' b False 0 (bs @ [sentinel]) = seg m b False 0 (bs @ [sentinel])"
  proof (rule seg_links [OF sb], rule ballI)
    fix a assume "a \<in> (\<Union>y \<in> insert (null_block c) Y. links y)"
    then consider "a \<in> links (null_block c)" | y where "y \<in> Y" "a \<in> links y" by blast
    then show "a < b \<or> (\<exists>y z. (y, z) \<in> free_set b (bs @ [sentinel]) \<and> 24 \<le> z \<and> a \<in> links y)"
    proof cases
      case 1
      then show ?thesis using D(5) by (simp add: links_def)
    next
      case 2
      then obtain z where z: "(y, z) \<in> free_set b bs" using Y by auto
      then have "24 \<le> z" using good_blocks_at [OF D(2)] by (force simp: free_set_def)
      then show ?thesis using z 2(2) by auto
    qed
  qed
  then show ?thesis using D(1) by simp
qed

lemma pool_nodes: "pool_ok (c, m) b bs X L \<Longrightarrow> nodes L \<subseteq> fst ` free_set b bs"
  using pool_okD(9) unfolding listed_def nodes_def by force

lemma listedD:
  assumes "listed L F X"
  shows "distinct (L f s)" "x \<in> set (L f s) \<longleftrightarrow> x \<notin> X \<and> (\<exists>z. (x, z) \<in> F \<and> cls z = (f, s))"
  using assms unfolding listed_def by blast+

lemma listed_remove:
  assumes "listed L F X" "L f s = us @ x # vs" and un: "\<And>z w. (x, z) \<in> F \<Longrightarrow> (x, w) \<in> F \<Longrightarrow> z = w"
  shows "listed (put_list f s (us @ vs) L) F (insert x X)"
proof -
  note D = listedD [OF assms(1)]
  have d: "distinct (us @ x # vs)" using D(1) [of f s] assms(2) by simp
  obtain z where x: "x \<notin> X" "(x, z) \<in> F" "cls z = (f, s)" using D(2) [of x f s] assms(2) by auto
  show ?thesis unfolding listed_def
  proof (intro conjI allI)
    show "distinct (put_list f s (us @ vs) L f' s')" for f' s' using d D(1) by (simp add: put_list_if)
    show "y \<in> set (put_list f s (us @ vs) L f' s') \<longleftrightarrow> y \<notin> insert x X \<and> (\<exists>z. (y, z) \<in> F \<and> cls z = (f', s'))" for f' s' y
    proof (cases "f' = f \<and> s' = s")
      case True
      then have "y \<in> set (put_list f s (us @ vs) L f' s') \<longleftrightarrow> y \<noteq> x \<and> y \<in> set (L f s)"
        using d assms(2) by (auto simp: put_list_if)
      then show ?thesis using D(2) [of y f s] True by auto
    next
      case False
      then have "y \<in> set (put_list f s (us @ vs) L f' s') \<longleftrightarrow> y \<in> set (L f' s')" by (auto simp: put_list_if)
      moreover have "y \<noteq> x" if "y \<in> set (L f' s')" using that D(2) [of y f' s'] x False by (auto dest: un [OF x(2)])
      ultimately show ?thesis using D(2) [of y f' s'] by auto
    qed
  qed
qed

lemma listed_insert:
  assumes "listed L F X" "(x, z) \<in> F" "cls z = (f, s)" "x \<in> X" and un: "\<And>z w. (x, z) \<in> F \<Longrightarrow> (x, w) \<in> F \<Longrightarrow> z = w"
  shows "listed (put_list f s (x # L f s) L) F (X - {x})"
proof -
  note D = listedD [OF assms(1)]
  show ?thesis unfolding listed_def
  proof (intro conjI allI)
    show "distinct (put_list f s (x # L f s) L f' s')" for f' s' using D assms(4) by (simp add: put_list_if)
    show "y \<in> set (put_list f s (x # L f s) L f' s') \<longleftrightarrow> y \<notin> X - {x} \<and> (\<exists>z. (y, z) \<in> F \<and> cls z = (f', s'))" for f' s' y
    proof (cases "y = x")
      case True
      then show ?thesis using D(2) [of x f' s'] assms(2-4) by (auto simp: put_list_if dest: un [OF assms(2)])
    next
      case False
      then have "y \<in> set (put_list f s (x # L f s) L f' s') \<longleftrightarrow> y \<in> set (L f' s')" by (auto simp: put_list_if)
      then show ?thesis using D(2) [of y f' s'] False by auto
    qed
  qed
qed

section \<open>Taking and returning free blocks\<close>

lemma block_of_free:
  assumes "pool_ok (c, m) b bs X L" "(x, z) \<in> free_set b bs"
  shows "good_size z" "24 \<le> z" "b \<le> x" "x + 8 + z \<le> end_of b bs" "x mod 8 = 0" "block_size x m = word_of_nat z"
    "x \<in> block_addrs b bs" "x \<noteq> null_block c" "0 < x" "x < 2 ^ 62" "is_free x m"
proof -
  note D = pool_okD [OF assms(1)]
  have mem: "(x, z, None) \<in> set (blocks_at b bs)" using assms(2) by (simp add: free_set_def)
  show g: "good_size z" "24 \<le> z" "b \<le> x" "x + 8 + z \<le> end_of b bs"
    using blocks_at_range [OF mem] good_blocks_at [OF D(2) mem] by auto
  then show "x < 2 ^ 62" using D(6) by simp
  show "x \<in> block_addrs b bs" using mem by (force simp: block_addrs_def)
  show "x \<noteq> null_block c" "0 < x" using g(3) D(4,5) by auto
  obtain xs ys where xs: "bs = xs @ (z, None) # ys" "end_of b xs = x" using blocks_at_split [OF mem] by blast
  show "x mod 8 = 0" using end_of_mod [of xs b] D(2,3) xs by simp
  have "seg m b False 0 (xs @ (z, None) # ys @ [sentinel])" using D(1) xs(1) by simp
  then obtain pf where "load64 (x + 8) m = hdr z True pf" using xs(2) by (auto elim!: seg_midE)
  then show "block_size x m = word_of_nat z" "is_free x m" using block_hdr(1,2) g(1) by auto
qed

lemma remove_free_pool:
  assumes P: "pool_ok (c, m) b bs X L" and x: "(x, z) \<in> free_set b bs" "x \<notin> X"
  shows "\<exists>c' m' L'. remove_free_block x (int (fst (cls z))) (int (snd (cls z))) (c, m) = Inr (c', m') \<and>
    pool_ok (c', m') b bs (insert x X) L' \<and> null_block c' = null_block c"
proof -
  note D = pool_okD [OF P] and B = block_of_free [OF P x(1)]
  let ?f = "fst (cls z)" and ?s = "snd (cls z)"
  have "x \<in> set (L ?f ?s)" using listedD(2) [OF D(9)] x by force
  then obtain us vs where L: "L ?f ?s = us @ x # vs" by (meson split_list)
  from remove_free_block_ok [OF D(8) pool_sep [OF P] cls_ok(2,3) [OF B(1)] this]
  obtain c' m' where r: "remove_free_block x (int ?f) (int ?s) (c, m) = Inr (c', m')"
    "lists_ok m' c' (put_list ?f ?s (us @ vs) L)" "null_block c' = null_block c"
    "same_but m m' (\<Union>y \<in> insert (null_block c) (nodes L). links y)" by blast
  have "pool_ok (c', m') b bs (insert x X) (put_list ?f ?s (us @ vs) L)"
    using pool_links_frame [OF P r(4) pool_nodes [OF P]] D(2-7) r(2,3) listed_remove [OF D(9) L free_unique]
    by (simp add: pool_ok_def)
  then show ?thesis using r(1,3) by blast
qed

lemma remove_pool:
  assumes P: "pool_ok (c, m) b bs X L" and x: "(x, z) \<in> free_set b bs" "x \<notin> X"
  shows "\<exists>c' m' L'. remove_block x (c, m) = Inr (c', m') \<and> pool_ok (c', m') b bs (insert x X) L' \<and> null_block c' = null_block c"
  using remove_free_pool [OF assms] cls_ok(1) [OF block_of_free(1) [OF P x(1)]]
  by (simp add: remove_block_def block_of_free(6) [OF P x(1)])

lemma insert_pool:
  assumes P: "pool_ok (c, m) b bs X L" and x: "(x, z) \<in> free_set b bs" "x \<in> X"
  shows "\<exists>c' m' L'. insert_block x (c, m) = Inr (c', m') \<and> pool_ok (c', m') b bs (X - {x}) L' \<and> null_block c' = null_block c"
proof -
  note D = pool_okD [OF P] and B = block_of_free [OF P x(1)]
  let ?f = "fst (cls z)" and ?s = "snd (cls z)"
  have N: "x \<in> insert (null_block c) (block_addrs b bs)" "x \<notin> nodes L" "x + 16 < 2 ^ 63"
    using B(7,10) x(2) listedD(2) [OF D(9)] by (auto simp: nodes_def)
  from insert_free_block_ok [OF D(8) pool_sep [OF P] cls_ok(2,3) [OF B(1)] N(1,2) B(8,5) N(3)]
  obtain c' m' where r: "insert_free_block x (int ?f) (int ?s) (c, m) = Inr (c', m')"
    "lists_ok m' c' (put_list ?f ?s (x # L ?f ?s) L)" "null_block c' = null_block c"
    "same_but m m' (\<Union>y \<in> insert (null_block c) (insert x (nodes L)). links y)" by blast
  have "insert x (nodes L) \<subseteq> fst ` free_set b bs" using pool_nodes [OF P] x(1) by force
  from pool_links_frame [OF P r(4) this] have "pool_ok (c', m') b bs (X - {x}) (put_list ?f ?s (x # L ?f ?s) L)"
    using D(2-7) r(2,3) listed_insert [OF D(9) x(1) _ x(2) free_unique, of ?f ?s] by (simp add: pool_ok_def)
  then show ?thesis using r(1,3) cls_ok(1) [OF B(1)] by (auto simp: insert_block_def B(6))
qed

text \<open>
  The search finds a free block that is large enough, or every free block is smaller than the request rounded up to the
  next class.
\<close>

lemma locate_pool:
  assumes P: "pool_ok (c, m) b bs X L" and z: "good_size z" "0 < z" "z < 2 ^ 30"
  shows "(\<exists>x s c' m' L'. locate_free_block (word_of_nat z) (c, m) = Inr (x, c', m') \<and> (x, s) \<in> free_set b bs \<and> x \<notin> X \<and> z \<le> s \<and>
      pool_ok (c', m') b bs (insert x X) L' \<and> null_block c' = null_block c) \<or>
    locate_free_block (word_of_nat z) (c, m) = Inr (0, c, m) \<and> (\<forall>(x, s) \<in> free_set b bs. x \<notin> X \<longrightarrow> s < z + z div 32)"
proof -
  note D = pool_okD [OF P] and u = good_size_bit(3) [OF z(1)]
  have wz: "word_of_nat z \<noteq> (0 :: u64)" using u z(2) by (metis less_irrefl unat_0)
  have uz: "unat (word_of_nat z :: u64) < 2 ^ 30" using u z(3) by simp
  obtain t where t: "mapping_search (word_of_nat z) = mapping_insert t" "unat t \<le> z + z div 32" "unat t < 2 ^ 31"
    using search_target [OF uz] u by metis
  obtain f0 s0 where fs: "mapping_search (word_of_nat z) = (f0, s0)" by fastforce
  define f s where "f = nat f0" and "s = nat s0"
  have i: "f0 = int f" "s0 = int s" "f < 25" "s < 32"
    using mapping_insert_range [OF t(3), of f0 s0] fs t(1) by (auto simp: f_def s_def)
  have loc: "locate_free_block (word_of_nat z) (c, m) = res_bind (search_suitable_block (int f) (int s) c)
      (\<lambda>(block, fli, sli). if block \<noteq> 0
        then res_bind (k_assert (word_of_nat z \<le> block_size block m)) (\<lambda>_.
             res_bind (remove_free_block block fli sli (c, m)) (\<lambda>s. Inr (block, s)))
        else Inr (0, c, m))"
    using wz i fs by (simp add: locate_free_block_def k_fl_index_count_def)
  from search_ok [OF D(8) i(3,4)] consider
    (found) f' s' where "search_suitable_block (int f) (int s) c = Inr (control_blocks c ! f' ! s', int f', int s')"
      "f' < 25" "s' < 32" "L f' s' \<noteq> []" "from_class (f, s) (f', s')"
  | (none) "search_suitable_block (int f) (int s) c = Inr (0, int f, int s)"
      "\<forall>f'' < 25. \<forall>s'' < 32. from_class (f, s) (f'', s'') \<longrightarrow> L f'' s'' = []" by blast
  then show ?thesis
  proof cases
    case found
    define x where "x = control_blocks c ! f' ! s'"
    have xL: "x \<in> set (L f' s')"
      using dll_head [OF lists_okD(4) [OF D(8) found(2,3)]] found(4) by (cases "L f' s'") (auto simp: x_def)
    then obtain w where w: "x \<notin> X" "(x, w) \<in> free_set b bs" "cls w = (f', s')" using listedD(2) [OF D(9)] by blast
    note B = block_of_free [OF P w(2)]
    note uw = good_size_bit(3) [OF B(1)] and cw = cls_ok(1) [OF B(1), unfolded w(3), simplified]
    have "z \<le> w"
    proof -
      have "unat (word_of_nat w :: u64) < 2 ^ 31" "z mod 8 = 0" "w mod 8 = 0"
        using uw B(1) z(1) unfolding good_size_def by auto
      from mapping_search_fits [OF uz this(1) _ _ fs cw] this(2,3) show ?thesis
        using found(5) i(1,2) u uw by (auto simp: from_class_def)
    qed
    then have "word_of_nat z \<le> block_size x m" by (simp add: B(6) word_le_nat_alt u uw)
    moreover from remove_free_pool [OF P w(2,1)] w(3) obtain c' m' L' where
      "remove_free_block x (int f') (int s') (c, m) = Inr (c', m')" "pool_ok (c', m') b bs (insert x X) L'" "null_block c' = null_block c"
      by auto
    moreover have "0 < x" by (rule B(9))
    ultimately show ?thesis using loc found(1) w \<open>z \<le> w\<close> unfolding x_def [symmetric] by auto
  next
    case none
    have "w < z + z div 32" if w: "(x, w) \<in> free_set b bs" "x \<notin> X" for x w
    proof (rule ccontr)
      assume "\<not> w < z + z div 32"
      then have tw: "unat t \<le> w" using t(2) by simp
      note B = block_of_free [OF P w(1)]
      note uw = good_size_bit(3) [OF B(1)]
      have "f0 < int (fst (cls w)) \<or> f0 = int (fst (cls w)) \<and> s0 \<le> int (snd (cls w))"
        by (rule class_mono [of t "word_of_nat w"]) (use tw uw B(1) t(1) fs cls_ok(1) [OF B(1)] in \<open>auto simp: good_size_def\<close>)
      then have "from_class (f, s) (fst (cls w), snd (cls w))" using i(1,2) by (auto simp: from_class_def)
      then have "L (fst (cls w)) (snd (cls w)) = []" using none(2) cls_ok(2,3) [OF B(1)] by blast
      then show False using listedD(2) [OF D(9), of x "fst (cls w)" "snd (cls w)"] w by auto
    qed
    then show ?thesis using loc none(1) by auto
  qed
qed

section \<open>Operations on neighbours\<close>

text \<open>A change of the blocks that leaves the listed ones alone.\<close>

lemma pool_step:
  assumes P: "pool_ok (c, m) b bs X L" and S: "seg m' b False 0 (bs' @ [sentinel])" and sb: "same_but m m' A"
    and g: "good_blocks bs'" "end_of b bs' = end_of b bs"
    and F: "\<And>x z. x \<notin> X' \<and> (x, z) \<in> free_set b bs' \<longleftrightarrow> x \<notin> X \<and> (x, z) \<in> free_set b bs"
    and A: "\<And>x z a. (x, z) \<in> free_set b bs \<Longrightarrow> x \<notin> X \<Longrightarrow> a \<in> A \<Longrightarrow> a \<notin> links x" "A \<subseteq> {b..}"
  shows "pool_ok (c, m') b bs' X' L"
proof -
  note D = pool_okD [OF P]
  have "dll m' (null_block c) (null_block c) (control_blocks c ! f ! s) (L f s)" if "f < 25" "s < 32" for f s
  proof -
    have "links x \<inter> A = {}" if "x \<in> set (L f s)" for x using that listedD(2) [OF D(9)] A(1) by blast
    then show ?thesis using lists_okD(4) [OF D(8) that] dll_frame [OF sb] by simp
  qed
  then have "lists_ok m' c L" using D(8) unfolding lists_ok_def by blast
  moreover have "listed L (free_set b bs') X'" using D(9) F unfolding listed_def by metis
  ultimately show ?thesis using S g D(3-7) by (simp add: pool_ok_def)
qed

lemma free_set_range: "(x, z) \<in> free_set b bs \<Longrightarrow> b \<le> x \<and> x + 8 + z \<le> end_of b bs"
  using blocks_at_range [of x z None] by (simp add: free_set_def)

lemma pool_replace:
  assumes P: "pool_ok (c, m) b (xs @ us @ ys) X L" and S: "seg m' b False 0 (xs @ us' @ ys @ [sentinel])"
    and sb: "same_but m m' A" "A \<subseteq> {end_of b xs + 8..<end_of (end_of b xs) us + 16}"
    and us': "good_blocks us'" "end_of (end_of b xs) us' = end_of (end_of b xs) us"
    and X: "fst ` free_set (end_of b xs) us \<subseteq> X" "fst ` free_set (end_of b xs) us' \<subseteq> X'"
      "\<And>y. y < end_of b xs \<or> end_of (end_of b xs) us \<le> y \<Longrightarrow> y \<in> X' \<longleftrightarrow> y \<in> X"
  shows "pool_ok (c, m') b (xs @ us' @ ys) X' L"
proof (rule pool_step [OF P _ sb(1)])
  let ?x = "end_of b xs" and ?e = "end_of (end_of b xs) us"
  note D = pool_okD [OF P]
  show "seg m' b False 0 ((xs @ us' @ ys) @ [sentinel])" using S by simp
  show "good_blocks (xs @ us' @ ys)" "end_of b (xs @ us' @ ys) = end_of b (xs @ us @ ys)" using D(2) us' by auto
  have out: "y \<in> X' \<longleftrightarrow> y \<in> X" if "(y, z) \<in> free_set b xs \<or> (y, z) \<in> free_set ?e ys" for y z
    using that free_set_range [of y z] by (intro X(3)) fastforce
  show "x \<notin> X' \<and> (x, z) \<in> free_set b (xs @ us' @ ys) \<longleftrightarrow> x \<notin> X \<and> (x, z) \<in> free_set b (xs @ us @ ys)" for x z
    using X(1,2) out [of x z] us'(2) by force
  show "a \<notin> links y" if "(y, z) \<in> free_set b (xs @ us @ ys)" "y \<notin> X" "a \<in> A" for y z a
  proof -
    have a: "?x + 8 \<le> a" "a < ?e + 16" using that(3) sb(2) by auto
    have "24 \<le> z" using that(1) good_blocks_at [OF D(2)] by (force simp: free_set_def)
    moreover have "(y, z) \<in> free_set b xs \<or> (y, z) \<in> free_set ?e ys" using that(1,2) X(1) by force
    then have "y + 8 + z \<le> ?x \<or> ?e \<le> y" using free_set_range by blast
    ultimately show ?thesis using a by (auto simp: links_def)
  qed
  show "A \<subseteq> {b..}" using sb(2) end_of_le [of b xs] by force
qed

lemma next_of: "good_blocks ys \<Longrightarrow> \<exists>s k zs. ys @ [sentinel] = (s, k) # zs \<and> good_next s zs"
  by (cases ys) (auto simp: good_next_def good_size_def)

lemma pool_sizes:
  assumes "pool_ok (c, m) b (xs @ (s, k) # ys) X L"
  shows "good_size s" "24 \<le> s" "good_blocks ys" "end_of b xs mod 8 = 0" "end_of b xs + 16 + s < 2 ^ 63"
    "0 < end_of b xs" "b \<le> end_of b xs" "end_of b xs + 8 + s < b + 2 ^ 31"
proof -
  note D = pool_okD [OF assms]
  have "end_of b xs + 8 + s \<le> end_of b (xs @ (s, k) # ys)" by (simp add: end_of_le)
  moreover have "b \<le> end_of b xs" by (rule end_of_le)
  ultimately show "good_size s" "24 \<le> s" "good_blocks ys" "end_of b xs mod 8 = 0" "end_of b xs + 16 + s < 2 ^ 63"
    "0 < end_of b xs" "b \<le> end_of b xs" "end_of b xs + 8 + s < b + 2 ^ 31"
    using D end_of_mod [of xs b] by auto
qed

lemma mark_free_pool:
  assumes P: "pool_ok (c, m) b (xs @ (s, k) # ys) X L" and k: "k \<noteq> None \<or> end_of b xs \<in> X"
  shows "\<exists>m'. mark_as_free (end_of b xs) m = Inr m' \<and> pool_ok (c, m') b (xs @ (s, None) # ys) (insert (end_of b xs) X) L"
proof -
  note G = pool_sizes [OF P]
  obtain s2 k2 zs where n: "ys @ [sentinel] = (s2, k2) # zs" "good_next s2 zs" using next_of [OF G(3)] by blast
  have S: "seg m b False 0 (xs @ (s, k) # (s2, k2) # zs)" using pool_okD(1) [OF P] n(1) by simp
  obtain m' where m': "mark_as_free (end_of b xs) m = Inr m'" "seg m' b False 0 (xs @ (s, None) # (s2, k2) # zs)"
    "same_but m m' ({end_of b xs + 8..<end_of b xs + 16} \<union> {end_of b xs + 8 + s..<end_of b xs + 24 + s})"
    using seg_mark_free [OF S G(1) _ n(2)] G(2) by auto
  have "pool_ok (c, m') b (xs @ [(s, None)] @ ys) (insert (end_of b xs) X) L"
  proof (rule pool_replace [where us = "[(s, k)]", OF _ _ m'(3)])
    show "fst ` free_set (end_of b xs) [(s, k)] \<subseteq> X" using k by (cases k) auto
  qed (use P m'(2) n(1) G in auto)
  then show ?thesis using m'(1) by auto
qed

lemma mark_used_pool:
  assumes P: "pool_ok (c, m) b (xs @ (s, None) # ys) X L" and x: "end_of b xs \<in> X"
  shows "\<exists>m' d. mark_as_used (end_of b xs) m = Inr m' \<and> pool_ok (c, m') b (xs @ (s, Some d) # ys) (X - {end_of b xs}) L"
proof -
  note G = pool_sizes [OF P]
  obtain s2 k2 zs where n: "ys @ [sentinel] = (s2, k2) # zs" "good_next s2 zs" using next_of [OF G(3)] by blast
  have S: "seg m b False 0 (xs @ (s, None) # (s2, k2) # zs)" using pool_okD(1) [OF P] n(1) by simp
  obtain m' d where m': "mark_as_used (end_of b xs) m = Inr m'" "seg m' b False 0 (xs @ (s, Some d) # (s2, k2) # zs)"
    "same_but m m' ({end_of b xs + 8..<end_of b xs + 16} \<union> {end_of b xs + 16 + s..<end_of b xs + 24 + s})"
    using seg_mark_used [OF S G(1) _ n(2)] G(2) by auto
  have "pool_ok (c, m') b (xs @ [(s, Some d)] @ ys) (X - {end_of b xs}) L"
    by (rule pool_replace [where us = "[(s, None)]", OF _ _ m'(3)]) (use P m'(2) n(1) G x in auto)
  then show ?thesis using m'(1) by auto
qed

lemma merged_size:
  assumes "pool_ok (c, m) b (xs @ (s, k) # (s2, k2) # ys) X L"
  shows "good_size (s + 8 + s2)"
proof -
  have "pool_ok (c, m) b ((xs @ [(s, k)]) @ (s2, k2) # ys) X L" using assms by simp
  from pool_sizes [OF assms] pool_sizes [OF this] show ?thesis
    by (auto simp: good_size_def)
qed

lemma absorb_pool:
  assumes P: "pool_ok (c, m) b (xs @ (s, k) # (s2, None) # ys) X L" and x: "end_of b xs + 8 + s \<in> X"
    and k: "k = None \<Longrightarrow> end_of b xs \<in> X"
  shows "\<exists>m'. absorb (end_of b xs) (end_of b xs + 8 + s) m = Inr (end_of b xs, m') \<and>
    (k = None \<longrightarrow> pool_ok (c, m') b (xs @ (s + 8 + s2, None) # ys) (X - {end_of b xs + 8 + s}) L) \<and>
    (\<forall>d. k = Some d \<longrightarrow> (\<exists>m2 e. mark_as_used (end_of b xs) m' = Inr m2 \<and> take s e = d \<and>
      pool_ok (c, m2) b (xs @ (s + 8 + s2, Some e) # ys) (X - {end_of b xs + 8 + s}) L))"
proof -
  let ?x = "end_of b xs"
  note G = pool_sizes [OF P] and g = merged_size [OF P]
  have ys: "good_size s2" "24 \<le> s2" "good_blocks ys" using G(3) by auto
  obtain s3 k3 zs where n: "ys @ [sentinel] = (s3, k3) # zs" "good_next s3 zs" using next_of [OF ys(3)] by blast
  have S: "seg m b False 0 (xs @ (s, k) # (s2, None) # (s3, k3) # zs)" using pool_okD(1) [OF P] n(1) by simp
  have s: "8 \<le> s" "8 \<le> s2" using G(2) ys(2) by auto
  obtain m' where m': "absorb ?x (?x + 8 + s) m = Inr (?x, m')"
    "same_but m m' ({?x + 8..<?x + 16} \<union> {?x + 16 + s + s2..<?x + 24 + s + s2})"
    "k = None \<longrightarrow> seg m' b False 0 (xs @ (s + 8 + s2, None) # (s3, k3) # zs)"
    "\<forall>d. k = Some d \<longrightarrow> (\<exists>m2. mark_as_used ?x m' = Inr m2 \<and>
      same_but m m2 ({?x + 8..<?x + 16} \<union> {?x + 16 + s + s2..<?x + 32 + s + s2}) \<and>
      seg m2 b False 0 (xs @ (s + 8 + s2, Some (mem_read (?x + 16) (s + 8 + s2) m2)) # (s3, k3) # zs) \<and>
      take s (mem_read (?x + 16) (s + 8 + s2) m2) = d)"
    using seg_absorb [OF S G(1) ys(1) s g n(2)] by blast
  have free: "pool_ok (c, m') b (xs @ [(s + 8 + s2, None)] @ ys) (X - {?x + 8 + s}) L" if "k = None"
    by (rule pool_replace [where us = "[(s, k), (s2, None)]", OF _ _ m'(2)])
      (use P m'(3) n(1) g x k G ys that in auto)
  have used: "pool_ok (c, m2) b (xs @ [(s + 8 + s2, Some e)] @ ys) (X - {?x + 8 + s}) L"
    if "k = Some d" "same_but m m2 ({?x + 8..<?x + 16} \<union> {?x + 16 + s + s2..<?x + 32 + s + s2})"
      "seg m2 b False 0 (xs @ (s + 8 + s2, Some e) # (s3, k3) # zs)" for d m2 e
    by (rule pool_replace [where us = "[(s, k), (s2, None)]", OF _ _ that(2)])
      (use P that n(1) g x G ys in auto)
  show ?thesis
  proof (rule exI [of _ m'], intro conjI allI impI)
    show "absorb ?x (?x + 8 + s) m = Inr (?x, m')" by (rule m'(1))
    show "pool_ok (c, m') b (xs @ (s + 8 + s2, None) # ys) (X - {?x + 8 + s}) L" if "k = None" using free [OF that] by simp
    fix d assume d: "k = Some d"
    obtain m2 where "mark_as_used ?x m' = Inr m2"
      "same_but m m2 ({?x + 8..<?x + 16} \<union> {?x + 16 + s + s2..<?x + 32 + s + s2})"
      "seg m2 b False 0 (xs @ (s + 8 + s2, Some (mem_read (?x + 16) (s + 8 + s2) m2)) # (s3, k3) # zs)"
      "take s (mem_read (?x + 16) (s + 8 + s2) m2) = d" using m'(4) d by blast
    with used [OF d this(2,3)] show "\<exists>m2 e. mark_as_used ?x m' = Inr m2 \<and> take s e = d \<and>
      pool_ok (c, m2) b (xs @ (s + 8 + s2, Some e) # ys) (X - {?x + 8 + s}) L" by auto
  qed
qed

lemma split_pool:
  assumes P: "pool_ok (c, m) b (xs @ (s, k) # ys) X L" and z: "good_size z" "24 \<le> z" "z + 32 \<le> s"
  defines "x \<equiv> end_of b xs"
  defines "r \<equiv> x + 8 + z"
  shows "\<exists>m3. split_block x (word_of_nat z) m = Inr (r, m3) \<and>
    (k = None \<and> x \<in> X \<longrightarrow> (\<exists>m4. link_next x m3 = Inr (r, m4) \<and>
        pool_ok (c, set_prev_free r m4) b (xs @ (z, None) # (s - (z + 8), None) # ys) (insert r X) L) \<and>
      (\<exists>m4. link_next x (set_prev_free r m3) = Inr (r, m4) \<and>
        pool_ok (c, m4) b (xs @ (z, None) # (s - (z + 8), None) # ys) (insert r X) L)) \<and>
    (\<forall>d. k = Some d \<longrightarrow>
      pool_ok (c, set_prev_used r m3) b (xs @ (z, Some (take z d)) # (s - (z + 8), None) # ys) (insert r X) L)"
proof -
  note G = pool_sizes [OF P]
  obtain s2 k2 zs where n: "ys @ [sentinel] = (s2, k2) # zs" "good_next s2 zs" using next_of [OF G(3)] by blast
  have S: "seg m b False 0 (xs @ (s, k) # (s2, k2) # zs)" using pool_okD(1) [OF P] n(1) by simp
  define A where "A = {x + 8..<x + 16} \<union> {r..<r + 16} \<union> {x + 8 + s..<x + 24 + s}"
  have z8: "8 \<le> z" using z(2) by simp
  note sp = seg_split [OF S G(1) z(1) n(2) z8 z(3) G(4,5), folded x_def, folded r_def, folded A_def]
  have rest: "good_size (s - (z + 8))" "24 \<le> s - (z + 8)" using G(1) z unfolding good_size_def by (presburger, simp)
  have A: "A \<subseteq> {end_of b xs + 8..<end_of (end_of b xs) [(s, k)] + 16}" using z by (auto simp: A_def r_def x_def)
  have new: "pool_ok (c, m') b (xs @ [(z, k'), (s - (z + 8), None)] @ ys) (insert r X) L"
    if "seg m' b False 0 (xs @ (z, k') # (s - (z + 8), None) # (s2, k2) # zs)" "same_but m m' A"
      "k = None \<Longrightarrow> x \<in> X" "k' = None \<Longrightarrow> x \<in> X" for m' k'
  proof (rule pool_replace [where us = "[(s, k)]", OF _ _ that(2) A])
    show "fst ` free_set (end_of b xs) [(s, k)] \<subseteq> X" using that(3) by (cases k) (auto simp: x_def)
    show "fst ` free_set (end_of b xs) [(z, k'), (s - (z + 8), None)] \<subseteq> insert r X"
      using that(4) by (cases k') (auto simp: x_def r_def)
    show "y \<in> insert r X \<longleftrightarrow> y \<in> X" if "y < end_of b xs \<or> end_of (end_of b xs) [(s, k)] \<le> y" for y
      using that z by (auto simp: x_def r_def)
  qed (use P that(1) n(1) z rest in auto)
  from sp obtain m3 where m3: "split_block x (word_of_nat z) m = Inr (r, m3)"
    "k = None \<longrightarrow> (\<exists>m4. link_next x m3 = Inr (r, m4) \<and>
        seg (set_prev_free r m4) b False 0 (xs @ (z, None) # (s - (z + 8), None) # (s2, k2) # zs) \<and>
        same_but m (set_prev_free r m4) A) \<and>
      (\<exists>m4. link_next x (set_prev_free r m3) = Inr (r, m4) \<and>
        seg m4 b False 0 (xs @ (z, None) # (s - (z + 8), None) # (s2, k2) # zs) \<and> same_but m m4 A)"
    "\<forall>d. k = Some d \<longrightarrow>
      seg (set_prev_used r m3) b False 0 (xs @ (z, Some (take z d)) # (s - (z + 8), None) # (s2, k2) # zs) \<and>
      same_but m (set_prev_used r m3) A" by blast
  show ?thesis
  proof (rule exI [of _ m3], intro conjI allI impI)
    show "split_block x (word_of_nat z) m = Inr (r, m3)" by (rule m3(1))
    show "\<exists>m4. link_next x m3 = Inr (r, m4) \<and>
        pool_ok (c, set_prev_free r m4) b (xs @ (z, None) # (s - (z + 8), None) # ys) (insert r X) L" if "k = None \<and> x \<in> X"
      using m3(2) that new [of "set_prev_free r _" None] by auto
    show "\<exists>m4. link_next x (set_prev_free r m3) = Inr (r, m4) \<and>
        pool_ok (c, m4) b (xs @ (z, None) # (s - (z + 8), None) # ys) (insert r X) L" if "k = None \<and> x \<in> X"
      using m3(2) that new [of _ None] by auto
    show "pool_ok (c, set_prev_used r m3) b (xs @ (z, Some (take z d)) # (s - (z + 8), None) # ys) (insert r X) L" if "k = Some d" for d
      using m3(3) that new [of "set_prev_used r m3" "Some (take z d)"] by auto
  qed
qed

section \<open>Merging\<close>

text \<open>The abstract pool: a free block joins the free block after it, and the free block before it.\<close>

fun cons_free :: "nat \<Rightarrow> pool_block list \<Rightarrow> pool_block list" where
  "cons_free s ((s2, None) # ys) = (s + 8 + s2, None) # ys"
| "cons_free s ys = (s, None) # ys"

lemma last_of_snoc [simp]: "last_of pf p b (xs @ [(s, k)]) = (k = None, end_of b xs)"
  by (induction xs arbitrary: pf p b) auto

lemma pool_block:
  assumes P: "pool_ok (c, m) b (xs @ (s, k) # ys) X L"
  shows "block_size (end_of b xs) m = word_of_nat s" "is_free (end_of b xs) m \<longleftrightarrow> k = None" "\<not> is_last (end_of b xs) m"
    "get_next (end_of b xs) m = Inr (end_of b xs + 8 + s)" "is_prev_free (end_of b xs) m \<longleftrightarrow> fst (last_of False 0 b xs)"
    "fst (last_of False 0 b xs) \<Longrightarrow> load64 (end_of b xs) m = word_of_nat (snd (last_of False 0 b xs))"
    "t < 2 ^ 32 \<Longrightarrow> can_split (end_of b xs) (word_of_nat t) m \<longleftrightarrow> 32 + t \<le> s"
proof -
  note G = pool_sizes [OF P]
  have "seg m b False 0 (xs @ (s, k) # ys @ [sentinel])" using pool_okD(1) [OF P] by simp
  then obtain pf1 p1 where h: "last_of False 0 b xs = (pf1, p1)" "load64 (end_of b xs + 8) m = hdr s (k = None) pf1"
    "pf1 \<longrightarrow> load64 (end_of b xs) m = word_of_nat p1" by (rule seg_midE)
  show "block_size (end_of b xs) m = word_of_nat s" "is_free (end_of b xs) m \<longleftrightarrow> k = None"
    "\<not> is_last (end_of b xs) m" "is_prev_free (end_of b xs) m \<longleftrightarrow> fst (last_of False 0 b xs)"
    "t < 2 ^ 32 \<Longrightarrow> can_split (end_of b xs) (word_of_nat t) m \<longleftrightarrow> 32 + t \<le> s"
    using block_hdr [OF h(2) G(1)] G(2) h(1) by auto
  show "get_next (end_of b xs) m = Inr (end_of b xs + 8 + s)" using block_next(1) [OF h(2) G(1)] G(2) by simp
  show "fst (last_of False 0 b xs) \<Longrightarrow> load64 (end_of b xs) m = word_of_nat (snd (last_of False 0 b xs))" using h by simp
qed

lemma next_free_flag:
  assumes P: "pool_ok (c, m) b (xs @ (s, k) # ys) X L"
  shows "is_free (end_of b xs + 8 + s) m \<longleftrightarrow> (\<exists>s2 zs. ys = (s2, None) # zs)"
proof (cases ys)
  case Nil
  have "seg m b False 0 ((xs @ [(s, k)]) @ [sentinel])" using pool_okD(1) [OF P] Nil by simp
  then obtain pf where "load64 (end_of b (xs @ [(s, k)]) + 8) m = hdr 0 False pf" by (elim seg_midE) auto
  then have "is_free (end_of b (xs @ [(s, k)])) m = False" by (rule block_hdr(2)) (simp add: good_size_def)
  then show ?thesis using Nil by simp
next
  case (Cons y zs)
  obtain s2 k2 where y: "y = (s2, k2)" by fastforce
  have "pool_ok (c, m) b ((xs @ [(s, k)]) @ (s2, k2) # zs) X L" using P Cons y by simp
  from pool_block(2) [OF this] show ?thesis using Cons y by auto
qed

lemma merge_prev_free:
  assumes P: "pool_ok (c, m) b (xs @ (s0, None) # (s, None) # ys) {end_of b xs + 8 + s0} L"
  shows "\<exists>c' m' L'. merge_prev (end_of b xs + 8 + s0) (c, m) = Inr (end_of b xs, c', m') \<and>
    pool_ok (c', m') b (xs @ (s0 + 8 + s, None) # ys) {end_of b xs} L' \<and> null_block c' = null_block c"
proof -
  let ?x = "end_of b xs"
  have P2: "pool_ok (c, m) b ((xs @ [(s0, None)]) @ (s, None) # ys) {?x + 8 + s0} L" using P by simp
  note G = pool_sizes [OF P] and B = pool_block [OF P2]
  have x: "?x < 2 ^ 64" using G(5) by simp
  then have pv: "is_prev_free (?x + 8 + s0) m" "get_prev (?x + 8 + s0) m = Inr ?x"
    using B(5,6) by (simp_all add: get_prev_def prev_physical_def unat_word_of_nat)
  have "(?x, s0) \<in> free_set b (xs @ (s0, None) # (s, None) # ys)" "?x \<notin> {?x + 8 + s0}" by auto
  from remove_pool [OF P this] obtain c1 m1 L1 where r: "remove_block ?x (c, m) = Inr (c1, m1)"
    "pool_ok (c1, m1) b (xs @ (s0, None) # (s, None) # ys) (insert ?x {?x + 8 + s0}) L1" "null_block c1 = null_block c" by blast
  from absorb_pool [OF r(2)] obtain m2 where "absorb ?x (?x + 8 + s0) m1 = Inr (?x, m2)"
    "pool_ok (c1, m2) b (xs @ (s0 + 8 + s, None) # ys) (insert ?x {?x + 8 + s0} - {?x + 8 + s0}) L1" by auto
  moreover have "insert ?x {?x + 8 + s0} - {?x + 8 + s0} = {?x}" by auto
  ultimately show ?thesis using pv G(6) pool_block(2) [OF P] r(1,3) by (auto simp: merge_prev_def)
qed

lemma merge_prev_used:
  assumes P: "pool_ok (c, m) b (xs @ (s, k) # ys) X L" and "xs = [] \<or> snd (last xs) \<noteq> None"
  shows "merge_prev (end_of b xs) (c, m) = Inr (end_of b xs, c, m)"
proof -
  have "\<not> fst (last_of False 0 b xs)" using assms(2) by (cases xs rule: rev_cases) auto
  then show ?thesis using pool_block(5) [OF P] by (simp add: merge_prev_def)
qed

lemma merge_next_pool:
  assumes P: "pool_ok (c, m) b (xs @ (s, None) # ys) {end_of b xs} L"
  shows "\<exists>c' m' L'. merge_next (end_of b xs) (c, m) = Inr (end_of b xs, c', m') \<and>
    pool_ok (c', m') b (xs @ cons_free s ys) {end_of b xs} L' \<and> null_block c' = null_block c"
proof (cases "\<exists>s2 zs. ys = (s2, None) # zs")
  case True
  then obtain s2 zs where ys: "ys = (s2, None) # zs" by blast
  let ?x = "end_of b xs"
  note Q = P [unfolded ys]
  note B = pool_block [OF Q]
  have "(?x + 8 + s, s2) \<in> free_set b (xs @ (s, None) # (s2, None) # zs)" "?x + 8 + s \<notin> {?x}" by auto
  from remove_pool [OF Q this] obtain c1 m1 L1 where r: "remove_block (?x + 8 + s) (c, m) = Inr (c1, m1)"
    "pool_ok (c1, m1) b (xs @ (s, None) # (s2, None) # zs) (insert (?x + 8 + s) {?x}) L1" "null_block c1 = null_block c" by blast
  from absorb_pool [OF r(2)] obtain m2 where "absorb ?x (?x + 8 + s) m1 = Inr (?x, m2)"
    "pool_ok (c1, m2) b (xs @ (s + 8 + s2, None) # zs) (insert (?x + 8 + s) {?x} - {?x + 8 + s}) L1" by auto
  moreover have "insert (?x + 8 + s) {?x} - {?x + 8 + s} = {?x}" by auto
  ultimately show ?thesis using B r(1,3) next_free_flag [OF Q] ys by (auto simp: merge_next_def)
next
  case False
  then have "cons_free s ys = (s, None) # ys" by (cases "(s, ys)" rule: cons_free.cases) auto
  moreover have "merge_next (end_of b xs) (c, m) = Inr (end_of b xs, c, m)"
    using False pool_block(4) [OF P] next_free_flag [OF P] by (simp add: merge_next_def)
  ultimately show ?thesis using P by auto
qed

lemma merge_next_used:
  assumes P: "pool_ok (c, m) b (xs @ (s, Some d) # (s2, None) # ys) {} L"
  shows "\<exists>c' m1 m2 e L'. merge_next (end_of b xs) (c, m) = Inr (end_of b xs, c', m1) \<and> mark_as_used (end_of b xs) m1 = Inr m2 \<and>
    pool_ok (c', m2) b (xs @ (s + 8 + s2, Some e) # ys) {} L' \<and> null_block c' = null_block c \<and> take s e = d"
proof -
  let ?x = "end_of b xs"
  note B = pool_block [OF P]
  have "(?x + 8 + s, s2) \<in> free_set b (xs @ (s, Some d) # (s2, None) # ys)" "?x + 8 + s \<notin> {}" by auto
  from remove_pool [OF P this] obtain c1 m1 L1 where r: "remove_block (?x + 8 + s) (c, m) = Inr (c1, m1)"
    "pool_ok (c1, m1) b (xs @ (s, Some d) # (s2, None) # ys) {?x + 8 + s} L1" "null_block c1 = null_block c" by blast
  from absorb_pool [OF r(2)] obtain m2 m3 e where "absorb ?x (?x + 8 + s) m1 = Inr (?x, m2)"
    "mark_as_used ?x m2 = Inr m3" "take s e = d" "pool_ok (c1, m3) b (xs @ (s + 8 + s2, Some e) # ys) {} L1" by auto
  then show ?thesis using B r(1,3) next_free_flag [OF P] by (auto simp: merge_next_def)
qed

section \<open>Trimming\<close>

text \<open>A block of \<open>s\<close> bytes from which \<open>z\<close> are needed.\<close>

definition trim :: "nat \<Rightarrow> nat \<Rightarrow> u8 list option \<Rightarrow> pool_block list" where
  "trim s z k = (if z + 32 \<le> s then [(z, k), (s - (z + 8), None)] else [(s, k)])"

lemma small_word: "good_size z \<Longrightarrow> z < 2 ^ 32"
  by (simp add: good_size_def)

lemma trim_free_pool:
  assumes P: "pool_ok (c, m) b (xs @ (s, None) # ys) {end_of b xs} L" and z: "good_size z" "24 \<le> z"
  shows "\<exists>c' m' L'. trim_free (end_of b xs) (word_of_nat z) (c, m) = Inr (c', m') \<and>
    pool_ok (c', m') b (xs @ trim s z None @ ys) {end_of b xs} L' \<and> null_block c' = null_block c"
proof (cases "z + 32 \<le> s")
  case True
  let ?x = "end_of b xs" and ?t = "s - (z + 8)"
  let ?r = "?x + 8 + z"
  from split_pool [OF P z True] obtain m3 m4 where m: "split_block ?x (word_of_nat z) m = Inr (?r, m3)" "link_next ?x m3 = Inr (?r, m4)"
    "pool_ok (c, set_prev_free ?r m4) b (xs @ (z, None) # (?t, None) # ys) (insert ?r {?x}) L" by auto
  have "(?r, ?t) \<in> free_set b (xs @ (z, None) # (?t, None) # ys)" "?r \<in> insert ?r {?x}" by auto
  from insert_pool [OF m(3) this] obtain c' m' L' where
    "insert_block ?r (c, set_prev_free ?r m4) = Inr (c', m')" "null_block c' = null_block c"
    "pool_ok (c', m') b (xs @ (z, None) # (?t, None) # ys) (insert ?r {?x} - {?r}) L'" by blast
  moreover have "insert ?r {?x} - {?r} = {?x}" by auto
  ultimately show ?thesis using m(1,2) True pool_block(2,7) [OF P] small_word [OF z(1)] by (auto simp: trim_free_def trim_def)
next
  case False
  then show ?thesis using P pool_block(2,7) [OF P] small_word [OF z(1)] by (auto simp: trim_free_def trim_def)
qed

lemma trim_leading_pool:
  assumes P: "pool_ok (c, m) b (xs @ (s, None) # ys) {end_of b xs} L" and g: "good_size g" "32 \<le> g" "g + 32 \<le> s"
  shows "\<exists>c' m' L'. trim_free_leading (end_of b xs) (word_of_nat g) (c, m) = Inr (end_of b xs + g, c', m') \<and>
    pool_ok (c', m') b (xs @ (g - 8, None) # (s - g, None) # ys) {end_of b xs + g} L' \<and> null_block c' = null_block c"
proof -
  let ?x = "end_of b xs" and ?z = "g - 8"
  have z: "good_size ?z" "24 \<le> ?z" "?z + 32 \<le> s" using g unfolding good_size_def by (presburger, simp, simp)
  have e: "?x + 8 + ?z = ?x + g" "s - (?z + 8) = s - g" "word_of_nat g - k_block_header_overhead = (word_of_nat ?z :: u64)"
    using g(2) word_diff_of_nat [of 8 g, where 'a = 64] by (simp_all add: block_consts)
  from split_pool [OF P z] obtain m3 m4 where m: "split_block ?x (word_of_nat ?z) m = Inr (?x + g, m3)"
    "link_next ?x (set_prev_free (?x + g) m3) = Inr (?x + g, m4)"
    "pool_ok (c, m4) b (xs @ (?z, None) # (s - g, None) # ys) (insert (?x + g) {?x}) L" unfolding e by auto
  have "(?x, ?z) \<in> free_set b (xs @ (?z, None) # (s - g, None) # ys)" "?x \<in> insert (?x + g) {?x}" by auto
  from insert_pool [OF m(3) this] obtain c' m' L' where
    "insert_block ?x (c, m4) = Inr (c', m')" "null_block c' = null_block c"
    "pool_ok (c', m') b (xs @ (?z, None) # (s - g, None) # ys) (insert (?x + g) {?x} - {?x}) L'" by blast
  moreover have "insert (?x + g) {?x} - {?x} = {?x + g}" using g(2) by auto
  ultimately show ?thesis using m(1,2) g pool_block(7) [OF P] small_word [OF g(1)] e(3)
    by (auto simp: trim_free_leading_def)
qed

lemma trim_used_pool:
  assumes P: "pool_ok (c, m) b (xs @ (s, Some d) # ys) {} L" and z: "good_size z" "24 \<le> z"
  shows "\<exists>c' m' L'. trim_used (end_of b xs) (word_of_nat z) (c, m) = Inr (c', m') \<and> null_block c' = null_block c \<and>
    pool_ok (c', m') b (if z + 32 \<le> s then xs @ (z, Some (take z d)) # cons_free (s - (z + 8)) ys else xs @ (s, Some d) # ys) {} L'"
proof (cases "z + 32 \<le> s")
  case True
  let ?x = "end_of b xs" and ?t = "s - (z + 8)"
  let ?r = "?x + 8 + z" and ?xs = "xs @ [(z, Some (take z d))]"
  from split_pool [OF P z True] obtain m3 where m: "split_block ?x (word_of_nat z) m = Inr (?r, m3)"
    "pool_ok (c, set_prev_used ?r m3) b (xs @ (z, Some (take z d)) # (?t, None) # ys) {?r} L" by auto
  have r: "end_of b ?xs = ?r" by simp
  have "pool_ok (c, set_prev_used ?r m3) b (?xs @ (?t, None) # ys) {end_of b ?xs} L" using m(2) by simp
  from merge_next_pool [OF this] obtain c1 m1 L1 where n: "merge_next ?r (c, set_prev_used ?r m3) = Inr (?r, c1, m1)"
    "pool_ok (c1, m1) b (?xs @ cons_free ?t ys) {?r} L1" "null_block c1 = null_block c" unfolding r by blast
  obtain t' where "(?r, t') \<in> free_set b (?xs @ cons_free ?t ys)"
    by (cases "(?t, ys)" rule: cons_free.cases) auto
  from insert_pool [OF n(2) this] obtain c' m' L' where
    "insert_block ?r (c1, m1) = Inr (c', m')" "null_block c' = null_block c1" "pool_ok (c', m') b (?xs @ cons_free ?t ys) {} L'" by auto
  then show ?thesis using m(1) n(1,3) True pool_block(2,7) [OF P] small_word [OF z(1)] by (auto simp: trim_used_def)
next
  case False
  then show ?thesis using P pool_block(2,7) [OF P] small_word [OF z(1)] by (auto simp: trim_used_def)
qed

lemma prepare_used_pool:
  assumes P: "pool_ok (c, m) b (xs @ (s, None) # ys) {end_of b xs} L" and z: "good_size z" "24 \<le> z"
  shows "\<exists>c' m' L' d. prepare_used (end_of b xs) (word_of_nat z) (c, m) = Inr (end_of b xs + 16, c', m') \<and>
    pool_ok (c', m') b (xs @ trim s z (Some d) @ ys) {} L' \<and> null_block c' = null_block c"
proof -
  let ?x = "end_of b xs"
  obtain c1 m1 L1 where t: "trim_free ?x (word_of_nat z) (c, m) = Inr (c1, m1)"
    "pool_ok (c1, m1) b (xs @ trim s z None @ ys) {?x} L1" "null_block c1 = null_block c" using trim_free_pool [OF assms] by blast
  obtain s' zs where tr: "trim s z k = (s', k) # zs" for k by (cases "z + 32 \<le> s") (auto simp: trim_def)
  have "pool_ok (c1, m1) b (xs @ (s', None) # zs @ ys) {?x} L1" using t(2) tr [of None] by simp
  from mark_used_pool [OF this] obtain m2 d where "mark_as_used ?x m1 = Inr m2"
    and d: "pool_ok (c1, m2) b (xs @ trim s z (Some d) @ ys) {} L1" unfolding tr by auto
  moreover have "word_of_nat z \<noteq> (0 :: u64)" using good_size_bit(3) [OF z(1)] z(2) by (metis not_numeral_le_zero unat_0)
  moreover have "0 < ?x" by (rule pool_sizes(6) [OF P])
  ultimately have "prepare_used ?x (word_of_nat z) (c, m) = Inr (?x + 16, c1, m2)"
    using t(1) by (simp add: prepare_used_def to_void_ptr_def block_consts)
  then show ?thesis using d t(3) by blast
qed

end
