(* ===== verification/Tlsf_Allocator.thy ===== *)
theory Tlsf_Allocator
  imports Tlsf_Pool
begin

text \<open>
  \<open>kb::memory::TLSFAllocator\<close> (\<open>memory/allocator/tlsf_allocator.h\<close>, \<open>tlsf_allocator.cpp\<close>): construction on a slab of a heap area,
  allocation with and without a stricter alignment, reallocation and deallocation. The abstract specification is the list of blocks of
  the pool with the bytes of the used ones.
\<close>

unbundle bit_operations_syntax

section \<open>The allocator\<close>

record tlsf_allocator =
  control :: control
  tlsf_pool :: nat
  tlsf_pool_size :: u64
  tlsf_used_size :: u64

definition k_pool_overhead :: u64 where
  "k_pool_overhead = 2 * k_block_header_overhead"

text \<open>The null block, the bitmaps and the heads of the lists.\<close>

definition sizeof_control :: u64 where
  "sizeof_control = 32 + 4 + 25 * 4 + 25 * 32 * 8"

definition adjust_request_size :: "u64 \<Rightarrow> u64 \<Rightarrow> fault + u64" where
  "adjust_request_size sz alignment =
     (if sz \<noteq> 0
      then res_bind (align_up sz alignment) (\<lambda>aligned.
           Inr (if aligned < k_block_size_max then max aligned k_block_size_min else 0))
      else Inr 0)"

definition create_pool :: "nat \<Rightarrow> u64 \<Rightarrow> control \<times> memory \<Rightarrow> fault + control \<times> memory" where
  "create_pool pool sz = (\<lambda>(c, m).
     res_bind (k_assert ((word_of_nat pool :: u64) mod k_align_size = 0)) (\<lambda>_.
     res_bind (align_down (sz - k_pool_overhead) k_align_size) (\<lambda>pool_bytes.
     res_bind (k_assert (k_block_size_min \<le> pool_bytes \<and> pool_bytes \<le> k_block_size_max)) (\<lambda>_.
     let block = offset_to_block pool (- sint k_block_header_overhead);
         m1 = set_prev_used block (set_free block (set_size block pool_bytes m))
     in res_bind (insert_block block (c, m1)) (\<lambda>(c', m2).
        res_bind (link_next block m2) (\<lambda>(next, m3).
        Inr (c', set_prev_free next (set_used next (set_size next 0 m3)))))))))"

definition new_tlsf_allocator ::
  "u64 \<Rightarrow> string \<Rightarrow> heap_area \<times> memory \<Rightarrow> fault + tlsf_allocator \<times> heap_area \<times> memory" where
  "new_tlsf_allocator pool_size name s =
     (let mem_size = sizeof_control + 8 + pool_size
      in res_bind (require_slab mem_size name s) (\<lambda>(rng, ha, m).
         case new_control (unat (fst rng)) m of (c, m1) \<Rightarrow>
         let pad_begin = fst rng + sizeof_control
         in res_bind (alignment_padding pad_begin k_align_size) (\<lambda>padding.
            let pool_begin = pad_begin + padding;
                m2 = mem_fill (unat pad_begin) (unat padding) k_alignment_padding_mark m1
            in res_bind (create_pool (unat pool_begin) pool_size (c, m2)) (\<lambda>(c', m3).
               Inr (\<lparr>control = c', tlsf_pool = unat pool_begin, tlsf_pool_size = pool_size, tlsf_used_size = 0\<rparr>, ha, m3)))))"

definition gap_for :: "u64 \<Rightarrow> u64 \<Rightarrow> u64 \<Rightarrow> fault + u64" where
  "gap_for ptr alignment user_offset =
     res_bind (align_ptr (ptr + user_offset) alignment) (\<lambda>aligned.
     let gap = aligned - ptr - user_offset
     in if gap \<noteq> 0 \<and> gap < sizeof_block_header
        then (let gap_remain = sizeof_block_header - gap;
                  offset = max gap_remain alignment;
                  next_aligned = aligned + offset
              in res_bind (align_ptr next_aligned alignment) (\<lambda>aligned'. Inr (aligned' - ptr - user_offset)))
        else Inr gap)"

definition allocate_aligned ::
  "u64 \<Rightarrow> u64 \<Rightarrow> u64 \<Rightarrow> tlsf_allocator \<times> memory \<Rightarrow> fault + nat \<times> tlsf_allocator \<times> memory" where
  "allocate_aligned sz alignment user_offset = (\<lambda>(a, m).
     res_bind (k_assert (user_offset \<le> alignment)) (\<lambda>_.
     res_bind (adjust_request_size sz k_align_size) (\<lambda>adjust.
     res_bind (adjust_request_size (adjust + alignment + sizeof_block_header) alignment) (\<lambda>size_with_gap.
     let aligned_size = (if adjust \<noteq> 0 \<and> (k_align_size < alignment \<or> user_offset \<noteq> 0) then size_with_gap else adjust)
     in res_bind (locate_free_block aligned_size (control a, m)) (\<lambda>(block, c, m1).
        if block \<noteq> 0
        then res_bind (gap_for (word_of_nat (to_void_ptr block)) alignment user_offset) (\<lambda>gap.
             res_bind (if gap \<noteq> 0
                       then res_bind (k_assert (sizeof_block_header \<le> gap)) (\<lambda>_. trim_free_leading block gap (c, m1))
                       else Inr (block, c, m1)) (\<lambda>(block', s).
             res_bind (prepare_used block' adjust s) (\<lambda>(ret, c', m').
             Inr (ret, a\<lparr>control := c', tlsf_used_size := tlsf_used_size a + block_size block' m'\<rparr>, m'))))
        else Inr (0, a\<lparr>control := c\<rparr>, m1))))))"

definition tlsf_allocate ::
  "u64 \<Rightarrow> u64 \<Rightarrow> u64 \<Rightarrow> tlsf_allocator \<times> memory \<Rightarrow> fault + u64 \<times> tlsf_allocator \<times> memory" where
  "tlsf_allocate sz alignment user_offset = (\<lambda>(a, m).
     res_bind
       (if k_align_size < alignment then allocate_aligned sz alignment user_offset (a, m)
        else res_bind (adjust_request_size sz k_align_size) (\<lambda>adjust.
             res_bind (locate_free_block adjust (control a, m)) (\<lambda>(block, s).
             res_bind (prepare_used block adjust s) (\<lambda>(ptr, c, m').
             if ptr \<noteq> 0
             then Inr (ptr, a\<lparr>control := c, tlsf_used_size := tlsf_used_size a + block_size block m'\<rparr>, m')
             else Inr (ptr, a\<lparr>control := c\<rparr>, m')))))
       (\<lambda>(ptr, s). res_bind (k_assert (ptr \<noteq> 0)) (\<lambda>_. Inr (word_of_nat ptr, s))))"

definition tlsf_deallocate :: "u64 \<Rightarrow> tlsf_allocator \<times> memory \<Rightarrow> fault + tlsf_allocator \<times> memory" where
  "tlsf_deallocate ptr = (\<lambda>(a, m).
     if ptr \<noteq> 0
     then (let block = from_void_ptr (unat ptr)
           in res_bind (k_assert (\<not> is_free block m)) (\<lambda>_.
              let a1 = a\<lparr>tlsf_used_size := tlsf_used_size a - block_size block m\<rparr>
              in res_bind (mark_as_free block m) (\<lambda>m1.
                 res_bind (merge_prev block (control a1, m1)) (\<lambda>(block1, s1).
                 res_bind (merge_next block1 s1) (\<lambda>(block2, s2).
                 res_bind (insert_block block2 s2) (\<lambda>(c, m').
                 Inr (a1\<lparr>control := c\<rparr>, m')))))))
     else Inr (a, m))"

definition tlsf_reallocate ::
  "u64 \<Rightarrow> u64 \<Rightarrow> u64 \<Rightarrow> u64 \<Rightarrow> tlsf_allocator \<times> memory \<Rightarrow> fault + u64 \<times> tlsf_allocator \<times> memory" where
  "tlsf_reallocate ptr sz alignment offset = (\<lambda>(a, m).
     if sz = 0 \<and> ptr \<noteq> 0 then res_bind (tlsf_deallocate ptr (a, m)) (\<lambda>s. Inr (0, s))
     else if ptr = 0 then tlsf_allocate sz alignment offset (a, m)
     else (let block = from_void_ptr (unat ptr)
           in res_bind (k_assert (\<not> is_free block m)) (\<lambda>_.
              res_bind (get_next block m) (\<lambda>next.
              let cursize = block_size block m;
                  combined = cursize + block_size next m + k_block_header_overhead
              in res_bind (adjust_request_size sz k_align_size) (\<lambda>adjust.
                 if cursize < adjust \<and> (\<not> is_free next m \<or> combined < adjust)
                 then res_bind (tlsf_allocate sz alignment offset (a, m)) (\<lambda>(newptr, a1, m1).
                      if newptr \<noteq> 0
                      then res_bind (tlsf_deallocate ptr
                             (a1, mem_write (unat newptr) (mem_read (unat ptr) (unat (min cursize sz)) m1) m1)) (\<lambda>s. Inr (newptr, s))
                      else Inr (newptr, a1, m1))
                 else res_bind
                        (if cursize < adjust
                         then res_bind (merge_next block (control a, m)) (\<lambda>(_, c, m1).
                              res_bind (mark_as_used block m1) (\<lambda>m2. Inr (c, m2)))
                         else Inr (control a, m)) (\<lambda>s.
                      res_bind (trim_used block adjust s) (\<lambda>(c', m').
                      Inr (ptr, a\<lparr>control := c', tlsf_used_size := tlsf_used_size a + (block_size block m' - cursize)\<rparr>, m'))))))))"

section \<open>Requests\<close>

lemma word_of_unat_eq: "unat w = n \<Longrightarrow> w = word_of_nat n" for w :: u64
  by auto

lemma adjust_nat:
  assumes "0 < unat sz" "unat sz + 2 ^ k < 2 ^ 31" "3 \<le> k"
  shows "\<exists>z. adjust_request_size sz (push_bit k 1) = Inr (word_of_nat z) \<and> good_size z \<and> 24 \<le> z \<and> unat sz \<le> z \<and>
    (z = 24 \<or> z < unat sz + 2 ^ k)"
proof -
  have k31: "k < 31"
  proof (rule ccontr)
    assume "\<not> k < 31"
    then have "(2::nat) ^ 31 \<le> 2 ^ k" by (intro power_increasing) auto
    then show False using assms(2) by simp
  qed
  then have "k < 60" "unat sz < 2 ^ 63" using assms(2) by auto
  from align_up_nat [OF this] obtain y where y: "align_up sz (push_bit k 1) = Inr y" "unat y = (unat sz + (2 ^ k - 1)) div 2 ^ k * 2 ^ k"
    by blast
  note r = round_up_bounds [of "unat sz" k, folded y(2)]
  have y31: "unat y < 2 ^ 31" using r(2) assms(2) by simp
  have lt: "y < k_block_size_max" using y31 by (simp add: block_consts word_less_nat_alt)
  define z where "z = max (unat y) 24"
  have "max y k_block_size_min = word_of_nat z"
    by (rule word_of_unat_eq) (simp add: z_def block_consts max_def word_le_nat_alt)
  then have "adjust_request_size sz (push_bit k 1) = Inr (word_of_nat z)"
    using y(1) lt assms(1) by (auto simp: adjust_request_size_def)
  moreover have "unat y mod 8 = 0"
  proof -
    have "(2::nat) ^ k = 2 ^ (k - 3) * 8" using assms(3) power_add [of "2::nat" "k - 3" 3] by simp
    then show ?thesis using r(3) by (metis dvd_triv_right mod_0_imp_dvd dvd_trans mod_eq_0_iff_dvd)
  qed
  then have "good_size z" using y31 by (auto simp: good_size_def z_def max_def)
  ultimately show ?thesis using r(1,2) by (intro exI [of _ z]) (auto simp: z_def max_def)
qed

lemma adjust_8:
  assumes "0 < unat sz" "unat sz < 2 ^ 30"
  shows "\<exists>z. adjust_request_size sz k_align_size = Inr (word_of_nat z) \<and> good_size z \<and> 24 \<le> z \<and> unat sz \<le> z \<and> (z = 24 \<or> z < unat sz + 8)"
  using adjust_nat [of sz 3] assms by (simp add: k_align_size_def)

section \<open>The invariant of the allocator\<close>

definition coalesced :: "pool_block list \<Rightarrow> bool" where
  "coalesced bs \<longleftrightarrow> successively (\<lambda>x y. \<not> (snd x = None \<and> snd y = None)) bs"

definition used_bytes :: "pool_block list \<Rightarrow> nat" where
  "used_bytes bs = sum_list (map (\<lambda>(s, k). if k = None then 0 else s) bs)"

abbreviation pool_start :: "tlsf_allocator \<Rightarrow> nat" where
  "pool_start a \<equiv> tlsf_pool a - 8"

text \<open>The bytes of the single free block of a new pool.\<close>

definition pool_bytes :: "u64 \<Rightarrow> nat" where
  "pool_bytes sz = (unat sz - 16) div 8 * 8"

definition tlsf_inv :: "tlsf_allocator \<times> memory \<Rightarrow> pool_block list \<Rightarrow> bool" where
  "tlsf_inv = (\<lambda>(a, m) bs. (\<exists>L. pool_ok (control a, m) (pool_start a) bs {} L) \<and> coalesced bs \<and>
     unat (tlsf_used_size a) = used_bytes bs \<and> end_of (pool_start a) bs = pool_start a + 8 + pool_bytes (tlsf_pool_size a))"

lemma used_bytes_simps [simp]:
  "used_bytes [] = 0" "used_bytes ((s, None) # bs) = used_bytes bs" "used_bytes ((s, Some d) # bs) = s + used_bytes bs"
  "used_bytes (xs @ ys) = used_bytes xs + used_bytes ys"
  by (simp_all add: used_bytes_def)

lemma used_bytes_le: "b + used_bytes bs \<le> end_of b bs"
proof (induction bs arbitrary: b)
  case (Cons z bs)
  obtain s k where z: "z = (s, k)" by fastforce
  show ?case using Cons [of "b + 8 + s"] by (cases k) (auto simp: z)
qed simp

text \<open>A free block of \<open>s\<close> bytes from which a part of \<open>z\<close> bytes is used, after a gap of \<open>g\<close> bytes.\<close>

definition carve :: "nat \<Rightarrow> nat \<Rightarrow> nat \<Rightarrow> u8 list option \<Rightarrow> pool_block list" where
  "carve g s z k = (if g = 0 then [] else [(g - 8, None)]) @ trim (s - g) z k"

lemma end_of_carve: "(g = 0 \<or> 8 \<le> g) \<Longrightarrow> z + g \<le> s \<Longrightarrow> end_of x (carve g s z k) = x + 8 + s"
  by (auto simp: carve_def trim_def)

lemma coalesced_carve:
  assumes "coalesced (xs @ (s, None) # ys)"
  shows "coalesced (xs @ carve g s z (Some d) @ ys)"
  using assms unfolding coalesced_def carve_def trim_def
  by (cases xs rule: rev_cases; cases ys) (auto simp: successively_append_iff)

section \<open>The alignment gap\<close>

lemma align_ptr_nat:
  assumes "k < 60" "n < 2 ^ 63"
  shows "\<exists>r. align_ptr (word_of_nat n) (push_bit k 1) = Inr (word_of_nat r) \<and> n \<le> r \<and> r < n + 2 ^ k \<and> r mod 2 ^ k = 0 \<and>
    (n mod 2 ^ k = 0 \<longrightarrow> r = n)"
proof -
  have u: "unat (word_of_nat n :: u64) = n" using assms(2) by (intro unat_word_of_nat) simp
  then obtain y where y: "align_up (word_of_nat n) (push_bit k 1) = Inr y" "unat y = (n + (2 ^ k - 1)) div 2 ^ k * 2 ^ k"
    using align_up_nat [OF assms(1), of "word_of_nat n"] assms(2) by auto
  have "y = word_of_nat (unat y)" by simp
  then show ?thesis using y(1) round_up_bounds [of n k, folded y(2)] unfolding align_ptr_eq by metis
qed

text \<open>A first gap that is too small is extended by at least one more alignment step.\<close>

lemma extended_gap:
  fixes A :: nat
  assumes "A = 2 ^ k" "4 \<le> k" "g mod 8 = 0" "0 < g" "g < 32" "g < A" "Y mod A = 0" "F = max (32 - g) A"
    and r: "Y + F \<le> r" "r < Y + F + A" "r mod A = 0" "(Y + F) mod A = 0 \<longrightarrow> r = Y + F"
  shows "32 \<le> g + (r - Y)" "g + (r - Y) \<le> A + 24" "(r - Y) mod 8 = 0"
proof -
  have g: "8 \<le> g" "g \<le> 24" using assms(3-5) by presburger+
  have eight: "A = 8 * 2 ^ (k - 3)" using assms(1,2) power_add [of "2::nat" 3 "k - 3"] by simp
  have "r mod 8 = 0" "Y mod 8 = 0" using assms(7) r(3) unfolding eight
    by (metis dvd_mult_left mod_0_imp_dvd mod_eq_0_iff_dvd)+
  then show "(r - Y) mod 8 = 0" using r(1) by presburger
  show "32 \<le> g + (r - Y)" using r(1) assms(8) by linarith
  show "g + (r - Y) \<le> A + 24"
  proof (cases "32 - g \<le> A")
    case True
    then have "F = A" using assms(8) by simp
    moreover from this have "r = Y + F" using r(4) assms(7) by simp
    ultimately show ?thesis using g by simp
  next
    case False
    have "k = 4"
    proof (rule ccontr)
      assume "k \<noteq> 4"
      then have "(2::nat) ^ 5 \<le> 2 ^ k" using assms(2) by (intro power_increasing) auto
      then show False using False assms(1) by simp
    qed
    then have A: "A = 16" using assms(1) by simp
    then have "g = 8" using g assms(3,6) by presburger
    then have "F = 24" using assms(8) A by simp
    then have "r = Y + 32" using r(1-3) assms(7) A by presburger
    then show ?thesis using \<open>g = 8\<close> A by simp
  qed
qed

lemma gap_nat:
  assumes k: "4 \<le> k" "k < 30" and p: "p mod 8 = 0" "p < 2 ^ 62" and off: "O' \<le> 2 ^ k" "O' mod 8 = 0"
  shows "\<exists>g. gap_for (word_of_nat p) (push_bit k 1) (word_of_nat O') = Inr (word_of_nat g) \<and> (g = 0 \<or> 32 \<le> g) \<and> g \<le> 2 ^ k + 24 \<and>
    g mod 8 = 0 \<and> (p + g + O') mod 2 ^ k = 0"
proof -
  let ?A = "2 ^ k :: nat"
  have A: "?A < 2 ^ 30" using k(2) by (intro power_strict_increasing) auto
  have small: "unat (word_of_nat n :: u64) = n" if "n < 2 ^ 63" for n using that by (intro unat_word_of_nat) simp
  have k60: "k < 60" using k(2) by simp
  have "p + O' < 2 ^ 63" using p(2) off(1) A by simp
  from align_ptr_nat [OF k60 this] obtain Y where Y: "align_ptr (word_of_nat (p + O')) (push_bit k 1) = Inr (word_of_nat Y)"
    "p + O' \<le> Y" "Y < p + O' + ?A" "Y mod ?A = 0" "(p + O') mod ?A = 0 \<longrightarrow> Y = p + O'" by (elim exE conjE)
  define g where "g = Y - p - O'"
  have gY: "Y = p + O' + g" using Y(2) by (simp add: g_def)
  have eight: "?A = 8 * 2 ^ (k - 3)" using k(1) power_add [of "2::nat" 3 "k - 3"] by simp
  have "Y mod 8 = 0" using Y(4) unfolding eight by (metis dvd_mult_left mod_0_imp_dvd mod_eq_0_iff_dvd)
  then have g8: "g mod 8 = 0" using gY p(1) off(2) by presburger
  have gA: "g < ?A" using Y(3) gY by simp
  have w: "word_of_nat Y - word_of_nat p - word_of_nat O' = (word_of_nat g :: u64)" by (simp add: gY)
  have ug: "unat (word_of_nat g :: u64) = g" using gA A by (intro small) simp
  then have c: "word_of_nat g \<noteq> (0 :: u64) \<and> word_of_nat g < sizeof_block_header \<longleftrightarrow> 0 < g \<and> g < 32"
    by (cases "g = 0") (auto simp: sizeof_block_header_def word_less_nat_alt)
  have gf: "gap_for (word_of_nat p) (push_bit k 1) (word_of_nat O') =
      (if 0 < g \<and> g < 32
       then res_bind (align_ptr (word_of_nat Y + max (sizeof_block_header - word_of_nat g) (push_bit k 1)) (push_bit k 1))
              (\<lambda>aligned'. Inr (aligned' - word_of_nat p - word_of_nat O'))
       else Inr (word_of_nat g))"
    using Y(1) unfolding gap_for_def Let_def of_nat_add by (simp only: res_bind.simps w c)
  show ?thesis
  proof (cases "0 < g \<and> g < 32")
    case False
    then have "gap_for (word_of_nat p) (push_bit k 1) (word_of_nat O') = Inr (word_of_nat g)" using gf by (simp only: if_False)
    then show ?thesis using False g8 gA Y(4) gY by (intro exI [of _ g]) (auto simp: ac_simps)
  next
    case True
    define F where "F = max (32 - g) ?A"
    have 1: "sizeof_block_header - word_of_nat g = (word_of_nat (32 - g) :: u64)"
      using word_diff_of_nat [of g 32, where 'a = 64] True by (simp add: sizeof_block_header_def)
    have "max (word_of_nat n) (push_bit k 1) = (word_of_nat (max n ?A) :: u64)" if "n < 2 ^ 63" for n
    proof (rule word_of_unat_eq)
      have "unat (push_bit k 1 :: u64) = ?A" using small [of ?A] A by (simp add: push_bit_eq_mult)
      then show "unat (max (word_of_nat n) (push_bit k 1) :: u64) = max n ?A"
        using small [OF that] by (simp add: max_def word_le_nat_alt)
    qed
    then have 2: "max (word_of_nat (32 - g)) (push_bit k 1) = (word_of_nat F :: u64)" unfolding F_def by fastforce
    have "F \<le> 32 + ?A" by (simp add: F_def)
    then have "Y + F < 2 ^ 63" using gY p(2) off(1) gA A by simp
    from align_ptr_nat [OF k60 this] obtain r where r: "align_ptr (word_of_nat (Y + F)) (push_bit k 1) = Inr (word_of_nat r)"
      "Y + F \<le> r" "r < Y + F + ?A" "r mod ?A = 0" "(Y + F) mod ?A = 0 \<longrightarrow> r = Y + F" by (elim exE conjE)
    have "gap_for (word_of_nat p) (push_bit k 1) (word_of_nat O') = Inr (word_of_nat r - word_of_nat p - word_of_nat O')"
      unfolding gf 1 2 using r(1) True by (simp only: of_nat_add res_bind.simps if_True simp_thms)
    moreover have "word_of_nat r - word_of_nat p - word_of_nat O' = (word_of_nat (g + (r - Y)) :: u64)"
    proof -
      have "r = p + O' + (g + (r - Y))" using r(2) gY by simp
      then have "(word_of_nat r :: u64) = word_of_nat (p + O' + (g + (r - Y)))" by (rule arg_cong)
      then show ?thesis by (simp only: of_nat_add) simp
    qed
    moreover note extended_gap [OF refl k(1) g8 _ _ gA Y(4) F_def r(2-5)]
    moreover have "p + (g + (r - Y)) + O' = r" using gY r(2) by simp
    ultimately show ?thesis using True r(4) g8 by (intro exI [of _ "g + (r - Y)"]) (simp add: mod_add_eq [of g 8, symmetric])
  qed
qed

section \<open>Allocation\<close>

definition used_part :: "nat \<Rightarrow> nat \<Rightarrow> nat \<Rightarrow> nat" where
  "used_part g s z = (if z + 32 \<le> s - g then z else s - g)"

lemma used_bytes_carve: "used_bytes (carve g s z (Some d)) = used_part g s z"
  by (simp add: carve_def trim_def used_part_def)

lemma carve_pool:
  assumes P: "pool_ok (c, m) b (xs @ (s, None) # ys) {end_of b xs} L" and z: "good_size z" "24 \<le> z" "z + g \<le> s"
    and g: "good_size g" "g = 0 \<or> 32 \<le> g \<and> g + 32 \<le> s"
  shows "\<exists>s1 c' m' L' d. (if g = 0 then Inr (end_of b xs, c, m) else trim_free_leading (end_of b xs) (word_of_nat g) (c, m)) = Inr (end_of b xs + g, s1) \<and>
    prepare_used (end_of b xs + g) (word_of_nat z) s1 = Inr (end_of b xs + g + 16, c', m') \<and>
    pool_ok (c', m') b (xs @ carve g s z (Some d) @ ys) {} L' \<and> null_block c' = null_block c \<and>
    block_size (end_of b xs + g) m' = word_of_nat (used_part g s z)"
proof -
  let ?x = "end_of b xs"
  define pre where "pre = (if g = 0 then [] else [(g - 8, None :: u8 list option)])"
  have e: "end_of b (xs @ pre) = ?x + g" using g(2) by (auto simp: pre_def)
  have "\<exists>c1 m1 L1. (if g = 0 then Inr (?x, c, m) else trim_free_leading ?x (word_of_nat g) (c, m)) = Inr (?x + g, c1, m1) \<and>
      pool_ok (c1, m1) b ((xs @ pre) @ (s - g, None) # ys) {end_of b (xs @ pre)} L1 \<and> null_block c1 = null_block c"
  proof (cases "g = 0")
    case True
    then show ?thesis using P by (auto simp: pre_def)
  next
    case False
    then show ?thesis using trim_leading_pool [OF P g(1)] g(2) unfolding e by (auto simp: pre_def)
  qed
  then obtain c1 m1 L1 where 1: "(if g = 0 then Inr (?x, c, m) else trim_free_leading ?x (word_of_nat g) (c, m)) = Inr (?x + g, c1, m1)"
    "pool_ok (c1, m1) b ((xs @ pre) @ (s - g, None) # ys) {end_of b (xs @ pre)} L1" "null_block c1 = null_block c" by blast
  from prepare_used_pool [OF 1(2) z(1,2)] obtain c' m' L' d where 2: "prepare_used (?x + g) (word_of_nat z) (c1, m1) = Inr (?x + g + 16, c', m')"
    "pool_ok (c', m') b ((xs @ pre) @ trim (s - g) z (Some d) @ ys) {} L'" "null_block c' = null_block c1" unfolding e by blast
  have "(xs @ pre) @ trim (s - g) z (Some d) @ ys = xs @ carve g s z (Some d) @ ys" by (simp add: carve_def pre_def)
  moreover obtain zs where "trim (s - g) z (Some d) = (used_part g s z, Some d) # zs"
    by (cases "z + 32 \<le> s - g") (simp_all add: trim_def used_part_def)
  then have "block_size (end_of b (xs @ pre)) m' = word_of_nat (used_part g s z)" using 2(2) pool_block(1) [of c' m' b "xs @ pre"] by simp
  ultimately show ?thesis using 1(1,3) 2 unfolding e by metis
qed

text \<open>What an allocation does to the blocks: a part of a free block becomes the new used block.\<close>

definition allocated :: "nat \<Rightarrow> pool_block list \<Rightarrow> nat \<Rightarrow> nat \<Rightarrow> pool_block list \<Rightarrow> bool" where
  "allocated b bs p z bs' \<longleftrightarrow> (\<exists>xs s ys g d. bs = xs @ (s, None) # ys \<and> z + g \<le> s \<and> (g = 0 \<or> 32 \<le> g) \<and> p = end_of b xs + g + 16 \<and>
     bs' = xs @ carve g s z (Some d) @ ys)"

text \<open>The requests an arena makes: a power of two as alignment, an offset in multiples of the base alignment, less than a gigabyte.\<close>

definition tlsf_request :: "u64 \<Rightarrow> u64 \<Rightarrow> u64 \<Rightarrow> bool" where
  "tlsf_request sz al off \<longleftrightarrow> 0 < sz \<and> 0 < al \<and> is_pow2 al \<and> unat off mod 8 = 0 \<and> unat off < 2 ^ 60 \<and> unat sz + 2 * unat al + 64 < 2 ^ 30"

text \<open>The size of a free block that serves a request in any case.\<close>

definition enough :: "u64 \<Rightarrow> u64 \<Rightarrow> nat" where
  "enough sz al = (let n = (if unat al \<le> 8 then unat sz + 24 else unat sz + 2 * unat al + 56) in n + n div 32)"

definition alloc_ok :: "tlsf_allocator \<Rightarrow> pool_block list \<Rightarrow> nat \<Rightarrow> nat \<Rightarrow> tlsf_allocator \<Rightarrow> memory \<Rightarrow> bool" where
  "alloc_ok a bs p z a' m' \<longleftrightarrow> (\<exists>bs'. allocated (pool_start a) bs p z bs' \<and> tlsf_inv (a', m') bs' \<and> pool_start a' = pool_start a \<and> p < 2 ^ 62)"

lemma carve_inv:
  assumes inv: "tlsf_inv (a, m0) (xs @ (s, None) # ys)" and P: "pool_ok (c, m) (pool_start a) (xs @ (s, None) # ys) {end_of (pool_start a) xs} L"
    and z: "good_size z" "24 \<le> z" "z + g \<le> s" and g: "good_size g" "g = 0 \<or> 32 \<le> g \<and> g + 32 \<le> s"
  shows "\<exists>s1 c' m'. (if g = 0 then Inr (end_of (pool_start a) xs, c, m)
      else trim_free_leading (end_of (pool_start a) xs) (word_of_nat g) (c, m)) = Inr (end_of (pool_start a) xs + g, s1) \<and>
    prepare_used (end_of (pool_start a) xs + g) (word_of_nat z) s1 = Inr (end_of (pool_start a) xs + g + 16, c', m') \<and>
    alloc_ok a (xs @ (s, None) # ys) (end_of (pool_start a) xs + g + 16) z
      (a\<lparr>control := c', tlsf_used_size := tlsf_used_size a + block_size (end_of (pool_start a) xs + g) m'\<rparr>) m'"
proof -
  let ?b = "pool_start a"
  from carve_pool [OF P z g] obtain s1 c' m' L' d where r: "(if g = 0 then Inr (end_of ?b xs, c, m)
      else trim_free_leading (end_of ?b xs) (word_of_nat g) (c, m)) = Inr (end_of ?b xs + g, s1)"
    "prepare_used (end_of ?b xs + g) (word_of_nat z) s1 = Inr (end_of ?b xs + g + 16, c', m')"
    "pool_ok (c', m') ?b (xs @ carve g s z (Some d) @ ys) {} L'" "block_size (end_of ?b xs + g) m' = word_of_nat (used_part g s z)" by blast
  note G = pool_sizes [OF P] and D = pool_okD [OF P]
  have u: "used_part g s z \<le> s" "used_part g s z < 2 ^ 31" using z(3) G(1) by (auto simp: used_part_def good_size_def)
  have "used_bytes (xs @ (s, None) # ys) < 2 ^ 62" using used_bytes_le [of ?b "xs @ (s, None) # ys"] D(6) by simp
  then have "unat (tlsf_used_size a + word_of_nat (used_part g s z)) = used_bytes (xs @ carve g s z (Some d) @ ys)"
    using inv u(2) by (subst unat_add) (simp_all add: tlsf_inv_def used_bytes_carve unat_word_of_nat)
  moreover have "end_of ?b (xs @ carve g s z (Some d) @ ys) = end_of ?b (xs @ (s, None) # ys)"
    using end_of_carve [of g z s "end_of ?b xs"] g(2) z(3) by auto
  moreover have "coalesced (xs @ carve g s z (Some d) @ ys)" using inv by (intro coalesced_carve) (simp add: tlsf_inv_def)
  ultimately have "tlsf_inv (a\<lparr>control := c', tlsf_used_size := tlsf_used_size a + block_size (end_of ?b xs + g) m'\<rparr>, m')
      (xs @ carve g s z (Some d) @ ys)" using r(3,4) inv by (auto simp: tlsf_inv_def)
  moreover have "end_of ?b xs + g + 16 < 2 ^ 62" using D(6) end_of_le [of "end_of ?b xs + 8 + s" ys] z by simp
  moreover have "allocated ?b (xs @ (s, None) # ys) (end_of ?b xs + g + 16) z (xs @ carve g s z (Some d) @ ys)"
    unfolding allocated_def using z(3) g(2) by blast
  ultimately show ?thesis using r(1,2) unfolding alloc_ok_def by (intro exI conjI; simp?)
qed

lemma add_div_mono: "n \<le> k \<Longrightarrow> n + n div 32 \<le> k + k div (32::nat)"
  by (intro add_mono div_le_mono)

lemma free_split:
  assumes "(x, s) \<in> free_set b bs"
  obtains xs ys where "bs = xs @ (s, None) # ys" "x = end_of b xs"
  using assms blocks_at_split [of x s None b bs] by (auto simp: free_set_def)

lemma allocate_base:
  assumes inv: "tlsf_inv (a, m) bs" and sz: "0 < unat sz" "unat sz + 64 < 2 ^ 30" and al: "al \<le> 8"
  shows "(\<exists>p z a' m'. tlsf_allocate sz al off (a, m) = Inr (word_of_nat p, a', m') \<and> unat sz \<le> z \<and> p mod 8 = 0 \<and> alloc_ok a bs p z a' m') \<or>
    tlsf_allocate sz al off (a, m) = Inl Assertion_Failed \<and> (\<forall>(x, s) \<in> free_set (pool_start a) bs. s < enough sz al)"
proof -
  have "unat sz < 2 ^ 30" using sz(2) by simp
  from adjust_8 [OF sz(1) this] obtain z where z: "adjust_request_size sz k_align_size = Inr (word_of_nat z)" "good_size z" "24 \<le> z" "unat sz \<le> z"
    "z = 24 \<or> z < unat sz + 8" by blast
  have z30: "0 < z" "z < 2 ^ 30" using z(3,5) sz(2) by auto
  have al8: "\<not> k_align_size < al" "unat al \<le> 8" using al by (simp_all add: k_align_size_def word_le_nat_alt word_less_nat_alt)
  obtain L where P: "pool_ok (control a, m) (pool_start a) bs {} L" using inv by (auto simp: tlsf_inv_def)
  from locate_pool [OF P z(2) z30] show ?thesis
  proof (elim disjE exE conjE)
    fix x s c' m' L'
    assume l: "locate_free_block (word_of_nat z) (control a, m) = Inr (x, c', m')" "(x, s) \<in> free_set (pool_start a) bs" "z \<le> s"
      and "pool_ok (c', m') (pool_start a) bs {x} L'"
    moreover from l(2) obtain xs ys where b: "bs = xs @ (s, None) # ys" "x = end_of (pool_start a) xs" by (rule free_split)
    ultimately have P': "pool_ok (c', m') (pool_start a) (xs @ (s, None) # ys) {end_of (pool_start a) xs} L'" by simp
    have "z + 0 \<le> s" "good_size 0" using l(3) by (auto simp: good_size_def)
    from carve_inv [OF inv [unfolded b(1)] P' z(2,3) this] obtain c2 m2 where r:
      "prepare_used x (word_of_nat z) (c', m') = Inr (x + 16, c2, m2)"
      "alloc_ok a bs (x + 16) z (a\<lparr>control := c2, tlsf_used_size := tlsf_used_size a + block_size x m2\<rparr>) m2" using b by auto
    have "x mod 8 = 0" using pool_sizes(4) [OF P'] b(2) by simp
    then have "(x + 16) mod 8 = 0" by presburger
    moreover have "tlsf_allocate sz al off (a, m) = Inr (word_of_nat (x + 16),
        a\<lparr>control := c2, tlsf_used_size := tlsf_used_size a + block_size x m2\<rparr>, m2)"
      using z(1) l(1) r(1) al8(1) by (simp add: tlsf_allocate_def)
    ultimately show ?thesis using r(2) z(4) by - (rule disjI1, rule exI [of _ "x + 16"], rule exI [of _ z], auto)
  next
    assume l: "locate_free_block (word_of_nat z) (control a, m) = Inr (0, control a, m)"
      "\<forall>(x, s) \<in> free_set (pool_start a) bs. x \<notin> {} \<longrightarrow> s < z + z div 32"
    have "tlsf_allocate sz al off (a, m) = Inl Assertion_Failed"
      using z(1) l(1) al8(1) by (simp add: tlsf_allocate_def prepare_used_def)
    moreover have "z + z div 32 \<le> enough sz al" unfolding enough_def Let_def if_P [OF al8(2)] using z(5) by (intro add_div_mono) auto
    then have "\<forall>(x, s) \<in> free_set (pool_start a) bs. s < enough sz al" using l(2) by fastforce
    ultimately show ?thesis by blast
  qed
qed

lemma allocate_above:
  assumes inv: "tlsf_inv (a, m) bs" and sz: "0 < unat sz" "unat sz + 2 * 2 ^ k + 64 < 2 ^ 30" and k: "4 \<le> k" and off: "unat off mod 8 = 0"
  shows "(\<exists>p z a' m'. tlsf_allocate sz (push_bit k 1) off (a, m) = Inr (word_of_nat p, a', m') \<and> unat sz \<le> z \<and>
      (p + unat off) mod 2 ^ k = 0 \<and> p mod 8 = 0 \<and> alloc_ok a bs p z a' m') \<or>
    tlsf_allocate sz (push_bit k 1) off (a, m) = Inl Assertion_Failed \<and>
      (2 ^ k < unat off \<or> (\<forall>(x, s) \<in> free_set (pool_start a) bs. s < enough sz (push_bit k 1)))"
proof -
  let ?A = "2 ^ k :: nat" and ?al = "push_bit k 1 :: u64"
  have k30: "k < 30"
  proof (rule ccontr)
    assume "\<not> k < 30"
    then have "(2::nat) ^ 30 \<le> ?A" by (intro power_increasing) auto
    then show False using sz(2) by simp
  qed
  have A: "16 \<le> ?A" using power_increasing [OF k, of "2::nat"] by simp
  have "unat (word_of_nat ?A :: u64) = ?A" using sz(2) by (intro unat_word_of_nat) simp
  then have ual: "unat ?al = ?A" "?al = word_of_nat ?A" by (simp_all add: push_bit_eq_mult)
  have al8: "k_align_size < ?al" using A by (simp only: k_align_size_def word_less_nat_alt ual(1)) simp
  show ?thesis
  proof (cases "unat off \<le> ?A")
    case False
    then have "\<not> off \<le> ?al" by (simp only: word_le_nat_alt ual(1)) simp
    then have "tlsf_allocate sz ?al off (a, m) = Inl Assertion_Failed" using al8 by (simp only: tlsf_allocate_def allocate_aligned_def) simp
    then show ?thesis using False by simp
  next
    case off': True
    then have offw: "off \<le> ?al" by (simp only: word_le_nat_alt ual(1))
    have "unat sz < 2 ^ 30" using sz(2) by simp
    from adjust_8 [OF sz(1) this] obtain z where z: "adjust_request_size sz k_align_size = Inr (word_of_nat z)" "good_size z" "24 \<le> z" "unat sz \<le> z"
      "z = 24 \<or> z < unat sz + 8" by blast
    have zA: "z + ?A + 32 + ?A < 2 ^ 30" using z(5) sz by auto
    have uw: "unat (word_of_nat (z + ?A + 32) :: u64) = z + ?A + 32" using zA by (intro unat_word_of_nat) simp
    have "0 < unat (word_of_nat (z + ?A + 32) :: u64)" "unat (word_of_nat (z + ?A + 32) :: u64) + ?A < 2 ^ 31" "3 \<le> k"
      using uw zA k by auto
    from adjust_nat [OF this] obtain w where w: "adjust_request_size (word_of_nat (z + ?A + 32)) ?al = Inr (word_of_nat w)" "good_size w"
      "z + ?A + 32 \<le> w" "w = 24 \<or> w < z + ?A + 32 + ?A" unfolding uw by blast
    have w30: "0 < w" "w < 2 ^ 30" using w(3,4) zA by auto
    have "(word_of_nat (z + ?A + 32) :: u64) = word_of_nat z + ?al + sizeof_block_header" unfolding ual(2) by (simp add: sizeof_block_header_def)
    note w1 = w(1) [unfolded this]
    have z0: "word_of_nat z \<noteq> (0 :: u64)" using good_size_bit(3) [OF z(2)] z(3) by (metis not_numeral_le_zero unat_0)
    have al: "tlsf_allocate sz ?al off (a, m) = res_bind (res_bind (locate_free_block (word_of_nat w) (control a, m)) (\<lambda>(block, c, m1).
        if block \<noteq> 0
        then res_bind (gap_for (word_of_nat (to_void_ptr block)) ?al off) (\<lambda>gap.
             res_bind (if gap \<noteq> 0
                       then res_bind (k_assert (sizeof_block_header \<le> gap)) (\<lambda>_. trim_free_leading block gap (c, m1))
                       else Inr (block, c, m1)) (\<lambda>(block', s).
             res_bind (prepare_used block' (word_of_nat z) s) (\<lambda>(ret, c', m').
             Inr (ret, a\<lparr>control := c', tlsf_used_size := tlsf_used_size a + block_size block' m'\<rparr>, m'))))
        else Inr (0, a\<lparr>control := c\<rparr>, m1)))
       (\<lambda>(ptr, s). res_bind (k_assert (ptr \<noteq> 0)) (\<lambda>_. Inr (word_of_nat ptr, s)))"
      unfolding tlsf_allocate_def allocate_aligned_def using al8 offw z(1) w1 z0
      by (simp only: prod.case if_True res_bind.simps arr_ok simp_thms Let_def)
    obtain L where P: "pool_ok (control a, m) (pool_start a) bs {} L" using inv by (auto simp: tlsf_inv_def)
    from locate_pool [OF P w(2) w30] show ?thesis
    proof (elim disjE exE conjE)
      fix x s c' m' L'
      assume l: "locate_free_block (word_of_nat w) (control a, m) = Inr (x, c', m')" "(x, s) \<in> free_set (pool_start a) bs" "w \<le> s"
        and "pool_ok (c', m') (pool_start a) bs {x} L'"
      moreover from l(2) obtain xs ys where b: "bs = xs @ (s, None) # ys" "x = end_of (pool_start a) xs" by (rule free_split)
      ultimately have P': "pool_ok (c', m') (pool_start a) (xs @ (s, None) # ys) {end_of (pool_start a) xs} L'" by simp
      note G = pool_sizes [OF P', folded b(2)]
      have x: "(x + 16) mod 8 = 0" "x + 16 < 2 ^ 62" using G(4) pool_okD(6) [OF P'] b(2) G(2) end_of_le [of "x + 8 + s" ys] by (presburger, simp)
      from gap_nat [OF k k30 x off' off] obtain g where g: "gap_for (word_of_nat (x + 16)) ?al (word_of_nat (unat off)) = Inr (word_of_nat g)"
        "g = 0 \<or> 32 \<le> g" "g \<le> ?A + 24" "g mod 8 = 0" "(x + 16 + g + unat off) mod ?A = 0"
        by (elim exE conjE)
      have "x + 16 = to_void_ptr x" "word_of_nat (unat off) = off" by (simp_all add: to_void_ptr_def block_consts)
      note gap = g(1) [unfolded this]
      have gs: "good_size g" "z + g \<le> s" "g = 0 \<or> 32 \<le> g \<and> g + 32 \<le> s"
        using g(2-4) w(3) l(3) zA z(3) by (auto simp: good_size_def)
      from carve_inv [OF inv [unfolded b(1)] P' z(2,3) gs(2,1,3), folded b(2), folded b(1)] obtain s1 c2 m2 where r:
        "(if g = 0 then Inr (x, c', m') else trim_free_leading x (word_of_nat g) (c', m')) = Inr (x + g, s1)"
        "prepare_used (x + g) (word_of_nat z) s1 = Inr (x + g + 16, c2, m2)"
        "alloc_ok a bs (x + g + 16) z (a\<lparr>control := c2, tlsf_used_size := tlsf_used_size a + block_size (x + g) m2\<rparr>) m2" by blast
      have gw: "word_of_nat g \<noteq> (0 :: u64) \<longleftrightarrow> g \<noteq> 0" "g \<noteq> 0 \<Longrightarrow> sizeof_block_header \<le> word_of_nat g"
        using good_size_bit(3) [OF gs(1)] g(2) by (auto simp: sizeof_block_header_def word_le_nat_alt)
      have step: "(if word_of_nat g \<noteq> (0 :: u64)
          then res_bind (k_assert (sizeof_block_header \<le> word_of_nat g)) (\<lambda>_. trim_free_leading x (word_of_nat g) (c', m'))
          else Inr (x, c', m')) = Inr (x + g, s1)" using r(1) gw by (cases "g = 0") auto
      have "tlsf_allocate sz ?al off (a, m) = Inr (word_of_nat (x + g + 16),
          a\<lparr>control := c2, tlsf_used_size := tlsf_used_size a + block_size (x + g) m2\<rparr>, m2)"
        unfolding al l(1) using G(6) gap step r(2) by (simp del: push_bit_of_1)
      moreover have "x + g + 16 + unat off = x + 16 + g + unat off" by simp
      then have "(x + g + 16 + unat off) mod ?A = 0" using g(5) by metis
      moreover have "(x + g + 16) mod 8 = 0" using G(4) g(4) by presburger
      ultimately show ?thesis using r(3) z(4) by - (rule disjI1, rule exI [of _ "x + g + 16"], rule exI [of _ z], intro exI conjI)
    next
      assume l: "locate_free_block (word_of_nat w) (control a, m) = Inr (0, control a, m)"
        "\<forall>(x, s) \<in> free_set (pool_start a) bs. x \<notin> {} \<longrightarrow> s < w + w div 32"
      have "tlsf_allocate sz ?al off (a, m) = Inl Assertion_Failed" unfolding al l(1) by simp
      moreover have "\<not> unat ?al \<le> 8" using ual(1) A by simp
      then have "w + w div 32 \<le> enough sz ?al" unfolding enough_def Let_def using w(4) z(5) ual(1) A by (auto intro!: add_div_mono)
      then have "\<forall>(x, s) \<in> free_set (pool_start a) bs. s < enough sz ?al" using l(2) by fastforce
      ultimately show ?thesis by blast
    qed
  qed
qed

section \<open>Deallocation\<close>

text \<open>The freed block joins its free neighbours.\<close>

definition released :: "pool_block list \<Rightarrow> nat \<Rightarrow> pool_block list \<Rightarrow> pool_block list" where
  "released xs s ys = (if xs \<noteq> [] \<and> snd (last xs) = None then butlast xs @ cons_free (fst (last xs) + 8 + s) ys
     else xs @ cons_free s ys)"

lemma used_bytes_cons_free [simp]: "used_bytes (cons_free s ys) = used_bytes ys"
  by (cases "(s, ys)" rule: cons_free.cases) simp_all

lemma used_bytes_released: "used_bytes (released xs s ys) = used_bytes xs + used_bytes ys"
  by (cases xs rule: rev_cases) (auto simp: released_def)

lemma end_of_cons_free [simp]: "end_of b (cons_free s ys) = end_of (b + 8 + s) ys"
  by (cases "(s, ys)" rule: cons_free.cases) (simp_all add: add.assoc)

lemma end_of_released: "end_of b (released xs s ys) = end_of b (xs @ (s, k) # ys)"
  by (cases xs rule: rev_cases) (auto simp: released_def add.assoc)

lemma coalesced_cons_free:
  assumes "coalesced (xs @ (s, Some d) # ys)" "xs = [] \<or> snd (last xs) \<noteq> None"
  shows "coalesced (xs @ cons_free t ys)"
  using assms unfolding coalesced_def
  by (cases "(t, ys)" rule: cons_free.cases) (auto simp: successively_append_iff successively_Cons)

lemma coalesced_released:
  assumes "coalesced (xs @ (s, Some d) # ys)"
  shows "coalesced (released xs s ys)"
proof (cases "xs \<noteq> [] \<and> snd (last xs) = None")
  case True
  then obtain xs' s0 where xs: "xs = xs' @ [(s0, None)]" by (cases xs rule: rev_cases) auto
  have "coalesced (xs' @ (s, Some d) # ys)" "xs' = [] \<or> snd (last xs') \<noteq> None"
    using assms unfolding xs coalesced_def by (auto simp: successively_append_iff)
  from coalesced_cons_free [OF this] show ?thesis by (simp add: released_def xs)
next
  case False
  then show ?thesis using coalesced_cons_free [OF assms] by (auto simp: released_def)
qed

lemma used_word:
  assumes "tlsf_inv (a, m) bs"
  shows "tlsf_used_size a = word_of_nat (used_bytes bs)" "used_bytes bs < 2 ^ 62"
proof -
  obtain L where "pool_ok (control a, m) (pool_start a) bs {} L" using assms by (auto simp: tlsf_inv_def)
  then show "used_bytes bs < 2 ^ 62" using used_bytes_le [of "pool_start a" bs] pool_okD(6) by fastforce
  show "tlsf_used_size a = word_of_nat (used_bytes bs)" using assms by (intro word_of_unat_eq) (simp add: tlsf_inv_def)
qed

lemma tlsf_invI:
  assumes "pool_ok (control a, m) (pool_start a) bs {} L" "coalesced bs" "tlsf_used_size a = word_of_nat (used_bytes bs)"
    "end_of (pool_start a) bs = pool_start a + 8 + pool_bytes (tlsf_pool_size a)"
  shows "tlsf_inv (a, m) bs"
proof -
  have "used_bytes bs < 2 ^ 62" using used_bytes_le [of "pool_start a" bs] pool_okD(6) [OF assms(1)] by simp
  then have "unat (word_of_nat (used_bytes bs) :: u64) = used_bytes bs" by (intro unat_word_of_nat) simp
  then show ?thesis using assms by (auto simp: tlsf_inv_def)
qed

lemma deallocate_spec:
  assumes inv: "tlsf_inv (a, m) (xs @ (s, Some d) # ys)" and p: "unat ptr = end_of (pool_start a) xs + 16"
  shows "\<exists>a' m'. tlsf_deallocate ptr (a, m) = Inr (a', m') \<and> tlsf_inv (a', m') (released xs s ys) \<and> pool_start a' = pool_start a"
proof -
  let ?b = "pool_start a"
  let ?x = "end_of ?b xs"
  obtain L where P: "pool_ok (control a, m) ?b (xs @ (s, Some d) # ys) {} L" using inv by (auto simp: tlsf_inv_def)
  have x: "from_void_ptr (unat ptr) = ?x" "ptr \<noteq> 0" using p by (auto simp: from_void_ptr_def block_consts)
  note B = pool_block(1,2) [OF P]
  from mark_free_pool [OF P] obtain m1 where 1: "mark_as_free ?x m = Inr m1" "pool_ok (control a, m1) ?b (xs @ (s, None) # ys) {?x} L" by auto
  have "\<exists>y xs' s' c2 m2 L2. merge_prev ?x (control a, m1) = Inr (y, c2, m2) \<and> pool_ok (c2, m2) ?b (xs' @ (s', None) # ys) {y} L2 \<and>
      y = end_of ?b xs' \<and> released xs s ys = xs' @ cons_free s' ys"
  proof (cases "xs \<noteq> [] \<and> snd (last xs) = None")
    case True
    then obtain xs' s0 where xs: "xs = xs' @ [(s0, None)]" by (cases xs rule: rev_cases) auto
    have "pool_ok (control a, m1) ?b (xs' @ (s0, None) # (s, None) # ys) {end_of ?b xs' + 8 + s0} L" using 1(2) by (simp add: xs)
    from merge_prev_free [OF this] obtain c2 m2 L2 where
      "merge_prev ?x (control a, m1) = Inr (end_of ?b xs', c2, m2)"
      "pool_ok (c2, m2) ?b (xs' @ (s0 + 8 + s, None) # ys) {end_of ?b xs'} L2" by (auto simp: xs)
    moreover have "released xs s ys = xs' @ cons_free (s0 + 8 + s) ys" by (simp add: released_def xs)
    ultimately show ?thesis by blast
  next
    case False
    then have "released xs s ys = xs @ cons_free s ys" "merge_prev ?x (control a, m1) = Inr (?x, control a, m1)"
      using merge_prev_used [OF 1(2)] by (auto simp: released_def)
    then show ?thesis using 1(2) by blast
  qed
  then obtain y xs' s' c2 m2 L2 where 2: "merge_prev ?x (control a, m1) = Inr (y, c2, m2)" "pool_ok (c2, m2) ?b (xs' @ (s', None) # ys) {y} L2"
    and y: "y = end_of ?b xs'" "released xs s ys = xs' @ cons_free s' ys" by blast
  from merge_next_pool [OF 2(2) [unfolded y(1)]] obtain c3 m3 L3 where 3: "merge_next y (c2, m2) = Inr (y, c3, m3)"
    "pool_ok (c3, m3) ?b (xs' @ cons_free s' ys) {y} L3" unfolding y(1) by blast
  obtain t where "(y, t) \<in> free_set ?b (xs' @ cons_free s' ys)" by (cases "(s', ys)" rule: cons_free.cases) (auto simp: y(1))
  from insert_pool [OF 3(2) this] obtain c4 m4 L4 where 4: "insert_block y (c3, m3) = Inr (c4, m4)" "pool_ok (c4, m4) ?b (released xs s ys) {} L4"
    by (auto simp: y(2))
  let ?a = "a\<lparr>tlsf_used_size := tlsf_used_size a - block_size ?x m, control := c4\<rparr>"
  have "tlsf_deallocate ptr (a, m) = Inr (?a, m4)" using x B(2) 1(1) 2(1) 3(1) 4(1) by (simp add: tlsf_deallocate_def Let_def)
  moreover have "tlsf_inv (?a, m4) (released xs s ys)"
  proof (rule tlsf_invI)
    show "coalesced (released xs s ys)" using inv coalesced_released [of xs s d ys] by (simp add: tlsf_inv_def)
    show "tlsf_used_size ?a = word_of_nat (used_bytes (released xs s ys))"
      using used_word(1) [OF inv] B(1) by (simp add: used_bytes_released)
    show "end_of (pool_start ?a) (released xs s ys) = pool_start ?a + 8 + pool_bytes (tlsf_pool_size ?a)"
      using inv end_of_released [of ?b xs s ys "Some d"] by (simp add: tlsf_inv_def)
  qed (use 4(2) in simp)
  ultimately show ?thesis by auto
qed

section \<open>The used blocks\<close>

definition used_set :: "nat \<Rightarrow> pool_block list \<Rightarrow> (nat \<times> nat \<times> u8 list) set" where
  "used_set b bs = {(x, s, d). (x, s, Some d) \<in> set (blocks_at b bs)}"

lemma used_set_simps [simp]:
  "used_set b [] = {}" "used_set b ((s, None) # bs) = used_set (b + 8 + s) bs"
  "used_set b ((s, Some d) # bs) = insert (b, s, d) (used_set (b + 8 + s) bs)"
  "used_set b (xs @ ys) = used_set b xs \<union> used_set (end_of b xs) ys"
  by (auto simp: used_set_def)

lemma used_split:
  assumes "(x, s, d) \<in> used_set b bs"
  obtains xs ys where "bs = xs @ (s, Some d) # ys" "x = end_of b xs"
  using assms blocks_at_split [of x s "Some d" b bs] by (auto simp: used_set_def)

lemma used_unique: "(x, s, d) \<in> used_set b bs \<Longrightarrow> (x, s', d') \<in> used_set b bs \<Longrightarrow> s = s' \<and> d = d'"
  using blocks_at_apart [of x s "Some d" b bs x s' "Some d'"] by (auto simp: used_set_def)

lemma used_set_range: "(x, s, d) \<in> used_set b bs \<Longrightarrow> b \<le> x \<and> x + 8 + s \<le> end_of b bs"
  using blocks_at_range [of x s "Some d"] by (simp add: used_set_def)

lemma used_apart:
  "(x, s, d) \<in> used_set b bs \<Longrightarrow> (y, t, e) \<in> used_set b bs \<Longrightarrow> x \<noteq> y \<Longrightarrow> x + 8 + s \<le> y \<or> y + 8 + t \<le> x"
  using blocks_at_apart [of x s "Some d" b bs y t "Some e"] by (auto simp: used_set_def)

lemma used_content:
  assumes "tlsf_inv (a, m) bs" "(x, s, d) \<in> used_set (pool_start a) bs"
  shows "d = mem_read (x + 16) s m" "good_size s" "24 \<le> s" "0 < x" "x + 16 + s < 2 ^ 63"
proof -
  from assms(2) obtain xs ys where b: "bs = xs @ (s, Some d) # ys" "x = end_of (pool_start a) xs" by (rule used_split)
  obtain L where P: "pool_ok (control a, m) (pool_start a) (xs @ (s, Some d) # ys) {} L" using assms(1) b(1) by (auto simp: tlsf_inv_def)
  have "seg m (pool_start a) False 0 (xs @ (s, Some d) # ys @ [sentinel])" using pool_okD(1) [OF P] by simp
  then show "d = mem_read (x + 16) s m" using b(2) by (elim seg_midE) auto
  show "good_size s" "24 \<le> s" "0 < x" "x + 16 + s < 2 ^ 63" using pool_sizes [OF P] b(2) by auto
qed

lemma used_allocated:
  assumes "allocated b bs p z bs'"
  shows "\<exists>x s d. p = x + 16 \<and> z \<le> s \<and> used_set b bs' = insert (x, s, d) (used_set b bs) \<and> x \<notin> fst ` used_set b bs"
proof -
  from assms obtain xs s ys g d where r: "bs = xs @ (s, None) # ys" "z + g \<le> s" "g = 0 \<or> 32 \<le> g" "p = end_of b xs + g + 16"
    "bs' = xs @ carve g s z (Some d) @ ys" unfolding allocated_def by (elim exE conjE)
  have e: "end_of (end_of b xs) (carve g s z (Some d)) = end_of b xs + 8 + s" using r(2,3) by (intro end_of_carve) auto
  have "used_set (end_of b xs) (carve g s z (Some d)) = {(end_of b xs + g, used_part g s z, d)}"
    using r(3) by (auto simp: carve_def trim_def used_part_def)
  then have "used_set b bs' = insert (end_of b xs + g, used_part g s z, d) (used_set b bs)" using e by (auto simp: r(1,5))
  moreover have "end_of b xs + g \<notin> fst ` used_set b bs"
    using used_set_range [of _ _ _ b xs] used_set_range [of _ _ _ "end_of b xs + 8 + s" ys] r(2) by (fastforce simp: r(1))
  moreover have "z \<le> used_part g s z" using r(2) by (auto simp: used_part_def)
  ultimately show ?thesis using r(4) by fastforce
qed

lemma used_cons_free [simp]: "used_set b (cons_free s ys) = used_set (b + 8 + s) ys"
  by (cases "(s, ys)" rule: cons_free.cases) (simp_all add: add.assoc)

lemma used_released: "used_set b (released xs s ys) = used_set b xs \<union> used_set (end_of b xs + 8 + s) ys"
  by (cases xs rule: rev_cases) (auto simp: released_def add.assoc)

lemma used_removed:
  "used_set b xs \<union> used_set (end_of b xs + 8 + s) ys = used_set b (xs @ (s, Some d) # ys) - {(end_of b xs, s, d)}"
  using used_set_range [of "end_of b xs" s d b xs] used_set_range [of "end_of b xs" s d "end_of b xs + 8 + s" ys] by auto

section \<open>Requests of any alignment\<close>

lemma allocate_spec:
  assumes inv: "tlsf_inv (a, m) bs" and rq: "tlsf_request sz al off"
  shows "(\<exists>p z a' m'. tlsf_allocate sz al off (a, m) = Inr (word_of_nat p, a', m') \<and> unat sz \<le> z \<and>
      (p + unat off) mod unat al = 0 \<and> p mod 8 = 0 \<and> alloc_ok a bs p z a' m') \<or>
    tlsf_allocate sz al off (a, m) = Inl Assertion_Failed \<and>
      (8 < unat al \<and> unat al < unat off \<or> (\<forall>(x, s) \<in> free_set (pool_start a) bs. s < enough sz al))"
proof -
  have sz: "0 < unat sz" "unat sz + 2 * unat al + 64 < 2 ^ 30" "unat off mod 8 = 0" "al \<noteq> 0"
    using rq by (auto simp: tlsf_request_def word_less_nat_alt)
  obtain n where n: "n < 64" "al = push_bit n 1" using rq sz(4) by (auto simp: tlsf_request_def is_pow2_iff)
  have "(2::nat) ^ n < 2 ^ 64" using n(1) by (intro power_strict_increasing) auto
  then have "unat al = 2 ^ n" unfolding n(2) using unat_word_of_nat [of "2 ^ n", where 'w = 64] by (simp add: push_bit_eq_mult)
  then show ?thesis
  proof (cases "n < 4")
    case True
    then have "n \<in> {0, 1, 2, 3}" by auto
    then have al: "unat al \<in> {1, 2, 4, 8}" using \<open>unat al = 2 ^ n\<close> by auto
    then have "al \<le> 8" by (auto simp: word_le_nat_alt)
    moreover have "(p + unat off) mod unat al = 0" if "p mod 8 = 0" for p using al that sz(3) by auto presburger+
    moreover have "unat sz + 64 < 2 ^ 30" using sz(2) by simp
    ultimately show ?thesis using allocate_base [OF inv sz(1), of al off] by metis
  next
    case False
    then have n4: "4 \<le> n" "unat sz + 2 * 2 ^ n + 64 < 2 ^ 30" using sz(2) \<open>unat al = 2 ^ n\<close> by auto
    have "8 < unat al" using power_increasing [OF n4(1), of "2::nat"] \<open>unat al = 2 ^ n\<close> by simp
    then show ?thesis using allocate_above [OF inv sz(1) n4(2,1) sz(3)] \<open>unat al = 2 ^ n\<close> unfolding n(2) by metis
  qed
qed

section \<open>Writing into a block\<close>

lemma write_inv:
  assumes inv: "tlsf_inv (a, m) (xs @ (s, Some d) # ys)" and sb: "same_but m m' {end_of (pool_start a) xs + 16..<end_of (pool_start a) xs + 16 + s}"
  shows "tlsf_inv (a, m') (xs @ (s, Some (mem_read (end_of (pool_start a) xs + 16) s m')) # ys)"
proof -
  let ?b = "pool_start a"
  let ?x = "end_of ?b xs" and ?d = "mem_read (end_of ?b xs + 16) s m'"
  obtain L where P: "pool_ok (control a, m) ?b (xs @ (s, Some d) # ys) {} L" using inv by (auto simp: tlsf_inv_def)
  have S: "seg m ?b False 0 (xs @ (s, Some d) # ys @ [sentinel])" using pool_okD(1) [OF P] by simp
  from S obtain pf1 p1 where l: "last_of False 0 ?b xs = (pf1, p1)" "seg m ?b False 0 xs"
    "load64 (?x + 8) m = hdr s (Some d = None) pf1" "pf1 \<longrightarrow> load64 ?x m = word_of_nat p1"
    "\<forall>e. Some d = Some e \<longrightarrow> e = mem_read (?x + 16) s m" "seg m (?x + 8 + s) (Some d = None) ?x (ys @ [sentinel])" by (rule seg_midE)
  have "seg m' ?b False 0 (xs @ (s, Some ?d) # ys @ [sentinel])"
  proof (rule seg_midI [OF l(1,2,4) sb])
    show "load64 (?x + 8) m' = hdr s (Some ?d = None) pf1" using l(3) same_but_load [OF sb, of "?x + 8"] by auto
    have "seg m' (?x + 8 + s) False ?x (ys @ [sentinel]) = seg m (?x + 8 + s) False ?x (ys @ [sentinel])"
      by (rule seg_frame) (auto intro: same_butD [OF sb])
    then show "seg m' (?x + 8 + s) (Some ?d = None) ?x (ys @ [sentinel])" using l(6) by simp
  qed auto
  then have "pool_ok (control a, m') ?b (xs @ [(s, Some ?d)] @ ys) {} L"
    by (intro pool_replace [where us = "[(s, Some d)]", OF _ _ sb]) (use P pool_sizes [OF P] in auto)
  then show ?thesis using inv unfolding tlsf_inv_def coalesced_def by (auto simp: successively_append_iff successively_Cons)
qed

lemma write_used:
  assumes inv: "tlsf_inv (a, m) bs" and u: "(x, s, d) \<in> used_set (pool_start a) bs" and sb: "same_but m m' {x + 16..<x + 16 + s}"
  shows "\<exists>bs'. tlsf_inv (a, m') bs' \<and>
    used_set (pool_start a) bs' = insert (x, s, mem_read (x + 16) s m') (used_set (pool_start a) bs - {(x, s, d)})"
proof -
  from u obtain xs ys where b: "bs = xs @ (s, Some d) # ys" "x = end_of (pool_start a) xs" by (rule used_split)
  have "tlsf_inv (a, m') (xs @ (s, Some (mem_read (x + 16) s m')) # ys)" using write_inv [OF inv [unfolded b(1)]] sb b(2) by simp
  moreover have "used_set (pool_start a) (xs @ (s, Some (mem_read (x + 16) s m')) # ys) =
      insert (x, s, mem_read (x + 16) s m') (used_set (pool_start a) bs - {(x, s, d)})"
    using used_removed [of "pool_start a" xs s ys d] b by auto
  ultimately show ?thesis by blast
qed

lemma deallocate_used:
  assumes inv: "tlsf_inv (a, m) bs" and u: "(x, s, d) \<in> used_set (pool_start a) bs" and p: "unat ptr = x + 16"
  shows "\<exists>a' m' bs'. tlsf_deallocate ptr (a, m) = Inr (a', m') \<and> tlsf_inv (a', m') bs' \<and> pool_start a' = pool_start a \<and>
    used_set (pool_start a) bs' = used_set (pool_start a) bs - {(x, s, d)}"
proof -
  from u obtain xs ys where b: "bs = xs @ (s, Some d) # ys" "x = end_of (pool_start a) xs" by (rule used_split)
  from deallocate_spec [OF inv [unfolded b(1)] p [unfolded b(2)]] obtain a' m' where "tlsf_deallocate ptr (a, m) = Inr (a', m')"
    "tlsf_inv (a', m') (released xs s ys)" "pool_start a' = pool_start a" by blast
  then show ?thesis using used_released [of "pool_start a" xs s ys] used_removed [of "pool_start a" xs s ys d] b by metis
qed

section \<open>Reallocation\<close>

text \<open>
  The block at \<open>x\<close> becomes one with at least \<open>n\<close> bytes that starts with the old bytes, at \<open>x\<close> or at an address that no used block has; no other used block changes.
\<close>

definition reallocated :: "nat \<Rightarrow> pool_block list \<Rightarrow> nat \<times> nat \<times> u8 list \<Rightarrow> nat \<Rightarrow> nat \<Rightarrow> pool_block list \<Rightarrow> bool" where
  "reallocated b bs = (\<lambda>(x, s, d) p n bs'. \<exists>x' s' d'. p = x' + 16 \<and> n \<le> s' \<and> take (min s n) d' = take (min s n) d \<and>
     x' \<notin> fst ` (used_set b bs - {(x, s, d)}) \<and> used_set b bs' = insert (x', s', d') (used_set b bs - {(x, s, d)}))"

lemma allocated_used:
  assumes "alloc_ok a bs p z a' m'" "(x, s, d) \<in> used_set (pool_start a) bs"
  obtains bs' x' s' d' where "p = x' + 16" "z \<le> s'" "tlsf_inv (a', m') bs'" "pool_start a' = pool_start a"
    "used_set (pool_start a) bs' = insert (x', s', d') (used_set (pool_start a) bs)" "x' \<notin> fst ` used_set (pool_start a) bs" "p < 2 ^ 62"
  using assms(1) used_allocated that unfolding alloc_ok_def by (metis (no_types, lifting))

lemma reallocate_moves:
  assumes inv: "tlsf_inv (a, m) bs" and u: "(x, s, d) \<in> used_set (pool_start a) bs" and p: "unat ptr = x + 16"
    and al: "tlsf_allocate sz al off (a, m) = Inr (word_of_nat q, a1, m1)" "unat sz \<le> z" "alloc_ok a bs q z a1 m1"
  defines "n \<equiv> min s (unat sz)"
  shows "\<exists>a' m' bs'. tlsf_deallocate ptr (a1, mem_write (unat (word_of_nat q :: u64)) (mem_read (unat ptr) n m1) m1) = Inr (a', m') \<and>
    tlsf_inv (a', m') bs' \<and> pool_start a' = pool_start a \<and> reallocated (pool_start a) bs (x, s, d) q (unat sz) bs'"
proof -
  obtain bs1 x' s' d' where b: "q = x' + 16" "z \<le> s'" "tlsf_inv (a1, m1) bs1" "pool_start a1 = pool_start a"
    "used_set (pool_start a) bs1 = insert (x', s', d') (used_set (pool_start a) bs)" "x' \<notin> fst ` used_set (pool_start a) bs" "q < 2 ^ 62"
    using al(3) u by (rule allocated_used)
  have uq: "unat (word_of_nat q :: u64) = x' + 16" using b(1,7) by (subst unat_word_of_nat) simp_all
  have d: "d = mem_read (x + 16) s m1" by (rule used_content(1) [OF b(3)]) (simp add: b(4,5) u)
  define m2 where "m2 = mem_write (x' + 16) (mem_read (x + 16) n m1) m1"
  have n: "n \<le> s" "n \<le> s'" "n \<le> unat sz" using al(2) b(2) by (auto simp: n_def)
  have "same_but m1 m2 {x' + 16..<x' + 16 + s'}" using n(2) by (auto simp: same_but_def m2_def mem_write_def)
  from write_used [OF b(3) _ this, of d', unfolded b(4)] b(5) obtain bs2 where
    w: "tlsf_inv (a1, m2) bs2" "used_set (pool_start a) bs2 = insert (x', s', mem_read (x' + 16) s' m2) (used_set (pool_start a) bs1 - {(x', s', d')})" by auto
  have "x \<noteq> x'" using b(6) u by force
  then have u2: "(x, s, d) \<in> used_set (pool_start a1) bs2" using w(2) b(4,5) u by simp
  from deallocate_used [OF w(1) u2 p, unfolded b(4)] obtain a' m' bs' where
    r: "tlsf_deallocate ptr (a1, m2) = Inr (a', m')" "tlsf_inv (a', m') bs'" "pool_start a' = pool_start a"
    "used_set (pool_start a) bs' = used_set (pool_start a) bs2 - {(x, s, d)}" by blast
  have "take n (mem_read (x' + 16) s' m2) = mem_read (x' + 16) n m2" using n(2) by (simp add: mem_read_def take_map)
  also have "\<dots> = mem_read (x + 16) n m1" by (simp add: m2_def)
  also have "\<dots> = take n d" using n(1) by (simp add: d mem_read_def take_map)
  finally have "take n (mem_read (x' + 16) s' m2) = take n d" .
  moreover have "used_set (pool_start a) bs' = insert (x', s', mem_read (x' + 16) s' m2) (used_set (pool_start a) bs - {(x, s, d)})"
  proof -
    have "(x', s', d') \<notin> used_set (pool_start a) bs" using b(6) image_eqI [of x' fst "(x', s', d')"] by auto
    then show ?thesis unfolding r(4) w(2) b(5) using \<open>x \<noteq> x'\<close> by auto
  qed
  moreover have "x' \<notin> fst ` (used_set (pool_start a) bs - {(x, s, d)})" using b(6) by blast
  ultimately have "reallocated (pool_start a) bs (x, s, d) q (unat sz) bs'" unfolding reallocated_def prod.case n_def
    using b(1,2) al(2) by (intro exI [of _ x'] exI [of _ s'] exI [of _ "mem_read (x' + 16) s' m2"]) simp
  then show ?thesis using r p uq m2_def by auto
qed

lemma reallocate_in_place:
  assumes inv: "tlsf_inv (a, m) (xs @ (s, Some d) # ys)" and P: "pool_ok (c, m1) (pool_start a) (xs @ (s1, Some e) # ys1) {} L"
    and grow: "s1 = s \<and> ys1 = ys \<and> e = d \<or> (\<exists>s2. ys = (s2, None) # ys1 \<and> s1 = s + 8 + s2 \<and> take s e = d)"
    and z: "good_size z" "24 \<le> z" "z \<le> s1" "unat sz \<le> z"
  shows "\<exists>c' m' bs'. trim_used (end_of (pool_start a) xs) (word_of_nat z) (c, m1) = Inr (c', m') \<and>
    tlsf_inv (a\<lparr>control := c', tlsf_used_size := tlsf_used_size a + (block_size (end_of (pool_start a) xs) m' - word_of_nat s)\<rparr>, m') bs' \<and>
    reallocated (pool_start a) (xs @ (s, Some d) # ys) (end_of (pool_start a) xs, s, d) (end_of (pool_start a) xs + 16) (unat sz) bs'"
proof -
  let ?b = "pool_start a"
  let ?x = "end_of ?b xs"
  define s' where "s' = (if z + 32 \<le> s1 then z else s1)"
  define e' where "e' = (if z + 32 \<le> s1 then take z e else e)"
  define zs where "zs = (if z + 32 \<le> s1 then cons_free (s1 - (z + 8)) ys1 else ys1)"
  from trim_used_pool [OF P z(1,2)] obtain c' m' L' where t: "trim_used ?x (word_of_nat z) (c, m1) = Inr (c', m')"
    "pool_ok (c', m') ?b (xs @ (s', Some e') # zs) {} L'" by (auto simp: s'_def e'_def zs_def split: if_splits)
  let ?a = "a\<lparr>control := c', tlsf_used_size := tlsf_used_size a + (block_size ?x m' - word_of_nat s)\<rparr>"
  have c0: "coalesced (xs @ (s, Some d) # ys)" using inv by (simp add: tlsf_inv_def)
  have c1: "coalesced (xs @ (s1, Some e) # ys1)"
    using grow c0 unfolding coalesced_def by (auto simp: successively_append_iff successively_Cons)
  have "tlsf_inv (?a, m') (xs @ (s', Some e') # zs)"
  proof (rule tlsf_invI)
    show "pool_ok (control ?a, m') (pool_start ?a) (xs @ (s', Some e') # zs) {} L'" using t(2) by simp
    show "coalesced (xs @ (s', Some e') # zs)"
      using c1 coalesced_cons_free [of "xs @ [(s', Some e')]" s1 e ys1 "s1 - (z + 8)"]
      unfolding zs_def coalesced_def by (auto simp: successively_append_iff successively_Cons)
    have "used_bytes zs = used_bytes ys" using grow by (auto simp: zs_def)
    then show "tlsf_used_size ?a = word_of_nat (used_bytes (xs @ (s', Some e') # zs))"
      using used_word(1) [OF inv] pool_block(1) [OF t(2)] by simp
    have "end_of (?x + 8 + s') zs = end_of (?x + 8 + s) ys" using grow z(3) by (auto simp: zs_def s'_def add.assoc)
    then show "end_of (pool_start ?a) (xs @ (s', Some e') # zs) = pool_start ?a + 8 + pool_bytes (tlsf_pool_size ?a)"
      using inv by (simp add: tlsf_inv_def)
  qed
  moreover have "reallocated ?b (xs @ (s, Some d) # ys) (?x, s, d) (?x + 16) (unat sz) (xs @ (s', Some e') # zs)"
  proof -
  have "used_set (?x + 8 + s') zs = used_set (?x + 8 + s) ys"
    using grow z(3) by (auto simp: zs_def s'_def add.assoc)
  then have "used_set ?b (xs @ (s', Some e') # zs) = insert (?x, s', e') (used_set ?b (xs @ (s, Some d) # ys) - {(?x, s, d)})"
    using used_removed [of ?b xs s ys d] by auto
  moreover have "take (min s (unat sz)) e' = take (min s (unat sz)) d"
  proof -
    have "take s e = take s d"
    proof -
      have "length d = s" using used_content(1) [OF inv, of ?x s d] by simp
      then show ?thesis using grow by auto
    qed
    then have "take (min s (unat sz)) e = take (min s (unat sz)) d" by (metis min.commute take_take)
    then show ?thesis using z(4) by (auto simp: e'_def min_def)
  qed
  moreover have "unat sz \<le> s'" using z(3,4) by (simp add: s'_def)
  moreover have "?x \<notin> fst ` (used_set ?b (xs @ (s, Some d) # ys) - {(?x, s, d)})"
    using used_unique [of ?x s d ?b "xs @ (s, Some d) # ys"] by force
  ultimately show ?thesis unfolding reallocated_def prod.case by (intro exI [of _ ?x] exI [of _ s'] exI [of _ e']) simp
  qed
  ultimately show ?thesis using t(1) by blast
qed

section \<open>Limits\<close>

text \<open>The user offset plays no role for the base alignment, so an offset that is no multiple of it leaves the user pointer unaligned.\<close>

lemma base_alignment_ignores_offset: "al \<le> 8 \<Longrightarrow> tlsf_allocate sz al off s = tlsf_allocate sz al off' s"
  by (simp add: tlsf_allocate_def k_align_size_def split_beta not_less [symmetric])

text \<open>A request of four gigabytes or more is adjusted to size zero, with which \<open>reallocate\<close> would trim the block in place.\<close>

lemma huge_request_adjusted_to_zero: "adjust_request_size 0x100000000 8 = Inr 0"
  by code_simp

text \<open>An offset above a stricter alignment fails.\<close>

lemma offset_above_alignment_fails: "8 < al \<Longrightarrow> \<not> off \<le> al \<Longrightarrow> tlsf_allocate sz al off s = Inl Assertion_Failed"
  by (cases s) (simp add: tlsf_allocate_def allocate_aligned_def k_align_size_def)

end
