(* ===== verification/Tlsf_Correct.thy ===== *)
theory Tlsf_Correct
  imports Tlsf_Allocator
begin

text \<open>
  Correctness of the operations of \<open>kb::memory::TLSFAllocator\<close> as a whole: reallocation, construction, and the two
  integrity checks \<open>check_pool\<close> and \<open>check_consistency\<close>, which stay silent on every state the operations reach.
\<close>

unbundle bit_operations_syntax

section \<open>Reallocation\<close>

lemma pool_next:
  assumes P: "pool_ok (c, m) b (xs @ (s, k) # ys) X L"
  shows "is_free (end_of b xs + 8 + s) m \<longleftrightarrow> (\<exists>s2 zs. ys = (s2, None) # zs)"
    "ys = (s2, None) # zs \<Longrightarrow> block_size (end_of b xs + 8 + s) m = word_of_nat s2 \<and> s + 8 + s2 < 2 ^ 31"
proof -
  show "is_free (end_of b xs + 8 + s) m \<longleftrightarrow> (\<exists>s2 zs. ys = (s2, None) # zs)" by (rule next_free_flag [OF P])
  assume "ys = (s2, None) # zs"
  then have Q: "pool_ok (c, m) b ((xs @ [(s, k)]) @ (s2, None) # zs) X L" using P by simp
  then show "block_size (end_of b xs + 8 + s) m = word_of_nat s2 \<and> s + 8 + s2 < 2 ^ 31"
    using pool_block(1) [OF Q] pool_sizes(8) [OF Q] pool_sizes(7) [OF P] by simp
qed

lemma less_of_nat: "n < 2 ^ 63 \<Longrightarrow> k < 2 ^ 63 \<Longrightarrow> (word_of_nat n :: u64) < word_of_nat k \<longleftrightarrow> n < k"
  by (simp add: word_less_nat_alt unat_word_of_nat)

lemma free_after:
  "(end_of b xs + 8 + s, t) \<in> free_set b (xs @ (s, Some d) # ys) \<Longrightarrow> \<exists>zs. ys = (t, None) # zs"
  using free_set_range [of "end_of b xs + 8 + s" t b xs]
  by (cases "(end_of b xs + 8 + s, ys)" rule: cons_free.cases) (auto dest: free_set_range)

text \<open>
  What a request needs in order to fail: the block at \<open>x\<close> is smaller, also together with a free block that follows it, and no
  free block is large enough for an allocation, or the offset exceeds a strict alignment.
\<close>

definition no_room :: "nat \<Rightarrow> pool_block list \<Rightarrow> nat \<times> nat \<times> u8 list \<Rightarrow> u64 \<Rightarrow> u64 \<Rightarrow> u64 \<Rightarrow> bool" where
  "no_room b bs = (\<lambda>(x, s, d) sz al off. s < unat sz \<and> (\<forall>t. (x + 8 + s, t) \<in> free_set b bs \<longrightarrow> s + 8 + t < unat sz) \<and>
     (8 < unat al \<and> unat al < unat off \<or> (\<forall>(y, t) \<in> free_set b bs. t < enough sz al)))"

text \<open>
  The outcome of a reallocation: a pointer to a block with the old bytes, at the old address or, for a growing block, at an
  aligned one; or the assertion of an allocation that finds no room.
\<close>

definition realloc_ok ::
  "tlsf_allocator \<Rightarrow> pool_block list \<Rightarrow> nat \<times> nat \<times> u8 list \<Rightarrow> u64 \<Rightarrow> u64 \<Rightarrow> u64 \<Rightarrow> fault + u64 \<times> tlsf_allocator \<times> memory \<Rightarrow> bool" where
  "realloc_ok a bs old sz al off res \<longleftrightarrow> res = Inl Assertion_Failed \<and> no_room (pool_start a) bs old sz al off \<or>
     (\<exists>p a' m' bs'. res = Inr (p, a', m') \<and> tlsf_inv (a', m') bs' \<and> pool_start a' = pool_start a \<and>
        reallocated (pool_start a) bs old (unat p) (unat sz) bs' \<and>
        (unat p = fst old + 16 \<or> fst (snd old) < unat sz \<and> (unat p + unat off) mod unat al = 0))"

lemma reallocate_spec:
  assumes inv: "tlsf_inv (a, m) bs" and u: "(x, s, d) \<in> used_set (pool_start a) bs" and p: "unat ptr = x + 16"
    and rq: "tlsf_request sz al off"
  shows "realloc_ok a bs (x, s, d) sz al off (tlsf_reallocate ptr sz al off (a, m))"
proof -
  let ?b = "pool_start a"
  from u obtain xs ys where b: "bs = xs @ (s, Some d) # ys" "x = end_of ?b xs" by (rule used_split)
  obtain L where P: "pool_ok (control a, m) ?b (xs @ (s, Some d) # ys) {} L" using inv by (auto simp: tlsf_inv_def b(1))
  note B = pool_block [OF P, folded b(2)] and N = pool_next [OF P, folded b(2)] and G = pool_sizes [OF P, folded b(2)]
  have x: "from_void_ptr (unat ptr) = x" "ptr \<noteq> 0" using p by (auto simp: from_void_ptr_def block_consts)
  have sz: "sz \<noteq> 0" "0 < unat sz" "unat sz < 2 ^ 30" using rq by (auto simp: tlsf_request_def word_less_nat_alt)
  obtain z where z: "adjust_request_size sz k_align_size = Inr (word_of_nat z)" "good_size z" "24 \<le> z" "unat sz \<le> z"
    "z = 24 \<or> z < unat sz + 8" using adjust_8 [OF sz(2,3)] by blast
  have small: "z < 2 ^ 31" "s < 2 ^ 31" using z(2) G(1) by (auto simp: good_size_def)
  have lt: "(word_of_nat s :: u64) < word_of_nat z \<longleftrightarrow> s < z" using small by (intro less_of_nat) auto
  define combined where "combined = word_of_nat s + block_size (x + 8 + s) m + k_block_header_overhead"
  let ?place = "\<lambda>st. res_bind (trim_used x (word_of_nat z) st) (\<lambda>(c', m').
      Inr (ptr, a\<lparr>control := c', tlsf_used_size := tlsf_used_size a + (block_size x m' - word_of_nat s)\<rparr>, m'))"
  have re: "tlsf_reallocate ptr sz al off (a, m) =
      (if s < z \<and> (\<not> is_free (x + 8 + s) m \<or> combined < word_of_nat z)
       then res_bind (tlsf_allocate sz al off (a, m)) (\<lambda>(newptr, a1, m1).
              if newptr \<noteq> 0
              then res_bind (tlsf_deallocate ptr
                     (a1, mem_write (unat newptr) (mem_read (unat ptr) (unat (min (word_of_nat s) sz)) m1) m1)) (\<lambda>s. Inr (newptr, s))
              else Inr (newptr, a1, m1))
       else res_bind (if s < z
              then res_bind (merge_next x (control a, m)) (\<lambda>(_, c, m1). res_bind (mark_as_used x m1) (\<lambda>m2. Inr (c, m2)))
              else Inr (control a, m)) ?place)"
    using sz(1) x B z(1) by (simp add: tlsf_reallocate_def Let_def lt combined_def cong: if_cong)
  have in_place: "realloc_ok a bs (x, s, d) sz al off (?place (c1, m1))"
    if "pool_ok (c1, m1) ?b (xs @ (s1, Some e) # ys1) {} L1" "z \<le> s1"
      "s1 = s \<and> ys1 = ys \<and> e = d \<or> (\<exists>s2. ys = (s2, None) # ys1 \<and> s1 = s + 8 + s2 \<and> take s e = d)" for c1 m1 s1 e ys1 L1
  proof -
    from reallocate_in_place [OF inv [unfolded b(1)] that(1,3) z(2,3) that(2) z(4), folded b(2)] obtain c' m' bs' where
      "trim_used x (word_of_nat z) (c1, m1) = Inr (c', m')"
      "tlsf_inv (a\<lparr>control := c', tlsf_used_size := tlsf_used_size a + (block_size x m' - word_of_nat s)\<rparr>, m') bs'"
      "reallocated ?b bs (x, s, d) (x + 16) (unat sz) bs'" unfolding b(1) by blast
    then show ?thesis unfolding realloc_ok_def p [symmetric] by (auto simp: p)
  qed
  show ?thesis
  proof (cases "s < z")
    case False
    then show ?thesis using re in_place [OF P] by simp
  next
    case True
    show ?thesis
    proof (cases "\<not> is_free (x + 8 + s) m \<or> combined < word_of_nat z")
      case False
      then obtain s2 ys1 where ys: "ys = (s2, None) # ys1" using N(1) by blast
      have c: "combined = word_of_nat (s + 8 + s2)" "s + 8 + s2 < 2 ^ 31"
        using N(2) [OF ys] by (simp_all add: combined_def block_consts)
      then have "z \<le> s + 8 + s2" using False small(1) less_of_nat [of "s + 8 + s2" z] by auto
      moreover from merge_next_used [OF P [unfolded ys], folded b(2)] obtain c' m1 m2 e L' where
        "merge_next x (control a, m) = Inr (x, c', m1)" "mark_as_used x m1 = Inr m2"
        "pool_ok (c', m2) ?b (xs @ (s + 8 + s2, Some e) # ys1) {} L'" "take s e = d" by blast
      ultimately show ?thesis using re True False in_place [of c' m2 "s + 8 + s2" e ys1 L'] ys by simp
    next
      case move: True
      have fits: "k < unat sz" if "k < z" "24 \<le> k" "k mod 8 = 0" for k
      proof -
        have "z mod 8 = 0" using z(2) by (simp add: good_size_def)
        with that z(5) show ?thesis by presburger
      qed
      have s: "s mod 8 = 0" "24 \<le> s" using G(1,2) by (simp_all add: good_size_def)
      have "s + 8 + t < unat sz" if free: "(x + 8 + s, t) \<in> free_set ?b bs" for t
      proof -
        obtain zs where ys: "ys = (t, None) # zs" using free_after free unfolding b by blast
        then have c: "combined = word_of_nat (s + 8 + t)" "s + 8 + t < 2 ^ 31" "good_size t"
          using N(2) [OF ys] G(3) by (simp_all add: combined_def block_consts)
        have "is_free (x + 8 + s) m" using N(1) ys by blast
        then have "s + 8 + t < z" using move c(1,2) small(1) less_of_nat [of "s + 8 + t" z] by auto
        then show ?thesis by (rule fits) (use s c(3) in \<open>auto simp: good_size_def mod_add_eq [of _ 8, symmetric]\<close>)
      qed
      then have grow: "s < unat sz" "\<forall>t. (x + 8 + s, t) \<in> free_set ?b bs \<longrightarrow> s + 8 + t < unat sz"
        using fits [OF True s(2,1)] by auto
      from allocate_spec [OF inv rq] show ?thesis
      proof (elim disjE exE conjE)
        fix q w a1 m1
        assume al: "tlsf_allocate sz al off (a, m) = Inr (word_of_nat q, a1, m1)" "unat sz \<le> w" "alloc_ok a bs q w a1 m1"
          "(q + unat off) mod unat al = 0"
        from reallocate_moves [OF inv u p al(1-3)] obtain a' m' bs' where r:
          "tlsf_deallocate ptr (a1, mem_write (unat (word_of_nat q :: u64)) (mem_read (unat ptr) (min s (unat sz)) m1) m1) = Inr (a', m')"
          "tlsf_inv (a', m') bs'" "pool_start a' = pool_start a" "reallocated ?b bs (x, s, d) q (unat sz) bs'" by blast
        have q: "q < 2 ^ 62" "q \<noteq> 0" using al(3) r(4) by (auto simp: alloc_ok_def reallocated_def)
        then have uq: "unat (word_of_nat q :: u64) = q" by (intro unat_word_of_nat) simp
        then have "word_of_nat q \<noteq> (0 :: u64)" using q(2) by (metis unat_0)
        moreover have "unat (min (word_of_nat s) sz) = min s (unat sz)"
          using good_size_bit(3) [OF G(1)] by (simp add: min_def word_le_nat_alt)
        ultimately have "tlsf_reallocate ptr sz al off (a, m) = Inr (word_of_nat q, a', m')"
          unfolding re using True move al(1) r(1) by simp
        then show ?thesis using r(2-4) uq grow(1) al(4) by (auto simp: realloc_ok_def)
      qed (use True move re grow in \<open>simp_all add: realloc_ok_def no_room_def\<close>)
    qed
  qed
qed

section \<open>Construction\<close>

lemma align_down_8:
  assumes "unat sz < 2 ^ 32"
  shows "align_down sz k_align_size = Inr (word_of_nat (unat sz div 8 * 8))"
proof -
  have a: "k_align_size - 1 = (mask 3 :: u64)" "is_pow2 k_align_size" by (simp_all add: k_align_size_def is_pow2_def mask_eq_exp_minus_1)
  have "sz = (sz AND mask 3) + (sz AND NOT (mask 3))"
    by (subst disjunctive_add) (auto simp: bit_and_iff bit_not_iff bit_eq_iff bit_or_iff)
  then have "sz - (sz AND mask 3) = sz AND NOT (mask 3)" by (metis add_diff_cancel_left')
  also have "\<dots> = word_of_nat (unat sz div 8 * 8)" by (rule word_of_unat_eq) (simp only: and_not_mask, simp)
  finally show ?thesis using a by (simp add: align_down_def)
qed

lemma new_control_ok: "lists_ok (snd (new_control n m)) (fst (new_control n m)) (\<lambda>_ _. [])"
  by (simp add: new_control_def lists_ok_def k_fl_index_count_def k_sl_index_count_def)

lemma lists_ok_frame:
  assumes "lists_ok m c L" "same_but m m' A" "\<And>x. x \<in> nodes L \<Longrightarrow> links x \<inter> A = {}"
  shows "lists_ok m' c L"
proof -
  have "dll m' (null_block c) (null_block c) (control_blocks c ! f ! s) (L f s) =
      dll m (null_block c) (null_block c) (control_blocks c ! f ! s) (L f s)" for f s
    by (rule dll_frame [OF assms(2)]) (use assms(3) nodesI in blast)
  then show ?thesis using assms(1) unfolding lists_ok_def by simp
qed

lemma first_block:
  fixes c m
  assumes ok: "lists_ok m c (\<lambda>_ _. [])" and b: "b mod 8 = 0" "0 < null_block c" "null_block c + 32 \<le> b" "b + 16 < 2 ^ 63"
    and s: "good_size s" "24 \<le> s" and h: "load64 (b + 8) m = hdr s True False"
  shows "\<exists>c' m' L. insert_block b (c, m) = Inr (c', m') \<and> lists_ok m' c' L \<and> listed L {(b, s)} {} \<and> nodes L = {b} \<and>
    null_block c' = null_block c \<and> load64 (b + 8) m' = hdr s True False"
proof -
  let ?f = "fst (cls s)" and ?t = "snd (cls s)" and ?N = "{null_block c, b}"
  let ?L = "put_list ?f ?t [b] (\<lambda>_ _. [])"
  have sep: "sep_lists (null_block c) (\<lambda>_ _. []) ?N" using b by (auto simp: sep_lists_def apart_def nodes_def)
  have i: "?f < 25" "?t < 32" using cls_ok [OF s(1)] by auto
  have "b \<in> ?N" "b \<notin> nodes (\<lambda>_ _. [])" "b \<noteq> null_block c" using b(3) by (auto simp: nodes_def)
  from insert_free_block_ok [OF ok sep i this b(1,4)] obtain c' m' where r:
    "insert_free_block b (int ?f) (int ?t) (c, m) = Inr (c', m')" "lists_ok m' c' ?L" "null_block c' = null_block c"
    "same_but m m' (\<Union>y \<in> insert (null_block c) (insert b (nodes (\<lambda>_ _. []))). links y)" by blast
  have "load64 (b + 8) m' = load64 (b + 8) m"
    by (rule same_but_load [OF r(4)]) (use b(3) in \<open>auto simp: nodes_def links_def\<close>)
  moreover have "insert_block b (c, m) = Inr (c', m')"
    using r(1) cls_ok(1) [OF s(1)] block_hdr(1) [OF h s(1)] by (simp add: insert_block_def)
  moreover have "listed ?L {(b, s)} {}" "nodes ?L = {b}" by (auto simp: listed_def nodes_def put_list_if prod_eq_iff split: if_splits)
  ultimately show ?thesis using r(2,3) h by (intro exI [of _ c'] exI [of _ m'] exI [of _ ?L]) simp
qed

lemma create_pool_ok:
  assumes ok: "lists_ok m c (\<lambda>_ _. [])" and b: "pool mod 8 = 0" "0 < null_block c" "null_block c + 40 \<le> pool"
    and s: "40 \<le> unat sz" "unat sz < 2 ^ 31" "pool + unat sz < 2 ^ 62"
  shows "\<exists>c' m' L. create_pool pool sz (c, m) = Inr (c', m') \<and> pool_ok (c', m') (pool - 8) [(pool_bytes sz, None)] {} L"
proof -
  define b s where "b = pool - 8" and "s = pool_bytes sz"
  have pool: "pool = b + 8" "b mod 8 = 0" "null_block c + 32 \<le> b"
    using b(1,3) unfolding b_def by (simp, presburger, simp)
  have s24: "24 \<le> s" "good_size s" "s + 16 \<le> unat sz"
    using assms(5,6) by (auto simp: s_def pool_bytes_def good_size_def)
  have bs: "b + 16 < 2 ^ 63" "b + 8 + s < 2 ^ 62" using assms(7) s24(3) by (auto simp: pool(1))
  have "unat (sz - k_pool_overhead) = unat sz - 16"
    using assms(5) by (subst unat_sub) (simp_all add: k_pool_overhead_def block_consts word_le_nat_alt)
  then have al: "align_down (sz - k_pool_overhead) k_align_size = Inr (word_of_nat s)"
    using align_down_8 [of "sz - k_pool_overhead"] assms(6) by (simp add: s_def pool_bytes_def)
  have rng: "k_block_size_min \<le> word_of_nat s \<and> word_of_nat s \<le> k_block_size_max"
    using s24 good_size_bit(3) [OF s24(2)] by (simp add: block_consts word_le_nat_alt good_size_def)
  have blk: "offset_to_block pool (- sint k_block_header_overhead) = b" by (simp add: offset_to_block_def block_consts pool(1))
  have pa: "(word_of_nat pool :: u64) mod k_align_size = 0"
  proof -
    have "unat (word_of_nat pool :: u64) = pool" using assms(7) by (intro unat_word_of_nat) simp
    then have "unat ((word_of_nat pool :: u64) mod k_align_size) = 0" using b(1) by (simp add: unat_mod k_align_size_def)
    then show ?thesis by (simp add: unat_eq_zero)
  qed
  define m1 where "m1 = set_prev_used b (set_free b (set_size b (word_of_nat s) m))"
  obtain f pf where "set_size b (word_of_nat s) m = store64 (b + 8) (hdr s f pf) m" using set_size_hdr [OF s24(2)] by blast
  then have m1: "m1 = store64 (b + 8) (hdr s True False) (store64 (b + 8) (hdr s True pf) (store64 (b + 8) (hdr s f pf) m))"
    unfolding m1_def by (simp add: block_hdr(5,8) [OF _ s24(2)])
  have "lists_ok m1 c (\<lambda>_ _. [])" using ok unfolding lists_ok_def by simp
  from first_block [OF this pool(2) b(2) pool(3) bs(1) s24(2,1)] obtain c' m2 L where i:
    "insert_block b (c, m1) = Inr (c', m2)" "lists_ok m2 c' L" "listed L {(b, s)} {}" "nodes L = {b}"
    "null_block c' = null_block c" "load64 (b + 8) m2 = hdr s True False" using m1 by auto
  let ?n = "b + 8 + s"
  define m3 where "m3 = store64 ?n (word_of_nat b) m2"
  have ln: "link_next b m2 = Inr (?n, m3)" using block_next(2) [OF i(6) s24(2)] s24(1) by (simp add: m3_def)
  define m4 where "m4 = set_prev_free ?n (set_used ?n (set_size ?n 0 m3))"
  have g0: "good_size 0" by (simp add: good_size_def)
  obtain f2 p2 where "set_size ?n 0 m3 = store64 (?n + 8) (hdr 0 f2 p2) m3" using set_size_hdr [OF g0] by auto
  then have m4: "m4 = store64 (?n + 8) (hdr 0 False True) (store64 (?n + 8) (hdr 0 False p2) (store64 (?n + 8) (hdr 0 f2 p2) m3))"
    unfolding m4_def by (simp add: block_hdr(6,7) [OF _ g0])
  have sb: "same_but m2 m4 {?n..<?n + 16}" unfolding m4 m3_def by (intro same_but_store same_but_refl) auto
  have "create_pool pool sz (c, m) = Inr (c', m4)"
    using pa al rng i(1) ln by (simp add: create_pool_def blk m1_def [symmetric] m4_def [symmetric] Let_def)
  moreover have "seg m4 b False 0 ([(s, None)] @ [sentinel])"
    using same_but_load [OF sb, of "b + 8"] i(6) s24(1) by (simp add: m4 m3_def mem_read_def)
  moreover have "lists_ok m4 c' L" by (rule lists_ok_frame [OF i(2) sb]) (use i(4) s24(1) in \<open>auto simp: links_def\<close>)
  moreover have "b + 8 + s < b + 2 ^ 31" using s24(3) assms(6) by simp
  ultimately show ?thesis using i(3,5) pool b(2) bs s24
    by (auto simp: pool_ok_def b_def [symmetric] s_def [symmetric] good_size_def intro!: exI [of _ c'] exI [of _ m4] exI [of _ L])
qed

lemma new_tlsf_spec:
  assumes wf: "wf_area ha" "0 < unat (area_begin ha)" and sz: "40 \<le> unat sz" "unat sz < 2 ^ 31"
  defines "b \<equiv> unat (area_head ha) + padding_nat (unat (area_head ha)) 64"
  shows "if b + (6544 + unat sz) \<le> unat (area_begin ha) + unat (area_size ha)
    then \<exists>a ha' m'. new_tlsf_allocator sz name (ha, m) = Inr (a, ha', m') \<and> tlsf_inv (a, m') [(pool_bytes sz, None)] \<and>
      tlsf_pool a = b + 6536
    else new_tlsf_allocator sz name (ha, m) = Inl Assertion_Failed"
proof -
  have u: "unat (sizeof_control + 8 + sz) = 6544 + unat sz"
    using sz by (subst unat_add) (simp_all add: sizeof_control_def)
  then have "unat (sizeof_control + 8 + sz) < 2 ^ 62" using sz by simp
  note r = require_slab_fits [OF wf(1) this, folded b_def, of name m, unfolded u]
  show ?thesis
  proof (cases "b + (6544 + unat sz) \<le> unat (area_begin ha) + unat (area_size ha)")
    case False
    then have "require_slab (sizeof_control + 8 + sz) name (ha, m) = Inl Assertion_Failed" using r by simp
    with False show ?thesis by (simp add: new_tlsf_allocator_def)
  next
    case True
    then obtain it :: slab_descriptor and ha' m1 where s: "require_slab (sizeof_control + 8 + sz) name (ha, m) = Inr ((slab_begin it, slab_end it), ha', m1)"
      "unat (slab_begin it) = b" using r unfolding if_P [OF True] by blast
    have b: "b mod 64 = 0" "0 < b" "b + 6544 + unat sz < 2 ^ 62"
      using padding_nat_props(2) [of 64 "unat (area_head ha)"] wf True by (auto simp: b_def wf_area_def)
    obtain c m2 where c: "new_control b m1 = (c, m2)" by fastforce
    have ok: "lists_ok m2 c (\<lambda>_ _. [])" "null_block c = b" using new_control_ok [of b m1] c by (auto simp: new_control_def)
    let ?p = "slab_begin it + sizeof_control"
    have up: "unat ?p = b + 6536" using s(2) b(3) by (subst unat_add) (simp_all add: sizeof_control_def)
    moreover have p8: "(b + 6536) mod 8 = 0" using b(1) by presburger
    ultimately have pad: "alignment_padding ?p k_align_size = Inr 0"
      using alignment_padding_nat [of k_align_size ?p] by (auto simp: k_align_size_def padding_nat_def unat_eq_zero)
    have "mem_fill (b + 6536) 0 k_alignment_padding_mark m2 = m2" by (rule ext) (auto simp: mem_fill_def)
    moreover obtain c' m3 L where k: "create_pool (b + 6536) sz (c, m2) = Inr (c', m3)"
      "pool_ok (c', m3) (b + 6536 - 8) [(pool_bytes sz, None)] {} L"
      using create_pool_ok [OF ok(1) p8 _ _ sz] b ok(2) by auto
    ultimately have "new_tlsf_allocator sz name (ha, m) =
        Inr (\<lparr>control = c', tlsf_pool = b + 6536, tlsf_pool_size = sz, tlsf_used_size = 0\<rparr>, ha', m3)"
      using s c pad up by (simp add: new_tlsf_allocator_def Let_def)
    moreover have "tlsf_inv (\<lparr>control = c', tlsf_pool = b + 6536, tlsf_pool_size = sz, tlsf_used_size = 0\<rparr>, m3) [(pool_bytes sz, None)]"
      using k(2) by (auto simp: tlsf_inv_def coalesced_def)
    ultimately show ?thesis using True by simp
  qed
qed

end
