(* ===== verification/Tlsf_Check.thy ===== *)
theory Tlsf_Check
  imports Tlsf_Correct
begin

text \<open>
  The debugging interface of \<open>kb::memory::TLSFAllocator\<close> (\<open>tlsf_allocator.cpp\<close>): \<open>walk_pool\<close> visits the blocks in address
  order; \<open>check_pool\<close> and \<open>check_consistency\<close> report violations of the invariant of the allocator. The loops follow pointers
  in memory, so they may run forever on a corrupt heap: that outcome is \<open>None\<close>.
\<close>

unbundle bit_operations_syntax

section \<open>Walking the pool\<close>

partial_function (option) walk_blocks ::
  "(nat \<Rightarrow> u64 \<Rightarrow> bool \<Rightarrow> 'r \<Rightarrow> 'r) \<Rightarrow> memory \<Rightarrow> block_ptr \<Rightarrow> 'r \<Rightarrow> (fault + 'r) option" where
  "walk_blocks walk m block r =
     (if block \<noteq> 0 \<and> \<not> is_last block m
      then (case get_next block m of Inl e \<Rightarrow> Some (Inl e)
            | Inr next \<Rightarrow> walk_blocks walk m next (walk (to_void_ptr block) (block_size block m) (\<not> is_free block m) r))
      else Some (Inr r))"

definition walk_pool ::
  "(nat \<Rightarrow> u64 \<Rightarrow> bool \<Rightarrow> 'r \<Rightarrow> 'r) \<Rightarrow> tlsf_allocator \<times> memory \<Rightarrow> 'r \<Rightarrow> (fault + 'r) option" where
  "walk_pool walk = (\<lambda>(a, m) r. walk_blocks walk m (offset_to_block (tlsf_pool a) (- sint k_block_header_overhead)) r)"

section \<open>Integrity reports\<close>

text \<open>One constructor per message, with the values it prints.\<close>

datatype integrity_log = Prev_Status_Incorrect nat | Block_Size_Incorrect nat u64 u64
  | Second_Level_Not_Null int int | List_Not_Null int int | No_Free_Blocks int int | Block_Null int int
  | Should_Be_Free int int block_ptr | Should_Have_Coalesced int int block_ptr | Too_Small int int block_ptr
  | Wrong_List int int block_ptr int int

definition log_if :: "bool \<Rightarrow> integrity_log \<Rightarrow> integrity_log list" where
  "log_if b l = (if b then [l] else [])"

type_synonym pool_integrity = "integrity_log list \<times> int \<times> int"

definition integrity_walker :: "memory \<Rightarrow> nat \<Rightarrow> u64 \<Rightarrow> bool \<Rightarrow> pool_integrity \<Rightarrow> pool_integrity" where
  "integrity_walker m ptr sz used = (\<lambda>(logs, prev_status, status).
     let block = from_void_ptr ptr;
         this_prev_status = (if is_prev_free block m then 1 else 0);
         this_status = (if is_free block m then 1 else 0)
     in (logs @ log_if (prev_status \<noteq> this_prev_status) (Prev_Status_Incorrect ptr)
           @ log_if (sz \<noteq> block_size block m) (Block_Size_Incorrect ptr sz (block_size block m)),
         this_status,
         status - (if prev_status \<noteq> this_prev_status then 1 else 0) - (if sz \<noteq> block_size block m then 1 else 0)))"

definition check_pool :: "tlsf_allocator \<times> memory \<Rightarrow> (fault + integrity_log list) option" where
  "check_pool s = map_option (map_sum id fst) (walk_pool (integrity_walker (snd s)) s ([], 0, 0))"

definition block_logs :: "int \<Rightarrow> int \<Rightarrow> block_ptr \<Rightarrow> memory \<Rightarrow> fault + integrity_log list" where
  "block_logs ii jj block m = res_bind (get_next block m) (\<lambda>next.
     case mapping_insert (block_size block m) of (fli, sli) \<Rightarrow>
     Inr (log_if (\<not> is_free block m) (Should_Be_Free ii jj block)
        @ log_if (is_prev_free block m) (Should_Have_Coalesced ii jj block)
        @ log_if (is_free next m) (Should_Have_Coalesced ii jj next)
        @ log_if (\<not> is_prev_free next m) (Should_Be_Free ii jj next)
        @ log_if (block_size block m < k_block_size_min) (Too_Small ii jj block)
        @ log_if (fli \<noteq> ii \<or> sli \<noteq> jj) (Wrong_List ii jj block fli sli)))"

partial_function (option) list_logs ::
  "int \<Rightarrow> int \<Rightarrow> block_ptr \<Rightarrow> memory \<Rightarrow> block_ptr \<Rightarrow> integrity_log list \<Rightarrow> (fault + integrity_log list) option" where
  "list_logs ii jj nil m block logs =
     (if block \<noteq> nil
      then (case block_logs ii jj block m of Inl e \<Rightarrow> Some (Inl e)
            | Inr ls \<Rightarrow> list_logs ii jj nil m (next_free block m) (logs @ ls))
      else Some (Inr logs))"

definition class_logs :: "int \<Rightarrow> int \<Rightarrow> control \<times> memory \<Rightarrow> integrity_log list \<Rightarrow> (fault + integrity_log list) option" where
  "class_logs ii jj = (\<lambda>(c, m) logs.
     case res_bind (shl 1 ii) (\<lambda>fbit. res_bind (arr_at (sl_bitmap c) ii) (\<lambda>sl_list.
          res_bind (shl 1 jj) (\<lambda>sbit. res_bind (list_head c ii jj) (\<lambda>block. Inr (fbit, sl_list, sbit, block)))))
     of Inl e \<Rightarrow> Some (Inl e)
     | Inr (fbit, sl_list, sbit, block) \<Rightarrow>
       let fl_map = fl_bitmap c AND fbit;
           sl_map = sl_list AND sbit;
           logs1 = logs @ log_if (fl_map = 0 \<and> sl_map \<noteq> 0) (Second_Level_Not_Null ii jj)
       in if sl_map = 0 then Some (Inr (logs1 @ log_if (block \<noteq> null_block c) (List_Not_Null ii jj)))
          else list_logs ii jj (null_block c) m block
                 (logs1 @ log_if (sl_list = 0) (No_Free_Blocks ii jj) @ log_if (block = null_block c) (Block_Null ii jj)))"

fun check_classes :: "(int \<times> int) list \<Rightarrow> control \<times> memory \<Rightarrow> integrity_log list \<Rightarrow> (fault + integrity_log list) option" where
  "check_classes [] s logs = Some (Inr logs)"
| "check_classes ((ii, jj) # is) s logs =
     (case class_logs ii jj s logs of None \<Rightarrow> None | Some (Inl e) \<Rightarrow> Some (Inl e)
      | Some (Inr logs') \<Rightarrow> check_classes is s logs')"

definition check_consistency :: "tlsf_allocator \<times> memory \<Rightarrow> (fault + integrity_log list) option" where
  "check_consistency = (\<lambda>(a, m).
     check_classes (List.product (map int [0..<k_fl_index_count]) (map int [0..<k_sl_index_count])) (control a, m) [])"

declare walk_blocks.simps [code] and list_logs.simps [code]

section \<open>The walk\<close>

lemma pool_end:
  assumes "pool_ok (c, m) b bs X L"
  shows "is_last (end_of b bs) m" "is_prev_free (end_of b bs) m \<longleftrightarrow> fst (last_of False 0 b bs)"
proof -
  have "seg m b False 0 (bs @ [sentinel])" by (rule pool_okD(1) [OF assms])
  then obtain pf p where h: "last_of False 0 b bs = (pf, p)" "load64 (end_of b bs + 8) m = hdr 0 False pf" by (elim seg_midE) auto
  show "is_last (end_of b bs) m" "is_prev_free (end_of b bs) m \<longleftrightarrow> fst (last_of False 0 b bs)"
    using block_hdr(3,4) [OF h(2)] h(1) by (simp_all add: good_size_def)
qed

lemma walk_blocks_pool:
  assumes "pool_ok (c, m) b (xs @ ys) X L"
  shows "walk_blocks walk m (end_of b xs) r =
    Some (Inr (fold (\<lambda>(x, s, k). walk (x + 16) (word_of_nat s) (k \<noteq> None)) (blocks_at (end_of b xs) ys) r))"
  using assms
proof (induction ys arbitrary: xs r)
  case Nil
  then show ?case using pool_end(1) [of c m b xs X L] by (subst walk_blocks.simps) simp
next
  case (Cons y ys)
  obtain s k where y: "y = (s, k)" by fastforce
  note B = pool_block [OF Cons.prems [unfolded y]] and G = pool_sizes [OF Cons.prems [unfolded y]]
  have "pool_ok (c, m) b ((xs @ [(s, k)]) @ ys) X L" using Cons.prems y by simp
  note IH = Cons.IH [OF this]
  show ?case
    by (subst walk_blocks.simps) (use IH B G(6) in \<open>simp add: y to_void_ptr_def block_consts\<close>)
qed

lemma walk_pool_inv:
  assumes "tlsf_inv (a, m) bs"
  shows "walk_pool walk (a, m) r =
    Some (Inr (fold (\<lambda>(x, s, k). walk (x + 16) (word_of_nat s) (k \<noteq> None)) (blocks_at (pool_start a) bs) r))"
proof -
  obtain L where P: "pool_ok (control a, m) (pool_start a) ([] @ bs) {} L" using assms by (auto simp: tlsf_inv_def)
  have "offset_to_block (tlsf_pool a) (- sint k_block_header_overhead) = pool_start a"
    by (simp add: offset_to_block_def block_consts nat_diff_distrib)
  then show ?thesis using walk_blocks_pool [OF P, of walk r] by (simp add: walk_pool_def)
qed

lemma integrity_fold:
  assumes "pool_ok (c, m) b (xs @ ys) X L"
  shows "fst (fold (\<lambda>(x, s, k). integrity_walker m (x + 16) (word_of_nat s) (k \<noteq> None)) (blocks_at (end_of b xs) ys)
    ([], if fst (last_of False 0 b xs) then 1 else 0, n)) = []"
  using assms
proof (induction ys arbitrary: xs n)
  case (Cons y ys)
  obtain s k where y: "y = (s, k)" by fastforce
  note B = pool_block [OF Cons.prems [unfolded y]]
  have "pool_ok (c, m) b ((xs @ [(s, k)]) @ ys) X L" using Cons.prems y by simp
  note IH = Cons.IH [OF this]
  have "integrity_walker m (end_of b xs + 16) (word_of_nat s) (k \<noteq> None) ([], if fst (last_of False 0 b xs) then 1 else 0, n) =
      ([], if fst (last_of False 0 b (xs @ [(s, k)])) then 1 else 0, n)"
    using B(1,2,5) by (simp add: integrity_walker_def from_void_ptr_def block_consts log_if_def Let_def)
  then show ?case using IH [of n] by (simp add: y)
qed simp

section \<open>The free lists\<close>

lemma mapping_cls: "good_size z \<Longrightarrow> cls z = (f, s) \<Longrightarrow> mapping_insert (word_of_nat z) = (int f, int s)"
  using cls_ok(1) [of z] by simp

lemma free_block_logs:
  assumes P: "pool_ok (c, m) b bs X L" and co: "coalesced bs" and x: "(x, z) \<in> free_set b bs" and f: "cls z = (f, s)"
  shows "block_logs (int f) (int s) x m = Inr []"
proof -
  from x obtain xs ys where b: "bs = xs @ (z, None) # ys" "x = end_of b xs" by (rule free_split)
  note P' = P [unfolded b(1)]
  note B = pool_block [OF P', folded b(2)] and G = pool_sizes [OF P', folded b(2)]
  have "\<not> fst (last_of False 0 b xs)" using co unfolding b(1) coalesced_def
    by (cases xs rule: rev_cases) (auto simp: successively_append_iff)
  then have 1: "\<not> is_prev_free x m" using B(5) by simp
  have 2: "\<not> is_free (x + 8 + z) m" using next_free_flag [OF P', folded b(2)] co unfolding b(1) coalesced_def
    by (auto simp: successively_append_iff successively_Cons)
  have 3: "is_prev_free (x + 8 + z) m"
  proof (cases ys)
    case Nil
    then show ?thesis using pool_end(2) [OF P'] b(2) by simp
  next
    case (Cons y zs)
    obtain t k where "y = (t, k)" by fastforce
    then have "pool_ok (c, m) b ((xs @ [(z, None)]) @ (t, k) # zs) X L" using P' Cons by simp
    from pool_block(5) [OF this] show ?thesis using b(2) by simp
  qed
  have 4: "\<not> word_of_nat z < k_block_size_min"
    using G(2) good_size_bit(3) [OF G(1)] by (simp add: block_consts word_less_nat_alt)
  show ?thesis using B 1 2 3 4 mapping_cls [OF G(1) f] by (simp add: block_logs_def log_if_def)
qed

lemma list_logs_silent:
  "dll m n p h xs \<Longrightarrow> n \<notin> set xs \<Longrightarrow> \<forall>x \<in> set xs. block_logs ii jj x m = Inr [] \<Longrightarrow> list_logs ii jj n m h logs = Some (Inr logs)"
proof (induction xs arbitrary: p h)
  case Nil
  then show ?case by (subst list_logs.simps) simp
next
  case (Cons x xs)
  have "list_logs ii jj n m (next_free x m) logs = Some (Inr logs)" using Cons by auto
  then show ?case using Cons.prems by (subst list_logs.simps) simp
qed

lemma class_logs_silent:
  assumes P: "pool_ok (c, m) b bs {} L" and co: "coalesced bs" and i: "f < 25" "s < 32"
  shows "class_logs (int f) (int s) (c, m) [] = Some (Inr [])"
proof -
  note D = pool_okD [OF P] and O = lists_okD [OF pool_okD(8) [OF P]]
  have l: "f < length (sl_bitmap c)" using O(1) i(1) by simp
  have fl: "fl_bitmap c AND push_bit f 1 = 0 \<longleftrightarrow> \<not> bit (fl_bitmap c) f"
    and sl: "sl_bitmap c ! f AND push_bit s 1 = 0 \<longleftrightarrow> \<not> bit (sl_bitmap c ! f) s"
    by (simp_all only: bit_iff_and_push_bit_not_eq_0 not_not)
  have dll: "dll m (null_block c) (null_block c) (control_blocks c ! f ! s) (L f s)" by (rule O(4) [OF i])
  have n: "null_block c \<notin> set (L f s)"
    using sep_listsD(6) [OF pool_sep [OF P]] nodesI by blast
  show ?thesis
  proof (cases "L f s = []")
    case True
    then have "\<not> bit (sl_bitmap c ! f) s" "control_blocks c ! f ! s = null_block c" using O(5) [OF i] dll by auto
    then show ?thesis using i l fl sl list_head_ok(1) [OF D(8) i]
      by (simp add: class_logs_def log_if_def Let_def del: push_bit_of_1)
  next
    case False
    then have b: "bit (sl_bitmap c ! f) s" "sl_bitmap c ! f \<noteq> 0" "bit (fl_bitmap c) f" using O(5) [OF i] O(6) [of f] i by auto
    have h: "control_blocks c ! f ! s \<noteq> null_block c" using dll n False by (cases "L f s") auto
    have "block_logs (int f) (int s) x m = Inr []" if "x \<in> set (L f s)" for x
      using D(9) that free_block_logs [OF P co] unfolding listed_def by blast
    then have "list_logs (int f) (int s) (null_block c) m (control_blocks c ! f ! s) [] = Some (Inr [])"
      using list_logs_silent [OF dll n] by blast
    then show ?thesis using i l b h fl sl list_head_ok(1) [OF D(8) i]
      by (simp add: class_logs_def log_if_def Let_def del: push_bit_of_1)
  qed
qed

lemma check_classes_silent:
  "(\<And>ii jj. (ii, jj) \<in> set is \<Longrightarrow> class_logs ii jj s [] = Some (Inr [])) \<Longrightarrow> check_classes is s [] = Some (Inr [])"
  by (induction "is") auto

lemma checks_silent:
  assumes "tlsf_inv (a, m) bs"
  shows "check_pool (a, m) = Some (Inr [])" "check_consistency (a, m) = Some (Inr [])"
proof -
  obtain L where P: "pool_ok (control a, m) (pool_start a) bs {} L" and co: "coalesced bs" using assms by (auto simp: tlsf_inv_def)
  show "check_pool (a, m) = Some (Inr [])"
    using integrity_fold [of "control a" m "pool_start a" "[]" bs] P by (simp add: check_pool_def walk_pool_inv [OF assms])
  show "check_consistency (a, m) = Some (Inr [])" unfolding check_consistency_def prod.case
    by (rule check_classes_silent) (use class_logs_silent [OF P co] in \<open>auto simp: k_fl_index_count_def k_sl_index_count_def\<close>)
qed

end
