(* ===== verification/Tlsf_Store.thy ===== *)
theory Tlsf_Store
  imports Tlsf_Check
begin

text \<open>
  The TLSF allocator as a store of blocks: the abstraction maps the pointers a client holds to the bytes it may use. Every operation
  refines the obvious operation on the map, and the allocator provides the interface the memory arena relies on.
\<close>

section \<open>The abstraction\<close>

definition stores :: "nat \<Rightarrow> pool_block list \<Rightarrow> (nat \<rightharpoonup> u8 list) \<Rightarrow> bool" where
  "stores b bs blocks \<longleftrightarrow> dom blocks = (\<lambda>(x, s, d). x + 16) ` used_set b bs \<and>
     (\<forall>x s d ds. (x, s, d) \<in> used_set b bs \<longrightarrow> blocks (x + 16) = Some ds \<longrightarrow> length ds \<le> s \<and> take (length ds) d = ds)"

definition tlsf_holds :: "tlsf_allocator \<times> memory \<Rightarrow> (nat \<rightharpoonup> u8 list) \<Rightarrow> bool" where
  "tlsf_holds = (\<lambda>(a, m) blocks. \<exists>bs. tlsf_inv (a, m) bs \<and> stores (pool_start a) bs blocks)"

lemma holdsE:
  assumes "tlsf_holds (a, m) blocks"
  obtains bs where "tlsf_inv (a, m) bs" "stores (pool_start a) bs blocks"
  using assms by (auto simp: tlsf_holds_def)

lemma holdsI: "tlsf_inv (a, m) bs \<Longrightarrow> stores b bs blocks \<Longrightarrow> pool_start a = b \<Longrightarrow> tlsf_holds (a, m) blocks"
  by (auto simp: tlsf_holds_def)

text \<open>A pointer of the client, and the block of the pool behind it.\<close>

lemma stores_block:
  assumes "stores b bs blocks" "blocks p = Some ds"
  obtains x s d where "p = x + 16" "(x, s, d) \<in> used_set b bs" "length ds \<le> s" "take (length ds) d = ds"
proof -
  have "p \<in> (\<lambda>(x, s, d). x + 16) ` used_set b bs" using assms by (auto simp: stores_def)
  then obtain x s d where x: "p = x + 16" "(x, s, d) \<in> used_set b bs" by auto
  then have "length ds \<le> s \<and> take (length ds) d = ds" using assms unfolding stores_def by blast
  with x show thesis by (intro that [of x s d]) simp_all
qed

lemma stores_free:
  assumes "stores b bs blocks" "x \<notin> fst ` used_set b bs"
  shows "blocks (x + 16) = None"
proof (rule ccontr)
  assume "blocks (x + 16) \<noteq> None"
  then obtain ds where "blocks (x + 16) = Some ds" by blast
  with assms(1) obtain y s d where "x + 16 = y + 16" "(y, s, d) \<in> used_set b bs" by (rule stores_block)
  with assms(2) show False by force
qed

lemma take_mem_read: "n \<le> s \<Longrightarrow> take n (mem_read a s m) = mem_read a n m"
  by (simp add: mem_read_def take_map)

lemma holds_read:
  assumes "tlsf_holds (a, m) blocks" "blocks p = Some ds"
  shows "mem_read p (length ds) m = ds" "0 < p" "p + length ds < 2 ^ 63"
proof -
  from assms(1) obtain bs where h: "tlsf_inv (a, m) bs" "stores (pool_start a) bs blocks" by (rule holdsE)
  from h(2) assms(2) obtain x s d where x: "p = x + 16" "(x, s, d) \<in> used_set (pool_start a) bs" "length ds \<le> s" "take (length ds) d = ds"
    by (rule stores_block)
  note u = used_content [OF h(1) x(2)]
  show "mem_read p (length ds) m = ds" "0 < p" "p + length ds < 2 ^ 63"
    using x(3,4) u take_mem_read [of "length ds" s "x + 16" m] by (auto simp: x(1))
qed

lemma holds_apart:
  assumes "tlsf_holds (a, m) blocks" "blocks p = Some ds" "blocks q = Some es" "p \<noteq> q"
  shows "{p..<p + length ds} \<inter> {q..<q + length es} = {}"
proof -
  from assms(1) obtain bs where h: "stores (pool_start a) bs blocks" by (rule holdsE)
  from h assms(2) obtain x s d where x: "p = x + 16" "(x, s, d) \<in> used_set (pool_start a) bs" "length ds \<le> s" by (rule stores_block)
  from h assms(3) obtain y t e where y: "q = y + 16" "(y, t, e) \<in> used_set (pool_start a) bs" "length es \<le> t" by (rule stores_block)
  show ?thesis using used_apart [OF x(2) y(2)] assms(4) x(1,3) y(1,3) by auto
qed

lemma used_set_finite: "finite (used_set b bs)"
  by (rule finite_subset [of _ "(\<lambda>(x, s, k). (x, s, the k)) ` set (blocks_at b bs)"]) (force simp: used_set_def)+

lemma holds_finite: "tlsf_holds (a, m) blocks \<Longrightarrow> finite (dom blocks)"
  by (erule holdsE) (simp add: stores_def used_set_finite)

text \<open>One block of the pool is removed, added, or replaced.\<close>

lemma stores_remove:
  assumes "stores b bs blocks" "(x, s, d) \<in> used_set b bs" "used_set b bs' = used_set b bs - {(x, s, d)}"
  shows "stores b bs' (blocks(x + 16 := None))"
proof -
  have other: "y \<noteq> x" if "(y, t, e) \<in> used_set b bs - {(x, s, d)}" for y t e using that used_unique [OF assms(2)] by auto
  then have "(\<lambda>(x, s, d). x + 16) ` used_set b bs' = (\<lambda>(x, s, d). x + 16) ` used_set b bs - {x + 16}"
    unfolding assms(3) by force
  then show ?thesis using assms(1) other unfolding stores_def assms(3) by auto
qed

lemma stores_add:
  assumes "stores b bs blocks" "x \<notin> fst ` used_set b bs" "used_set b bs' = insert (x, s, d) (used_set b bs)" "length ds \<le> s" "take (length ds) d = ds"
  shows "stores b bs' (blocks(x + 16 \<mapsto> ds))"
proof -
  have "y \<noteq> x" if "(y, t, e) \<in> used_set b bs" for y t e using that assms(2) by force
  then show ?thesis using assms(1,4,5) unfolding stores_def assms(3) by auto
qed

lemma stores_replace:
  assumes "stores b bs blocks" "(x, s, d) \<in> used_set b bs" "x' \<notin> fst ` (used_set b bs - {(x, s, d)})"
    "used_set b bs' = insert (x', s', d') (used_set b bs - {(x, s, d)})" "length ds \<le> s'" "take (length ds) d' = ds"
  shows "stores b bs' ((blocks(x + 16 := None))(x' + 16 \<mapsto> ds))"
proof -
  from assms(2) obtain xs ys where b: "bs = xs @ (s, Some d) # ys" "x = end_of b xs" by (rule used_split)
  have u: "used_set b (xs @ (s, None) # ys) = used_set b bs - {(x, s, d)}" using used_removed [of b xs s ys d] by (simp add: b)
  have "stores b (xs @ (s, None) # ys) (blocks(x + 16 := None))" by (rule stores_remove [OF assms(1,2) u])
  then show ?thesis by (rule stores_add) (use assms(3-6) u in simp_all)
qed

section \<open>The operations\<close>

lemma holds_new:
  assumes H: "tlsf_holds (a, m) blocks" and rq: "tlsf_request sz al off" and run: "tlsf_allocate sz al off (a, m) = Inr (p, a', m')"
  shows "blocks (unat p) = None" "p \<noteq> 0" "unat p + unat sz < 2 ^ 63" "(unat p + unat off) mod unat al = 0"
    "tlsf_holds (a', m') (blocks(unat p \<mapsto> mem_read (unat p) (unat sz) m'))"
proof -
  from H obtain bs where h: "tlsf_inv (a, m) bs" "stores (pool_start a) bs blocks" by (rule holdsE)
  from allocate_spec [OF h(1) rq] run obtain q z where q: "p = word_of_nat q" "unat sz \<le> z" "(q + unat off) mod unat al = 0"
    "alloc_ok a bs q z a' m'" by auto
  from q(4) obtain bs' where b: "allocated (pool_start a) bs q z bs'" "tlsf_inv (a', m') bs'" "pool_start a' = pool_start a" "q < 2 ^ 62"
    by (auto simp: alloc_ok_def)
  from used_allocated [OF b(1)] obtain x s d where x: "q = x + 16" "z \<le> s"
    "used_set (pool_start a) bs' = insert (x, s, d) (used_set (pool_start a) bs)" "x \<notin> fst ` used_set (pool_start a) bs" by blast
  have up: "unat p = x + 16" using b(4) unfolding q(1) x(1) by (intro unat_word_of_nat) simp
  have "(x, s, d) \<in> used_set (pool_start a') bs'" by (simp add: b(3) x(3))
  note u = used_content [OF b(2) this]
  show "blocks (unat p) = None" using stores_free [OF h(2) x(4)] by (simp add: up)
  show "p \<noteq> 0" using up by auto
  show "unat p + unat sz < 2 ^ 63" "(unat p + unat off) mod unat al = 0" using u(5) up x q by auto
  have "stores (pool_start a) bs' (blocks(x + 16 \<mapsto> mem_read (x + 16) (unat sz) m'))"
    by (rule stores_add [OF h(2) x(4,3)]) (use q(2) x(2) u(1) take_mem_read [of "unat sz" s] in auto)
  then show "tlsf_holds (a', m') (blocks(unat p \<mapsto> mem_read (unat p) (unat sz) m'))"
    unfolding up using b(2,3) by (intro holdsI)
qed

lemma holds_delete:
  assumes H: "tlsf_holds (a, m) blocks" and p: "blocks (unat p) = Some ds"
  shows "\<exists>a' m'. tlsf_deallocate p (a, m) = Inr (a', m') \<and> tlsf_holds (a', m') (blocks(unat p := None))"
proof -
  from H obtain bs where h: "tlsf_inv (a, m) bs" "stores (pool_start a) bs blocks" by (rule holdsE)
  from h(2) p obtain x s d where x: "unat p = x + 16" "(x, s, d) \<in> used_set (pool_start a) bs" by (rule stores_block)
  from deallocate_used [OF h(1) x(2,1)] obtain a' m' bs' where r: "tlsf_deallocate p (a, m) = Inr (a', m')" "tlsf_inv (a', m') bs'"
    "pool_start a' = pool_start a" "used_set (pool_start a) bs' = used_set (pool_start a) bs - {(x, s, d)}" by blast
  from holdsI [OF r(2) stores_remove [OF h(2) x(2) r(4)] r(3)] show ?thesis using r(1) by (simp add: x(1))
qed

lemma holds_write:
  assumes H: "tlsf_holds (a, m) blocks" and p: "blocks p = Some ds" and sb: "same_but m m' {p..<p + length ds}"
  shows "tlsf_holds (a, m') (blocks(p \<mapsto> mem_read p (length ds) m'))"
proof -
  from H obtain bs where h: "tlsf_inv (a, m) bs" "stores (pool_start a) bs blocks" by (rule holdsE)
  from h(2) p obtain x s d where x: "p = x + 16" "(x, s, d) \<in> used_set (pool_start a) bs" "length ds \<le> s" by (rule stores_block)
  have "same_but m m' {x + 16..<x + 16 + s}" using sb x(3) by (auto simp: same_but_def x(1))
  from write_used [OF h(1) x(2) this] obtain bs' where w: "tlsf_inv (a, m') bs'"
    "used_set (pool_start a) bs' = insert (x, s, mem_read (x + 16) s m') (used_set (pool_start a) bs - {(x, s, d)})" by blast
  have "x \<notin> fst ` (used_set (pool_start a) bs - {(x, s, d)})" using used_unique [OF x(2)] by force
  from stores_replace [OF h(2) x(2) this w(2), of "mem_read (x + 16) (length ds) m'"]
  have "stores (pool_start a) bs' (blocks(p \<mapsto> mem_read p (length ds) m'))"
    using x(1,3) take_mem_read [OF x(3), of "x + 16" m'] by simp
  with w(1) show ?thesis by (rule holdsI) simp
qed

lemma holds_resize:
  assumes H: "tlsf_holds (a, m) blocks" and p: "blocks (unat p) = Some ds" and rq: "tlsf_request sz al off"
  shows "tlsf_reallocate p sz al off (a, m) = Inl Assertion_Failed \<and>
      (\<exists>bs x s d. tlsf_inv (a, m) bs \<and> (x, s, d) \<in> used_set (pool_start a) bs \<and> unat p = x + 16 \<and> length ds \<le> s \<and>
        no_room (pool_start a) bs (x, s, d) sz al off) \<or>
    (\<exists>q a' m'. tlsf_reallocate p sz al off (a, m) = Inr (q, a', m') \<and>
      (q = p \<or> length ds < unat sz \<and> (unat q + unat off) mod unat al = 0) \<and>
      tlsf_holds (a', m') ((blocks(unat p := None))(unat q \<mapsto> mem_read (unat q) (unat sz) m')) \<and>
      take (min (length ds) (unat sz)) (mem_read (unat q) (unat sz) m') = take (min (length ds) (unat sz)) ds \<and>
      (blocks(unat p := None)) (unat q) = None)"
proof -
  from H obtain bs where h: "tlsf_inv (a, m) bs" "stores (pool_start a) bs blocks" by (rule holdsE)
  from h(2) p obtain x s d where x: "unat p = x + 16" "(x, s, d) \<in> used_set (pool_start a) bs" "length ds \<le> s" "take (length ds) d = ds"
    by (rule stores_block)
  from reallocate_spec [OF h(1) x(2,1) rq] show ?thesis unfolding realloc_ok_def
  proof (elim disjE [of "_ = _ \<and> _"] exE conjE)
    fix q a' m' bs'
    assume r: "tlsf_reallocate p sz al off (a, m) = Inr (q, a', m')" "tlsf_inv (a', m') bs'" "pool_start a' = pool_start a"
      "reallocated (pool_start a) bs (x, s, d) (unat q) (unat sz) bs'"
      and at: "unat q = fst (x, s, d) + 16 \<or> fst (snd (x, s, d)) < unat sz \<and> (unat q + unat off) mod unat al = 0"
    from r(4) obtain x' s' d' where x': "unat q = x' + 16" "unat sz \<le> s'" "take (min s (unat sz)) d' = take (min s (unat sz)) d"
      "x' \<notin> fst ` (used_set (pool_start a) bs - {(x, s, d)})"
      "used_set (pool_start a) bs' = insert (x', s', d') (used_set (pool_start a) bs - {(x, s, d)})" unfolding reallocated_def prod.case
      by (elim exE conjE)
    have d': "take (unat sz) d' = mem_read (unat q) (unat sz) m'"
      using used_content(1) [OF r(2), of x' s' d'] take_mem_read [OF x'(2), of "x' + 16" m'] by (simp add: r(3) x'(1,5))
    let ?k = "min (length ds) (unat sz)"
    have k: "min ?k (min s (unat sz)) = ?k" "min ?k (unat sz) = ?k" "min ?k (length ds) = ?k" using x(3) by simp_all
    have "take ?k (mem_read (unat q) (unat sz) m') = take ?k (take (min s (unat sz)) d')" unfolding d' [symmetric] take_take k ..
    also have "\<dots> = take ?k (take (length ds) d)" unfolding x'(3) take_take k ..
    finally have "take ?k (mem_read (unat q) (unat sz) m') = take ?k ds" using x(4) by simp
    moreover have "stores (pool_start a) bs' ((blocks(unat p := None))(unat q \<mapsto> mem_read (unat q) (unat sz) m'))"
      unfolding x(1) x'(1) by (rule stores_replace [OF h(2) x(2) x'(4,5)]) (use x'(1,2) d' in simp_all)
    then have "tlsf_holds (a', m') ((blocks(unat p := None))(unat q \<mapsto> mem_read (unat q) (unat sz) m'))"
      using r(2,3) by (intro holdsI)
    moreover have "(blocks(unat p := None)) (unat q) = None"
    proof (cases "x' = x")
      case False
      then have "x' \<notin> fst ` used_set (pool_start a) bs" using x'(4) by force
      then show ?thesis using stores_free [OF h(2)] by (simp add: x'(1))
    qed (use x(1) x'(1) in simp)
    moreover have "q = p \<or> length ds < unat sz \<and> (unat q + unat off) mod unat al = 0" using at x(1,3) by (auto simp: word_unat_eq_iff)
    ultimately show ?thesis using r(1)
      by - (rule disjI2, rule exI [of _ q], rule exI [of _ a'], rule exI [of _ m'], intro conjI)
  qed (use h(1) x in blast)
qed

section \<open>The interface of the arena\<close>

definition tlsf_live :: "tlsf_allocator \<times> memory \<Rightarrow> chunk set \<Rightarrow> bool" where
  "tlsf_live s live \<longleftrightarrow> (\<exists>blocks. tlsf_holds s blocks \<and> live = (\<lambda>p. (p, length (the (blocks p)))) ` dom blocks)"

lemma live_chunk:
  assumes "c \<in> (\<lambda>p. (p, length (the (blocks p)))) ` dom blocks"
  obtains p ds where "blocks p = Some ds" "c = (p, length ds)"
  using assms by auto

lemma holds_frame:
  assumes "tlsf_holds s blocks" "tlsf_holds s' blocks'" "blocks p = Some ds" "blocks' p = Some ds" "x \<in> chunk_bytes (p, length ds)"
  shows "snd s' x = snd s x"
proof -
  have x: "p \<le> x" "x < p + length ds" using assms(5) by (auto simp: chunk_bytes_def chunk_end_def)
  have "mem_read p (length ds) (snd s') = mem_read p (length ds) (snd s)"
    using holds_read(1) [of "fst s" "snd s" blocks p ds] holds_read(1) [of "fst s'" "snd s'" blocks' p ds] assms(1-4) by simp
  moreover have "mem_read p (length ds) m ! (x - p) = m x" for m :: memory using x by (simp add: mem_read_def less_diff_conv2)
  ultimately show ?thesis by metis
qed

lemma live_upd:
  assumes "blocks p = None"
  shows "(\<lambda>q. (q, length (the ((blocks(p \<mapsto> ds)) q)))) ` dom (blocks(p \<mapsto> ds)) =
    insert (p, length ds) ((\<lambda>q. (q, length (the (blocks q)))) ` dom blocks)"
proof -
  have "(\<lambda>q. (q, length (the ((blocks(p \<mapsto> ds)) q)))) ` dom blocks = (\<lambda>q. (q, length (the (blocks q)))) ` dom blocks"
    using assms by (intro image_cong) auto
  then show ?thesis by simp
qed

lemma live_del:
  assumes "blocks p = Some ds"
  shows "(\<lambda>q. (q, length (the ((blocks(p := None)) q)))) ` dom (blocks(p := None)) =
    (\<lambda>q. (q, length (the (blocks q)))) ` dom blocks - {(p, length ds)}"
proof -
  have "(\<lambda>q. (q, length (the ((blocks(p := None)) q)))) ` (dom blocks - {p}) = (\<lambda>q. (q, length (the (blocks q)))) ` (dom blocks - {p})"
    by (intro image_cong) auto
  also have "\<dots> = (\<lambda>q. (q, length (the (blocks q)))) ` dom blocks - {(p, length ds)}" using assms by auto
  finally show ?thesis by simp
qed

lemma live_new:
  assumes "tlsf_live (a, m) live" "tlsf_request sz al off" "tlsf_allocate sz al off (a, m) = Inr (p, a', m')"
  shows "p \<noteq> 0 \<and> unat p + unat sz < 2 ^ 63 \<and> (unat p + unat off) mod unat al = 0 \<and> (unat p, unat sz) \<notin> live"
    "tlsf_live (a', m') (insert (unat p, unat sz) live)" "c \<in> live \<Longrightarrow> x \<in> chunk_bytes c \<Longrightarrow> m' x = m x"
proof -
  from assms(1) obtain blocks where b: "tlsf_holds (a, m) blocks" "live = (\<lambda>p. (p, length (the (blocks p)))) ` dom blocks"
    by (auto simp: tlsf_live_def)
  note n = holds_new [OF b(1) assms(2,3)]
  show "p \<noteq> 0 \<and> unat p + unat sz < 2 ^ 63 \<and> (unat p + unat off) mod unat al = 0 \<and> (unat p, unat sz) \<notin> live"
    using n by (auto simp: b(2))
  show "tlsf_live (a', m') (insert (unat p, unat sz) live)"
    unfolding tlsf_live_def using n(5) live_upd [of blocks "unat p" "mem_read (unat p) (unat sz) m'", OF n(1)] b(2)
    by (intro exI [of _ "blocks(unat p \<mapsto> mem_read (unat p) (unat sz) m')"] conjI) (simp_all only: mem_read_length)
  assume "c \<in> live" "x \<in> chunk_bytes c"
  moreover from this(1) obtain q ds where "blocks q = Some ds" "c = (q, length ds)" unfolding b(2) by (rule live_chunk)
  ultimately show "m' x = m x" using holds_frame [OF b(1) n(5), of q ds x] n(1) by (cases "q = unat p") auto
qed

lemma live_delete:
  assumes "tlsf_live (a, m) live" "(unat p, n) \<in> live"
  shows "\<exists>a' m'. tlsf_deallocate p (a, m) = Inr (a', m') \<and> tlsf_live (a', m') (live - {(unat p, n)}) \<and>
    (\<forall>c \<in> live - {(unat p, n)}. \<forall>x \<in> chunk_bytes c. m' x = m x)"
proof -
  from assms(1) obtain blocks where b: "tlsf_holds (a, m) blocks" "live = (\<lambda>p. (p, length (the (blocks p)))) ` dom blocks"
    by (auto simp: tlsf_live_def)
  from assms(2) obtain ds where ds: "blocks (unat p) = Some ds" "n = length ds" unfolding b(2) by auto
  from holds_delete [OF b(1) ds(1)] obtain a' m' where r: "tlsf_deallocate p (a, m) = Inr (a', m')"
    "tlsf_holds (a', m') (blocks(unat p := None))" by blast
  have live: "live - {(unat p, n)} = (\<lambda>q. (q, length (the ((blocks(unat p := None)) q)))) ` dom (blocks(unat p := None))"
    using live_del [of blocks "unat p" ds] ds by (simp add: b(2))
  have "m' x = m x" if c: "c \<in> live - {(unat p, n)}" "x \<in> chunk_bytes c" for c x
  proof -
    from c(1) obtain q es where q: "(blocks(unat p := None)) q = Some es" "c = (q, length es)" unfolding live by (rule live_chunk)
    then have "blocks q = Some es" by (auto split: if_splits)
    then show ?thesis using holds_frame [OF b(1) r(2) _ q(1)] c(2) q(2) by simp
  qed
  moreover have "tlsf_live (a', m') (live - {(unat p, n)})" unfolding tlsf_live_def live using r(2) by blast
  ultimately show ?thesis using r(1) by blast
qed

lemma live_write:
  assumes "tlsf_live (a, m) live" "c \<in> live" "\<And>x. x \<notin> chunk_bytes c \<Longrightarrow> m' x = m x"
  shows "tlsf_live (a, m') live"
proof -
  from assms(1) obtain blocks where b: "tlsf_holds (a, m) blocks" "live = (\<lambda>p. (p, length (the (blocks p)))) ` dom blocks"
    by (auto simp: tlsf_live_def)
  from assms(2) obtain p ds where p: "blocks p = Some ds" "c = (p, length ds)" unfolding b(2) by (rule live_chunk)
  have "same_but m m' {p..<p + length ds}" using assms(3) p(2) by (auto simp: same_but_def chunk_bytes_def chunk_end_def)
  from holds_write [OF b(1) p(1) this] have "tlsf_holds (a, m') (blocks(p \<mapsto> mem_read p (length ds) m'))" .
  moreover have "(\<lambda>q. (q, length (the ((blocks(p \<mapsto> mem_read p (length ds) m')) q)))) ` dom (blocks(p \<mapsto> mem_read p (length ds) m')) = live"
    unfolding b(2) using p(1) by (intro image_cong) auto
  ultimately show ?thesis unfolding tlsf_live_def by blast
qed

interpretation tlsf: arena_allocator tlsf_allocate tlsf_deallocate tlsf_live tlsf_request
proof unfold_locales
  show "finite live" if "tlsf_live s live" for s live
    using that holds_finite [of "fst s" "snd s"] by (auto simp: tlsf_live_def)
  show "chunk_bytes c \<inter> chunk_bytes d = {}" if "tlsf_live s live" "c \<in> live" "d \<in> live" "c \<noteq> d" for s live c d
  proof -
    from that(1) obtain blocks where b: "tlsf_holds s blocks" "live = (\<lambda>p. (p, length (the (blocks p)))) ` dom blocks"
      by (auto simp: tlsf_live_def)
    from that(2) obtain p ds where p: "blocks p = Some ds" "c = (p, length ds)" unfolding b(2) by (rule live_chunk)
    from that(3) obtain q es where q: "blocks q = Some es" "d = (q, length es)" unfolding b(2) by (rule live_chunk)
    have "p \<noteq> q" using p q that(4) by auto
    then show ?thesis using holds_apart [of "fst s" "snd s" blocks p ds q es] b(1) p q by (simp add: chunk_bytes_def chunk_end_def)
  qed
qed (fact live_new live_delete live_write)+

end
