(* ===== verification/Tlsf_Client.thy ===== *)
theory Tlsf_Client
  imports Memory_Arena Tlsf_Store
begin

text \<open>
  Clients of the TLSF allocator, directly and through a memory arena: the states they reach by allocating, writing, resizing and
  deallocating blocks, and what they may rely on in them.
\<close>

section \<open>The states a client reaches\<close>

inductive tlsf_reach :: "tlsf_allocator \<times> memory \<Rightarrow> tlsf_allocator \<times> memory \<Rightarrow> blocks \<Rightarrow> bool" for s0 where
  tlsf_start: "tlsf_reach s0 s0 Map.empty"
| tlsf_new: "tlsf_reach s0 (a, m) blocks \<Longrightarrow> tlsf_request sz al off \<Longrightarrow> tlsf_allocate sz al off (a, m) = Inr (p, a', m') \<Longrightarrow>
     tlsf_reach s0 (a', m') (blocks(unat p \<mapsto> mem_read (unat p) (unat sz) m'))"
| tlsf_write: "tlsf_reach s0 (a, m) blocks \<Longrightarrow> blocks p = Some ds \<Longrightarrow> i + length es \<le> length ds \<Longrightarrow>
     tlsf_reach s0 (a, mem_write (p + i) es m) (blocks(p \<mapsto> take i ds @ es @ drop (i + length es) ds))"
| tlsf_resize: "tlsf_reach s0 (a, m) blocks \<Longrightarrow> blocks (unat p) = Some ds \<Longrightarrow> tlsf_request sz al off \<Longrightarrow>
     tlsf_reallocate p sz al off (a, m) = Inr (q, a', m') \<Longrightarrow>
     tlsf_reach s0 (a', m') ((blocks(unat p := None))(unat q \<mapsto> mem_read (unat q) (unat sz) m'))"
| tlsf_delete: "tlsf_reach s0 (a, m) blocks \<Longrightarrow> blocks (unat p) = Some ds \<Longrightarrow> tlsf_deallocate p (a, m) = Inr (a', m') \<Longrightarrow>
     tlsf_reach s0 (a', m') (blocks(unat p := None))"

lemma mem_read_overwrite:
  assumes "mem_read p (length ds) m = ds" "i + length es \<le> length ds"
  shows "mem_read p (length ds) (mem_write (p + i) es m) = take i ds @ es @ drop (i + length es) ds"
proof (rule nth_equalityI)
  fix k assume "k < length (mem_read p (length ds) (mem_write (p + i) es m))"
  then have k: "k < length ds" by simp
  have "m (p + k) = ds ! k" using arg_cong [OF assms(1), of "\<lambda>xs. xs ! k"] k by (simp add: mem_read_def)
  with k assms(2) show "mem_read p (length ds) (mem_write (p + i) es m) ! k = (take i ds @ es @ drop (i + length es) ds) ! k"
    by (auto simp: mem_read_def mem_write_def nth_append min_def)
qed (use assms(2) in simp)

lemma tlsf_reach_holds:
  assumes "tlsf_reach s0 s blocks" "tlsf_holds s0 Map.empty"
  shows "tlsf_holds s blocks"
  using assms
proof (induction rule: tlsf_reach.induct)
  case (tlsf_new a m blocks sz al off p a' m')
  then show ?case by (intro holds_new(5)) simp_all
next
  case (tlsf_write a m blocks p ds i es)
  have H: "tlsf_holds (a, m) blocks" by (rule tlsf_write.IH [OF tlsf_write.prems])
  have "same_but m (mem_write (p + i) es m) {p..<p + length ds}" using tlsf_write.hyps(3) by (auto simp: same_but_def mem_write_def)
  from holds_write [OF H tlsf_write.hyps(2) this] show ?case
    using mem_read_overwrite [OF holds_read(1) [OF H tlsf_write.hyps(2)] tlsf_write.hyps(3)] by (simp add: fun_upd_def)
next
  case (tlsf_resize a m blocks p ds sz al off q a' m')
  then show ?case using holds_resize [of a m blocks p ds sz al off] by (auto simp: fun_upd_def)
next
  case (tlsf_delete a m blocks p ds a' m')
  then show ?case using holds_delete [of a m blocks p ds] by (auto simp: fun_upd_def)
qed simp

lemma new_tlsf_holds:
  assumes "0 < unat addr" "unat addr + unat total_sz < 2 ^ 62" "40 \<le> unat sz" "unat sz < 2 ^ 31"
    and "new_tlsf_allocator sz name (new_area addr total_sz m0) = Inr (a, ha, m)"
  shows "tlsf_inv (a, m) [(pool_bytes sz, None)]" "tlsf_holds (a, m) Map.empty"
proof -
  obtain ha0 m1 where n: "new_area addr total_sz m0 = (ha0, m1)" by fastforce
  then have ha0: "wf_area ha0" "0 < unat (area_begin ha0)" using new_area_wf [OF assms(2), of m0] assms(1) by (auto simp: new_area_def)
  show i: "tlsf_inv (a, m) [(pool_bytes sz, None)]"
    using new_tlsf_spec [OF ha0 assms(3,4), of name m1] assms(5) by (auto simp: n split: if_splits)
  then show "tlsf_holds (a, m) Map.empty" by (rule holdsI) (simp_all add: stores_def)
qed

section \<open>A pool without blocks\<close>

lemma used_empty: "used_set b bs = {} \<Longrightarrow> (s, k) \<in> set bs \<Longrightarrow> k = None"
proof (induction bs arbitrary: b)
  case (Cons y bs)
  obtain t l where y: "y = (t, l)" by fastforce
  show ?case using Cons.IH [of "b + 8 + t"] Cons.prems by (cases l) (auto simp: y)
qed simp

lemma single_block:
  assumes "tlsf_inv (a, m) bs" "used_set (pool_start a) bs = {}"
  shows "bs = [(pool_bytes (tlsf_pool_size a), None)]"
proof (cases bs)
  case Nil
  then show ?thesis using assms(1) by (simp add: tlsf_inv_def)
next
  case (Cons y ys)
  have none: "snd z = None" if "z \<in> set bs" for z using used_empty [OF assms(2), of "fst z" "snd z"] that by simp
  have "ys = []"
  proof (rule ccontr)
    assume "ys \<noteq> []"
    then obtain z zs where "ys = z # zs" by (cases ys) auto
    then show False using assms(1) Cons none [of y] none [of z] by (simp add: tlsf_inv_def coalesced_def)
  qed
  moreover obtain s where "y = (s, None)" using none [of y] Cons by (cases y) auto
  ultimately show ?thesis using assms(1) Cons by (simp add: tlsf_inv_def)
qed

text \<open>What a walk over the pool sees.\<close>

definition walk_log :: "tlsf_allocator \<times> memory \<Rightarrow> (fault + (nat \<times> u64 \<times> bool) list) option" where
  "walk_log s = walk_pool (\<lambda>ptr sz used log. log @ [(ptr, sz, used)]) s []"

lemma walk_log_inv:
  assumes "tlsf_inv (a, m) bs"
  shows "walk_log (a, m) = Some (Inr (map (\<lambda>(x, s, k). (x + 16, word_of_nat s, k \<noteq> None)) (blocks_at (pool_start a) bs)))"
proof -
  have "fold (\<lambda>(x, s, k) log. log @ [(x + 16, word_of_nat s :: u64, k \<noteq> None)]) bl r =
      r @ map (\<lambda>(x, s, k). (x + 16, word_of_nat s, k \<noteq> None)) bl" for bl :: "(nat \<times> nat \<times> u8 list option) list" and r
    by (induction bl arbitrary: r) auto
  moreover have "(\<lambda>(x, s, k). (\<lambda>ptr sz used log. log @ [(ptr, sz, used)]) (x + 16) (word_of_nat s) (k \<noteq> None)) =
      (\<lambda>(x :: nat, s :: nat, k :: u8 list option) log. log @ [(x + 16, word_of_nat s :: u64, k \<noteq> None)])" by (intro ext) auto
  ultimately show ?thesis unfolding walk_log_def walk_pool_inv [OF assms] by simp
qed

lemma walk_log_free:
  assumes inv: "tlsf_inv (a, m) bs" and "walk_log (a, m) = Some (Inr log)" "(ptr, n, False) \<in> set log"
  shows "\<exists>x. ptr = x + 16 \<and> (x, unat n) \<in> free_set (pool_start a) bs"
proof -
  from assms(2,3) obtain x s where x: "(x, s, None) \<in> set (blocks_at (pool_start a) bs)" "n = word_of_nat s" "ptr = x + 16"
    by (auto simp: walk_log_inv [OF inv])
  have "good_size s" using inv x(1) good_blocks_at by (auto simp: tlsf_inv_def pool_ok_def)
  then have "unat n = s" using good_size_bit(3) x(2) by simp
  then show ?thesis using x(1,3) by (auto simp: free_set_def)
qed

lemma walk_log_used:
  assumes inv: "tlsf_inv (a, m) bs" and "walk_log (a, m) = Some (Inr log)" "(ptr, n, True) \<in> set log"
  shows "\<exists>x d. ptr = x + 16 \<and> (x, unat n, d) \<in> used_set (pool_start a) bs"
proof -
  from assms(2,3) obtain x s d where x: "(x, s, Some d) \<in> set (blocks_at (pool_start a) bs)" "n = word_of_nat s" "ptr = x + 16"
    by (auto simp: walk_log_inv [OF inv])
  have "good_size s" using inv x(1) good_blocks_at by (auto simp: tlsf_inv_def pool_ok_def)
  then have "unat n = s" using good_size_bit(3) x(2) by simp
  then show ?thesis using x(1,3) by (auto simp: used_set_def)
qed

text \<open>
  Room for the block at \<open>p\<close> to be resized, read off such a walk: the block is large enough, or is so together with the free
  block behind it, or another free block has the room that an allocation asks for (which presupposes that the offset does not
  exceed a strict alignment).
\<close>

definition room_for :: "(nat \<times> u64 \<times> bool) list \<Rightarrow> nat \<Rightarrow> u64 \<Rightarrow> u64 \<Rightarrow> u64 \<Rightarrow> bool" where
  "room_for log p sz al off \<longleftrightarrow>
     (\<exists>(x, c, used) \<in> set log. x = p \<and> used \<and>
        (unat sz \<le> unat c \<or> (\<exists>(y, k, u) \<in> set log. y = p + unat c + 8 \<and> \<not> u \<and> unat sz \<le> unat c + 8 + unat k))) \<or>
     (unat al \<le> 8 \<or> unat off \<le> unat al) \<and> (\<exists>(y, k, u) \<in> set log. \<not> u \<and> enough sz al \<le> unat k)"

lemma no_room_log:
  assumes inv: "tlsf_inv (a, m) bs" and u: "(x, s, d) \<in> used_set (pool_start a) bs" and log: "walk_log (a, m) = Some (Inr log)"
    and no: "no_room (pool_start a) bs (x, s, d) sz al off"
  shows "\<not> room_for log (x + 16) sz al off"
proof -
  have here: "unat c = s" if "(x + 16, c, True) \<in> set log" for c
    using walk_log_used [OF inv log that] used_unique [OF u] by auto
  have "unat c < unat sz \<and> (\<forall>k. (x + 16 + unat c + 8, k, False) \<in> set log \<longrightarrow> unat c + 8 + unat k < unat sz)"
    if "(x + 16, c, True) \<in> set log" for c
  proof -
    have "(x + 8 + s, unat k) \<in> free_set (pool_start a) bs" if k: "(x + 16 + unat c + 8, k, False) \<in> set log" for k
      using walk_log_free [OF inv log k] here [OF \<open>(x + 16, c, True) \<in> set log\<close>] by (auto simp: ac_simps)
    then show ?thesis using no here [OF that] by (auto simp: no_room_def)
  qed
  moreover have "8 < unat al \<and> unat al < unat off \<or> unat k < enough sz al" if "(y, k, False) \<in> set log" for y k
    using walk_log_free [OF inv log that] no by (fastforce simp: no_room_def)
  ultimately show ?thesis unfolding room_for_def by fastforce
qed

section \<open>A TLSF arena\<close>

definition new_tlsf_arena ::
  "bool \<Rightarrow> bool \<Rightarrow> tracker \<Rightarrow> u64 \<Rightarrow> string \<Rightarrow> heap_area \<times> memory \<Rightarrow> fault + tlsf_allocator arena \<times> heap_area \<times> memory" where
  "new_tlsf_arena bounds guard t sz name s =
     res_bind (new_tlsf_allocator sz name s) (\<lambda>(a, s'). Inr (new_arena a bounds guard t, s'))"

text \<open>The requests of a client of the arena.\<close>

definition tlsf_client :: "u64 \<Rightarrow> u64 \<Rightarrow> u64 \<Rightarrow> bool" where
  "tlsf_client sz al off \<longleftrightarrow> 0 < al \<and> is_pow2 al \<and> unat off mod 8 = 0 \<and> unat off < 2 ^ 59 \<and> unat sz + 2 * unat al + 96 < 2 ^ 30"

interpretation tlsf_arena: arena_client tlsf_allocate tlsf_deallocate tlsf_live tlsf_request tlsf_client
proof unfold_locales
  fix sz al off and ar :: "tlsf_allocator arena"
  assume c: "tlsf_client sz al off"
  then show m: "client_request sz al off" by (auto simp: tlsf_client_def client_request_def)
  have "unat (k_allocation_overhead ar + sz) = front_size ar + back_size ar + unat sz"
    using c overheads(4,5) [of ar] by (subst unat_add) (simp_all add: overheads(3) tlsf_client_def)
  moreover have "unat (off + k_front_overhead ar) = unat off + front_size ar"
    using m by (intro decorated_request(2)) (auto simp: client_request_def)
  moreover have "front_size ar = 8 \<or> front_size ar = 16" "back_size ar \<le> 8" by (simp_all add: front_size_def back_size_def)
  ultimately show "tlsf_request (k_allocation_overhead ar + sz) al (off + k_front_overhead ar)"
    using c by (auto simp: tlsf_client_def tlsf_request_def word_less_nat_alt mod_add_eq [of _ 8, symmetric])
qed

lemma new_tlsf_arena_store:
  assumes "0 < unat addr" "unat addr + unat total_sz < 2 ^ 62" "40 \<le> unat sz" "unat sz < 2 ^ 31" "new_tracker t"
    and "new_tlsf_arena bounds guard t sz name (new_area addr total_sz m0) = Inr (ar, ha, m)"
  shows "store_rel tlsf_live (ar, m) Map.empty"
proof -
  obtain a where a: "new_tlsf_allocator sz name (new_area addr total_sz m0) = Inr (a, ha, m)" "ar = new_arena a bounds guard t"
    using assms(6) by (auto simp: new_tlsf_arena_def res_bind_eq_Inr)
  have "tlsf_live (a, m) {}" using new_tlsf_holds(2) [OF assms(1-4) a(1)] by (auto simp: tlsf_live_def intro!: exI [of _ Map.empty])
  then show ?thesis unfolding a(2) using assms(5) by (rule new_arena_store)
qed

section \<open>Properties\<close>

text \<open>A concrete allocator with a pool of one kilobyte.\<close>

definition demo_tlsf :: "fault + tlsf_allocator \<times> heap_area \<times> memory" where
  "demo_tlsf = new_tlsf_allocator 1024 ''tlsf'' (new_area 4096 8192 (\<lambda>_. 0))"

lemma demo_tlsf_new:
  obtains a ha m where "demo_tlsf = Inr (a, ha, m)" "tlsf_inv (a, m) [(1008, None)]"
proof -
  obtain ha0 m1 where n: "new_area 4096 8192 (\<lambda>_. 0) = (ha0, m1)" by fastforce
  have ha0: "wf_area ha0" "0 < unat (area_begin ha0)" "unat (area_head ha0) = 4096" "unat (area_begin ha0) = 4096" "unat (area_size ha0) = 8192"
    using new_area_wf [of 4096 8192 "\<lambda>_. 0"] n by (auto simp: new_area_def)
  show thesis using new_tlsf_spec [OF ha0(1,2), of 1024 "''tlsf''" m1] that
    by (auto simp: demo_tlsf_def n ha0 padding_nat_def pool_bytes_def)
qed

lemma demo_request: "tlsf_request 20 8 8" "tlsf_request 100 64 16"
  by (simp_all add: tlsf_request_def is_pow2_def)

lemma demo_tlsf_reach:
  obtains a0 ha m0 p a m where "demo_tlsf = Inr (a0, ha, m0)" "tlsf_inv (a0, m0) [(1008, None)]"
    "tlsf_allocate 20 8 8 (a0, m0) = Inr (p, a, m)" "tlsf_reach (a0, m0) (a, m) [unat p \<mapsto> mem_read (unat p) 20 m]"
proof -
  obtain a0 ha m0 where d: "demo_tlsf = Inr (a0, ha, m0)" "tlsf_inv (a0, m0) [(1008, None)]" by (rule demo_tlsf_new)
  from allocate_spec [OF d(2) demo_request(1)] obtain p a m where p: "tlsf_allocate 20 8 8 (a0, m0) = Inr (p, a, m)"
    by (auto simp: enough_def)
  from tlsf_new [OF tlsf_start demo_request(1) this] d p that show thesis by simp
qed

text \<open>
  C16. The TLSF allocator is a store of independent blocks: in every state a client reaches by allocating, writing within its blocks,
  resizing and deallocating, each block lies inside the pool and holds exactly what was written to it, no two
  blocks overlap, and each of them can be deallocated.
\<close>

theorem tlsf_block_store:
  assumes "0 < unat addr" and "unat addr + unat total_sz < 2 ^ 62" and "40 \<le> unat sz" and "unat sz < 2 ^ 31"
    and "new_tlsf_allocator sz name (new_area addr total_sz m0) = Inr (a0, ha, m1)"
    and "tlsf_reach (a0, m1) (a, m) blocks" and "blocks p = Some ds"
  shows "mem_read p (length ds) m = ds \<and> tlsf_pool a \<le> p \<and> p + length ds \<le> tlsf_pool a + unat (tlsf_pool_size a) \<and>
     (\<forall>q es. blocks q = Some es \<longrightarrow> q \<noteq> p \<longrightarrow> {p..<p + length ds} \<inter> {q..<q + length es} = {}) \<and>
     (\<exists>s'. tlsf_deallocate (word_of_nat p) (a, m) = Inr s')"
proof -
  have H: "tlsf_holds (a, m) blocks" by (rule tlsf_reach_holds [OF assms(6) new_tlsf_holds(2) [OF assms(1-5)]])
  have up: "unat (word_of_nat p :: u64) = p" using holds_read(3) [OF H assms(7)] by (intro unat_word_of_nat) simp
  from H obtain bs where h: "tlsf_inv (a, m) bs" "stores (pool_start a) bs blocks" by (rule holdsE)
  from h(2) assms(7) obtain x s d where x: "p = x + 16" "(x, s, d) \<in> used_set (pool_start a) bs" "length ds \<le> s" by (rule stores_block)
  have "end_of (pool_start a) bs = pool_start a + 8 + pool_bytes (tlsf_pool_size a)" using h(1) by (simp add: tlsf_inv_def)
  moreover have "8 < tlsf_pool a" using h(1) by (auto simp: tlsf_inv_def pool_ok_def)
  moreover have "pool_bytes (tlsf_pool_size a) \<le> unat (tlsf_pool_size a) - 16" by (simp add: pool_bytes_def)
  ultimately have "tlsf_pool a \<le> p" "p + length ds \<le> tlsf_pool a + unat (tlsf_pool_size a)"
    using used_set_range [OF x(2)] used_content(3) [OF h(1) x(2)] x(1,3) by auto
  moreover have "\<exists>s'. tlsf_deallocate (word_of_nat p) (a, m) = Inr s'"
    using holds_delete [OF H, of "word_of_nat p" ds] assms(7) up by auto
  ultimately show ?thesis using holds_read(1) [OF H assms(7)] holds_apart [OF H assms(7)] by simp
qed

theorem tlsf_block_store_witness:
  "\<exists>a0 ha m0 p a m. demo_tlsf = Inr (a0, ha, m0) \<and> tlsf_reach (a0, m0) (a, m) [unat p \<mapsto> mem_read (unat p) 20 m] \<and>
     tlsf_pool a \<le> unat p \<and> (\<exists>s'. tlsf_deallocate p (a, m) = Inr s')"
proof -
  obtain a0 ha m0 and p :: u64 and a m where d: "demo_tlsf = Inr (a0, ha, m0)" "tlsf_reach (a0, m0) (a, m) [unat p \<mapsto> mem_read (unat p) 20 m]"
    by (rule demo_tlsf_reach)
  have "tlsf_pool a \<le> unat p \<and> (\<exists>s'. tlsf_deallocate p (a, m) = Inr s')"
    using tlsf_block_store [of 4096 8192 1024, OF _ _ _ _ d(1) [unfolded demo_tlsf_def] d(2), of "unat p" "mem_read (unat p) 20 m"] by simp
  with d show ?thesis by blast
qed

text \<open>
  C17. An allocation succeeds whenever the pool has a free block a little larger than the request (by the rounding to the next size
  class and, for a stricter alignment, the room for the gap). The pointer is aligned at the given offset, and the new
  block overlaps none the client holds and leaves their contents as they were.
\<close>

theorem tlsf_allocation_served:
  assumes "0 < unat addr" and "unat addr + unat total_sz < 2 ^ 62" and "40 \<le> unat sz" and "unat sz < 2 ^ 31"
    and "new_tlsf_allocator sz name (new_area addr total_sz m0) = Inr (a0, ha, m1)" and "tlsf_reach (a0, m1) (a, m) blocks"
    and "tlsf_request n al off" and "unat al \<le> 8 \<or> unat off \<le> unat al"
    and "walk_log (a, m) = Some (Inr log)" and "(ptr, k, False) \<in> set log" and "enough n al \<le> unat k"
  shows "\<exists>p a' m'. tlsf_allocate n al off (a, m) = Inr (p, a', m') \<and> (unat p + unat off) mod unat al = 0 \<and>
     (\<forall>q es. blocks q = Some es \<longrightarrow> {unat p..<unat p + unat n} \<inter> {q..<q + length es} = {} \<and> mem_read q (length es) m' = es)"
proof -
  have H: "tlsf_holds (a, m) blocks" by (rule tlsf_reach_holds [OF assms(6) new_tlsf_holds(2) [OF assms(1-5)]])
  then obtain bs where inv: "tlsf_inv (a, m) bs" by (rule holdsE)
  obtain x where "(x, unat k) \<in> free_set (pool_start a) bs" using walk_log_free [OF inv assms(9,10)] by blast
  then have "\<not> (\<forall>(x, s) \<in> free_set (pool_start a) bs. s < enough n al)" using assms(11) by fastforce
  then obtain p a' m' where p: "tlsf_allocate n al off (a, m) = Inr (p, a', m')"
    using allocate_spec [OF inv assms(7)] assms(8) by fastforce
  note N = holds_new [OF H assms(7) p]
  have "{unat p..<unat p + unat n} \<inter> {q..<q + length es} = {} \<and> mem_read q (length es) m' = es" if "blocks q = Some es" for q es
  proof -
    have q: "q \<noteq> unat p" "(blocks(unat p \<mapsto> mem_read (unat p) (unat n) m')) q = Some es" using that N(1) by auto
    show ?thesis using holds_apart [OF N(5) _ q(2), of "unat p" "mem_read (unat p) (unat n) m'"] holds_read(1) [OF N(5) q(2)] q(1)
      unfolding mem_read_length by simp
  qed
  then show ?thesis using p N(4) by (intro exI [of _ p] exI [of _ a'] exI [of _ m']) simp
qed

theorem tlsf_allocation_served_witness:
  "\<exists>a0 ha m0 p a m. demo_tlsf = Inr (a0, ha, m0) \<and> tlsf_allocate 100 64 16 (a0, m0) = Inr (p, a, m) \<and> (unat p + 16) mod 64 = 0"
proof -
  obtain a ha m where d: "demo_tlsf = Inr (a, ha, m)" "tlsf_inv (a, m) [(1008, None)]" by (rule demo_tlsf_new)
  have "walk_log (a, m) = Some (Inr [(pool_start a + 16, 1008, False)])" by (simp add: walk_log_inv [OF d(2)])
  from tlsf_allocation_served [of 4096 8192 1024, OF _ _ _ _ d(1) [unfolded demo_tlsf_def] tlsf_start demo_request(2) _ this]
  have "\<exists>p a' m'. tlsf_allocate 100 64 16 (a, m) = Inr (p, a', m') \<and> (unat p + 16) mod 64 = 0"
    by (simp add: enough_def)
  then obtain p a' m' where "tlsf_allocate 100 64 16 (a, m) = Inr (p, a', m')" "(unat p + 16) mod 64 = 0" by (elim exE conjE)
  with d(1) show ?thesis by (intro exI conjI)
qed

lemma resize_outcome:
  assumes H: "tlsf_holds (a, m) blocks" and p: "blocks (unat p) = Some ds" and rq: "tlsf_request n al off"
    and log: "walk_log (a, m) = Some (Inr log)"
  shows "tlsf_reallocate p n al off (a, m) = Inl Assertion_Failed \<and>
       length ds < unat n \<and> \<not> room_for log (unat p) n al off \<or>
     (\<exists>q a' m'. tlsf_reallocate p n al off (a, m) = Inr (q, a', m') \<and>
       (q = p \<or> length ds < unat n \<and> (unat q + unat off) mod unat al = 0) \<and>
       take (min (length ds) (unat n)) (mem_read (unat q) (unat n) m') = take (min (length ds) (unat n)) ds \<and>
       (\<forall>r es. r \<noteq> unat p \<longrightarrow> blocks r = Some es \<longrightarrow>
         {unat q..<unat q + unat n} \<inter> {r..<r + length es} = {} \<and> mem_read r (length es) m' = es))"
  using holds_resize [OF H p rq]
proof (elim disjE [of "_ = Inl _ \<and> _"] exE conjE)
  fix bs x s d
  assume f: "tlsf_reallocate p n al off (a, m) = Inl Assertion_Failed" "tlsf_inv (a, m) bs"
    "(x, s, d) \<in> used_set (pool_start a) bs" "unat p = x + 16" "length ds \<le> s" "no_room (pool_start a) bs (x, s, d) n al off"
  from no_room_log [OF f(2,3) log f(6)] f(4) have "\<not> room_for log (unat p) n al off" by simp
  moreover have "length ds < unat n" using f(5,6) by (simp add: no_room_def)
  ultimately show ?thesis using f(1) by blast
next
  fix q a' m'
  assume at: "q = p \<or> length ds < unat n \<and> (unat q + unat off) mod unat al = 0"
    and q: "tlsf_reallocate p n al off (a, m) = Inr (q, a', m')"
    "tlsf_holds (a', m') ((blocks(unat p := None))(unat q \<mapsto> mem_read (unat q) (unat n) m'))"
    "take (min (length ds) (unat n)) (mem_read (unat q) (unat n) m') = take (min (length ds) (unat n)) ds"
    "(blocks(unat p := None)) (unat q) = None"
  have "{unat q..<unat q + unat n} \<inter> {r..<r + length es} = {} \<and> mem_read r (length es) m' = es"
    if "r \<noteq> unat p" "blocks r = Some es" for r es
  proof -
    have r: "r \<noteq> unat q" "((blocks(unat p := None))(unat q \<mapsto> mem_read (unat q) (unat n) m')) r = Some es" using that q(4) by auto
    show ?thesis using holds_apart [OF q(2) _ r(2), of "unat q" "mem_read (unat q) (unat n) m'"] holds_read(1) [OF q(2) r(2)] r(1)
      unfolding mem_read_length by simp
  qed
  then have "\<forall>r es. r \<noteq> unat p \<longrightarrow> blocks r = Some es \<longrightarrow>
       {unat q..<unat q + unat n} \<inter> {r..<r + length es} = {} \<and> mem_read r (length es) m' = es" by blast
  with q(1,3) at show ?thesis
    by - (rule disjI2, rule exI [of _ q], rule exI [of _ a'], rule exI [of _ m'], intro conjI)
qed

text \<open>
  C18. \<open>reallocate\<close> keeps the bytes of the block up to the smaller of the two sizes, whether it shrinks or grows the block in place or
  moves it; the result overlaps no other block and no other block changes. It returns the old pointer when the request is not
  larger than the previous one, and otherwise the old one or one that is aligned at the given offset. It fails, with the
  assertion of the allocation, only for a larger request and when the pool has no room for it: the block is too small, also
  together with a free block behind it, and no free block has the room that an allocation asks for; an offset beyond an
  alignment of 16 or more counts as no room, because the allocation then fails whatever is free. Size zero means \<open>deallocate\<close>, a null
  pointer \<open>allocate\<close>.
\<close>

theorem tlsf_reallocation_keeps_bytes:
  assumes "0 < unat addr" and "unat addr + unat total_sz < 2 ^ 62" and "40 \<le> unat sz" and "unat sz < 2 ^ 31"
    and "new_tlsf_allocator sz name (new_area addr total_sz m0) = Inr (a0, ha, m1)" and "tlsf_reach (a0, m1) (a, m) blocks"
    and "tlsf_request n al off" and "blocks (unat p) = Some ds"
  shows "(\<exists>log. walk_log (a, m) = Some (Inr log) \<and>
     (tlsf_reallocate p n al off (a, m) = Inl Assertion_Failed \<and> length ds < unat n \<and> \<not> room_for log (unat p) n al off \<or>
     (\<exists>q a' m'. tlsf_reallocate p n al off (a, m) = Inr (q, a', m') \<and>
       (q = p \<or> length ds < unat n \<and> (unat q + unat off) mod unat al = 0) \<and>
       take (min (length ds) (unat n)) (mem_read (unat q) (unat n) m') = take (min (length ds) (unat n)) ds \<and>
       (\<forall>r es. r \<noteq> unat p \<longrightarrow> blocks r = Some es \<longrightarrow>
         {unat q..<unat q + unat n} \<inter> {r..<r + length es} = {} \<and> mem_read r (length es) m' = es)))) \<and>
     tlsf_reallocate p 0 al off (a, m) = map_sum id (Pair 0) (tlsf_deallocate p (a, m)) \<and>
     tlsf_reallocate 0 n al off (a, m) = tlsf_allocate n al off (a, m)"
proof (intro conjI)
  have H: "tlsf_holds (a, m) blocks" by (rule tlsf_reach_holds [OF assms(6) new_tlsf_holds(2) [OF assms(1-5)]])
  then obtain bs where "tlsf_inv (a, m) bs" by (rule holdsE)
  from walk_log_inv [OF this] obtain log where log: "walk_log (a, m) = Some (Inr log)" by blast
  from log resize_outcome [OF H assms(8,7) log]
  show "\<exists>log. walk_log (a, m) = Some (Inr log) \<and>
     (tlsf_reallocate p n al off (a, m) = Inl Assertion_Failed \<and> length ds < unat n \<and> \<not> room_for log (unat p) n al off \<or>
     (\<exists>q a' m'. tlsf_reallocate p n al off (a, m) = Inr (q, a', m') \<and>
       (q = p \<or> length ds < unat n \<and> (unat q + unat off) mod unat al = 0) \<and>
       take (min (length ds) (unat n)) (mem_read (unat q) (unat n) m') = take (min (length ds) (unat n)) ds \<and>
       (\<forall>r es. r \<noteq> unat p \<longrightarrow> blocks r = Some es \<longrightarrow>
         {unat q..<unat q + unat n} \<inter> {r..<r + length es} = {} \<and> mem_read r (length es) m' = es)))" by (intro exI [of _ log] conjI)
  have "p \<noteq> 0" using holds_read(2) [OF H assms(8)] by auto
  then show "tlsf_reallocate p 0 al off (a, m) = map_sum id (Pair 0) (tlsf_deallocate p (a, m))"
    by (cases "tlsf_deallocate p (a, m)") (simp_all add: tlsf_reallocate_def)
  have "n \<noteq> 0" using assms(7) by (auto simp: tlsf_request_def)
  then show "tlsf_reallocate 0 n al off (a, m) = tlsf_allocate n al off (a, m)" by (simp add: tlsf_reallocate_def)
qed

text \<open>
  After the first allocation in the concrete pool its only block can grow to 100 bytes: in place, or into the free block in
  front of it.
\<close>

lemma allocated_room:
  assumes "allocated b [(1008, None)] p z bs"
  shows "room_for (map (\<lambda>(x, s, k). (x + 16, word_of_nat s, k \<noteq> None)) (blocks_at b bs)) p 100 64 16"
proof -
  obtain g d where g: "z + g \<le> 1008" "g = 0 \<or> 32 \<le> g" "p = b + g + 16" "bs = carve g 1008 z (Some d)"
    using assms by (auto simp: allocated_def Cons_eq_append_conv)
  have small: "unat (word_of_nat k :: u64) = k" if "k \<le> 1008" for k using that by (intro unat_word_of_nat) simp
  have enough: "enough 100 64 = 292" by (simp add: enough_def)
  show ?thesis
  proof (cases "g \<le> 908")
    case True
    then show ?thesis using g small by (auto simp: room_for_def carve_def trim_def simp del: of_nat_diff of_nat_add)
  next
    case False
    then show ?thesis using g small by (auto simp: room_for_def carve_def trim_def enough simp del: of_nat_diff of_nat_add)
  qed
qed

lemma demo_room:
  assumes "tlsf_inv (a0, m0) [(1008, None)]" "tlsf_allocate 20 8 8 (a0, m0) = Inr (p, a, m)" "walk_log (a, m) = Some (Inr log)"
  shows "room_for log (unat p) 100 64 16"
proof -
  from allocate_spec [OF assms(1) demo_request(1)] assms(2) obtain q z where q: "p = word_of_nat q" "alloc_ok a0 [(1008, None)] q z a m"
    by auto
  then obtain bs where bs: "allocated (pool_start a0) [(1008, None)] q z bs" "tlsf_inv (a, m) bs" "pool_start a = pool_start a0" "q < 2 ^ 62"
    by (auto simp: alloc_ok_def)
  have "unat p = q" unfolding q(1) using bs(4) by (intro unat_word_of_nat) simp
  with allocated_room [OF bs(1)] walk_log_inv [OF bs(2)] assms(3) show ?thesis by (simp add: bs(3))
qed

theorem tlsf_reallocation_keeps_bytes_witness:
  "\<exists>a0 ha m0 p a m q a' m'. demo_tlsf = Inr (a0, ha, m0) \<and> tlsf_reach (a0, m0) (a, m) [unat p \<mapsto> mem_read (unat p) 20 m] \<and>
     tlsf_reallocate p 100 64 16 (a, m) = Inr (q, a', m') \<and> take 20 (mem_read (unat q) 100 m') = mem_read (unat p) 20 m"
proof -
  obtain a0 ha m0 and p :: u64 and a m where d: "demo_tlsf = Inr (a0, ha, m0)" "tlsf_inv (a0, m0) [(1008, None)]"
    "tlsf_allocate 20 8 8 (a0, m0) = Inr (p, a, m)" "tlsf_reach (a0, m0) (a, m) [unat p \<mapsto> mem_read (unat p) 20 m]"
    by (rule demo_tlsf_reach)
  from tlsf_reallocation_keeps_bytes [of 4096 8192 1024, OF _ _ _ _ d(1) [unfolded demo_tlsf_def] d(4) demo_request(2), of p "mem_read (unat p) 20 m"]
  obtain log where log: "walk_log (a, m) = Some (Inr log)"
    "tlsf_reallocate p 100 64 16 (a, m) = Inl Assertion_Failed \<and> \<not> room_for log (unat p) 100 64 16 \<or>
     (\<exists>q a' m'. tlsf_reallocate p 100 64 16 (a, m) = Inr (q, a', m') \<and> take 20 (mem_read (unat q) 100 m') = take 20 (mem_read (unat p) 20 m))"
    by auto
  then obtain q a' m' where "tlsf_reallocate p 100 64 16 (a, m) = Inr (q, a', m')" "take 20 (mem_read (unat q) 100 m') = mem_read (unat p) 20 m"
    using demo_room [OF d(2,3) log(1)] by auto
  with d(1,4) show ?thesis by blast
qed

text \<open>
  C19. The integrity checks of the allocator never report anything: in every state a client reaches, \<open>check_pool\<close> and
  \<open>check_consistency\<close> return an empty report (in particular, their loops end and no assertion fails).
\<close>

theorem tlsf_checks_silent:
  assumes "0 < unat addr" and "unat addr + unat total_sz < 2 ^ 62" and "40 \<le> unat sz" and "unat sz < 2 ^ 31"
    and "new_tlsf_allocator sz name (new_area addr total_sz m0) = Inr (a0, ha, m1)" and "tlsf_reach (a0, m1) (a, m) blocks"
  shows "check_pool (a, m) = Some (Inr []) \<and> check_consistency (a, m) = Some (Inr [])"
proof -
  have "tlsf_holds (a, m) blocks" by (rule tlsf_reach_holds [OF assms(6) new_tlsf_holds(2) [OF assms(1-5)]])
  then obtain bs where "tlsf_inv (a, m) bs" by (rule holdsE)
  from checks_silent [OF this] show ?thesis by blast
qed

theorem tlsf_checks_silent_witness:
  "\<exists>a0 ha m0 p a m. demo_tlsf = Inr (a0, ha, m0) \<and> tlsf_allocate 20 8 8 (a0, m0) = Inr (p, a, m) \<and>
     check_pool (a, m) = Some (Inr []) \<and> check_consistency (a, m) = Some (Inr [])"
proof -
  obtain a0 ha m0 and p :: u64 and a m where d: "demo_tlsf = Inr (a0, ha, m0)" "tlsf_allocate 20 8 8 (a0, m0) = Inr (p, a, m)"
    "tlsf_reach (a0, m0) (a, m) [unat p \<mapsto> mem_read (unat p) 20 m]" by (rule demo_tlsf_reach)
  have "check_pool (a, m) = Some (Inr []) \<and> check_consistency (a, m) = Some (Inr [])"
    using tlsf_checks_silent [of 4096 8192 1024, OF _ _ _ _ d(1) [unfolded demo_tlsf_def] d(3)] by simp
  with d show ?thesis by blast
qed

text \<open>
  C20. The pool does not fragment for good: when the client has deallocated all its blocks, in whatever order, the pool is again
  one free block that spans it, and the used size is zero.
\<close>

theorem tlsf_pool_coalesces:
  assumes "0 < unat addr" and "unat addr + unat total_sz < 2 ^ 62" and "40 \<le> unat sz" and "unat sz < 2 ^ 31"
    and "new_tlsf_allocator sz name (new_area addr total_sz m0) = Inr (a0, ha, m1)" and "tlsf_reach (a0, m1) (a, m) Map.empty"
  shows "walk_log (a, m) = Some (Inr [(tlsf_pool a + 8, word_of_nat (pool_bytes (tlsf_pool_size a)), False)]) \<and> tlsf_used_size a = 0"
proof -
  have "tlsf_holds (a, m) Map.empty" by (rule tlsf_reach_holds [OF assms(6) new_tlsf_holds(2) [OF assms(1-5)]])
  then obtain bs where h: "tlsf_inv (a, m) bs" "stores (pool_start a) bs Map.empty" by (rule holdsE)
  have "bs = [(pool_bytes (tlsf_pool_size a), None)]" using h(2) by (intro single_block [OF h(1)]) (simp add: stores_def)
  moreover have "pool_start a + 16 = tlsf_pool a + 8" using h(1) by (auto simp: tlsf_inv_def pool_ok_def)
  moreover from calculation have "tlsf_used_size a = 0" using h(1) by (simp add: tlsf_inv_def unat_eq_zero)
  ultimately show ?thesis using walk_log_inv [OF h(1)] by simp
qed

theorem tlsf_pool_coalesces_witness:
  "\<exists>a0 ha m0 p a m a' m'. demo_tlsf = Inr (a0, ha, m0) \<and> tlsf_allocate 20 8 8 (a0, m0) = Inr (p, a, m) \<and>
     tlsf_deallocate p (a, m) = Inr (a', m') \<and>
     walk_log (a', m') = Some (Inr [(tlsf_pool a' + 8, word_of_nat (pool_bytes (tlsf_pool_size a')), False)])"
proof -
  obtain a0 ha m0 and p :: u64 and a m where d: "demo_tlsf = Inr (a0, ha, m0)" "tlsf_inv (a0, m0) [(1008, None)]" "tlsf_allocate 20 8 8 (a0, m0) = Inr (p, a, m)"
    "tlsf_reach (a0, m0) (a, m) [unat p \<mapsto> mem_read (unat p) 20 m]" by (rule demo_tlsf_reach)
  have "tlsf_holds (a0, m0) Map.empty" by (rule holdsI [OF d(2)]) (simp_all add: stores_def)
  from holds_delete [OF tlsf_reach_holds [OF d(4) this], of p] obtain a' m' where d': "tlsf_deallocate p (a, m) = Inr (a', m')" by auto
  have "tlsf_reach (a0, m0) (a', m') Map.empty" using tlsf_delete [OF d(4) _ d'] by simp
  from tlsf_pool_coalesces [of 4096 8192 1024, OF _ _ _ _ d(1) [unfolded demo_tlsf_def] this]
  have "walk_log (a', m') = Some (Inr [(tlsf_pool a' + 8, word_of_nat (pool_bytes (tlsf_pool_size a')), False)])" by simp
  with d(1,3) d' show ?thesis by blast
qed

text \<open>
  C21. An arena on a TLSF allocator is a store of independent blocks as well, with the sentinels and the size written around
  each block: whatever the client writes to its blocks is kept, blocks are apart, and the checks on deallocation pass.
\<close>

theorem tlsf_arena_store:
  assumes "0 < unat addr" and "unat addr + unat total_sz < 2 ^ 62" and "40 \<le> unat sz" and "unat sz < 2 ^ 31" and "new_tracker t"
    and "new_tlsf_arena bounds guard t sz name (new_area addr total_sz m0) = Inr (ar0, ha, m1)"
    and "arena_reach tlsf_client tlsf_allocate tlsf_deallocate (ar0, m1) (ar, m) blocks" and "blocks p = Some bs"
  shows "mem_read p (length bs) m = bs \<and>
     (\<forall>q cs. blocks q = Some cs \<longrightarrow> q \<noteq> p \<longrightarrow> {p..<p + length bs} \<inter> {q..<q + length cs} = {}) \<and>
     (\<exists>s'. arena_deallocate tlsf_deallocate (word_of_nat p) (ar, m) = Inr s')"
  using tlsf_arena.reach_blocks [OF assms(7) new_tlsf_arena_store [OF assms(1-6)] assms(8)] .

lemma demo_arena_allocate:
  assumes "tlsf_inv (a, m) [(1008, None)]"
  shows "\<exists>p ar' m'. arena_allocate tlsf_allocate 20 8 0 (''f'', 1) (new_arena a True True No_Memory_Tracking, m) = Inr (p, ar', m')"
proof -
  have "tlsf_request 44 8 16" by (simp add: tlsf_request_def is_pow2_def)
  from allocate_spec [OF assms this] obtain p a' m' where "tlsf_allocate 44 8 16 (a, m) = Inr (p, a', m')" by (auto simp: enough_def)
  then show ?thesis
    by (simp add: arena_allocate_def guard_enter_def new_arena_def Let_def k_allocation_overhead_def k_front_overhead_def
        k_back_overhead_def sentinel_size_def)
qed

theorem tlsf_arena_store_witness:
  "\<exists>ar0 ha m0 p ar m. new_tlsf_arena True True No_Memory_Tracking 1024 ''tlsf'' (new_area 4096 8192 (\<lambda>_. 0)) = Inr (ar0, ha, m0) \<and>
     arena_allocate tlsf_allocate 20 8 0 (''f'', 1) (ar0, m0) = Inr (p, ar, m) \<and>
     (\<exists>s'. arena_deallocate tlsf_deallocate p (ar, m) = Inr s')"
proof -
  obtain a ha m0 where d: "demo_tlsf = Inr (a, ha, m0)" "tlsf_inv (a, m0) [(1008, None)]" by (rule demo_tlsf_new)
  let ?ar = "new_arena a True True No_Memory_Tracking"
  have n: "new_tlsf_arena True True No_Memory_Tracking 1024 ''tlsf'' (new_area 4096 8192 (\<lambda>_. 0)) = Inr (?ar, ha, m0)"
    using d(1) by (simp add: new_tlsf_arena_def demo_tlsf_def)
  from demo_arena_allocate [OF d(2)] obtain p ar m where p: "arena_allocate tlsf_allocate 20 8 0 (''f'', 1) (?ar, m0) = Inr (p, ar, m)" by blast
  have "tlsf_client 20 8 0" by (simp add: tlsf_client_def is_pow2_def)
  from arena_new [where client = tlsf_client, OF arena_start this p, of tlsf_deallocate]
  have r: "arena_reach tlsf_client tlsf_allocate tlsf_deallocate (?ar, m0) (ar, m) [unat p \<mapsto> mem_read (unat p) 20 m]" by simp
  have "\<exists>s'. arena_deallocate tlsf_deallocate (word_of_nat (unat p)) (ar, m) = Inr s'"
    using tlsf_arena_store [of 4096 8192 1024, OF _ _ _ _ _ n r, of "unat p" "mem_read (unat p) 20 m"] by (simp add: new_tracker_def)
  then have "\<exists>s'. arena_deallocate tlsf_deallocate p (ar, m) = Inr s'" by simp
  with n p show ?thesis by blast
qed

text \<open>
  With bounds checking, an array of objects that need construction and have an alignment of 16 bytes cannot be
  allocated: the offset of the first object, 24, exceeds the alignment.
\<close>

theorem aligned_array_fails:
  assumes "bounds_checked ar" "guarded ar \<longrightarrow> \<not> locked ar"
  shows "arena_new_array tlsf_allocate False tsz n 16 loc (ar, m) = Inl Assertion_Failed"
proof -
  have "tlsf_allocate sz 16 24 s = Inl Assertion_Failed" for sz s by (rule offset_above_alignment_fails) simp_all
  then show ?thesis using assms
    by (auto simp: arena_new_array_def arena_allocate_def guard_enter_def Let_def k_front_overhead_def sentinel_size_def)
qed

end
