(* ===== verification/Astar_Search.thy ===== *)
theory Astar_Search
  imports Kibble_Prelude
begin

text \<open>
  \<open>kb::Astar\<close> (\<open>algorithm/astar.h\<close>): the node pool, the search step, path reconstruction and
  clean-up. Nodes live in numbered slots of the pool; a node pointer is a slot number and the contents of
  a slot stay readable after the node is destroyed, as they do in the program's memory. Scores
  are elements of an ordered group in place of \<open>float\<close>: rounding is not modelled.
\<close>

section \<open>The search problem\<close>

text \<open>What \<open>AstarState\<close> requires of the user's state type.\<close>

record ('s, 'c) problem =
  hash :: "'s \<Rightarrow> u64"
  transition_cost :: "'s \<Rightarrow> 's \<Rightarrow> 'c"
  heuristic :: "'s \<Rightarrow> 's \<Rightarrow> 'c"
  get_successors :: "'s \<Rightarrow> 's option \<Rightarrow> 's list"

section \<open>Nodes and the node pool\<close>

record ('s, 'c) node =
  node_state :: 's
  g_score :: 'c
  h_score :: 'c
  f_score :: 'c
  parent :: "nat option"
  next_node :: "nat option"

definition new_node :: "'s \<Rightarrow> ('s, 'c::zero) node" where
  "new_node s = \<lparr>node_state = s, g_score = 0, h_score = 0, f_score = 0, parent = None, next_node = None\<rparr>"

definition node_update :: "nat \<Rightarrow> 'c \<Rightarrow> 'c \<Rightarrow> ('s, 'c::plus) node \<Rightarrow> ('s, 'c) node" where
  "node_update par g h n = n\<lparr>parent := Some par, g_score := g, h_score := h, f_score := g + h\<rparr>"

datatype status = RUNNING | SUCCESS | FAILURE

record ('s, 'c) astar =
  slots :: "nat \<Rightarrow> ('s, 'c) node"
  free_slots :: "nat list"
  allocation_count :: nat
  start_node :: nat
  goal_node :: nat
  search_status :: status
  steps :: nat
  solution_cost :: "'c option"
  open_set :: "nat list"
  closed_set :: "nat list"

definition state_of :: "('s, 'c) astar \<Rightarrow> nat \<Rightarrow> 's" where
  "state_of a i = node_state (slots a i)"

definition g_of :: "('s, 'c) astar \<Rightarrow> nat \<Rightarrow> 'c" where
  "g_of a i = g_score (slots a i)"

definition set_node :: "nat \<Rightarrow> ('s, 'c) node \<Rightarrow> ('s, 'c) astar \<Rightarrow> ('s, 'c) astar" where
  "set_node i n a = a\<lparr>slots := (slots a)(i := n)\<rparr>"

text \<open>
  \<open>NodePool\<close>: the free list is threaded through the elements, outside of the nodes they hold. A pool of no
  elements is out of bounds, because its constructor writes \<open>max_nodes - 1\<close> links.
\<close>

definition init_free_list :: "nat \<Rightarrow> fault + nat list" where
  "init_free_list max_nodes = (if max_nodes = 0 then Inl Out_Of_Bounds else Inr [0..<max_nodes])"

definition allocate_slot :: "('s, 'c) astar \<Rightarrow> (nat \<times> ('s, 'c) astar) option" where
  "allocate_slot a =
     (case free_slots a of [] \<Rightarrow> None
      | i # is \<Rightarrow> Some (i, a\<lparr>free_slots := is, allocation_count := allocation_count a + 1\<rparr>))"

definition deallocate_slot :: "nat \<Rightarrow> ('s, 'c) astar \<Rightarrow> ('s, 'c) astar" where
  "deallocate_slot i a = a\<lparr>free_slots := i # free_slots a, allocation_count := allocation_count a - 1\<rparr>"

definition create_node :: "'s \<Rightarrow> ('s, 'c::zero) astar \<Rightarrow> fault + nat \<times> ('s, 'c) astar" where
  "create_node s a =
     (case allocate_slot a of None \<Rightarrow> Inl Assertion_Failed
      | Some (i, a') \<Rightarrow> Inr (i, set_node i (new_node s) a'))"

definition destroy_node :: "nat \<Rightarrow> ('s, 'c) astar \<Rightarrow> ('s, 'c) astar" where
  "destroy_node i a = deallocate_slot i a"

lemma create_node_eq:
  "create_node s a =
     (case free_slots a of [] \<Rightarrow> Inl Assertion_Failed
      | i # is \<Rightarrow> Inr (i, set_node i (new_node s) (a\<lparr>free_slots := is, allocation_count := allocation_count a + 1\<rparr>)))"
  by (simp add: create_node_def allocate_slot_def split: list.split)

section \<open>Open and closed sets\<close>

text \<open>
  The open set is a vector kept as a heap by \<open>std::push_heap\<close>, \<open>pop_heap\<close> and \<open>make_heap\<close>. The
  standard leaves the arrangement open but for one thing: the front has the least f-score. The
  parameter \<open>pick\<close> is this choice, a position in the open set. It may depend on the whole state, which
  counts its steps, so every sequence of choices that a run of the heap can make is one such function.
\<close>

definition push_open_heap :: "nat \<Rightarrow> ('s, 'c) astar \<Rightarrow> ('s, 'c) astar" where
  "push_open_heap i a = a\<lparr>open_set := open_set a @ [i]\<rparr>"

definition pop_open_heap :: "(('s, 'c) astar \<Rightarrow> nat) \<Rightarrow> ('s, 'c) astar \<Rightarrow> nat \<times> ('s, 'c) astar" where
  "pop_open_heap pick a =
     (let k = pick a
      in (open_set a ! k, a\<lparr>open_set := take k (open_set a) @ drop (Suc k) (open_set a)\<rparr>))"

definition find_in_open_set :: "'s \<Rightarrow> ('s, 'c) astar \<Rightarrow> nat option" where
  "find_in_open_set s a = find (\<lambda>i. state_of a i = s) (open_set a)"

text \<open>The closed set compares nodes by the hash of their state.\<close>

definition find_in_closed_set :: "('s, 'c) problem \<Rightarrow> 's \<Rightarrow> ('s, 'c) astar \<Rightarrow> nat option" where
  "find_in_closed_set P s a = find (\<lambda>i. hash P (state_of a i) = hash P s) (closed_set a)"

definition erase_closed :: "('s, 'c) problem \<Rightarrow> nat \<Rightarrow> ('s, 'c) astar \<Rightarrow> ('s, 'c) astar" where
  "erase_closed P i a = a\<lparr>closed_set := filter (\<lambda>j. hash P (state_of a j) \<noteq> hash P (state_of a i)) (closed_set a)\<rparr>"

definition insert_closed :: "('s, 'c) problem \<Rightarrow> nat \<Rightarrow> ('s, 'c) astar \<Rightarrow> ('s, 'c) astar" where
  "insert_closed P i a =
     (if find_in_closed_set P (state_of a i) a = None then a\<lparr>closed_set := closed_set a @ [i]\<rparr> else a)"

section \<open>The search\<close>

definition new_astar :: "('s, 'c::linordered_ab_group_add) problem \<Rightarrow> 's \<Rightarrow> 's \<Rightarrow> nat \<Rightarrow> fault + ('s, 'c) astar" where
  "new_astar P start goal max_nodes =
     res_bind (init_free_list max_nodes) (\<lambda>free.
       let a0 = \<lparr>slots = (\<lambda>_. new_node start), free_slots = free, allocation_count = 0,
                 start_node = 0, goal_node = 0, search_status = RUNNING, steps = 0, solution_cost = None,
                 open_set = [], closed_set = []\<rparr>
       in res_bind (create_node start a0) (\<lambda>(s, a1).
               res_bind (create_node goal a1) (\<lambda>(t, a2).
               let h = heuristic P start goal;
                   a3 = set_node s ((slots a2 s)\<lparr>h_score := h, f_score := h\<rparr>) (a2\<lparr>start_node := s, goal_node := t\<rparr>)
               in Inr (push_open_heap s a3))))"

definition free_all_nodes :: "('s, 'c) astar \<Rightarrow> ('s, 'c) astar" where
  "free_all_nodes a =
     (let a1 = fold destroy_node (open_set a) a;
          a2 = fold destroy_node (closed_set a) a1
      in destroy_node (goal_node a) (a2\<lparr>open_set := [], closed_set := []\<rparr>))"

definition destroy_unlinked :: "nat \<Rightarrow> ('s, 'c) astar \<Rightarrow> ('s, 'c) astar" where
  "destroy_unlinked i a = (if next_node (slots a i) = None then destroy_node i a else a)"

definition free_unused_nodes :: "('s, 'c) astar \<Rightarrow> ('s, 'c) astar" where
  "free_unused_nodes a =
     (let a1 = fold destroy_unlinked (open_set a) a;
          a2 = fold destroy_unlinked (closed_set a) a1
      in a2\<lparr>open_set := [], closed_set := []\<rparr>)"

text \<open>
  \<open>reconstruct_path\<close> follows the parents from the goal until the start state; \<open>None\<close> would be an
  endless loop.
\<close>

partial_function (option) link_path ::
  "nat \<Rightarrow> nat option \<Rightarrow> ('s, 'c) astar \<Rightarrow> (fault + ('s, 'c) astar) option" where
  "link_path nxt par a =
     (if state_of a nxt = state_of a (start_node a) then Some (Inr a)
      else case par of
          None \<Rightarrow> Some (Inl Null_Dereference)
        | Some p \<Rightarrow> link_path p (parent (slots a p)) (set_node p ((slots a p)\<lparr>next_node := Some nxt\<rparr>) a))"

definition reconstruct_path :: "('s, 'c) astar \<Rightarrow> (fault + ('s, 'c) astar) option" where
  "reconstruct_path a =
     map_option (map_sum id (\<lambda>a'. a'\<lparr>solution_cost := Some (g_of a' (goal_node a'))\<rparr>))
       (link_path (goal_node a) (parent (slots a (goal_node a))) a)"

definition relax :: "('s, 'c::linordered_ab_group_add) problem \<Rightarrow> nat \<Rightarrow> 's \<Rightarrow> ('s, 'c) astar \<Rightarrow> fault + ('s, 'c) astar" where
  "relax P i suc a =
     (let g = g_of a i + transition_cost P (state_of a i) suc;
          h = heuristic P suc (state_of a (goal_node a))
      in case find_in_open_set suc a of
          Some p \<Rightarrow> if g_of a p \<le> g then Inr a else Inr (set_node p (node_update i g h (slots a p)) a)
        | None \<Rightarrow> (case find_in_closed_set P suc a of
            Some p \<Rightarrow> if g_of a p \<le> g then Inr a
              else Inr (erase_closed P p (push_open_heap p (set_node p (node_update i g h (slots a p)) a)))
          | None \<Rightarrow> res_bind (create_node suc a) (\<lambda>(p, a1).
              Inr (push_open_heap p (set_node p (node_update i g h (slots a1 p)) a1)))))"

definition expand :: "('s, 'c::linordered_ab_group_add) problem \<Rightarrow> nat \<Rightarrow> ('s, 'c) astar \<Rightarrow> fault + ('s, 'c) astar" where
  "expand P i a =
     (let par = map_option (state_of a) (parent (slots a i))
      in res_bind (run_ops (relax P i) (get_successors P (state_of a i) par) a) (\<lambda>a'.
         Inr (insert_closed P i a')))"

definition finish :: "nat \<Rightarrow> ('s, 'c) astar \<Rightarrow> (fault + ('s, 'c) astar) option" where
  "finish i a =
     (let t = goal_node a;
          a1 = set_node t ((slots a t)\<lparr>parent := parent (slots a i), g_score := g_of a i\<rparr>) a
      in map_option (map_sum id (\<lambda>a2. (free_unused_nodes a2)\<lparr>search_status := SUCCESS\<rparr>))
           (reconstruct_path (destroy_node i a1)))"

definition astar_step ::
  "('s, 'c::linordered_ab_group_add) problem \<Rightarrow> (('s, 'c) astar \<Rightarrow> nat) \<Rightarrow> (('s, 'c) astar \<Rightarrow> bool) \<Rightarrow>
   ('s, 'c) astar \<Rightarrow> (fault + ('s, 'c) astar) option" where
  "astar_step P pick cancel_request a =
     (if search_status a \<noteq> RUNNING then Some (Inr a)
      else if open_set a = [] \<or> cancel_request a
      then Some (Inr ((free_all_nodes a)\<lparr>search_status := FAILURE\<rparr>))
      else (let (i, a1) = pop_open_heap pick (a\<lparr>steps := steps a + 1\<rparr>)
            in if state_of a1 i = state_of a1 (goal_node a1) then finish i a1
               else Some (expand P i a1)))"

partial_function (option) astar_search ::
  "('s, 'c::linordered_ab_group_add) problem \<Rightarrow> (('s, 'c) astar \<Rightarrow> nat) \<Rightarrow> (('s, 'c) astar \<Rightarrow> bool) \<Rightarrow>
   ('s, 'c) astar \<Rightarrow> (fault + ('s, 'c) astar) option" where
  "astar_search prob pick cancel_request a =
     Option.bind (astar_step prob pick cancel_request a) (\<lambda>r.
       case r of Inl e \<Rightarrow> Some (Inl e)
       | Inr a' \<Rightarrow> if search_status a' = RUNNING then astar_search prob pick cancel_request a' else Some (Inr a'))"

text \<open>The states visited by \<open>walk_path\<close>, and the loop of the destructor.\<close>

partial_function (option) walk_path :: "nat option \<Rightarrow> ('s, 'c) astar \<Rightarrow> 's list option" where
  "walk_path node a =
     (case node of None \<Rightarrow> Some []
      | Some i \<Rightarrow> Option.bind (walk_path (next_node (slots a i)) a) (\<lambda>xs. Some (state_of a i # xs)))"

partial_function (option) destroy_path :: "nat option \<Rightarrow> ('s, 'c) astar \<Rightarrow> ('s, 'c) astar option" where
  "destroy_path node a =
     (case node of None \<Rightarrow> Some a
      | Some i \<Rightarrow> destroy_path (next_node (slots a i)) (destroy_node i a))"

definition delete_astar :: "('s, 'c) astar \<Rightarrow> (fault + ('s, 'c) astar) option" where
  "delete_astar a =
     map_option (\<lambda>a'. map_sum id (\<lambda>_. a') (k_assert (allocation_count a' = 0)))
       (if search_status a = SUCCESS then destroy_path (Some (start_node a)) a else Some a)"

declare astar_search.simps [code] link_path.simps [code] walk_path.simps [code] destroy_path.simps [code]

end
