(* ===== verification/Astar_Graph.thy ===== *)
theory Astar_Graph
  imports Astar_Search
begin

text \<open>
  The graph built by an A* search, apart from the containers that hold it: paths and their costs,
  the requirements on the search problem, and an invariant of node attributes
  (states, g-scores, parents, explored edges) with the updates a search makes.
\<close>

section \<open>Paths\<close>

definition edge :: "('s, 'c) problem \<Rightarrow> 's \<Rightarrow> 's \<Rightarrow> bool" where
  "edge P s t \<longleftrightarrow> (\<exists>par. t \<in> set (get_successors P s par))"

fun is_path :: "('s, 'c) problem \<Rightarrow> 's list \<Rightarrow> bool" where
  "is_path P [] = False"
| "is_path P [s] = True"
| "is_path P (s # t # p) = (edge P s t \<and> is_path P (t # p))"

fun path_cost :: "('s, 'c::linordered_ab_group_add) problem \<Rightarrow> 's list \<Rightarrow> 'c" where
  "path_cost P [] = 0"
| "path_cost P [s] = 0"
| "path_cost P (s # t # p) = transition_cost P s t + path_cost P (t # p)"

definition path_between :: "('s, 'c) problem \<Rightarrow> 's \<Rightarrow> 's list \<Rightarrow> 's \<Rightarrow> bool" where
  "path_between P s p t \<longleftrightarrow> is_path P p \<and> hd p = s \<and> last p = t"

lemma is_path_nonempty [simp]: "is_path P p \<Longrightarrow> p \<noteq> []"
  by (cases p) auto

lemma is_path_snoc: "p \<noteq> [] \<Longrightarrow> is_path P (p @ [t]) \<longleftrightarrow> is_path P p \<and> edge P (last p) t"
  by (induction p rule: is_path.induct) auto

lemma path_cost_snoc: "p \<noteq> [] \<Longrightarrow> path_cost P (p @ [t]) = path_cost P p + transition_cost P (last p) t"
  by (induction P p rule: path_cost.induct) (auto simp: add.assoc)

lemma path_between_snoc:
  "path_between P s p t \<Longrightarrow> edge P t u \<Longrightarrow> path_between P s (p @ [u]) u"
  by (auto simp: path_between_def is_path_snoc)

lemma is_path_append: "p \<noteq> [] \<Longrightarrow> q \<noteq> [] \<Longrightarrow> is_path P (p @ q) \<longleftrightarrow> is_path P p \<and> edge P (last p) (hd q) \<and> is_path P q"
proof (induction q arbitrary: p)
  case (Cons t q)
  show ?case
  proof (cases "q = []")
    case True
    with Cons.prems show ?thesis by (simp add: is_path_snoc)
  next
    case False
    then obtain u q' where q: "q = u # q'" by (cases q) auto
    have "is_path P ((p @ [t]) @ q) \<longleftrightarrow> is_path P (p @ [t]) \<and> edge P t u \<and> is_path P q"
      using Cons.IH [of "p @ [t]"] False by (simp add: q)
    then show ?thesis using Cons.prems by (auto simp: q is_path_snoc)
  qed
qed simp

lemma path_cost_append:
  "p \<noteq> [] \<Longrightarrow> path_cost P (p @ t # q) = path_cost P (p @ [t]) + path_cost P (t # q)"
  by (induction P p rule: path_cost.induct) (auto simp: add.assoc)

text \<open>
  The assumptions on a search problem: the documented requirements on the state type (an
  admissible heuristic, a hash without collisions), non-negative costs, no state that is its own
  successor, and a successor function that may leave out at most the parent it is given.
\<close>

definition reachable_states :: "('s, 'c) problem \<Rightarrow> 's \<Rightarrow> 's set" where
  "reachable_states P start = {s. \<exists>p. path_between P start p s}"

definition well_posed :: "('s, 'c::linordered_ab_group_add) problem \<Rightarrow> 's \<Rightarrow> 's \<Rightarrow> bool" where
  "well_posed P start goal \<longleftrightarrow> start \<noteq> goal \<and> inj_on (hash P) (reachable_states P start) \<and>
     (\<forall>s t. edge P s t \<longrightarrow> 0 \<le> transition_cost P s t \<and> s \<noteq> t) \<and>
     (\<forall>s t par. edge P s t \<longrightarrow> t \<in> set (get_successors P s par) \<or> par = Some t) \<and>
     0 \<le> heuristic P goal goal \<and>
     (\<forall>s p. path_between P s p goal \<longrightarrow> heuristic P s goal \<le> path_cost P p)"

lemma well_posedD:
  assumes "well_posed P start goal"
  shows "start \<noteq> goal" "inj_on (hash P) (reachable_states P start)"
    "\<And>s t. edge P s t \<Longrightarrow> 0 \<le> transition_cost P s t" "\<And>s t. edge P s t \<Longrightarrow> s \<noteq> t"
    "\<And>s t par. edge P s t \<Longrightarrow> t \<in> set (get_successors P s par) \<or> par = Some t"
    "0 \<le> heuristic P goal goal" "\<And>s p. path_between P s p goal \<Longrightarrow> heuristic P s goal \<le> path_cost P p"
  using assms by (auto simp: well_posed_def)

lemma path_cost_nonneg:
  assumes "\<And>s t. edge P s t \<Longrightarrow> 0 \<le> transition_cost P s t"
  shows "is_path P p \<Longrightarrow> 0 \<le> path_cost P p"
  using assms by (induction P p rule: path_cost.induct) (auto intro: add_nonneg_nonneg)

section \<open>The search graph\<close>

text \<open>
  The attributes of the nodes \<open>V\<close> of a search: state \<open>S\<close>, g-score \<open>G\<close>, parent \<open>Par\<close>, and the
  successors \<open>E\<close> explored since the last change of the node; \<open>r\<close> is the start node. Every g-score is
  the cost of a path without repetitions, all of whose states have nodes that are no worse.
\<close>

definition supported :: "('s, 'c::linordered_ab_group_add) problem \<Rightarrow> nat set \<Rightarrow> (nat \<Rightarrow> 's) \<Rightarrow> (nat \<Rightarrow> 'c) \<Rightarrow> 's list \<Rightarrow> bool" where
  "supported P V S G p \<longleftrightarrow> (\<forall>q t q'. p = q @ t # q' \<longrightarrow> (\<exists>k \<in> V. S k = t \<and> G k \<le> path_cost P (q @ [t])))"

definition graph_inv ::
  "('s, 'c::linordered_ab_group_add) problem \<Rightarrow> 's \<Rightarrow> nat \<Rightarrow> nat set \<Rightarrow> (nat \<Rightarrow> 's set) \<Rightarrow> (nat \<Rightarrow> 's) \<Rightarrow> (nat \<Rightarrow> 'c) \<Rightarrow>
   (nat \<Rightarrow> nat option) \<Rightarrow> bool" where
  "graph_inv P start r V E S G Par \<longleftrightarrow>
     finite V \<and> r \<in> V \<and> S r = start \<and> G r = 0 \<and> Par r = None \<and> inj_on S V \<and>
     (\<forall>i \<in> V - {r}. \<exists>j \<in> V. Par i = Some j \<and> edge P (S j) (S i) \<and> G j + transition_cost P (S j) (S i) \<le> G i) \<and>
     acyclic {(j, i). i \<in> V \<and> Par i = Some j} \<and>
     (\<forall>i \<in> V. \<forall>s \<in> E i. \<exists>k \<in> V. S k = s \<and> G k \<le> G i + transition_cost P (S i) s) \<and>
     (\<forall>i \<in> V. \<exists>p. path_between P start p (S i) \<and> distinct p \<and> path_cost P p = G i \<and> supported P V S G p)"

lemma graph_invD:
  assumes "graph_inv P start r V E S G Par"
  shows "finite V" "r \<in> V" "S r = start" "G r = 0" "Par r = None" "inj_on S V"
    "\<And>i. i \<in> V \<Longrightarrow> i \<noteq> r \<Longrightarrow> \<exists>j \<in> V. Par i = Some j \<and> edge P (S j) (S i) \<and> G j + transition_cost P (S j) (S i) \<le> G i"
    "acyclic {(j, i). i \<in> V \<and> Par i = Some j}"
    "\<And>i s. i \<in> V \<Longrightarrow> s \<in> E i \<Longrightarrow> \<exists>k \<in> V. S k = s \<and> G k \<le> G i + transition_cost P (S i) s"
    "\<And>i. i \<in> V \<Longrightarrow> \<exists>p. path_between P start p (S i) \<and> distinct p \<and> path_cost P p = G i \<and> supported P V S G p"
  using assms by (auto simp: graph_inv_def)

lemma graph_inv_start:
  "graph_inv P start r {r} (\<lambda>_. {}) S G Par" if "S r = start" "G r = 0" "Par r = None"
proof -
  have "supported P {r} S G [start]" using that by (auto simp: supported_def Cons_eq_append_conv)
  then have "\<exists>p. path_between P start p (S r) \<and> distinct p \<and> path_cost P p = G r \<and> supported P {r} S G p"
    using that by (intro exI [of _ "[start]"]) (simp add: path_between_def)
  moreover have no: "{(j, i). i \<in> {r} \<and> Par i = Some j} = {}" using that by auto
  ultimately show ?thesis using that unfolding graph_inv_def no by (simp add: acyclic_def)
qed

lemma graph_states_reachable: "graph_inv P start r V E S G Par \<Longrightarrow> S ` V \<subseteq> reachable_states P start"
  by (auto simp: graph_inv_def reachable_states_def)

text \<open>The g-score does not decrease along a chain of parents.\<close>

lemma parents_decrease:
  assumes "graph_inv P start r V E S G Par" "\<And>s t. edge P s t \<Longrightarrow> 0 \<le> transition_cost P s t"
    and "(j, i) \<in> {(j, i). i \<in> V \<and> Par i = Some j}\<^sup>*"
  shows "G j \<le> G i"
  using assms(3)
proof (induction rule: rtrancl_induct)
  case (step y z)
  then have z: "z \<in> V" "Par z = Some y" by auto
  then have "z \<noteq> r" using graph_invD(5) [OF assms(1)] by auto
  from graph_invD(7) [OF assms(1) z(1) this] z(2) have "edge P (S y) (S z)"
    and le: "G y + transition_cost P (S y) (S z) \<le> G z" by auto
  then have "G y \<le> G y + transition_cost P (S y) (S z)" using assms(2) by simp
  with le step.IH show ?case by (blast intro: order_trans)
qed simp


lemma supported_mono:
  assumes "supported P V S G p" "V \<subseteq> V'" "\<And>k. k \<in> V \<Longrightarrow> S' k = S k" "\<And>k. k \<in> V \<Longrightarrow> G' k \<le> G k"
  shows "supported P V' S' G' p"
  unfolding supported_def
proof (intro allI impI)
  fix q t q' assume "p = q @ t # q'"
  then obtain k where "k \<in> V" "S k = t" "G k \<le> path_cost P (q @ [t])" using assms(1) by (auto simp: supported_def)
  with assms(2,3) assms(4) [of k] show "\<exists>k \<in> V'. S' k = t \<and> G' k \<le> path_cost P (q @ [t])"
    by (intro bexI [of _ k]) auto
qed

lemma supported_snoc:
  assumes "supported P V S G p" "k \<in> V" "S k = t" "G k \<le> path_cost P (p @ [t])"
  shows "supported P V S G (p @ [t])"
  unfolding supported_def
proof (intro allI impI)
  fix q u q' assume eq: "p @ [t] = q @ u # q'"
  show "\<exists>k \<in> V. S k = u \<and> G k \<le> path_cost P (q @ [u])"
  proof (cases q' rule: rev_cases)
    case Nil
    with eq have "q = p" "u = t" by simp_all
    with assms(2-4) show ?thesis by blast
  next
    case (snoc ys y)
    with eq have "p = q @ u # ys" by simp
    with assms(1) show ?thesis by (auto simp: supported_def)
  qed
qed

lemma graph_nonneg:
  assumes "graph_inv P start r V E S G Par" "\<And>s t. edge P s t \<Longrightarrow> 0 \<le> transition_cost P s t" "k \<in> V"
  shows "0 \<le> G k"
proof -
  obtain q where "path_between P start q (S k)" "path_cost P q = G k" using graph_invD(10) [OF assms(1,3)] by blast
  then show ?thesis using path_cost_nonneg [OF assms(2), of q] by (auto simp: path_between_def)
qed

text \<open>The path behind a better score does not visit the state before.\<close>

lemma improved_path:
  fixes P :: "('s, 'c::linordered_ab_group_add) problem"
  assumes inv: "graph_inv P start r V E S G Par" and i: "i \<in> V" and e: "edge P (S i) t"
    and cost: "\<And>s t. edge P s t \<Longrightarrow> 0 \<le> transition_cost P s t"
    and g: "g = G i + transition_cost P (S i) t"
    and old: "p \<in> V \<Longrightarrow> S p = t \<and> g < G p" and new: "p \<notin> V \<Longrightarrow> t \<notin> S ` V"
  obtains q where "path_between P start (q @ [t]) t" "distinct (q @ [t])" "path_cost P (q @ [t]) = g" "supported P V S G q"
proof -
  have Gi: "G i \<le> g" using cost [OF e] g by simp
  obtain q where q: "path_between P start q (S i)" "distinct q" "path_cost P q = G i" "supported P V S G q"
    using graph_invD(10) [OF inv i] by blast
  have ne: "q \<noteq> []" "last q = S i" "is_path P q" using q(1) by (auto simp: path_between_def)
  have cost': "path_cost P (q @ [t]) = g" using ne q(3) g by (simp add: path_cost_snoc)
  have "t \<notin> set q"
  proof
    assume "t \<in> set q"
    then obtain q1 q2 where split: "q = q1 @ t # q2" by (meson split_list)
    then obtain k where k: "k \<in> V" "S k = t" "G k \<le> path_cost P (q1 @ [t])" using q(4) by (auto simp: supported_def)
    then have "p \<in> V" using new by auto
    then have "k = p" using k(1,2) old graph_invD(6) [OF inv] by (auto dest: inj_onD)
    moreover have "path_cost P (q1 @ [t]) \<le> path_cost P q"
    proof (cases "q1 = []")
      case True
      then show ?thesis using path_cost_nonneg [OF cost ne(3)] by simp
    next
      case False
      have "is_path P (t # q2)" using ne(3) split False is_path_append [of q1 "t # q2" P] by simp
      then show ?thesis using path_cost_append [OF False, of P t q2] path_cost_nonneg [OF cost, of "t # q2"] split by simp
    qed
    ultimately have "G p \<le> G i" using k(3) q(3) by simp
    then show False using old [OF \<open>p \<in> V\<close>] Gi by (auto dest: order_trans)
  qed
  with q(2,4) path_between_snoc [OF q(1) e] cost' that [of q] show thesis by simp
qed

text \<open>A node gets a new parent \<open>i\<close> and a better score, or is created.\<close>

lemma graph_inv_improve:
  fixes P :: "('s, 'c::linordered_ab_group_add) problem"
  assumes inv: "graph_inv P start r V E S G Par" and i: "i \<in> V" and e: "edge P (S i) t"
    and cost: "\<And>s t. edge P s t \<Longrightarrow> 0 \<le> transition_cost P s t"
    and g: "g = G i + transition_cost P (S i) t"
    and old: "p \<in> V \<Longrightarrow> S p = t \<and> g < G p" and new: "p \<notin> V \<Longrightarrow> t \<notin> S ` V"
  shows "graph_inv P start r (insert p V) (E(p := {})) (S(p := t)) (G(p := g)) (Par(p := Some i))"
proof -
  note d = graph_invD [OF inv]
  let ?V = "insert p V" and ?S = "S(p := t)" and ?G = "G(p := g)" and ?Par = "Par(p := Some i)"
  have S: "?S k = S k" if "k \<in> V" for k using old that by auto
  have G: "?G k \<le> G k" if "k \<in> V" for k using old that by auto
  have Gi: "G i \<le> g" using cost [OF e] g by simp
  have pi: "p \<noteq> i" using old i Gi by fastforce
  have pr: "p \<noteq> r" using old d(2,4) graph_nonneg [OF inv cost i] Gi by force
  have inj: "inj_on ?S ?V"
  proof (cases "p \<in> V")
    case True
    then have "?S = S" "?V = V" using old by auto
    then show ?thesis using d(6) by simp
  next
    case False
    then show ?thesis using d(6) new by (auto simp: inj_on_def)
  qed
  have par: "\<exists>j \<in> ?V. ?Par k = Some j \<and> edge P (?S j) (?S k) \<and> ?G j + transition_cost P (?S j) (?S k) \<le> ?G k"
    if k: "k \<in> ?V" "k \<noteq> r" for k
  proof (cases "k = p")
    case True
    then show ?thesis using pi i e g by auto
  next
    case False
    with k obtain j where j: "j \<in> V" "Par k = Some j" "edge P (S j) (S k)" "G j + transition_cost P (S j) (S k) \<le> G k"
      using d(7) by auto
    have "?G j + transition_cost P (S j) (S k) \<le> G j + transition_cost P (S j) (S k)"
      using G [OF j(1)] by (rule add_right_mono)
    then have "?G j + transition_cost P (S j) (S k) \<le> G k" using j(4) by (rule order_trans)
    with j S [OF j(1)] False show ?thesis by (intro bexI [of _ j]) (simp_all del: fun_upd_apply add: fun_upd_other)
  qed
  have acyc: "acyclic {(j, k). k \<in> ?V \<and> ?Par k = Some j}"
  proof -
    let ?R = "{(j, k). k \<in> V \<and> Par k = Some j}"
    have "(p, i) \<notin> ?R\<^sup>*"
    proof
      assume pi': "(p, i) \<in> ?R\<^sup>*"
      obtain z where z: "z \<in> V" "Par z = Some p" using pi' pi by (auto elim: converse_rtranclE)
      then have "p \<in> V" using d(5) d(7) [of z] by (cases "z = r") auto
      then show False using parents_decrease [OF inv cost pi'] old Gi by fastforce
    qed
    then have "acyclic (insert (i, p) ?R)" using d(8) by (simp add: acyclic_insert)
    moreover have "{(j, k). k \<in> ?V \<and> ?Par k = Some j} \<subseteq> insert (i, p) ?R" by auto
    ultimately show ?thesis by (rule acyclic_subset)
  qed
  have expl: "\<exists>k \<in> ?V. ?S k = s \<and> ?G k \<le> ?G j + transition_cost P (?S j) s"
    if j: "j \<in> ?V" "s \<in> (E(p := {})) j" for j s
  proof -
    have "j \<noteq> p" "j \<in> V" "s \<in> E j" using j by (auto split: if_splits)
    then obtain k where "k \<in> V" "S k = s" "G k \<le> G j + transition_cost P (S j) s" using d(9) by blast
    with S [of k] G [of k] \<open>j \<noteq> p\<close> show ?thesis by (intro bexI [of _ k]) (auto intro: order_trans)
  qed
  have sup: "supported P ?V ?S ?G q" if "supported P V S G q" for q
    using that by (rule supported_mono) (use S G in auto)
  have ghost: "\<exists>q. path_between P start q (?S k) \<and> distinct q \<and> path_cost P q = ?G k \<and> supported P ?V ?S ?G q"
    if k: "k \<in> ?V" for k
  proof (cases "k = p")
    case False
    with k d(10) [of k] sup show ?thesis by auto
  next
    case True
    obtain q where q: "path_between P start (q @ [t]) t" "distinct (q @ [t])" "path_cost P (q @ [t]) = g" "supported P V S G q"
      using improved_path [OF inv i e cost g old new] by blast
    have "supported P ?V ?S ?G (q @ [t])"
      by (rule supported_snoc [OF sup [OF q(4)], of p]) (simp_all add: q(3))
    with True q(1-3) show ?thesis by (intro exI [of _ "q @ [t]"]) auto
  qed
  show ?thesis
    unfolding graph_inv_def using d(1-5) pr inj par acyc expl ghost by (intro conjI ballI) (auto simp del: fun_upd_apply simp: fun_upd_other)
qed

lemma graph_inv_explored:
  assumes "graph_inv P start r V E S G Par" "k \<in> V" "S k = t" "G k \<le> G i + transition_cost P (S i) t"
  shows "graph_inv P start r V (E(i := insert t (E i))) S G Par"
  using assms by (auto simp: graph_inv_def)


lemma graph_inv_expanded:
  assumes inv: "graph_inv P start r V E S G Par" and wp: "well_posed P start goal" and i: "i \<in> V"
    and sub: "set (get_successors P (S i) (map_option S (Par i))) \<subseteq> E i"
  shows "graph_inv P start r V (E(i := {t. edge P (S i) t})) S G Par"
proof -
  note d = graph_invD [OF inv] and w = well_posedD [OF wp]
  have "\<exists>k \<in> V. S k = t \<and> G k \<le> G i + transition_cost P (S i) t" if e: "edge P (S i) t" for t
  proof (cases "t \<in> E i")
    case True
    then show ?thesis using d(9) [OF i] by blast
  next
    case False
    then have "map_option S (Par i) = Some t" using w(5) [OF e, of "map_option S (Par i)"] sub by blast
    then obtain j where j: "Par i = Some j" "S j = t" by auto
    then have "i \<noteq> r" using d(5) by auto
    then have "j \<in> V" "edge P (S j) (S i)" and le: "G j + transition_cost P (S j) (S i) \<le> G i" using d(7) [OF i] j(1) by auto
    have "G j \<le> G j + transition_cost P (S j) (S i)" using w(3) [OF \<open>edge P (S j) (S i)\<close>] by simp
    also note le
    also have "G i \<le> G i + transition_cost P (S i) t" using w(3) [OF e] by simp
    finally show ?thesis using \<open>j \<in> V\<close> j(2) by blast
  qed
  then show ?thesis using inv unfolding graph_inv_def by auto
qed

text \<open>The chain of parents leads from every node to the start node, along a path that costs no more than the g-score.\<close>

definition parent_chain :: "(nat \<Rightarrow> nat option) \<Rightarrow> nat list \<Rightarrow> bool" where
  "parent_chain Par ns \<longleftrightarrow> (\<forall>m. Suc m < length ns \<longrightarrow> Par (ns ! Suc m) = Some (ns ! m))"

lemma parent_chain_snoc: "ns \<noteq> [] \<Longrightarrow> parent_chain Par (ns @ [i]) \<longleftrightarrow> parent_chain Par ns \<and> Par i = Some (last ns)"
  by (cases ns rule: rev_cases) (auto simp: parent_chain_def nth_append less_Suc_eq)

lemma graph_chain:
  fixes P :: "('s, 'c::linordered_ab_group_add) problem"
  assumes inv: "graph_inv P start r V E S G Par" and "i \<in> V"
  shows "\<exists>ns. ns \<noteq> [] \<and> hd ns = r \<and> last ns = i \<and> set ns \<subseteq> V \<and> distinct ns \<and> parent_chain Par ns \<and>
    path_between P start (map S ns) (S i) \<and> path_cost P (map S ns) \<le> G i"
proof -
  note d = graph_invD [OF inv]
  let ?R = "{(j, i). i \<in> V \<and> Par i = Some j}"
  have "?R \<subseteq> (\<lambda>i. (the (Par i), i)) ` V" by force
  then have "wf ?R" using d(1,8) by (meson finite_acyclic_wf finite_imageI finite_subset)
  then have "\<exists>ns. ns \<noteq> [] \<and> hd ns = r \<and> last ns = i \<and> set ns \<subseteq> V \<and> distinct ns \<and> parent_chain Par ns \<and>
    path_between P start (map S ns) (S i) \<and> path_cost P (map S ns) \<le> G i \<and> (\<forall>k \<in> set ns. (k, i) \<in> ?R\<^sup>*)"
    using \<open>i \<in> V\<close>
  proof (induction i rule: wf_induct_rule)
    case (less i)
    show ?case
    proof (cases "i = r")
      case True
      then show ?thesis using d(2-4) by (intro exI [of _ "[r]"]) (auto simp: parent_chain_def path_between_def)
    next
      case False
      then obtain j where j: "j \<in> V" "Par i = Some j" "edge P (S j) (S i)" "G j + transition_cost P (S j) (S i) \<le> G i"
        using d(7) less.prems by blast
      then have ji: "(j, i) \<in> ?R" using less.prems by simp
      from less.IH [OF ji j(1)] obtain ns where ns: "ns \<noteq> []" "hd ns = r" "last ns = j" "set ns \<subseteq> V" "distinct ns"
        "parent_chain Par ns" "path_between P start (map S ns) (S j)" "path_cost P (map S ns) \<le> G j" "\<forall>k \<in> set ns. (k, j) \<in> ?R\<^sup>*"
        by blast
      have "i \<notin> set ns"
      proof
        assume "i \<in> set ns"
        then have "(i, j) \<in> ?R\<^sup>*" using ns(9) by blast
        then have "(i, i) \<in> ?R\<^sup>+" using ji by (rule rtrancl_into_trancl1)
        then show False using d(8) by (simp add: acyclic_def)
      qed
      moreover have "path_cost P (map S (ns @ [i])) \<le> G i"
        using ns(1,3,8) j(4) by (simp add: path_cost_snoc last_map) (meson add_right_mono order_trans)
      moreover have "\<forall>k \<in> set (ns @ [i]). (k, i) \<in> ?R\<^sup>*" using ns(9) ji by (auto intro: rtrancl_into_rtrancl)
      ultimately show ?thesis using ns less.prems j(2) path_between_snoc [OF ns(7) j(3)]
        by (intro exI [of _ "ns @ [i]"]) (simp add: parent_chain_snoc)
    qed
  qed
  then show ?thesis by blast
qed

end
