(* ===== verification/Astar_Invariant.thy ===== *)
theory Astar_Invariant
  imports Astar_Graph "HOL-Library.Multiset"
begin

text \<open>
  The invariant of a running A* search and its preservation: the node pool, relaxing a successor,
  expanding a node, and the construction of the solution path when the goal is popped.
\<close>

section \<open>The node pool\<close>

text \<open>The slots are the live nodes and the free ones, each once, and the counter is right.\<close>

definition pool_ok :: "nat \<Rightarrow> nat list \<Rightarrow> ('s, 'c) astar \<Rightarrow> bool" where
  "pool_ok N live a \<longleftrightarrow> distinct (live @ free_slots a) \<and> set (live @ free_slots a) = {..<N} \<and> allocation_count a = length live"

lemma pool_ok_perm:
  assumes "mset live = mset live'" "pool_ok N live a"
  shows "pool_ok N live' a"
proof -
  have "distinct live = distinct live'" "set live = set live'" "length live = length live'"
    using assms(1) mset_eq_imp_distinct_iff mset_eq_setD mset_eq_length by blast+
  with assms(2) show ?thesis by (simp add: pool_ok_def)
qed

lemma pool_ok_destroy: "pool_ok N (i # live) a \<Longrightarrow> pool_ok N live (destroy_node i a)"
  by (auto simp: pool_ok_def destroy_node_def deallocate_slot_def)

lemma pool_ok_slots: "free_slots a' = free_slots a \<Longrightarrow> allocation_count a' = allocation_count a \<Longrightarrow> pool_ok N live a' = pool_ok N live a"
  by (simp add: pool_ok_def)

lemma destroy_node_fields [simp]:
  "slots (destroy_node i a) = slots a" "open_set (destroy_node i a) = open_set a" "closed_set (destroy_node i a) = closed_set a"
  "goal_node (destroy_node i a) = goal_node a" "start_node (destroy_node i a) = start_node a"
  "search_status (destroy_node i a) = search_status a" "solution_cost (destroy_node i a) = solution_cost a"
  by (simp_all add: destroy_node_def deallocate_slot_def)

lemma destroy_unlinked_fields [simp]:
  "slots (destroy_unlinked i a) = slots a" "open_set (destroy_unlinked i a) = open_set a" "closed_set (destroy_unlinked i a) = closed_set a"
  "goal_node (destroy_unlinked i a) = goal_node a" "start_node (destroy_unlinked i a) = start_node a"
  "search_status (destroy_unlinked i a) = search_status a" "solution_cost (destroy_unlinked i a) = solution_cost a"
  by (simp_all add: destroy_unlinked_def)

lemma fold_destroy_fields [simp]:
  "slots (fold destroy_node is a) = slots a" "open_set (fold destroy_node is a) = open_set a"
  "closed_set (fold destroy_node is a) = closed_set a" "goal_node (fold destroy_node is a) = goal_node a"
  by (induction "is" arbitrary: a) simp_all

lemma fold_unlinked_fields [simp]:
  "slots (fold destroy_unlinked is a) = slots a" "open_set (fold destroy_unlinked is a) = open_set a"
  "closed_set (fold destroy_unlinked is a) = closed_set a" "start_node (fold destroy_unlinked is a) = start_node a"
  "solution_cost (fold destroy_unlinked is a) = solution_cost a"
  by (induction "is" arbitrary: a) simp_all

lemma pool_ok_fold: "pool_ok N (is @ live) a \<Longrightarrow> pool_ok N live (fold destroy_node is a)"
  by (induction "is" arbitrary: a) (auto dest: pool_ok_destroy)

lemma pool_ok_unlinked:
  "pool_ok N (is @ live) a \<Longrightarrow>
   pool_ok N (filter (\<lambda>i. next_node (slots a i) \<noteq> None) is @ live) (fold destroy_unlinked is a)"
proof (induction "is" arbitrary: a live)
  case (Cons i "is")
  show ?case
  proof (cases "next_node (slots a i) = None")
    case True
    then have d: "destroy_unlinked i a = destroy_node i a" by (simp add: destroy_unlinked_def)
    have "pool_ok N (is @ live) (destroy_node i a)" using Cons.prems by (auto intro: pool_ok_destroy)
    from Cons.IH [OF this] True show ?thesis by (simp add: d)
  next
    case False
    have "pool_ok N (is @ i # live) a" using Cons.prems by (rule pool_ok_perm [rotated]) simp
    from Cons.IH [OF this] have "pool_ok N (i # filter (\<lambda>i. next_node (slots a i) \<noteq> None) is @ live) (fold destroy_unlinked is a)"
      by (rule pool_ok_perm [rotated]) simp
    moreover have "destroy_unlinked i a = a" using False by (auto simp: destroy_unlinked_def)
    ultimately show ?thesis using False by simp
  qed
qed simp

section \<open>The invariant of a running search\<close>

definition nodes :: "nat list \<Rightarrow> ('s, 'c) astar \<Rightarrow> nat set" where
  "nodes X a = set X \<union> set (open_set a) \<union> set (closed_set a)"

text \<open>\<open>X\<close> is empty, or holds the node that is being expanded.\<close>

definition search_inv ::
  "('s, 'c::linordered_ab_group_add) problem \<Rightarrow> 's \<Rightarrow> 's \<Rightarrow> nat \<Rightarrow> nat list \<Rightarrow> (nat \<Rightarrow> 's set) \<Rightarrow> ('s, 'c) astar \<Rightarrow> bool" where
  "search_inv P start goal N X E a \<longleftrightarrow>
     pool_ok N (goal_node a # X @ open_set a @ closed_set a) a \<and> search_status a = RUNNING \<and>
     state_of a (goal_node a) = goal \<and> next_node (slots a (goal_node a)) = None \<and>
     (\<forall>i \<in> nodes X a. next_node (slots a i) = None \<and> f_score (slots a i) = g_of a i + heuristic P (state_of a i) goal) \<and>
     (\<forall>i \<in> set (closed_set a). state_of a i \<noteq> goal \<and> (\<forall>t. edge P (state_of a i) t \<longrightarrow> t \<in> E i)) \<and>
     graph_inv P start (start_node a) (nodes X a) E (state_of a) (g_of a) (\<lambda>i. parent (slots a i))"

lemma search_invD:
  assumes "search_inv P start goal N X E a"
  shows "pool_ok N (goal_node a # X @ open_set a @ closed_set a) a" "search_status a = RUNNING"
    "state_of a (goal_node a) = goal" "next_node (slots a (goal_node a)) = None"
    "\<And>i. i \<in> nodes X a \<Longrightarrow> next_node (slots a i) = None"
    "\<And>i. i \<in> nodes X a \<Longrightarrow> f_score (slots a i) = g_of a i + heuristic P (state_of a i) goal"
    "\<And>i. i \<in> set (closed_set a) \<Longrightarrow> state_of a i \<noteq> goal"
    "\<And>i t. i \<in> set (closed_set a) \<Longrightarrow> edge P (state_of a i) t \<Longrightarrow> t \<in> E i"
    "graph_inv P start (start_node a) (nodes X a) E (state_of a) (g_of a) (\<lambda>i. parent (slots a i))"
  using assms unfolding search_inv_def by blast+

lemma new_astar_inv:
  fixes P :: "('s, 'c::linordered_ab_group_add) problem"
  assumes "new_astar P start goal N = Inr a"
  shows "search_inv P start goal N [] (\<lambda>_. {}) a"
proof -
  have "N \<noteq> 0" using assms by (cases "N = 0") (simp_all add: new_astar_def init_free_list_def)
  moreover have "N \<noteq> 1" using assms by (cases "N = 1") (simp_all add: new_astar_def init_free_list_def create_node_eq set_node_def)
  ultimately have "N \<noteq> 0" "N \<noteq> 1" by blast+
  then obtain M where N: "N = Suc (Suc M)" by (metis One_nat_def not0_implies_Suc)
  have free: "[0..<N] = 0 # 1 # [2..<N]" by (simp add: N upt_rec numeral_2_eq_2)
  have a: "open_set a = [0]" "closed_set a = []" "start_node a = 0" "goal_node a = 1" "free_slots a = [2..<N]"
    "allocation_count a = 2" "search_status a = RUNNING"
    "slots a 0 = (new_node start)\<lparr>h_score := heuristic P start goal, f_score := heuristic P start goal\<rparr>"
    "slots a (Suc 0) = new_node goal"
    using assms \<open>N \<noteq> 0\<close> by (auto simp: new_astar_def init_free_list_def create_node_eq set_node_def push_open_heap_def Let_def free)
  have "graph_inv P start 0 {0} (\<lambda>_. {}) (state_of a) (g_of a) (\<lambda>i. parent (slots a i))"
    by (rule graph_inv_start) (simp_all add: state_of_def g_of_def a new_node_def)
  moreover have "pool_ok N [1, 0] a" using a by (auto simp: pool_ok_def N)
  ultimately show ?thesis by (simp add: search_inv_def nodes_def a state_of_def g_of_def new_node_def)
qed


lemma new_astar_returns: "2 \<le> N \<Longrightarrow> \<exists>a. new_astar P start goal N = Inr a"
proof -
  assume "2 \<le> N"
  then have "[0..<N] = 0 # 1 # [2..<N]" "N \<noteq> 0" by (simp_all add: upt_conv_Cons numeral_2_eq_2)
  then show ?thesis by (simp add: new_astar_def init_free_list_def create_node_eq set_node_def Let_def)
qed

section \<open>Relaxing a successor\<close>

text \<open>What a search step keeps: nodes stay, with their states and with scores that are no worse.\<close>

definition evolves :: "nat list \<Rightarrow> ('s, 'c::ord) astar \<Rightarrow> ('s, 'c) astar \<Rightarrow> bool" where
  "evolves X a a' \<longleftrightarrow> start_node a' = start_node a \<and> goal_node a' = goal_node a \<and> nodes X a \<subseteq> nodes X a' \<and>
     (\<forall>k \<in> nodes X a. state_of a' k = state_of a k \<and> g_of a' k \<le> g_of a k)"

definition improves :: "nat list \<Rightarrow> ('s, 'c::ord) astar \<Rightarrow> ('s, 'c) astar \<Rightarrow> bool" where
  "improves X a a' \<longleftrightarrow> evolves X a a' \<and> (\<exists>p \<in> nodes X a'. p \<in> nodes X a \<longrightarrow> g_of a' p < g_of a p)"

lemma evolves_refl [simp]: "evolves X a (a :: ('s, 'c::linorder) astar)"
  by (simp add: evolves_def)

lemma evolves_trans: "evolves X a b \<Longrightarrow> evolves X b c \<Longrightarrow> evolves X a (c :: ('s, 'c::linorder) astar)"
  unfolding evolves_def by (metis order_trans subsetD)

lemma improves_trans:
  fixes a :: "('s, 'c::linorder) astar"
  shows "improves X a b \<Longrightarrow> evolves X b c \<Longrightarrow> improves X a c" "evolves X a b \<Longrightarrow> improves X b c \<Longrightarrow> improves X a c"
proof -
  assume ab: "improves X a b" and bc: "evolves X b c"
  then obtain p where p: "p \<in> nodes X b" "p \<in> nodes X a \<longrightarrow> g_of b p < g_of a p" by (auto simp: improves_def)
  moreover have "p \<in> nodes X c" "g_of c p \<le> g_of b p" using bc p(1) by (auto simp: evolves_def)
  ultimately show "improves X a c" using ab bc evolves_trans unfolding improves_def by (blast intro: le_less_trans)
next
  assume ab: "evolves X a b" and bc: "improves X b c"
  then obtain p where p: "p \<in> nodes X c" "p \<in> nodes X b \<longrightarrow> g_of c p < g_of b p" by (auto simp: improves_def)
  have "p \<in> nodes X a \<Longrightarrow> p \<in> nodes X b \<and> g_of b p \<le> g_of a p" using ab by (auto simp: evolves_def)
  then show "improves X a c" using p ab bc evolves_trans unfolding improves_def by (blast intro: less_le_trans)
qed

text \<open>The outcome of relaxing one successor of the node \<open>i\<close>.\<close>

definition relaxed ::
  "('s, 'c::linordered_ab_group_add) problem \<Rightarrow> 's \<Rightarrow> 's \<Rightarrow> nat \<Rightarrow> nat \<Rightarrow> 's set \<Rightarrow> ('s, 'c) astar \<Rightarrow> ('s, 'c) astar \<Rightarrow> bool" where
  "relaxed P start goal N i T a a' \<longleftrightarrow>
     (\<exists>E. search_inv P start goal N [i] E a' \<and> T \<subseteq> E i) \<and> slots a' i = slots a i \<and>
     evolves [i] a a' \<and> (improves [i] a a' \<or> open_set a' = open_set a)"

text \<open>A node \<open>p\<close> enters the open set, or stays there, with a new parent \<open>i\<close> and a better score.\<close>

lemma improve_node:
  fixes P :: "('s, 'c::linordered_ab_group_add) problem"
  assumes inv: "search_inv P start goal N [i] E a" and wp: "well_posed P start goal"
    and e: "edge P (state_of a i) suc" and g: "g = g_of a i + transition_cost P (state_of a i) suc"
    and n: "node_state n = suc" "g_score n = g" "f_score n = g + heuristic P suc goal" "parent n = Some i" "next_node n = None"
    and a': "slots a' = (slots a)(p := n)" "goal_node a' = goal_node a" "start_node a' = start_node a"
      "search_status a' = RUNNING" "pool_ok N (goal_node a' # [i] @ open_set a' @ closed_set a') a'"
      "p \<in> set (open_set a')" "set (closed_set a') \<subseteq> set (closed_set a)" "nodes [i] a' = insert p (nodes [i] a)"
    and old: "p \<in> nodes [i] a \<Longrightarrow> state_of a p = suc \<and> g < g_of a p"
    and new: "p \<notin> nodes [i] a \<Longrightarrow> suc \<notin> state_of a ` nodes [i] a"
  shows "relaxed P start goal N i (insert suc (E i)) a a'"
proof -
  note d = search_invD [OF inv] and w = well_posedD [OF wp]
  have dist: "p \<noteq> goal_node a" "p \<noteq> i" "p \<notin> set (closed_set a')"
    using a'(2,5,6) by (auto simp: pool_ok_def)
  have S: "state_of a' = (state_of a)(p := suc)" and G: "g_of a' = (g_of a)(p := g)"
    and Par: "(\<lambda>k. parent (slots a' k)) = (\<lambda>k. parent (slots a k))(p := Some i)"
    using n a'(1) by (auto simp: state_of_def g_of_def)
  have i: "i \<in> nodes [i] a" by (simp add: nodes_def)
  have "graph_inv P start (start_node a) (nodes [i] a') (E(p := {})) (state_of a') (g_of a') (\<lambda>k. parent (slots a' k))"
    unfolding S G Par a'(8) by (rule graph_inv_improve [OF d(9) i e w(3) g old new])
  then have gi: "graph_inv P start (start_node a) (nodes [i] a') ((E(p := {}))(i := insert suc ((E(p := {})) i))) (state_of a') (g_of a') (\<lambda>k. parent (slots a' k))"
    by (rule graph_inv_explored [of _ _ _ _ _ _ _ _ p]) (use g dist in \<open>simp_all add: S G a'(8)\<close>)
  have "search_inv P start goal N [i] ((E(p := {}))(i := insert suc ((E(p := {})) i))) a'"
    unfolding search_inv_def
  proof (intro conjI ballI)
    fix k assume "k \<in> nodes [i] a'"
    then consider "k = p" | "k \<noteq> p" "k \<in> nodes [i] a" using a'(8) by blast
    then have "next_node (slots a' k) = None \<and> f_score (slots a' k) = g_of a' k + heuristic P (state_of a' k) goal"
      using n d(5,6) by cases (simp_all add: S G a'(1))
    then show "next_node (slots a' k) = None" "f_score (slots a' k) = g_of a' k + heuristic P (state_of a' k) goal" by blast+
  next
    fix k assume k: "k \<in> set (closed_set a')"
    then have "k \<noteq> p" "k \<in> set (closed_set a)" "k \<noteq> i" using dist a'(5,7) by (auto simp: pool_ok_def)
    then show "state_of a' k \<noteq> goal" "\<forall>t. edge P (state_of a' k) t \<longrightarrow> t \<in> ((E(p := {}))(i := insert suc ((E(p := {})) i))) k"
      using d(7,8) by (simp_all add: S)
  qed (use a'(4,5) d(3,4) dist gi in \<open>simp_all add: a'(1-3) S\<close>)
  then have ex: "\<exists>E'. search_inv P start goal N [i] E' a' \<and> insert suc (E i) \<subseteq> E' i"
    using dist by (intro exI [of _ "(E(p := {}))(i := insert suc ((E(p := {})) i))"]) simp
  have "evolves [i] a a'" using a'(2,3,8) old by (auto simp: evolves_def S G)
  moreover have "p \<in> nodes [i] a'" "p \<in> nodes [i] a \<longrightarrow> g_of a' p < g_of a p" using old by (auto simp: a'(8) G)
  ultimately have "improves [i] a a'" by (auto simp: improves_def)
  moreover have "slots a' i = slots a i" using dist by (simp add: a'(1))
  ultimately show ?thesis using ex unfolding relaxed_def by (simp add: improves_def)
qed


lemma closed_find:
  assumes inv: "search_inv P start goal N X E a" and wp: "well_posed P start goal" and s: "s \<in> reachable_states P start"
  shows "find_in_closed_set P s a = Some p \<Longrightarrow> p \<in> set (closed_set a) \<and> state_of a p = s"
    "find_in_closed_set P s a = None \<Longrightarrow> s \<notin> state_of a ` set (closed_set a)"
proof -
  have "state_of a k \<in> reachable_states P start" if "k \<in> set (closed_set a)" for k
    using graph_states_reachable [OF search_invD(9) [OF inv]] that by (auto simp: nodes_def)
  then have "hash P (state_of a k) = hash P s \<longleftrightarrow> state_of a k = s" if "k \<in> set (closed_set a)" for k
    using that s well_posedD(2) [OF wp] by (auto dest: inj_onD)
  then show "find_in_closed_set P s a = Some p \<Longrightarrow> p \<in> set (closed_set a) \<and> state_of a p = s"
    "find_in_closed_set P s a = None \<Longrightarrow> s \<notin> state_of a ` set (closed_set a)"
    unfolding find_in_closed_set_def by (auto simp: find_Some_iff find_None_iff dest: nth_mem)
qed

lemma open_find:
  "find_in_open_set s a = Some p \<Longrightarrow> p \<in> set (open_set a) \<and> state_of a p = s"
  "find_in_open_set s a = None \<Longrightarrow> s \<notin> state_of a ` set (open_set a)"
  unfolding find_in_open_set_def by (auto simp: find_Some_iff find_None_iff)

lemma erase_closed_eq:
  assumes inv: "search_inv P start goal N X E a" and wp: "well_posed P start goal" and p: "p \<in> set (closed_set a)"
    and b: "closed_set b = closed_set a" "state_of b = state_of a"
  shows "erase_closed P p b = b\<lparr>closed_set := remove1 p (closed_set a)\<rparr>"
proof -
  have "state_of a ` set (closed_set a) \<subseteq> reachable_states P start" "inj_on (state_of a) (set (closed_set a))"
    using graph_states_reachable [OF search_invD(9) [OF inv]] graph_invD(6) [OF search_invD(9) [OF inv]]
    by (auto simp: nodes_def inj_on_def)
  then have "hash P (state_of a j) = hash P (state_of a p) \<longleftrightarrow> j = p" if "j \<in> set (closed_set a)" for j
    using that p well_posedD(2) [OF wp] by (metis image_subset_iff inj_onD)
  then have "filter (\<lambda>j. hash P (state_of a j) \<noteq> hash P (state_of a p)) (closed_set a) = filter (\<lambda>j. j \<noteq> p) (closed_set a)"
    by (intro filter_cong) auto
  moreover have "distinct (closed_set a)" using search_invD(1) [OF inv] by (simp add: pool_ok_def)
  ultimately show ?thesis by (simp add: erase_closed_def b distinct_remove1_removeAll removeAll_filter_not_eq eq_commute)
qed

lemma relax_open:
  assumes inv: "search_inv P start goal N [i] E a" and wp: "well_posed P start goal" and e: "edge P (state_of a i) suc"
    and f: "find_in_open_set suc a = Some p"
  shows "\<exists>a'. relax P i suc a = Inr a' \<and> relaxed P start goal N i (insert suc (E i)) a a'"
proof -
  note d = search_invD [OF inv]
  define g where "g = g_of a i + transition_cost P (state_of a i) suc"
  have p: "p \<in> set (open_set a)" "state_of a p = suc" using open_find(1) [OF f] by auto
  then have pn: "p \<in> nodes [i] a" by (simp add: nodes_def)
  show ?thesis
  proof (cases "g_of a p \<le> g")
    case True
    have "search_inv P start goal N [i] (E(i := insert suc (E i))) a"
      using inv graph_inv_explored [OF d(9) pn p(2)] True unfolding g_def search_inv_def by simp
    then show ?thesis using True f by (auto simp: relax_def relaxed_def g_def)
  next
    case False
    let ?n = "node_update i g (heuristic P suc goal) (slots a p)" and ?a = "set_node p (node_update i g (heuristic P suc goal) (slots a p)) a"
    have "relax P i suc a = Inr ?a" using False f by (simp add: relax_def g_def [symmetric] d(3) Let_def)
    moreover have "nodes [i] ?a = insert p (nodes [i] a)" using pn by (auto simp: nodes_def set_node_def)
    then have "relaxed P start goal N i (insert suc (E i)) a ?a"
      by (rule improve_node [OF inv wp e g_def, where p = p and n = ?n, rotated -3])
        (use d(1,2) d(5) [OF pn] p pn False in \<open>simp_all add: set_node_def node_update_def pool_ok_def state_of_def\<close>)
    ultimately show ?thesis by blast
  qed
qed

lemma relax_closed:
  assumes inv: "search_inv P start goal N [i] E a" and wp: "well_posed P start goal" and e: "edge P (state_of a i) suc"
    and suc: "suc \<in> reachable_states P start"
    and f: "find_in_open_set suc a = None" "find_in_closed_set P suc a = Some p"
  shows "\<exists>a'. relax P i suc a = Inr a' \<and> relaxed P start goal N i (insert suc (E i)) a a'"
proof -
  note d = search_invD [OF inv]
  define g where "g = g_of a i + transition_cost P (state_of a i) suc"
  have p: "p \<in> set (closed_set a)" "state_of a p = suc" using closed_find(1) [OF inv wp suc f(2)] by auto
  then have pn: "p \<in> nodes [i] a" by (simp add: nodes_def)
  show ?thesis
  proof (cases "g_of a p \<le> g")
    case True
    have "search_inv P start goal N [i] (E(i := insert suc (E i))) a"
      using inv graph_inv_explored [OF d(9) pn p(2)] True d(1) p unfolding g_def search_inv_def by (auto simp: pool_ok_def)
    then show ?thesis using True f by (auto simp: relax_def relaxed_def g_def)
  next
    case False
    let ?n = "node_update i g (heuristic P suc goal) (slots a p)"
    let ?b = "push_open_heap p (set_node p ?n a)"
    let ?a = "?b\<lparr>closed_set := remove1 p (closed_set a)\<rparr>"
    have "state_of ?b = state_of a" by (auto simp: state_of_def push_open_heap_def set_node_def node_update_def)
    then have "erase_closed P p ?b = ?a" by (intro erase_closed_eq [OF inv wp p(1)]) (simp_all add: push_open_heap_def set_node_def)
    then have result: "relax P i suc a = Inr ?a" using False f by (simp add: relax_def g_def [symmetric] d(3) Let_def)
    have "distinct (closed_set a)" using d(1) by (simp add: pool_ok_def)
    then have nodes: "nodes [i] ?a = insert p (nodes [i] a)" using p(1) by (auto simp: nodes_def set_node_def push_open_heap_def)
    have "pool_ok N (goal_node a # [i] @ (open_set a @ [p]) @ remove1 p (closed_set a)) a"
      by (rule pool_ok_perm [OF _ d(1)]) (use p(1) in simp)
    then have pool: "pool_ok N (goal_node ?a # [i] @ open_set ?a @ closed_set ?a) ?a" by (simp add: set_node_def push_open_heap_def pool_ok_def)
    have "relaxed P start goal N i (insert suc (E i)) a ?a"
      by (rule improve_node [OF inv wp e g_def, where p = p and n = ?n, OF _ _ _ _ _ _ _ _ _ pool _ _ nodes])
        (use d(2) d(5) [OF pn] p pn False in \<open>simp_all add: set_node_def node_update_def push_open_heap_def state_of_def set_remove1_subset\<close>)
    with result show ?thesis by blast
  qed
qed


lemma relax_new:
  assumes inv: "search_inv P start goal N [i] E a" and wp: "well_posed P start goal" and e: "edge P (state_of a i) suc"
    and suc: "suc \<notin> state_of a ` nodes [i] a"
    and f: "find_in_open_set suc a = None" "find_in_closed_set P suc a = None" "free_slots a = p # ps"
  shows "\<exists>a'. relax P i suc a = Inr a' \<and> relaxed P start goal N i (insert suc (E i)) a a'"
proof -
  note d = search_invD [OF inv]
  define g where "g = g_of a i + transition_cost P (state_of a i) suc"
  let ?n = "node_update i g (heuristic P suc goal) (new_node suc)"
  let ?a = "a\<lparr>slots := (slots a)(p := ?n), free_slots := ps, allocation_count := allocation_count a + 1, open_set := open_set a @ [p]\<rparr>"
  have result: "relax P i suc a = Inr ?a"
    using f by (simp add: relax_def g_def [symmetric] d(3) Let_def create_node_eq set_node_def push_open_heap_def)
  have nodes: "nodes [i] ?a = insert p (nodes [i] a)" by (auto simp: nodes_def)
  have pool: "pool_ok N (goal_node ?a # [i] @ open_set ?a @ closed_set ?a) ?a" and fresh: "p \<notin> nodes [i] a"
    using d(1) f(3) by (auto simp: pool_ok_def nodes_def)
  have "relaxed P start goal N i (insert suc (E i)) a ?a"
    by (rule improve_node [OF inv wp e g_def, where p = p and n = ?n, OF _ _ _ _ _ _ _ _ _ pool _ _ nodes])
      (use d(2) suc fresh in \<open>simp_all add: node_update_def new_node_def\<close>)
  with result show ?thesis by blast
qed

lemma pool_full:
  assumes inv: "search_inv P start goal N [i] E a" and free: "free_slots a = []"
    and suc: "suc \<in> reachable_states P start" "suc \<notin> state_of a ` nodes [i] a" and fin: "finite (reachable_states P start)"
  shows "N \<le> card (reachable_states P start)"
proof -
  note d = search_invD [OF inv]
  let ?live = "goal_node a # [i] @ open_set a @ closed_set a"
  have "distinct ?live" "set ?live = {..<N}" using d(1) free by (auto simp: pool_ok_def)
  then have "length ?live = N" using distinct_card [of ?live] by simp
  moreover have "card (nodes [i] a) = length ([i] @ open_set a @ closed_set a)"
    using \<open>distinct ?live\<close> distinct_card [of "[i] @ open_set a @ closed_set a"] by (simp add: nodes_def Un_commute Un_left_commute)
  ultimately have "N = Suc (card (nodes [i] a))" by simp
  moreover have "card (state_of a ` nodes [i] a) = card (nodes [i] a)" using graph_invD(6) [OF d(9)] by (rule card_image)
  moreover have "state_of a ` nodes [i] a \<subset> reachable_states P start" using graph_states_reachable [OF d(9)] suc by blast
  then have "card (state_of a ` nodes [i] a) < card (reachable_states P start)" using fin by (rule psubset_card_mono [rotated])
  ultimately show ?thesis by simp
qed

lemma relax_ok:
  assumes inv: "search_inv P start goal N [i] E a" and wp: "well_posed P start goal" and e: "edge P (state_of a i) suc"
  shows "(\<exists>a'. relax P i suc a = Inr a' \<and> relaxed P start goal N i (insert suc (E i)) a a') \<or>
    relax P i suc a = Inl Assertion_Failed \<and> (finite (reachable_states P start) \<longrightarrow> N \<le> card (reachable_states P start))"
proof -
  note d = search_invD [OF inv]
  have "i \<in> nodes [i] a" by (simp add: nodes_def)
  then obtain q where "path_between P start q (state_of a i)" using graph_invD(10) [OF d(9)] by blast
  then have suc: "suc \<in> reachable_states P start" using path_between_snoc [OF _ e] by (auto simp: reachable_states_def)
  show ?thesis
  proof (cases "find_in_open_set suc a")
    case (Some p)
    then show ?thesis using relax_open [OF inv wp e] by blast
  next
    case no_open: None
    show ?thesis
    proof (cases "find_in_closed_set P suc a")
      case (Some p)
      then show ?thesis using relax_closed [OF inv wp e suc no_open] by blast
    next
      case no_closed: None
      have "suc \<notin> state_of a ` nodes [i] a"
        using open_find(2) [OF no_open] closed_find(2) [OF inv wp suc no_closed] well_posedD(4) [OF wp e]
        by (auto simp: nodes_def)
      then show ?thesis
        using relax_new [OF inv wp e _ no_open no_closed] pool_full [OF inv _ suc] no_open no_closed
        by (cases "free_slots a") (auto simp: relax_def create_node_eq)
    qed
  qed
qed

lemma relax_all:
  assumes "search_inv P start goal N [i] E a" and wp: "well_posed P start goal" and "\<And>t. t \<in> set ts \<Longrightarrow> edge P (state_of a i) t"
  shows "(\<exists>a'. run_ops (relax P i) ts a = Inr a' \<and> relaxed P start goal N i (set ts) a a') \<or>
    run_ops (relax P i) ts a = Inl Assertion_Failed \<and> (finite (reachable_states P start) \<longrightarrow> N \<le> card (reachable_states P start))"
proof -
  have "(\<exists>a'. run_ops (relax P i) ts a = Inr a' \<and> relaxed P start goal N i (set ts \<union> T) a a') \<or>
    run_ops (relax P i) ts a = Inl Assertion_Failed \<and> (finite (reachable_states P start) \<longrightarrow> N \<le> card (reachable_states P start))"
    if "search_inv P start goal N [i] E a" "T \<subseteq> E i" "\<forall>t \<in> set ts. edge P (state_of a i) t" for T E
    using that
  proof (induction ts arbitrary: a E T)
    case Nil
    then show ?case by (auto simp: relaxed_def)
  next
    case (Cons t ts)
    from relax_ok [OF Cons.prems(1) wp, of t] Cons.prems(3) consider
      (ok) b where "relax P i t a = Inr b" "relaxed P start goal N i (insert t (E i)) a b"
      | (full) "relax P i t a = Inl Assertion_Failed" "finite (reachable_states P start) \<longrightarrow> N \<le> card (reachable_states P start)"
      by auto
    then show ?case
    proof cases
      case ok
      from ok(2) obtain E' where b: "search_inv P start goal N [i] E' b" "insert t (E i) \<subseteq> E' i" "slots b i = slots a i"
        "evolves [i] a b" "improves [i] a b \<or> open_set b = open_set a" by (auto simp: relaxed_def)
      have "\<forall>u \<in> set ts. edge P (state_of b i) u" using Cons.prems(3) b(3) by (simp add: state_of_def)
      moreover have "insert t T \<subseteq> E' i" using b(2) Cons.prems(2) by blast
      moreover have "relaxed P start goal N i (set (t # ts) \<union> T) a c" if "relaxed P start goal N i (set ts \<union> insert t T) b c" for c
        using that b(3-5) improves_trans [of "[i]" a b c] evolves_trans [of "[i]" a b c] unfolding relaxed_def by auto
      ultimately show ?thesis using Cons.IH [OF b(1), of "insert t T"] ok(1) by auto
    qed simp
  qed
  from this [OF assms(1) _, of "{}"] assms(3) show ?thesis by simp
qed


section \<open>One step of the search\<close>

definition least_pick :: "(('s, 'c::linorder) astar \<Rightarrow> nat) \<Rightarrow> bool" where
  "least_pick pick \<longleftrightarrow> (\<forall>a. open_set a \<noteq> [] \<longrightarrow> pick a < length (open_set a) \<and>
     (\<forall>i \<in> set (open_set a). f_score (slots a (open_set a ! pick a)) \<le> f_score (slots a i)))"

lemma pop_open:
  assumes pick: "least_pick pick" and ne: "open_set a \<noteq> []" and pop: "pop_open_heap pick a = (i, a')"
    and dist: "distinct (open_set a)"
  shows "i \<in> set (open_set a)" "a' = a\<lparr>open_set := open_set a'\<rparr>" "mset (open_set a) = mset (i # open_set a')"
    "\<And>k. k \<in> set (open_set a) \<Longrightarrow> f_score (slots a i) \<le> f_score (slots a k)"
proof -
  define k where "k = pick a"
  have k: "k < length (open_set a)" and least: "\<forall>i \<in> set (open_set a). f_score (slots a (open_set a ! k)) \<le> f_score (slots a i)"
    using pick ne unfolding least_pick_def k_def by blast+
  have ia: "i = open_set a ! k" "a' = a\<lparr>open_set := take k (open_set a) @ drop (Suc k) (open_set a)\<rparr>"
    using pop by (simp_all add: pop_open_heap_def Let_def k_def)
  then show "i \<in> set (open_set a)" "a' = a\<lparr>open_set := open_set a'\<rparr>" using k by simp_all
  have "open_set a = take k (open_set a) @ i # drop (Suc k) (open_set a)" using k ia(1) by (simp add: id_take_nth_drop)
  then have "mset (open_set a) = mset (take k (open_set a) @ i # drop (Suc k) (open_set a))" by simp
  then show "mset (open_set a) = mset (i # open_set a')" by (simp add: ia(2))
  show "f_score (slots a i) \<le> f_score (slots a k')" if "k' \<in> set (open_set a)" for k'
    using least that k ia(1) by auto
qed

lemma search_inv_pop:
  assumes inv: "search_inv P start goal N [] E a" and a': "a' = a\<lparr>steps := n, open_set := os\<rparr>" and perm: "mset (open_set a) = mset (i # os)"
  shows "search_inv P start goal N [i] E a'"
proof -
  note d = search_invD [OF inv]
  have "set (open_set a) = insert i (set os)" using perm by (metis set_mset_mset set_mset_add_mset_insert mset.simps(2))
  then have n: "nodes [i] a' = nodes [] a" by (auto simp: nodes_def a')
  have s: "state_of a' = state_of a" "g_of a' = g_of a" "slots a' = slots a" by (auto simp: a' state_of_def g_of_def)
  have "pool_ok N (goal_node a # [i] @ os @ closed_set a) a" by (rule pool_ok_perm [OF _ d(1)]) (simp add: perm)
  then have "pool_ok N (goal_node a' # [i] @ open_set a' @ closed_set a') a'" by (simp add: a' pool_ok_def)
  then show ?thesis using inv n s by (simp add: search_inv_def a')
qed

text \<open>Expanding a node closes it: all its edges have been explored.\<close>

lemma expand_ok:
  assumes inv: "search_inv P start goal N [i] E a" and wp: "well_posed P start goal" and ng: "state_of a i \<noteq> goal"
  shows "(\<exists>a' E'. expand P i a = Inr a' \<and> search_inv P start goal N [] E' a' \<and>
      (evolves [i] a a' \<and> nodes [i] a' = nodes [] a' \<and> (improves [i] a a' \<or> open_set a' = open_set a))) \<or>
    expand P i a = Inl Assertion_Failed \<and> (finite (reachable_states P start) \<longrightarrow> N \<le> card (reachable_states P start))"
proof -
  let ?par = "map_option (state_of a) (parent (slots a i))"
  let ?ts = "get_successors P (state_of a i) ?par"
  have "\<And>t. t \<in> set ?ts \<Longrightarrow> edge P (state_of a i) t" by (auto simp: edge_def)
  from relax_all [OF inv wp this] consider
    (ok) b where "run_ops (relax P i) ?ts a = Inr b" "relaxed P start goal N i (set ?ts) a b"
    | (full) "run_ops (relax P i) ?ts a = Inl Assertion_Failed" "finite (reachable_states P start) \<longrightarrow> N \<le> card (reachable_states P start)"
    by auto
  then show ?thesis
  proof cases
    case full
    then show ?thesis by (simp add: expand_def)
  next
    case ok
    from ok(2) obtain E' where b: "search_inv P start goal N [i] E' b" "set ?ts \<subseteq> E' i" "slots b i = slots a i"
      "evolves [i] a b" "improves [i] a b \<or> open_set b = open_set a" by (auto simp: relaxed_def)
    note d = search_invD [OF b(1)]
    let ?b = "b\<lparr>closed_set := closed_set b @ [i]\<rparr>"
    have i: "i \<in> nodes [i] b" by (simp add: nodes_def)
    have S: "state_of b i = state_of a i" using b(3) by (simp add: state_of_def)
    have "state_of b i \<in> reachable_states P start" using graph_states_reachable [OF d(9)] i by blast
    moreover have "state_of b i \<notin> state_of b ` set (closed_set b)"
      using graph_invD(6) [OF d(9)] d(1) by (auto simp: nodes_def inj_on_def pool_ok_def)
    ultimately have "find_in_closed_set P (state_of b i) b = None" using closed_find(1) [OF b(1) wp] by (metis imageI not_None_eq)
    then have result: "expand P i a = Inr ?b" using ok(1) by (simp add: expand_def insert_closed_def)
    have explored: "graph_inv P start (start_node b) (nodes [i] b) (E'(i := {t. edge P (state_of b i) t})) (state_of b) (g_of b) (\<lambda>k. parent (slots b k))"
    proof (rule graph_inv_expanded [OF d(9) wp i])
      have "i \<in> nodes [i] a" by (simp add: nodes_def)
      then have "j \<in> nodes [i] a" if "parent (slots a i) = Some j" for j
        using graph_invD(5) [OF search_invD(9) [OF inv]] graph_invD(7) [OF search_invD(9) [OF inv], of i] that
        by (cases "i = start_node a") auto
      then have "map_option (state_of b) (parent (slots b i)) = ?par" using b(3,4) by (cases "parent (slots a i)") (auto simp: evolves_def)
      then show "set (get_successors P (state_of b i) (map_option (state_of b) (parent (slots b i)))) \<subseteq> E' i" using b(2) S by simp
    qed
    have fields: "state_of ?b = state_of b" "g_of ?b = g_of b" by (auto simp: state_of_def g_of_def)
    have n: "nodes [] ?b = nodes [i] b" "nodes [i] ?b = nodes [i] b" by (auto simp: nodes_def)
    have pool: "pool_ok N (goal_node b # [] @ open_set b @ closed_set b @ [i]) b" by (rule pool_ok_perm [OF _ d(1)]) simp
    have "search_inv P start goal N [] (E'(i := {t. edge P (state_of b i) t})) ?b"
      using d(1-8) n pool explored ng S unfolding search_inv_def fields
      by (auto simp: pool_ok_def)
    moreover have "evolves [i] a ?b" "improves [i] a ?b \<or> open_set ?b = open_set a"
      using b(4,5) n by (simp_all add: evolves_def improves_def fields)
    ultimately show ?thesis using result n by metis
  qed
qed


section \<open>The solution path\<close>

fun linked :: "('s, 'c) astar \<Rightarrow> nat list \<Rightarrow> bool" where
  "linked a [] = True"
| "linked a [i] = (next_node (slots a i) = None)"
| "linked a (i # j # is) = (next_node (slots a i) = Some j \<and> linked a (j # is))"

lemma linked_cong: "(\<And>i. i \<in> set is \<Longrightarrow> next_node (slots a' i) = next_node (slots a i)) \<Longrightarrow> linked a' is = linked a is"
  by (induction a "is" rule: linked.induct) auto

lemma walk_linked: "linked a (i # is) \<Longrightarrow> walk_path (Some i) a = Some (map (state_of a) (i # is))"
proof (induction "is" arbitrary: i)
  case Nil
  then show ?case by (simp add: walk_path.simps [of "Some i"] walk_path.simps [of None])
next
  case (Cons j "is")
  then show ?case by (simp add: walk_path.simps [of "Some i"])
qed

lemma destroy_linked: "linked a (i # is) \<Longrightarrow> destroy_path (Some i) a = Some (fold destroy_node (i # is) a)"
proof (induction "is" arbitrary: i a)
  case Nil
  then show ?case by (simp add: destroy_path.simps [of "Some i"] destroy_path.simps [of None])
next
  case (Cons j "is")
  have "linked (destroy_node i a) (j # is)" using Cons.prems linked_cong [of "j # is" "destroy_node i a" a] by simp
  then show ?case using Cons by (simp add: destroy_path.simps [of "Some i"])
qed

lemma link_path_ok:
  assumes "ns \<noteq> []" "parent_chain (\<lambda>k. parent (slots a k)) ns" "hd ns = start_node a" "distinct ns"
    "\<And>k. k \<in> set (tl ns) \<Longrightarrow> state_of a k \<noteq> state_of a (start_node a)" "state_of a nxt \<noteq> state_of a (start_node a)"
    "linked a (nxt # tail)" "set ns \<inter> set (nxt # tail) = {}"
  shows "\<exists>sl. link_path nxt (Some (last ns)) a = Some (Inr (a\<lparr>slots := sl\<rparr>)) \<and> linked (a\<lparr>slots := sl\<rparr>) (ns @ nxt # tail) \<and>
    (\<forall>k. sl k = (slots a k)\<lparr>next_node := next_node (sl k)\<rparr>) \<and> (\<forall>k. k \<notin> set ns \<longrightarrow> sl k = slots a k)"
  using assms
proof (induction ns arbitrary: a nxt tail rule: rev_induct)
  case (snoc p ns)
  let ?n = "(slots a p)\<lparr>next_node := Some nxt\<rparr>"
  let ?a = "set_node p ?n a"
  have same: "state_of ?a = state_of a" "(\<lambda>k. parent (slots ?a k)) = (\<lambda>k. parent (slots a k))"
    by (auto simp: state_of_def set_node_def)
  have step: "link_path nxt (Some p) a = link_path p (parent (slots a p)) ?a"
    using snoc.prems(6) by (simp add: link_path.simps [of nxt])
  have "linked ?a (nxt # tail) = linked a (nxt # tail)"
    by (rule linked_cong) (use snoc.prems(8) in \<open>auto simp: set_node_def\<close>)
  then have lk: "linked ?a (p # nxt # tail)" using snoc.prems(7) by (simp add: set_node_def)
  show ?case
  proof (cases "ns = []")
    case True
    then have "p = start_node a" using snoc.prems(3) by simp
    then have "state_of ?a p = state_of ?a (start_node ?a)" by (simp add: set_node_def)
    then have "link_path p (parent (slots a p)) ?a = Some (Inr ?a)" by (subst link_path.simps) simp
    moreover have eq: "a\<lparr>slots := slots ?a\<rparr> = ?a" by (simp add: set_node_def)
    moreover have "\<forall>k. slots ?a k = (slots a k)\<lparr>next_node := next_node (slots ?a k)\<rparr>" "\<forall>k. k \<noteq> p \<longrightarrow> slots ?a k = slots a k"
      by (simp_all add: set_node_def)
    ultimately show ?thesis using step lk True by (intro exI [of _ "slots ?a"]) (simp only: append_Nil append_Cons last.simps list.set insert_iff empty_iff simp_thms if_True)
  next
    case False
    have pc: "parent_chain (\<lambda>k. parent (slots ?a k)) ns" and par: "parent (slots a p) = Some (last ns)"
      using snoc.prems(2) False same(2) by (simp_all add: parent_chain_snoc)
    have "state_of ?a p \<noteq> state_of ?a (start_node ?a)" using snoc.prems(5) [of p] False same by (simp add: set_node_def)
    moreover have "state_of ?a k \<noteq> state_of ?a (start_node ?a)" if "k \<in> set (tl ns)" for k
      using snoc.prems(5) [of k] that False same by (simp add: set_node_def)
    moreover have "hd ns = start_node ?a" "distinct ns" "set ns \<inter> set (p # nxt # tail) = {}"
      using snoc.prems(3,4,8) False by (auto simp: set_node_def)
    ultimately obtain sl where sl: "link_path p (Some (last ns)) ?a = Some (Inr (?a\<lparr>slots := sl\<rparr>))"
      "linked (?a\<lparr>slots := sl\<rparr>) (ns @ p # nxt # tail)" "\<forall>k. sl k = (slots ?a k)\<lparr>next_node := next_node (sl k)\<rparr>"
      "\<forall>k. k \<notin> set ns \<longrightarrow> sl k = slots ?a k"
      using snoc.IH [OF False pc _ _ _ _ lk] by blast
    have "?a\<lparr>slots := sl\<rparr> = a\<lparr>slots := sl\<rparr>" by (simp add: set_node_def)
    moreover have "sl k = (slots a k)\<lparr>next_node := next_node (sl k)\<rparr>" for k
      using sl(3) [rule_format, of k] by (auto simp: set_node_def split: if_splits)
    ultimately show ?thesis using sl step par by (intro exI [of _ sl]) (auto simp: set_node_def)
  qed
qed simp


lemma linked_next: "linked a (ns @ [t]) \<Longrightarrow> k \<in> set ns \<Longrightarrow> next_node (slots a k) \<noteq> None"
proof (induction ns)
  case (Cons n ns)
  then show ?case by (cases ns) auto
qed simp

text \<open>The result of a search that succeeds: an optimal path, and no node outside of it.\<close>

definition solved :: "('s, 'c::linordered_ab_group_add) problem \<Rightarrow> 's \<Rightarrow> 's \<Rightarrow> nat \<Rightarrow> ('s, 'c) astar \<Rightarrow> bool" where
  "solved P start goal N a \<longleftrightarrow> search_status a = SUCCESS \<and>
     (\<exists>p. walk_path (Some (start_node a)) a = Some p \<and> path_between P start p goal \<and> solution_cost a = Some (path_cost P p) \<and>
        (\<forall>q. path_between P start q goal \<longrightarrow> path_cost P p \<le> path_cost P q)) \<and>
     (\<exists>a'. delete_astar a = Some (Inr a') \<and> pool_ok N [] a')"

lemma free_unused_pool:
  assumes "pool_ok N (t # open_set a @ closed_set a) a" "linked a (ns @ [t])" "distinct ns"
    "set ns \<subseteq> set (open_set a) \<union> set (closed_set a)"
    "\<And>k. k \<in> set (open_set a) \<union> set (closed_set a) \<Longrightarrow> k \<notin> set ns \<Longrightarrow> next_node (slots a k) = None"
  shows "pool_ok N (ns @ [t]) (free_unused_nodes a)"
proof -
  let ?L = "open_set a @ closed_set a" and ?used = "\<lambda>i. next_node (slots a i) \<noteq> None"
  have "distinct ?L" using assms(1) by (auto simp: pool_ok_def)
  moreover have "set (filter ?used ?L) = set ns"
  proof (rule set_eqI)
    show "k \<in> set (filter ?used ?L) \<longleftrightarrow> k \<in> set ns" for k
      using assms(4) assms(5) [of k] linked_next [OF assms(2), of k] by (cases "k \<in> set ns") auto
  qed
  ultimately have perm: "mset (filter ?used ?L) = mset ns" using assms(3) by (metis distinct_filter set_eq_iff_mset_eq_distinct)
  have "pool_ok N (?L @ [t]) a" using assms(1) by (rule pool_ok_perm [rotated]) simp
  from pool_ok_unlinked [OF this] have "pool_ok N (filter ?used ?L @ [t]) (fold destroy_unlinked ?L a)" .
  then have "pool_ok N (ns @ [t]) (fold destroy_unlinked ?L a)" by (rule pool_ok_perm [rotated]) (metis mset_append perm)
  then show ?thesis by (simp add: free_unused_nodes_def Let_def pool_ok_def)
qed

lemma free_unused_fields [simp]:
  "slots (free_unused_nodes a) = slots a" "start_node (free_unused_nodes a) = start_node a"
  "solution_cost (free_unused_nodes a) = solution_cost a"
  by (simp_all add: free_unused_nodes_def Let_def)

lemma solvedI:
  assumes "linked a (ns @ [t])" "ns \<noteq> []" "hd ns = start_node a" "pool_ok N (ns @ [t]) a" "search_status a = SUCCESS"
    "path_between P start (map (state_of a) (ns @ [t])) goal" "path_cost P (map (state_of a) (ns @ [t])) \<le> c" "solution_cost a = Some c"
    "\<And>q. path_between P start q goal \<Longrightarrow> c \<le> path_cost P q"
  shows "solved P start goal N a"
proof -
  obtain ns' where ns: "ns @ [t] = start_node a # ns'" using assms(2,3) by (cases ns) auto
  have "walk_path (Some (start_node a)) a = Some (map (state_of a) (ns @ [t]))"
    unfolding ns by (rule walk_linked) (use assms(1) ns in simp)
  moreover have "c = path_cost P (map (state_of a) (ns @ [t]))" using assms(6,7) assms(9) by (auto intro: antisym)
  moreover have "destroy_path (Some (start_node a)) a = Some (fold destroy_node (ns @ [t]) a)"
    unfolding ns by (rule destroy_linked) (use assms(1) ns in simp)
  moreover have pool: "pool_ok N [] (fold destroy_node (ns @ [t]) a)" by (rule pool_ok_fold) (use assms(4) in simp)
  moreover have "allocation_count (fold destroy_node (ns @ [t]) a) = 0" using pool by (simp add: pool_ok_def)
  ultimately show ?thesis using assms(5,6,8,9) by (simp add: solved_def delete_astar_def)
qed

lemma goal_chain:
  fixes P :: "('s, 'c::linordered_ab_group_add) problem"
  assumes inv: "search_inv P start goal N [i] E a" and wp: "well_posed P start goal" and goal: "state_of a i = goal"
  obtains ns where "ns \<noteq> []" "hd ns = start_node a" "i \<notin> set ns" "distinct ns" "set ns \<subseteq> nodes [i] a"
    "parent_chain (\<lambda>k. parent (slots a k)) ns" "parent (slots a i) = Some (last ns)"
    "path_between P start (map (state_of a) (ns @ [i])) goal" "path_cost P (map (state_of a) (ns @ [i])) \<le> g_of a i"
    "\<And>k. k \<in> set (tl ns) \<Longrightarrow> state_of a k \<noteq> state_of a (start_node a)"
proof -
  note d = search_invD [OF inv] and gd = graph_invD [OF search_invD(9) [OF inv]]
  have "i \<in> nodes [i] a" by (simp add: nodes_def)
  then obtain ms where ms: "ms \<noteq> []" "hd ms = start_node a" "last ms = i" "set ms \<subseteq> nodes [i] a" "distinct ms"
    "parent_chain (\<lambda>k. parent (slots a k)) ms" "path_between P start (map (state_of a) ms) (state_of a i)"
    "path_cost P (map (state_of a) ms) \<le> g_of a i"
    using graph_chain [OF d(9)] by blast
  have ir: "i \<noteq> start_node a" using gd(3) goal well_posedD(1) [OF wp] by auto
  define ns where "ns = butlast ms"
  have eq: "ms = ns @ [i]" using ms(1,3) by (auto simp: ns_def)
  then have ns: "ns \<noteq> []" "hd ns = start_node a" "i \<notin> set ns" "distinct ns" "set ns \<subseteq> nodes [i] a"
    using ms ir by (auto simp: hd_append split: if_splits)
  moreover have "state_of a k \<noteq> state_of a (start_node a)" if "k \<in> set (tl ns)" for k
  proof -
    have "k \<in> nodes [i] a" "k \<noteq> start_node a" using that ns by (cases ns; auto)+
    then show ?thesis using gd(2,6) by (auto dest: inj_onD)
  qed
  ultimately show thesis using ms(6-8) goal by (intro that) (simp_all add: eq parent_chain_snoc)
qed

lemma finish_ok:
  fixes P :: "('s, 'c::linordered_ab_group_add) problem"
  assumes inv: "search_inv P start goal N [i] E a" and wp: "well_posed P start goal" and goal: "state_of a i = goal"
    and opt: "\<And>q. path_between P start q goal \<Longrightarrow> g_of a i \<le> path_cost P q"
  shows "\<exists>a'. finish i a = Some (Inr a') \<and> solved P start goal N a'"
proof -
  note d = search_invD [OF inv]
  define t where "t = goal_node a"
  from goal_chain [OF inv wp goal] obtain ns where ns: "ns \<noteq> []" "hd ns = start_node a" "i \<notin> set ns" "distinct ns"
    "set ns \<subseteq> nodes [i] a" and pc: "parent_chain (\<lambda>k. parent (slots a k)) ns" "parent (slots a i) = Some (last ns)"
    and path: "path_between P start (map (state_of a) (ns @ [i])) goal" "path_cost P (map (state_of a) (ns @ [i])) \<le> g_of a i"
    and other: "\<And>k. k \<in> set (tl ns) \<Longrightarrow> state_of a k \<noteq> state_of a (start_node a)" by blast
  have tV: "t \<notin> nodes [i] a" using d(1) by (auto simp: pool_ok_def nodes_def t_def)
  then have tns: "t \<notin> set ns" using ns(5) by blast
  let ?n = "(slots a t)\<lparr>parent := parent (slots a i), g_score := g_of a i\<rparr>"
  define b where "b = destroy_node i (set_node t ?n a)"
  have sb: "slots b = (slots a)(t := ?n)" "start_node b = start_node a" "goal_node b = t" "open_set b = open_set a" "closed_set b = closed_set a"
    by (simp_all add: b_def set_node_def t_def)
  have Sb: "state_of b = state_of a" by (auto simp: state_of_def sb(1))
  have "parent_chain (\<lambda>k. parent (slots b k)) ns" using pc(1) tns by (auto simp: parent_chain_def sb(1))
  moreover have "state_of b t \<noteq> state_of b (start_node b)"
    using d(3) graph_invD(3) [OF d(9)] well_posedD(1) [OF wp] by (simp add: Sb sb(2) t_def)
  moreover have "linked b [t]" using d(4) by (simp add: sb(1) t_def)
  ultimately obtain sl where sl: "link_path t (Some (last ns)) b = Some (Inr (b\<lparr>slots := sl\<rparr>))" "linked (b\<lparr>slots := sl\<rparr>) (ns @ [t])"
    "\<And>k. sl k = (slots b k)\<lparr>next_node := next_node (sl k)\<rparr>" "\<And>k. k \<notin> set ns \<Longrightarrow> sl k = slots b k"
    using link_path_ok [of ns b t "[]"] ns tns other by (auto simp: sb(2) Sb)
  define c where "c = b\<lparr>slots := sl, solution_cost := Some (g_of a i)\<rparr>"
  have "g_of (b\<lparr>slots := sl\<rparr>) t = g_of a i" using sl(4) [OF tns] by (simp add: g_of_def sb(1))
  then have "reconstruct_path b = Some (Inr c)" using sl(1) pc(2) by (simp add: reconstruct_path_def sb(1,3) c_def)
  moreover have "finish i a = map_option (map_sum id (\<lambda>a2. (free_unused_nodes a2)\<lparr>search_status := SUCCESS\<rparr>)) (reconstruct_path b)"
    by (simp only: finish_def Let_def b_def t_def)
  ultimately have fin: "finish i a = Some (Inr ((free_unused_nodes c)\<lparr>search_status := SUCCESS\<rparr>))" by simp
  have "pool_ok N (i # t # open_set a @ closed_set a) (set_node t ?n a)"
    using d(1) by (auto simp: pool_ok_def set_node_def t_def)
  then have "pool_ok N (t # open_set a @ closed_set a) b" unfolding b_def by (rule pool_ok_destroy)
  then have pool: "pool_ok N (t # open_set c @ closed_set c) c" by (simp add: c_def sb(4,5) pool_ok_def)
  have lc: "linked c (ns @ [t])" using sl(2) linked_cong [of "ns @ [t]" c "b\<lparr>slots := sl\<rparr>"] by (simp add: c_def)
  have "node_state (sl k) = node_state (slots b k)" for k using arg_cong [OF sl(3) [of k], of node_state] by simp
  then have "state_of c = state_of b" by (auto simp: state_of_def c_def)
  then have Sc: "state_of c = state_of a" using Sb by simp
  let ?r = "(free_unused_nodes c)\<lparr>search_status := SUCCESS\<rparr>"
  have "pool_ok N (ns @ [t]) (free_unused_nodes c)"
  proof (rule free_unused_pool [OF pool lc ns(4)])
    show "set ns \<subseteq> set (open_set c) \<union> set (closed_set c)" using ns(3,5) by (auto simp: c_def sb(4,5) nodes_def)
    show "next_node (slots c k) = None" if "k \<in> set (open_set c) \<union> set (closed_set c)" "k \<notin> set ns" for k
      using d(5) [of k] that sl(4) [of k] tV by (auto simp: c_def sb nodes_def)
  qed
  then have pr: "pool_ok N (ns @ [t]) ?r" by (simp add: pool_ok_def)
  have lr: "linked ?r (ns @ [t])" using lc linked_cong [of "ns @ [t]" ?r c] by simp
  have "state_of ?r = state_of a" unfolding Sc [symmetric] by (auto simp: state_of_def)
  then have states: "map (state_of ?r) (ns @ [t]) = map (state_of a) (ns @ [i])" using d(3) goal by (simp add: t_def)
  have "hd ns = start_node ?r" "solution_cost ?r = Some (g_of a i)" using ns(2) sb(2) by (simp_all add: c_def)
  then have "solved P start goal N ?r"
    using solvedI [OF lr ns(1) _ pr _ path [folded states] _ opt] by simp
  with fin show ?thesis by blast
qed

end
