(* ===== verification/Astar_Correct.thy ===== *)
theory Astar_Correct
  imports Astar_Invariant
begin

text \<open>
  The properties of an A* search: its result is an optimal path, it fails only when
  there is no path, it terminates when the reachable states fit into the pool, and it gives all nodes back.
\<close>

section \<open>Optimality\<close>

text \<open>On every path to the goal some open node has an f-score that is no more than the cost of the path.\<close>

lemma open_on_path:
  fixes P :: "('s, 'c::linordered_ab_group_add) problem"
  assumes inv: "search_inv P start goal N [] E a" and wp: "well_posed P start goal"
  shows "path_between P (state_of a k) p goal \<Longrightarrow> k \<in> nodes [] a \<Longrightarrow>
    \<exists>k' \<in> set (open_set a). f_score (slots a k') \<le> g_of a k + path_cost P p"
proof (induction p arbitrary: k)
  case Nil
  then show ?case by (simp add: path_between_def)
next
  case (Cons s p)
  note d = search_invD [OF inv]
  have s: "s = state_of a k" using Cons.prems(1) by (simp add: path_between_def)
  show ?case
  proof (cases "k \<in> set (open_set a)")
    case True
    have "heuristic P (state_of a k) goal \<le> path_cost P (s # p)" using well_posedD(7) [OF wp] Cons.prems(1) by blast
    then show ?thesis using True d(6) [OF Cons.prems(2)] by (intro bexI [of _ k]) simp_all
  next
    case False
    then have k: "k \<in> set (closed_set a)" using Cons.prems(2) by (simp add: nodes_def)
    then have "p \<noteq> []" using d(7) [OF k] Cons.prems(1) by (auto simp: path_between_def)
    then obtain u p' where p: "p = u # p'" by (cases p) auto
    have e: "edge P (state_of a k) u" and pu: "path_between P u p goal" using Cons.prems(1) by (auto simp: path_between_def p)
    obtain m where m: "m \<in> nodes [] a" "state_of a m = u" "g_of a m \<le> g_of a k + transition_cost P (state_of a k) u"
      using graph_invD(9) [OF d(9) Cons.prems(2) d(8) [OF k e]] by blast
    obtain k' where k': "k' \<in> set (open_set a)" "f_score (slots a k') \<le> g_of a m + path_cost P p"
      using Cons.IH [of m] m pu by blast
    have "g_of a m + path_cost P p \<le> g_of a k + transition_cost P (state_of a k) u + path_cost P p"
      using m(3) by (rule add_right_mono)
    from order_trans [OF k'(2) this] have "f_score (slots a k') \<le> g_of a k + path_cost P (s # p)" by (simp add: s p add.assoc)
    then show ?thesis using k'(1) by blast
  qed
qed

lemma open_to_goal:
  fixes P :: "('s, 'c::linordered_ab_group_add) problem"
  assumes inv: "search_inv P start goal N [] E a" and wp: "well_posed P start goal" and p: "path_between P start p goal"
  shows "\<exists>k \<in> set (open_set a). f_score (slots a k) \<le> path_cost P p"
  using open_on_path [OF inv wp, of "start_node a" p] graph_invD(2-4) [OF search_invD(9) [OF inv]] p by simp

section \<open>A step of the search\<close>

text \<open>The result of a search that fails: all nodes are back in the pool.\<close>

definition failed :: "nat \<Rightarrow> ('s, 'c) astar \<Rightarrow> bool" where
  "failed N a \<longleftrightarrow> search_status a = FAILURE \<and> pool_ok N [] a"

lemma free_all_failed:
  assumes "search_inv P start goal N [] E a"
  shows "failed N ((free_all_nodes a)\<lparr>search_status := FAILURE\<rparr>)"
proof -
  let ?b = "fold destroy_node (closed_set a) (fold destroy_node (open_set a) a)"
  have "pool_ok N (open_set a @ closed_set a @ [goal_node a]) a" by (rule pool_ok_perm [OF _ search_invD(1) [OF assms]]) simp
  then have "pool_ok N [goal_node a] ?b" by (auto dest!: pool_ok_fold)
  then have "pool_ok N [goal_node a] (?b\<lparr>open_set := [], closed_set := []\<rparr>)" by (simp add: pool_ok_def)
  from pool_ok_destroy [OF this] show ?thesis
    by (simp add: failed_def free_all_nodes_def Let_def pool_ok_def)
qed

definition running :: "('s, 'c::linordered_ab_group_add) problem \<Rightarrow> 's \<Rightarrow> 's \<Rightarrow> nat \<Rightarrow> ('s, 'c) astar \<Rightarrow> bool" where
  "running P start goal N a \<longleftrightarrow> (\<exists>E. search_inv P start goal N [] E a)"

text \<open>A step that continues makes progress: a score improves, or else the open set shrinks.\<close>

definition progress :: "('s, 'c::ord) astar \<Rightarrow> ('s, 'c) astar \<Rightarrow> bool" where
  "progress a a' \<longleftrightarrow> improves [] a a' \<or> evolves [] a a' \<and> length (open_set a') < length (open_set a)"

lemma popped_goal:
  fixes P :: "('s, 'c::linordered_ab_group_add) problem"
  assumes inv: "search_inv P start goal N [] E a" and wp: "well_posed P start goal" and i: "i \<in> set (open_set a)"
    and least: "\<And>k. k \<in> set (open_set a) \<Longrightarrow> f_score (slots a i) \<le> f_score (slots a k)"
    and goal: "state_of a i = goal" and q: "path_between P start q goal"
  shows "g_of a i \<le> path_cost P q"
proof -
  obtain k where "k \<in> set (open_set a)" "f_score (slots a k) \<le> path_cost P q" using open_to_goal [OF inv wp q] by blast
  then have "f_score (slots a i) \<le> path_cost P q" using least order_trans by blast
  moreover have "f_score (slots a i) = g_of a i + heuristic P goal goal"
    using search_invD(6) [OF inv, of i] i goal by (simp add: nodes_def)
  ultimately show ?thesis using well_posedD(6) [OF wp] by (metis add_increasing2 order.refl order_trans)
qed

lemma astar_step_cases:
  fixes P :: "('s, 'c::linordered_ab_group_add) problem"
  assumes "running P start goal N a" and wp: "well_posed P start goal" and pick: "least_pick pick"
  obtains
    (fail) a' where "astar_step P pick cancel a = Some (Inr a')" "failed N a'"
      "cancel a \<or> \<not> (\<exists>p. path_between P start p goal)"
  | (success) a' where "astar_step P pick cancel a = Some (Inr a')" "solved P start goal N a'"
  | (continue) a' where "astar_step P pick cancel a = Some (Inr a')" "running P start goal N a'" "search_status a' = RUNNING" "progress a a'"
  | (full) "astar_step P pick cancel a = Some (Inl Assertion_Failed)" "finite (reachable_states P start) \<longrightarrow> N \<le> card (reachable_states P start)"
proof -
  obtain E where inv: "search_inv P start goal N [] E a" using assms(1) by (auto simp: running_def)
  note d = search_invD [OF inv]
  show thesis
  proof (cases "open_set a = [] \<or> cancel a")
    case True
    then have "astar_step P pick cancel a = Some (Inr ((free_all_nodes a)\<lparr>search_status := FAILURE\<rparr>))"
      using d(2) by (simp add: astar_step_def)
    moreover have "cancel a \<or> \<not> (\<exists>p. path_between P start p goal)" using True open_to_goal [OF inv wp] by fastforce
    ultimately show thesis using fail free_all_failed [OF inv] by blast
  next
    case False
    let ?a = "a\<lparr>steps := steps a + 1\<rparr>"
    obtain i b where pop: "pop_open_heap pick ?a = (i, b)" by fastforce
    have "distinct (open_set ?a)" using d(1) by (auto simp: pool_ok_def)
    note po = pop_open [OF pick _ pop this]
    have b: "b = a\<lparr>steps := steps a + 1, open_set := open_set b\<rparr>" and perm: "mset (open_set a) = mset (i # open_set b)"
      and least: "\<And>k. k \<in> set (open_set a) \<Longrightarrow> f_score (slots a i) \<le> f_score (slots a k)"
      and i: "i \<in> set (open_set a)" using po False by simp_all
    have ib: "search_inv P start goal N [i] E b" by (rule search_inv_pop [OF inv b perm])
    have sb: "slots b = slots a" by (subst b) simp
    have step: "astar_step P pick cancel a = (if state_of b i = goal then finish i b else Some (expand P i b))"
      using False d(2) search_invD(3) [OF ib] by (simp add: astar_step_def pop [simplified])
    show thesis
    proof (cases "state_of b i = goal")
      case True
      have "g_of b i \<le> path_cost P q" if "path_between P start q goal" for q
        using popped_goal [OF inv wp i least _ that] True by (simp add: sb state_of_def g_of_def)
      from finish_ok [OF ib wp True this] show thesis using success step True by auto
    next
      case ng: False
      have n: "nodes [i] b = nodes [] a" using mset_eq_setD [OF perm] by (subst b) (auto simp: nodes_def)
      have fields: "state_of b = state_of a" "g_of b = g_of a" "start_node b = start_node a" "goal_node b = goal_node a"
        by (auto simp: state_of_def g_of_def sb) (subst b, simp)+
      from expand_ok [OF ib wp ng] consider
        (ok) c E' where "expand P i b = Inr c" "search_inv P start goal N [] E' c" "evolves [i] b c" "nodes [i] c = nodes [] c"
          "improves [i] b c \<or> open_set c = open_set b"
        | (none) "expand P i b = Inl Assertion_Failed" "finite (reachable_states P start) \<longrightarrow> N \<le> card (reachable_states P start)"
        by blast
      then show thesis
      proof cases
        case c: (ok c E')
        have "evolves [] a c" using c(3,4) n by (simp add: evolves_def fields)
        moreover have "improves [] a c" if "improves [i] b c"
          using that c(4) n by (simp add: improves_def evolves_def fields)
        moreover have "length (open_set b) < length (open_set a)" using mset_eq_length [OF perm] by simp
        ultimately have "progress a c" using c(5) by (auto simp: progress_def)
        moreover have "running P start goal N c" "search_status c = RUNNING" using c(2) search_invD(2) by (auto simp: running_def)
        ultimately show thesis using continue step ng c(1) by simp
      qed (use full step ng in simp_all)
    qed
  qed
qed


section \<open>The search loop\<close>

lemma astar_search_result:
  fixes P :: "('s, 'c::linordered_ab_group_add) problem"
  assumes "astar_search P pick cancel a = Some r" "well_posed P start goal" "least_pick pick" "running P start goal N a" "r = Inr a'"
  shows "solved P start goal N a' \<or> failed N a' \<and> ((\<exists>b. cancel b) \<or> \<not> (\<exists>p. path_between P start p goal))"
  using assms
proof (induction arbitrary: a' rule: astar_search.raw_induct [rotated, consumes 1, case_names step])
  case (step search P pick cancel a r)
  show ?case
  proof (cases rule: astar_step_cases [OF step.prems(3,1,2), of cancel, case_names fail success continue full])
    case (continue b)
    then have "search P pick cancel b = Some r" using step.hyps by simp
    from step.IH [OF this step.prems(1,2) continue(2) step.prems(4)] show ?thesis .
  qed (use step.hyps step.prems(4) in \<open>auto simp: failed_def solved_def\<close>)
qed

section \<open>Termination\<close>

definition simple_costs :: "('s, 'c::linordered_ab_group_add) problem \<Rightarrow> 's \<Rightarrow> 's \<Rightarrow> 'c set" where
  "simple_costs P start s = path_cost P ` {p. path_between P start p s \<and> distinct p}"

lemma path_states_reachable:
  assumes "path_between P start p s"
  shows "set p \<subseteq> reachable_states P start"
proof
  fix t assume "t \<in> set p"
  then obtain q q' where "p = (q @ [t]) @ q'" by (metis append_Cons append_Nil append_assoc split_list)
  then have "path_between P start (q @ [t]) t"
    using assms is_path_append [of "q @ [t]" q' P] by (cases "q' = []") (auto simp: path_between_def hd_append)
  then show "t \<in> reachable_states P start" by (auto simp: reachable_states_def)
qed

lemma finite_simple_costs: "finite (reachable_states P start) \<Longrightarrow> finite (simple_costs P start s)"
  unfolding simple_costs_def
  by (rule finite_imageI, rule finite_subset [OF _ finite_subset_distinct]) (auto dest: path_states_reachable)

definition cheaper :: "('s, 'c::linordered_ab_group_add) problem \<Rightarrow> 's \<Rightarrow> ('s, 'c) astar \<Rightarrow> 's \<Rightarrow> 'c set" where
  "cheaper P start a s = {c \<in> simple_costs P start s. \<forall>k \<in> nodes [] a. state_of a k = s \<longrightarrow> c < g_of a k}"

definition potential :: "('s, 'c::linordered_ab_group_add) problem \<Rightarrow> 's \<Rightarrow> ('s, 'c) astar \<Rightarrow> nat" where
  "potential P start a = (\<Sum>s \<in> reachable_states P start. card (cheaper P start a s))"

lemma cheaper_mono: "evolves [] a a' \<Longrightarrow> cheaper P start a' s \<subseteq> cheaper P start a s"
  unfolding evolves_def cheaper_def by (auto intro: less_le_trans)

lemma potential_decreases:
  fixes P :: "('s, 'c::linordered_ab_group_add) problem"
  assumes fin: "finite (reachable_states P start)" and "running P start goal N a'" and "improves [] a a'"
  shows "potential P start a' < potential P start a"
proof -
  obtain E where inv: "search_inv P start goal N [] E a'" using assms(2) by (auto simp: running_def)
  note gd = graph_invD [OF search_invD(9) [OF inv]]
  obtain p where p: "p \<in> nodes [] a'" "p \<in> nodes [] a \<Longrightarrow> g_of a' p < g_of a p" and ev: "evolves [] a a'"
    using assms(3) by (auto simp: improves_def)
  let ?s = "state_of a' p"
  have "g_of a' p \<in> simple_costs P start ?s" using gd(10) [OF p(1)] by (force simp: simple_costs_def)
  moreover have "g_of a' p < g_of a k" if "k \<in> nodes [] a" "state_of a k = ?s" for k
  proof -
    have "k \<in> nodes [] a'" "state_of a' k = ?s" using ev that by (auto simp: evolves_def)
    then have "k = p" using gd(6) p(1) by (auto dest: inj_onD)
    then show ?thesis using p(2) that(1) by blast
  qed
  ultimately have "g_of a' p \<in> cheaper P start a ?s - cheaper P start a' ?s" using p(1) by (auto simp: cheaper_def)
  then have "card (cheaper P start a' ?s) < card (cheaper P start a ?s)"
    using cheaper_mono [OF ev, of P start ?s] finite_simple_costs [OF fin, of ?s]
    by (intro psubset_card_mono) (auto simp: cheaper_def)
  moreover have "?s \<in> reachable_states P start" using graph_states_reachable [OF search_invD(9) [OF inv]] p(1) by blast
  moreover have "card (cheaper P start a' s) \<le> card (cheaper P start a s)" for s
    using cheaper_mono [OF ev, of P start s] finite_simple_costs [OF fin, of s] by (intro card_mono) (auto simp: cheaper_def)
  ultimately show ?thesis unfolding potential_def by (intro sum_strict_mono_ex1 [OF fin]) auto
qed

lemma astar_search_terminates:
  fixes P :: "('s, 'c::linordered_ab_group_add) problem"
  assumes wp: "well_posed P start goal" and pick: "least_pick pick"
    and fin: "finite (reachable_states P start)" and room: "card (reachable_states P start) < N"
  shows "running P start goal N a \<Longrightarrow> \<exists>a'. astar_search P pick cancel a = Some (Inr a')"
proof (induction a rule: wf_induct_rule [OF wf_inv_image [OF wf_lex_prod [OF wf_less_than wf_less_than],
      of "\<lambda>a. (potential P start a, length (open_set a))"]])
  case (1 a)
  show ?case
  proof (cases rule: astar_step_cases [OF "1.prems" wp pick, of cancel, case_names fail success continue full])
    case (continue b)
    have "potential P start b \<le> potential P start a" if "evolves [] a b"
      unfolding potential_def using cheaper_mono [OF that, of P start] finite_simple_costs [OF fin]
      by (intro sum_mono card_mono) (auto simp: cheaper_def)
    then have "(b, a) \<in> inv_image (less_than <*lex*> less_than) (\<lambda>a. (potential P start a, length (open_set a)))"
      using continue(4) potential_decreases [OF fin continue(2), of a] by (auto simp: progress_def le_less)
    from "1.IH" [OF this continue(2)] show ?thesis using continue by (subst astar_search.simps) simp
  next
    case (fail b)
    then show ?thesis by (subst astar_search.simps) (simp add: failed_def)
  next
    case (success b)
    then show ?thesis by (subst astar_search.simps) (simp add: solved_def)
  next
    case full
    then show ?thesis using fin room by simp
  qed
qed

section \<open>A sample problem\<close>

text \<open>Four states in a diamond with a detour and a way back; the heuristic is the distance to state 3.\<close>

fun demo_costs :: "nat \<Rightarrow> (nat \<times> int) list" where
  "demo_costs s = (if s = 0 then [(1, 1), (2, 4)] else if s = 1 then [(2, 1), (0, 1)] else if s = 2 then [(3, 1)] else [])"

definition demo_problem :: "(nat, int) problem" where
  "demo_problem = \<lparr>hash = word_of_nat, transition_cost = (\<lambda>s t. case map_of (demo_costs s) t of Some c \<Rightarrow> c | None \<Rightarrow> 0),
     heuristic = (\<lambda>s t. int t - int s),
     get_successors = (\<lambda>s par. filter (\<lambda>t. par \<noteq> Some t) (map fst (demo_costs s)))\<rparr>"

fun least_index :: "int list \<Rightarrow> nat" where
  "least_index [] = 0"
| "least_index [x] = 0"
| "least_index (x # xs) = (let k = least_index xs in if xs ! k < x then Suc k else 0)"

lemma least_index_least: "xs \<noteq> [] \<Longrightarrow> least_index xs < length xs \<and> (\<forall>x \<in> set xs. xs ! least_index xs \<le> x)"
  by (induction xs rule: least_index.induct) (auto simp: Let_def)

definition first_least :: "('s, int) astar \<Rightarrow> nat" where
  "first_least a = least_index (map (\<lambda>i. f_score (slots a i)) (open_set a))"

lemma first_least_pick: "least_pick first_least"
proof -
  have "first_least a < length (open_set a) \<and>
      (\<forall>i \<in> set (open_set a). f_score (slots a (open_set a ! first_least a)) \<le> f_score (slots a i))"
    if "open_set a \<noteq> []" for a :: "('s, int) astar"
    using least_index_least [of "map (\<lambda>i. f_score (slots a i)) (open_set a)"] that by (auto simp: first_least_def)
  then show ?thesis unfolding least_pick_def by blast
qed

lemma demo_edge: "edge demo_problem s t \<longleftrightarrow> t \<in> fst ` set (demo_costs s)"
proof -
  have "t \<in> fst ` set (demo_costs s) \<Longrightarrow> t \<in> set (get_successors demo_problem s None)" by (simp add: demo_problem_def)
  then show ?thesis unfolding edge_def by (auto simp: demo_problem_def)
qed

lemma demo_edgeD:
  "edge demo_problem s t \<Longrightarrow> (s, t, transition_cost demo_problem s t) \<in> {(0, 1, 1), (0, 2, 4), (1, 2, 1), (1, 0, 1), (2, 3, 1)}"
  unfolding demo_edge by (auto simp: demo_problem_def split: if_splits)

lemma demo_reachable: "reachable_states demo_problem 0 = {0, 1, 2, 3}"
proof
  have "is_path demo_problem p \<Longrightarrow> hd p \<in> {0, 1, 2, 3} \<Longrightarrow> last p \<in> {0, 1, 2, 3}" for p
    by (induction demo_problem p rule: is_path.induct) (auto simp: demo_edge split: if_splits)
  then show "reachable_states demo_problem 0 \<subseteq> {0, 1, 2, 3}" by (fastforce simp: reachable_states_def path_between_def)
  have "path_between demo_problem 0 [0] 0" "path_between demo_problem 0 [0, 1] 1" "path_between demo_problem 0 [0, 2] 2"
    "path_between demo_problem 0 [0, 2, 3] 3"
    by (simp_all add: path_between_def demo_edge)
  then show "{0, 1, 2, 3} \<subseteq> reachable_states demo_problem 0" by (auto simp: reachable_states_def)
qed

text \<open>A consistent heuristic is admissible.\<close>

lemma consistent_admissible:
  assumes "\<And>s t. edge P s t \<Longrightarrow> h s \<le> transition_cost P s t + h t" "h goal \<le> 0"
  shows "is_path P p \<Longrightarrow> last p = goal \<Longrightarrow> h (hd p) \<le> path_cost P p"
  using assms
proof (induction P p rule: path_cost.induct)
  case (3 P s t p)
  then have "h t \<le> path_cost P (t # p)" "h s \<le> transition_cost P s t + h t" by simp_all
  then show ?case by simp (meson add_left_mono order_trans)
qed simp_all

lemma demo_well_posed: "well_posed demo_problem 0 3"
proof -
  have "int 3 - int s \<le> transition_cost demo_problem s t + (int 3 - int t)" if "edge demo_problem s t" for s t
    using demo_edgeD [OF that] by auto
  then have "int 3 - int s \<le> path_cost demo_problem p" if "path_between demo_problem s p 3" for s p
    using consistent_admissible [of demo_problem "\<lambda>s. int 3 - int s" 3 p] that by (auto simp: path_between_def)
  moreover have "inj_on (word_of_nat :: nat \<Rightarrow> u64) {0, 1, 2, 3}" by (simp add: inj_on_def)
  moreover have "t \<in> set (get_successors demo_problem s par) \<or> par = Some t" if "edge demo_problem s t" for s t par
    using that unfolding demo_edge by (auto simp: demo_problem_def)
  moreover have "0 \<le> transition_cost demo_problem s t \<and> s \<noteq> t" if "edge demo_problem s t" for s t
    using demo_edgeD [OF that] by auto
  moreover have "heuristic demo_problem s t = int t - int s" "hash demo_problem = word_of_nat" for s t by (simp_all add: demo_problem_def)
  ultimately show ?thesis unfolding well_posed_def demo_reachable by auto
qed

text \<open>What a client sees of a search: status, visited path, cost, and the state of the pool after the destructor.\<close>

definition search_outcome :: "('s, 'c::linordered_ab_group_add) problem \<Rightarrow> (('s, 'c) astar \<Rightarrow> nat) \<Rightarrow> 's \<Rightarrow> 's \<Rightarrow> nat \<Rightarrow>
    (status \<times> 's list option \<times> 'c option \<times> (fault + nat list) option) option" where
  "search_outcome P pick start goal n =
     (case new_astar P start goal n of Inl _ \<Rightarrow> None
      | Inr a0 \<Rightarrow> (case astar_search P pick (\<lambda>_. False) a0 of Some (Inr a) \<Rightarrow>
          Some (search_status a, walk_path (Some (start_node a)) a, solution_cost a, map_option (map_sum id free_slots) (delete_astar a)) | _ \<Rightarrow> None))"

lemma demo_outcome: "search_outcome demo_problem first_least 0 3 5 = Some (SUCCESS, Some [0, 1, 2, 3], Some 3, Some (Inr [1, 3, 2, 0, 4]))"
  by code_simp

lemma search_outcomeE:
  assumes "search_outcome P pick start goal n = Some (st, p, c, d)"
  obtains a0 a where "new_astar P start goal n = Inr a0" "astar_search P pick (\<lambda>_. False) a0 = Some (Inr a)"
    "search_status a = st" "walk_path (Some (start_node a)) a = p" "solution_cost a = c" "map_option (map_sum id free_slots) (delete_astar a) = d"
  using assms by (auto simp: search_outcome_def split: sum.splits option.splits)

section \<open>Properties\<close>

lemma new_astar_running: "new_astar P start goal N = Inr a \<Longrightarrow> running P start goal N a"
  unfolding running_def using new_astar_inv [of P start goal N a] by blast

text \<open>
  C27. When a search succeeds, the states that \<open>walk_path\<close> visits form a path from the start state to the
  goal state whose cost is the reported solution cost, and no path from start to goal is cheaper. The
  heuristic only has to be admissible, and \<open>pick\<close> may be any choice of a least f-score.
\<close>

theorem astar_finds_optimal_path:
  fixes P :: "('s, 'c::linordered_ab_group_add) problem"
  assumes "well_posed P start goal" "least_pick pick" "new_astar P start goal max_nodes = Inr a0"
    "astar_search P pick cancel_request a0 = Some (Inr a)" "search_status a = SUCCESS"
  shows "\<exists>p. walk_path (Some (start_node a)) a = Some p \<and> path_between P start p goal \<and>
    solution_cost a = Some (path_cost P p) \<and> (\<forall>q. path_between P start q goal \<longrightarrow> path_cost P p \<le> path_cost P q)"
proof -
  from astar_search_result [OF assms(4,1,2) new_astar_running [OF assms(3)] refl] assms(5) show ?thesis
    by (auto simp: solved_def failed_def)
qed

theorem astar_finds_optimal_path_witness:
  "path_between demo_problem 0 [0, 1, 2, 3] 3 \<and> path_cost demo_problem [0, 1, 2, 3] = 3 \<and> 3 \<le> path_cost demo_problem [0, 2, 3]"
proof -
  obtain a0 a where run: "new_astar demo_problem 0 3 5 = Inr a0" "astar_search demo_problem first_least (\<lambda>_. False) a0 = Some (Inr a)"
    "search_status a = SUCCESS" and out: "walk_path (Some (start_node a)) a = Some [0, 1, 2, 3]" "solution_cost a = Some 3"
    using search_outcomeE [OF demo_outcome] by metis
  have "path_between demo_problem 0 [0, 2, 3] 3" by (simp add: path_between_def demo_edge)
  with astar_finds_optimal_path [OF demo_well_posed first_least_pick run] out show ?thesis by auto
qed

text \<open>
  C28. A search that is not cancelled, over finitely many reachable states with a pool of more nodes than that,
  terminates without a fault; it succeeds if there is a path from the start to the goal, and fails otherwise.
\<close>

theorem astar_decides_reachability:
  fixes P :: "('s, 'c::linordered_ab_group_add) problem"
  assumes "well_posed P start goal" "least_pick pick" "finite (reachable_states P start)"
    "card (reachable_states P start) < max_nodes"
  shows "\<exists>a0 a. new_astar P start goal max_nodes = Inr a0 \<and> astar_search P pick (\<lambda>_. False) a0 = Some (Inr a) \<and>
    search_status a = (if \<exists>p. path_between P start p goal then SUCCESS else FAILURE)"
proof -
  have "path_between P start [start] start" by (simp add: path_between_def)
  then have "start \<in> reachable_states P start" by (auto simp: reachable_states_def)
  then have "0 < card (reachable_states P start)" using assms(3) card_gt_0_iff by blast
  then have "2 \<le> max_nodes" using assms(4) by linarith
  then obtain a0 where a0: "new_astar P start goal max_nodes = Inr a0" using new_astar_returns [of max_nodes P start goal] by blast
  from new_astar_running [OF this] have run: "running P start goal max_nodes a0" .
  obtain a where a: "astar_search P pick (\<lambda>_. False) a0 = Some (Inr a)"
    using astar_search_terminates [OF assms run] by blast
  from astar_search_result [OF a assms(1,2) run refl] have "search_status a = (if \<exists>p. path_between P start p goal then SUCCESS else FAILURE)"
    by (auto simp: solved_def failed_def)
  with a0 a show ?thesis by blast
qed

theorem astar_decides_reachability_witness:
  "\<exists>a0 a. new_astar demo_problem 0 3 5 = Inr a0 \<and> astar_search demo_problem first_least (\<lambda>_. False) a0 = Some (Inr a) \<and>
    search_status a = SUCCESS"
proof -
  have "path_between demo_problem 0 [0, 2, 3] 3" by (simp add: path_between_def demo_edge)
  then have "\<exists>p. path_between demo_problem 0 p 3" by blast
  then show ?thesis using astar_decides_reachability [OF demo_well_posed first_least_pick, of 5] by (simp add: demo_reachable)
qed

text \<open>
  C29. However a search ends, by success, failure or cancellation, the destructor passes its leak check and leaves
  every slot of the node pool in the free list exactly once.
\<close>

theorem astar_returns_all_nodes:
  fixes P :: "('s, 'c::linordered_ab_group_add) problem"
  assumes "well_posed P start goal" "least_pick pick" "new_astar P start goal max_nodes = Inr a0"
    "astar_search P pick cancel_request a0 = Some (Inr a)"
  shows "\<exists>a'. delete_astar a = Some (Inr a') \<and> allocation_count a' = 0 \<and> distinct (free_slots a') \<and>
    set (free_slots a') = {..<max_nodes}"
proof -
  from astar_search_result [OF assms(4,1,2) new_astar_running [OF assms(3)] refl] show ?thesis
    by (auto simp: solved_def failed_def pool_ok_def delete_astar_def)
qed


theorem astar_returns_all_nodes_witness:
  "\<exists>a0 a a'. new_astar demo_problem 0 3 5 = Inr a0 \<and> astar_search demo_problem first_least (\<lambda>_. False) a0 = Some (Inr a) \<and>
    delete_astar a = Some (Inr a') \<and> set (free_slots a') = {..<5}"
proof -
  obtain a0 a where run: "new_astar demo_problem 0 3 5 = Inr a0" "astar_search demo_problem first_least (\<lambda>_. False) a0 = Some (Inr a)"
    using search_outcomeE [OF demo_outcome] by metis
  from astar_returns_all_nodes [OF demo_well_posed first_least_pick run] run show ?thesis by blast
qed

text \<open>
  The two requirements on the problem that the documentation does not state are needed. When the start is the goal, the start
  node is destroyed twice and the goal node never: the free list of the pool holds slot 0 twice.
\<close>

lemma start_is_goal_destroys_twice:
  "search_outcome demo_problem first_least 0 0 5 = Some (SUCCESS, Some [0], Some 0, Some (Inr [0, 0, 2, 3, 4]))"
  by code_simp

text \<open>A state that is its own successor gets a second node, which the closed set refuses: it leaks.\<close>

definition loop_problem :: "(nat, int) problem" where
  "loop_problem = \<lparr>hash = word_of_nat, transition_cost = (\<lambda>_ _. 1), heuristic = (\<lambda>_ _. 0),
     get_successors = (\<lambda>s par. if s = 0 then [0, 1] else if s = 1 then [2] else [])\<rparr>"

lemma self_loop_leaks:
  "search_outcome loop_problem first_least 0 2 8 = Some (SUCCESS, Some [0, 1, 2], Some 2, Some (Inl Assertion_Failed))"
  by code_simp

end
