(* ===== verification/Morton.thy ===== *)
theory Morton
  imports Kibble_Prelude
begin

text \<open>
  Morton codes (\<open>math/morton.h\<close>, \<open>morton.cpp\<close>): the table-driven implementation
  (\<open>impl/morton_lut.h\<close>) and the one on the BMI2 instructions (\<open>impl/morton_bmi.h\<close>), in two and three
  dimensions and for 32-bit and 64-bit keys. Both encode by the same interleaving of bits; decoding is inverse to it.
\<close>

unbundle bit_operations_syntax

section \<open>Tables in two dimensions\<close>

definition dilate_masks2 :: "u32 list" where
  "dilate_masks2 = [0xFFFFFFFF, 0x0000FFFF, 0x00FF00FF, 0x0F0F0F0F, 0x33333333, 0x55555555]"

definition gen_dilate2 :: "u32 \<Rightarrow> nat \<Rightarrow> u32" where
  "gen_dilate2 a offset =
     push_bit offset (fold (\<lambda>ii a. (a OR push_bit (drop_bit (ii - 1) 16) a) AND dilate_masks2 ! ii) [1..<6] a)"

definition gen_contract2 :: "u32 \<Rightarrow> nat \<Rightarrow> u32" where
  "gen_contract2 a offset =
     fold (\<lambda>ii a. (a OR drop_bit (push_bit ii 1) a) AND dilate_masks2 ! (4 - ii)) [0..<5]
       (drop_bit offset a AND dilate_masks2 ! 5)"

definition dilation2 :: "nat \<Rightarrow> u16 list" where
  "dilation2 offset = map (\<lambda>ii. ucast (gen_dilate2 (word_of_nat ii) offset)) [0..<256]"

definition contraction2 :: "nat \<Rightarrow> u8 list" where
  "contraction2 offset = map (\<lambda>ii. ucast (gen_contract2 (word_of_nat ii) offset)) [0..<256]"

section \<open>Encoding and decoding in two dimensions\<close>

fun encode2_loop :: "nat \<Rightarrow> 'k::len word \<Rightarrow> 'k word \<Rightarrow> 'k word \<Rightarrow> 'k word" where
  "encode2_loop 0 x y answer = answer"
| "encode2_loop (Suc i) x y answer =
     (let shift = i * 8 in
      encode2_loop i x y
        (push_bit 16 answer OR ucast (dilation2 1 ! unat (drop_bit shift y AND 0xFF)) OR
         ucast (dilation2 0 ! unat (drop_bit shift x AND 0xFF))))"

definition encode2_lut :: "'k::len word \<Rightarrow> 'k word \<Rightarrow> 'k word" where
  "encode2_lut x y = encode2_loop (LENGTH('k) div 8) x y 0"

text \<open>A table entry is promoted to \<open>int\<close>, shifted, and converted to the key type with sign extension.\<close>

definition lut_decode2 :: "'k::len word \<Rightarrow> u8 list \<Rightarrow> 'k word" where
  "lut_decode2 m lut =
     fold (\<lambda>ii a. a OR scast (push_bit (4 * ii) (ucast (lut ! unat (drop_bit (ii * 8) m AND 0xFF)) :: u32)))
       [0..<LENGTH('k) div 8] 0"

definition decode2_lut :: "'k::len word \<Rightarrow> 'k word \<times> 'k word" where
  "decode2_lut m = (lut_decode2 m (contraction2 0), lut_decode2 m (contraction2 1))"

section \<open>Tables, encoding and decoding in three dimensions\<close>

definition dilate_masks3 :: "u32 list" where
  "dilate_masks3 = [0x030000FF, 0x0300F00F, 0x030C30C3, 0x09249249]"

definition gen_dilate3 :: "u32 \<Rightarrow> nat \<Rightarrow> u32" where
  "gen_dilate3 a offset =
     push_bit offset (fold (\<lambda>ii a. (a OR push_bit (drop_bit ii 16) a) AND dilate_masks3 ! ii) [0..<4] a)"

definition gen_contract3 :: "u32 \<Rightarrow> nat \<Rightarrow> u32" where
  "gen_contract3 a offset =
     fold (\<lambda>ii a. (a OR drop_bit (push_bit (ii + 1) 1) a) AND dilate_masks3 ! (2 - ii)) [0..<3]
       (drop_bit offset a AND dilate_masks3 ! 3)"

definition dilation3 :: "nat \<Rightarrow> u32 list" where
  "dilation3 offset = map (\<lambda>ii. gen_dilate3 (word_of_nat ii) offset) [0..<256]"

definition contraction3 :: "nat \<Rightarrow> u8 list" where
  "contraction3 offset = map (\<lambda>ii. ucast (gen_contract3 (word_of_nat ii) offset)) [0..<512]"

fun encode3_loop :: "nat \<Rightarrow> 'k::len word \<Rightarrow> 'k word \<Rightarrow> 'k word \<Rightarrow> 'k word \<Rightarrow> 'k word" where
  "encode3_loop 0 x y z answer = answer"
| "encode3_loop (Suc i) x y z answer =
     (let shift = i * 8 in
      encode3_loop i x y z
        (push_bit 24 answer OR
          (ucast (dilation3 2 ! unat (drop_bit shift z AND 0xFF)) OR
           ucast (dilation3 1 ! unat (drop_bit shift y AND 0xFF)) OR
           ucast (dilation3 0 ! unat (drop_bit shift x AND 0xFF)))))"

definition encode3_lut :: "'k::len word \<Rightarrow> 'k word \<Rightarrow> 'k word \<Rightarrow> 'k word" where
  "encode3_lut x y z = encode3_loop (LENGTH('k) div 8) x y z 0"

definition lut_decode3 :: "'k::len word \<Rightarrow> u8 list \<Rightarrow> 'k word" where
  "lut_decode3 m lut =
     fold (\<lambda>ii a. a OR scast (push_bit (3 * ii) (ucast (lut ! unat (drop_bit (ii * 9) m AND 0x1FF)) :: u32)))
       [0..<(if LENGTH('k) \<le> 32 then 4 else 7)] 0"

definition decode3_lut :: "'k::len word \<Rightarrow> 'k word \<times> 'k word \<times> 'k word" where
  "decode3_lut m = (lut_decode3 m (contraction3 0), lut_decode3 m (contraction3 1), lut_decode3 m (contraction3 2))"

section \<open>BMI2\<close>

text \<open>
  The instructions \<open>pdep\<close> and \<open>pext\<close> as their specification gives them: the bits of the mask are visited from
  the lowest, and \<open>k\<close> counts those that are set.
\<close>

definition pdep_step :: "'k::len word \<Rightarrow> 'k word \<Rightarrow> nat \<Rightarrow> 'k word \<times> nat \<Rightarrow> 'k word \<times> nat" where
  "pdep_step source msk n = (\<lambda>(dst, k).
     if bit msk n then (if bit source k then set_bit n dst else dst, Suc k) else (dst, k))"

definition pdep :: "'k::len word \<Rightarrow> 'k word \<Rightarrow> 'k word" where
  "pdep source msk = fst (fold (pdep_step source msk) [0..<LENGTH('k)] (0, 0))"

definition pext_step :: "'k::len word \<Rightarrow> 'k word \<Rightarrow> nat \<Rightarrow> 'k word \<times> nat \<Rightarrow> 'k word \<times> nat" where
  "pext_step source msk n = (\<lambda>(dst, k).
     if bit msk n then (if bit source n then set_bit k dst else dst, Suc k) else (dst, k))"

definition pext :: "'k::len word \<Rightarrow> 'k word \<Rightarrow> 'k word" where
  "pext source msk = fst (fold (pext_step source msk) [0..<LENGTH('k)] (0, 0))"

definition x_mask2_32 :: u32 where "x_mask2_32 = 0x55555555"
definition y_mask2_32 :: u32 where "y_mask2_32 = 0xAAAAAAAA"
definition x_mask2_64 :: u64 where "x_mask2_64 = 0x5555555555555555"
definition y_mask2_64 :: u64 where "y_mask2_64 = 0xAAAAAAAAAAAAAAAA"

definition x_mask3_32 :: u32 where "x_mask3_32 = 0x49249249"
definition y_mask3_32 :: u32 where "y_mask3_32 = 0x92492492"
definition z_mask3_32 :: u32 where "z_mask3_32 = 0x24924924"
definition x_mask3_64 :: u64 where "x_mask3_64 = 0x9249249249249249"
definition y_mask3_64 :: u64 where "y_mask3_64 = 0x2492492492492492"
definition z_mask3_64 :: u64 where "z_mask3_64 = 0x4924924924924924"

definition encode2_bmi :: "'k::len word \<Rightarrow> 'k word \<Rightarrow> 'k word \<Rightarrow> 'k word \<Rightarrow> 'k word" where
  "encode2_bmi xm ym x y = pdep x xm OR pdep y ym"

definition decode2_bmi :: "'k::len word \<Rightarrow> 'k word \<Rightarrow> 'k word \<Rightarrow> 'k word \<times> 'k word" where
  "decode2_bmi xm ym m = (pext m xm, pext m ym)"

definition encode3_bmi :: "'k::len word \<Rightarrow> 'k word \<Rightarrow> 'k word \<Rightarrow> 'k word \<Rightarrow> 'k word \<Rightarrow> 'k word \<Rightarrow> 'k word" where
  "encode3_bmi xm ym zm x y z = pdep x xm OR pdep y ym OR pdep z zm"

definition decode3_bmi :: "'k::len word \<Rightarrow> 'k word \<Rightarrow> 'k word \<Rightarrow> 'k word \<Rightarrow> 'k word \<times> 'k word \<times> 'k word" where
  "decode3_bmi xm ym zm m = (pext m xm, pext m ym, pext m zm)"

section \<open>Maps that distribute over OR\<close>

text \<open>Dilation and contraction distribute over OR, so they are determined by their values on single bits.\<close>

definition or_linear :: "('a::len word \<Rightarrow> 'b::len word) \<Rightarrow> bool" where
  "or_linear f \<longleftrightarrow> f 0 = 0 \<and> (\<forall>a b. f (a OR b) = f a OR f b)"

lemma or_linear_intros:
  "or_linear (\<lambda>a. a)" "or_linear f \<Longrightarrow> or_linear (\<lambda>a. push_bit n (f a))" "or_linear f \<Longrightarrow> or_linear (\<lambda>a. drop_bit n (f a))"
  "or_linear f \<Longrightarrow> or_linear (\<lambda>a. f a AND m)" "or_linear f \<Longrightarrow> or_linear g \<Longrightarrow> or_linear (\<lambda>a. f a OR g a)"
  by (auto simp: or_linear_def bit_simps intro!: bit_word_eqI)

lemma or_linear_fold:
  fixes f :: "'a::len word \<Rightarrow> 'b::len word"
  assumes "\<And>i (f :: 'a word \<Rightarrow> 'b word). i \<in> set is \<Longrightarrow> or_linear f \<Longrightarrow> or_linear (\<lambda>a. step i (f a))"
  shows "or_linear f \<Longrightarrow> or_linear (\<lambda>a. fold step is (f a))"
  using assms
proof (induction "is" arbitrary: f)
  case (Cons i "is")
  have "or_linear (\<lambda>a. step i (f a))" by (rule Cons.prems(2)) (use Cons.prems(1) in simp_all)
  then show ?case using Cons.IH [of "\<lambda>a. step i (f a)"] Cons.prems(2) by simp
qed simp

lemma or_linear_bit:
  fixes a :: "'a::len word"
  assumes f: "or_linear f"
  shows "bit (f a) n \<longleftrightarrow> (\<exists>i < LENGTH('a). bit a i \<and> bit (f (push_bit i 1)) n)"
proof -
  have "bit (f (take_bit k a)) n \<longleftrightarrow> (\<exists>i < k. bit a i \<and> bit (f (push_bit i 1)) n)" if "k \<le> LENGTH('a)" for k
    using that
  proof (induction k)
    case 0
    then show ?case using f by (simp add: or_linear_def)
  next
    case (Suc k)
    have split: "take_bit (Suc k) a = take_bit k a OR (if bit a k then push_bit k 1 else 0)"
      using Suc.prems by (auto intro!: bit_word_eqI simp: bit_simps less_Suc_eq)
    have "bit (f (take_bit (Suc k) a)) n \<longleftrightarrow> bit (f (take_bit k a)) n \<or> bit a k \<and> bit (f (push_bit k 1)) n"
      using f unfolding split or_linear_def by (simp add: bit_or_iff)
    then show ?case using Suc by (auto simp: less_Suc_eq)
  qed
  from this [of "LENGTH('a)"] show ?thesis by simp
qed

lemma or_linear_gen: "or_linear (\<lambda>a. gen_dilate2 a k)" "or_linear (\<lambda>a. gen_contract2 a k)"
  "or_linear (\<lambda>a. gen_dilate3 a k)" "or_linear (\<lambda>a. gen_contract3 a k)"
  unfolding gen_dilate2_def gen_contract2_def gen_dilate3_def gen_contract3_def
  by (rule or_linear_intros(2), rule or_linear_fold, intro or_linear_intros, assumption+, rule or_linear_intros(1),
      rule or_linear_fold, intro or_linear_intros, assumption+, intro or_linear_intros,
      rule or_linear_intros(2), rule or_linear_fold, intro or_linear_intros, assumption+, rule or_linear_intros(1),
      rule or_linear_fold, intro or_linear_intros, assumption+, intro or_linear_intros)

lemma single_bits2:
  "map (\<lambda>i. gen_dilate2 (push_bit i 1) 0) [0..<8] = map (\<lambda>i. push_bit (2 * i) 1) [0..<8]"
  "map (\<lambda>i. gen_contract2 (push_bit i 1) 0) [0..<8] = map (\<lambda>i. if i mod 2 = 0 then push_bit (i div 2) 1 else 0) [0..<8]"
  "map (\<lambda>i. gen_contract2 (push_bit i 1) 1) [0..<8] = map (\<lambda>i. if i mod 2 = 1 then push_bit (i div 2) 1 else 0) [0..<8]"
  by code_simp+

lemma single_bits3:
  "map (\<lambda>i. gen_dilate3 (push_bit i 1) 0) [0..<8] = map (\<lambda>i. push_bit (3 * i) 1) [0..<8]"
  "map (\<lambda>i. gen_contract3 (push_bit i 1) 0) [0..<9] = map (\<lambda>i. if i mod 3 = 0 then push_bit (i div 3) 1 else 0) [0..<9]"
  "map (\<lambda>i. gen_contract3 (push_bit i 1) 1) [0..<9] = map (\<lambda>i. if i mod 3 = 1 then push_bit (i div 3) 1 else 0) [0..<9]"
  "map (\<lambda>i. gen_contract3 (push_bit i 1) 2) [0..<9] = map (\<lambda>i. if i mod 3 = 2 then push_bit (i div 3) 1 else 0) [0..<9]"
  by code_simp+

lemma map_upt_eqD: "map f [0..<n] = map g [0..<n] \<Longrightarrow> i < n \<Longrightarrow> f i = g i"
  by (metis add.left_neutral diff_zero length_upt nth_map nth_upt)

text \<open>A table lookup with an index of \<open>w\<close> bits.\<close>

lemma index_lt: "unat ((v :: 'k::len word) AND mask w) < 2 ^ w"
  unfolding take_bit_eq_mask [symmetric] by (simp add: unsigned_take_bit_eq take_bit_nat_less_exp)

lemma bit_index: "w \<le> 32 \<Longrightarrow> bit (word_of_nat (unat ((v :: 'k::len word) AND mask w)) :: u32) i \<longleftrightarrow> i < w \<and> bit v i"
  by (auto simp: bit_simps bit_imp_le_length dest: bit_imp_le_length)

lemma lut_bit:
  fixes v :: "'k::len word"
  assumes "or_linear g" "w \<le> 32" "\<And>i. i < w \<Longrightarrow> bit (g (push_bit i 1)) n \<longleftrightarrow> Q i"
  shows "bit (g (word_of_nat (unat (v AND mask w)) :: u32)) n \<longleftrightarrow> (\<exists>i < w. bit v i \<and> Q i)"
  using or_linear_bit [OF assms(1), of "word_of_nat (unat (v AND mask w))" n] assms(2,3) by (auto simp: bit_index simp del: of_nat_unat)

lemma spread_position: "(k :: nat) < d \<Longrightarrow> (\<exists>i < w. B i \<and> n = d * i + k) \<longleftrightarrow> n < d * w \<and> n mod d = k \<and> B (n div d)"
proof
  assume k: "k < d" "\<exists>i < w. B i \<and> n = d * i + k"
  then obtain i where i: "i < w" "B i" "n = d * i + k" by blast
  have "d * i + d \<le> d * w" using i(1) mult_le_mono2 [of "Suc i" w d] by simp
  then show "n < d * w \<and> n mod d = k \<and> B (n div d)" using k(1) i by simp
next
  assume "k < d" and n: "n < d * w \<and> n mod d = k \<and> B (n div d)"
  have "n div d < w" using n by (simp add: less_mult_imp_div_less mult.commute)
  moreover have "n = d * (n div d) + k" using n by (metis mult_div_mod_eq)
  ultimately show "\<exists>i < w. B i \<and> n = d * i + k" using n by blast
qed

lemma gather_position: "(k :: nat) < d \<Longrightarrow> (\<exists>i < d * w. B i \<and> i mod d = k \<and> n = i div d) \<longleftrightarrow> n < w \<and> B (d * n + k)"
proof
  assume "k < d" "\<exists>i < d * w. B i \<and> i mod d = k \<and> n = i div d"
  then obtain i where i: "i < d * w" "B i" "i mod d = k" "n = i div d" by blast
  then show "n < w \<and> B (d * n + k)" by (metis less_mult_imp_div_less mult.commute mult_div_mod_eq)
next
  assume k: "k < d" and n: "n < w \<and> B (d * n + k)"
  have "d * n + d \<le> d * w" using n mult_le_mono2 [of "Suc n" w d] by simp
  then show "\<exists>i < d * w. B i \<and> i mod d = k \<and> n = i div d" using k n by (intro exI [of _ "d * n + k"]) simp
qed

lemma mask_numerals: "0xFF = (mask 8 :: 'k::len word)" "0x1FF = (mask 9 :: 'k::len word)"
  by (simp_all add: mask_eq_exp_minus_1)

lemma bit_dilation2:
  fixes v :: "'k::len word"
  assumes k: "k < 2" and len: "16 \<le> LENGTH('k)"
  shows "bit (ucast (dilation2 k ! unat (v AND 0xFF)) :: 'k word) n \<longleftrightarrow> n < 16 \<and> n mod 2 = k \<and> bit v (n div 2)"
proof -
  have g: "gen_dilate2 (push_bit i 1) 0 = push_bit (2 * i) 1" if "i < 8" for i
    using map_upt_eqD [OF single_bits2(1) that] .
  have shift: "gen_dilate2 a k = push_bit k (gen_dilate2 a 0)" for a by (simp add: gen_dilate2_def)
  have "bit (gen_dilate2 (push_bit i 1) k) n \<longleftrightarrow> n = 2 * i + k" if "i < 8" for i
    using that k unfolding shift g [OF that] by (auto simp: bit_simps)
  from lut_bit [OF or_linear_gen(1) _ this, of 8 v]
  have "bit (gen_dilate2 (word_of_nat (unat (v AND mask 8))) k) n \<longleftrightarrow> n < 16 \<and> n mod 2 = k \<and> bit v (n div 2)"
    using spread_position [OF k, of 8 "bit v" n] by simp
  moreover have "unat (v AND mask 8) < 256" using index_lt [of v 8] by simp
  ultimately show ?thesis using len unfolding mask_numerals by (auto simp: dilation2_def bit_simps)
qed

lemma bit_contraction2:
  fixes v :: "'k::len word"
  assumes k: "k < 2"
  shows "bit (contraction2 k ! unat (v AND 0xFF)) n \<longleftrightarrow> n < 4 \<and> bit v (2 * n + k)"
proof -
  have "gen_contract2 (push_bit i 1) k = (if i mod 2 = k then push_bit (i div 2) 1 else 0)" if "i < 8" for i
    using map_upt_eqD [OF single_bits2(2) that] map_upt_eqD [OF single_bits2(3) that] k by (auto simp: less_2_cases_iff)
  then have "bit (gen_contract2 (push_bit i 1) k) n \<longleftrightarrow> i mod 2 = k \<and> n = i div 2" if "i < 8" for i
    using that by (auto simp: bit_simps)
  from lut_bit [OF or_linear_gen(2) _ this, of 8 v]
  have "bit (gen_contract2 (word_of_nat (unat (v AND mask 8))) k) n \<longleftrightarrow> n < 4 \<and> bit v (2 * n + k)"
    using gather_position [OF k, of 4 "bit v" n] by simp
  moreover have "unat (v AND mask 8) < 256" using index_lt [of v 8] by simp
  ultimately show ?thesis unfolding mask_numerals by (auto simp: contraction2_def bit_simps)
qed


lemma bit_dilation3:
  fixes v :: "'k::len word"
  assumes k: "k < 3" and len: "24 \<le> LENGTH('k)"
  shows "bit (ucast (dilation3 k ! unat (v AND 0xFF)) :: 'k word) n \<longleftrightarrow> n < 24 \<and> n mod 3 = k \<and> bit v (n div 3)"
proof -
  have g: "gen_dilate3 (push_bit i 1) 0 = push_bit (3 * i) 1" if "i < 8" for i
    using map_upt_eqD [OF single_bits3(1) that] .
  have shift: "gen_dilate3 a k = push_bit k (gen_dilate3 a 0)" for a by (simp add: gen_dilate3_def)
  have "bit (gen_dilate3 (push_bit i 1) k) n \<longleftrightarrow> n = 3 * i + k" if "i < 8" for i
    using that k unfolding shift g [OF that] by (auto simp: bit_simps)
  from lut_bit [OF or_linear_gen(3) _ this, of 8 v]
  have "bit (gen_dilate3 (word_of_nat (unat (v AND mask 8))) k) n \<longleftrightarrow> n < 24 \<and> n mod 3 = k \<and> bit v (n div 3)"
    using spread_position [OF k, of 8 "bit v" n] by simp
  moreover have "unat (v AND mask 8) < 256" using index_lt [of v 8] by simp
  ultimately show ?thesis using len unfolding mask_numerals by (auto simp: dilation3_def bit_simps)
qed

lemma bit_contraction3:
  fixes v :: "'k::len word"
  assumes k: "k < 3"
  shows "bit (contraction3 k ! unat (v AND 0x1FF)) n \<longleftrightarrow> n < 3 \<and> bit v (3 * n + k)"
proof -
  have "gen_contract3 (push_bit i 1) k = (if i mod 3 = k then push_bit (i div 3) 1 else 0)" if "i < 9" for i
  proof -
    consider "k = 0" | "k = 1" | "k = 2" using k by linarith
    then show ?thesis
      using map_upt_eqD [OF single_bits3(2) that] map_upt_eqD [OF single_bits3(3) that] map_upt_eqD [OF single_bits3(4) that]
      by cases simp_all
  qed
  then have "bit (gen_contract3 (push_bit i 1) k) n \<longleftrightarrow> i mod 3 = k \<and> n = i div 3" if "i < 9" for i
    using that by (auto simp: bit_simps)
  from lut_bit [OF or_linear_gen(4) _ this, of 9 v]
  have "bit (gen_contract3 (word_of_nat (unat (v AND mask 9))) k) n \<longleftrightarrow> n < 3 \<and> bit v (3 * n + k)"
    using gather_position [OF k, of 3 "bit v" n] by simp
  moreover have "unat (v AND mask 9) < 512" using index_lt [of v 9] by simp
  ultimately show ?thesis unfolding mask_numerals by (auto simp: contraction3_def bit_simps)
qed

section \<open>Interleaving\<close>

text \<open>The reference: bit \<open>n\<close> of the code of \<open>d\<close> coordinates is bit \<open>n div d\<close> of the coordinate \<open>n mod d\<close>.\<close>

definition interleaved :: "nat \<Rightarrow> (nat \<Rightarrow> 'k::len word) \<Rightarrow> 'k word \<Rightarrow> bool" where
  "interleaved d c m \<longleftrightarrow> (\<forall>n < LENGTH('k). bit m n \<longleftrightarrow> bit (c (n mod d)) (n div d))"

definition coords2 :: "'a \<Rightarrow> 'a \<Rightarrow> nat \<Rightarrow> 'a" where
  "coords2 x y k = (if k = 0 then x else y)"

definition coords3 :: "'a \<Rightarrow> 'a \<Rightarrow> 'a \<Rightarrow> nat \<Rightarrow> 'a" where
  "coords3 x y z k = (if k = 0 then x else if k = 1 then y else z)"

lemma interleaved_unique: "interleaved d c m \<Longrightarrow> interleaved d c m' \<Longrightarrow> m = m'"
  by (rule bit_word_eqI) (simp add: interleaved_def)

lemma interleaved_bit: "interleaved d c (m :: 'k::len word) \<Longrightarrow> k < d \<Longrightarrow> d * j + k < LENGTH('k) \<Longrightarrow> bit m (d * j + k) \<longleftrightarrow> bit (c k) j"
  by (simp add: interleaved_def)

text \<open>One iteration of an encoding loop adds one byte of every coordinate.\<close>

lemma interleave_byte:
  fixes answer :: "'k::len word"
  assumes d: "0 < d" and ans: "interleaved d (\<lambda>k. drop_bit (8 * Suc i) (c k)) answer"
    and b: "\<And>n. bit b n \<longleftrightarrow> n < 8 * d \<and> bit (c (n mod d)) (8 * i + n div d)"
  shows "interleaved d (\<lambda>k. drop_bit (8 * i) (c k)) (push_bit (8 * d) answer OR b)"
  unfolding interleaved_def
proof (intro allI impI)
  fix n assume n: "n < LENGTH('k)"
  show "bit (push_bit (8 * d) answer OR b) n \<longleftrightarrow> bit (drop_bit (8 * i) (c (n mod d))) (n div d)"
  proof (cases "n < 8 * d")
    case True
    then show ?thesis using b [of n] by (simp add: bit_simps)
  next
    case False
    define m where "m = n - 8 * d"
    have m: "n = m + 8 * d" "m < LENGTH('k)" using False n by (auto simp: m_def)
    have "bit answer m \<longleftrightarrow> bit (c (m mod d)) (8 * Suc i + m div d)"
      using ans m(2) by (simp add: interleaved_def bit_simps)
    moreover have "n mod d = m mod d" "n div d = m div d + 8" using d by (simp_all add: m(1))
    ultimately show ?thesis using b [of n] False n by (simp add: bit_simps m_def add_ac)
  qed
qed

lemma offsets: "0 < (2::nat)" "1 < (2::nat)" "0 < (3::nat)" "1 < (3::nat)" "2 < (3::nat)"
  by simp_all

lemma encode2_loop_interleaves:
  assumes len: "16 \<le> LENGTH('k)"
  shows "interleaved 2 (\<lambda>k. drop_bit (8 * i) (coords2 x y k)) answer \<Longrightarrow>
    interleaved 2 (coords2 x y) (encode2_loop i x y (answer :: 'k::len word))"
proof (induction i arbitrary: answer)
  case (Suc i)
  let ?b = "ucast (dilation2 1 ! unat (drop_bit (i * 8) y AND 0xFF)) OR ucast (dilation2 0 ! unat (drop_bit (i * 8) x AND 0xFF)) :: 'k word"
  have "bit ?b n \<longleftrightarrow> n < 8 * 2 \<and> bit (coords2 x y (n mod 2)) (8 * i + n div 2)" for n
    unfolding bit_or_iff bit_dilation2 [OF offsets(2) len] bit_dilation2 [OF offsets(1) len]
    by (auto simp: bit_drop_bit_eq coords2_def mult.commute odd_iff_mod_2_eq_one)
  then have "interleaved 2 (\<lambda>k. drop_bit (8 * i) (coords2 x y k)) (push_bit (8 * 2) answer OR ?b)"
    by (intro interleave_byte Suc.prems) simp_all
  from Suc.IH [OF this] show ?case by (simp add: Let_def or.assoc)
qed simp

lemma encode3_loop_interleaves:
  assumes len: "24 \<le> LENGTH('k)"
  shows "interleaved 3 (\<lambda>k. drop_bit (8 * i) (coords3 x y z k)) answer \<Longrightarrow>
    interleaved 3 (coords3 x y z) (encode3_loop i x y z (answer :: 'k::len word))"
proof (induction i arbitrary: answer)
  case (Suc i)
  let ?b = "ucast (dilation3 2 ! unat (drop_bit (i * 8) z AND 0xFF)) OR ucast (dilation3 1 ! unat (drop_bit (i * 8) y AND 0xFF)) OR
    ucast (dilation3 0 ! unat (drop_bit (i * 8) x AND 0xFF)) :: 'k word"
  have "bit ?b n \<longleftrightarrow> n < 8 * 3 \<and> bit (coords3 x y z (n mod 3)) (8 * i + n div 3)" for n
  proof -
    consider "n mod 3 = 0" | "n mod 3 = 1" | "n mod 3 = 2" by linarith
    then show ?thesis
      unfolding bit_or_iff bit_dilation3 [OF offsets(5) len] bit_dilation3 [OF offsets(4) len] bit_dilation3 [OF offsets(3) len]
      by cases (auto simp: bit_drop_bit_eq coords3_def mult.commute)
  qed
  then have "interleaved 3 (\<lambda>k. drop_bit (8 * i) (coords3 x y z k)) (push_bit (8 * 3) answer OR ?b)"
    by (intro interleave_byte Suc.prems) simp_all
  from Suc.IH [OF this] show ?case by (simp add: Let_def)
qed simp

lemma encode_lut_interleaves:
  fixes x y z :: "'k::len word"
  assumes "24 \<le> LENGTH('k)" "LENGTH('k) mod 8 = 0"
  shows "interleaved 2 (coords2 x y) (encode2_lut x y)" "interleaved 3 (coords3 x y z) (encode3_lut x y z)"
proof -
  have zero: "drop_bit (8 * (LENGTH('k) div 8)) v = 0" for v :: "'k word" using assms(2) by (auto simp: bit_simps intro!: bit_word_eqI)
  show "interleaved 2 (coords2 x y) (encode2_lut x y)"
    unfolding encode2_lut_def by (rule encode2_loop_interleaves) (use assms in \<open>simp_all add: interleaved_def zero\<close>)
  show "interleaved 3 (coords3 x y z) (encode3_lut x y z)"
    unfolding encode3_lut_def by (rule encode3_loop_interleaves) (use assms in \<open>simp_all add: interleaved_def zero\<close>)
qed


section \<open>Decoding with tables\<close>

lemma bit_fold_or: "bit (fold (\<lambda>i a. a OR t i) is (a :: 'k::len word)) n \<longleftrightarrow> bit a n \<or> (\<exists>i \<in> set is. bit (t i) n)"
  by (induction "is" arbitrary: a) (auto simp: bit_simps)

text \<open>A table entry of \<open>w\<close> bits at position \<open>s\<close>, as long as the sign bit of \<open>int\<close> stays clear.\<close>

lemma bit_entry_int:
  fixes e :: u8
  assumes "\<And>n. bit e n \<longleftrightarrow> n < w \<and> Q n" "s + w \<le> 32"
  shows "bit (push_bit s (ucast e :: u32)) j \<longleftrightarrow> s \<le> j \<and> j < s + w \<and> Q (j - s)"
  using assms(1) [of "j - s"] assms(2) bit_imp_le_length [of e "j - s"] by (auto simp: bit_simps)

lemma bit_entry:
  fixes e :: u8
  assumes e: "\<And>n. bit e n \<longleftrightarrow> n < w \<and> Q n" "s + w \<le> 32" and len: "32 \<le> LENGTH('k)"
    and sign: "LENGTH('k) = 32 \<or> s + w < 32 \<or> \<not> Q (31 - s)"
  shows "bit (scast (push_bit s (ucast e :: u32)) :: 'k::len word) n \<longleftrightarrow> s \<le> n \<and> n < s + w \<and> Q (n - s)"
proof -
  let ?u = "push_bit s (ucast e :: u32)"
  have cast: "bit (scast ?u :: 'k word) n \<longleftrightarrow> n < LENGTH('k) \<and> bit ?u (min 31 n)" by (simp add: bit_signed_iff)
  show ?thesis
  proof (cases "n < 32")
    case True
    then have "min 31 n = n" by simp
    then show ?thesis unfolding cast bit_entry_int [OF e] using len True by simp
  next
    case False
    then have "\<not> bit (scast ?u :: 'k word) n" unfolding cast bit_entry_int [OF e] using sign e(2) by (auto simp: min_def)
    then show ?thesis using False e(2) by simp
  qed
qed

lemma lut_decode2_bit:
  fixes m :: "'k::len word"
  assumes len: "LENGTH('k) = 32 \<or> LENGTH('k) = 64" and k: "k < 2" and sign: "LENGTH('k) = 64 \<Longrightarrow> \<not> bit m (62 + k)"
  shows "bit (lut_decode2 m (contraction2 k)) n \<longleftrightarrow> bit m (2 * n + k)"
proof -
  let ?e = "\<lambda>i. contraction2 k ! unat (drop_bit (i * 8) m AND 0xFF)"
  have e: "bit (?e i) j \<longleftrightarrow> j < 4 \<and> bit m (i * 8 + (2 * j + k))" for i j
    using bit_contraction2 [OF k, of "drop_bit (i * 8) m" j] by (simp add: bit_drop_bit_eq)
  have entry: "bit (scast (push_bit (4 * i) (ucast (?e i) :: u32)) :: 'k word) n \<longleftrightarrow> i = n div 4 \<and> bit m (2 * n + k)"
    if i: "i < LENGTH('k) div 8" for i
  proof -
    have "LENGTH('k) = 32 \<or> 4 * i + 4 < 32 \<or> \<not> bit m (i * 8 + (2 * (31 - 4 * i) + k))"
      using len i sign by (cases "i = 7") auto
    moreover have "4 * i + 4 \<le> 32" "32 \<le> LENGTH('k)" using i len by auto
    ultimately have "bit (scast (push_bit (4 * i) (ucast (?e i) :: u32)) :: 'k word) n \<longleftrightarrow>
        4 * i \<le> n \<and> n < 4 * i + 4 \<and> bit m (i * 8 + (2 * (n - 4 * i) + k))"
      using bit_entry [OF e] by blast
    moreover have "4 * i \<le> n \<and> n < 4 * i + 4 \<longleftrightarrow> i = n div 4" by presburger
    moreover have "i * 8 + (2 * (n - 4 * i) + k) = 2 * n + k" if "4 * i \<le> n" using that by simp
    ultimately show ?thesis by metis
  qed
  have "n div 4 < LENGTH('k) div 8" if "bit m (2 * n + k)"
    using bit_imp_le_length [OF that] len by auto
  then show ?thesis unfolding lut_decode2_def bit_fold_or by (auto simp: entry)
qed

lemma lut_decode3_bit:
  fixes m :: "'k::len word"
  assumes len: "LENGTH('k) = 32 \<or> LENGTH('k) = 64" and k: "k < 3"
  shows "bit (lut_decode3 m (contraction3 k)) n \<longleftrightarrow> n < 21 \<and> bit m (3 * n + k)"
proof -
  let ?e = "\<lambda>i. contraction3 k ! unat (drop_bit (i * 9) m AND 0x1FF)" and ?loops = "if LENGTH('k) \<le> 32 then 4 else 7 :: nat"
  have e: "bit (?e i) j \<longleftrightarrow> j < 3 \<and> bit m (i * 9 + (3 * j + k))" for i j
    using bit_contraction3 [OF k, of "drop_bit (i * 9) m" j] by (simp add: bit_drop_bit_eq)
  have entry: "bit (scast (push_bit (3 * i) (ucast (?e i) :: u32)) :: 'k word) n \<longleftrightarrow> i = n div 3 \<and> bit m (3 * n + k)"
    if i: "i < ?loops" for i
  proof -
    have "3 * i + 3 < 32" "3 * i + 3 \<le> 32" "32 \<le> LENGTH('k)" using i len by (auto split: if_splits)
    then have "bit (scast (push_bit (3 * i) (ucast (?e i) :: u32)) :: 'k word) n \<longleftrightarrow>
        3 * i \<le> n \<and> n < 3 * i + 3 \<and> bit m (i * 9 + (3 * (n - 3 * i) + k))"
      using bit_entry [OF e] by blast
    moreover have "3 * i \<le> n \<and> n < 3 * i + 3 \<longleftrightarrow> i = n div 3" by presburger
    moreover have "i * 9 + (3 * (n - 3 * i) + k) = 3 * n + k" if "3 * i \<le> n" using that by simp
    ultimately show ?thesis by metis
  qed
  have "n div 3 < ?loops \<longleftrightarrow> n < 21" if "bit m (3 * n + k)"
    using bit_imp_le_length [OF that] len by auto
  then show ?thesis unfolding lut_decode3_def bit_fold_or by (auto simp: entry split: if_splits)
qed


section \<open>The BMI2 instructions\<close>

definition rank :: "'k::len word \<Rightarrow> nat \<Rightarrow> nat" where
  "rank msk n = card {i. i < n \<and> bit msk i}"

lemma rank_simps [simp]: "rank msk 0 = 0" "rank msk (Suc n) = (if bit msk n then Suc (rank msk n) else rank msk n)"
proof -
  have "{i. i < Suc n \<and> bit msk i} = (if bit msk n then insert n {i. i < n \<and> bit msk i} else {i. i < n \<and> bit msk i})"
    by (auto simp: less_Suc_eq)
  then show "rank msk (Suc n) = (if bit msk n then Suc (rank msk n) else rank msk n)" by (simp add: rank_def)
qed (simp add: rank_def)

lemma rank_le: "rank msk n \<le> n"
  by (induction n) auto

lemma pdep_fold:
  fixes source :: "'k::len word"
  shows "N \<le> LENGTH('k) \<Longrightarrow> fold (pdep_step source msk) [0..<N] (0, 0) = (r, c) \<Longrightarrow>
    c = rank msk N \<and> (\<forall>n. bit r n \<longleftrightarrow> n < N \<and> bit msk n \<and> bit source (rank msk n))"
proof (induction N arbitrary: r c)
  case (Suc N)
  obtain r' c' where f: "fold (pdep_step source msk) [0..<N] (0, 0) = (r', c')" by fastforce
  from Suc.IH [OF _ f] Suc.prems(1) have IH: "c' = rank msk N" "\<And>n. bit r' n \<longleftrightarrow> n < N \<and> bit msk n \<and> bit source (rank msk n)" by auto
  have "pdep_step source msk N (r', c') = (r, c)" using Suc.prems(2) f by simp
  then have r: "r = (if bit msk N \<and> bit source c' then set_bit N r' else r')" "c = (if bit msk N then Suc c' else c')"
    by (auto simp: pdep_step_def split: if_splits)
  have "bit r n \<longleftrightarrow> bit r' n \<or> n = N \<and> bit msk N \<and> bit source c'" for n
    using Suc.prems(1) by (auto simp: r(1) bit_set_bit_iff)
  then show ?case using IH r(2) by (simp add: less_Suc_eq) blast
qed simp

lemma bit_pdep:
  fixes msk :: "'k::len word"
  shows "bit (pdep source msk) n \<longleftrightarrow> n < LENGTH('k) \<and> bit msk n \<and> bit source (rank msk n)"
proof -
  obtain r c where f: "fold (pdep_step source msk) [0..<LENGTH('k)] (0, 0) = (r, c)" by fastforce
  from pdep_fold [OF order_refl f] show ?thesis by (simp add: pdep_def f)
qed

lemma pext_fold:
  fixes source :: "'k::len word"
  shows "N \<le> LENGTH('k) \<Longrightarrow> fold (pext_step source msk) [0..<N] (0, 0) = (r, c) \<Longrightarrow>
    c = rank msk N \<and> (\<forall>j. bit r j \<longleftrightarrow> (\<exists>n < N. bit msk n \<and> bit source n \<and> rank msk n = j))"
proof (induction N arbitrary: r c)
  case (Suc N)
  obtain r' c' where f: "fold (pext_step source msk) [0..<N] (0, 0) = (r', c')" by fastforce
  from Suc.IH [OF _ f] Suc.prems(1)
  have IH: "c' = rank msk N" "\<And>j. bit r' j \<longleftrightarrow> (\<exists>n < N. bit msk n \<and> bit source n \<and> rank msk n = j)" by auto
  have "pext_step source msk N (r', c') = (r, c)" using Suc.prems(2) f by simp
  moreover have "rank msk N < LENGTH('k)" using rank_le [of msk N] Suc.prems(1) by linarith
  ultimately have r: "c = (if bit msk N then Suc c' else c')"
    "\<And>j. bit r j \<longleftrightarrow> bit r' j \<or> j = c' \<and> bit msk N \<and> bit source N"
    using IH(1) by (auto simp: pext_step_def bit_set_bit_iff split: if_splits)
  then show ?case using IH by (simp add: less_Suc_eq) blast
qed simp

lemma bit_pext:
  fixes msk :: "'k::len word"
  shows "bit (pext source msk) j \<longleftrightarrow> (\<exists>n < LENGTH('k). bit msk n \<and> bit source n \<and> rank msk n = j)"
proof -
  obtain r c where f: "fold (pext_step source msk) [0..<LENGTH('k)] (0, 0) = (r, c)" by fastforce
  from pext_fold [OF order_refl f] show ?thesis by (simp add: pext_def f)
qed

text \<open>The masks select every \<open>d\<close>-th bit, starting at \<open>k\<close>.\<close>

definition stride :: "nat \<Rightarrow> nat \<Rightarrow> 'k::len word \<Rightarrow> bool" where
  "stride d k msk \<longleftrightarrow> map (bit msk) [0..<LENGTH('k)] = map (\<lambda>n. n mod d = k) [0..<LENGTH('k)]"

lemma masks2: "stride 2 0 x_mask2_32" "stride 2 1 y_mask2_32" "stride 2 0 x_mask2_64" "stride 2 1 y_mask2_64"
  unfolding stride_def by code_simp+

lemma masks3: "stride 3 0 x_mask3_32" "stride 3 1 y_mask3_32" "stride 3 2 z_mask3_32"
  "stride 3 0 x_mask3_64" "stride 3 1 y_mask3_64" "stride 3 2 z_mask3_64"
  unfolding stride_def by code_simp+

lemma stride_bit: "stride d k (msk :: 'k::len word) \<Longrightarrow> n < LENGTH('k) \<Longrightarrow> bit msk n \<longleftrightarrow> n mod d = k"
  unfolding stride_def by (drule map_upt_eqD) auto

lemma stride_rank:
  fixes msk :: "'k::len word"
  assumes s: "stride d k msk" and d: "(d, k) \<in> {(2, 0), (2, 1), (3, 0), (3, 1), (3, 2)}" and "n < LENGTH('k)" "n mod d = k"
  shows "rank msk n = n div d"
proof -
  have "rank msk j = (j + (d - 1 - k)) div d" if "j \<le> LENGTH('k)" for j
    using that
  proof (induction j)
    case 0
    then show ?case using d by auto
  next
    case (Suc j)
    have bit: "bit msk j \<longleftrightarrow> j mod d = k" using stride_bit [OF s] Suc.prems by simp
    have "(Suc j + (d - 1 - k)) div d = (if j mod d = k then Suc ((j + (d - 1 - k)) div d) else (j + (d - 1 - k)) div d)"
      using d by (elim insertE emptyE) (simp_all, presburger+)
    then show ?case using Suc bit by simp
  qed
  then have "rank msk n = (n + (d - 1 - k)) div d" using assms(3) by simp
  also have "\<dots> = n div d" using assms(4) d by (elim insertE emptyE) (simp_all, presburger+)
  finally show ?thesis .
qed

lemma pdep_stride:
  fixes msk :: "'k::len word"
  assumes "stride d k msk" "(d, k) \<in> {(2, 0), (2, 1), (3, 0), (3, 1), (3, 2)}"
  shows "bit (pdep x msk) n \<longleftrightarrow> n < LENGTH('k) \<and> n mod d = k \<and> bit x (n div d)"
  using stride_bit [OF assms(1), of n] stride_rank [OF assms, of n] by (auto simp: bit_pdep)

lemma pext_stride:
  fixes msk :: "'k::len word"
  assumes "stride d k msk" "(d, k) \<in> {(2, 0), (2, 1), (3, 0), (3, 1), (3, 2)}"
  shows "bit (pext m msk) j \<longleftrightarrow> bit m (d * j + k)"
proof -
  have k: "k < d" using assms(2) by auto
  have "bit (pext m msk) j \<longleftrightarrow> (\<exists>n < LENGTH('k). n mod d = k \<and> bit m n \<and> n div d = j)"
    unfolding bit_pext using stride_bit [OF assms(1)] stride_rank [OF assms] by metis
  also have "\<dots> \<longleftrightarrow> bit m (d * j + k)"
  proof
    assume "bit m (d * j + k)"
    then show "\<exists>n < LENGTH('k). n mod d = k \<and> bit m n \<and> n div d = j"
      using bit_imp_le_length k by (intro exI [of _ "d * j + k"]) auto
  qed (metis mult_div_mod_eq)
  finally show ?thesis .
qed


lemma encode2_bmi_interleaves:
  "stride 2 0 xm \<Longrightarrow> stride 2 1 ym \<Longrightarrow> interleaved 2 (coords2 x y) (encode2_bmi xm ym x y)"
  by (auto simp: interleaved_def encode2_bmi_def bit_or_iff pdep_stride coords2_def odd_iff_mod_2_eq_one)

lemma encode3_bmi_interleaves:
  "stride 3 0 xm \<Longrightarrow> stride 3 1 ym \<Longrightarrow> stride 3 2 zm \<Longrightarrow> interleaved 3 (coords3 x y z) (encode3_bmi xm ym zm x y z)"
proof -
  have "n mod 3 = 0 \<or> n mod 3 = 1 \<or> n mod 3 = 2" for n :: nat by linarith
  then show "stride 3 0 xm \<Longrightarrow> stride 3 1 ym \<Longrightarrow> stride 3 2 zm \<Longrightarrow> interleaved 3 (coords3 x y z) (encode3_bmi xm ym zm x y z)"
    by (auto simp: interleaved_def encode3_bmi_def bit_or_iff pdep_stride coords3_def)
qed

text \<open>Every \<open>d\<close>-th bit of a code is the coordinate, when the coordinate is short enough.\<close>

lemma unat_bound_bit: "unat (x :: 'k::len word) < 2 ^ h \<Longrightarrow> bit x n \<Longrightarrow> n < h"
proof -
  assume "unat x < 2 ^ h" and b: "bit x n"
  then have "take_bit h (unat x) = unat x" by (simp add: take_bit_nat_eq_self_iff)
  moreover have "bit (unat x) n" using b bit_imp_le_length [OF b] by (simp add: bit_unsigned_iff)
  ultimately show "n < h" by (metis bit_take_bit_iff)
qed

lemma gathered_coordinate:
  fixes m :: "'k::len word"
  assumes m: "interleaved d c m" "k < d" and small: "unat (c k) < 2 ^ h" "d * h \<le> LENGTH('k)" "h \<le> h'"
    and r: "\<And>n. bit r n \<longleftrightarrow> n < h' \<and> bit m (d * n + k)"
  shows "r = c k"
proof (rule bit_word_eqI)
  fix n
  show "bit r n \<longleftrightarrow> bit (c k) n"
  proof (cases "d * n + k < LENGTH('k)")
    case True
    then show ?thesis using interleaved_bit [OF m True] r [of n] unat_bound_bit [OF small(1), of n] small(3) by auto
  next
    case False
    have "\<not> n < h"
    proof
      assume "n < h"
      then have "d * Suc n \<le> d * h" by (intro mult_le_mono2) simp
      then show False using False m(2) small(2) by simp
    qed
    then show ?thesis using unat_bound_bit [OF small(1), of n] r [of n] bit_imp_le_length [of m "d * n + k"] False by auto
  qed
qed

lemma decode2_lut_ok:
  fixes x y :: "'k::len word"
  assumes len: "LENGTH('k) = 32 \<or> LENGTH('k) = 64" and m: "interleaved 2 (coords2 x y) m"
    and h: "unat x < 2 ^ h" "unat y < 2 ^ h" "2 * h \<le> LENGTH('k)" "LENGTH('k) = 64 \<Longrightarrow> h < 32"
  shows "decode2_lut m = (x, y)"
proof -
  have sign: "\<not> bit m (62 + k)" if "LENGTH('k) = 64" "k < 2" for k
    using interleaved_bit [OF m that(2), of 31] unat_bound_bit [OF h(1), of 31] unat_bound_bit [OF h(2), of 31] that h(4)
    by (auto simp: coords2_def)
  have "lut_decode2 m (contraction2 k) = coords2 x y k" if k: "k < 2" for k
    by (rule gathered_coordinate [OF m k, of h "LENGTH('k)"])
      (use h lut_decode2_bit [OF len k sign] k in \<open>auto simp: coords2_def dest: bit_imp_le_length\<close>)
  from this [of 0] this [of 1] show ?thesis by (simp add: decode2_lut_def coords2_def)
qed

lemma decode3_lut_ok:
  fixes x y z :: "'k::len word"
  assumes len: "LENGTH('k) = 32 \<or> LENGTH('k) = 64" and m: "interleaved 3 (coords3 x y z) m"
    and h: "unat x < 2 ^ h" "unat y < 2 ^ h" "unat z < 2 ^ h" "3 * h \<le> LENGTH('k)"
  shows "decode3_lut m = (x, y, z)"
proof -
  have "lut_decode3 m (contraction3 k) = coords3 x y z k" if k: "k < 3" for k
    by (rule gathered_coordinate [OF m k, of h 21])
      (use h len lut_decode3_bit [OF len k] in \<open>auto simp: coords3_def\<close>)
  from this [of 0] this [of 1] this [of 2] show ?thesis by (simp add: decode3_lut_def coords3_def)
qed

lemma pext_coordinate:
  fixes m :: "'k::len word"
  assumes m: "interleaved d c m" and s: "stride d k msk" "(d, k) \<in> {(2, 0), (2, 1), (3, 0), (3, 1), (3, 2)}"
    and h: "unat (c k) < 2 ^ h" "d * h \<le> LENGTH('k)"
  shows "pext m msk = c k"
proof -
  have k: "k < d" using s(2) by auto
  then have le: "n \<le> d * n" for n by simp
  have "bit (pext m msk) n \<longleftrightarrow> n < LENGTH('k) \<and> bit m (d * n + k)" for n
    using pext_stride [OF s, of m n] bit_imp_le_length [of m "d * n + k"] le [of n] by linarith
  then show ?thesis using gathered_coordinate [OF m k h, of "LENGTH('k)"] le [of h] h(2) by simp
qed

section \<open>Properties\<close>

text \<open>
  C30. The two implementations of the encoder, on lookup tables and on the \<open>pdep\<close> instruction, compute the same
  code for all coordinates, in two and in three dimensions and for both key widths.
\<close>

theorem morton_implementations_agree:
  fixes x y z :: u32 and x' y' z' :: u64
  shows "encode2_lut x y = encode2_bmi x_mask2_32 y_mask2_32 x y \<and>
    encode3_lut x y z = encode3_bmi x_mask3_32 y_mask3_32 z_mask3_32 x y z \<and>
    encode2_lut x' y' = encode2_bmi x_mask2_64 y_mask2_64 x' y' \<and>
    encode3_lut x' y' z' = encode3_bmi x_mask3_64 y_mask3_64 z_mask3_64 x' y' z'"
  using encode_lut_interleaves(1) [of x y] encode_lut_interleaves(2) [of x y z] encode_lut_interleaves(1) [of x' y']
    encode_lut_interleaves(2) [of x' y' z']
    encode2_bmi_interleaves [OF masks2(1,2), of x y] encode2_bmi_interleaves [OF masks2(3,4), of x' y']
    encode3_bmi_interleaves [OF masks3(1,2,3), of x y z] encode3_bmi_interleaves [OF masks3(4,5,6), of x' y' z']
  by (auto intro: interleaved_unique)


text \<open>
  C31. Decoding a two-dimensional Morton code returns the coordinates, for both implementations, when the coordinates
  use at most half of the bits of the key; with tables and 64-bit keys, one bit less.
\<close>

theorem morton2_roundtrip:
  fixes x y :: u32 and x' y' v w :: u64
  assumes "unat x < 2 ^ 16" "unat y < 2 ^ 16" "unat x' < 2 ^ 31" "unat y' < 2 ^ 31" "unat v < 2 ^ 32" "unat w < 2 ^ 32"
  shows "decode2_lut (encode2_lut x y) = (x, y) \<and>
    decode2_bmi x_mask2_32 y_mask2_32 (encode2_bmi x_mask2_32 y_mask2_32 x y) = (x, y) \<and>
    decode2_lut (encode2_lut x' y') = (x', y') \<and>
    decode2_bmi x_mask2_64 y_mask2_64 (encode2_bmi x_mask2_64 y_mask2_64 v w) = (v, w)"
proof (intro conjI)
  show "decode2_lut (encode2_lut x y) = (x, y)"
    by (rule decode2_lut_ok [of _ _ _ 16]) (use assms encode_lut_interleaves(1) [of x y] in simp_all)
  show "decode2_lut (encode2_lut x' y') = (x', y')"
    by (rule decode2_lut_ok [of _ _ _ 31]) (use assms encode_lut_interleaves(1) [of x' y'] in simp_all)
  note m = encode2_bmi_interleaves [OF masks2(1,2), of x y] and m' = encode2_bmi_interleaves [OF masks2(3,4), of v w]
  show "decode2_bmi x_mask2_32 y_mask2_32 (encode2_bmi x_mask2_32 y_mask2_32 x y) = (x, y)"
    using pext_coordinate [OF m masks2(1), of 16] pext_coordinate [OF m masks2(2), of 16] assms by (simp add: decode2_bmi_def coords2_def)
  show "decode2_bmi x_mask2_64 y_mask2_64 (encode2_bmi x_mask2_64 y_mask2_64 v w) = (v, w)"
    using pext_coordinate [OF m' masks2(3), of 32] pext_coordinate [OF m' masks2(4), of 32] assms by (simp add: decode2_bmi_def coords2_def)
qed

theorem morton2_roundtrip_witness:
  "decode2_lut (encode2_lut (0xFFF1 :: u32) 0x0A05) = (0xFFF1, 0x0A05) \<and>
    decode2_bmi x_mask2_64 y_mask2_64 (encode2_bmi x_mask2_64 y_mask2_64 0x80000000 1) = (0x80000000, 1)"
  using morton2_roundtrip [of "0xFFF1" "0x0A05" 0 0 "0x80000000" 1] by simp

text \<open>
  Decoding a three-dimensional Morton code returns the coordinates, for both implementations, when the
  coordinates use at most a third of the bits of the key.
\<close>

theorem morton3_roundtrip:
  fixes x y z :: u32 and x' y' z' :: u64
  assumes "unat x < 2 ^ 10" "unat y < 2 ^ 10" "unat z < 2 ^ 10" "unat x' < 2 ^ 21" "unat y' < 2 ^ 21" "unat z' < 2 ^ 21"
  shows "decode3_lut (encode3_lut x y z) = (x, y, z) \<and>
    decode3_bmi x_mask3_32 y_mask3_32 z_mask3_32 (encode3_bmi x_mask3_32 y_mask3_32 z_mask3_32 x y z) = (x, y, z) \<and>
    decode3_lut (encode3_lut x' y' z') = (x', y', z') \<and>
    decode3_bmi x_mask3_64 y_mask3_64 z_mask3_64 (encode3_bmi x_mask3_64 y_mask3_64 z_mask3_64 x' y' z') = (x', y', z')"
proof (intro conjI)
  show "decode3_lut (encode3_lut x y z) = (x, y, z)"
    by (rule decode3_lut_ok [of _ _ _ _ 10]) (use assms encode_lut_interleaves(2) [of x y z] in simp_all)
  show "decode3_lut (encode3_lut x' y' z') = (x', y', z')"
    by (rule decode3_lut_ok [of _ _ _ _ 21]) (use assms encode_lut_interleaves(2) [of x' y' z'] in simp_all)
  note m = encode3_bmi_interleaves [OF masks3(1,2,3), of x y z] and m' = encode3_bmi_interleaves [OF masks3(4,5,6), of x' y' z']
  show "decode3_bmi x_mask3_32 y_mask3_32 z_mask3_32 (encode3_bmi x_mask3_32 y_mask3_32 z_mask3_32 x y z) = (x, y, z)"
    using pext_coordinate [OF m masks3(1), of 10] pext_coordinate [OF m masks3(2), of 10] pext_coordinate [OF m masks3(3), of 10] assms
    by (simp add: decode3_bmi_def coords3_def)
  show "decode3_bmi x_mask3_64 y_mask3_64 z_mask3_64 (encode3_bmi x_mask3_64 y_mask3_64 z_mask3_64 x' y' z') = (x', y', z')"
    using pext_coordinate [OF m' masks3(4), of 21] pext_coordinate [OF m' masks3(5), of 21] pext_coordinate [OF m' masks3(6), of 21] assms
    by (simp add: decode3_bmi_def coords3_def)
qed

theorem morton3_roundtrip_witness:
  "decode3_lut (encode3_lut (0x3F1 :: u32) 0x205 0x111) = (0x3F1, 0x205, 0x111) \<and>
    decode3_lut (encode3_lut (0x1003F1 :: u64) 0x205 0x111) = (0x1003F1, 0x205, 0x111)"
  using morton3_roundtrip [of "0x3F1" "0x205" "0x111" "0x1003F1" "0x205" "0x111"] by simp

text \<open>With tables, a 64-bit coordinate whose bit 31 is set comes back with all higher bits set.\<close>

lemma lut_decode_sign_extends:
  fixes x y :: u64
  assumes "bit x 31" "32 \<le> n" "n < 64"
  shows "bit (fst (decode2_lut (encode2_lut x y))) n"
proof -
  define m where "m = encode2_lut x y"
  have "bit m (2 * 31 + 0) \<longleftrightarrow> bit (coords2 x y 0) 31"
    unfolding m_def by (rule interleaved_bit [OF encode_lut_interleaves(1)]) simp_all
  then have b: "bit m 62" using assms(1) by (simp add: coords2_def)
  let ?e = "contraction2 0 ! unat (drop_bit (7 * 8) m AND 0xFF)"
  have "bit ?e 3" using bit_contraction2 [of 0 "drop_bit (7 * 8) m" 3] b by (simp add: bit_drop_bit_eq)
  then have "bit (push_bit (4 * 7) (ucast ?e :: u32)) 31" by (simp add: bit_simps)
  then have "bit (scast (push_bit (4 * 7) (ucast ?e :: u32)) :: u64) n" using assms(2,3) by (simp add: bit_signed_iff min_def)
  moreover have "(7::nat) \<in> set [0..<LENGTH(64) div 8]" by simp
  ultimately have "bit (lut_decode2 m (contraction2 0)) n" unfolding lut_decode2_def bit_fold_or by blast
  then show ?thesis by (simp add: decode2_lut_def m_def)
qed

end
