(* ===== verification/Arg_Cast.thy ===== *)
theory Arg_Cast
  imports Kibble_Prelude
begin

text \<open>
  Conversion of operands by the argument parser (\<open>argparse/argparse.cpp\<close>, \<open>StringCast\<close>, \<open>split\<close>): integers in any of the notations that
  \<open>std::stoi\<close> and \<open>std::stol\<close> accept with base 0, strings, and comma-separated lists. The conversions to floating point, \<open>std::stof\<close> and
  \<open>std::stod\<close>, are parameters.
\<close>

section \<open>Integers\<close>

datatype cast_error = Invalid_Argument | Out_Of_Range

definition isspace :: "char \<Rightarrow> bool" where
  "isspace c \<longleftrightarrow> of_char c = (32 :: nat) \<or> 9 \<le> (of_char c :: nat) \<and> of_char c \<le> (13 :: nat)"

definition digit_val :: "char \<Rightarrow> nat" where
  "digit_val c = (let n = of_char c in
     if 48 \<le> n \<and> n \<le> 57 then n - 48 else if 97 \<le> n \<and> n \<le> 122 then n - 87 else if 65 \<le> n \<and> n \<le> 90 then n - 55 else 99)"

definition is_digit :: "nat \<Rightarrow> char \<Rightarrow> bool" where
  "is_digit base c \<longleftrightarrow> digit_val c < base"

definition digits_val :: "nat \<Rightarrow> string \<Rightarrow> nat" where
  "digits_val base ds = foldl (\<lambda>n c. n * base + digit_val c) 0 ds"

fun strtol_sign :: "string \<Rightarrow> bool \<times> string" where
  "strtol_sign (c # s) = (if c = CHR ''-'' then (True, s) else if c = CHR ''+'' then (False, s) else (False, c # s))"
| "strtol_sign [] = (False, [])"

text \<open>Base 0: the prefix tells the base; \<open>0x\<close> counts only if a hexadecimal digit follows.\<close>

definition strtol_base :: "string \<Rightarrow> nat \<times> string" where
  "strtol_base s = (case s of
       z # x # d # r \<Rightarrow> if z = CHR ''0'' then (if (x = CHR ''x'' \<or> x = CHR ''X'') \<and> is_digit 16 d then (16, d # r) else (8, s)) else (10, s)
     | z # r \<Rightarrow> (if z = CHR ''0'' then 8 else 10, s)
     | [] \<Rightarrow> (10, s))"

text \<open>\<open>strtol\<close> with base 0 on unbounded integers; \<open>None\<close> if there are no digits.\<close>

definition strtol :: "string \<Rightarrow> int option" where
  "strtol s =
     (case strtol_sign (dropWhile isspace s) of (neg, s1) \<Rightarrow>
      case strtol_base s1 of (base, s2) \<Rightarrow>
      let ds = takeWhile (is_digit base) s2
      in if ds = [] then None else Some (if neg then - int (digits_val base ds) else int (digits_val base ds)))"

definition int_cast :: "nat \<Rightarrow> string \<Rightarrow> cast_error + int" where
  "int_cast w s = (case strtol s of None \<Rightarrow> Inl Invalid_Argument
     | Some n \<Rightarrow> if - (2 ^ (w - 1)) \<le> n \<and> n < 2 ^ (w - 1) then Inr n else Inl Out_Of_Range)"

definition stoi :: "string \<Rightarrow> cast_error + int" where
  "stoi = int_cast 32"

definition stol :: "string \<Rightarrow> cast_error + int" where
  "stol = int_cast 64"

section \<open>Lists\<close>

fun pieces :: "string \<Rightarrow> string list" where
  "pieces [] = [[]]"
| "pieces (c # s) = (if c = CHR '','' then [] # pieces s else (c # hd (pieces s)) # tl (pieces s))"

text \<open>The token iterator over what lies between the commas: an empty part after the last comma is no token.\<close>

definition split_operand :: "string \<Rightarrow> string list" where
  "split_operand s = (let ps = pieces s in if 1 < length ps \<and> last ps = [] then butlast ps else ps)"

fun cast_list :: "(string \<Rightarrow> cast_error + 'a) \<Rightarrow> string list \<Rightarrow> cast_error + 'a list" where
  "cast_list f [] = Inr []"
| "cast_list f (s # ss) = res_bind (f s) (\<lambda>x. res_bind (cast_list f ss) (\<lambda>xs. Inr (x # xs)))"

definition assign_list :: "(string \<Rightarrow> cast_error + 'a) \<Rightarrow> string \<Rightarrow> cast_error + 'a list" where
  "assign_list f operand = cast_list f (split_operand operand)"

section \<open>Values of options\<close>

datatype arg_type = Arg_None | Arg_Bool | Arg_Int | Arg_Long | Arg_Float | Arg_Double | Arg_String
  | Arg_Vec_Int | Arg_Vec_Long | Arg_Vec_Float | Arg_Vec_Double | Arg_Vec_String

text \<open>The value of an \<open>Option<T>\<close>, one constructor per instance of the template; a flag has no value but its \<open>is_set\<close>.\<close>

datatype 'f arg_value = Bool_Value | Int_Value int | Long_Value int | Float_Value 'f | Double_Value 'f | String_Value string
  | Ints_Value "int list" | Longs_Value "int list" | Floats_Value "'f list" | Doubles_Value "'f list" | Strings_Value "string list"

fun underlying_type :: "'f arg_value \<Rightarrow> arg_type" where
  "underlying_type Bool_Value = Arg_Bool"
| "underlying_type (Int_Value _) = Arg_Int"
| "underlying_type (Long_Value _) = Arg_Long"
| "underlying_type (Float_Value _) = Arg_Float"
| "underlying_type (Double_Value _) = Arg_Double"
| "underlying_type (String_Value _) = Arg_String"
| "underlying_type (Ints_Value _) = Arg_Vec_Int"
| "underlying_type (Longs_Value _) = Arg_Vec_Long"
| "underlying_type (Floats_Value _) = Arg_Vec_Float"
| "underlying_type (Doubles_Value _) = Arg_Vec_Double"
| "underlying_type (Strings_Value _) = Arg_Vec_String"

text \<open>The floating point operations of the host: the two conversions and zero.\<close>

record 'f float_casts =
  fzero :: 'f
  stof :: "string \<Rightarrow> cast_error + 'f"
  stod :: "string \<Rightarrow> cast_error + 'f"

text \<open>The specialisation of \<open>StringCast\<close> for the type of the value.\<close>

fun string_cast :: "'f float_casts \<Rightarrow> string \<Rightarrow> 'f arg_value \<Rightarrow> cast_error + 'f arg_value" where
  "string_cast fc s Bool_Value = Inr Bool_Value"
| "string_cast fc s (Int_Value _) = map_sum id Int_Value (stoi s)"
| "string_cast fc s (Long_Value _) = map_sum id Long_Value (stol s)"
| "string_cast fc s (Float_Value _) = map_sum id Float_Value (stof fc s)"
| "string_cast fc s (Double_Value _) = map_sum id Double_Value (stod fc s)"
| "string_cast fc s (String_Value _) = Inr (String_Value s)"
| "string_cast fc s (Ints_Value _) = map_sum id Ints_Value (assign_list stoi s)"
| "string_cast fc s (Longs_Value _) = map_sum id Longs_Value (assign_list stol s)"
| "string_cast fc s (Floats_Value _) = map_sum id Floats_Value (assign_list (stof fc) s)"
| "string_cast fc s (Doubles_Value _) = map_sum id Doubles_Value (assign_list (stod fc) s)"
| "string_cast fc s (Strings_Value _) = Inr (Strings_Value (split_operand s))"

text \<open>The value that \<open>new Option<T>()\<close> starts with, and the empty list of a type; types without an instance of the template have none.\<close>

fun init_value :: "'f float_casts \<Rightarrow> arg_type \<Rightarrow> 'f arg_value option" where
  "init_value fc Arg_None = None"
| "init_value fc Arg_Bool = Some Bool_Value"
| "init_value fc Arg_Int = Some (Int_Value 0)"
| "init_value fc Arg_Long = Some (Long_Value 0)"
| "init_value fc Arg_Float = Some (Float_Value (fzero fc))"
| "init_value fc Arg_Double = Some (Double_Value (fzero fc))"
| "init_value fc Arg_String = Some (String_Value [])"
| "init_value fc Arg_Vec_Int = Some (Ints_Value [])"
| "init_value fc Arg_Vec_Long = Some (Longs_Value [])"
| "init_value fc Arg_Vec_Float = Some (Floats_Value [])"
| "init_value fc Arg_Vec_Double = Some (Doubles_Value [])"
| "init_value fc Arg_Vec_String = Some (Strings_Value [])"

fun vector_of :: "arg_type \<Rightarrow> arg_type" where
  "vector_of Arg_Int = Arg_Vec_Int"
| "vector_of Arg_Long = Arg_Vec_Long"
| "vector_of Arg_Float = Arg_Vec_Float"
| "vector_of Arg_Double = Arg_Vec_Double"
| "vector_of Arg_String = Arg_Vec_String"
| "vector_of _ = Arg_None"

section \<open>Typing\<close>

text \<open>The integers of a value are in the range of their type.\<close>

definition in_range :: "nat \<Rightarrow> int \<Rightarrow> bool" where
  "in_range w n \<longleftrightarrow> - (2 ^ (w - 1)) \<le> n \<and> n < 2 ^ (w - 1)"

fun value_ok :: "'f arg_value \<Rightarrow> bool" where
  "value_ok (Int_Value n) = in_range 32 n"
| "value_ok (Long_Value n) = in_range 64 n"
| "value_ok (Ints_Value ns) = list_all (in_range 32) ns"
| "value_ok (Longs_Value ns) = list_all (in_range 64) ns"
| "value_ok _ = True"

lemma int_cast_range: "int_cast w s = Inr n \<Longrightarrow> in_range w n"
  by (auto simp: int_cast_def in_range_def split: option.splits if_splits)

lemma cast_list_all: "cast_list f ss = Inr xs \<Longrightarrow> (\<And>s x. f s = Inr x \<Longrightarrow> P x) \<Longrightarrow> list_all P xs"
  by (induction ss arbitrary: xs) (auto simp: res_bind_eq_Inr)

lemma cast_list_length: "cast_list f ss = Inr xs \<Longrightarrow> length xs = length ss"
  by (induction ss arbitrary: xs) (auto simp: res_bind_eq_Inr)

lemma map_sum_eq_Inr [simp]: "map_sum f g r = Inr y \<longleftrightarrow> (\<exists>x. r = Inr x \<and> y = g x)"
  by (cases r) auto

lemma string_cast_typed:
  assumes "string_cast fc s v = Inr v'"
  shows "underlying_type v' = underlying_type v" "value_ok v'"
  using assms int_cast_range [of 32 s] int_cast_range [of 64 s] cast_list_all [of stoi "split_operand s" _ "in_range 32"]
    cast_list_all [of stol "split_operand s" _ "in_range 64"] int_cast_range
  by (cases v; fastforce simp: stoi_def stol_def assign_list_def)+

lemma init_value_typed: "init_value fc t = Some v \<Longrightarrow> underlying_type v = t \<and> value_ok v"
  by (cases t) (auto simp: in_range_def)

section \<open>Decimal notation\<close>

lemma digit_char_val: "d < 10 \<Longrightarrow> digit_val (char_of (48 + d)) = d"
  by (simp add: digit_val_def)

lemma char_48: "char_of (48 :: nat) = CHR ''0''"
  by code_simp

lemma digit_char_eq: "(d::nat) < 10 \<Longrightarrow> (char_of (48 + d) :: char) = CHR ''0'' \<longleftrightarrow> d = 0"
proof
  assume "d < 10" "(char_of (48 + d) :: char) = CHR ''0''"
  then have "digit_val (CHR ''0'') = d" using digit_char_val by metis
  moreover have "digit_val (CHR ''0'') = 0" by code_simp
  ultimately show "d = 0" by simp
qed (simp add: char_48)

lemma show_nat_digits: "\<forall>c \<in> set (show_nat n). is_digit 10 c" "show_nat n \<noteq> []"
proof (induction n rule: show_nat.induct)
  case (1 n)
  { case 1
    show ?case using "1.IH"(1) by (subst show_nat.simps) (auto simp: is_digit_def digit_char_val) }
  { case 2
    show ?case by (subst show_nat.simps) simp }
qed

lemma show_nat_val: "digits_val 10 (show_nat n) = n"
proof (induction n rule: show_nat.induct)
  case (1 n)
  then show ?case by (subst show_nat.simps) (auto simp: digits_val_def digit_char_val)
qed

lemma show_nat_head: "0 < n \<Longrightarrow> hd (show_nat n) \<noteq> CHR ''0''"
proof (induction n rule: show_nat.induct)
  case (1 n)
  show ?case
  proof (cases "n < 10")
    case True
    then show ?thesis using "1.prems" by (subst show_nat.simps) (simp add: digit_char_eq)
  next
    case False
    then show ?thesis using 1 show_nat_digits(2) by (subst show_nat.simps) simp
  qed
qed

lemma decimal_digit: "is_digit 10 c \<Longrightarrow> \<not> isspace c \<and> c \<noteq> CHR ''-'' \<and> c \<noteq> CHR ''+'' \<and> c \<noteq> CHR '','' "
proof -
  assume "is_digit 10 c"
  then have c: "48 \<le> (of_char c :: nat)" "of_char c \<le> (57 :: nat)" by (auto simp: is_digit_def digit_val_def Let_def split: if_splits)
  have "of_char (CHR ''-'') = (45 :: nat)" "of_char (CHR ''+'') = (43 :: nat)" "of_char (CHR '','') = (44 :: nat)" by simp_all
  then show ?thesis using c by (auto simp: isspace_def)
qed

lemma strtol_base_dec: "c \<noteq> CHR ''0'' \<Longrightarrow> strtol_base (c # s) = (10, c # s)"
  by (auto simp: strtol_base_def split: list.splits)

text \<open>What is printed is read back; whatever follows the digits is ignored.\<close>

lemma digits_read:
  assumes "rest = [] \<or> \<not> is_digit 10 (hd rest)" "0 < n \<or> rest = []"
  shows "case strtol_base (show_nat n @ rest) of (base, s) \<Rightarrow>
    takeWhile (is_digit base) s \<noteq> [] \<and> digits_val base (takeWhile (is_digit base) s) = n"
proof (cases "n = 0")
  case True
  then have "show_nat n @ rest = ''0''" using assms(2) by (subst show_nat.simps) (simp add: char_48)
  moreover have "strtol_base ''0'' = (8, ''0'')" "takeWhile (is_digit 8) ''0'' = ''0''" "digits_val 8 ''0'' = 0" by code_simp+
  ultimately show ?thesis using True by simp
next
  case False
  obtain c ds where c: "show_nat n = c # ds" using show_nat_digits(2) [of n] by (cases "show_nat n") auto
  have "takeWhile (is_digit 10) rest = []" using assms(1) by (cases rest) auto
  then have "takeWhile (is_digit 10) (show_nat n @ rest) = show_nat n"
    using show_nat_digits(1) [of n] by (simp add: takeWhile_append2)
  moreover have "strtol_base (show_nat n @ rest) = (10, show_nat n @ rest)"
    using show_nat_head [of n] False c strtol_base_dec by simp
  ultimately show ?thesis using show_nat_val show_nat_digits(2) by simp
qed

lemma strtol_show:
  assumes "rest = [] \<or> \<not> is_digit 10 (hd rest)" "i \<noteq> 0 \<or> rest = []"
  shows "strtol (show_int i @ rest) = Some i"
proof -
  define n where "n = nat \<bar>i\<bar>"
  obtain c ds where c: "show_nat n = c # ds" using show_nat_digits(2) [of n] by (cases "show_nat n") auto
  have "is_digit 10 c" using show_nat_digits(1) [of n] c by simp
  note d = decimal_digit [OF this]
  have s: "strtol_sign (dropWhile isspace (show_int i @ rest)) = (i < 0, show_nat n @ rest)"
    using c d by (auto simp: show_int_def n_def isspace_def)
  have "0 < n \<or> rest = []" using assms(2) by (auto simp: n_def)
  from digits_read [OF assms(1) this] show ?thesis
    unfolding strtol_def s by (auto simp: n_def Let_def split: prod.splits)
qed

lemma int_cast_show:
  assumes "rest = [] \<or> \<not> is_digit 10 (hd rest)" "i \<noteq> 0 \<or> rest = []"
  shows "int_cast w (show_int i @ rest) = (if in_range w i then Inr i else Inl Out_Of_Range)"
  using strtol_show [OF assms] by (simp add: int_cast_def in_range_def)

section \<open>Comma-separated lists\<close>

fun join_commas :: "string list \<Rightarrow> string" where
  "join_commas [] = []"
| "join_commas [s] = s"
| "join_commas (s # t # ss) = s @ CHR '','' # join_commas (t # ss)"

lemma pieces_nonempty: "pieces s \<noteq> []"
  by (cases s) auto

lemma pieces_append: "CHR '','' \<notin> set s \<Longrightarrow> pieces (s @ CHR '','' # t) = s # pieces t"
  by (induction s) auto

lemma pieces_single: "CHR '','' \<notin> set s \<Longrightarrow> pieces s = [s]"
  by (induction s) auto

lemma pieces_join:
  assumes "ss \<noteq> []" "\<forall>s \<in> set ss. CHR '','' \<notin> set s"
  shows "pieces (join_commas ss) = ss"
  using assms by (induction ss rule: join_commas.induct) (auto simp: pieces_append pieces_single)

lemma split_join:
  assumes "ss \<noteq> []" "\<forall>s \<in> set ss. CHR '','' \<notin> set s" "length ss = 1 \<or> last ss \<noteq> []"
  shows "split_operand (join_commas ss) = ss"
  using assms pieces_join [OF assms(1,2)] by (auto simp: split_operand_def Let_def)

lemma show_int_no_comma: "CHR '','' \<notin> set (show_int i)" "show_int i \<noteq> []"
  using show_nat_digits decimal_digit by (auto simp: show_int_def)

lemma cast_list_map: "(\<And>x. x \<in> set xs \<Longrightarrow> f (g x) = Inr x) \<Longrightarrow> cast_list f (map g xs) = Inr xs"
  by (induction xs) auto

lemma ints_cast_show:
  assumes "ns \<noteq> []" "list_all (in_range w) ns"
  shows "assign_list (int_cast w) (join_commas (map show_int ns)) = Inr ns"
proof -
  have "split_operand (join_commas (map show_int ns)) = map show_int ns"
    using assms(1) show_int_no_comma by (intro split_join) (auto simp: last_map)
  moreover have "int_cast w (show_int n) = Inr n" if "n \<in> set ns" for n
    using int_cast_show [of "[]" n w] assms(2) that by (simp add: list_all_iff)
  ultimately show ?thesis by (simp add: assign_list_def cast_list_map)
qed

text \<open>Values and the operands that denote them: an integer in decimal, a string as it is, lists with commas.\<close>

fun print_value :: "'f arg_value \<Rightarrow> string" where
  "print_value (Int_Value n) = show_int n"
| "print_value (Long_Value n) = show_int n"
| "print_value (String_Value s) = s"
| "print_value (Ints_Value ns) = join_commas (map show_int ns)"
| "print_value (Longs_Value ns) = join_commas (map show_int ns)"
| "print_value (Strings_Value ss) = join_commas ss"
| "print_value _ = []"

text \<open>No operand denotes the empty list, or a list of strings of which one has a comma or, after another, the last one is empty.\<close>

fun printable :: "'f arg_value \<Rightarrow> bool" where
  "printable (Int_Value n) = in_range 32 n"
| "printable (Long_Value n) = in_range 64 n"
| "printable (String_Value s) = True"
| "printable (Ints_Value ns) = (ns \<noteq> [] \<and> list_all (in_range 32) ns)"
| "printable (Longs_Value ns) = (ns \<noteq> [] \<and> list_all (in_range 64) ns)"
| "printable (Strings_Value ss) = (ss \<noteq> [] \<and> list_all (\<lambda>s. CHR '','' \<notin> set s) ss \<and> (length ss = 1 \<or> last ss \<noteq> []))"
| "printable _ = False"

lemma string_cast_print:
  assumes "underlying_type v = underlying_type w" "printable w"
  shows "string_cast fc (print_value w) v = Inr w"
  using assms int_cast_show [of "[]" _ 32] int_cast_show [of "[]" _ 64]
  by (cases v; cases w) (auto simp: stoi_def stol_def ints_cast_show list_all_iff intro!: split_join)

text \<open>The limits of the notation: digits may be followed by anything, and a leading zero means octal.\<close>

lemma trailing_garbage_accepted: "stoi ''12abc'' = Inr 12" "stoi ''010'' = Inr 8" "stoi ''09'' = Inr 0"
  by code_simp+

end
