(* ===== verification/Arg_Parse.thy ===== *)
theory Arg_Parse
  imports Arg_Cast
begin

text \<open>
  \<open>kb::ap::ArgParse\<close> (\<open>argparse/argparse.h\<close>, \<open>argparse.cpp\<close>): declaration of flags, variables and positional arguments, exclusive sets and
  dependencies, and the parser. Exceptions are values; the end of the process in the triggers of \<open>-h\<close> and \<open>-v\<close> is a
  result of its own. Log entries keep what their messages are made of.
\<close>

section \<open>State\<close>

record 'f arg_option =
  short_name :: char
  dependency :: char
  is_set :: bool
  full_name :: string
  description :: string
  exclusive_sets :: "nat set"
  opt_value :: "'f arg_value"

abbreviation nul :: char where "nul \<equiv> CHR 0x00"

datatype trigger = Show_Version | Show_Usage

text \<open>The exceptions of the parser; the last one is \<open>std::out_of_range\<close>, which no handler but the outermost one catches.\<close>

datatype parse_error = Invalid_Operand string string | Unknown_Argument string | Supernumerary_Argument string
  | Missing_Operand string | Operand_Out_Of_Range

datatype arg_error = Parse_Failed parse_error | Missing_Required string | Incompatible_Arguments "char set"
  | Required_Arguments "char set"

record 'f arg_parse =
  arguments :: "char \<rightharpoonup> 'f arg_option"
  triggers :: "char \<rightharpoonup> trigger"
  positionals :: "'f arg_option list"
  exclusive_flags :: "char set list"
  exclusive_variables :: "char set list"
  full_to_short :: "string \<rightharpoonup> char"
  error_log :: "arg_error list"
  outputs :: "trigger list"
  valid_state :: bool
  was_run :: bool
  exit_on_special_command :: bool

section \<open>Declarations\<close>

definition new_option :: "char \<Rightarrow> string \<Rightarrow> string \<Rightarrow> 'f arg_value \<Rightarrow> 'f arg_option" where
  "new_option c name desc v = \<lparr>short_name = c, dependency = nul, is_set = False, full_name = name, description = desc,
     exclusive_sets = {}, opt_value = v\<rparr>"

text \<open>\<open>unordered_map::insert\<close> keeps an entry that is there already.\<close>

definition map_insert :: "'k \<Rightarrow> 'v \<Rightarrow> ('k \<rightharpoonup> 'v) \<Rightarrow> ('k \<rightharpoonup> 'v)" where
  "map_insert k v m = (if m k = None then m(k \<mapsto> v) else m)"

definition add_variable :: "char \<Rightarrow> string \<Rightarrow> string \<Rightarrow> 'f arg_value \<Rightarrow> 'f arg_parse \<Rightarrow> 'f arg_parse" where
  "add_variable c name desc v p = p\<lparr>arguments := map_insert c (new_option c name desc v) (arguments p),
     full_to_short := map_insert name c (full_to_short p)\<rparr>"

definition add_flag :: "char \<Rightarrow> string \<Rightarrow> string \<Rightarrow> 'f arg_parse \<Rightarrow> 'f arg_parse" where
  "add_flag c name desc = add_variable c name desc Bool_Value"

definition add_list :: "'f float_casts \<Rightarrow> arg_type \<Rightarrow> char \<Rightarrow> string \<Rightarrow> string \<Rightarrow> 'f arg_parse \<Rightarrow> 'f arg_parse option" where
  "add_list fc t c name desc p = map_option (\<lambda>v. add_variable c name desc v p) (init_value fc (vector_of t))"

definition add_positional :: "'f float_casts \<Rightarrow> arg_type \<Rightarrow> string \<Rightarrow> string \<Rightarrow> 'f arg_parse \<Rightarrow> 'f arg_parse option" where
  "add_positional fc t name desc p = map_option (\<lambda>v. p\<lparr>positionals := positionals p @ [new_option nul name desc v]\<rparr>) (init_value fc t)"

definition set_exit_on_special_command :: "bool \<Rightarrow> 'f arg_parse \<Rightarrow> 'f arg_parse" where
  "set_exit_on_special_command b p = p\<lparr>exit_on_special_command := b\<rparr>"

definition set_trigger :: "char \<Rightarrow> trigger \<Rightarrow> 'f arg_parse \<Rightarrow> 'f arg_parse" where
  "set_trigger c t p = p\<lparr>triggers := map_insert c t (triggers p)\<rparr>"

definition new_arg_parse :: "'f arg_parse" where
  "new_arg_parse =
     set_trigger (CHR ''h'') Show_Usage (set_trigger (CHR ''v'') Show_Version
       (add_flag (CHR ''h'') ''help'' ''Display this usage string and exit''
         (add_flag (CHR ''v'') ''version'' ''Display the program version string and exit''
           \<lparr>arguments = Map.empty, triggers = Map.empty, positionals = [], exclusive_flags = [], exclusive_variables = [],
            full_to_short = Map.empty, error_log = [], outputs = [], valid_state = False, was_run = False,
            exit_on_special_command = True\<rparr>)))"

text \<open>The characters that a map may have as keys.\<close>

definition all_chars :: "char list" where
  "all_chars = map char_of [0..<256 :: nat]"

definition is_flag :: "'f arg_option \<Rightarrow> bool" where
  "is_flag opt \<longleftrightarrow> underlying_type (opt_value opt) = Arg_Bool"

definition known :: "('f arg_option \<Rightarrow> bool) \<Rightarrow> char \<Rightarrow> 'f arg_parse \<Rightarrow> bool" where
  "known f c p \<longleftrightarrow> (case arguments p c of None \<Rightarrow> False | Some opt \<Rightarrow> f opt)"

definition join_set :: "nat \<Rightarrow> char set \<Rightarrow> 'f arg_parse \<Rightarrow> 'f arg_parse" where
  "join_set n S p = p\<lparr>arguments := (\<lambda>c. if c \<in> S
     then map_option (\<lambda>opt. opt\<lparr>exclusive_sets := insert n (exclusive_sets opt)\<rparr>) (arguments p c) else arguments p c)\<rparr>"

definition set_flags_exclusive :: "char set \<Rightarrow> 'f arg_parse \<Rightarrow> fault + 'f arg_parse" where
  "set_flags_exclusive S p = res_bind (k_assert (\<forall>c \<in> S. known is_flag c p)) (\<lambda>_.
     Inr ((join_set (length (exclusive_flags p)) S p)\<lparr>exclusive_flags := exclusive_flags p @ [S]\<rparr>))"

definition set_variables_exclusive :: "char set \<Rightarrow> 'f arg_parse \<Rightarrow> fault + 'f arg_parse" where
  "set_variables_exclusive S p = res_bind (k_assert (\<forall>c \<in> S. known (\<lambda>opt. \<not> is_flag opt) c p)) (\<lambda>_.
     Inr ((join_set (length (exclusive_variables p)) S p)\<lparr>exclusive_variables := exclusive_variables p @ [S]\<rparr>))"

definition compatible :: "'f arg_option \<Rightarrow> 'f arg_option \<Rightarrow> bool" where
  "compatible A B \<longleftrightarrow> exclusive_sets A \<inter> exclusive_sets B = {}"

definition set_dependency :: "char \<Rightarrow> char \<Rightarrow> 'f arg_parse \<Rightarrow> fault + 'f arg_parse" where
  "set_dependency key req p = (case (arguments p key, arguments p req) of
       (Some opt, Some opt') \<Rightarrow> res_bind (k_assert (compatible opt opt')) (\<lambda>_.
          Inr (p\<lparr>arguments := (arguments p)(key \<mapsto> opt\<lparr>dependency := req\<rparr>)\<rparr>))
     | _ \<Rightarrow> Inl Assertion_Failed)"

section \<open>Parsing\<close>

definition option_cast :: "'f float_casts \<Rightarrow> string \<Rightarrow> 'f arg_option \<Rightarrow> cast_error + 'f arg_option" where
  "option_cast fc s opt =
     (if is_flag opt then Inr (opt\<lparr>is_set := True\<rparr>) else map_sum id (\<lambda>v. opt\<lparr>opt_value := v\<rparr>) (string_cast fc s (opt_value opt)))"

text \<open>What the handlers around \<open>cast\<close> turn its exceptions into.\<close>

fun cast_failed :: "string \<Rightarrow> string \<Rightarrow> cast_error \<Rightarrow> parse_error" where
  "cast_failed name s Invalid_Argument = Invalid_Operand (''--'' @ name) s"
| "cast_failed name s Out_Of_Range = Operand_Out_Of_Range"

definition mark_set :: "char \<Rightarrow> 'f arg_parse \<Rightarrow> 'f arg_parse" where
  "mark_set c p = p\<lparr>arguments := (arguments p)(c := map_option (\<lambda>opt. opt\<lparr>is_set := True\<rparr>) (arguments p c))\<rparr>"

text \<open>\<open>operator[]\<close> of a string: the position after the last character holds the null character.\<close>

definition char_at :: "string \<Rightarrow> nat \<Rightarrow> char" where
  "char_at s i = (if i < length s then s ! i else nul)"

text \<open>The first unknown character of a group of flags, and the flags set before it.\<close>

fun try_set_flag_group :: "string \<Rightarrow> 'f arg_parse \<Rightarrow> char \<times> 'f arg_parse" where
  "try_set_flag_group [] p = (nul, p)"
| "try_set_flag_group (c # cs) p = (if known is_flag c p then try_set_flag_group cs (mark_set c p) else (c, p))"

definition try_set_positional :: "'f float_casts \<Rightarrow> nat \<Rightarrow> string \<Rightarrow> 'f arg_parse \<Rightarrow> parse_error + bool \<times> nat \<times> 'f arg_parse" where
  "try_set_positional fc k s p =
     (if k < length (positionals p)
      then (case option_cast fc s (positionals p ! k) of
              Inl e \<Rightarrow> Inl (cast_failed (full_name (positionals p ! k)) s e)
            | Inr opt \<Rightarrow> Inr (True, Suc k, p\<lparr>positionals := (positionals p)[k := opt\<lparr>is_set := True\<rparr>]\<rparr>))
      else Inr (False, k, p))"

text \<open>The result of the loop over the tokens; a trigger may end the process.\<close>

datatype 'f scan = Scan_Done "'f arg_parse" | Scan_Throw parse_error "'f arg_parse" | Scan_Exit "'f arg_parse"

definition fire_trigger :: "char \<Rightarrow> 'f arg_parse \<Rightarrow> bool \<times> 'f arg_parse" where
  "fire_trigger c p = (case triggers p c of None \<Rightarrow> (False, p)
     | Some t \<Rightarrow> (exit_on_special_command p, p\<lparr>outputs := outputs p @ [t]\<rparr>))"

definition arg_key :: "string \<Rightarrow> 'f arg_parse \<Rightarrow> char option" where
  "arg_key arg p =
     (let single_short = length arg = 2 \<and> char_at arg 0 = CHR ''-'';
          single_full = char_at arg 0 = CHR ''-'' \<and> char_at arg 1 = CHR ''-''
      in if single_full then (case full_to_short p (drop 2 arg) of None \<Rightarrow> None
           | Some c \<Rightarrow> Some (if single_short then char_at arg 1 else c))
         else Some (char_at arg 1))"

fun scan_args :: "'f float_casts \<Rightarrow> string list \<Rightarrow> nat \<Rightarrow> 'f arg_parse \<Rightarrow> 'f scan" where
  "scan_args fc [] k p = Scan_Done p"
| "scan_args fc (arg # rest) k p =
     (let single_short = length arg = 2 \<and> char_at arg 0 = CHR ''-'';
          single_full = char_at arg 0 = CHR ''-'' \<and> char_at arg 1 = CHR ''-'';
          positional_candidate = char_at arg 0 \<noteq> CHR ''-''
      in if single_short \<or> single_full
         then (case arg_key arg p of None \<Rightarrow> Scan_Throw (Unknown_Argument arg) p
               | Some key \<Rightarrow>
                 (case fire_trigger key p of (exits, p1) \<Rightarrow>
                  if exits then Scan_Exit p1
                  else (case arguments p1 key of None \<Rightarrow> Scan_Throw (Unknown_Argument arg) p1
                        | Some opt \<Rightarrow>
                          if is_flag opt then scan_args fc rest k (mark_set key p1)
                          else (case rest of [] \<Rightarrow> Scan_Throw (Missing_Operand arg) (mark_set key p1)
                                | operand # rest' \<Rightarrow>
                                  (case option_cast fc operand (opt\<lparr>is_set := True\<rparr>) of
                                     Inl e \<Rightarrow> Scan_Throw (cast_failed (full_name opt) operand e) (mark_set key p1)
                                   | Inr opt' \<Rightarrow> scan_args fc rest' k (p1\<lparr>arguments := (arguments p1)(key \<mapsto> opt')\<rparr>))))))
         else if \<not> positional_candidate
         then (case try_set_flag_group (drop 1 arg) p of (unknown, p1) \<Rightarrow>
               if unknown \<noteq> nul then Scan_Throw (Unknown_Argument [CHR ''-'', unknown]) p1 else scan_args fc rest k p1)
         else (case try_set_positional fc k arg p of
                 Inl e \<Rightarrow> Scan_Throw e p
               | Inr (ok, k', p1) \<Rightarrow> if ok then scan_args fc rest k' p1 else Scan_Throw (Supernumerary_Argument arg) p1))"

section \<open>Constraints\<close>

definition log_error :: "arg_error \<Rightarrow> 'f arg_parse \<Rightarrow> 'f arg_parse" where
  "log_error e p = p\<lparr>error_log := error_log p @ [e]\<rparr>"

definition check_positional_requirements :: "'f arg_parse \<Rightarrow> bool \<times> 'f arg_parse" where
  "check_positional_requirements p = (case filter (\<lambda>opt. \<not> is_set opt) (positionals p) of [] \<Rightarrow> (True, p)
     | opt # _ \<Rightarrow> (False, log_error (Missing_Required (full_name opt)) p))"

definition get_active :: "('f arg_option \<Rightarrow> bool) \<Rightarrow> 'f arg_parse \<Rightarrow> char set" where
  "get_active f p = set (filter (\<lambda>c. known (\<lambda>opt. f opt \<and> is_set opt) c p) all_chars)"

definition check_intersection :: "char set \<Rightarrow> char set list \<Rightarrow> 'f arg_parse \<Rightarrow> bool \<times> 'f arg_parse" where
  "check_intersection active exclusives p = (case filter (\<lambda>S. 1 < card (active \<inter> S)) exclusives of [] \<Rightarrow> (True, p)
     | S # _ \<Rightarrow> (False, log_error (Incompatible_Arguments (active \<inter> S)) p))"

definition check_exclusivity_constraints :: "'f arg_parse \<Rightarrow> bool \<times> 'f arg_parse" where
  "check_exclusivity_constraints p =
     (case check_intersection (get_active is_flag p) (exclusive_flags p) p of (ok, p1) \<Rightarrow>
      if \<not> ok then (False, p1) else check_intersection (get_active (\<lambda>opt. \<not> is_flag opt) p1) (exclusive_variables p1) p1)"

text \<open>The names of the missing arguments are looked up with \<open>at()\<close>, in a function that must not throw.\<close>

definition check_dependencies :: "'f arg_parse \<Rightarrow> fault + bool \<times> 'f arg_parse" where
  "check_dependencies p =
     (let active = get_active (\<lambda>_. True) p;
          required = (\<lambda>c. dependency (the (arguments p c))) ` active - {nul};
          missing = required - active
      in if missing = {} then Inr (True, p)
         else if \<exists>c \<in> missing. arguments p c = None then Inl Out_Of_Bounds
         else Inr (False, log_error (Required_Arguments missing) p))"

datatype 'f outcome = Exited "'f arg_parse" | Returned bool "'f arg_parse"

definition check_constraints :: "'f arg_parse \<Rightarrow> fault + 'f outcome" where
  "check_constraints p =
     (case check_positional_requirements p of (ok1, p1) \<Rightarrow>
      case check_exclusivity_constraints p1 of (ok2, p2) \<Rightarrow>
      res_bind (check_dependencies p2) (\<lambda>(ok3, p3).
      let ok = valid_state p \<and> ok1 \<and> ok2 \<and> ok3 in Inr (Returned ok (p3\<lparr>valid_state := ok\<rparr>))))"

definition parse_args :: "'f float_casts \<Rightarrow> string list \<Rightarrow> 'f arg_parse \<Rightarrow> fault + 'f outcome" where
  "parse_args fc argv p =
     res_bind (k_assert (argv \<noteq> [])) (\<lambda>_.
     case scan_args fc (tl argv) 0 (p\<lparr>valid_state := True, was_run := True\<rparr>) of
       Scan_Exit p1 \<Rightarrow> Inr (Exited p1)
     | Scan_Throw e p1 \<Rightarrow> check_constraints ((log_error (Parse_Failed e) p1)\<lparr>valid_state := False\<rparr>)
     | Scan_Done p1 \<Rightarrow> check_constraints p1)"

section \<open>The accepted command lines\<close>

text \<open>
  The spellings of an option: a dash and its short name, or two dashes and its full name. The token of two dashes spells the option
  with the short name dash, if some option has an empty full name.
\<close>

definition spelled :: "'f arg_parse \<Rightarrow> string \<Rightarrow> char \<Rightarrow> bool" where
  "spelled p tok c \<longleftrightarrow> tok = [CHR ''-'', c] \<and> (c \<noteq> CHR ''-'' \<or> full_to_short p [] \<noteq> None) \<or>
     (\<exists>name. name \<noteq> [] \<and> tok = CHR ''-'' # CHR ''-'' # name \<and> full_to_short p name = Some c)"

text \<open>The grammar, with what each production does to the parser; \<open>k\<close> counts the positional arguments.\<close>

inductive accepts :: "'f float_casts \<Rightarrow> nat \<Rightarrow> 'f arg_parse \<Rightarrow> string list \<Rightarrow> 'f arg_parse \<Rightarrow> bool" for fc where
  acc_end: "accepts fc k p [] p"
| acc_flag: "spelled p tok c \<Longrightarrow> fire_trigger c p = (False, q) \<Longrightarrow> arguments q c = Some opt \<Longrightarrow> is_flag opt \<Longrightarrow>
     accepts fc k (mark_set c q) toks p' \<Longrightarrow> accepts fc k p (tok # toks) p'"
| acc_variable: "spelled p tok c \<Longrightarrow> fire_trigger c p = (False, q) \<Longrightarrow> arguments q c = Some opt \<Longrightarrow> \<not> is_flag opt \<Longrightarrow>
     string_cast fc operand (opt_value opt) = Inr v \<Longrightarrow>
     accepts fc k (q\<lparr>arguments := (arguments q)(c \<mapsto> opt\<lparr>is_set := True, opt_value := v\<rparr>)\<rparr>) toks p' \<Longrightarrow>
     accepts fc k p (tok # operand # toks) p'"
| acc_group: "length cs \<noteq> 1 \<Longrightarrow> cs = [] \<or> hd cs \<noteq> CHR ''-'' \<Longrightarrow> \<forall>c \<in> set cs. known is_flag c p \<Longrightarrow>
     accepts fc k (fold mark_set cs p) toks p' \<Longrightarrow> accepts fc k p ((CHR ''-'' # cs) # toks) p'"
| acc_positional: "tok = [] \<or> hd tok \<noteq> CHR ''-'' \<Longrightarrow> k < length (positionals p) \<Longrightarrow> option_cast fc tok (positionals p ! k) = Inr opt \<Longrightarrow>
     accepts fc (Suc k) (p\<lparr>positionals := (positionals p)[k := opt\<lparr>is_set := True\<rparr>]\<rparr>) toks p' \<Longrightarrow> accepts fc k p (tok # toks) p'"

inductive_cases accepts_ConsE: "accepts fc k p (tok # toks) p'"

lemma fire_trigger_fields:
  "fire_trigger c p = (e, p1) \<Longrightarrow> arguments p1 = arguments p" "fire_trigger c p = (e, p1) \<Longrightarrow> full_to_short p1 = full_to_short p"
  "fire_trigger c p = (e, p1) \<Longrightarrow> positionals p1 = positionals p"
  by (auto simp: fire_trigger_def split: option.splits)

lemma mark_set_fields [simp]:
  "full_to_short (mark_set c p) = full_to_short p" "positionals (mark_set c p) = positionals p"
  "known is_flag d (mark_set c p) = known is_flag d p"
  by (auto simp: mark_set_def known_def is_flag_def split: option.splits)

lemma fold_mark_fields [simp]: "full_to_short (fold mark_set cs p) = full_to_short p"
  by (induction cs arbitrary: p) auto

text \<open>The shapes of a token, and the key that the parser finds for it.\<close>

definition single_arg :: "string \<Rightarrow> bool" where
  "single_arg arg \<longleftrightarrow> length arg = 2 \<and> char_at arg 0 = CHR ''-'' \<or> char_at arg 0 = CHR ''-'' \<and> char_at arg 1 = CHR ''-''"

lemma char_at_simps [simp]: "char_at [] i = nul" "char_at (c # s) 0 = c" "char_at (c # s) (Suc i) = char_at s i" "char_at (c # s) 1 = char_at s 0"
  by (simp_all add: char_at_def)

lemma single_arg_iff: "single_arg arg \<longleftrightarrow> (\<exists>c. arg = [CHR ''-'', c]) \<or> (\<exists>name. arg = CHR ''-'' # CHR ''-'' # name)"
proof (cases arg)
  case (Cons a as)
  show ?thesis
  proof (cases as)
    case Nil
    then show ?thesis using Cons by (simp add: single_arg_def)
  next
    case (Cons b bs)
    then have arg: "arg = a # b # bs" using \<open>arg = a # as\<close> by simp
    show ?thesis unfolding arg single_arg_def by (cases bs) auto
  qed
qed (simp add: single_arg_def)

lemma arg_key_short: "c \<noteq> CHR ''-'' \<Longrightarrow> arg_key [CHR ''-'', c] p = Some c"
  by (simp add: arg_key_def)

lemma arg_key_full:
  "arg_key (CHR ''-'' # CHR ''-'' # name) p =
     (if name = [] then map_option (\<lambda>_. CHR ''-'') (full_to_short p []) else full_to_short p name)"
  by (cases name) (simp_all add: arg_key_def option.case_eq_if map_option_case)

lemma arg_key_iff: "single_arg arg \<and> arg_key arg p = Some c \<longleftrightarrow> spelled p arg c"
proof (cases "single_arg arg")
  case True
  then consider (short) d where "arg = [CHR ''-'', d]" "d \<noteq> CHR ''-''" | (full) name where "arg = CHR ''-'' # CHR ''-'' # name"
    unfolding single_arg_iff by blast
  then show ?thesis
  proof cases
    case short
    then show ?thesis using True by (simp add: arg_key_short spelled_def) blast
  next
    case full
    then show ?thesis using True by (auto simp: arg_key_full spelled_def)
  qed
qed (auto simp: single_arg_iff spelled_def)

lemma group_iff: "\<not> single_arg arg \<and> char_at arg 0 = CHR ''-'' \<longleftrightarrow>
  (\<exists>cs. arg = CHR ''-'' # cs \<and> length cs \<noteq> 1 \<and> (cs = [] \<or> hd cs \<noteq> CHR ''-''))"
  by (cases arg; cases "tl arg") (auto simp: single_arg_iff char_at_def)

lemma positional_iff: "char_at arg 0 \<noteq> CHR ''-'' \<longleftrightarrow> arg = [] \<or> hd arg \<noteq> CHR ''-''"
  by (cases arg) (auto simp: char_at_def)

lemma flag_group:
  assumes "nul \<notin> set cs"
  shows "\<forall>c \<in> set cs. known is_flag c p \<Longrightarrow> try_set_flag_group cs p = (nul, fold mark_set cs p)"
    "\<not> (\<forall>c \<in> set cs. known is_flag c p) \<Longrightarrow> fst (try_set_flag_group cs p) \<noteq> nul"
  using assms by (induction cs arbitrary: p) auto

lemma scan_args_Cons:
  "scan_args fc (arg # rest) k p =
     (if single_arg arg
      then (case arg_key arg p of None \<Rightarrow> Scan_Throw (Unknown_Argument arg) p
            | Some key \<Rightarrow>
              (case fire_trigger key p of (exits, p1) \<Rightarrow>
               if exits then Scan_Exit p1
               else (case arguments p1 key of None \<Rightarrow> Scan_Throw (Unknown_Argument arg) p1
                     | Some opt \<Rightarrow>
                       if is_flag opt then scan_args fc rest k (mark_set key p1)
                       else (case rest of [] \<Rightarrow> Scan_Throw (Missing_Operand arg) (mark_set key p1)
                             | operand # rest' \<Rightarrow>
                               (case option_cast fc operand (opt\<lparr>is_set := True\<rparr>) of
                                  Inl e \<Rightarrow> Scan_Throw (cast_failed (full_name opt) operand e) (mark_set key p1)
                                | Inr opt' \<Rightarrow> scan_args fc rest' k (p1\<lparr>arguments := (arguments p1)(key \<mapsto> opt')\<rparr>))))))
      else if char_at arg 0 = CHR ''-''
      then (case try_set_flag_group (drop 1 arg) p of (unknown, p1) \<Rightarrow>
            if unknown \<noteq> nul then Scan_Throw (Unknown_Argument [CHR ''-'', unknown]) p1 else scan_args fc rest k p1)
      else (case try_set_positional fc k arg p of
              Inl e \<Rightarrow> Scan_Throw e p
            | Inr (ok, k', p1) \<Rightarrow> if ok then scan_args fc rest k' p1 else Scan_Throw (Supernumerary_Argument arg) p1))"
  by (simp add: single_arg_def Let_def)

declare scan_args.simps(2) [simp del]

lemma option_cast_variable:
  "\<not> is_flag opt \<Longrightarrow> option_cast fc s (opt\<lparr>is_set := True\<rparr>) = map_sum id (\<lambda>v. opt\<lparr>is_set := True, opt_value := v\<rparr>) (string_cast fc s (opt_value opt))"
  by (simp add: option_cast_def is_flag_def)

lemma accepts_scan:
  "accepts fc k p toks p' \<Longrightarrow> \<forall>tok \<in> set toks. nul \<notin> set tok \<Longrightarrow> scan_args fc toks k p = Scan_Done p'"
proof (induction rule: accepts.induct)
  case (acc_flag p tok c q opt k toks p')
  then have "single_arg tok" "arg_key tok p = Some c" using arg_key_iff [of tok p c] by auto
  then show ?case using acc_flag by (simp add: scan_args_Cons)
next
  case (acc_variable p tok c q opt operand v k toks p')
  then have "single_arg tok" "arg_key tok p = Some c" using arg_key_iff [of tok p c] by auto
  then show ?case using acc_variable by (simp add: scan_args_Cons option_cast_variable)
next
  case (acc_group cs p k toks p')
  then have "\<not> single_arg (CHR ''-'' # cs)" "char_at (CHR ''-'' # cs) 0 = CHR ''-''" using group_iff [of "CHR ''-'' # cs"] by auto
  moreover have "try_set_flag_group cs p = (nul, fold mark_set cs p)" using acc_group by (intro flag_group) auto
  ultimately show ?case using acc_group by (simp add: scan_args_Cons)
next
  case (acc_positional tok k p opt toks p')
  then have "char_at tok 0 \<noteq> CHR ''-''" using positional_iff by blast
  moreover from this have "\<not> single_arg tok" by (auto simp: single_arg_def)
  ultimately show ?case using acc_positional by (simp add: scan_args_Cons try_set_positional_def)
qed simp

lemma scan_accepts:
  "scan_args fc toks k p = Scan_Done p' \<Longrightarrow> \<forall>tok \<in> set toks. nul \<notin> set tok \<Longrightarrow> accepts fc k p toks p'"
proof (induction toks arbitrary: k p rule: length_induct)
  case (1 toks)
  show ?case
  proof (cases toks)
    case Nil
    then show ?thesis using "1.prems"(1) by (simp add: acc_end)
  next
    case (Cons arg rest)
    note run = "1.prems"(1) [unfolded Cons scan_args_Cons]
    have IH: "scan_args fc ts j q = Scan_Done p' \<Longrightarrow> length ts < length toks \<Longrightarrow>
        set ts \<subseteq> set toks \<Longrightarrow> accepts fc j q ts p'" for ts j q using "1.IH" "1.prems"(2) by blast
    consider "single_arg arg" | "\<not> single_arg arg" "char_at arg 0 = CHR ''-''" | "\<not> single_arg arg" "char_at arg 0 \<noteq> CHR ''-''" by blast
    then show ?thesis
    proof cases
      case 1
      with run obtain key p1 opt where k: "arg_key arg p = Some key" "fire_trigger key p = (False, p1)" "arguments p1 key = Some opt"
        by (auto split: option.splits prod.splits if_splits)
      have sp: "spelled p arg key" using arg_key_iff [of arg p key] 1 k(1) by blast
      show ?thesis
      proof (cases "is_flag opt")
        case True
        then show ?thesis unfolding Cons using run 1 k sp by (intro acc_flag [OF sp k(2,3)] IH) (auto simp: Cons)
      next
        case False
        with run 1 k obtain operand rest' v where o: "rest = operand # rest'" "string_cast fc operand (opt_value opt) = Inr v"
          "scan_args fc rest' k (p1\<lparr>arguments := (arguments p1)(key \<mapsto> opt\<lparr>is_set := True, opt_value := v\<rparr>)\<rparr>) = Scan_Done p'"
          by (auto simp: option_cast_variable split: list.splits sum.splits)
        show ?thesis unfolding Cons o(1) using o by (intro acc_variable [OF sp k(2,3) False o(2)] IH) (auto simp: Cons)
      qed
    next
      case 2
      then obtain cs where cs: "arg = CHR ''-'' # cs" "length cs \<noteq> 1" "cs = [] \<or> hd cs \<noteq> CHR ''-''" using group_iff [of arg] by blast
      have n: "nul \<notin> set cs" using "1.prems"(2) by (auto simp: Cons cs(1))
      have fl: "\<forall>c \<in> set cs. known is_flag c p" using flag_group(2) [OF n, of p] run 2 cs(1) by (auto split: prod.splits if_splits)
      then have "scan_args fc rest k (fold mark_set cs p) = Scan_Done p'" using flag_group(1) [OF n fl] run 2 cs(1) by simp
      then show ?thesis unfolding Cons cs(1) by (intro acc_group [OF cs(2,3) fl] IH) (auto simp: Cons)
    next
      case 3
      with run obtain opt where o: "k < length (positionals p)" "option_cast fc arg (positionals p ! k) = Inr opt"
        "scan_args fc rest (Suc k) (p\<lparr>positionals := (positionals p)[k := opt\<lparr>is_set := True\<rparr>]\<rparr>) = Scan_Done p'"
        by (auto simp: try_set_positional_def split: sum.splits if_splits)
      have "arg = [] \<or> hd arg \<noteq> CHR ''-''" using 3 positional_iff by blast
      then show ?thesis unfolding Cons using o by (intro acc_positional [OF _ o(1,2)] IH) (auto simp: Cons)
    qed
  qed
qed

end
