(* ===== verification/Arg_Correct.thy ===== *)
theory Arg_Correct
  imports Arg_Parse "HOL-Library.Sublist"
begin

text \<open>
  Correctness of the argument parser: parsing never changes what was declared, whatever the command line; the parsers that declarations
  and calls of \<open>parse\<close> can reach keep an invariant under which no assertion or lookup fails; and \<open>parse\<close> returns true for
  the command lines of the grammar whose options respect the constraints, and for no other.
\<close>

section \<open>What was declared stays\<close>

definition option_sig :: "'f arg_option \<Rightarrow> char \<times> char \<times> string \<times> string \<times> nat set \<times> arg_type" where
  "option_sig opt = (short_name opt, dependency opt, full_name opt, description opt, exclusive_sets opt, underlying_type (opt_value opt))"

definition same_decl :: "'f arg_parse \<Rightarrow> 'f arg_parse \<Rightarrow> bool" where
  "same_decl p q \<longleftrightarrow> (\<forall>c. map_option option_sig (arguments p c) = map_option option_sig (arguments q c)) \<and>
     map option_sig (positionals p) = map option_sig (positionals q) \<and> triggers p = triggers q \<and>
     exclusive_flags p = exclusive_flags q \<and> exclusive_variables p = exclusive_variables q \<and> full_to_short p = full_to_short q \<and>
     exit_on_special_command p = exit_on_special_command q"

definition values_ok :: "'f arg_parse \<Rightarrow> bool" where
  "values_ok p \<longleftrightarrow> (\<forall>c opt. arguments p c = Some opt \<longrightarrow> value_ok (opt_value opt)) \<and> list_all (\<lambda>opt. value_ok (opt_value opt)) (positionals p)"

text \<open>A step of the parser: it keeps the declarations, the error log and the status, and every value in the range of its type.\<close>

definition scan_step :: "'f arg_parse \<Rightarrow> 'f arg_parse \<Rightarrow> bool" where
  "scan_step p q \<longleftrightarrow> same_decl p q \<and> (values_ok p \<longrightarrow> values_ok q) \<and> error_log q = error_log p \<and> valid_state q = valid_state p \<and>
     was_run q = was_run p"

lemma scan_step_refl [simp]: "scan_step p p"
  by (simp add: scan_step_def same_decl_def)

lemma scan_step_trans [trans]: "scan_step p q \<Longrightarrow> scan_step q r \<Longrightarrow> scan_step p r"
  by (simp add: scan_step_def same_decl_def)

lemma option_sig_set [simp]: "option_sig (opt\<lparr>is_set := b\<rparr>) = option_sig opt"
  by (simp add: option_sig_def)

lemma option_cast_typed: "option_cast fc s opt = Inr opt' \<Longrightarrow> option_sig opt' = option_sig opt \<and> (value_ok (opt_value opt) \<longrightarrow> value_ok (opt_value opt'))"
  using string_cast_typed [of fc s "opt_value opt"] by (auto simp: option_cast_def option_sig_def split: if_splits)

lemma step_argument:
  assumes "arguments p c = Some opt" "option_sig opt' = option_sig opt" "value_ok (opt_value opt) \<longrightarrow> value_ok (opt_value opt')"
  shows "scan_step p (p\<lparr>arguments := (arguments p)(c \<mapsto> opt')\<rparr>)"
  using assms by (auto simp: scan_step_def same_decl_def values_ok_def)

lemma mark_set_Some: "arguments p c = Some opt \<Longrightarrow> mark_set c p = p\<lparr>arguments := (arguments p)(c \<mapsto> opt\<lparr>is_set := True\<rparr>)\<rparr>"
  by (simp add: mark_set_def)

lemma mark_set_None: "arguments p c = None \<Longrightarrow> mark_set c p = p"
  by (simp add: mark_set_def fun_upd_idem)

lemma step_mark_set [simp]: "scan_step p (mark_set c p)"
proof (cases "arguments p c")
  case (Some opt)
  then show ?thesis unfolding mark_set_Some [OF Some] using Some by (intro step_argument [OF Some]) simp_all
qed (simp add: mark_set_None)

lemma step_outputs: "scan_step p (p\<lparr>outputs := out\<rparr>)"
  by (simp add: scan_step_def same_decl_def values_ok_def)

lemma step_trigger: "fire_trigger c p = (e, p1) \<Longrightarrow> scan_step p p1"
  by (cases "triggers p c") (auto simp: fire_trigger_def step_outputs)

lemma step_flag_group: "try_set_flag_group cs p = (u, p1) \<Longrightarrow> scan_step p p1"
proof (induction cs arbitrary: p)
  case (Cons c cs)
  show ?case
  proof (cases "known is_flag c p")
    case True
    then have "scan_step (mark_set c p) p1" using Cons by simp
    then show ?thesis using scan_step_trans step_mark_set by blast
  qed (use Cons.prems in simp)
qed simp

lemma step_positional:
  assumes "try_set_positional fc k s p = Inr (ok, k', p1)"
  shows "scan_step p p1"
proof (cases "k < length (positionals p)")
  case True
  with assms obtain opt where o: "option_cast fc s (positionals p ! k) = Inr opt"
    and p1: "p1 = p\<lparr>positionals := (positionals p)[k := opt\<lparr>is_set := True\<rparr>]\<rparr>"
    by (auto simp: try_set_positional_def split: sum.splits)
  note t = option_cast_typed [OF o]
  have sigs: "map option_sig ((positionals p)[k := opt\<lparr>is_set := True\<rparr>]) = map option_sig (positionals p)"
    using t True by (simp add: map_update list_update_same_conv)
  have "list_all (\<lambda>opt. value_ok (opt_value opt)) ((positionals p)[k := opt\<lparr>is_set := True\<rparr>])"
    if "list_all (\<lambda>opt. value_ok (opt_value opt)) (positionals p)"
    using that t True set_update_subset_insert [of "positionals p" k "opt\<lparr>is_set := True\<rparr>"] by (auto simp: list_all_iff)
  then show ?thesis using sigs by (auto simp: p1 scan_step_def same_decl_def values_ok_def)
qed (use assms in \<open>simp add: try_set_positional_def\<close>)

fun scan_state :: "'f scan \<Rightarrow> 'f arg_parse" where
  "scan_state (Scan_Done p) = p"
| "scan_state (Scan_Throw e p) = p"
| "scan_state (Scan_Exit p) = p"

lemma step_single:
  assumes single: "single_arg arg"
    and IH: "\<And>ts j q. scan_step p q \<Longrightarrow> length ts \<le> length rest \<Longrightarrow> scan_step p (scan_state (scan_args fc ts j q))"
  shows "scan_step p (scan_state (scan_args fc (arg # rest) k p))"
proof (cases "arg_key arg p")
  case (Some key)
  obtain e p1 where ft: "fire_trigger key p = (e, p1)" by fastforce
  have s1: "scan_step p p1" using step_trigger ft by blast
  have s2: "scan_step p (mark_set key p1)" using s1 scan_step_trans step_mark_set by blast
  show ?thesis
  proof (cases "e \<or> arguments p1 key = None")
    case True
    then show ?thesis using single Some ft s1 by (auto simp: scan_args_Cons)
  next
    case False
    then obtain opt where opt: "arguments p1 key = Some opt" "\<not> e" by blast
    show ?thesis
    proof (cases "is_flag opt \<or> rest = []")
      case True
      then show ?thesis using single Some ft opt s2 IH [OF s2, of rest k] by (auto simp: scan_args_Cons)
    next
      case False
      then obtain s rest' where r: "rest = s # rest'" "\<not> is_flag opt" by (cases rest) auto
      show ?thesis
      proof (cases "option_cast fc s (opt\<lparr>is_set := True\<rparr>)")
        case (Inl err)
        then show ?thesis using single Some ft opt r s2 by (simp add: scan_args_Cons)
      next
        case (Inr opt')
        then have "scan_step p (p1\<lparr>arguments := (arguments p1)(key \<mapsto> opt')\<rparr>)"
          using option_cast_typed [OF Inr] by (intro scan_step_trans [OF s1] step_argument [OF opt(1)]) auto
        from IH [OF this, of rest' k] Inr show ?thesis using single Some ft opt r by (simp add: scan_args_Cons)
      qed
    qed
  qed
qed (simp add: single scan_args_Cons)

lemma step_scan: "scan_step p (scan_state (scan_args fc toks k p))"
proof (induction toks arbitrary: k p rule: length_induct)
  case (1 toks)
  show ?case
  proof (cases toks)
    case (Cons arg rest)
    have IH: "scan_step p q \<Longrightarrow> length ts \<le> length rest \<Longrightarrow> scan_step p (scan_state (scan_args fc ts j q))" for ts j q
      using "1.IH" scan_step_trans by (fastforce simp: Cons)
    consider (single) "single_arg arg" | (group) "\<not> single_arg arg" "char_at arg 0 = CHR ''-''"
      | (pos) "\<not> single_arg arg" "char_at arg 0 \<noteq> CHR ''-''" by blast
    then show ?thesis
    proof cases
      case single
      then show ?thesis unfolding Cons by (rule step_single) (rule IH)
    next
      case group
      then show ?thesis using step_flag_group
        by (auto simp: Cons scan_args_Cons split: prod.split intro!: IH)
    next
      case pos
      then show ?thesis using step_positional
        by (auto simp: Cons scan_args_Cons split: prod.split sum.split intro!: IH)
    qed
  qed simp
qed

section \<open>The constraints\<close>

text \<open>What an accepted set of options has to respect.\<close>

definition constraints_hold :: "'f arg_parse \<Rightarrow> bool" where
  "constraints_hold p \<longleftrightarrow> list_all is_set (positionals p) \<and>
     list_all (\<lambda>S. card (get_active is_flag p \<inter> S) \<le> 1) (exclusive_flags p) \<and>
     list_all (\<lambda>S. card (get_active (\<lambda>opt. \<not> is_flag opt) p \<inter> S) \<le> 1) (exclusive_variables p) \<and>
     (\<forall>c \<in> get_active (\<lambda>_. True) p. dependency (the (arguments p c)) \<noteq> nul \<longrightarrow> dependency (the (arguments p c)) \<in> get_active (\<lambda>_. True) p)"

lemma all_chars_UNIV: "set all_chars = UNIV"
  by (simp add: all_chars_def UNIV_char_of_nat atLeast_upt)

lemma get_active_iff: "c \<in> get_active f p \<longleftrightarrow> (\<exists>opt. arguments p c = Some opt \<and> f opt \<and> is_set opt)"
  by (auto simp: get_active_def all_chars_UNIV known_def split: option.splits)

text \<open>Logging an error changes nothing that a check looks at.\<close>

lemma log_error_fields [simp]:
  "get_active f (log_error e p) = get_active f p" "arguments (log_error e p) = arguments p" "positionals (log_error e p) = positionals p"
  "exclusive_flags (log_error e p) = exclusive_flags p" "exclusive_variables (log_error e p) = exclusive_variables p"
  "error_log (log_error e p) = error_log p @ [e]" "valid_state (log_error e p) = valid_state p"
  by (simp_all add: log_error_def get_active_def known_def)

text \<open>The log after a check: one more entry if it failed.\<close>

definition checked :: "bool \<Rightarrow> 'f arg_parse \<Rightarrow> 'f arg_parse \<Rightarrow> bool" where
  "checked ok p q \<longleftrightarrow> (if ok then q = p else \<exists>e. q = log_error e p)"

lemma first_failure:
  "\<exists>q. (case filter (\<lambda>x. \<not> P x) xs of [] \<Rightarrow> (True, p) | x # _ \<Rightarrow> (False, log_error (f x) p)) = (list_all P xs, q) \<and>
     checked (list_all P xs) p q"
proof (cases "list_all P xs")
  case True
  then have "filter (\<lambda>x. \<not> P x) xs = []" by (simp add: filter_empty_conv list_all_iff)
  then show ?thesis using True by (simp add: checked_def)
next
  case False
  then have "filter (\<lambda>x. \<not> P x) xs \<noteq> []" by (auto simp: filter_empty_conv list_all_iff)
  then obtain x ys where "filter (\<lambda>x. \<not> P x) xs = x # ys" by (meson neq_Nil_conv)
  then show ?thesis using False by (auto simp: checked_def)
qed

lemma positional_check: "\<exists>q. check_positional_requirements p = (list_all is_set (positionals p), q) \<and> checked (list_all is_set (positionals p)) p q"
  unfolding check_positional_requirements_def by (rule first_failure)

lemma intersection_check:
  "\<exists>q. check_intersection A ex p = (list_all (\<lambda>S. card (A \<inter> S) \<le> 1) ex, q) \<and> checked (list_all (\<lambda>S. card (A \<inter> S) \<le> 1) ex) p q"
  unfolding check_intersection_def linorder_not_le [symmetric, of 1] by (rule first_failure)

definition exclusive_ok :: "'f arg_parse \<Rightarrow> bool" where
  "exclusive_ok p \<longleftrightarrow> list_all (\<lambda>S. card (get_active is_flag p \<inter> S) \<le> 1) (exclusive_flags p) \<and>
     list_all (\<lambda>S. card (get_active (\<lambda>opt. \<not> is_flag opt) p \<inter> S) \<le> 1) (exclusive_variables p)"

lemma exclusivity_check: "\<exists>q. check_exclusivity_constraints p = (exclusive_ok p, q) \<and> checked (exclusive_ok p) p q"
proof -
  obtain q where q: "check_intersection (get_active is_flag p) (exclusive_flags p) p =
      (list_all (\<lambda>S. card (get_active is_flag p \<inter> S) \<le> 1) (exclusive_flags p), q)"
    and c: "checked (list_all (\<lambda>S. card (get_active is_flag p \<inter> S) \<le> 1) (exclusive_flags p)) p q"
    using intersection_check by blast
  show ?thesis
  proof (cases "list_all (\<lambda>S. card (get_active is_flag p \<inter> S) \<le> 1) (exclusive_flags p)")
    case True
    then have "q = p" using c by (simp add: checked_def)
    then show ?thesis using True q intersection_check [of "get_active (\<lambda>opt. \<not> is_flag opt) p" "exclusive_variables p" p]
      by (simp add: check_exclusivity_constraints_def exclusive_ok_def)
  next
    case False
    then show ?thesis using q c by (simp add: check_exclusivity_constraints_def exclusive_ok_def)
  qed
qed

definition dependencies_ok :: "'f arg_parse \<Rightarrow> bool" where
  "dependencies_ok p \<longleftrightarrow> (\<forall>c \<in> get_active (\<lambda>_. True) p. dependency (the (arguments p c)) \<noteq> nul \<longrightarrow>
     dependency (the (arguments p c)) \<in> get_active (\<lambda>_. True) p)"

definition deps_known :: "'f arg_parse \<Rightarrow> bool" where
  "deps_known p \<longleftrightarrow> (\<forall>c opt. arguments p c = Some opt \<longrightarrow> dependency opt \<noteq> nul \<longrightarrow> arguments p (dependency opt) \<noteq> None)"

lemma dependency_check:
  assumes "deps_known p"
  shows "\<exists>q. check_dependencies p = Inr (dependencies_ok p, q) \<and> checked (dependencies_ok p) p q"
proof -
  define missing where "missing = (\<lambda>c. dependency (the (arguments p c))) ` get_active (\<lambda>_. True) p - {nul} - get_active (\<lambda>_. True) p"
  have ok: "dependencies_ok p \<longleftrightarrow> missing = {}" by (auto simp: dependencies_ok_def missing_def)
  have "\<not> (\<exists>c \<in> missing. arguments p c = None)"
    using assms by (fastforce simp: missing_def deps_known_def get_active_iff)
  then show ?thesis unfolding ok check_dependencies_def Let_def missing_def [symmetric] by (auto simp: checked_def)
qed

lemma constraints_hold_iff: "constraints_hold p \<longleftrightarrow> list_all is_set (positionals p) \<and> exclusive_ok p \<and> dependencies_ok p"
  by (simp add: constraints_hold_def exclusive_ok_def dependencies_ok_def)

text \<open>A check that failed leaves the rest of the parser as it is, so the next one sees the same options.\<close>

lemma checked_fields:
  assumes "checked ok p q"
  shows "exclusive_ok q = exclusive_ok p" "dependencies_ok q = dependencies_ok p" "deps_known q = deps_known p"
    "ok \<longleftrightarrow> error_log q = error_log p" "prefix (error_log p) (error_log q)"
  using assms by (auto simp: checked_def exclusive_ok_def dependencies_ok_def deps_known_def split: if_splits)

lemma check_constraints_spec:
  assumes "deps_known p"
  obtains q where "check_constraints p = Inr (Returned (valid_state p \<and> constraints_hold p) (q\<lparr>valid_state := valid_state p \<and> constraints_hold p\<rparr>))"
    "constraints_hold p \<longleftrightarrow> error_log q = error_log p" "prefix (error_log p) (error_log q)" "constraints_hold p \<Longrightarrow> q = p"
    "same_decl p q" "arguments q = arguments p" "positionals q = positionals p" 
proof -
  obtain p1 where p1: "check_positional_requirements p = (list_all is_set (positionals p), p1)" "checked (list_all is_set (positionals p)) p p1"
    using positional_check by blast
  obtain p2 where p2: "check_exclusivity_constraints p1 = (exclusive_ok p1, p2)" "checked (exclusive_ok p1) p1 p2"
    using exclusivity_check by blast
  note f1 = checked_fields [OF p1(2)] and f2 = checked_fields [OF p2(2)]
  obtain p3 where p3: "check_dependencies p2 = Inr (dependencies_ok p2, p3)" "checked (dependencies_ok p2) p2 p3"
    using dependency_check [of p2] assms f1(3) f2(3) by blast
  note f3 = checked_fields [OF p3(2)]
  have ok: "constraints_hold p \<longleftrightarrow> list_all is_set (positionals p) \<and> exclusive_ok p1 \<and> dependencies_ok p2"
    using f1 f2 by (simp add: constraints_hold_iff)
  show thesis
  proof (rule that [of p3])
    show "check_constraints p = Inr (Returned (valid_state p \<and> constraints_hold p) (p3\<lparr>valid_state := valid_state p \<and> constraints_hold p\<rparr>))"
      using p1(1) p2(1) p3(1) ok by (simp add: check_constraints_def Let_def)
    show "prefix (error_log p) (error_log p3)" using f1(5) f2(5) f3(5) prefix_order.trans by blast
    show "constraints_hold p \<longleftrightarrow> error_log p3 = error_log p"
      using ok f1(4,5) f2(4,5) f3(4,5) by (metis prefix_order.antisym prefix_order.trans)
    show "constraints_hold p \<Longrightarrow> p3 = p" using ok p1(2) p2(2) p3(2) by (simp add: checked_def)
    show "same_decl p p3" "arguments p3 = arguments p" "positionals p3 = positionals p"
      using p1(2) p2(2) p3(2) by (auto simp: checked_def same_decl_def log_error_def split: if_splits)
  qed
qed

section \<open>The parsers that can be built\<close>

inductive ap_reach :: "'f float_casts \<Rightarrow> 'f arg_parse \<Rightarrow> bool" for fc where
  reach_new: "ap_reach fc new_arg_parse"
| reach_variable: "ap_reach fc p \<Longrightarrow> value_ok v \<Longrightarrow> ap_reach fc (add_variable c name desc v p)"
| reach_list: "ap_reach fc p \<Longrightarrow> add_list fc t c name desc p = Some q \<Longrightarrow> ap_reach fc q"
| reach_positional: "ap_reach fc p \<Longrightarrow> add_positional fc t name desc p = Some q \<Longrightarrow> ap_reach fc q"
| reach_exit: "ap_reach fc p \<Longrightarrow> ap_reach fc (set_exit_on_special_command b p)"
| reach_flags: "ap_reach fc p \<Longrightarrow> set_flags_exclusive S p = Inr q \<Longrightarrow> ap_reach fc q"
| reach_variables: "ap_reach fc p \<Longrightarrow> set_variables_exclusive S p = Inr q \<Longrightarrow> ap_reach fc q"
| reach_dependency: "ap_reach fc p \<Longrightarrow> set_dependency key req p = Inr q \<Longrightarrow> ap_reach fc q"
| reach_parse: "ap_reach fc p \<Longrightarrow> parse_args fc argv p = Inr (Returned ok q) \<Longrightarrow> ap_reach fc q"

text \<open>The exclusive sets that the indices of an option refer to.\<close>

definition sets_of :: "'f arg_parse \<Rightarrow> 'f arg_option \<Rightarrow> char set list" where
  "sets_of p opt = (if is_flag opt then exclusive_flags p else exclusive_variables p)"

definition option_ok :: "'f arg_parse \<Rightarrow> char \<Rightarrow> 'f arg_option \<Rightarrow> bool" where
  "option_ok p c opt \<longleftrightarrow> short_name opt = c \<and> (dependency opt \<noteq> nul \<longrightarrow> arguments p (dependency opt) \<noteq> None) \<and>
     exclusive_sets opt = {n. n < length (sets_of p opt) \<and> c \<in> sets_of p opt ! n}"

definition decl_ok :: "'f arg_parse \<Rightarrow> bool" where
  "decl_ok p \<longleftrightarrow> (\<forall>c opt. arguments p c = Some opt \<longrightarrow> option_ok p c opt) \<and>
     (\<forall>S \<in> set (exclusive_flags p). \<forall>c \<in> S. known is_flag c p) \<and> (\<forall>S \<in> set (exclusive_variables p). \<forall>c \<in> S. known (\<lambda>opt. \<not> is_flag opt) c p) \<and>
     (\<forall>name c. full_to_short p name = Some c \<longrightarrow> arguments p c \<noteq> None) \<and>
     triggers p = [CHR ''h'' \<mapsto> Show_Usage, CHR ''v'' \<mapsto> Show_Version] \<and> known is_flag (CHR ''h'') p \<and> known is_flag (CHR ''v'') p"

definition parser_ok :: "'f arg_parse \<Rightarrow> bool" where
  "parser_ok p \<longleftrightarrow> decl_ok p \<and> values_ok p"

lemma decl_ok_deps: "decl_ok p \<Longrightarrow> deps_known p"
  by (auto simp: decl_ok_def option_ok_def deps_known_def)

lemma is_flag_sig: "option_sig opt = option_sig opt' \<Longrightarrow> is_flag opt = is_flag opt'"
  by (simp add: option_sig_def is_flag_def)

lemma same_decl_known:
  assumes "same_decl p q" "\<And>opt opt'. option_sig opt = option_sig opt' \<Longrightarrow> f opt = f opt'"
  shows "known f c q = known f c p"
proof -
  have "map_option option_sig (arguments p c) = map_option option_sig (arguments q c)" using assms(1) by (simp add: same_decl_def)
  then show ?thesis by (cases "arguments p c"; cases "arguments q c") (auto simp: known_def dest: assms(2))
qed

lemma same_decl_None: "same_decl p q \<Longrightarrow> arguments q c = None \<longleftrightarrow> arguments p c = None"
  by (metis same_decl_def option.map_disc_iff)

lemma same_decl_fields:
  assumes "same_decl p q"
  shows "exclusive_flags q = exclusive_flags p" "exclusive_variables q = exclusive_variables p" "full_to_short q = full_to_short p"
    "triggers q = triggers p" "exit_on_special_command q = exit_on_special_command p"
  using assms by (simp_all add: same_decl_def)

lemma same_decl_ok:
  assumes s: "same_decl p q" and p: "decl_ok p"
  shows "decl_ok q"
proof -
  have opts: "option_ok q c opt" if o: "arguments q c = Some opt" for c opt
  proof -
    have "map_option option_sig (arguments p c) = Some (option_sig opt)" using s o by (simp add: same_decl_def)
    then obtain opt' where o': "arguments p c = Some opt'" "option_sig opt' = option_sig opt" by auto
    moreover have "sets_of q opt = sets_of p opt'" using s is_flag_sig [OF o'(2)] by (simp add: sets_of_def same_decl_def)
    moreover have "option_ok p c opt'" using p o'(1) by (simp add: decl_ok_def)
    ultimately show ?thesis using same_decl_None [OF s] by (simp add: option_ok_def option_sig_def)
  qed
  have kn: "known is_flag c q = known is_flag c p" "known (\<lambda>opt. \<not> is_flag opt) c q = known (\<lambda>opt. \<not> is_flag opt) c p" for c
    by (rule same_decl_known [OF s], drule is_flag_sig, simp)+
  show ?thesis using p opts unfolding decl_ok_def same_decl_fields [OF s] kn same_decl_None [OF s] by blast
qed

text \<open>Every declaration and every call of \<open>parse\<close> keeps the invariant.\<close>

lemma decl_okD:
  assumes "decl_ok p"
  shows "arguments p c = Some opt \<Longrightarrow> option_ok p c opt" "S \<in> set (exclusive_flags p) \<Longrightarrow> c \<in> S \<Longrightarrow> known is_flag c p"
    "S \<in> set (exclusive_variables p) \<Longrightarrow> c \<in> S \<Longrightarrow> known (\<lambda>opt. \<not> is_flag opt) c p" "full_to_short p name = Some c \<Longrightarrow> arguments p c \<noteq> None"
    "triggers p = [CHR ''h'' \<mapsto> Show_Usage, CHR ''v'' \<mapsto> Show_Version]" "known is_flag (CHR ''h'') p" "known is_flag (CHR ''v'') p"
  using assms unfolding decl_ok_def by blast+

lemma known_Some: "known f c p \<longleftrightarrow> (\<exists>opt. arguments p c = Some opt \<and> f opt)"
  by (simp add: known_def split: option.split)

lemma not_in_sets:
  assumes "decl_ok p" "arguments p c = None"
  shows "S \<in> set (exclusive_flags p) \<Longrightarrow> c \<notin> S" "S \<in> set (exclusive_variables p) \<Longrightarrow> c \<notin> S"
  using decl_okD(2,3) [OF assms(1)] assms(2) by (fastforce simp: known_Some)+

lemma add_variable_fields [simp]:
  "exclusive_flags (add_variable c name desc v p) = exclusive_flags p" "exclusive_variables (add_variable c name desc v p) = exclusive_variables p"
  "triggers (add_variable c name desc v p) = triggers p" "positionals (add_variable c name desc v p) = positionals p"
  "full_to_short (add_variable c name desc v p) = map_insert name c (full_to_short p)"
  by (simp_all add: add_variable_def)

lemma option_ok_mono:
  assumes "option_ok p c opt" "\<And>d. arguments p d \<noteq> None \<Longrightarrow> arguments q d \<noteq> None" "exclusive_flags q = exclusive_flags p"
    "exclusive_variables q = exclusive_variables p"
  shows "option_ok q c opt"
  using assms unfolding option_ok_def sets_of_def by presburger

lemma add_variable_ok:
  assumes p: "parser_ok p" and v: "value_ok v"
  shows "parser_ok (add_variable c name desc v p)"
proof (cases "arguments p c")
  case None
  let ?q = "add_variable c name desc v p" and ?o = "new_option c name desc v"
  have d: "decl_ok p" using p by (simp add: parser_ok_def)
  have args: "arguments ?q = (arguments p)(c \<mapsto> ?o)" using None by (simp add: add_variable_def map_insert_def)
  have "option_ok ?q c ?o"
    using not_in_sets [OF d None] by (auto simp: option_ok_def new_option_def sets_of_def)
  moreover have "option_ok ?q e opt" if "arguments p e = Some opt" for e opt
    using decl_okD(1) [OF d that] by (rule option_ok_mono) (auto simp: args)
  moreover have "known f e p \<Longrightarrow> known f e ?q" for f e using None by (auto simp: known_def args)
  moreover have "map_insert name c (full_to_short p) n = Some e \<Longrightarrow> ((arguments p)(c \<mapsto> ?o)) e \<noteq> None" for n e
    using decl_okD(4) [OF d] by (auto simp: map_insert_def split: if_splits)
  ultimately have "decl_ok ?q" using decl_okD(2,3,5,6,7) [OF d] unfolding decl_ok_def args by (auto split: if_splits)
  moreover have "values_ok ?q" using p v by (auto simp: parser_ok_def values_ok_def args new_option_def)
  ultimately show ?thesis by (simp add: parser_ok_def)
next
  case (Some opt)
  have "add_variable c name desc v p = p\<lparr>full_to_short := map_insert name c (full_to_short p)\<rparr>"
    using Some by (simp add: add_variable_def map_insert_def)
  moreover have "parser_ok (p\<lparr>full_to_short := map_insert name c (full_to_short p)\<rparr>)"
    using p Some by (simp add: parser_ok_def decl_ok_def values_ok_def option_ok_def sets_of_def known_def map_insert_def)
  ultimately show ?thesis by simp
qed

lemma new_parser_ok: "parser_ok new_arg_parse"
proof -
  have *: "arguments new_arg_parse = [CHR ''v'' \<mapsto> new_option (CHR ''v'') ''version'' ''Display the program version string and exit'' Bool_Value,
      CHR ''h'' \<mapsto> new_option (CHR ''h'') ''help'' ''Display this usage string and exit'' Bool_Value]"
    "triggers new_arg_parse = [CHR ''h'' \<mapsto> Show_Usage, CHR ''v'' \<mapsto> Show_Version]"
    "full_to_short new_arg_parse = [''version'' \<mapsto> CHR ''v'', ''help'' \<mapsto> CHR ''h'']"
    "positionals new_arg_parse = []" "exclusive_flags new_arg_parse = []" "exclusive_variables new_arg_parse = []"
    by (simp_all add: new_arg_parse_def set_trigger_def add_flag_def add_variable_def map_insert_def fun_upd_twist)
  show ?thesis by (auto simp: parser_ok_def decl_ok_def values_ok_def option_ok_def known_def * is_flag_def new_option_def sets_of_def
      split: if_splits)
qed

lemma add_list_ok: "parser_ok p \<Longrightarrow> add_list fc t c name desc p = Some q \<Longrightarrow> parser_ok q"
  using init_value_typed add_variable_ok by (fastforce simp: add_list_def)

lemma add_positional_ok: "parser_ok p \<Longrightarrow> add_positional fc t name desc p = Some q \<Longrightarrow> parser_ok q"
  using init_value_typed [of fc t]
  by (auto simp: add_positional_def parser_ok_def decl_ok_def values_ok_def option_ok_def sets_of_def known_def new_option_def)

lemma set_exit_ok: "parser_ok p \<Longrightarrow> parser_ok (set_exit_on_special_command b p)"
  by (simp add: set_exit_on_special_command_def parser_ok_def decl_ok_def values_ok_def option_ok_def sets_of_def known_def)

lemma set_dependency_ok:
  assumes p: "parser_ok p" and q: "set_dependency key req p = Inr q"
  shows "parser_ok q"
proof -
  have d: "decl_ok p" using p by (simp add: parser_ok_def)
  from q obtain opt opt' where o: "arguments p key = Some opt" "arguments p req = Some opt'"
    and q': "q = p\<lparr>arguments := (arguments p)(key \<mapsto> opt\<lparr>dependency := req\<rparr>)\<rparr>"
    by (auto simp: set_dependency_def res_bind_eq_Inr split: option.splits)
  have N: "arguments q c \<noteq> None \<longleftrightarrow> arguments p c \<noteq> None" for c using o by (auto simp: q')
  have "option_ok q key (opt\<lparr>dependency := req\<rparr>)"
    using decl_okD(1) [OF d o(1)] o(2) by (auto simp: option_ok_def q' sets_of_def is_flag_def)
  moreover have "option_ok q e r" if "arguments p e = Some r" for e r
    using decl_okD(1) [OF d that] by (rule option_ok_mono) (use N in \<open>auto simp: q'\<close>)
  moreover have "known is_flag e q = known is_flag e p" "known (\<lambda>opt. \<not> is_flag opt) e q = known (\<lambda>opt. \<not> is_flag opt) e p" for e
    using o by (auto simp: known_def q' is_flag_def)
  ultimately have "decl_ok q" using decl_okD(2-7) [OF d] N unfolding decl_ok_def by (auto simp: q' split: if_splits)
  moreover have "values_ok q" using p o by (auto simp: parser_ok_def values_ok_def q')
  ultimately show ?thesis by (simp add: parser_ok_def)
qed

lemma append_indices:
  "{n. n < length (Ss @ [S]) \<and> c \<in> (Ss @ [S]) ! n} = {n. n < length Ss \<and> c \<in> Ss ! n} \<union> (if c \<in> S then {length Ss} else {})"
  by (auto simp: nth_append less_Suc_eq)

text \<open>Both kinds of exclusive sets at once: \<open>b\<close> tells whether the new set is one of flags.\<close>

lemma join_sets_ok:
  assumes p: "parser_ok p" and S: "\<forall>c \<in> S. known (\<lambda>opt. is_flag opt = b) c p"
    and args: "arguments q = arguments (join_set (length (if b then exclusive_flags p else exclusive_variables p)) S p)"
    and sets: "exclusive_flags q = exclusive_flags p @ (if b then [S] else [])" "exclusive_variables q = exclusive_variables p @ (if b then [] else [S])"
    and rest: "full_to_short q = full_to_short p" "triggers q = triggers p" "positionals q = positionals p"
  shows "parser_ok q"
proof -
  have d: "decl_ok p" using p by (simp add: parser_ok_def)
  have lookup: "arguments q c = Some r \<longleftrightarrow> (\<exists>opt. arguments p c = Some opt \<and>
      r = (if c \<in> S then opt\<lparr>exclusive_sets := insert (length (if b then exclusive_flags p else exclusive_variables p)) (exclusive_sets opt)\<rparr> else opt))" for c r
    by (auto simp: args join_set_def)
  have N: "arguments q c \<noteq> None \<longleftrightarrow> arguments p c \<noteq> None" for c by (auto simp: args join_set_def)
  have "option_ok q c r" if r: "arguments q c = Some r" for c r
  proof -
    from r obtain opt where o: "arguments p c = Some opt"
      and ro: "r = (if c \<in> S then opt\<lparr>exclusive_sets := insert (length (if b then exclusive_flags p else exclusive_variables p)) (exclusive_sets opt)\<rparr> else opt)"
      unfolding lookup by blast
    have f: "is_flag r = is_flag opt" by (simp add: ro is_flag_def)
    have b: "c \<in> S \<Longrightarrow> is_flag opt = b" using S o by (auto simp: known_Some)
    have "sets_of q r = sets_of p opt @ (if is_flag opt = b then [S] else [])" using f by (simp add: sets_of_def sets)
    moreover have "c \<in> S \<Longrightarrow> sets_of p opt = (if b then exclusive_flags p else exclusive_variables p)" using b by (simp add: sets_of_def)
    ultimately show ?thesis using decl_okD(1) [OF d o] b N append_indices [of "sets_of p opt" S c]
      by (auto simp: option_ok_def ro)
  qed
  moreover have "known is_flag c q = known is_flag c p" "known (\<lambda>opt. \<not> is_flag opt) c q = known (\<lambda>opt. \<not> is_flag opt) c p" for c
    by (auto simp: known_def args join_set_def is_flag_def split: option.split)
  ultimately have "decl_ok q" using decl_okD(2-7) [OF d] S N unfolding decl_ok_def sets rest by (cases b) auto
  moreover have "values_ok q" using p by (auto simp: parser_ok_def values_ok_def lookup rest)
  ultimately show ?thesis by (simp add: parser_ok_def)
qed

lemma set_flags_exclusive_ok: "parser_ok p \<Longrightarrow> set_flags_exclusive S p = Inr q \<Longrightarrow> parser_ok q"
  by (rule join_sets_ok [of p S True]) (auto simp: set_flags_exclusive_def res_bind_eq_Inr k_assert_def join_set_def split: if_splits)

lemma set_variables_exclusive_ok: "parser_ok p \<Longrightarrow> set_variables_exclusive S p = Inr q \<Longrightarrow> parser_ok q"
  by (rule join_sets_ok [of p S False]) (auto simp: set_variables_exclusive_def res_bind_eq_Inr k_assert_def join_set_def split: if_splits)

lemma scan_exit: "scan_args fc toks k p = Scan_Exit q \<Longrightarrow> exit_on_special_command q \<and> outputs q \<noteq> []"
proof (induction toks arbitrary: k p rule: length_induct)
  case (1 toks)
  show ?case
  proof (cases toks)
    case (Cons arg rest)
    have IH: "scan_args fc ts j r = Scan_Exit q \<Longrightarrow> length ts \<le> length rest \<Longrightarrow> exit_on_special_command q \<and> outputs q \<noteq> []" for ts j r
      using "1.IH" unfolding Cons by (metis length_Cons less_Suc_eq_le)
    have exits: "fire_trigger c p = (True, r) \<Longrightarrow> exit_on_special_command r \<and> outputs r \<noteq> []" for c r
      by (cases "triggers p c") (auto simp: fire_trigger_def)
    show ?thesis using "1.prems" IH exits unfolding Cons scan_args_Cons
      by (auto split: if_splits option.splits prod.splits list.splits sum.splits)
  qed (use "1.prems" in simp)
qed

text \<open>What \<open>parse\<close> does, by the result of its loop.\<close>

lemma values_ok_args: "arguments q = arguments p \<Longrightarrow> positionals q = positionals p \<Longrightarrow> values_ok q = values_ok p"
  by (simp add: values_ok_def)

lemma same_decl_trans: "same_decl p q \<Longrightarrow> same_decl q r \<Longrightarrow> same_decl p r"
  by (simp add: same_decl_def)

lemma same_decl_status [simp]:
  "same_decl p (q\<lparr>valid_state := b\<rparr>) = same_decl p q" "same_decl (p\<lparr>valid_state := b\<rparr>) q = same_decl p q"
  "same_decl (p\<lparr>was_run := b\<rparr>) q = same_decl p q" "same_decl p (log_error e q) = same_decl p q"
  "same_decl (log_error e p) q = same_decl p q"
  by (simp_all add: same_decl_def log_error_def)

lemma values_ok_status [simp]:
  "values_ok (p\<lparr>valid_state := b\<rparr>) = values_ok p" "values_ok (p\<lparr>was_run := b\<rparr>) = values_ok p" "values_ok (log_error e p) = values_ok p"
  by (simp_all add: values_ok_def log_error_def)

definition parse_post :: "'f arg_parse \<Rightarrow> bool \<Rightarrow> 'f arg_parse \<Rightarrow> bool" where
  "parse_post p ok q \<longleftrightarrow> same_decl p q \<and> values_ok q \<and> (ok \<longleftrightarrow> error_log q = error_log p) \<and> prefix (error_log p) (error_log q) \<and> valid_state q = ok"

lemma constraints_post:
  assumes "same_decl p p1" "values_ok p1" "decl_ok p" "prefix (error_log p) (error_log p1)" "valid_state p1 \<longleftrightarrow> error_log p1 = error_log p"
  obtains q where "check_constraints p1 = Inr (Returned (valid_state p1 \<and> constraints_hold p1) q)"
    "parse_post p (valid_state p1 \<and> constraints_hold p1) q" "valid_state p1 \<Longrightarrow> constraints_hold p1 \<Longrightarrow> q = p1"
proof -
  have "deps_known p1" using decl_ok_deps same_decl_ok [OF assms(1,3)] by blast
  from check_constraints_spec [OF this] obtain r
    where r: "check_constraints p1 = Inr (Returned (valid_state p1 \<and> constraints_hold p1) (r\<lparr>valid_state := valid_state p1 \<and> constraints_hold p1\<rparr>))"
      "constraints_hold p1 \<longleftrightarrow> error_log r = error_log p1" "prefix (error_log p1) (error_log r)" "constraints_hold p1 \<Longrightarrow> r = p1"
      "same_decl p1 r" "arguments r = arguments p1" "positionals r = positionals p1" by blast
  let ?q = "r\<lparr>valid_state := valid_state p1 \<and> constraints_hold p1\<rparr>"
  have "error_log r = error_log p \<longleftrightarrow> valid_state p1 \<and> constraints_hold p1"
    using assms(4,5) r(2,3) by (metis prefix_order.antisym)
  moreover have "prefix (error_log p) (error_log r)" using assms(4) r(3) prefix_order.trans by blast
  ultimately have "parse_post p (valid_state p1 \<and> constraints_hold p1) ?q"
    using same_decl_trans [OF assms(1) r(5)] assms(2) values_ok_args [OF r(6,7)] by (auto simp: parse_post_def)
  then show thesis using r(1,4) by (intro that [of ?q]) auto
qed

lemma parse_cases:
  assumes "parser_ok p"
  defines "p0 \<equiv> p\<lparr>valid_state := True, was_run := True\<rparr>"
  obtains (exit) p1 where "scan_args fc toks 0 p0 = Scan_Exit p1" "parse_args fc (prog # toks) p = Inr (Exited p1)" "scan_step p0 p1"
  | (thrown) e p1 q where "scan_args fc toks 0 p0 = Scan_Throw e p1" "parse_args fc (prog # toks) p = Inr (Returned False q)" "parse_post p False q"
  | (finished) p1 q where "scan_args fc toks 0 p0 = Scan_Done p1" "parse_args fc (prog # toks) p = Inr (Returned (constraints_hold p1) q)"
      "parse_post p (constraints_hold p1) q" "constraints_hold p1 \<Longrightarrow> q = p1"
proof -
  have d: "decl_ok p" and v: "values_ok p0" using assms by (auto simp: parser_ok_def p0_def)
  have step: "scan_step p0 (scan_state (scan_args fc toks 0 p0))" by (rule step_scan)
  show thesis
  proof (cases "scan_args fc toks 0 p0")
    case (Scan_Exit p1)
    then show thesis using exit step by (simp add: parse_args_def p0_def)
  next
    case (Scan_Throw e p1)
    let ?p1 = "(log_error (Parse_Failed e) p1)\<lparr>valid_state := False\<rparr>"
    have s: "scan_step p0 p1" using step Scan_Throw by simp
    obtain q where "check_constraints ?p1 = Inr (Returned False q)" "parse_post p False q"
      by (rule constraints_post [of p ?p1]) (use s v d in \<open>auto simp: scan_step_def p0_def\<close>)
    then show thesis using Scan_Throw by (intro thrown [of e p1 q]) (auto simp: parse_args_def p0_def)
  next
    case (Scan_Done p1)
    have s: "scan_step p0 p1" using step Scan_Done by simp
    have val: "valid_state p1" using s by (simp add: scan_step_def p0_def)
    obtain q where "check_constraints p1 = Inr (Returned (constraints_hold p1) q)" "parse_post p (constraints_hold p1) q" "constraints_hold p1 \<Longrightarrow> q = p1"
      by (rule constraints_post [of p p1]) (use s v d val in \<open>auto simp: scan_step_def p0_def\<close>)
    then show thesis using Scan_Done by (intro finished [of p1 q]) (auto simp: parse_args_def p0_def)
  qed
qed

lemma parse_post_ok: "parser_ok p \<Longrightarrow> parse_post p ok q \<Longrightarrow> parser_ok q"
  using same_decl_ok by (auto simp: parser_ok_def parse_post_def)

lemma parse_returned_post:
  assumes "parser_ok p" "parse_args fc argv p = Inr (Returned ok q)"
  shows "parse_post p ok q"
proof (cases argv)
  case (Cons prog toks)
  show ?thesis by (rule parse_cases [OF assms(1), of fc toks prog]) (use assms(2) Cons in auto)
qed (use assms(2) in \<open>simp add: parse_args_def\<close>)

lemma reachable_ok: "ap_reach fc p \<Longrightarrow> parser_ok p"
proof (induction rule: ap_reach.induct)
  case (reach_parse p argv ok q)
  then show ?case using parse_returned_post parse_post_ok by blast
qed (blast intro: new_parser_ok add_variable_ok add_list_ok add_positional_ok set_exit_ok set_flags_exclusive_ok set_variables_exclusive_ok
    set_dependency_ok)+

section \<open>Limits\<close>

text \<open>
  A flag and a variable in unrelated exclusive sets with the same index count as incompatible, so neither can depend on the other; and a
  lone dash is accepted without any effect.
\<close>

theorem unrelated_sets_incompatible:
  assumes "parser_ok p" "arguments p c = Some opt" "is_flag opt" "arguments p d = Some opt'" "\<not> is_flag opt'"
    "n < length (exclusive_flags p)" "c \<in> exclusive_flags p ! n" "n < length (exclusive_variables p)" "d \<in> exclusive_variables p ! n"
  shows "set_dependency c d p = Inl Assertion_Failed"
proof -
  have "option_ok p c opt" "option_ok p d opt'" using assms decl_okD(1) by (auto simp: parser_ok_def)
  then have "n \<in> exclusive_sets opt \<inter> exclusive_sets opt'" using assms by (simp add: option_ok_def sets_of_def)
  then have "\<not> compatible opt opt'" by (auto simp: compatible_def)
  then show ?thesis using assms(2,4) by (simp add: set_dependency_def)
qed

theorem lone_dash_accepted: "scan_args fc [''-''] k p = Scan_Done p"
  by (simp add: scan_args_Cons single_arg_def)

section \<open>Properties\<close>

text \<open>A parser with a flag and an integer that depends on it, for a host whose floating point type has one value.\<close>

definition unit_floats :: "unit float_casts" where
  "unit_floats = \<lparr>fzero = (), stof = \<lambda>_. Inr (), stod = \<lambda>_. Inr ()\<rparr>"

definition demo_parser :: "unit arg_parse" where
  "demo_parser = add_variable (CHR ''n'') ''num'' ''A number'' (Int_Value 1) new_arg_parse"

definition demo_line :: "string list" where
  "demo_line = [''--num'', ''0x10'']"

definition demo_result :: "unit arg_parse" where
  "demo_result = demo_parser\<lparr>valid_state := True, was_run := True,
     arguments := (arguments demo_parser)(CHR ''n'' \<mapsto> (new_option (CHR ''n'') ''num'' ''A number'' (Int_Value 16))\<lparr>is_set := True\<rparr>)\<rparr>"

lemma demo_reach: "ap_reach unit_floats demo_parser"
  unfolding demo_parser_def by (intro ap_reach.intros) (simp_all add: in_range_def)

lemma demo_line_nul: "\<forall>tok \<in> set demo_line. nul \<notin> set tok"
  by (simp add: demo_line_def)

lemma demo_fields:
  "arguments demo_parser = (arguments new_arg_parse)(CHR ''n'' \<mapsto> new_option (CHR ''n'') ''num'' ''A number'' (Int_Value 1))"
  "full_to_short demo_parser ''num'' = Some (CHR ''n'')" "triggers demo_parser (CHR ''n'') = None" "positionals demo_parser = []"
  "exclusive_flags demo_parser = []" "exclusive_variables demo_parser = []"
  by (simp_all add: demo_parser_def new_arg_parse_def set_trigger_def add_flag_def add_variable_def map_insert_def)

lemma demo_active: "get_active f demo_result = (if f (the (arguments demo_result (CHR ''n''))) then {CHR ''n''} else {})"
  by (auto simp: get_active_iff demo_result_def demo_fields new_arg_parse_def set_trigger_def add_flag_def add_variable_def map_insert_def
      new_option_def split: if_splits)

lemma demo_cast: "stoi ''0x10'' = Inr 16"
  by code_simp

lemma demo_accepted: "accepts unit_floats 0 (demo_parser\<lparr>valid_state := True, was_run := True\<rparr>) demo_line demo_result"
proof -
  let ?p = "demo_parser\<lparr>valid_state := True, was_run := True\<rparr>" and ?o = "new_option (CHR ''n'') ''num'' ''A number'' (Int_Value 1) :: unit arg_option"
  have "accepts unit_floats 0 (?p\<lparr>arguments := (arguments ?p)(CHR ''n'' \<mapsto> ?o\<lparr>is_set := True, opt_value := Int_Value 16\<rparr>)\<rparr>) [] demo_result"
    using acc_end [of unit_floats 0 demo_result] by (simp add: demo_result_def demo_fields new_option_def)
  then show ?thesis unfolding demo_line_def
    by (rule acc_variable [where c = "CHR ''n''" and q = ?p and opt = ?o and v = "Int_Value 16", rotated 5])
      (simp_all add: spelled_def demo_fields fire_trigger_def demo_cast is_flag_def new_option_def)
qed

lemma demo_constraints: "constraints_hold demo_result"
  by (simp add: constraints_hold_def demo_active) (simp add: demo_result_def demo_fields new_option_def)

text \<open>
  C32. For every parser that declarations and earlier calls of \<open>parse\<close> can produce and every command line of C strings, \<open>parse\<close> returns
  true with the parser in a given state exactly if the grammar of options, flag groups, operands and positional arguments accepts the
  line with that state as its result and the result respects the constraints: all positional arguments given, at most one
  option of each exclusive set, every dependency of a given option given.
\<close>

theorem parse_accepts_exactly:
  assumes "ap_reach fc p" "\<forall>tok \<in> set toks. nul \<notin> set tok"
  shows "parse_args fc (prog # toks) p = Inr (Returned True p') \<longleftrightarrow>
    accepts fc 0 (p\<lparr>valid_state := True, was_run := True\<rparr>) toks p' \<and> constraints_hold p'"
proof -
  have "accepts fc 0 (p\<lparr>valid_state := True, was_run := True\<rparr>) toks p' \<longleftrightarrow>
      scan_args fc toks 0 (p\<lparr>valid_state := True, was_run := True\<rparr>) = Scan_Done p'"
    using accepts_scan scan_accepts assms(2) by metis
  then show ?thesis by (cases rule: parse_cases [OF reachable_ok [OF assms(1)], of fc toks prog]) auto
qed

theorem parse_accepts_exactly_witness:
  "parse_args unit_floats (''prog'' # demo_line) demo_parser = Inr (Returned True demo_result)"
  using parse_accepts_exactly [OF demo_reach demo_line_nul, of "''prog''" demo_result] demo_accepted demo_constraints by blast

text \<open>
  C33. \<open>parse\<close> is total on reachable parsers: with at least the program name it never fails an assertion or a lookup. It ends the process
  only through a trigger and only if the parser was told to exit on special commands, with nothing logged; otherwise it returns
  false exactly if it appended to the error log, and the status it leaves is the one it returns.
\<close>

theorem parse_total_and_logged:
  assumes "ap_reach fc p" "argv \<noteq> []"
  shows "\<exists>r. parse_args fc argv p = Inr r \<and>
    (case r of Exited q \<Rightarrow> exit_on_special_command p \<and> outputs q \<noteq> [] \<and> error_log q = error_log p
     | Returned ok q \<Rightarrow> (ok \<longleftrightarrow> error_log q = error_log p) \<and> prefix (error_log p) (error_log q) \<and> valid_state q = ok)"
proof -
  obtain prog toks where argv: "argv = prog # toks" using assms(2) by (cases argv) auto
  show ?thesis
  proof (rule parse_cases [OF reachable_ok [OF assms(1)], of fc toks prog], goal_cases)
    case (1 p1)
    then have "exit_on_special_command p1 \<and> outputs p1 \<noteq> []" using scan_exit by blast
    then show ?case using 1(2,3) by (auto simp: argv scan_step_def same_decl_def)
  qed (auto simp: argv parse_post_def)
qed

theorem parse_total_and_logged_witness:
  "\<exists>r. parse_args unit_floats [''prog'', ''-x''] demo_parser = Inr r \<and>
    (case r of Exited q \<Rightarrow> exit_on_special_command demo_parser \<and> outputs q \<noteq> [] \<and> error_log q = error_log demo_parser
     | Returned ok q \<Rightarrow> (ok \<longleftrightarrow> error_log q = error_log demo_parser) \<and> prefix (error_log demo_parser) (error_log q) \<and> valid_state q = ok)"
  by (rule parse_total_and_logged [OF demo_reach]) simp

text \<open>
  C34. Parsing keeps every declaration: in the parser that \<open>parse\<close> returns, each option and each positional argument has the
  names, the dependency, the exclusive sets and the type it was declared with, every integer lies in the range of its type, each option is
  filed under its short name, belongs to exactly the exclusive sets of its kind that list it, and depends on a declared option.
\<close>

theorem parse_keeps_types:
  assumes "ap_reach fc p" "parse_args fc argv p = Inr (Returned ok q)"
  shows "same_decl p q \<and> values_ok q \<and> decl_ok q"
proof -
  have "parser_ok p" using reachable_ok assms(1) by blast
  moreover from this have "parse_post p ok q" using parse_returned_post assms(2) by blast
  ultimately show ?thesis using same_decl_ok by (auto simp: parse_post_def parser_ok_def)
qed

theorem parse_keeps_types_witness: "same_decl demo_parser demo_result \<and> values_ok demo_result \<and> decl_ok demo_result"
proof -
  have "parse_args unit_floats (''prog'' # demo_line) demo_parser = Inr (Returned True demo_result)"
    by (cases rule: parse_cases [OF reachable_ok [OF demo_reach], of unit_floats demo_line "''prog''"])
      (use accepts_scan [OF demo_accepted demo_line_nul] demo_constraints in auto)
  then show ?thesis by (rule parse_keeps_types [OF demo_reach])
qed

text \<open>
  C35. What is written can be read: for a reachable parser with an integer, string or list option, the short name followed by the
  written form of a value of that type sets the option to this value and changes nothing else. Integers are written in
  decimal and lists with commas.
\<close>

theorem operand_roundtrip:
  assumes "ap_reach fc p" "arguments p c = Some opt" "c \<noteq> CHR ''-''" "underlying_type (opt_value opt) = underlying_type v" "printable v"
  shows "scan_args fc [[CHR ''-'', c], print_value v] k p = Scan_Done (p\<lparr>arguments := (arguments p)(c \<mapsto> opt\<lparr>is_set := True, opt_value := v\<rparr>)\<rparr>)"
proof -
  have d: "decl_ok p" using reachable_ok [OF assms(1)] by (simp add: parser_ok_def)
  have nf: "\<not> is_flag opt" using assms(4,5) by (cases v) (auto simp: is_flag_def)
  then have "\<not> known is_flag c p" using assms(2) by (simp add: known_def)
  then have "c \<noteq> CHR ''h''" "c \<noteq> CHR ''v''" using decl_okD(6,7) [OF d] by blast+
  then have "fire_trigger c p = (False, p)" using decl_okD(5) [OF d] by (simp add: fire_trigger_def)
  moreover have "single_arg [CHR ''-'', c]" by (simp add: single_arg_def)
  ultimately show ?thesis using assms(2) nf string_cast_print [OF assms(4,5), of fc]
    by (simp add: scan_args_Cons arg_key_short [OF assms(3)] option_cast_variable)
qed

theorem operand_roundtrip_witness:
  "scan_args unit_floats [''-n'', print_value (Int_Value (-7) :: unit arg_value)] 0 demo_parser =
     Scan_Done (demo_parser\<lparr>arguments := (arguments demo_parser)(CHR ''n'' \<mapsto>
       (new_option (CHR ''n'') ''num'' ''A number'' (Int_Value 1))\<lparr>is_set := True, opt_value := Int_Value (-7)\<rparr>)\<rparr>)"
  by (rule operand_roundtrip [OF demo_reach]) (simp_all add: demo_fields new_option_def in_range_def)

end
