(* ===== verification/Arg_Usage.thy ===== *)
theory Arg_Usage
  imports Arg_Correct
begin

text \<open>
  The texts of \<open>ArgParse\<close> (\<open>argparse.cpp\<close>): the usage string, built from the declarations the first time it is asked for, and the version
  string. The order in which \<open>unordered_map\<close> enumerates its keys is a parameter. Field widths count characters, as \<open>fmt\<close> does for texts
  whose characters are all one byte and one column wide.
\<close>

section \<open>Formatting\<close>

text \<open>The failures are \<open>std::out_of_range\<close> of a lookup with \<open>at()\<close> and \<open>fmt::format_error\<close> for a width that is no \<open>int\<close> or negative.\<close>

datatype usage_error = Missing_Key | Bad_Width

record arg_texts =
  ver_string :: string
  program_name :: string
  usage_string :: string
  full_ver_string :: string
  usage_padding :: int

fun type_str :: "arg_type \<Rightarrow> string" where
  "type_str Arg_None = ''NONE''"
| "type_str Arg_Bool = ''bool''"
| "type_str Arg_Int = ''int''"
| "type_str Arg_Long = ''long''"
| "type_str Arg_Float = ''float''"
| "type_str Arg_Double = ''double''"
| "type_str Arg_String = ''string''"
| "type_str Arg_Vec_Int = ''int,...''"
| "type_str Arg_Vec_Long = ''long,...''"
| "type_str Arg_Vec_Float = ''float,...''"
| "type_str Arg_Vec_Double = ''double,...''"
| "type_str Arg_Vec_String = ''string,...''"

definition newline :: string where
  "newline = [CHR 0x0A]"

fun join_with :: "string \<Rightarrow> string list \<Rightarrow> string" where
  "join_with sep [] = []"
| "join_with sep [s] = s"
| "join_with sep (s # t # ss) = s @ sep @ join_with sep (t # ss)"

definition typed :: "'f arg_option \<Rightarrow> string" where
  "typed opt = ''<'' @ type_str (underlying_type (opt_value opt)) @ ''>''"

definition option_str :: "'f arg_option \<Rightarrow> string" where
  "option_str opt = (if short_name opt \<noteq> nul then ''-'' @ [short_name opt] @ '', --'' @ full_name opt else full_name opt) @
     (if is_flag opt then [] else '' '' @ typed opt) @ (if dependency opt \<noteq> nul then '' REQ: -'' @ [dependency opt] else [])"

definition format_description :: "int \<Rightarrow> 'f arg_option \<Rightarrow> usage_error + string" where
  "format_description max_pad opt =
     (if max_pad < 0 \<or> 2 ^ 31 \<le> max_pad then Inl Bad_Width
      else Inr (''    '' @ option_str opt @ replicate (nat max_pad - length (option_str opt)) (CHR '' '') @ description opt @ newline))"

section \<open>The usage string\<close>

fun traverse :: "('a \<Rightarrow> 'e + 'b) \<Rightarrow> 'a list \<Rightarrow> 'e + 'b list" where
  "traverse f [] = Inr []"
| "traverse f (x # xs) = res_bind (f x) (\<lambda>y. res_bind (traverse f xs) (\<lambda>ys. Inr (y # ys)))"

definition arg_at :: "'f arg_parse \<Rightarrow> char \<Rightarrow> usage_error + 'f arg_option" where
  "arg_at p c = (case arguments p c of None \<Rightarrow> Inl Missing_Key | Some opt \<Rightarrow> Inr opt)"

text \<open>The entries of the map in its order, and the elements of a \<open>std::set<char>\<close> in ascending order, \<open>char\<close> being signed.\<close>

definition entries :: "char list \<Rightarrow> 'f arg_parse \<Rightarrow> (char \<times> 'f arg_option) list" where
  "entries order p = List.map_filter (\<lambda>c. map_option (Pair c) (arguments p c)) order"

definition ascending :: "char set \<Rightarrow> char list" where
  "ascending S = filter (\<lambda>c. c \<in> S) (drop 128 all_chars @ take 128 all_chars)"

definition operand_str :: "'f arg_option \<Rightarrow> string" where
  "operand_str opt = (if is_flag opt then [] else '' '' @ typed opt)"

definition variable_str :: "'f arg_option \<Rightarrow> string" where
  "variable_str opt = ''-'' @ [short_name opt] @ '' '' @ typed opt"

definition compat_keys :: "(char \<times> 'f arg_option) list \<Rightarrow> bool \<Rightarrow> char list" where
  "compat_keys es flags =
     (let blacklist = {CHR ''h'', CHR ''v''} \<union> set (map (\<lambda>(c, opt). dependency opt) (filter (\<lambda>(c, opt). dependency opt \<noteq> nul) es));
          compat = set (map fst (filter (\<lambda>(c, opt). dependency opt = nul \<and> exclusive_sets opt = {} \<and> is_flag opt = flags) es))
      in ascending (compat - blacklist))"

definition synopsis :: "char list \<Rightarrow> arg_texts \<Rightarrow> 'f arg_parse \<Rightarrow> usage_error + string list" where
  "synopsis order t p =
     (let es = entries order p; flags = compat_keys es True; vars = compat_keys es False in
      res_bind (traverse (\<lambda>(c, opt). res_bind (arg_at p (dependency opt)) (\<lambda>preq. Inr (opt, preq))) (filter (\<lambda>(c, opt). dependency opt \<noteq> nul) es)) (\<lambda>deps.
      res_bind (traverse (arg_at p) vars) (\<lambda>var_opts.
      res_bind (traverse (\<lambda>S. traverse (arg_at p) (ascending S)) (exclusive_variables p)) (\<lambda>ex_opts.
      Inr ([''Usage:'' @ newline @ program_name t] @
           (if flags = [] then [] else [''[-'' @ flags @ '']'']) @
           map (\<lambda>S. ''['' @ join_with '' | '' (map (\<lambda>c. ''-'' @ [c]) (ascending S)) @ '']'') (exclusive_flags p) @
           map (\<lambda>opt. ''['' @ variable_str opt @ '']'') var_opts @
           map (\<lambda>opts. ''['' @ join_with '' | '' (map variable_str opts) @ '']'') ex_opts @
           map (\<lambda>(parg, preq). ''[-'' @ [short_name preq] @ operand_str preq @ '' [-'' @ [short_name parg] @ operand_str parg @ '']]'') deps @
           map full_name (positionals p))))))"

definition make_usage_string :: "char list \<Rightarrow> arg_texts \<Rightarrow> 'f arg_parse \<Rightarrow> usage_error + arg_texts" where
  "make_usage_string order t p =
     (let opts = map snd (entries order p) in
      res_bind (synopsis order t p) (\<lambda>parts.
      res_bind (traverse (format_description (usage_padding t)) (positionals p)) (\<lambda>pos_lines.
      res_bind (traverse (format_description (usage_padding t)) (filter is_flag opts)) (\<lambda>flag_lines.
      res_bind (traverse (format_description (usage_padding t)) (filter (\<lambda>opt. \<not> is_flag opt) opts)) (\<lambda>var_lines.
      Inr (t\<lparr>usage_string := join_with '' '' parts @ newline @
        (if positionals p = [] then [] else newline @ ''With:'' @ newline @ concat pos_lines) @
        newline @ ''Options:'' @ newline @ concat flag_lines @ concat var_lines\<rparr>))))))"

definition usage :: "char list \<Rightarrow> 'f arg_parse \<Rightarrow> arg_texts \<Rightarrow> usage_error + string \<times> arg_texts" where
  "usage order p t = res_bind (if usage_string t = [] then make_usage_string order t p else Inr t) (\<lambda>t'. Inr (usage_string t', t'))"

definition toupper :: "char \<Rightarrow> char" where
  "toupper c = (if 97 \<le> (of_char c :: nat) \<and> of_char c \<le> (122 :: nat) then char_of (of_char c - 32 :: nat) else c)"

definition make_version_string :: "arg_texts \<Rightarrow> arg_texts" where
  "make_version_string t = t\<lparr>full_ver_string := map toupper (program_name t) @ '' - version: '' @ ver_string t\<rparr>"

definition version :: "arg_texts \<Rightarrow> string \<times> arg_texts" where
  "version t = (let t' = if full_ver_string t = [] then make_version_string t else t in (full_ver_string t', t'))"

definition set_usage_padding :: "int \<Rightarrow> arg_texts \<Rightarrow> arg_texts" where
  "set_usage_padding padding t = t\<lparr>usage_padding := padding\<rparr>"

section \<open>The usage string of a reachable parser\<close>

lemma traverse_ok: "(\<And>x. x \<in> set xs \<Longrightarrow> \<exists>y. f x = Inr y) \<Longrightarrow> \<exists>ys. traverse f xs = Inr ys"
  by (induction xs) fastforce+

lemma traverse_mem: "traverse f xs = Inr ys \<Longrightarrow> x \<in> set xs \<Longrightarrow> \<exists>y \<in> set ys. f x = Inr y"
  by (induction xs arbitrary: ys) (auto simp: res_bind_eq_Inr)

lemma set_ascending: "set (ascending S) = S"
proof -
  have "set (drop 128 all_chars @ take 128 all_chars) = set (take 128 all_chars @ drop 128 all_chars)"
    by (simp only: set_append Un_commute)
  also have "\<dots> = UNIV" by (simp only: append_take_drop_id all_chars_UNIV)
  finally have "c \<in> set (drop 128 all_chars @ take 128 all_chars)" for c by blast
  then show ?thesis by (simp only: ascending_def set_filter) blast
qed

lemma set_entries: "set (entries order p) = {(c, opt). c \<in> set order \<and> arguments p c = Some opt}"
  by (force simp: entries_def List.map_filter_def)

lemma arg_at_ok: "arguments p c \<noteq> None \<Longrightarrow> \<exists>opt. arg_at p c = Inr opt"
  by (auto simp: arg_at_def)

lemma synopsis_ok:
  assumes "decl_ok p"
  shows "\<exists>parts. synopsis order t p = Inr parts"
proof -
  let ?es = "entries order p"
  have "\<exists>deps. traverse (\<lambda>(c, opt). res_bind (arg_at p (dependency opt)) (\<lambda>preq. Inr (opt, preq))) (filter (\<lambda>(c, opt). dependency opt \<noteq> nul) ?es) = Inr deps"
    using decl_okD(1) [OF assms] arg_at_ok [of p] by (intro traverse_ok) (fastforce simp: set_entries option_ok_def)
  then obtain deps where d: "traverse (\<lambda>(c, opt). res_bind (arg_at p (dependency opt)) (\<lambda>preq. Inr (opt, preq)))
      (filter (\<lambda>(c, opt). dependency opt \<noteq> nul) ?es) = Inr deps" by blast
  have "\<exists>vars. traverse (arg_at p) (compat_keys ?es False) = Inr vars"
    by (intro traverse_ok arg_at_ok) (auto simp: compat_keys_def Let_def set_ascending set_entries)
  then obtain vars where v: "traverse (arg_at p) (compat_keys ?es False) = Inr vars" by blast
  have "\<exists>exs. traverse (\<lambda>S. traverse (arg_at p) (ascending S)) (exclusive_variables p) = Inr exs"
    using decl_okD(3) [OF assms] by (intro traverse_ok arg_at_ok) (fastforce simp: set_ascending known_Some)
  then obtain exs where e: "traverse (\<lambda>S. traverse (arg_at p) (ascending S)) (exclusive_variables p) = Inr exs" by blast
  show ?thesis using d v e by (simp add: synopsis_def Let_def)
qed

lemma sublist_concat: "l \<in> set ls \<Longrightarrow> sublist l (concat ls)"
  by (auto dest!: split_list)

text \<open>For a width that is a non-negative \<open>int\<close>, the usage string of a reachable parser exists and describes every option and positional argument.\<close>

theorem usage_complete:
  assumes "ap_reach fc p" "0 \<le> usage_padding t" "usage_padding t < 2 ^ 31" "usage_string t = []"
  shows "\<exists>str t'. usage order p t = Inr (str, t') \<and> usage order p t' = Inr (str, t') \<and>
    (\<forall>opt \<in> set (positionals p) \<union> {opt. \<exists>c \<in> set order. arguments p c = Some opt}.
       \<exists>line. format_description (usage_padding t) opt = Inr line \<and> sublist line str)"
proof -
  have d: "decl_ok p" using reachable_ok [OF assms(1)] by (simp add: parser_ok_def)
  let ?f = "format_description (usage_padding t) :: 'a arg_option \<Rightarrow> _" and ?opts = "map snd (entries order p)"
  have ok: "\<exists>ys. traverse ?f xs = Inr ys" for xs using assms(2,3) by (intro traverse_ok) (simp add: format_description_def)
  obtain parts where parts: "synopsis order t p = Inr parts" using synopsis_ok [OF d] by blast
  obtain ps fs vs where lines: "traverse ?f (positionals p) = Inr ps" "traverse ?f (filter is_flag ?opts) = Inr fs"
    "traverse ?f (filter (\<lambda>opt. \<not> is_flag opt) ?opts) = Inr vs" using ok by meson
  define str where "str = join_with '' '' parts @ newline @ (if positionals p = [] then [] else newline @ ''With:'' @ newline @ concat ps) @
    newline @ ''Options:'' @ newline @ concat fs @ concat vs"
  have u: "usage order p t = Inr (str, t\<lparr>usage_string := str\<rparr>)"
    using assms(4) parts lines by (simp add: usage_def make_usage_string_def str_def)
  have "str \<noteq> []" by (simp add: str_def newline_def)
  then have u': "usage order p (t\<lparr>usage_string := str\<rparr>) = Inr (str, t\<lparr>usage_string := str\<rparr>)" by (simp add: usage_def)
  have "\<exists>line. ?f opt = Inr line \<and> sublist line str"
    if opt: "opt \<in> set (positionals p) \<or> (\<exists>c \<in> set order. arguments p c = Some opt)" for opt
  proof -
    have "opt \<in> set (positionals p) \<or> opt \<in> set (filter is_flag ?opts) \<or> opt \<in> set (filter (\<lambda>opt. \<not> is_flag opt) ?opts)"
      using opt by (force simp: set_entries)
    then obtain line where "?f opt = Inr line" "opt \<in> set (positionals p) \<and> line \<in> set ps \<or> line \<in> set fs \<or> line \<in> set vs"
      using traverse_mem [OF lines(1)] traverse_mem [OF lines(2)] traverse_mem [OF lines(3)] by blast
    moreover have "str = concat ([join_with '' '' parts, newline] @ (if positionals p = [] then [] else [newline, ''With:'', newline] @ ps) @
        [newline, ''Options:'', newline] @ fs @ vs)" by (simp add: str_def)
    ultimately show ?thesis by (auto intro!: sublist_concat simp del: concat.simps concat_append)
  qed
  then show ?thesis using u u' by blast
qed

end
