(* ===== verification/Job_Graph.thy ===== *)
theory Job_Graph
  imports Kibble_Prelude "HOL-Library.Multiset"
begin

text \<open>
  The nodes of the job graph (\<open>thread/job/impl/job_graph.h\<close>, \<open>job.h\<close>, \<open>job_meta.h\<close>): dependencies with their atomic counter, the state of a job, worker
  affinities, and the walk over a graph in \<open>Task::schedule\<close>. A job is named by its address; the map from addresses to jobs is undefined where
  no job lives, and every use of such an address is a fault.
\<close>

section \<open>Jobs\<close>

datatype job_state = Idle | Pending | Preempted | Executing | Processed

record job =
  in_nodes :: "nat list"
  out_nodes :: "nat list"
  pending_in :: nat
  jstate :: job_state
  affinity :: u32
  essential :: bool
  keep_alive :: bool
  barrier_id :: nat

type_synonym jobs = "nat \<Rightarrow> job option"

text \<open>A job that is gone, a failing assertion, the exception of a full harness, and a modulus of zero.\<close>

datatype job_fault = Dangling_Job | Job_Assertion | Harness_Overflow | No_Victim

definition k_no_barrier :: nat where
  "k_no_barrier = 2 ^ 64 - 1"

text \<open>\<open>fetch_add\<close> and \<open>fetch_sub\<close> on 64 bits.\<close>

definition fetch_add :: "nat \<Rightarrow> nat \<Rightarrow> nat" where
  "fetch_add k n = (n + k) mod 2 ^ 64"

definition fetch_sub1 :: "nat \<Rightarrow> nat" where
  "fetch_sub1 n = (if n = 0 then 2 ^ 64 - 1 else n - 1)"

definition deref :: "jobs \<Rightarrow> nat \<Rightarrow> job_fault + job" where
  "deref js j = (case js j of None \<Rightarrow> Inl Dangling_Job | Some jb \<Rightarrow> Inr jb)"

definition job_assert :: "bool \<Rightarrow> job_fault + unit" where
  "job_assert b = (if b then Inr () else Inl Job_Assertion)"

section \<open>Worker affinity\<close>

unbundle bit_operations_syntax

definition k_stealable_bit :: nat where
  "k_stealable_bit = 8"

definition k_balance_bit :: nat where
  "k_balance_bit = 9"

definition k_tid_hint_mask :: u32 where
  "k_tid_hint_mask = 0xFF"

definition worker_affinity :: "u32 \<Rightarrow> bool \<Rightarrow> bool \<Rightarrow> u32" where
  "worker_affinity tid_hint stealable balance =
     (tid_hint AND k_tid_hint_mask) OR push_bit k_stealable_bit (of_bool stealable) OR push_bit k_balance_bit (of_bool balance)"

definition force_worker :: "u32 \<Rightarrow> u32" where
  "force_worker worker_id = worker_affinity worker_id False False"

definition affinity_main :: u32 where
  "affinity_main = worker_affinity 0 False False"

definition affinity_async :: u32 where
  "affinity_async = worker_affinity 1 True True"

definition affinity_async_strict :: u32 where
  "affinity_async_strict = worker_affinity 1 False True"

definition affinity_any :: u32 where
  "affinity_any = worker_affinity 0 True True"

text \<open>The fields as the scheduler reads them.\<close>

definition stealable :: "u32 \<Rightarrow> bool" where
  "stealable a \<longleftrightarrow> drop_bit k_stealable_bit (a AND push_bit k_stealable_bit 1) \<noteq> 0"

definition balance :: "u32 \<Rightarrow> bool" where
  "balance a \<longleftrightarrow> drop_bit k_balance_bit (a AND push_bit k_balance_bit 1) \<noteq> 0"

definition tid_hint :: "u32 \<Rightarrow> nat" where
  "tid_hint a = unat (a AND k_tid_hint_mask)"

section \<open>Nodes\<close>

definition new_job :: "u32 \<Rightarrow> job" where
  "new_job a = \<lparr>in_nodes = [], out_nodes = [], pending_in = 0, jstate = Idle, affinity = a, essential = False, keep_alive = False,
     barrier_id = k_no_barrier\<rparr>"

definition harness_add :: "nat \<Rightarrow> nat \<Rightarrow> nat list \<Rightarrow> job_fault + nat list" where
  "harness_add cap x xs = (if length xs + 1 = cap then Inl Harness_Overflow else Inr (xs @ [x]))"

text \<open>Connecting two nodes; when an exception leaves the function, what was written before it stays.\<close>

definition connect :: "nat \<Rightarrow> nat \<Rightarrow> nat \<Rightarrow> nat \<Rightarrow> jobs \<Rightarrow> jobs \<times> job_fault option" where
  "connect max_in max_out p c js =
     (case js p of None \<Rightarrow> (js, Some Dangling_Job)
      | Some jp \<Rightarrow>
        (case harness_add max_out c (out_nodes jp) of Inl e \<Rightarrow> (js, Some e)
         | Inr outs \<Rightarrow>
           let js1 = js(p \<mapsto> jp\<lparr>out_nodes := outs\<rparr>) in
           (case js1 c of None \<Rightarrow> (js1, Some Dangling_Job)
            | Some jc \<Rightarrow>
              (case harness_add max_in p (in_nodes jc) of Inl e \<Rightarrow> (js1, Some e)
               | Inr ins \<Rightarrow> (js1(c \<mapsto> jc\<lparr>in_nodes := ins, pending_in := fetch_add 1 (pending_in jc)\<rparr>), None)))))"

definition is_ready :: "job \<Rightarrow> bool" where
  "is_ready jb \<longleftrightarrow> pending_in jb = 0"

definition remove_dependency :: "job \<Rightarrow> job" where
  "remove_dependency jb = jb\<lparr>pending_in := fetch_sub1 (pending_in jb)\<rparr>"

text \<open>Compare and exchange.\<close>

definition exchange_state :: "job_state \<Rightarrow> job_state \<Rightarrow> job \<Rightarrow> bool \<times> job" where
  "exchange_state expected desired jb = (if jstate jb = expected then (True, jb\<lparr>jstate := desired\<rparr>) else (False, jb))"

text \<open>
  \<open>reset\<close>: the state of the node goes back to idle; every child gets one more pending dependency and is reset. The agenda holds the children
  that the enclosing loops have still to visit.
\<close>

partial_function (option) reset_agenda :: "nat list \<Rightarrow> jobs \<Rightarrow> (job_fault + jobs) option" where
  "reset_agenda ag js = (case ag of [] \<Rightarrow> Some (Inr js)
     | c # rest \<Rightarrow> (case js c of None \<Rightarrow> Some (Inl Dangling_Job)
         | Some jc \<Rightarrow> reset_agenda (out_nodes jc @ rest) (js(c \<mapsto> jc\<lparr>pending_in := fetch_add 1 (pending_in jc), jstate := Idle\<rparr>))))"

declare reset_agenda.simps [code]

definition reset :: "nat \<Rightarrow> jobs \<Rightarrow> (job_fault + jobs) option" where
  "reset j js = (case js j of None \<Rightarrow> Some (Inl Dangling_Job) | Some jb \<Rightarrow> reset_agenda (out_nodes jb) (js(j \<mapsto> jb\<lparr>jstate := Idle\<rparr>)))"

text \<open>The depth-first walk of \<open>Task::schedule\<close>: the stack with its top first, and the jobs marked so far, which get their barrier.\<close>

partial_function (option) depth_first_walk :: "nat \<Rightarrow> nat list \<Rightarrow> nat list \<Rightarrow> jobs \<Rightarrow> (job_fault + nat list \<times> jobs) option" where
  "depth_first_walk b stack marked js = (case stack of [] \<Rightarrow> Some (Inr (marked, js))
     | j # rest \<Rightarrow> if j \<in> set marked then depth_first_walk b rest marked js
         else (case js j of None \<Rightarrow> Some (Inl Dangling_Job)
               | Some jb \<Rightarrow> depth_first_walk b (rev (out_nodes jb) @ rest) (j # marked) (js(j \<mapsto> jb\<lparr>barrier_id := b\<rparr>))))"

declare depth_first_walk.simps [code]

section \<open>Reading affinities\<close>

lemma affinity_bits: "stealable a = bit a 8" "balance a = bit a 9"
proof -
  have d: "drop_bit n (a AND push_bit n 1) = (of_bool (bit a n) :: u32)" if "n < 32" for n
    by (rule bit_word_eqI) (use that in \<open>auto simp: bit_simps\<close>)
  show "stealable a = bit a 8" "balance a = bit a 9"
    unfolding stealable_def balance_def k_stealable_bit_def k_balance_bit_def by (subst d; simp)+
qed

lemma affinity_fields:
  "stealable (worker_affinity h st bl) = st" "balance (worker_affinity h st bl) = bl" "tid_hint (worker_affinity h st bl) = unat (h AND 0xFF)"
proof -
  have m: "(0xFF :: u32) = mask 8" by (simp add: mask_eq_exp_minus_1)
  show "stealable (worker_affinity h st bl) = st" "balance (worker_affinity h st bl) = bl"
    by (auto simp: affinity_bits worker_affinity_def bit_simps k_tid_hint_mask_def m k_stealable_bit_def k_balance_bit_def)
  have "worker_affinity h st bl AND k_tid_hint_mask = h AND 0xFF"
    by (rule bit_word_eqI) (auto simp: worker_affinity_def bit_simps k_tid_hint_mask_def m k_stealable_bit_def k_balance_bit_def)
  then show "tid_hint (worker_affinity h st bl) = unat (h AND 0xFF)" by (simp add: tid_hint_def)
qed

section \<open>Graphs\<close>

definition edges :: "jobs \<Rightarrow> (nat \<times> nat) set" where
  "edges js = {(p, c). \<exists>jp. js p = Some jp \<and> c \<in> set (out_nodes jp)}"

definition outs :: "jobs \<Rightarrow> nat \<Rightarrow> nat list" where
  "outs js p = (case js p of None \<Rightarrow> [] | Some jp \<Rightarrow> out_nodes jp)"

lemma edges_outs: "(p, c) \<in> edges js \<longleftrightarrow> c \<in> set (outs js p)"
  by (cases "js p") (simp_all add: edges_def outs_def)

text \<open>What the walk marks: everything reachable, once; nothing but barriers changes.\<close>

definition set_barriers :: "nat \<Rightarrow> nat set \<Rightarrow> jobs \<Rightarrow> jobs" where
  "set_barriers b S js = (\<lambda>j. if j \<in> S then map_option (\<lambda>jb. jb\<lparr>barrier_id := b\<rparr>) (js j) else js j)"

lemma outs_barriers [simp]: "outs (set_barriers b S js) = outs js" "dom (set_barriers b S js) = dom js" "edges (set_barriers b S js) = edges js"
proof -
  show o: "outs (set_barriers b S js) = outs js"
    by (rule ext) (simp add: outs_def set_barriers_def split: option.split)
  show "dom (set_barriers b S js) = dom js" by (auto simp: set_barriers_def split: if_splits)
  show "edges (set_barriers b S js) = edges js" by (auto simp: edges_outs o)
qed

lemma set_barriers_twice: "set_barriers b S (set_barriers b T js) = set_barriers b (S \<union> T) js"
  by (rule ext) (simp add: set_barriers_def option.map_comp comp_def)

lemma walk_spec:
  assumes "finite (dom js)" "A \<subseteq> dom js" "\<forall>x \<in> A. set (outs js x) \<subseteq> A" "set stack \<subseteq> A"
  shows "\<exists>marked'. depth_first_walk b stack marked js = Some (Inr (marked', set_barriers b (set marked' - set marked) js)) \<and>
    set marked \<union> set stack \<subseteq> set marked' \<and> (distinct marked \<longrightarrow> distinct marked') \<and> set marked' - set marked \<subseteq> A \<and>
    (\<forall>x \<in> set marked' - set marked. set (outs js x) \<subseteq> set marked' \<and> (\<exists>y \<in> set stack. (y, x) \<in> (edges js)\<^sup>*))"
  using assms
proof (induction "card (dom js - set marked)" arbitrary: stack marked js rule: less_induct)
  case less
  show ?case using less.prems(4)
  proof (induction stack)
    case Nil
    show ?case by (subst depth_first_walk.simps) (simp add: set_barriers_def)
  next
    case (Cons j rest)
    show ?case
    proof (cases "j \<in> set marked")
      case True
      have "set rest \<subseteq> A" using Cons.prems by simp
      from Cons.IH [OF this] True show ?thesis by (subst depth_first_walk.simps) auto
    next
      case False
      obtain jb where jb: "js j = Some jb" using Cons.prems less.prems(2) by auto
      let ?js = "set_barriers b {j} js" and ?st = "rev (out_nodes jb) @ rest"
      have js: "js(j \<mapsto> jb\<lparr>barrier_id := b\<rparr>) = ?js" using jb by (auto simp: set_barriers_def)
      have o: "outs js j = out_nodes jb" using jb by (simp add: outs_def)
      have "card (dom ?js - set (j # marked)) < card (dom js - set marked)"
        using False jb less.prems(1) by (auto intro!: psubset_card_mono)
      moreover have "set ?st \<subseteq> A"
      proof -
        have "set (outs js j) \<subseteq> A" using Cons.prems less.prems(3) by simp
        then show ?thesis using Cons.prems by (simp add: o)
      qed
      ultimately obtain m where m: "depth_first_walk b ?st (j # marked) ?js = Some (Inr (m, set_barriers b (set m - set (j # marked)) ?js))"
        "set (j # marked) \<union> set ?st \<subseteq> set m" "distinct (j # marked) \<longrightarrow> distinct m" "set m - set (j # marked) \<subseteq> A"
        "\<forall>x \<in> set m - set (j # marked). set (outs js x) \<subseteq> set m \<and> (\<exists>y \<in> set ?st. (y, x) \<in> (edges js)\<^sup>*)"
        using less.hyps [of ?js "j # marked" ?st] less.prems by auto
      have "set m - set (j # marked) \<union> {j} = set m - set marked" using m(2) False by auto
      then have w: "depth_first_walk b (j # rest) marked js = Some (Inr (m, set_barriers b (set m - set marked) js))"
        using m(1) False jb js by (subst depth_first_walk.simps) (simp add: set_barriers_twice)
      have "set (outs js x) \<subseteq> set m \<and> (\<exists>y \<in> set (j # rest). (y, x) \<in> (edges js)\<^sup>*)" if x: "x \<in> set m - set marked" for x
      proof (cases "x = j")
        case True
        then show ?thesis using m(2) o by auto
      next
        case False
        then obtain y where y: "set (outs js x) \<subseteq> set m" "y \<in> set ?st" "(y, x) \<in> (edges js)\<^sup>*" using m(5) x by auto
        show ?thesis
        proof (cases "y \<in> set rest")
          case False
          then have "(j, y) \<in> edges js" using y(2) o by (simp add: edges_outs)
          then show ?thesis using y by (auto intro: converse_rtrancl_into_rtrancl)
        qed (use y in auto)
      qed
      moreover have "set m - set marked \<subseteq> A" using m(4) Cons.prems by auto
      ultimately show ?thesis using w m(2,3) False by (intro exI [of _ m]) auto
    qed
  qed
qed

definition reach :: "jobs \<Rightarrow> nat \<Rightarrow> nat set" where
  "reach js r = (edges js)\<^sup>* `` {r}"

lemma reach_self: "r \<in> reach js r"
  by (simp add: reach_def)

lemma reach_step: "x \<in> reach js r \<Longrightarrow> c \<in> set (outs js x) \<Longrightarrow> c \<in> reach js r"
  by (auto simp: reach_def edges_outs intro: rtrancl_into_rtrancl)

lemma reach_induct [consumes 1, case_names self step]:
  assumes "x \<in> reach js r" "P r" "\<And>x c. x \<in> reach js r \<Longrightarrow> P x \<Longrightarrow> c \<in> set (outs js x) \<Longrightarrow> P c"
  shows "P x"
proof -
  have "(r, x) \<in> (edges js)\<^sup>*" using assms(1) by (simp add: reach_def)
  then show ?thesis by (induction rule: rtrancl_induct) (use assms(2,3) in \<open>auto simp: reach_def edges_outs\<close>)
qed

text \<open>The walk over a graph of which the jobs reachable from the root are all there.\<close>

theorem walk_marks_reachable:
  assumes "finite (dom js)" "reach J r \<subseteq> dom js" "\<forall>x \<in> reach J r. outs js x = outs J x"
  shows "\<exists>marked. depth_first_walk b [r] [] js = Some (Inr (marked, set_barriers b (reach J r) js)) \<and> set marked = reach J r \<and>
    length marked = card (reach J r)"
proof -
  obtain m where m: "depth_first_walk b [r] [] js = Some (Inr (m, set_barriers b (set m) js))" "r \<in> set m" "distinct m" "set m \<subseteq> reach J r"
    "\<forall>x \<in> set m. set (outs js x) \<subseteq> set m"
  proof -
    have "\<forall>x \<in> reach J r. set (outs js x) \<subseteq> reach J r" using assms(3) reach_step by auto
    then show thesis using walk_spec [OF assms(1,2), of "[r]" b "[]"] reach_self that by auto
  qed
  have "x \<in> set m" if "x \<in> reach J r" for x
    using that
  proof (induction rule: reach_induct)
    case (step x c)
    then have "set (outs J x) \<subseteq> set m" using m(5) assms(3) by metis
    then show ?case using step by blast
  qed (use m(2) in simp)
  then have "set m = reach J r" using m(4) by blast
  then show ?thesis using m(1,3) by (intro exI [of _ m]) (auto dest: distinct_card)
qed

section \<open>Building a graph\<close>

text \<open>
  A graph that is ready to be scheduled: finitely many idle jobs, edges among them without a cycle, and the counter of pending dependencies of a
  job equal to the number of edges into it.
\<close>

definition in_degree :: "jobs \<Rightarrow> nat \<Rightarrow> nat" where
  "in_degree js c = (\<Sum>p \<in> dom js. count (mset (outs js p)) c)"

definition fresh_graph :: "jobs \<Rightarrow> bool" where
  "fresh_graph js \<longleftrightarrow> finite (dom js) \<and> Range (edges js) \<subseteq> dom js \<and> acyclic (edges js) \<and> card (dom js) < 2 ^ 64 \<and>
     (\<forall>j jb. js j = Some jb \<longrightarrow> jstate jb = Idle \<and> pending_in jb = in_degree js j \<and> length (in_nodes jb) = in_degree js j \<and> barrier_id jb = k_no_barrier)"

text \<open>The client creates jobs at free addresses of the pool and connects them; \<open>create_job\<close> returns an address of the pool.\<close>

inductive built :: "nat \<Rightarrow> nat \<Rightarrow> nat \<Rightarrow> jobs \<Rightarrow> bool" for pool_size max_in max_out where
  built_empty: "built pool_size max_in max_out Map.empty"
| built_job: "built pool_size max_in max_out js \<Longrightarrow> js j = None \<Longrightarrow> card (dom js) < pool_size \<Longrightarrow>
     built pool_size max_in max_out (js(j \<mapsto> (new_job a)\<lparr>keep_alive := k\<rparr>))"
| built_edge: "built pool_size max_in max_out js \<Longrightarrow> connect max_in max_out p c js = (js', None) \<Longrightarrow> built pool_size max_in max_out js'"

lemma connectD:
  assumes "connect max_in max_out p c js = (js', None)"
  obtains jp jc where "js p = Some jp" "(js(p \<mapsto> jp\<lparr>out_nodes := out_nodes jp @ [c]\<rparr>)) c = Some jc" "length (in_nodes jc) + 1 \<noteq> max_in"
    "js' = (js(p \<mapsto> jp\<lparr>out_nodes := out_nodes jp @ [c]\<rparr>))(c \<mapsto> jc\<lparr>in_nodes := in_nodes jc @ [p], pending_in := fetch_add 1 (pending_in jc)\<rparr>)"
  using assms by (auto simp: connect_def harness_add_def Let_def split: option.splits if_splits)

lemma outs_connect:
  assumes "connect max_in max_out p c js = (js', None)"
  shows "outs js' = (outs js)(p := outs js p @ [c])" "dom js' = dom js" "c \<in> dom js" "p \<in> dom js"
proof -
  obtain jp jc where e: "js p = Some jp" "(js(p \<mapsto> jp\<lparr>out_nodes := out_nodes jp @ [c]\<rparr>)) c = Some jc"
    "js' = (js(p \<mapsto> jp\<lparr>out_nodes := out_nodes jp @ [c]\<rparr>))(c \<mapsto> jc\<lparr>in_nodes := in_nodes jc @ [p], pending_in := fetch_add 1 (pending_in jc)\<rparr>)"
    using connectD [OF assms] by metis
  show "c \<in> dom js" "p \<in> dom js" using e by (auto split: if_splits)
  then show "dom js' = dom js" using e by auto
  show "outs js' = (outs js)(p := outs js p @ [c])"
    using e by (auto simp: outs_def fun_eq_iff split: if_splits)
qed

lemma in_degree_connect:
  assumes "connect max_in max_out p c js = (js', None)" "finite (dom js)"
  shows "in_degree js' d = in_degree js d + (if d = c then 1 else 0)"
proof -
  note o = outs_connect [OF assms(1)]
  have "in_degree js' d = count (mset (outs js' p)) d + (\<Sum>q \<in> dom js - {p}. count (mset (outs js' q)) d)"
    unfolding in_degree_def o(2) using o(4) assms(2) by (rule sum.remove [rotated])
  also have "(\<Sum>q \<in> dom js - {p}. count (mset (outs js' q)) d) = (\<Sum>q \<in> dom js - {p}. count (mset (outs js q)) d)"
    by (rule sum.cong) (auto simp: o(1))
  also have "count (mset (outs js' p)) d = count (mset (outs js p)) d + (if d = c then 1 else 0)" by (simp add: o(1))
  finally show ?thesis using sum.remove [OF assms(2) o(4), of "\<lambda>q. count (mset (outs js q)) d"] by (simp add: in_degree_def)
qed

definition built_inv :: "nat \<Rightarrow> nat \<Rightarrow> jobs \<Rightarrow> bool" where
  "built_inv pool_size max_in js \<longleftrightarrow> finite (dom js) \<and> card (dom js) \<le> pool_size \<and> (\<forall>p. set (outs js p) \<subseteq> dom js) \<and>
     (\<forall>j jb. js j = Some jb \<longrightarrow> jstate jb = Idle \<and> pending_in jb = in_degree js j \<and> length (in_nodes jb) = in_degree js j \<and> in_degree js j < max_in \<and>
       barrier_id jb = k_no_barrier)"

lemma in_degree_new:
  assumes "finite (dom js)" "js j = None" "out_nodes jb = []"
  shows "in_degree (js(j \<mapsto> jb)) d = in_degree js d"
proof -
  have o: "outs (js(j \<mapsto> jb)) = outs js" using assms(2,3) by (auto simp: outs_def fun_eq_iff)
  have "in_degree (js(j \<mapsto> jb)) d = (\<Sum>p \<in> insert j (dom js). count (mset (outs js p)) d)" by (simp add: in_degree_def o)
  also have "\<dots> = in_degree js d" using assms by (subst sum.insert) (auto simp: in_degree_def outs_def)
  finally show ?thesis .
qed

lemma built_invariant:
  assumes "built pool_size max_in max_out js" "0 < max_in" "max_in \<le> 2 ^ 64"
  shows "built_inv pool_size max_in js"
  using assms(1)
proof (induction rule: built.induct)
  case built_empty
  then show ?case by (simp add: built_inv_def outs_def)
next
  case (built_job js j k a)
  let ?js = "js(j \<mapsto> (new_job a)\<lparr>keep_alive := k\<rparr>)"
  have fin: "finite (dom js)" using built_job.IH by (simp add: built_inv_def)
  have deg: "in_degree ?js d = in_degree js d" for d using in_degree_new [OF fin built_job.hyps(2)] by (simp add: new_job_def)
  have o: "outs ?js p = outs js p" for p using built_job.hyps(2) by (auto simp: outs_def new_job_def)
  have "count (mset (outs js p)) j = 0" if "p \<in> dom js" for p
    using built_job.IH built_job.hyps(2) by (auto simp: built_inv_def count_eq_zero_iff)
  then have "in_degree js j = 0" unfolding in_degree_def by (rule sum.neutral [OF ballI])
  moreover have "card (dom ?js) \<le> pool_size" using built_job.hyps fin by (simp add: card_insert_if)
  ultimately show ?case using built_job.IH assms(2) deg o unfolding built_inv_def
    by (auto simp: new_job_def split: if_splits)
next
  case (built_edge js p c js')
  have fin: "finite (dom js)" using built_edge.IH by (simp add: built_inv_def)
  note o = outs_connect [OF built_edge.hyps(2)] and deg = in_degree_connect [OF built_edge.hyps(2) fin]
  obtain jp jc where e: "js p = Some jp" "(js(p \<mapsto> jp\<lparr>out_nodes := out_nodes jp @ [c]\<rparr>)) c = Some jc" "length (in_nodes jc) + 1 \<noteq> max_in"
    "js' = (js(p \<mapsto> jp\<lparr>out_nodes := out_nodes jp @ [c]\<rparr>))(c \<mapsto> jc\<lparr>in_nodes := in_nodes jc @ [p], pending_in := fetch_add 1 (pending_in jc)\<rparr>)"
    using connectD [OF built_edge.hyps(2)] by metis
  have jc: "jstate jc = Idle" "pending_in jc = in_degree js c" "length (in_nodes jc) = in_degree js c" "in_degree js c < max_in" "barrier_id jc = k_no_barrier"
    using e(1,2) built_edge.IH by (auto simp: built_inv_def split: if_splits)
  have f: "fetch_add 1 (pending_in jc) = in_degree js c + 1" using jc(2,3,4) e(3) assms(3) by (simp add: fetch_add_def)
  have "jstate jb = Idle \<and> pending_in jb = in_degree js' j \<and> length (in_nodes jb) = in_degree js' j \<and> in_degree js' j < max_in \<and>
      barrier_id jb = k_no_barrier" if ja: "js' j = Some jb" for j jb
  proof (cases "j = c")
    case True
    then have "jb = jc\<lparr>in_nodes := in_nodes jc @ [p], pending_in := fetch_add 1 (pending_in jc)\<rparr>" using ja e(4) by simp
    then show ?thesis using True jc e(3) f deg by simp
  next
    case False
    then obtain j0 where j0: "js j = Some j0" "jstate jb = jstate j0" "pending_in jb = pending_in j0" "in_nodes jb = in_nodes j0" "barrier_id jb = barrier_id j0"
      using ja e(1,4) by (cases "j = p") auto
    then show ?thesis using False deg built_edge.IH by (simp add: built_inv_def)
  qed
  moreover have "set (outs js' q) \<subseteq> dom js'" for q using o built_edge.IH by (auto simp: built_inv_def)
  ultimately show ?case using built_edge.IH by (simp add: built_inv_def o(2))
qed

theorem built_fresh_graph:
  assumes "built pool_size max_in max_out js" "0 < max_in" "max_in \<le> 2 ^ 64" "pool_size < 2 ^ 64" "acyclic (edges js)"
  shows "fresh_graph js"
  using built_invariant [OF assms(1-3)] assms(4,5) unfolding built_inv_def fresh_graph_def by (fastforce simp: edges_outs Range_iff)

section \<open>Limits of the code\<close>

text \<open>
  A harness holds one node less than its size. If the harness of the dependent node is full, \<open>connect\<close> throws after the edge was entered on
  the other side, without counting it. Resetting a graph in which two paths join counts the dependencies behind the join once per path.
\<close>

theorem harness_holds_one_less: "length xs < cap \<Longrightarrow> harness_add cap x xs = Inr ys \<Longrightarrow> length ys < cap"
  by (auto simp: harness_add_def split: if_splits)

theorem connect_leaves_half_edge:
  assumes "js p = Some jp" "js c = Some jc" "p \<noteq> c" "length (out_nodes jp) + 1 \<noteq> max_out" "length (in_nodes jc) + 1 = max_in"
  shows "\<exists>js'. connect max_in max_out p c js = (js', Some Harness_Overflow) \<and> c \<in> set (outs js' p) \<and> js' c = Some jc"
  using assms by (auto simp: connect_def harness_add_def outs_def)

definition joined :: jobs where
  "joined = (let j = new_job affinity_any in [0 \<mapsto> j\<lparr>out_nodes := [1, 2]\<rparr>, 1 \<mapsto> j\<lparr>in_nodes := [0], out_nodes := [3]\<rparr>,
     2 \<mapsto> j\<lparr>in_nodes := [0], out_nodes := [3]\<rparr>, 3 \<mapsto> j\<lparr>in_nodes := [1, 2], out_nodes := [4]\<rparr>, 4 \<mapsto> j\<lparr>in_nodes := [3]\<rparr>])"

theorem reset_overcounts: "\<exists>js'. reset 0 joined = Some (Inr js') \<and> map_option (length \<circ> in_nodes) (js' 4) = Some 1 \<and> map_option pending_in (js' 4) = Some 2"
  by (simp add: reset_def joined_def new_job_def reset_agenda.simps fetch_add_def Let_def)

end
