(* ===== verification/Job_System.thy ===== *)
theory Job_System
  imports Job_Graph
begin

text \<open>
  The job system (\<open>thread/job/job_system.cpp\<close>, \<open>impl/worker.cpp\<close>, \<open>impl/scheduler.cpp\<close>, \<open>impl/barrier.h\<close>) as a machine whose threads take turns: one atomic access to
  shared data per step, in any order. Atomics are sequentially consistent. The job queues are those of an external library; a queue is the list of
  the jobs in it, \<open>push\<close> waits while it is full, and \<open>try_pop\<close> fails on an empty queue and otherwise removes some element, chosen by
  a parameter of the step.
\<close>

section \<open>State\<close>

text \<open>
  Where a thread is in \<open>WorkerThread::run\<close>, or in \<open>wait_until\<close> and \<open>foreground_work\<close> for the main thread. A worker that finds nothing
  evaluates the predicate of the condition variable (\<open>Sleeping\<close>), is about to block (\<open>Falling\<close>), and is blocked (\<open>Waiting\<close>); \<open>Waking\<close> is the main
  thread before its call of \<open>notify_all\<close>, \<open>Notify\<close> a thread that has dispatched a child before that of \<open>try_schedule\<close>.
\<close>

datatype pc = Loop | Looking | Look_Public | Look_Steal nat | Sleeping | Falling | Waiting | Waking | Popped nat | Running nat
  | Children nat "nat list" | Removed nat nat "nat list" | Ready nat nat "nat list" | Won nat nat "nat list" | Notify nat "nat list"
  | Unbarrier nat | Releasing nat | Finishing | Stopping

record worker =
  q_public :: "nat list"
  q_private :: "nat list"
  stealing_round_robin :: nat
  should_terminate :: bool
  notified :: bool
  pc :: pc

record barrier =
  bar_pending :: nat
  in_use :: bool

record job_sys =
  jobs :: jobs
  workers :: "worker list"
  round_robin :: "nat list"
  pending :: nat
  barriers :: "barrier list"

record js_config =
  queue_size :: nat
  max_stealing_attempts :: nat

text \<open>What an observer sees: the kernel of a job starts, or it has returned.\<close>

datatype event = Start nat | Finish nat

definition new_worker :: worker where
  "new_worker = \<lparr>q_public = [], q_private = [], stealing_round_robin = 0, should_terminate = False, notified = False, pc = Loop\<rparr>"

definition new_barrier :: barrier where
  "new_barrier = \<lparr>bar_pending = 0, in_use = False\<rparr>"

definition worker_count :: "nat \<Rightarrow> nat \<Rightarrow> nat \<Rightarrow> nat" where
  "worker_count max_threads max_workers cores = min (if max_workers \<noteq> 0 then min max_threads (max_workers + 1) else max_threads) cores"

definition new_job_system :: "nat \<Rightarrow> nat \<Rightarrow> jobs \<Rightarrow> job_sys" where
  "new_job_system threads max_barriers js = \<lparr>jobs = js, workers = replicate threads new_worker, round_robin = replicate threads 0, pending = 0,
     barriers = replicate max_barriers new_barrier\<rparr>"

section \<open>Barriers\<close>

definition barrier_finished :: "barrier \<Rightarrow> bool" where
  "barrier_finished b \<longleftrightarrow> bar_pending b = 0"

text \<open>The first unused barrier, marked as used.\<close>

definition create_barrier :: "job_sys \<Rightarrow> nat \<times> job_sys" where
  "create_barrier s = (case filter (\<lambda>i. \<not> in_use (barriers s ! i)) [0..<length (barriers s)] of [] \<Rightarrow> (k_no_barrier, s)
     | i # _ \<Rightarrow> (i, s\<lparr>barriers := (barriers s)[i := (barriers s ! i)\<lparr>in_use := True\<rparr>]\<rparr>))"

definition get_barrier :: "nat \<Rightarrow> job_sys \<Rightarrow> job_fault + barrier" where
  "get_barrier i s = res_bind (job_assert (i < length (barriers s))) (\<lambda>_. Inr (barriers s ! i))"

definition destroy_barrier :: "nat \<Rightarrow> job_sys \<Rightarrow> job_fault + job_sys" where
  "destroy_barrier i s = res_bind (get_barrier i s) (\<lambda>b. res_bind (job_assert (barrier_finished b)) (\<lambda>_.
     res_bind (job_assert (in_use b)) (\<lambda>_. Inr (s\<lparr>barriers := (barriers s)[i := b\<lparr>in_use := False\<rparr>]\<rparr>))))"

definition barrier_add :: "nat \<Rightarrow> nat \<Rightarrow> job_sys \<Rightarrow> job_fault + job_sys" where
  "barrier_add i k s = (if i = k_no_barrier then Inr s else res_bind (get_barrier i s) (\<lambda>b.
     Inr (s\<lparr>barriers := (barriers s)[i := b\<lparr>bar_pending := fetch_add k (bar_pending b)\<rparr>]\<rparr>)))"

definition barrier_remove :: "nat \<Rightarrow> job_sys \<Rightarrow> job_fault + job_sys" where
  "barrier_remove i s = (if i = k_no_barrier then Inr s else res_bind (get_barrier i s) (\<lambda>b.
     Inr (s\<lparr>barriers := (barriers s)[i := b\<lparr>bar_pending := fetch_sub1 (bar_pending b)\<rparr>]\<rparr>)))"

section \<open>Scheduling\<close>

definition upd_worker :: "nat \<Rightarrow> (worker \<Rightarrow> worker) \<Rightarrow> job_sys \<Rightarrow> job_sys" where
  "upd_worker t f s = s\<lparr>workers := (workers s)[t := f (workers s ! t)]\<rparr>"

definition set_job :: "nat \<Rightarrow> job \<Rightarrow> job_sys \<Rightarrow> job_sys" where
  "set_job j jb s = s\<lparr>jobs := (jobs s)(j \<mapsto> jb)\<rparr>"

text \<open>\<open>notify_all\<close>: whoever blocks on the condition variable now will wake up; a thread that blocks later will not notice.\<close>

definition notify_all :: "job_sys \<Rightarrow> job_sys" where
  "notify_all s = s\<lparr>workers := map (\<lambda>w. w\<lparr>notified := True\<rparr>) (workers s)\<rparr>"

text \<open>\<open>None\<close> while the queue is full.\<close>

definition submit :: "js_config \<Rightarrow> nat \<Rightarrow> nat \<Rightarrow> bool \<Rightarrow> job_sys \<Rightarrow> job_sys option" where
  "submit cfg tid j st s =
     (let w = workers s ! tid; q = (if st then q_public w else q_private w) in
      if queue_size cfg \<le> length q then None
      else Some (upd_worker tid (\<lambda>w. if st then w\<lparr>q_public := q @ [j]\<rparr> else w\<lparr>q_private := q @ [j]\<rparr>) s))"

definition dispatch_tid :: "nat \<Rightarrow> nat \<Rightarrow> u32 \<Rightarrow> nat" where
  "dispatch_tid threads rr a = tid_hint a + (if balance a then rr else 0) mod (threads - tid_hint a)"

definition dispatch :: "js_config \<Rightarrow> nat \<Rightarrow> nat \<Rightarrow> job_sys \<Rightarrow> job_fault + job_sys option" where
  "dispatch cfg t j s =
     res_bind (deref (jobs s) j) (\<lambda>jb.
     let n = length (workers s); rr = round_robin s ! t; a = affinity jb in
     res_bind (job_assert (tid_hint a < n)) (\<lambda>_.
     Inr (submit cfg (dispatch_tid n rr a) j (stealable a) (s\<lparr>round_robin := (round_robin s)[t := if balance a then (rr + 1) mod n else rr]\<rparr>))))"

text \<open>The first half of \<open>try_schedule\<close>: the sanity check and the exchange that only one thread wins.\<close>

definition claim :: "nat \<Rightarrow> job_sys \<Rightarrow> job_fault + bool \<times> job_sys" where
  "claim j s = res_bind (deref (jobs s) j) (\<lambda>jb. res_bind (job_assert (is_ready jb)) (\<lambda>_.
     Inr (case exchange_state Idle Pending jb of (ok, jb') \<Rightarrow> (ok, set_job j jb' s))))"

definition try_schedule :: "js_config \<Rightarrow> nat \<Rightarrow> nat \<Rightarrow> nat \<Rightarrow> job_sys \<Rightarrow> job_fault + (bool \<times> job_sys) option" where
  "try_schedule cfg t j num_jobs s =
     res_bind (claim j s) (\<lambda>(ok, s1).
     if \<not> ok then Inr (Some (False, s1))
     else res_bind (dispatch cfg t j (s1\<lparr>pending := (if num_jobs \<noteq> 0 then fetch_add num_jobs (pending s1) else pending s1)\<rparr>)) (\<lambda>r.
          Inr (map_option (\<lambda>s2. (True, notify_all s2)) r)))"

text \<open>
  \<open>Task::schedule\<close> by thread \<open>t\<close> in one step: before the push that makes the root visible, the other threads read nothing of what is written, and after it
  there is only the notification.
\<close>

definition task_schedule :: "js_config \<Rightarrow> nat \<Rightarrow> nat \<Rightarrow> nat \<Rightarrow> job_sys \<Rightarrow> (job_fault + (bool \<times> job_sys) option) option" where
  "task_schedule cfg t r b s =
     (case jobs s r of None \<Rightarrow> Some (Inl Dangling_Job)
      | Some jb \<Rightarrow>
        if in_nodes jb \<noteq> [] then Some (Inl Job_Assertion)
        else map_option (\<lambda>walk. res_bind walk (\<lambda>(num_jobs, js). res_bind (barrier_add b num_jobs (s\<lparr>jobs := js\<rparr>)) (try_schedule cfg t r num_jobs)))
          (if out_nodes jb = [] then Some (Inr (1, (jobs s)(r \<mapsto> jb\<lparr>barrier_id := b\<rparr>)))
           else map_option (map_sum id (\<lambda>(marked, js). (length marked, js))) (depth_first_walk b [r] [] (jobs s))))"

definition is_busy :: "job_sys \<Rightarrow> bool" where
  "is_busy s \<longleftrightarrow> 0 < pending s"

section \<open>Worker threads\<close>

definition set_pc :: "nat \<Rightarrow> pc \<Rightarrow> job_sys \<Rightarrow> job_sys" where
  "set_pc t p = upd_worker t (\<lambda>w. w\<lparr>pc := p\<rparr>)"

text \<open>The element at position \<open>i\<close>, counted cyclically, and the rest of the queue.\<close>

definition try_pop :: "nat \<Rightarrow> nat list \<Rightarrow> (nat \<times> nat list) option" where
  "try_pop i q = (if q = [] then None else let k = i mod length q in Some (q ! k, take k q @ drop (Suc k) q))"

definition pop_private :: "nat \<Rightarrow> nat \<Rightarrow> pc \<Rightarrow> job_sys \<Rightarrow> job_sys" where
  "pop_private i t other s = (case try_pop i (q_private (workers s ! t)) of None \<Rightarrow> set_pc t other s
     | Some (j, q) \<Rightarrow> set_pc t (Popped j) (upd_worker t (\<lambda>w. w\<lparr>q_private := q\<rparr>) s))"

definition pop_public :: "nat \<Rightarrow> nat \<Rightarrow> nat \<Rightarrow> pc \<Rightarrow> job_sys \<Rightarrow> job_sys" where
  "pop_public i v t other s = (case try_pop i (q_public (workers s ! v)) of None \<Rightarrow> set_pc t other s
     | Some (j, q) \<Rightarrow> set_pc t (Popped j) (upd_worker v (\<lambda>w. w\<lparr>q_public := q\<rparr>) s))"

definition stealable_workers :: "nat \<Rightarrow> nat \<Rightarrow> nat list" where
  "stealable_workers threads t = filter (\<lambda>u. u \<noteq> t) [0..<threads]"

definition steal_job :: "nat \<Rightarrow> nat \<Rightarrow> nat \<Rightarrow> job_sys \<Rightarrow> job_fault + job_sys" where
  "steal_job i t k s =
     (let vs = stealable_workers (length (workers s)) t; rr = stealing_round_robin (workers s ! t) in
      if vs = [] then Inl No_Victim
      else Inr (pop_public i (vs ! (rr mod length vs)) t (Look_Steal (Suc k)) (upd_worker t (\<lambda>w. w\<lparr>stealing_round_robin := fetch_add 1 rr\<rparr>) s)))"

definition had_pending_jobs :: "worker \<Rightarrow> bool" where
  "had_pending_jobs w \<longleftrightarrow> q_public w \<noteq> [] \<or> q_private w \<noteq> []"

definition release_job :: "nat \<Rightarrow> job_sys \<Rightarrow> job_fault + job_sys" where
  "release_job j s = res_bind (deref (jobs s) j) (\<lambda>jb. res_bind (job_assert (jstate jb = Processed)) (\<lambda>_. Inr (s\<lparr>jobs := (jobs s)(j := None)\<rparr>)))"

definition silent :: "job_fault + job_sys \<Rightarrow> job_fault + event option \<times> job_sys" where
  "silent = map_sum id (Pair None)"

text \<open>The next atomic step of thread \<open>t\<close>; \<open>i\<close> chooses what a queue returns, and a blocked thread may wake up by itself (\<open>i \<noteq> 0\<close>).\<close>

definition worker_step :: "js_config \<Rightarrow> nat \<Rightarrow> nat \<Rightarrow> job_sys \<Rightarrow> job_fault + event option \<times> job_sys" where
  "worker_step cfg i t s = (case pc (workers s ! t) of
       Loop \<Rightarrow> silent (Inr (set_pc t (if t \<noteq> 0 \<and> should_terminate (workers s ! t) then Stopping else Looking) s))
     | Looking \<Rightarrow> silent (Inr (pop_private i t Look_Public s))
     | Look_Public \<Rightarrow> silent (Inr (pop_public i t t (Look_Steal 0) s))
     | Look_Steal k \<Rightarrow> silent (if k < max_stealing_attempts cfg then steal_job i t k s else Inr (set_pc t (if t = 0 then Waking else Sleeping) s))
     | Sleeping \<Rightarrow> silent (Inr (set_pc t (if had_pending_jobs (workers s ! t) \<or> should_terminate (workers s ! t) then Loop else Falling) s))
     | Falling \<Rightarrow> silent (Inr (upd_worker t (\<lambda>w. w\<lparr>notified := False, pc := Waiting\<rparr>) s))
     | Waiting \<Rightarrow> silent (Inr (if notified (workers s ! t) \<or> i \<noteq> 0 then set_pc t Sleeping s else s))
     | Waking \<Rightarrow> silent (Inr (set_pc t Loop (notify_all s)))
     | Popped j \<Rightarrow> res_bind (deref (jobs s) j) (\<lambda>jb. case exchange_state Pending Executing jb of
           (True, jb') \<Rightarrow> Inr (Some (Start j), set_pc t (Running j) (set_job j jb' s))
         | (False, _) \<Rightarrow> Inr (None, set_pc t (if t = 0 then Waking else Loop) s))
     | Running j \<Rightarrow> res_bind (deref (jobs s) j) (\<lambda>jb. case exchange_state Executing Processed jb of
           (ok, jb') \<Rightarrow> res_bind (job_assert ok) (\<lambda>_. Inr (Some (Finish j), set_pc t (Children j (out_nodes jb)) (set_job j jb' s))))
     | Children j [] \<Rightarrow> silent (Inr (set_pc t (Unbarrier j) s))
     | Children j (c # cs) \<Rightarrow> silent (res_bind (deref (jobs s) c) (\<lambda>jc. Inr (set_pc t (Removed j c cs) (set_job c (remove_dependency jc) s))))
     | Removed j c cs \<Rightarrow> silent (res_bind (deref (jobs s) c) (\<lambda>jc. Inr (set_pc t (if is_ready jc then Ready j c cs else Children j cs) s)))
     | Ready j c cs \<Rightarrow> silent (res_bind (claim c s) (\<lambda>(ok, s1). Inr (set_pc t (if ok then Won j c cs else Children j cs) s1)))
     | Won j c cs \<Rightarrow> silent (res_bind (dispatch cfg t c s) (\<lambda>r. Inr (case r of None \<Rightarrow> s | Some s1 \<Rightarrow> set_pc t (Notify j cs) s1)))
     | Notify j cs \<Rightarrow> silent (Inr (set_pc t (Children j cs) (notify_all s)))
     | Unbarrier j \<Rightarrow> silent (res_bind (deref (jobs s) j) (\<lambda>jb. res_bind (barrier_remove (barrier_id jb) s) (\<lambda>s1. Inr (set_pc t (Releasing j) s1))))
     | Releasing j \<Rightarrow> silent (res_bind (deref (jobs s) j) (\<lambda>jb.
           res_bind (if keep_alive jb then Inr s else release_job j s) (\<lambda>s1. Inr (set_pc t Finishing s1))))
     | Finishing \<Rightarrow> silent (Inr (set_pc t Loop (s\<lparr>pending := fetch_sub1 (pending s)\<rparr>)))
     | Stopping \<Rightarrow> silent (Inr s))"

text \<open>\<open>Task::try_preempt_and_execute\<close>: the caller takes a job that is idle or queued and runs it.\<close>

definition try_preempt_and_execute :: "nat \<Rightarrow> job_sys \<Rightarrow> job_fault + (event list \<times> bool \<times> job_sys)" where
  "try_preempt_and_execute j s =
     res_bind (deref (jobs s) j) (\<lambda>jb.
     res_bind (job_assert (in_nodes jb = [] \<and> out_nodes jb = [])) (\<lambda>_.
     if jstate jb = Idle \<or> jstate jb = Pending
     then res_bind (barrier_remove (barrier_id jb) s) (\<lambda>s1.
          res_bind (release_job j (set_job j (jb\<lparr>jstate := Processed\<rparr>) s1)) (\<lambda>s2.
          Inr ([Start j, Finish j], True, s2\<lparr>pending := fetch_sub1 (pending s2)\<rparr>)))
     else Inr ([], False, s)))"

text \<open>\<open>WorkerThread::panic\<close>: the essential jobs of the private queue, run by the caller.\<close>

definition panic :: "jobs \<Rightarrow> worker \<Rightarrow> job_fault + nat list \<times> worker" where
  "panic js w = (if list_all (\<lambda>j. js j \<noteq> None) (q_private w)
     then Inr (filter (\<lambda>j. essential (the (js j))) (q_private w), w\<lparr>q_private := []\<rparr>) else Inl Dangling_Job)"

end
