(* ===== verification/Job_Invariant.thy ===== *)
theory Job_Invariant
  imports Job_System
begin

text \<open>
  The invariant of a running job system. A job in flight is a token that lies in one queue or is held by one thread; the dependencies that are still to be
  removed are a multiset of jobs, to which finished parents contribute through the thread that finishes them. The counters of the
  code are the multiplicities and sizes of these multisets.
\<close>

section \<open>Tokens and dependencies\<close>

fun pc_jobs :: "pc \<Rightarrow> nat multiset" where
  "pc_jobs (Popped j) = {#j#}"
| "pc_jobs (Running j) = {#j#}"
| "pc_jobs (Children j cs) = {#j#}"
| "pc_jobs (Removed j c cs) = {#j#}"
| "pc_jobs (Ready j c cs) = {#j#}"
| "pc_jobs (Won j c cs) = {#j, c#}"
| "pc_jobs (Notify j cs) = {#j#}"
| "pc_jobs (Unbarrier j) = {#j#}"
| "pc_jobs (Releasing j) = {#j#}"
| "pc_jobs _ = {#}"

fun pc_todo :: "pc \<Rightarrow> nat multiset" where
  "pc_todo (Children j cs) = mset cs"
| "pc_todo (Removed j c cs) = mset cs"
| "pc_todo (Ready j c cs) = mset cs"
| "pc_todo (Won j c cs) = mset cs"
| "pc_todo (Notify j cs) = mset cs"
| "pc_todo _ = {#}"

text \<open>The child that a thread may be about to schedule.\<close>

fun pc_child :: "pc \<Rightarrow> nat option" where
  "pc_child (Removed j c cs) = Some c"
| "pc_child (Ready j c cs) = Some c"
| "pc_child _ = None"

definition worker_jobs :: "worker \<Rightarrow> nat multiset" where
  "worker_jobs w = mset (q_public w) + mset (q_private w) + pc_jobs (pc w)"

definition inflight :: "job_sys \<Rightarrow> nat multiset" where
  "inflight s = sum_list (map worker_jobs (workers s))"

definition finishing :: "job_sys \<Rightarrow> nat" where
  "finishing s = sum_list (map (\<lambda>w. of_bool (pc w = Finishing)) (workers s))"

definition st :: "job_sys \<Rightarrow> nat \<Rightarrow> job_state option" where
  "st s j = map_option jstate (jobs s j)"

definition unprocessed :: "job_sys \<Rightarrow> nat set" where
  "unprocessed s = {j. st s j \<in> {Some Idle, Some Pending, Some Executing}}"

definition todo :: "jobs \<Rightarrow> job_sys \<Rightarrow> nat multiset" where
  "todo J s = (\<Sum>p \<in> unprocessed s. mset (outs J p)) + sum_list (map (pc_todo \<circ> pc) (workers s))"

definition pc_ok :: "jobs \<Rightarrow> (nat \<Rightarrow> job_state option) \<Rightarrow> nat multiset \<Rightarrow> pc \<Rightarrow> bool" where
  "pc_ok J f td p = (case p of
       Popped j \<Rightarrow> f j = Some Pending
     | Running j \<Rightarrow> f j = Some Executing
     | Children j cs \<Rightarrow> f j = Some Processed \<and> set cs \<subseteq> set (outs J j)
     | Removed j c cs \<Rightarrow> f j = Some Processed \<and> set (c # cs) \<subseteq> set (outs J j)
     | Ready j c cs \<Rightarrow> f j = Some Processed \<and> set (c # cs) \<subseteq> set (outs J j) \<and> c \<notin># td
     | Won j c cs \<Rightarrow> f j = Some Processed \<and> set (c # cs) \<subseteq> set (outs J j) \<and> f c = Some Pending
     | Notify j cs \<Rightarrow> f j = Some Processed \<and> set cs \<subseteq> set (outs J j)
     | Unbarrier j \<Rightarrow> f j = Some Processed
     | Releasing j \<Rightarrow> f j = Some Processed
     | _ \<Rightarrow> True)"

definition worker_ok :: "jobs \<Rightarrow> (nat \<Rightarrow> job_state option) \<Rightarrow> nat multiset \<Rightarrow> worker \<Rightarrow> bool" where
  "worker_ok J f td w \<longleftrightarrow> (\<forall>j \<in> set (q_public w) \<union> set (q_private w). f j = Some Pending) \<and> pc_ok J f td (pc w)"

definition same_node :: "job \<Rightarrow> job \<Rightarrow> bool" where
  "same_node a b \<longleftrightarrow> in_nodes a = in_nodes b \<and> out_nodes a = out_nodes b \<and> affinity a = affinity b \<and> keep_alive a = keep_alive b"

section \<open>The invariant\<close>

text \<open>\<open>J\<close> is the graph as it was built, \<open>E\<close> the set of jobs of the graphs that were scheduled.\<close>

definition js_inv :: "jobs \<Rightarrow> nat set \<Rightarrow> job_sys \<Rightarrow> bool" where
  "js_inv J E s \<longleftrightarrow>
     (\<forall>j jb. jobs s j = Some jb \<longrightarrow> (\<exists>j0. J j = Some j0 \<and> same_node jb j0)) \<and>
     (\<forall>j j0. J j = Some j0 \<longrightarrow> keep_alive j0 \<longrightarrow> jobs s j \<noteq> None) \<and>
     (\<forall>w \<in> set (workers s). worker_ok J (st s) (todo J s) w) \<and>
     (\<forall>j. count (inflight s) j \<le> 1) \<and>
     (\<forall>j. st s j \<in> {Some Pending, Some Executing} \<longrightarrow> j \<in># inflight s) \<and>
     (\<forall>j. st s j \<noteq> Some Preempted) \<and>
     (\<forall>c jc. jobs s c = Some jc \<longrightarrow> pending_in jc = count (todo J s) c) \<and>
     (\<forall>c \<in># todo J s. st s c = Some Idle) \<and>
     E \<subseteq> dom J \<and> (\<forall>j \<in> dom J. st s j \<noteq> Some Idle \<longrightarrow> j \<in> E) \<and>
     (\<forall>p c. (p, c) \<in> edges J \<longrightarrow> (p \<in> E \<longleftrightarrow> c \<in> E)) \<and>
     (\<forall>j \<in> E. st s j = Some Idle \<longrightarrow> j \<in># todo J s \<or> (\<exists>w \<in> set (workers s). pc_child (pc w) = Some j)) \<and>
     pending s = card {j \<in> E. st s j = Some Idle} + size (inflight s) + finishing s \<and>
     length (round_robin s) = length (workers s)"

lemma sum_list_upd:
  fixes f :: "'a \<Rightarrow> 'b :: comm_monoid_add"
  shows "t < length ws \<Longrightarrow> sum_list (map f (ws[t := w])) + f (ws ! t) = sum_list (map f ws) + f w"
proof (induction ws arbitrary: t)
  case (Cons x ws)
  then show ?case by (cases t) (auto simp: ac_simps)
qed simp

lemma worker_ok_frame:
  assumes "worker_ok J f td w" "\<And>j. j \<in># worker_jobs w \<Longrightarrow> f' j = f j" "td' \<subseteq># td"
  shows "worker_ok J f' td' w"
proof -
  have "c \<notin># td \<Longrightarrow> c \<notin># td'" for c using assms(3) mset_subset_eqD by metis
  then show ?thesis using assms(1,2) by (cases "pc w") (auto simp: worker_ok_def pc_ok_def worker_jobs_def)
qed

lemma two_workers:
  assumes "t < length ws" "u < length ws" "t \<noteq> u"
  shows "worker_jobs (ws ! t) + worker_jobs (ws ! u) \<subseteq># sum_list (map worker_jobs ws)"
  using assms
proof (induction ws arbitrary: t u)
  case (Cons w ws)
  have in_sum: "i < length ws \<Longrightarrow> worker_jobs (ws ! i) \<subseteq># sum_list (map worker_jobs ws)" for i
    by (metis length_map mset_subset_eq_add_left nth_map nth_mem split_list sum_list.append sum_list.Cons add.left_commute)
  show ?case
  proof (cases t)
    case 0
    then obtain u' where "u = Suc u'" "u' < length ws" using Cons.prems by (cases u) auto
    then show ?thesis using 0 in_sum by simp
  next
    case (Suc t')
    show ?thesis
    proof (cases u)
      case 0
      then show ?thesis using Suc Cons.prems in_sum [of t'] by (simp add: add.commute)
    next
      case (Suc u')
      then have "worker_jobs (ws ! t') + worker_jobs (ws ! u') \<subseteq># sum_list (map worker_jobs ws)"
        using Cons \<open>t = Suc t'\<close> by simp
      then show ?thesis using Suc \<open>t = Suc t'\<close> by (simp add: subset_mset.add_increasing)
    qed
  qed
qed simp

lemma worker_in_inflight: "t < length (workers s) \<Longrightarrow> j \<in># worker_jobs (workers s ! t) \<Longrightarrow> j \<in># inflight s"
  by (auto simp: inflight_def set_mset_sum_list intro: nth_mem)

lemma inflight_held:
  assumes "j \<in># inflight s"
  obtains t where "t < length (workers s)" "j \<in># worker_jobs (workers s ! t)"
proof -
  have "\<exists>w \<in> set ws. j \<in># worker_jobs w" if "j \<in># sum_list (map worker_jobs ws)" for ws
    using that by (induction ws) auto
  then show thesis using assms that unfolding inflight_def by (metis in_set_conv_nth)
qed

lemma exclusive:
  assumes "\<forall>j. count (inflight s) j \<le> 1" "t < length (workers s)" "u < length (workers s)" "t \<noteq> u" "j \<in># worker_jobs (workers s ! t)"
  shows "j \<notin># worker_jobs (workers s ! u)"
proof
  assume "j \<in># worker_jobs (workers s ! u)"
  then have "2 \<le> count (worker_jobs (workers s ! t) + worker_jobs (workers s ! u)) j" using assms(5) by (simp add: Suc_le_eq add_mono_thms_linordered_field(5) flip: count_greater_zero_iff)
  also have "\<dots> \<le> count (inflight s) j" unfolding inflight_def by (rule mset_subset_eq_count [OF two_workers [OF assms(2-4)]])
  finally show False using assms(1) by (metis Suc_1 not_less_eq_eq)
qed

text \<open>The parts of the invariant by name.\<close>

lemma js_invD:
  assumes "js_inv J E s"
  shows inv_node: "jobs s j = Some jb \<Longrightarrow> \<exists>j0. J j = Some j0 \<and> same_node jb j0"
    and inv_keep: "J j = Some j0 \<Longrightarrow> keep_alive j0 \<Longrightarrow> jobs s j \<noteq> None"
    and inv_worker: "w \<in> set (workers s) \<Longrightarrow> worker_ok J (st s) (todo J s) w"
    and inv_count: "\<forall>j. count (inflight s) j \<le> 1"
    and inv_flight: "st s j \<in> {Some Pending, Some Executing} \<Longrightarrow> j \<in># inflight s"
    and inv_preempt: "st s j \<noteq> Some Preempted"
    and inv_pending_in: "jobs s c = Some jc \<Longrightarrow> pending_in jc = count (todo J s) c"
    and inv_todo: "c \<in># todo J s \<Longrightarrow> st s c = Some Idle"
    and inv_E: "E \<subseteq> dom J"
    and inv_started: "j \<in> dom J \<Longrightarrow> st s j \<noteq> Some Idle \<Longrightarrow> j \<in> E"
    and inv_closed: "(p, c) \<in> edges J \<Longrightarrow> p \<in> E \<longleftrightarrow> c \<in> E"
    and inv_idle: "j \<in> E \<Longrightarrow> st s j = Some Idle \<Longrightarrow> j \<in># todo J s \<or> (\<exists>w \<in> set (workers s). pc_child (pc w) = Some j)"
    and inv_pending: "pending s = card {j \<in> E. st s j = Some Idle} + size (inflight s) + finishing s"
    and inv_rr: "length (round_robin s) = length (workers s)"
  using assms unfolding js_inv_def by blast+

lemma inflight_state: "js_inv J E s \<Longrightarrow> j \<in># inflight s \<Longrightarrow> st s j \<in> {Some Pending, Some Executing, Some Processed}"
proof -
  assume i: "js_inv J E s" and j: "j \<in># inflight s"
  then obtain t where t: "t < length (workers s)" "j \<in># worker_jobs (workers s ! t)" using inflight_held by metis
  have "worker_ok J (st s) (todo J s) (workers s ! t)" using inv_worker [OF i] t(1) by simp
  then show ?thesis using t(2) by (cases "pc (workers s ! t)") (auto simp: worker_ok_def pc_ok_def worker_jobs_def)
qed

text \<open>Steps that move tokens between queues and threads, or only the control of a thread.\<close>

lemma quiet_step:
  assumes i: "js_inv J E s" and eq: "jobs s' = jobs s" "pending s' = pending s" "inflight s' = inflight s" "todo J s' = todo J s"
    "finishing s' = finishing s" "length (round_robin s') = length (workers s')"
    and w: "\<And>w. w \<in> set (workers s') \<Longrightarrow> worker_ok J (st s) (todo J s) w"
    and l: "\<And>j. st s j = Some Idle \<Longrightarrow> \<exists>w \<in> set (workers s). pc_child (pc w) = Some j \<Longrightarrow>
        j \<in># todo J s \<or> (\<exists>w \<in> set (workers s'). pc_child (pc w) = Some j)"
  shows "js_inv J E s'"
proof -
  have st: "st s' = st s" by (simp add: st_def fun_eq_iff eq(1))
  have "\<forall>j \<in> E. st s j = Some Idle \<longrightarrow> j \<in># todo J s \<or> (\<exists>w \<in> set (workers s'). pc_child (pc w) = Some j)"
    using inv_idle [OF i] l by blast
  then show ?thesis using i w eq(6) unfolding js_inv_def st eq(1-5) by blast
qed

lemma todo_eq:
  assumes "jobs s' = jobs s" "sum_list (map (pc_todo \<circ> pc) (workers s')) = sum_list (map (pc_todo \<circ> pc) (workers s))"
  shows "todo J s' = todo J s"
  using assms by (simp add: todo_def unprocessed_def st_def)

text \<open>Replacing the worker of one thread.\<close>

lemma upd_worker_fields [simp]:
  "jobs (upd_worker t f s) = jobs s" "pending (upd_worker t f s) = pending s" "round_robin (upd_worker t f s) = round_robin s"
  "barriers (upd_worker t f s) = barriers s" "length (workers (upd_worker t f s)) = length (workers s)"
  "workers (upd_worker t f s) = (workers s)[t := f (workers s ! t)]"
  by (simp_all add: upd_worker_def)

lemma inflight_upd:
  assumes "t < length (workers s)" "workers s' = (workers s)[t := w]"
  shows "inflight s' + worker_jobs (workers s ! t) = inflight s + worker_jobs w"
  using sum_list_upd [OF assms(1), of worker_jobs w] by (simp add: inflight_def assms(2))

lemma finishing_upd:
  assumes "t < length (workers s)" "workers s' = (workers s)[t := w]"
  shows "finishing s' + of_bool (pc (workers s ! t) = Finishing) = finishing s + of_bool (pc w = Finishing)"
  using sum_list_upd [OF assms(1), of "\<lambda>w. of_bool (pc w = Finishing)" w] by (simp add: finishing_def assms(2))

lemma todo_upd:
  assumes "t < length (workers s)" "workers s' = (workers s)[t := w]" "unprocessed s' = unprocessed s"
  shows "todo J s' + pc_todo (pc (workers s ! t)) = todo J s + pc_todo (pc w)"
  using sum_list_upd [OF assms(1), of "pc_todo \<circ> pc" w] by (simp add: todo_def assms(2,3) ac_simps)

text \<open>The state of one job changes in the hands of thread \<open>t\<close>, which has its token, or of which nobody has the token; all other threads stay as they are.\<close>

lemma other_workers_ok:
  assumes i: "js_inv J E s" and t: "t < length (workers s)" "workers s' = (workers s)[t := w]"
    and st': "\<And>x. x \<noteq> j \<Longrightarrow> st s' x = st s x" and tok: "j \<in># worker_jobs (workers s ! t) \<or> j \<notin># inflight s"
    and td: "todo J s' \<subseteq># todo J s" and own: "worker_ok J (st s') (todo J s') w"
  shows "\<forall>w' \<in> set (workers s'). worker_ok J (st s') (todo J s') w'"
proof
  fix w' assume "w' \<in> set (workers s')"
  then obtain u where u: "u < length (workers s)" "w' = (if u = t then w else workers s ! u)"
    using t by (auto simp: in_set_conv_nth nth_list_update)
  show "worker_ok J (st s') (todo J s') w'"
  proof (cases "u = t")
    case False
    have "j \<notin># worker_jobs (workers s ! u)"
      using tok exclusive [OF inv_count [OF i] t(1) u(1)] False worker_in_inflight [OF u(1)] by blast
    then have "st s' x = st s x" if "x \<in># worker_jobs (workers s ! u)" for x using st' that by metis
    then show ?thesis using False u inv_worker [OF i, of "workers s ! u"] td by (auto intro: worker_ok_frame)
  qed (use u own in simp)
qed

section \<open>Quiet steps\<close>

lemma pc_quiet:
  assumes i: "js_inv J E s" and t: "t < length (workers s)" "workers s' = (workers s)[t := w]"
    and eq: "jobs s' = jobs s" "pending s' = pending s" "round_robin s' = round_robin s" "q_public w = q_public (workers s ! t)" "q_private w = q_private (workers s ! t)"
    and pc: "pc_jobs (pc w) = pc_jobs (pc (workers s ! t))" "pc_todo (pc w) = pc_todo (pc (workers s ! t))"
      "pc w = Finishing \<longleftrightarrow> pc (workers s ! t) = Finishing" "pc_ok J (st s) (todo J s) (pc w)"
    and child: "\<And>j. pc_child (pc (workers s ! t)) = Some j \<Longrightarrow> st s j = Some Idle \<Longrightarrow> j \<in># todo J s \<or> pc_child (pc w) = Some j"
  shows "js_inv J E s'"
proof (rule quiet_step [OF i eq(1,2)])
  have "worker_jobs w = worker_jobs (workers s ! t)" by (simp add: worker_jobs_def eq pc)
  then show "inflight s' = inflight s" using inflight_upd [OF t] by simp
  show "todo J s' = todo J s" using todo_upd [OF t, of J] pc(2) by (simp add: unprocessed_def st_def eq(1))
  show "finishing s' = finishing s" using finishing_upd [OF t] pc(3) by simp
  show "length (round_robin s') = length (workers s')" using inv_rr [OF i] t eq by simp
  have own: "worker_ok J (st s) (todo J s) (workers s ! t)" using inv_worker [OF i] t(1) by simp
  then have w: "worker_ok J (st s) (todo J s) w" using pc(4) by (simp add: worker_ok_def eq)
  show "worker_ok J (st s) (todo J s) w'" if "w' \<in> set (workers s')" for w'
    using that w inv_worker [OF i] set_update_subset_insert [of "workers s" t w] t(2) by auto
  show "j \<in># todo J s \<or> (\<exists>w \<in> set (workers s'). pc_child (pc w) = Some j)"
    if idle: "st s j = Some Idle" and held: "\<exists>w \<in> set (workers s). pc_child (pc w) = Some j" for j
  proof -
    obtain u where u: "u < length (workers s)" "pc_child (pc (workers s ! u)) = Some j" using held by (auto simp: in_set_conv_nth)
    have "workers s' ! u = (if u = t then w else workers s ! u)" "workers s' ! u \<in> set (workers s')"
      using t u(1) by (auto intro: nth_mem)
    then show ?thesis using u child idle by (metis (full_types))
  qed
qed

lemma try_popD:
  assumes "try_pop i q = Some (j, q')"
  shows "mset q = add_mset j (mset q')" "set q' \<subseteq> set q" "j \<in> set q"
proof -
  define k where "k = i mod length q"
  have q: "q \<noteq> []" "j = q ! k" "q' = take k q @ drop (Suc k) q" using assms by (auto simp: try_pop_def k_def Let_def split: if_splits)
  have k: "k < length q" using q(1) by (simp add: k_def)
  have "q = take k q @ q ! k # drop (Suc k) q" using k by (rule id_take_nth_drop)
  then have "mset q = mset (take k q @ q ! k # drop (Suc k) q)" by simp
  then show "mset q = add_mset j (mset q')" using q by simp
  then show "set q' \<subseteq> set q" "j \<in> set q" by (metis set_mset_mset set_mset_add_mset_insert subset_insertI insertI1)+
qed

text \<open>A token moves from one worker to another, or within one.\<close>

lemma token_moves:
  fixes s1 :: job_sys
  assumes i: "js_inv J E s" and v: "v < length (workers s)" "workers s1 = (workers s)[v := wv]" and t: "t < length (workers s)" "workers s' = (workers s1)[t := wt]"
    and eq: "jobs s' = jobs s" "pending s' = pending s" "length (round_robin s') = length (round_robin s)"
    and tok: "worker_jobs wv + worker_jobs wt = worker_jobs (workers s ! v) + worker_jobs (workers s1 ! t)"
    and td: "pc wv = pc (workers s ! v)" "pc_todo (pc wt) = pc_todo (pc (workers s1 ! t))" "pc wt \<noteq> Finishing" "pc (workers s1 ! t) \<noteq> Finishing"
      "pc_child (pc (workers s1 ! t)) = None"
    and ok: "worker_ok J (st s) (todo J s) wv" "worker_ok J (st s) (todo J s) wt"
  shows "js_inv J E s'"
proof (rule quiet_step [OF i eq(1,2)])
  have t1: "t < length (workers s1)" using t v by simp
  have "inflight s' + worker_jobs (workers s1 ! t) + worker_jobs (workers s ! v) = inflight s + worker_jobs wv + worker_jobs wt"
    using inflight_upd [OF t1 t(2)] inflight_upd [OF v] by (metis (no_types, lifting) add.assoc add.commute)
  then have "inflight s' + (worker_jobs (workers s ! v) + worker_jobs (workers s1 ! t)) = inflight s + (worker_jobs wv + worker_jobs wt)"
    by (simp only: ac_simps)
  then show "inflight s' = inflight s" unfolding tok by (rule add_right_imp_eq)
  have f: "sum_list (map f (workers s')) + f (workers s1 ! t) + f (workers s ! v) = sum_list (map f (workers s)) + f wv + f wt" for f :: "worker \<Rightarrow> nat multiset"
    using sum_list_upd [OF t1, of f wt] sum_list_upd [OF v(1), of f wv] t(2) v(2) by (metis (no_types, lifting) add.assoc add.commute)
  show "todo J s' = todo J s" using f [of "pc_todo \<circ> pc"] td(1,2) by (intro todo_eq [OF eq(1)]) simp
  show "finishing s' = finishing s"
    using finishing_upd [OF t1 t(2)] finishing_upd [OF v] td by simp
  show "length (round_robin s') = length (workers s')" using inv_rr [OF i] t v eq by simp
  show "worker_ok J (st s) (todo J s) w'" if "w' \<in> set (workers s')" for w'
  proof -
    have "w' = wt \<or> w' = wv \<or> w' \<in> set (workers s)"
      using that set_update_subset_insert [of "workers s1" t wt] set_update_subset_insert [of "workers s" v wv] t(2) v(2) by auto
    then show ?thesis using ok inv_worker [OF i] by blast
  qed
  show "j \<in># todo J s \<or> (\<exists>w \<in> set (workers s'). pc_child (pc w) = Some j)"
    if held: "\<exists>w \<in> set (workers s). pc_child (pc w) = Some j" for j
  proof -
    obtain u where u: "u < length (workers s)" "pc_child (pc (workers s ! u)) = Some j" using held by (auto simp: in_set_conv_nth)
    then have "pc_child (pc (workers s1 ! u)) = Some j" using v td(1) by (auto simp: nth_list_update)
    then have "pc_child (pc (workers s' ! u)) = Some j" using td(5) t(2) by (cases "u = t") auto
    then show ?thesis using u(1) v t by (metis length_list_update nth_mem)
  qed
qed

section \<open>Steps that change a job\<close>

lemma st_set_job: "jobs s' = (jobs s)(j \<mapsto> jb) \<Longrightarrow> st s' = (st s)(j \<mapsto> jstate jb)"
  by (auto simp: st_def fun_eq_iff)

text \<open>Each lemma has the state \<open>s'\<close> after the step with the worker \<open>w\<close> of thread \<open>t\<close> and the job changed.\<close>

lemma pending_step:
  assumes "workers s' = (workers s)[t := (workers s ! t)\<lparr>pc := p\<rparr>]" "round_robin s' = round_robin s" "js_inv J E s" "t < length (workers s)"
  shows "length (round_robin s') = length (workers s')" "worker_jobs ((workers s ! t)\<lparr>pc := p\<rparr>) + pc_jobs (pc (workers s ! t)) = worker_jobs (workers s ! t) + pc_jobs p"
    "inflight s' + pc_jobs (pc (workers s ! t)) = inflight s + pc_jobs p"
proof -
  show "length (round_robin s') = length (workers s')" using assms inv_rr by simp
  show w: "worker_jobs ((workers s ! t)\<lparr>pc := p\<rparr>) + pc_jobs (pc (workers s ! t)) = worker_jobs (workers s ! t) + pc_jobs p"
    by (simp add: worker_jobs_def)
  have "inflight s' + pc_jobs (pc (workers s ! t)) + worker_jobs (workers s ! t) = inflight s + pc_jobs p + worker_jobs (workers s ! t)"
    using inflight_upd [OF assms(4,1)] w by (metis (no_types, lifting) add.assoc add.commute)
  then show "inflight s' + pc_jobs (pc (workers s ! t)) = inflight s + pc_jobs p" by (rule add_right_imp_eq)
qed

lemma own_tokens: "js_inv J E s \<Longrightarrow> t < length (workers s) \<Longrightarrow> count (worker_jobs (workers s ! t)) j \<le> 1"
proof -
  assume i: "js_inv J E s" and t: "t < length (workers s)"
  have "worker_jobs w \<subseteq># sum_list (map worker_jobs ws)" if "w \<in> set ws" for w ws
    using that by (induction ws) (auto simp: subset_mset.add_increasing subset_mset.add_increasing2)
  then have "worker_jobs (workers s ! t) \<subseteq># inflight s" using t by (simp add: inflight_def)
  then show ?thesis using inv_count [OF i] mset_subset_eq_count le_trans by metis
qed

lemma child_kept:
  assumes "workers s' = (workers s)[t := w]" "\<exists>w \<in> set (workers s). pc_child (pc w) = Some x" "pc_child (pc (workers s ! t)) \<noteq> Some x"
  shows "\<exists>w \<in> set (workers s'). pc_child (pc w) = Some x"
proof -
  obtain u where u: "u < length (workers s)" "pc_child (pc (workers s ! u)) = Some x" using assms(2) by (auto simp: in_set_conv_nth)
  then have "workers s' ! u = workers s ! u" "u < length (workers s')" using assms(1,3) by (cases "u = t"; simp)+
  then show ?thesis using u by (metis nth_mem)
qed

text \<open>Thread \<open>t\<close> changes one job and its own control state.\<close>

lemma job_step:
  assumes i: "js_inv J E s" and t: "t < length (workers s)" "workers s' = (workers s)[t := (workers s ! t)\<lparr>pc := p\<rparr>]" "round_robin s' = round_robin s"
    and other: "\<And>x. x \<noteq> j \<Longrightarrow> jobs s' x = jobs s x" and node: "\<And>jb'. jobs s' j = Some jb' \<Longrightarrow> \<exists>jb. jobs s j = Some jb \<and> same_node jb' jb"
    and keep: "jobs s' j = None \<Longrightarrow> \<exists>jb. jobs s j = Some jb \<and> \<not> keep_alive jb" and E: "j \<in> E"
    and count: "\<And>x. count (inflight s') x \<le> 1" and fl: "st s' j \<in> {Some Pending, Some Executing} \<Longrightarrow> j \<in># inflight s'"
    and flx: "\<And>x. x \<noteq> j \<Longrightarrow> x \<in># inflight s \<Longrightarrow> x \<in># inflight s'" and pre: "st s' j \<noteq> Some Preempted"
    and pin: "\<And>x jx. jobs s' x = Some jx \<Longrightarrow> pending_in jx = count (todo J s') x" and td: "todo J s' \<subseteq># todo J s"
    and tdj: "j \<in># todo J s' \<Longrightarrow> st s' j = Some Idle" and tok: "j \<in># worker_jobs (workers s ! t) \<or> j \<notin># inflight s"
    and own: "worker_ok J (st s') (todo J s') ((workers s ! t)\<lparr>pc := p\<rparr>)"
    and idle: "\<And>x. x \<in> E \<Longrightarrow> st s' x = Some Idle \<Longrightarrow> x \<in># todo J s' \<or> (\<exists>w \<in> set (workers s'). pc_child (pc w) = Some x)"
    and pend: "pending s' = card {x \<in> E. st s' x = Some Idle} + size (inflight s') + finishing s'"
  shows "js_inv J E s'"
proof -
  have st: "x \<noteq> j \<Longrightarrow> st s' x = st s x" for x using other by (simp add: st_def)
  have "\<exists>j0. J x = Some j0 \<and> same_node jb j0" if x: "jobs s' x = Some jb" for x jb
  proof (cases "x = j")
    case True
    then obtain b where "jobs s j = Some b" "same_node jb b" using node x by blast
    then show ?thesis using inv_node [OF i] True by (fastforce simp: same_node_def)
  qed (use inv_node [OF i] other x in auto)
  moreover have "jobs s' x \<noteq> None" if x: "J x = Some j0" "keep_alive j0" for x j0
    using inv_keep [OF i x] inv_node [OF i] x other keep by (cases "x = j") (fastforce simp: same_node_def)+
  moreover have "\<forall>w \<in> set (workers s'). worker_ok J (st s') (todo J s') w" using other_workers_ok [OF i t(1,2) st tok td own] .
  moreover have "x \<in># inflight s'" if "st s' x \<in> {Some Pending, Some Executing}" for x
    using that fl flx inv_flight [OF i, of x] st by (cases "x = j") auto
  moreover have "st s' x \<noteq> Some Preempted" for x using pre inv_preempt [OF i] st by (cases "x = j") auto
  moreover have "st s' c = Some Idle" if "c \<in># todo J s'" for c
    using that tdj st inv_todo [OF i, of c] mset_subset_eqD [OF td] by (cases "c = j") auto
  moreover have "x \<in> E" if "x \<in> dom J" "st s' x \<noteq> Some Idle" for x using that E inv_started [OF i] st by (cases "x = j") auto
  ultimately show ?thesis
    using count pin idle pend inv_E [OF i] inv_closed [OF i] inv_rr [OF i] t unfolding js_inv_def by auto
qed

lemma in_E: "js_inv J E s \<Longrightarrow> jobs s j = Some jb \<Longrightarrow> jstate jb \<noteq> Idle \<Longrightarrow> j \<in> E"
  using inv_node inv_started by (fastforce simp: st_def)

lemma child_in_E: "js_inv J E s \<Longrightarrow> st s j = Some Processed \<Longrightarrow> c \<in> set (outs J j) \<Longrightarrow> c \<in> E"
proof -
  assume i: "js_inv J E s" and j: "st s j = Some Processed" and c: "c \<in> set (outs J j)"
  obtain jb where jb: "jobs s j = Some jb" "jstate jb = Processed" using j by (auto simp: st_def)
  have "(j, c) \<in> edges J" using c by (simp add: edges_outs)
  then show "c \<in> E" using in_E [OF i jb(1)] jb(2) inv_closed [OF i] by auto
qed

text \<open>The thread that holds a job changes its state, without touching dependencies.\<close>

lemma holder_step:
  assumes i: "js_inv J E s" and t: "t < length (workers s)" and pc: "pc_jobs (pc (workers s ! t)) = {#j#}" "pc_jobs p = {#j#}" "pc_child (pc (workers s ! t)) = None"
    and jb: "jobs s j = Some jb" "jstate jb \<noteq> Idle" "x \<noteq> Idle" "x \<noteq> Pending" "x \<noteq> Preempted"
    and s': "workers s' = (workers s)[t := (workers s ! t)\<lparr>pc := p\<rparr>]" "jobs s' = (jobs s)(j \<mapsto> jb\<lparr>jstate := x\<rparr>)"
      "pending s' = pending s" "round_robin s' = round_robin s"
    and td: "todo J s' = todo J s" and p: "pc_ok J (st s') (todo J s) p" "p \<noteq> Finishing"
  shows "js_inv J E s'"
proof -
  have st: "st s' = (st s)(j \<mapsto> x)" using st_set_job [OF s'(2)] by simp
  have stj: "st s j = Some (jstate jb)" using jb(1) by (simp add: st_def)
  have fl: "inflight s' = inflight s" using pending_step(3) [OF s'(1,4) i t] pc by simp
  have "pc (workers s ! t) \<noteq> Finishing" using pc(1) by auto
  then have fin: "finishing s' = finishing s" using finishing_upd [OF t s'(1)] p(2) by simp
  have tok: "j \<in># worker_jobs (workers s ! t)" using pc by (simp add: worker_jobs_def)
  have idle: "st s' y = Some Idle \<longleftrightarrow> st s y = Some Idle" for y using stj jb(2,3) by (simp add: st)
  have ok: "worker_ok J (st s) (todo J s) (workers s ! t)" using inv_worker [OF i] t by simp
  have "j \<notin> set (q_public (workers s ! t)) \<union> set (q_private (workers s ! t))"
    using own_tokens [OF i t, of j] pc by (auto simp: worker_jobs_def simp flip: count_greater_zero_iff)
  then have own: "worker_ok J (st s') (todo J s') ((workers s ! t)\<lparr>pc := p\<rparr>)" using ok p(1) by (auto simp: worker_ok_def st td)
  show ?thesis
  proof (rule job_step [OF i t s'(1,4), of j])
    show "y \<in># todo J s' \<or> (\<exists>w \<in> set (workers s'). pc_child (pc w) = Some y)" if "y \<in> E" "st s' y = Some Idle" for y
      using inv_idle [OF i that(1)] that(2) child_kept [OF s'(1)] pc(3) unfolding idle td by fastforce
    show "pending_in jx = count (todo J s') y" if "jobs s' y = Some jx" for y jx
      using that inv_pending_in [OF i] jb(1) unfolding td s'(2) by (auto split: if_splits)
    show "j \<in># todo J s' \<Longrightarrow> st s' j = Some Idle" using inv_todo [OF i, of j] stj jb(2) by (simp add: td)
    show "pending s' = card {y \<in> E. st s' y = Some Idle} + size (inflight s') + finishing s'"
      using inv_pending [OF i] by (simp add: s' idle fl fin)
  qed (use jb s'(2) in_E [OF i jb(1)] inv_count [OF i] tok own worker_in_inflight [OF t tok] in \<open>auto simp: same_node_def st fl td\<close>)
qed

lemma start_step:
  assumes i: "js_inv J E s" and t: "t < length (workers s)" and pc: "pc (workers s ! t) = Popped j"
    and jb: "jobs s j = Some jb" "jstate jb = Pending"
    and s': "workers s' = (workers s)[t := (workers s ! t)\<lparr>pc := Running j\<rparr>]" "jobs s' = (jobs s)(j \<mapsto> jb\<lparr>jstate := Executing\<rparr>)"
      "pending s' = pending s" "round_robin s' = round_robin s"
  shows "js_inv J E s'"
proof (rule holder_step [OF i t _ _ _ jb(1) _ _ _ _ s'])
  have "unprocessed s' = unprocessed s" using jb by (auto simp: unprocessed_def st_def s'(2))
  then show "todo J s' = todo J s" using todo_upd [OF t s'(1), of J] pc by simp
qed (use pc jb in \<open>auto simp: pc_ok_def st_set_job [OF s'(2)]\<close>)

lemma finite_unprocessed: "js_inv J E s \<Longrightarrow> finite (dom J) \<Longrightarrow> finite (unprocessed s)"
proof -
  assume i: "js_inv J E s" and J: "finite (dom J)"
  have "unprocessed s \<subseteq> dom J" using inv_node [OF i] by (fastforce simp: unprocessed_def st_def)
  then show ?thesis using J finite_subset by blast
qed

lemma outs_node: "js_inv J E s \<Longrightarrow> jobs s j = Some jb \<Longrightarrow> outs J j = out_nodes jb"
  using inv_node by (fastforce simp: outs_def same_node_def)

lemma finish_step:
  assumes i: "js_inv J E s" and t: "t < length (workers s)" and pc: "pc (workers s ! t) = Running j" and J: "finite (dom J)"
    and jb: "jobs s j = Some jb" "jstate jb = Executing"
    and s': "workers s' = (workers s)[t := (workers s ! t)\<lparr>pc := Children j (out_nodes jb)\<rparr>]" "jobs s' = (jobs s)(j \<mapsto> jb\<lparr>jstate := Processed\<rparr>)"
      "pending s' = pending s" "round_robin s' = round_robin s"
  shows "js_inv J E s'"
proof (rule holder_step [OF i t _ _ _ jb(1) _ _ _ _ s'])
  have un: "unprocessed s' = unprocessed s - {j}" "j \<in> unprocessed s" using jb by (auto simp: unprocessed_def st_def s'(2))
  show "todo J s' = todo J s"
    using sum_list_upd [OF t, of "pc_todo \<circ> pc" "(workers s ! t)\<lparr>pc := Children j (out_nodes jb)\<rparr>"] pc
    by (simp add: todo_def s'(1) un sum.remove [OF finite_unprocessed [OF i J] un(2)] outs_node [OF i jb(1)] ac_simps)
qed (use pc jb outs_node [OF i jb(1)] in \<open>auto simp: pc_ok_def st_set_job [OF s'(2)]\<close>)

lemma remove_step:
  assumes i: "js_inv J E s" and t: "t < length (workers s)" and pc: "pc (workers s ! t) = Children j (c # cs)"
    and jc: "jobs s c = Some jc"
    and s': "workers s' = (workers s)[t := (workers s ! t)\<lparr>pc := Removed j c cs\<rparr>]" "jobs s' = (jobs s)(c \<mapsto> remove_dependency jc)"
      "pending s' = pending s" "round_robin s' = round_robin s"
  shows "js_inv J E s'"
proof -
  have ok: "worker_ok J (st s) (todo J s) (workers s ! t)" using inv_worker [OF i] t by simp
  have st: "st s' = st s" using st_set_job [OF s'(2)] jc by (auto simp: remove_dependency_def st_def fun_eq_iff)
  have un: "unprocessed s' = unprocessed s" by (simp add: unprocessed_def st)
  have td: "todo J s = add_mset c (todo J s')" using todo_upd [OF t s'(1) un, of J] pc by simp
  then have sub: "todo J s' \<subseteq># todo J s" by simp
  have c: "st s c = Some Idle" using inv_todo [OF i, of c] td by simp
  have fl: "inflight s' = inflight s" using pending_step(3) [OF s'(1,4) i t] pc by simp
  have fin: "finishing s' = finishing s" using finishing_upd [OF t s'(1)] pc by simp
  have notok: "c \<notin># inflight s" using inflight_state [OF i, of c] c by auto
  have own: "worker_ok J (st s') (todo J s') ((workers s ! t)\<lparr>pc := Removed j c cs\<rparr>)"
    using ok pc by (auto simp: worker_ok_def pc_ok_def st)
  have cE: "c \<in> E" using ok pc by (intro child_in_E [OF i, of j]) (auto simp: worker_ok_def pc_ok_def)
  have new: "\<exists>w \<in> set (workers s'). pc_child (pc w) = Some c" using t by (auto simp: s'(1) set_update_memI intro: bexI [of _ "(workers s ! t)\<lparr>pc := Removed j c cs\<rparr>"])
  have pin: "pending_in jc = count (todo J s) c" using inv_pending_in [OF i jc] .
  show ?thesis
  proof (rule job_step [OF i t s'(1,4), of c])
    show "x \<in># todo J s' \<or> (\<exists>w \<in> set (workers s'). pc_child (pc w) = Some x)" if "x \<in> E" "st s' x = Some Idle" for x
      using inv_idle [OF i that(1)] that(2) child_kept [OF s'(1)] pc new unfolding st td by (cases "x = c") fastforce+
    show "pending_in jx = count (todo J s') x" if "jobs s' x = Some jx" for x jx
      using that inv_pending_in [OF i, of x] pin unfolding s'(2) td by (auto simp: remove_dependency_def fetch_sub1_def split: if_splits)
    show "pending s' = card {x \<in> E. st s' x = Some Idle} + size (inflight s') + finishing s'"
      using inv_pending [OF i] by (simp add: s' st fl fin)
  qed (use jc s'(2) cE inv_count [OF i] own notok sub c inv_preempt [OF i] in \<open>auto simp: same_node_def st fl remove_dependency_def\<close>)
qed

lemma claim_step:
  assumes i: "js_inv J E s" and t: "t < length (workers s)" and pc: "pc (workers s ! t) = Ready j c cs" and J: "finite (dom J)"
    and jc: "jobs s c = Some jc" "jstate jc = Idle"
    and s': "workers s' = (workers s)[t := (workers s ! t)\<lparr>pc := Won j c cs\<rparr>]" "jobs s' = (jobs s)(c \<mapsto> jc\<lparr>jstate := Pending\<rparr>)"
      "pending s' = pending s" "round_robin s' = round_robin s"
  shows "js_inv J E s'"
proof -
  have ok: "worker_ok J (st s) (todo J s) (workers s ! t)" using inv_worker [OF i] t by simp
  have st: "st s' = (st s)(c \<mapsto> Pending)" using st_set_job [OF s'(2)] by simp
  have c: "st s c = Some Idle" using jc by (simp add: st_def)
  have un: "unprocessed s' = unprocessed s" using c by (auto simp: unprocessed_def st)
  have td: "todo J s' = todo J s" using todo_upd [OF t s'(1) un, of J] pc by simp
  have nt: "c \<notin># todo J s" using ok pc by (simp add: worker_ok_def pc_ok_def)
  have fl: "inflight s' = add_mset c (inflight s)" using pending_step(3) [OF s'(1,4) i t] pc by (simp add: add_mset_commute)
  have fin: "finishing s' = finishing s" using finishing_upd [OF t s'(1)] pc by simp
  have notok: "c \<notin># inflight s" using inflight_state [OF i, of c] c by auto
  have cE: "c \<in> E" using ok pc by (intro child_in_E [OF i, of j]) (auto simp: worker_ok_def pc_ok_def)
  have "j \<noteq> c" using ok pc c by (auto simp: worker_ok_def pc_ok_def)
  moreover have "c \<notin> set (q_public (workers s ! t)) \<union> set (q_private (workers s ! t))" using ok c by (auto simp: worker_ok_def)
  ultimately have own: "worker_ok J (st s') (todo J s') ((workers s ! t)\<lparr>pc := Won j c cs\<rparr>)"
    using ok pc by (auto simp: worker_ok_def pc_ok_def st)
  have "{x \<in> E. st s x = Some Idle} = insert c {x \<in> E. st s' x = Some Idle}" using cE c by (auto simp: st)
  moreover have "finite E" using inv_E [OF i] J finite_subset by blast
  ultimately have card: "card {x \<in> E. st s x = Some Idle} = Suc (card {x \<in> E. st s' x = Some Idle})" by (simp add: st)
  show ?thesis
  proof (rule job_step [OF i t s'(1,4), of c])
    show "x \<in># todo J s' \<or> (\<exists>w \<in> set (workers s'). pc_child (pc w) = Some x)" if "x \<in> E" "st s' x = Some Idle" for x
      using inv_idle [OF i that(1)] that(2) child_kept [OF s'(1), of x] pc unfolding st td by (cases "x = c") auto
    show "pending_in jx = count (todo J s') x" if "jobs s' x = Some jx" for x jx
      using that inv_pending_in [OF i] jc(1) unfolding td s'(2) by (auto split: if_splits)
    show "count (inflight s') x \<le> 1" for x using inv_count [OF i] notok by (auto simp: fl not_in_iff)
    show "pending s' = card {x \<in> E. st s' x = Some Idle} + size (inflight s') + finishing s'"
      using inv_pending [OF i] by (simp add: s'(3) card fl fin)
  qed (use jc s'(2) cE own notok nt in \<open>auto simp: same_node_def st fl td\<close>)
qed

lemma release_step:
  assumes i: "js_inv J E s" and t: "t < length (workers s)" and pc: "pc (workers s ! t) = Releasing j"
    and jb: "jobs s j = Some jb"
    and s': "workers s' = (workers s)[t := (workers s ! t)\<lparr>pc := Finishing\<rparr>]" "jobs s' = (if keep_alive jb then jobs s else (jobs s)(j := None))"
      "pending s' = pending s" "round_robin s' = round_robin s"
  shows "js_inv J E s'"
proof -
  have ok: "worker_ok J (st s) (todo J s) (workers s ! t)" using inv_worker [OF i] t by simp
  have stj: "st s j = Some Processed" using ok pc by (simp add: worker_ok_def pc_ok_def)
  then have jp: "jstate jb = Processed" using jb by (simp add: st_def)
  have st: "x \<noteq> j \<Longrightarrow> st s' x = st s x" "st s' j = (if keep_alive jb then Some Processed else None)" for x
    using stj by (auto simp: st_def s'(2))
  have idle: "st s' x = Some Idle \<longleftrightarrow> st s x = Some Idle" for x using st stj by (cases "x = j") auto
  have "x \<in> unprocessed s' \<longleftrightarrow> x \<in> unprocessed s" for x using st stj by (cases "x = j") (auto simp: unprocessed_def)
  then have un: "unprocessed s' = unprocessed s" by blast
  have td: "todo J s' = todo J s" using todo_upd [OF t s'(1) un, of J] pc by simp
  have fl: "inflight s = add_mset j (inflight s')" using pending_step(3) [OF s'(1,4) i t] pc by simp
  have fin: "finishing s' = Suc (finishing s)" using finishing_upd [OF t s'(1)] pc by simp
  have tok: "j \<in># worker_jobs (workers s ! t)" using pc by (simp add: worker_jobs_def)
  have "st s' x = Some Pending" if "x \<in> set (q_public (workers s ! t)) \<union> set (q_private (workers s ! t))" for x
    using that ok st(1) stj by (cases "x = j") (auto simp: worker_ok_def)
  then have own: "worker_ok J (st s') (todo J s') ((workers s ! t)\<lparr>pc := Finishing\<rparr>)" by (simp add: worker_ok_def pc_ok_def)
  show ?thesis
  proof (rule job_step [OF i t s'(1,4), of j])
    show "x \<in># todo J s' \<or> (\<exists>w \<in> set (workers s'). pc_child (pc w) = Some x)" if "x \<in> E" "st s' x = Some Idle" for x
      using inv_idle [OF i that(1)] that(2) child_kept [OF s'(1), of x] pc unfolding idle td by auto
    show "pending_in jx = count (todo J s') x" if "jobs s' x = Some jx" for x jx
      using that inv_pending_in [OF i] unfolding td s'(2) by (auto split: if_splits)
    show "count (inflight s') x \<le> 1" for x
    proof -
      have "count (inflight s') x \<le> count (inflight s) x" by (simp add: fl)
      then show ?thesis using inv_count [OF i] le_trans by blast
    qed
    show "pending s' = card {x \<in> E. st s' x = Some Idle} + size (inflight s') + finishing s'"
      using inv_pending [OF i] by (simp add: s'(3) idle fl fin)
    show "x \<noteq> j \<Longrightarrow> x \<in># inflight s \<Longrightarrow> x \<in># inflight s'" for x by (simp add: fl)
    show "j \<in># todo J s' \<Longrightarrow> st s' j = Some Idle" using inv_todo [OF i, of j] stj by (simp add: td)
  qed (use jb s'(2) in_E [OF i jb] jp own tok st in \<open>auto simp: same_node_def td split: if_splits\<close>)
qed

lemma finishing_step:
  assumes i: "js_inv J E s" and t: "t < length (workers s)" and pc: "pc (workers s ! t) = Finishing"
    and s': "workers s' = (workers s)[t := (workers s ! t)\<lparr>pc := Loop\<rparr>]" "jobs s' = jobs s"
      "pending s' = fetch_sub1 (pending s)" "round_robin s' = round_robin s"
  shows "js_inv J E s'"
proof -
  have ok: "worker_ok J (st s) (todo J s) (workers s ! t)" using inv_worker [OF i] t by simp
  have st: "st s' = st s" by (simp add: st_def s'(2) fun_eq_iff)
  have un: "unprocessed s' = unprocessed s" by (simp add: unprocessed_def st)
  have td: "todo J s' = todo J s" using todo_upd [OF t s'(1) un, of J] pc by simp
  have fl: "inflight s' = inflight s" using pending_step(3) [OF s'(1,4) i t] pc by simp
  have fin: "finishing s = Suc (finishing s')" using finishing_upd [OF t s'(1)] pc by simp
  have "worker_ok J (st s) (todo J s) ((workers s ! t)\<lparr>pc := Loop\<rparr>)" using ok by (simp add: worker_ok_def pc_ok_def)
  then have "\<forall>w \<in> set (workers s'). worker_ok J (st s) (todo J s) w"
    using inv_worker [OF i] set_update_subset_insert [of "workers s" t] s'(1) by auto
  moreover have "\<forall>x \<in> E. st s x = Some Idle \<longrightarrow> x \<in># todo J s \<or> (\<exists>w \<in> set (workers s'). pc_child (pc w) = Some x)"
    using inv_idle [OF i] child_kept [OF s'(1)] pc by fastforce
  moreover have "pending s' = card {x \<in> E. st s x = Some Idle} + size (inflight s) + finishing s'"
    using inv_pending [OF i] fin by (simp add: s'(3) fetch_sub1_def)
  moreover have "length (round_robin s') = length (workers s')" using inv_rr [OF i] by (simp add: s')
  ultimately show ?thesis using i unfolding js_inv_def st td fl s'(2) by blast
qed

end
