(* ===== verification/Job_Steps.thy ===== *)
theory Job_Steps
  imports Job_Invariant
begin

text \<open>Every step of a thread, and the scheduling of a graph, keeps the invariant of the job system.\<close>

section \<open>Threads\<close>

lemma set_pc_fields [simp]:
  "jobs (set_pc t p s) = jobs s" "pending (set_pc t p s) = pending s" "round_robin (set_pc t p s) = round_robin s" "barriers (set_pc t p s) = barriers s"
  "workers (set_pc t p s) = (workers s)[t := (workers s ! t)\<lparr>pc := p\<rparr>]"
  by (simp_all add: set_pc_def)

lemma set_job_fields [simp]:
  "jobs (set_job j jb s) = (jobs s)(j \<mapsto> jb)" "pending (set_job j jb s) = pending s" "round_robin (set_job j jb s) = round_robin s"
  "barriers (set_job j jb s) = barriers s" "workers (set_job j jb s) = workers s"
  by (simp_all add: set_job_def)

text \<open>The control states in which a thread holds nothing.\<close>

fun searching :: "pc \<Rightarrow> bool" where
  "searching Loop = True"
| "searching Looking = True"
| "searching Look_Public = True"
| "searching (Look_Steal k) = True"
| "searching Sleeping = True"
| "searching Falling = True"
| "searching Waiting = True"
| "searching Waking = True"
| "searching Stopping = True"
| "searching _ = False"

lemma searchingD: "searching p \<Longrightarrow> pc_jobs p = {#} \<and> pc_todo p = {#} \<and> pc_child p = None \<and> p \<noteq> Finishing \<and> pc_ok J f td p"
  by (cases p) (auto simp: pc_ok_def)

text \<open>A notification only sets the flags.\<close>

lemma notify_fields [simp]:
  "jobs (notify_all s) = jobs s" "pending (notify_all s) = pending s" "round_robin (notify_all s) = round_robin s" "barriers (notify_all s) = barriers s"
  "length (workers (notify_all s)) = length (workers s)"
  by (simp_all add: notify_all_def)

lemma st_notify [simp]: "st (notify_all s) = st s"
  by (simp add: st_def fun_eq_iff)

lemma notify_nth [simp]: "u < length (workers s) \<Longrightarrow> workers (notify_all s) ! u = (workers s ! u)\<lparr>notified := True\<rparr>"
  by (simp add: notify_all_def)

lemma notify_inv:
  assumes i: "js_inv J E s"
  shows "js_inv J E (notify_all s)"
proof (rule quiet_step [OF i])
  have c: "worker_jobs (w\<lparr>notified := True\<rparr>) = worker_jobs w" for w :: worker by (simp add: worker_jobs_def)
  show "inflight (notify_all s) = inflight s" by (simp add: inflight_def notify_all_def comp_def c)
  show "todo J (notify_all s) = todo J s" by (rule todo_eq) (simp_all add: notify_all_def comp_def)
  show "finishing (notify_all s) = finishing s" by (simp add: finishing_def notify_all_def comp_def)
  show "worker_ok J (st s) (todo J s) w" if w: "w \<in> set (workers (notify_all s))" for w
  proof -
    obtain w0 where w0: "w0 \<in> set (workers s)" "w = w0\<lparr>notified := True\<rparr>" using w by (auto simp: notify_all_def)
    show ?thesis using inv_worker [OF i w0(1)] w0(2) by (simp add: worker_ok_def)
  qed
qed (use inv_rr [OF i] in \<open>auto simp: notify_all_def\<close>)

lemma search_step:
  assumes "js_inv J E s" "t < length (workers s)" "searching (pc (workers s ! t))" "searching p"
  shows "js_inv J E (set_pc t p s)"
  by (rule pc_quiet [OF assms(1,2), of _ "(workers s ! t)\<lparr>pc := p\<rparr>"]) (use searchingD [OF assms(3)] searchingD [OF assms(4)] in auto)

lemma pop_private_inv:
  assumes i: "js_inv J E s" and t: "t < length (workers s)" and pc: "searching (pc (workers s ! t))" "searching other"
  shows "js_inv J E (pop_private n t other s)"
proof (cases "try_pop n (q_private (workers s ! t))")
  case (Some r)
  then obtain j q where r: "try_pop n (q_private (workers s ! t)) = Some (j, q)" by (cases r) auto
  note p = try_popD [OF r] and sp = searchingD [OF pc(1)]
  have ok: "worker_ok J (st s) (todo J s) (workers s ! t)" using inv_worker [OF i] t by simp
  let ?wv = "(workers s ! t)\<lparr>q_private := q\<rparr>"
  have "js_inv J E (set_pc t (Popped j) (upd_worker t (\<lambda>w. w\<lparr>q_private := q\<rparr>) s))"
    by (rule token_moves [OF i t, of "upd_worker t (\<lambda>w. w\<lparr>q_private := q\<rparr>) s" ?wv t _ "?wv\<lparr>pc := Popped j\<rparr>"])
      (use t p sp ok in \<open>auto simp: worker_jobs_def worker_ok_def pc_ok_def\<close>)
  then show ?thesis using r by (simp add: pop_private_def)
qed (simp add: pop_private_def search_step [OF i t pc])

lemma pop_public_inv:
  assumes i: "js_inv J E s" and t: "t < length (workers s)" and pc: "searching (pc (workers s ! t))" "searching other" and v: "v < length (workers s)"
  shows "js_inv J E (pop_public n v t other s)"
proof (cases "try_pop n (q_public (workers s ! v))")
  case (Some r)
  then obtain j q where r: "try_pop n (q_public (workers s ! v)) = Some (j, q)" by (cases r) auto
  note p = try_popD [OF r] and sp = searchingD [OF pc(1)]
  have ok: "worker_ok J (st s) (todo J s) (workers s ! t)" "worker_ok J (st s) (todo J s) (workers s ! v)" using inv_worker [OF i] t v by simp_all
  let ?wv = "(workers s ! v)\<lparr>q_public := q\<rparr>"
  let ?s1 = "upd_worker v (\<lambda>w. w\<lparr>q_public := q\<rparr>) s"
  have w1: "workers ?s1 ! t = (if t = v then ?wv else workers s ! t)" using t v by simp
  then have p1: "pc (workers ?s1 ! t) = pc (workers s ! t)" by simp
  have "js_inv J E (set_pc t (Popped j) ?s1)"
    by (rule token_moves [OF i v, of ?s1 ?wv t _ "(workers ?s1 ! t)\<lparr>pc := Popped j\<rparr>"])
      (use t v p sp ok w1 p1 in \<open>auto simp: worker_jobs_def worker_ok_def pc_ok_def nth_list_update\<close>)
  then show ?thesis using r by (simp add: pop_public_def)
qed (simp add: pop_public_def search_step [OF i t pc])

lemma set_stealable: "v \<in> set (stealable_workers n t) \<longleftrightarrow> v < n \<and> v \<noteq> t"
  by (auto simp: stealable_workers_def)

lemma steal_job_inv:
  assumes i: "js_inv J E s" and t: "t < length (workers s)" and pc: "searching (pc (workers s ! t))" and s': "steal_job n t k s = Inr s'"
  shows "js_inv J E s'"
proof -
  let ?vs = "stealable_workers (length (workers s)) t" and ?rr = "stealing_round_robin (workers s ! t)"
  let ?s0 = "upd_worker t (\<lambda>w. w\<lparr>stealing_round_robin := fetch_add 1 ?rr\<rparr>) s"
  have vs: "?vs \<noteq> []" "s' = pop_public n (?vs ! (?rr mod length ?vs)) t (Look_Steal (Suc k)) ?s0"
    using s' by (auto simp: steal_job_def Let_def split: if_splits)
  then have "?vs ! (?rr mod length ?vs) \<in> set ?vs" by (intro nth_mem) simp
  then have v: "?vs ! (?rr mod length ?vs) < length (workers s)" by (simp only: set_stealable)
  have "js_inv J E ?s0"
    by (rule pc_quiet [OF i t, of _ "(workers s ! t)\<lparr>stealing_round_robin := fetch_add 1 ?rr\<rparr>"]) (use inv_worker [OF i] t searchingD [OF pc] in auto)
  then show ?thesis unfolding vs(2) by (rule pop_public_inv) (use t v pc in auto)
qed

lemma dispatch_tid_less: "tid_hint a < n \<Longrightarrow> dispatch_tid n rr a < n"
  using mod_less_divisor [of "n - tid_hint a"] unfolding dispatch_tid_def by (metis less_diff_conv add.commute zero_less_diff)

lemma submit_workers:
  assumes "submit cfg v j b s = Some s1"
  obtains w where "s1 = s\<lparr>workers := (workers s)[v := w]\<rparr>" "worker_jobs w = add_mset j (worker_jobs (workers s ! v))" "pc w = pc (workers s ! v)"
    "set (q_public w) \<union> set (q_private w) = insert j (set (q_public (workers s ! v)) \<union> set (q_private (workers s ! v)))"
    "should_terminate w = should_terminate (workers s ! v)"
proof -
  let ?w = "if b then (workers s ! v)\<lparr>q_public := q_public (workers s ! v) @ [j]\<rparr> else (workers s ! v)\<lparr>q_private := q_private (workers s ! v) @ [j]\<rparr>"
  show thesis
    by (rule that [of ?w]) (use assms in \<open>auto simp: submit_def Let_def upd_worker_def worker_jobs_def split: if_splits\<close>)
qed

lemma dispatchD:
  assumes "dispatch cfg t j s = Inr (Some s1)"
  obtains jb rr v where "jobs s j = Some jb" "v < length (workers s)"
    "submit cfg v j (stealable (affinity jb)) (s\<lparr>round_robin := (round_robin s)[t := rr]\<rparr>) = Some s1"
proof -
  obtain jb where jb: "jobs s j = Some jb" "tid_hint (affinity jb) < length (workers s)"
    "submit cfg (dispatch_tid (length (workers s)) (round_robin s ! t) (affinity jb)) j (stealable (affinity jb)) (s\<lparr>round_robin := (round_robin s)
      [t := if balance (affinity jb) then (round_robin s ! t + 1) mod length (workers s) else round_robin s ! t]\<rparr>) = Some s1"
    using assms by (auto simp: dispatch_def res_bind_eq_Inr deref_def job_assert_def Let_def split: option.splits if_splits)
  show thesis by (rule that [OF jb(1) dispatch_tid_less [OF jb(2)] jb(3)])
qed

lemma won_step:
  assumes i: "js_inv J E s" and t: "t < length (workers s)" and pc: "pc (workers s ! t) = Won j c cs" and d: "dispatch cfg t c s = Inr (Some s1)"
  shows "js_inv J E (set_pc t (Notify j cs) s1)"
proof -
  obtain jb :: job and rr v where v: "v < length (workers s)"
    "submit cfg v c (stealable (affinity jb)) (s\<lparr>round_robin := (round_robin s)[t := rr]\<rparr>) = Some s1"
    using dispatchD [OF d] by metis
  obtain w :: worker where w: "s1 = (s\<lparr>round_robin := (round_robin s)[t := rr]\<rparr>)\<lparr>workers := (workers s)[v := w]\<rparr>" "worker_jobs w = add_mset c (worker_jobs (workers s ! v))"
    "pc w = pc (workers s ! v)" "set (q_public w) \<union> set (q_private w) = insert c (set (q_public (workers s ! v)) \<union> set (q_private (workers s ! v)))"
    by (rule submit_workers [OF v(2)]) simp
  have ok: "worker_ok J (st s) (todo J s) (workers s ! t)" "worker_ok J (st s) (todo J s) (workers s ! v)" using inv_worker [OF i] t v by simp_all
  have ws1: "workers s1 = (workers s)[v := w]" "workers s1 ! t = (if t = v then w else workers s ! t)" using t v by (simp_all add: w(1))
  have p1: "pc (workers s1 ! t) = Won j c cs" using ws1(2) w(3) pc by auto
  have ok1: "worker_ok J (st s) (todo J s) w" using ok pc w(3,4) by (auto simp: worker_ok_def pc_ok_def)
  show ?thesis
  proof (rule token_moves [OF i v(1) ws1(1) t, of _ "(workers s1 ! t)\<lparr>pc := Notify j cs\<rparr>"])
    have "worker_jobs ((workers s1 ! t)\<lparr>pc := Notify j cs\<rparr>) + {#c#} = worker_jobs (workers s1 ! t)" using p1 by (simp add: worker_jobs_def)
    then show "worker_jobs w + worker_jobs ((workers s1 ! t)\<lparr>pc := Notify j cs\<rparr>) = worker_jobs (workers s ! v) + worker_jobs (workers s1 ! t)"
      by (simp add: w(2))
    show "worker_ok J (st s) (todo J s) ((workers s1 ! t)\<lparr>pc := Notify j cs\<rparr>)"
      using ok ok1 pc ws1(2) p1 by (auto simp: worker_ok_def pc_ok_def split: if_splits)
  qed (use ok1 w p1 in auto)
qed

lemma dispatch_fields:
  assumes "dispatch cfg t j s = Inr (Some s1)"
  shows "jobs s1 = jobs s" "pending s1 = pending s" "barriers s1 = barriers s" "length (workers s1) = length (workers s)"
    "length (round_robin s1) = length (round_robin s)"
proof -
  obtain jb :: job and rr v where v: "submit cfg v j (stealable (affinity jb)) (s\<lparr>round_robin := (round_robin s)[t := rr]\<rparr>) = Some s1"
    using dispatchD [OF assms] by metis
  obtain w where "s1 = (s\<lparr>round_robin := (round_robin s)[t := rr]\<rparr>)\<lparr>workers := (workers (s\<lparr>round_robin := (round_robin s)[t := rr]\<rparr>))[v := w]\<rparr>"
    by (rule submit_workers [OF v])
  then show "jobs s1 = jobs s" "pending s1 = pending s" "barriers s1 = barriers s" "length (workers s1) = length (workers s)"
    "length (round_robin s1) = length (round_robin s)" by simp_all
qed

lemma barrier_remove_fields:
  assumes "barrier_remove b s = Inr s1"
  shows "jobs s1 = jobs s" "pending s1 = pending s" "workers s1 = workers s" "round_robin s1 = round_robin s" "length (barriers s1) = length (barriers s)"
  using assms by (auto simp: barrier_remove_def res_bind_eq_Inr split: if_splits)

lemma claimD:
  assumes "claim c s = Inr (ok, s1)"
  obtains jc where "jobs s c = Some jc" "pending_in jc = 0" "ok \<longleftrightarrow> jstate jc = Idle" "s1 = (if ok then set_job c (jc\<lparr>jstate := Pending\<rparr>) s else set_job c jc s)"
  using assms by (auto simp: claim_def res_bind_eq_Inr deref_def job_assert_def is_ready_def exchange_state_def split: option.splits if_splits)

lemma silentD: "silent r = Inr (e, s') \<Longrightarrow> r = Inr s' \<and> e = None"
  by (cases r) (auto simp: silent_def)

theorem worker_step_inv:
  assumes i: "js_inv J E s" and J: "finite (dom J)" and t: "t < length (workers s)" and step: "worker_step cfg n t s = Inr (e, s')"
  shows "js_inv J E s'"
proof -
  have ok: "pc_ok J (st s) (todo J s) (pc (workers s ! t))" using inv_worker [OF i] t by (simp add: worker_ok_def)
  show ?thesis
  proof (cases "pc (workers s ! t)")
    case Loop
    then show ?thesis using step by (auto simp: worker_step_def silent_def intro!: search_step [OF i t])
  next
    case Looking
    then show ?thesis using step by (auto simp: worker_step_def silent_def intro!: pop_private_inv [OF i t])
  next
    case Look_Public
    then show ?thesis using step by (auto simp: worker_step_def silent_def intro!: pop_public_inv [OF i t _ _ t])
  next
    case (Look_Steal k)
    then have "(k < max_stealing_attempts cfg \<and> steal_job n t k s = Inr s') \<or> s' = set_pc t (if t = 0 then Waking else Sleeping) s"
      using step by (auto simp: worker_step_def dest!: silentD split: if_splits)
    then show ?thesis using Look_Steal by (auto intro: steal_job_inv [OF i t] search_step [OF i t])
  next
    case Sleeping
    then show ?thesis using step i by (auto simp: worker_step_def silent_def intro!: search_step [OF i t])
  next
    case Falling
    then have "s' = upd_worker t (\<lambda>w. w\<lparr>notified := False, pc := Waiting\<rparr>) s" using step by (simp add: worker_step_def silent_def)
    then show ?thesis using Falling t by (intro pc_quiet [OF i t, of _ "(workers s ! t)\<lparr>notified := False, pc := Waiting\<rparr>"]) (auto simp: pc_ok_def)
  next
    case Waiting
    then show ?thesis using step i by (auto simp: worker_step_def silent_def intro!: search_step [OF i t] split: if_splits)
  next
    case Waking
    then have "s' = set_pc t Loop (notify_all s)" using step by (simp add: worker_step_def silent_def)
    then show ?thesis using Waking t by (auto intro!: search_step [OF notify_inv [OF i]])
  next
    case Stopping
    then show ?thesis using step i by (simp add: worker_step_def silent_def)
  next
    case (Popped j)
    then obtain jb where jb: "jobs s j = Some jb" "jstate jb = Pending" using ok by (auto simp: pc_ok_def st_def)
    then show ?thesis using step Popped by (auto simp: worker_step_def deref_def exchange_state_def intro: start_step [OF i t Popped jb])
  next
    case (Running j)
    then obtain jb where jb: "jobs s j = Some jb" "jstate jb = Executing" using ok by (auto simp: pc_ok_def st_def)
    then show ?thesis using step Running
      by (auto simp: worker_step_def deref_def exchange_state_def job_assert_def intro: finish_step [OF i t Running J jb])
  next
    case (Children j cs)
    show ?thesis
    proof (cases cs)
      case Nil
      then have "s' = set_pc t (Unbarrier j) s" using step Children by (simp add: worker_step_def silent_def)
      then show ?thesis using Children Nil ok t
        by (intro pc_quiet [OF i t, of _ "(workers s ! t)\<lparr>pc := Unbarrier j\<rparr>"]) (auto simp: pc_ok_def)
    next
      case (Cons c cs')
      then obtain jc where jc: "jobs s c = Some jc" "s' = set_pc t (Removed j c cs') (set_job c (remove_dependency jc) s)"
        using step Children by (auto simp: worker_step_def deref_def dest!: silentD split: option.splits)
      show ?thesis by (rule remove_step [OF i t _ jc(1)]) (use Children Cons jc(2) in auto)
    qed
  next
    case (Removed j c cs)
    then obtain jc where jc: "jobs s c = Some jc" "s' = set_pc t (if is_ready jc then Ready j c cs else Children j cs) s"
      using step by (auto simp: worker_step_def deref_def dest!: silentD split: option.splits)
    have "is_ready jc \<longleftrightarrow> c \<notin># todo J s" using inv_pending_in [OF i jc(1)] by (simp add: is_ready_def not_in_iff)
    then show ?thesis using Removed ok jc(2) t
      by (intro pc_quiet [OF i t, of _ "(workers s ! t)\<lparr>pc := if is_ready jc then Ready j c cs else Children j cs\<rparr>"]) (auto simp: pc_ok_def)
  next
    case (Ready j c cs)
    then obtain b s1 where cl: "claim c s = Inr (b, s1)" "s' = set_pc t (if b then Won j c cs else Children j cs) s1"
      using step by (auto simp: worker_step_def res_bind_eq_Inr dest!: silentD)
    obtain jc where jc: "jobs s c = Some jc" "b \<longleftrightarrow> jstate jc = Idle" "s1 = (if b then set_job c (jc\<lparr>jstate := Pending\<rparr>) s else set_job c jc s)"
      using claimD [OF cl(1)] by metis
    show ?thesis
    proof (cases b)
      case True
      then show ?thesis using cl(2) jc by (intro claim_step [OF i t Ready J jc(1)]) auto
    next
      case False
      then have "st s c \<noteq> Some Idle" "jobs s' = jobs s" using jc cl(2) by (auto simp: st_def fun_upd_idem)
      then show ?thesis using Ready ok False jc(3) cl(2) t
        by (intro pc_quiet [OF i t, of _ "(workers s ! t)\<lparr>pc := Children j cs\<rparr>"]) (auto simp: pc_ok_def)
    qed
  next
    case (Won j c cs)
    then obtain r where r: "dispatch cfg t c s = Inr r" "s' = (case r of None \<Rightarrow> s | Some s1 \<Rightarrow> set_pc t (Notify j cs) s1)"
      using step by (auto simp: worker_step_def res_bind_eq_Inr dest!: silentD)
    then show ?thesis using i won_step [OF i t Won] by (cases r) auto
  next
    case (Notify j cs)
    then have "s' = set_pc t (Children j cs) (notify_all s)" using step by (simp add: worker_step_def silent_def)
    then show ?thesis using Notify ok t inv_worker [OF notify_inv [OF i], of "workers (notify_all s) ! t"]
      by (intro pc_quiet [OF notify_inv [OF i], of t _ "(workers (notify_all s) ! t)\<lparr>pc := Children j cs\<rparr>"]) (auto simp: worker_ok_def pc_ok_def)
  next
    case (Unbarrier j)
    then obtain jb :: job and s1 where s1: "barrier_remove (barrier_id jb) s = Inr s1" "s' = set_pc t (Releasing j) s1"
      using step by (auto simp: worker_step_def res_bind_eq_Inr dest!: silentD)
    then show ?thesis using Unbarrier ok t barrier_remove_fields [OF s1(1)]
      by (intro pc_quiet [OF i t, of _ "(workers s ! t)\<lparr>pc := Releasing j\<rparr>"]) (auto simp: pc_ok_def)
  next
    case (Releasing j)
    then obtain jb where jb: "jobs s j = Some jb" "s' = set_pc t Finishing (if keep_alive jb then s else s\<lparr>jobs := (jobs s)(j := None)\<rparr>)"
      using step by (auto simp: worker_step_def res_bind_eq_Inr deref_def release_job_def dest!: silentD split: option.splits if_splits)
    then show ?thesis by (intro release_step [OF i t Releasing jb(1)]) auto
  next
    case Finishing
    then have "s' = set_pc t Loop (s\<lparr>pending := fetch_sub1 (pending s)\<rparr>)" using step by (simp add: worker_step_def silent_def)
    then show ?thesis by (intro finishing_step [OF i t Finishing]) auto
  qed
qed

end
