(* ===== verification/Job_Schedule.thy ===== *)
theory Job_Schedule
  imports Job_Steps
begin

text \<open>
  Scheduling a graph keeps the invariant, and the reachable states of the job system: any interleaving of thread steps with the scheduling of graphs.
\<close>

section \<open>Roots\<close>

text \<open>A root owns its graph if every edge into the graph comes from within.\<close>

definition sole_root :: "jobs \<Rightarrow> nat \<Rightarrow> bool" where
  "sole_root J r \<longleftrightarrow> (\<forall>(p, c) \<in> edges J. c \<in> reach J r \<longrightarrow> p \<in> reach J r)"

lemma fresh_graphD:
  assumes "fresh_graph J"
  shows fresh_fin: "finite (dom J)" and fresh_range: "Range (edges J) \<subseteq> dom J" and fresh_acyclic: "acyclic (edges J)"
    and fresh_job: "J j = Some jb \<Longrightarrow> jstate jb = Idle \<and> pending_in jb = in_degree J j \<and> length (in_nodes jb) = in_degree J j \<and> barrier_id jb = k_no_barrier"
  using assms by (auto simp: fresh_graph_def)

lemma reach_dom: "fresh_graph J \<Longrightarrow> r \<in> dom J \<Longrightarrow> reach J r \<subseteq> dom J"
proof
  fix x assume J: "fresh_graph J" and r: "r \<in> dom J" and "x \<in> reach J r"
  then have "(r, x) \<in> (edges J)\<^sup>*" by (simp add: reach_def)
  then show "x \<in> dom J" by (cases rule: rtranclE) (use r fresh_range [OF J] in blast)+
qed

lemma no_parents: "finite (dom J) \<Longrightarrow> in_degree J r = 0 \<Longrightarrow> (p, r) \<notin> edges J"
  unfolding edges_outs by (cases "p \<in> dom J") (auto simp: in_degree_def count_eq_zero_iff, auto simp: outs_def)

lemma reach_disjoint:
  assumes "js_inv J E s" "r \<notin> E"
  shows "reach J r \<inter> E = {}"
proof -
  have "x \<notin> E" if "x \<in> reach J r" for x
    using that
  proof (induction rule: reach_induct)
    case (step x c)
    then have "(x, c) \<in> edges J" by (simp add: edges_outs)
    then show ?case using inv_closed [OF assms(1)] step by blast
  qed (rule assms(2))
  then show ?thesis by blast
qed

lemma not_scheduled_idle:
  assumes "js_inv J E s" "x \<in> dom J" "x \<notin> E"
  obtains jx where "jobs s x = Some jx" "jstate jx = Idle" "outs (jobs s) x = outs J x"
proof -
  have "st s x = Some Idle" using inv_started [OF assms(1,2)] assms(3) by blast
  then obtain jx where jx: "jobs s x = Some jx" "jstate jx = Idle" by (auto simp: st_def)
  then have "outs (jobs s) x = outs J x" using outs_node [OF assms(1) jx(1)] by (simp add: outs_def)
  then show thesis using that jx by blast
qed

text \<open>The bound on the counter of pending jobs.\<close>

lemma size_set_mset: "(\<And>x. count M x \<le> 1) \<Longrightarrow> size M = card (set_mset M)"
proof -
  assume "\<And>x. count M x \<le> 1"
  then have "count M x = 1" if "x \<in># M" for x using that by (metis One_nat_def Suc_leI count_greater_zero_iff le_antisym)
  then show ?thesis by (simp add: size_multiset_overloaded_eq)
qed

lemma pending_bound:
  assumes i: "js_inv J E s" and J: "finite (dom J)"
  shows "pending s \<le> card E + length (workers s)"
proof -
  have E: "finite E" using inv_E [OF i] J finite_subset by blast
  have "sum_list (map (\<lambda>w. of_bool (pc w = Finishing)) ws) \<le> length ws" for ws by (induction ws) auto
  then have "finishing s \<le> length (workers s)" by (simp add: finishing_def)
  moreover have "set_mset (inflight s) \<subseteq> E - {j \<in> E. st s j = Some Idle}"
  proof
    fix x assume x: "x \<in># inflight s"
    then obtain b where b: "st s x = Some b" "b \<noteq> Idle" using inflight_state [OF i x] by auto
    then have "x \<in> dom J" using inv_node [OF i, of x] by (fastforce simp: st_def)
    then show "x \<in> E - {j \<in> E. st s j = Some Idle}" using b inv_started [OF i] by auto
  qed
  then have "size (inflight s) \<le> card (E - {j \<in> E. st s j = Some Idle})"
    using E inv_count [OF i] by (simp add: size_set_mset card_mono)
  moreover have "card (E - {j \<in> E. st s j = Some Idle}) + card {j \<in> E. st s j = Some Idle} = card E"
    using E by (subst card_Diff_subset) (auto simp: card_mono)
  ultimately show ?thesis using inv_pending [OF i] by linarith
qed

section \<open>Scheduling a graph\<close>

text \<open>What \<open>Task::schedule\<close> has done when it returns.\<close>

lemma task_scheduleD:
  assumes i: "js_inv J E s" and J: "fresh_graph J" and r: "r \<in> dom J" "r \<notin> E" and sch: "task_schedule cfg t r b s = Some (Inr (Some (ok, s')))"
  obtains s1 jr v w bs where "s' = notify_all s1" "jobs s r = Some jr" "jstate jr = Idle" "in_nodes jr = []" "ok"
    "jobs s1 = (set_barriers b (reach J r) (jobs s))(r \<mapsto> jr\<lparr>barrier_id := b, jstate := Pending\<rparr>)"
    "pending s1 = fetch_add (card (reach J r)) (pending s)" "v < length (workers s)" "workers s1 = (workers s)[v := w]"
    "worker_jobs w = add_mset r (worker_jobs (workers s ! v))" "pc w = pc (workers s ! v)"
    "set (q_public w) \<union> set (q_private w) = insert r (set (q_public (workers s ! v)) \<union> set (q_private (workers s ! v)))"
    "length (round_robin s1) = length (round_robin s)" "barrier_add b (card (reach J r)) s = Inr (s\<lparr>barriers := bs\<rparr>)" "barriers s1 = bs"
    "should_terminate w = should_terminate (workers s ! v)"
proof -
  let ?A = "reach J r" and ?js = "set_barriers b (reach J r) (jobs s)"
  obtain jr where jr: "jobs s r = Some jr" "jstate jr = Idle" "outs (jobs s) r = outs J r" by (rule not_scheduled_idle [OF i r])
  have o: "out_nodes jr = outs J r" using jr by (simp add: outs_def)
  have A: "?A \<subseteq> dom J - E" using reach_dom [OF J r(1)] reach_disjoint [OF i r(2)] by blast
  have out_s: "x \<in> dom (jobs s) \<and> outs (jobs s) x = outs J x" if x: "x \<in> ?A" for x
  proof -
    have "x \<in> dom J" "x \<notin> E" using A x by auto
    then show ?thesis using not_scheduled_idle [OF i, of x] by (metis domI)
  qed
  have card: "reach J r = {r}" if "out_nodes jr = []"
  proof -
    have "x = r" if "x \<in> reach J r" for x using that by (induction rule: reach_induct) (use \<open>out_nodes jr = []\<close> o in auto)
    then show ?thesis using reach_self by blast
  qed
  have walk: "(if out_nodes jr = [] then Some (Inr (1, (jobs s)(r \<mapsto> jr\<lparr>barrier_id := b\<rparr>)))
      else map_option (map_sum id (\<lambda>(marked, js). (length marked, js))) (depth_first_walk b [r] [] (jobs s))) = Some (Inr (card ?A, ?js))"
  proof (cases "out_nodes jr = []")
    case True
    then show ?thesis using card jr(1) by (auto simp: set_barriers_def fun_eq_iff)
  next
    case False
    have "dom (jobs s) \<subseteq> dom J" using inv_node [OF i] by fastforce
    then have "finite (dom (jobs s))" using fresh_fin [OF J] finite_subset by blast
    then obtain m where "depth_first_walk b [r] [] (jobs s) = Some (Inr (m, ?js))" "length m = card ?A"
      using walk_marks_reachable [of "jobs s" J r b] out_s by blast
    then show ?thesis using False by simp
  qed
  have jr': "?js r = Some (jr\<lparr>barrier_id := b\<rparr>)" using jr(1) reach_self [of r J] by (simp add: set_barriers_def)
  have nn: "in_nodes jr = []" using sch jr(1) by (auto simp: task_schedule_def split: if_splits)
  from sch have "res_bind (barrier_add b (card ?A) (s\<lparr>jobs := ?js\<rparr>)) (try_schedule cfg t r (card ?A)) = Inr (Some (ok, s'))"
    unfolding task_schedule_def jr(1) option.case nn walk by simp
  then obtain s1 where s1: "barrier_add b (card ?A) (s\<lparr>jobs := ?js\<rparr>) = Inr s1" "try_schedule cfg t r (card ?A) s1 = Inr (Some (ok, s'))"
    by (auto simp: res_bind_eq_Inr)
  obtain bs where bs: "s1 = s\<lparr>jobs := ?js, barriers := bs\<rparr>" "barrier_add b (card ?A) s = Inr (s\<lparr>barriers := bs\<rparr>)"
  proof (cases "b = k_no_barrier")
    case True
    then show thesis using s1(1) that [of "barriers s"] by (cases s) (auto simp: barrier_add_def)
  next
    case False
    then show thesis using s1(1) that by (auto simp: barrier_add_def get_barrier_def res_bind_eq_Inr job_assert_def split: if_splits)
  qed
  have finA: "finite ?A" using A fresh_fin [OF J] finite_subset by blast
  then have pos: "card ?A \<noteq> 0" using reach_self [of r J] by auto
  obtain c s2 where c: "claim r s1 = Inr (c, s2)" using s1(2) by (auto simp: try_schedule_def res_bind_eq_Inr)
  then obtain jc where "jobs s1 r = Some jc" "c \<longleftrightarrow> jstate jc = Idle" "s2 = (if c then set_job r (jc\<lparr>jstate := Pending\<rparr>) s1 else set_job r jc s1)"
    by (rule claimD)
  then have c2: "c" "s2 = set_job r (jr\<lparr>barrier_id := b, jstate := Pending\<rparr>) s1" using jr' jr(2) by (auto simp: bs(1))
  then obtain s3 where d: "dispatch cfg t r (s2\<lparr>pending := fetch_add (card ?A) (pending s2)\<rparr>) = Inr (Some s3)" "s' = notify_all s3" "ok"
    using s1(2) c pos by (auto simp: try_schedule_def res_bind_eq_Inr)
  obtain jb :: job and rr v where v: "v < length (workers (s2\<lparr>pending := fetch_add (card ?A) (pending s2)\<rparr>))"
    "submit cfg v r (stealable (affinity jb)) (s2\<lparr>pending := fetch_add (card ?A) (pending s2), round_robin := (round_robin s2)[t := rr]\<rparr>) = Some s3"
    by (rule dispatchD [OF d(1)]) simp
  obtain w :: worker where w: "s3 = (s2\<lparr>pending := fetch_add (card ?A) (pending s2), round_robin := (round_robin s2)[t := rr]\<rparr>)\<lparr>workers := (workers s2)[v := w]\<rparr>"
    "worker_jobs w = add_mset r (worker_jobs (workers s2 ! v))" "pc w = pc (workers s2 ! v)"
    "set (q_public w) \<union> set (q_private w) = insert r (set (q_public (workers s2 ! v)) \<union> set (q_private (workers s2 ! v)))"
    "should_terminate w = should_terminate (workers s2 ! v)"
    by (rule submit_workers [OF v(2)]) simp
  have ws: "workers s2 = workers s" "pending s2 = pending s" "round_robin s2 = round_robin s" "barriers s2 = bs"
    "jobs s2 = ?js(r \<mapsto> jr\<lparr>barrier_id := b, jstate := Pending\<rparr>)" by (simp_all add: c2(2) bs(1))
  show thesis
    by (rule that [of s3 jr v w bs, OF d(2) jr(1,2) nn d(3) _ _ _ _ _ _ _ _ bs(2)]) (use v(1) w in \<open>simp_all add: d(2) ws\<close>)
qed

lemma todo_edge: "js_inv J E s \<Longrightarrow> c \<in># todo J s \<Longrightarrow> finite (unprocessed s) \<Longrightarrow> \<exists>p. (p, c) \<in> edges J"
proof -
  assume i: "js_inv J E s" and c: "c \<in># todo J s" and fin: "finite (unprocessed s)"
  have "c \<in> set (outs J p) \<Longrightarrow> \<exists>p. (p, c) \<in> edges J" for p by (auto simp: edges_outs)
  moreover have "\<exists>w \<in> set ws. c \<in># pc_todo (pc w)" if "c \<in># sum_list (map (pc_todo \<circ> pc) ws)" for ws
    using that by (induction ws) auto
  moreover have "\<exists>p. c \<in> set (outs J p)" if "w \<in> set (workers s)" "c \<in># pc_todo (pc w)" for w
    using inv_worker [OF i that(1)] that(2) by (cases "pc w") (auto simp: worker_ok_def pc_ok_def)
  moreover have "\<exists>p \<in> S. c \<in> set (outs J p)" if "c \<in># (\<Sum>p \<in> S. mset (outs J p))" "finite S" for S
    using that(2,1) by (induction S) auto
  ultimately show ?thesis using c fin unfolding todo_def by (meson union_iff)
qed

lemma unprocessed_todo: "finite (unprocessed s) \<Longrightarrow> p \<in> unprocessed s \<Longrightarrow> (p, c) \<in> edges J \<Longrightarrow> c \<in># todo J s"
  by (simp add: todo_def sum.remove [of "unprocessed s" p] edges_outs)

lemma schedule_inv:
  assumes i: "js_inv J E s" and J: "fresh_graph J" and r: "r \<in> dom J" "r \<notin> E" "sole_root J r"
    and small: "card (dom J) + length (workers s) < 2 ^ 64"
    and sch: "task_schedule cfg t r b s = Some (Inr (Some (ok, s')))"
  shows "js_inv J (E \<union> reach J r) s'"
proof -
  let ?A = "reach J r"
  obtain s1 jr v w bs where s1: "s' = notify_all s1" and d: "jobs s r = Some jr" "jstate jr = Idle" "in_nodes jr = []"
    "jobs s1 = (set_barriers b ?A (jobs s))(r \<mapsto> jr\<lparr>barrier_id := b, jstate := Pending\<rparr>)"
    "pending s1 = fetch_add (card ?A) (pending s)" "v < length (workers s)" "workers s1 = (workers s)[v := w]"
    "worker_jobs w = add_mset r (worker_jobs (workers s ! v))" "pc w = pc (workers s ! v)"
    "set (q_public w) \<union> set (q_private w) = insert r (set (q_public (workers s ! v)) \<union> set (q_private (workers s ! v)))"
    "length (round_robin s1) = length (round_robin s)"
    by (rule task_scheduleD [OF i J r(1,2) sch]) blast
  have A: "?A \<subseteq> dom J" "?A \<inter> E = {}" using reach_dom [OF J r(1)] reach_disjoint [OF i r(2)] by auto
  have rA: "r \<in> ?A" by (rule reach_self)
  have fin: "finite ?A" "finite E" using A fresh_fin [OF J] inv_E [OF i] finite_subset by blast+
  have idleA: "st s x = Some Idle" if "x \<in> ?A" for x using inv_started [OF i, of x] A that by blast
  have st: "st s1 = (st s)(r \<mapsto> Pending)" by (auto simp: st_def d(4) set_barriers_def fun_eq_iff option.map_comp comp_def)
  have un: "unprocessed s1 = unprocessed s" using idleA [OF rA] by (auto simp: unprocessed_def st)
  have td: "todo J s1 = todo J s" using todo_upd [OF d(6,7) un, of J] d(9) by simp
  have fl: "inflight s1 = add_mset r (inflight s)" using inflight_upd [OF d(6,7)] d(8) by simp
  have fi: "finishing s1 = finishing s" using finishing_upd [OF d(6,7)] d(9) by simp
  have rfl: "r \<notin># inflight s" using inflight_state [OF i, of r] idleA [OF rA] by auto
  have deg: "in_degree J r = 0"
  proof -
    obtain j0 where "J r = Some j0" "same_node jr j0" using inv_node [OF i d(1)] by blast
    then show ?thesis using fresh_job [OF J, of r j0] d(3) by (simp add: same_node_def)
  qed
  have rtd: "r \<notin># todo J s"
  proof
    assume "r \<in># todo J s"
    then obtain p where "(p, r) \<in> edges J" using todo_edge [OF i _ finite_unprocessed [OF i fresh_fin [OF J]]] by blast
    then show False using no_parents [OF fresh_fin [OF J] deg, of p] by simp
  qed
  have E': "p \<in> E \<union> ?A \<longleftrightarrow> c \<in> E \<union> ?A" if e: "(p, c) \<in> edges J" for p c
  proof -
    have "c \<in> ?A \<Longrightarrow> p \<in> ?A" using r(3) e by (auto simp: sole_root_def)
    moreover have "p \<in> ?A \<Longrightarrow> c \<in> ?A" using e reach_step [of p J r c] by (simp add: edges_outs)
    ultimately show ?thesis using inv_closed [OF i e] by blast
  qed
  have "\<exists>j0. J j = Some j0 \<and> same_node jb j0" if jb: "jobs s1 j = Some jb" for j jb
  proof -
    obtain ja where "jobs s j = Some ja" "same_node jb ja"
      using jb d(1) by (auto simp: d(4) set_barriers_def same_node_def split: if_splits)
    then show ?thesis using inv_node [OF i] by (fastforce simp: same_node_def)
  qed
  moreover have "jobs s1 j \<noteq> None" if "J j = Some j0" "keep_alive j0" for j j0
    using inv_keep [OF i that] by (auto simp: d(4) set_barriers_def)
  moreover have "worker_ok J (st s1) (todo J s1) w'" if w': "w' \<in> set (workers s1)" for w'
  proof -
    have old: "worker_ok J (st s1) (todo J s1) u" if u: "u \<in> set (workers s)" for u
    proof -
      have "r \<notin># worker_jobs u" using u rfl worker_in_inflight by (metis in_set_conv_nth)
      then have "st s1 x = st s x" if "x \<in># worker_jobs u" for x using that by (auto simp: st)
      then show ?thesis unfolding td by (rule worker_ok_frame [OF inv_worker [OF i u]]) simp_all
    qed
    have "worker_ok J (st s1) (todo J s1) w" using old [of "workers s ! v"] d(6,9,10) by (auto simp: worker_ok_def st)
    then show ?thesis using w' old set_update_subset_insert [of "workers s" v w] d(7) by auto
  qed
  moreover have "count (inflight s1) x \<le> 1" for x using inv_count [OF i] rfl by (auto simp: fl not_in_iff)
  moreover have "x \<in># inflight s1" if "st s1 x \<in> {Some Pending, Some Executing}" for x
    using that inv_flight [OF i, of x] by (auto simp: fl st split: if_splits)
  moreover have "st s1 x \<noteq> Some Preempted" for x using inv_preempt [OF i] by (simp add: st)
  moreover have "pending_in jc = count (todo J s1) c" if "jobs s1 c = Some jc" for c jc
    using that inv_pending_in [OF i] d(1) by (auto simp: d(4) td set_barriers_def split: if_splits)
  moreover have "st s1 c = Some Idle" if "c \<in># todo J s1" for c using that inv_todo [OF i] rtd by (auto simp: st td)
  moreover have "x \<in> E \<union> ?A" if "x \<in> dom J" "st s1 x \<noteq> Some Idle" for x
    using that inv_started [OF i] rA by (auto simp: st split: if_splits)
  moreover have "x \<in># todo J s1 \<or> (\<exists>w \<in> set (workers s1). pc_child (pc w) = Some x)" if x: "x \<in> E \<union> ?A" "st s1 x = Some Idle" for x
  proof (cases "x \<in> ?A")
    case True
    then obtain p where p: "(p, x) \<in> edges J" "p \<in> ?A"
      using x(2) by (induction rule: reach_induct) (auto simp: st edges_outs)
    then have "p \<in> unprocessed s1" using idleA [OF p(2)] un by (simp add: unprocessed_def)
    then show ?thesis using unprocessed_todo [OF _ _ p(1)] finite_unprocessed [OF i fresh_fin [OF J]] un by metis
  next
    case False
    then have "x \<in> E" "st s x = Some Idle" using x rA by (auto simp: st split: if_splits)
    then have "x \<in># todo J s \<or> (\<exists>u \<in> set (workers s). pc_child (pc u) = Some x)" by (rule inv_idle [OF i])
    moreover have "pc (workers s1 ! u) = pc (workers s ! u)" if "u < length (workers s)" for u
      using that d(6,7,9) by (auto simp: nth_list_update)
    ultimately show ?thesis unfolding td d(7) by (metis d(7) in_set_conv_nth length_list_update)
  qed
  moreover have "pending s1 = card {x \<in> E \<union> ?A. st s1 x = Some Idle} + size (inflight s1) + finishing s1"
  proof -
    have "{x \<in> E \<union> ?A. st s1 x = Some Idle} = {x \<in> E. st s x = Some Idle} \<union> (?A - {r})"
      using idleA A rA by (auto simp: st split: if_splits)
    also have "card \<dots> = card {x \<in> E. st s x = Some Idle} + (card ?A - 1)"
      using fin A rA by (subst card_Un_disjoint) auto
    finally have c: "card {x \<in> E \<union> ?A. st s1 x = Some Idle} + 1 = card {x \<in> E. st s x = Some Idle} + card ?A"
      using fin rA by (simp add: card_gt_0_iff) (metis Suc_pred card_gt_0_iff empty_iff)
    have "card E + card ?A \<le> card (dom J)"
      using A inv_E [OF i] fin fresh_fin [OF J] card_mono [of "dom J" "E \<union> ?A"] by (simp add: card_Un_disjoint Int_commute)
    then have "pending s + card ?A < 2 ^ 64" using pending_bound [OF i fresh_fin [OF J]] small by linarith
    then have "pending s1 = pending s + card ?A" by (simp add: d(5) fetch_add_def)
    then show ?thesis using c inv_pending [OF i] by (simp add: fl fi)
  qed
  ultimately have "js_inv J (E \<union> ?A) s1" using E' A inv_E [OF i] inv_rr [OF i] d(7,11) unfolding js_inv_def by auto
  then show ?thesis unfolding s1 by (rule notify_inv)
qed

end
