(* ===== verification/Job_Correct.thy ===== *)
theory Job_Correct
  imports Job_Schedule
begin

text \<open>
  What users of the job system rely on: kernels run once and after those they depend on, the counter of pending jobs reaches zero
  exactly when all scheduled jobs are done, no thread runs into a job that is gone, and no run gets stuck.
\<close>

section \<open>Reachable states\<close>

definition events_of :: "event option \<Rightarrow> event list" where
  "events_of e = (case e of None \<Rightarrow> [] | Some x \<Rightarrow> [x])"

text \<open>\<open>J\<close> is the graph that the client has built; the trace and the set of scheduled jobs are recorded.\<close>

inductive js_reach :: "js_config \<Rightarrow> nat \<Rightarrow> nat \<Rightarrow> jobs \<Rightarrow> event list \<Rightarrow> nat set \<Rightarrow> job_sys \<Rightarrow> bool" for cfg n max_barriers J where
  reach_init: "js_reach cfg n max_barriers J [] {} (new_job_system n max_barriers J)"
| reach_schedule: "js_reach cfg n max_barriers J tr E s \<Longrightarrow> t < n \<Longrightarrow> r \<in> dom J \<Longrightarrow> r \<notin> E \<Longrightarrow> sole_root J r \<Longrightarrow>
     task_schedule cfg t r b s = Some (Inr (Some (ok, s'))) \<Longrightarrow> js_reach cfg n max_barriers J tr (E \<union> reach J r) s'"
| reach_work: "js_reach cfg n max_barriers J tr E s \<Longrightarrow> t < n \<Longrightarrow> worker_step cfg i t s = Inr (e, s') \<Longrightarrow>
     js_reach cfg n max_barriers J (tr @ events_of e) E s'"
| reach_create_barrier: "js_reach cfg n max_barriers J tr E s \<Longrightarrow> create_barrier s = (b, s') \<Longrightarrow> js_reach cfg n max_barriers J tr E s'"
| reach_destroy_barrier: "js_reach cfg n max_barriers J tr E s \<Longrightarrow> destroy_barrier b s = Inr s' \<Longrightarrow> js_reach cfg n max_barriers J tr E s'"

text \<open>The pcs of a step.\<close>

lemma nth_update_same: "f w = f (ws ! v) \<Longrightarrow> f (ws[v := w] ! u) = f (ws ! u)"
  by (cases "v < length ws"; cases "u = v") (auto simp: not_less list_update_beyond)

lemma pop_shape:
  "length (workers (pop_private i t p s)) = length (workers s)" "length (workers (pop_public i v t p s)) = length (workers s)"
  "u \<noteq> t \<Longrightarrow> pc (workers (pop_private i t p s) ! u) = pc (workers s ! u)"
  "u \<noteq> t \<Longrightarrow> pc (workers (pop_public i v t p s) ! u) = pc (workers s ! u)"
  "jobs (pop_private i t p s) = jobs s" "jobs (pop_public i v t p s) = jobs s"
  "barriers (pop_private i t p s) = barriers s" "barriers (pop_public i v t p s) = barriers s"
  by (auto simp: pop_private_def pop_public_def nth_update_same [of pc] split: option.splits)

lemma steal_shape:
  assumes "steal_job i t k s = Inr s'"
  shows "length (workers s') = length (workers s)" "u \<noteq> t \<Longrightarrow> pc (workers s' ! u) = pc (workers s ! u)" "jobs s' = jobs s" "barriers s' = barriers s"
  using assms by (auto simp: steal_job_def Let_def pop_shape split: if_splits)

lemma dispatch_shape:
  assumes "dispatch cfg t j s = Inr (Some s1)"
  shows "pc (workers s1 ! u) = pc (workers s ! u)" "should_terminate (workers s1 ! u) = should_terminate (workers s ! u)"
proof -
  obtain jb :: job and rr v where v: "v < length (workers s)" "submit cfg v j (stealable (affinity jb)) (s\<lparr>round_robin := (round_robin s)[t := rr]\<rparr>) = Some s1"
    using dispatchD [OF assms] by metis
  obtain w :: worker where "s1 = (s\<lparr>round_robin := (round_robin s)[t := rr]\<rparr>)\<lparr>workers := (workers s)[v := w]\<rparr>" "pc w = pc (workers s ! v)"
    "should_terminate w = should_terminate (workers s ! v)"
    by (rule submit_workers [OF v(2)]) simp
  then show "pc (workers s1 ! u) = pc (workers s ! u)" "should_terminate (workers s1 ! u) = should_terminate (workers s ! u)"
    using v(1) by (simp_all add: nth_list_update)
qed

lemma worker_step_shape:
  assumes "worker_step cfg i t s = Inr (e, s')"
  shows "length (workers s') = length (workers s) \<and> length (barriers s') = length (barriers s) \<and> (u < length (workers s) \<longrightarrow> u \<noteq> t \<longrightarrow> pc (workers s' ! u) = pc (workers s ! u))"
proof (cases "pc (workers s ! t)")
  case (Children j cs)
  then show ?thesis using assms by (cases cs) (auto simp: worker_step_def res_bind_eq_Inr dest!: silentD)
next
  case (Ready j c cs)
  then obtain ok s1 where "claim c s = Inr (ok, s1)" "s' = set_pc t (if ok then Won j c cs else Children j cs) s1"
    using assms by (auto simp: worker_step_def res_bind_eq_Inr dest!: silentD)
  then show ?thesis by (auto elim!: claimD)
next
  case (Won j c cs)
  then obtain r where "dispatch cfg t c s = Inr r" "s' = (case r of None \<Rightarrow> s | Some s1 \<Rightarrow> set_pc t (Notify j cs) s1)"
    using assms by (auto simp: worker_step_def res_bind_eq_Inr dest!: silentD)
  then show ?thesis by (cases r) (auto simp: dispatch_shape dispatch_fields)
next
  case (Unbarrier j)
  then show ?thesis using assms by (auto simp: worker_step_def res_bind_eq_Inr barrier_remove_fields dest!: silentD)
qed (use assms in \<open>auto simp: worker_step_def res_bind_eq_Inr pop_shape steal_shape exchange_state_def release_job_def dest!: silentD split: if_splits prod.splits\<close>)

text \<open>What a step does to the states of jobs, and what it shows.\<close>

lemma st_eq: "jobs s' = jobs s \<Longrightarrow> st s' = st s"
  by (simp add: st_def fun_eq_iff)

lemma worker_step_st:
  assumes i: "js_inv J E s" and t: "t < length (workers s)" and step: "worker_step cfg n t s = Inr (e, s')"
  obtains (same) "e = None" "st s' = st s"
  | (start) j where "e = Some (Start j)" "st s j = Some Pending" "st s' = (st s)(j \<mapsto> Executing)"
  | (finish) j where "e = Some (Finish j)" "st s j = Some Executing" "st s' = (st s)(j \<mapsto> Processed)"
  | (claim) j c cs where "e = None" "pc (workers s ! t) = Ready j c cs" "st s c = Some Idle" "st s' = (st s)(c \<mapsto> Pending)" "pc (workers s' ! t) = Won j c cs"
  | (release) j where "e = None" "st s j = Some Processed" "st s' = (st s)(j := None)"
proof -
  have ok: "pc_ok J (st s) (todo J s) (pc (workers s ! t))" using inv_worker [OF i] t by (simp add: worker_ok_def)
  show thesis
  proof (cases "pc (workers s ! t)")
    case (Popped j)
    then obtain jb where jb: "jobs s j = Some jb" "jstate jb = Pending" using ok by (auto simp: pc_ok_def st_def)
    then have "e = Some (Start j)" "s' = set_pc t (Running j) (set_job j (jb\<lparr>jstate := Executing\<rparr>) s)"
      using step Popped by (auto simp: worker_step_def deref_def exchange_state_def)
    then show thesis using jb by (intro start [of j]) (auto simp: st_def)
  next
    case (Running j)
    then obtain jb where jb: "jobs s j = Some jb" "jstate jb = Executing" using ok by (auto simp: pc_ok_def st_def)
    then have "e = Some (Finish j)" "s' = set_pc t (Children j (out_nodes jb)) (set_job j (jb\<lparr>jstate := Processed\<rparr>) s)"
      using step Running by (auto simp: worker_step_def deref_def exchange_state_def job_assert_def)
    then show thesis using jb by (intro finish [of j]) (auto simp: st_def)
  next
    case (Ready j c cs)
    then obtain b s1 where cl: "claim c s = Inr (b, s1)" "s' = set_pc t (if b then Won j c cs else Children j cs) s1" "e = None"
      using step by (auto simp: worker_step_def res_bind_eq_Inr dest!: silentD)
    obtain jc where jc: "jobs s c = Some jc" "b \<longleftrightarrow> jstate jc = Idle" "s1 = (if b then set_job c (jc\<lparr>jstate := Pending\<rparr>) s else set_job c jc s)"
      using claimD [OF cl(1)] by metis
    show thesis
    proof (cases b)
      case True
      then show thesis using cl jc t Ready by (intro claim [of j c cs]) (auto simp: st_def)
    next
      case False
      then show thesis using cl jc by (intro same) (auto simp: st_def)
    qed
  next
    case (Releasing j)
    then obtain jb where jb: "jobs s j = Some jb" "s' = set_pc t Finishing (if keep_alive jb then s else s\<lparr>jobs := (jobs s)(j := None)\<rparr>)" "e = None"
      using step by (auto simp: worker_step_def res_bind_eq_Inr deref_def release_job_def dest!: silentD split: option.splits if_splits)
    have "st s j = Some Processed" using ok Releasing by (simp add: pc_ok_def)
    then show thesis using jb same release [of j] by (cases "keep_alive jb") (auto simp: st_def fun_eq_iff)
  next
    case (Children j cs)
    then show thesis using step
      by (cases cs) (auto simp: worker_step_def res_bind_eq_Inr deref_def remove_dependency_def st_def split: option.splits dest!: silentD intro!: same)
  next
    case (Won j c cs)
    then obtain r where "dispatch cfg t c s = Inr r" "s' = (case r of None \<Rightarrow> s | Some s1 \<Rightarrow> set_pc t (Notify j cs) s1)" "e = None"
      using step by (auto simp: worker_step_def res_bind_eq_Inr dest!: silentD)
    then show thesis by (cases r) (auto simp: dispatch_fields intro!: same st_eq)
  next
    case (Unbarrier j)
    then show thesis using step by (auto simp: worker_step_def res_bind_eq_Inr barrier_remove_fields dest!: silentD intro!: same st_eq)
  qed (use step in \<open>auto simp: worker_step_def res_bind_eq_Inr pop_shape steal_shape dest!: silentD split: if_splits intro!: same st_eq\<close>)
qed

text \<open>The invariant holds in every reachable state.\<close>

lemma create_barrier_fields: "create_barrier s = (b, s') \<Longrightarrow>
  jobs s' = jobs s \<and> workers s' = workers s \<and> pending s' = pending s \<and> round_robin s' = round_robin s \<and> length (barriers s') = length (barriers s)"
  by (auto simp: create_barrier_def split: list.splits)

lemma destroy_barrier_fields: "destroy_barrier b s = Inr s' \<Longrightarrow>
  jobs s' = jobs s \<and> workers s' = workers s \<and> pending s' = pending s \<and> round_robin s' = round_robin s \<and> length (barriers s') = length (barriers s)"
  by (auto simp: destroy_barrier_def res_bind_eq_Inr)

lemma barrier_add_length: "barrier_add b k s = Inr s1 \<Longrightarrow> length (barriers s1) = length (barriers s)"
  by (auto simp: barrier_add_def res_bind_eq_Inr split: if_splits)

lemma js_inv_barriers:
  assumes "js_inv J E s" "jobs s' = jobs s" "workers s' = workers s" "pending s' = pending s" "round_robin s' = round_robin s"
  shows "js_inv J E s'"
  by (rule quiet_step [OF assms(1)]) (use assms inv_worker [OF assms(1)] inv_rr [OF assms(1)] in
      \<open>auto simp: inflight_def finishing_def intro: todo_eq\<close>)

lemma sum_list_replicate_mset [simp]: "sum_list (replicate n {#}) = {#}"
  by (induction n) auto

lemma init_inv:
  assumes J: "fresh_graph J"
  shows "js_inv J {} (new_job_system n mb J)"
proof -
  let ?s = "new_job_system n mb J"
  have st: "st ?s j = map_option (\<lambda>_. Idle) (J j)" for j
    using fresh_job [OF J] by (cases "J j") (auto simp: st_def new_job_system_def)
  have un: "unprocessed ?s = dom J" by (auto simp: unprocessed_def st)
  have td: "todo J ?s = (\<Sum>p \<in> dom J. mset (outs J p))" by (simp add: todo_def un, simp add: new_job_system_def new_worker_def comp_def)
  have cnt: "count (todo J ?s) c = in_degree J c" for c by (simp add: td in_degree_def count_sum)
  have fl: "inflight ?s = {#}" "finishing ?s = 0"
    by (simp_all add: inflight_def finishing_def new_job_system_def new_worker_def worker_jobs_def sum_list_triv)
  have idle: "st ?s c = Some Idle" if "c \<in># todo J ?s" for c
  proof -
    have "\<exists>p \<in> dom J. c \<in> set (outs J p)" using that fresh_fin [OF J] by (simp add: td set_mset_sum)
    then have "c \<in> Range (edges J)" by (auto simp: edges_outs Range_iff)
    then have "c \<in> dom J" using fresh_range [OF J] by blast
    then show ?thesis by (auto simp: st)
  qed
  have "worker_ok J f m w" if "w \<in> set (workers ?s)" for f m w using that by (auto simp: new_job_system_def new_worker_def worker_ok_def pc_ok_def)
  moreover have "\<exists>j0. J j = Some j0 \<and> same_node jb j0" if "jobs ?s j = Some jb" for j jb using that by (simp add: new_job_system_def same_node_def)
  moreover have "jobs ?s j = J j" "length (round_robin ?s) = length (workers ?s)" "pending ?s = 0" for j by (simp_all add: new_job_system_def)
  moreover have "pending_in jb = in_degree J j" if "J j = Some jb" for j jb using fresh_job [OF J that] by simp
  ultimately show ?thesis using idle unfolding js_inv_def fl cnt by (auto simp: st)
qed

lemma reach_inv:
  assumes J: "fresh_graph J" "card (dom J) + n < 2 ^ 64"
  shows "js_reach cfg n mb J tr E s \<Longrightarrow> js_inv J E s \<and> length (workers s) = n \<and> length (barriers s) = mb"
proof (induction rule: js_reach.induct)
  case reach_init
  then show ?case using init_inv [OF J(1)] by (simp add: new_job_system_def)
next
  case (reach_schedule tr E s t r b ok s')
  then have i: "js_inv J E s" and n: "length (workers s) = n" "length (barriers s) = mb" by auto
  note sch = schedule_inv [OF i J(1) reach_schedule.hyps(3,4,5) _ reach_schedule.hyps(6)]
  have "length (workers s') = n \<and> length (barriers s') = mb"
    by (rule task_scheduleD [OF i J(1) reach_schedule.hyps(3,4,6)]) (use n barrier_add_length in fastforce)
  then show ?case using sch J(2) n by simp
next
  case (reach_work tr E s t i e s')
  then show ?case using worker_step_inv [of J E s t cfg i e s'] fresh_fin [OF J(1)] worker_step_shape [of cfg i t s e s'] by auto
next
  case (reach_create_barrier tr E s b s')
  then show ?case using create_barrier_fields js_inv_barriers by metis
next
  case (reach_destroy_barrier tr E s b s')
  then show ?case using destroy_barrier_fields js_inv_barriers by metis
qed

section \<open>The order of kernels\<close>

text \<open>A job starts after all jobs it depends on have finished, and finishes after it started.\<close>

definition justified :: "jobs \<Rightarrow> event list \<Rightarrow> event \<Rightarrow> bool" where
  "justified J before e = (case e of Start j \<Rightarrow> \<forall>p. (p, j) \<in> edges J \<longrightarrow> Finish p \<in> set before | Finish j \<Rightarrow> Start j \<in> set before)"

definition well_ordered :: "jobs \<Rightarrow> event list \<Rightarrow> bool" where
  "well_ordered J tr \<longleftrightarrow> (\<forall>i < length tr. justified J (take i tr) (tr ! i))"

lemma well_ordered_snoc: "well_ordered J (tr @ [x]) \<longleftrightarrow> well_ordered J tr \<and> justified J tr x"
proof -
  have "i < length tr \<Longrightarrow> (tr @ [x]) ! i = tr ! i \<and> take i (tr @ [x]) = take i tr" for i by (simp add: nth_append)
  then have "(\<forall>i < length tr. justified J (take i (tr @ [x])) ((tr @ [x]) ! i)) \<longleftrightarrow> well_ordered J tr" by (simp add: well_ordered_def)
  then show ?thesis by (auto simp: well_ordered_def [of J "tr @ [x]"] less_Suc_eq)
qed

definition tr_inv :: "jobs \<Rightarrow> event list \<Rightarrow> job_sys \<Rightarrow> bool" where
  "tr_inv J tr s \<longleftrightarrow> distinct tr \<and> well_ordered J tr \<and> (\<forall>j. Start j \<in> set tr \<longleftrightarrow> j \<in> dom J \<and> st s j \<notin> {Some Idle, Some Pending}) \<and>
     (\<forall>j. Finish j \<in> set tr \<longleftrightarrow> j \<in> dom J \<and> st s j \<in> {None, Some Processed})"

lemma tr_inv_same:
  assumes "tr_inv J tr s" "\<And>j. j \<in> dom J \<Longrightarrow> (st s' j \<in> {Some Idle, Some Pending}) = (st s j \<in> {Some Idle, Some Pending})"
    "\<And>j. j \<in> dom J \<Longrightarrow> (st s' j \<in> {None, Some Processed}) = (st s j \<in> {None, Some Processed})"
  shows "tr_inv J tr s'"
  using assms unfolding tr_inv_def by blast

lemma st_dom: "js_inv J E s \<Longrightarrow> st s j = Some x \<Longrightarrow> j \<in> dom J"
  using inv_node by (fastforce simp: st_def)

lemma state_cases: "js_inv J E s \<Longrightarrow> st s j \<in> {None, Some Processed} \<or> st s j = Some Idle \<or> st s j \<in> {Some Pending, Some Executing}"
proof (cases "st s j")
  case (Some x)
  then show "js_inv J E s \<Longrightarrow> ?thesis" using inv_preempt [of J E s j] by (cases x) auto
qed simp

lemma tr_inv_step:
  assumes i: "js_inv J E s" and J: "fresh_graph J" and t: "t < length (workers s)" and step: "worker_step cfg n t s = Inr (e, s')" and tr: "tr_inv J tr s"
  shows "tr_inv J (tr @ events_of e) s'"
proof (cases rule: worker_step_st [OF i t step])
  case 1
  then show ?thesis using tr by (simp add: events_of_def tr_inv_def)
next
  case (2 j)
  have j: "j \<in> dom J" "Start j \<notin> set tr" using st_dom [OF i 2(2)] tr 2(2) by (auto simp: tr_inv_def)
  have "Finish p \<in> set tr" if p: "(p, j) \<in> edges J" for p
  proof -
    have "p \<in> dom J" using p by (auto simp: edges_def)
    have "j \<notin># todo J s" using inv_todo [OF i, of j] 2(2) by auto
    then have "p \<notin> unprocessed s" using unprocessed_todo [OF finite_unprocessed [OF i fresh_fin [OF J]] _ p] by blast
    then have "st s p \<in> {None, Some Processed}" using state_cases [OF i, of p] by (auto simp: unprocessed_def)
    then show ?thesis using tr \<open>p \<in> dom J\<close> by (auto simp: tr_inv_def)
  qed
  then show ?thesis using tr j 2 by (auto simp: events_of_def tr_inv_def well_ordered_snoc justified_def split: if_splits)
next
  case (3 j)
  have "j \<in> dom J" "Finish j \<notin> set tr" "Start j \<in> set tr" using st_dom [OF i 3(2)] tr 3(2) by (auto simp: tr_inv_def)
  then show ?thesis using tr 3 by (auto simp: events_of_def tr_inv_def well_ordered_snoc justified_def split: if_splits)
next
  case (4 j c cs)
  then show ?thesis using tr_inv_same [OF tr, of s'] by (simp add: events_of_def)
next
  case (5 j)
  then show ?thesis using tr_inv_same [OF tr, of s'] by (simp add: events_of_def)
qed

lemma reach_tr:
  assumes J: "fresh_graph J" "card (dom J) + n < 2 ^ 64"
  shows "js_reach cfg n mb J tr E s \<Longrightarrow> tr_inv J tr s"
proof (induction rule: js_reach.induct)
  case reach_init
  have "st (new_job_system n mb J) j = Some Idle" if "j \<in> dom J" for j
    using that fresh_job [OF J(1)] by (auto simp: st_def new_job_system_def)
  then show ?case by (auto simp: tr_inv_def well_ordered_def)
next
  case (reach_schedule tr E s t r b ok s')
  have i: "js_inv J E s" using reach_inv [OF J reach_schedule.hyps(1)] by simp
  have "st s r = Some Idle" using inv_started [OF i reach_schedule.hyps(3)] reach_schedule.hyps(4) by blast
  moreover have "st s' = (st s)(r \<mapsto> Pending)"
    by (rule task_scheduleD [OF i J(1) reach_schedule.hyps(3,4,6)]) (auto simp: st_def set_barriers_def fun_eq_iff option.map_comp comp_def)
  ultimately show ?case using tr_inv_same [OF reach_schedule.IH, of s'] by simp
next
  case (reach_work tr E s t k e s')
  then show ?case using tr_inv_step [OF _ J(1) _ reach_work.hyps(3)] reach_inv [OF J reach_work.hyps(1)] by blast
next
  case (reach_create_barrier tr E s b s')
  then have "st s' = st s" using create_barrier_fields by (intro st_eq) blast
  then show ?case using tr_inv_same [OF reach_create_barrier.IH, of s'] by simp
next
  case (reach_destroy_barrier tr E s b s')
  then have "st s' = st s" using destroy_barrier_fields by (intro st_eq) blast
  then show ?case using tr_inv_same [OF reach_destroy_barrier.IH, of s'] by simp
qed

text \<open>When nothing is pending, every scheduled job has run.\<close>

lemma not_busy_done:
  assumes i: "js_inv J E s" and J: "finite (dom J)" and p: "pending s = 0" and j: "j \<in> E"
  shows "st s j \<in> {None, Some Processed}"
proof -
  have "finite {j \<in> E. st s j = Some Idle}" using inv_E [OF i] J by (auto intro: finite_subset)
  then have "{j \<in> E. st s j = Some Idle} = {}" "inflight s = {#}" using inv_pending [OF i] p by auto
  then have "st s j \<noteq> Some Idle" "st s j \<notin> {Some Pending, Some Executing}" using j inv_flight [OF i, of j] by auto
  then show ?thesis using state_cases [OF i, of j] by blast
qed

section \<open>Memory safety\<close>

text \<open>
  The conditions: jobs with several parents outlive their run, affinities name existing workers, and stealing has a victim. Without the
  first one, a parent may look at a child that another parent has scheduled and that is already gone.
\<close>

definition shared_kept :: "jobs \<Rightarrow> bool" where
  "shared_kept J \<longleftrightarrow> (\<forall>c jc p q. J c = Some jc \<longrightarrow> (p, c) \<in> edges J \<longrightarrow> (q, c) \<in> edges J \<longrightarrow> p \<noteq> q \<longrightarrow> keep_alive jc)"

definition affinities_ok :: "nat \<Rightarrow> jobs \<Rightarrow> bool" where
  "affinities_ok n J \<longleftrightarrow> (\<forall>j jb. J j = Some jb \<longrightarrow> tid_hint (affinity jb) < n)"

text \<open>A thread that looks at a child with a single parent finds it idle, and every barrier that a job names exists.\<close>

definition child_idle :: "jobs \<Rightarrow> job_sys \<Rightarrow> bool" where
  "child_idle J s \<longleftrightarrow> (\<forall>t < length (workers s). \<forall>j c cs. pc (workers s ! t) \<in> {Removed j c cs, Ready j c cs} \<longrightarrow>
     (\<forall>p. (p, c) \<in> edges J \<longrightarrow> p = j) \<longrightarrow> st s c = Some Idle)"

definition barriers_exist :: "job_sys \<Rightarrow> bool" where
  "barriers_exist s \<longleftrightarrow> (\<forall>j jb. jobs s j = Some jb \<longrightarrow> barrier_id jb = k_no_barrier \<or> barrier_id jb < length (barriers s))"

lemma new_child_pc:
  assumes "worker_step cfg n t s = Inr (e, s')" "t < length (workers s)" "pc (workers s' ! t) \<in> {Removed j c cs, Ready j c cs}"
  shows "pc (workers s ! t) = Children j (c # cs) \<or> pc (workers s ! t) = Removed j c cs"
proof (cases "pc (workers s ! t)")
  case (Children k ds)
  then show ?thesis using assms by (cases ds) (auto simp: worker_step_def res_bind_eq_Inr dest!: silentD)
next
  case (Ready k d ds)
  then obtain ok s1 where "claim d s = Inr (ok, s1)" "s' = set_pc t (if ok then Won k d ds else Children k ds) s1"
    using assms(1) by (auto simp: worker_step_def res_bind_eq_Inr dest!: silentD)
  then show ?thesis using assms(2,3) by (auto elim!: claimD split: if_splits)
next
  case (Won k d ds)
  then obtain r where "dispatch cfg t d s = Inr r" "s' = (case r of None \<Rightarrow> s | Some s1 \<Rightarrow> set_pc t (Notify k ds) s1)"
    using assms(1) by (auto simp: worker_step_def res_bind_eq_Inr dest!: silentD)
  then show ?thesis using assms(2,3) Won by (cases r) (auto simp: dispatch_fields)
next
  case (Unbarrier k)
  then show ?thesis using assms by (auto simp: worker_step_def res_bind_eq_Inr barrier_remove_fields dest!: silentD)
next
  case (Look_Steal k)
  then show ?thesis using assms
    by (auto simp: worker_step_def steal_job_def pop_public_def Let_def nth_update_same [of pc] dest!: silentD split: if_splits option.splits)
qed (use assms in \<open>auto simp: worker_step_def res_bind_eq_Inr exchange_state_def release_job_def pop_private_def pop_public_def nth_list_update
    dest!: silentD split: if_splits prod.splits option.splits\<close>)

lemma pc_todo_in: "t < length (workers s) \<Longrightarrow> c \<in># pc_todo (pc (workers s ! t)) \<Longrightarrow> c \<in># todo J s"
  by (auto simp: todo_def set_mset_sum_list intro: bexI [of _ "workers s ! t"])

lemma child_idle_step:
  assumes i: "js_inv J E s" and t: "t < length (workers s)" and step: "worker_step cfg n t s = Inr (e, s')" and ci: "child_idle J s"
  shows "child_idle J s'"
  unfolding child_idle_def
proof (intro allI impI)
  fix u j c cs
  assume u: "u < length (workers s')" and pc: "pc (workers s' ! u) \<in> {Removed j c cs, Ready j c cs}" and single: "\<forall>p. (p, c) \<in> edges J \<longrightarrow> p = j"
  note shape = worker_step_shape [OF step, of u]
  have idle: "st s c = Some Idle"
  proof (cases "u = t")
    case False
    then show ?thesis using ci u pc single shape unfolding child_idle_def by metis
  next
    case True
    then consider "pc (workers s ! t) = Children j (c # cs)" | "pc (workers s ! t) = Removed j c cs" using new_child_pc [OF step t] pc by blast
    then show ?thesis
    proof cases
      case 1
      then have "c \<in># todo J s" using pc_todo_in [OF t] by simp
      then show ?thesis by (rule inv_todo [OF i])
    next
      case 2
      then show ?thesis using ci t single unfolding child_idle_def by blast
    qed
  qed
  show "st s' c = Some Idle"
  proof (cases rule: worker_step_st [OF i t step])
    case (4 k d ds)
    show ?thesis
    proof (cases "d = c")
      case True
      have "worker_ok J (st s) (todo J s) (workers s ! t)" using inv_worker [OF i] t by simp
      then have "(k, c) \<in> edges J" using 4(2) True by (simp add: worker_ok_def pc_ok_def edges_outs)
      then have k: "k = j" using single by blast
      have "u \<noteq> t" using 4(5) pc by auto
      then have "pc (workers s ! u) \<in> {Removed j c cs, Ready j c cs}" using shape pc u by simp
      then have "j \<in># worker_jobs (workers s ! u)" "j \<in># worker_jobs (workers s ! t)" using 4(2) k by (auto simp: worker_jobs_def)
      then show ?thesis using exclusive [OF inv_count [OF i] t, of u j] \<open>u \<noteq> t\<close> u shape by simp
    qed (use 4(4) idle in simp)
  qed (use idle in auto)
qed

lemma worker_step_barrier_ids:
  assumes "js_inv J E s" "t < length (workers s)" "worker_step cfg n t s = Inr (e, s')" "jobs s' x = Some jb'"
  shows "\<exists>jb. jobs s x = Some jb \<and> barrier_id jb' = barrier_id jb"
proof (cases "pc (workers s ! t)")
  case (Children j cs)
  then show ?thesis using assms
    by (cases cs) (auto simp: worker_step_def res_bind_eq_Inr deref_def remove_dependency_def dest!: silentD split: option.splits if_splits)
next
  case (Ready j c cs)
  then obtain ok s1 where "claim c s = Inr (ok, s1)" "s' = set_pc t (if ok then Won j c cs else Children j cs) s1"
    using assms by (auto simp: worker_step_def res_bind_eq_Inr dest!: silentD)
  then show ?thesis using assms(4) by (auto elim!: claimD split: if_splits)
next
  case (Won j c cs)
  then obtain r where "dispatch cfg t c s = Inr r" "s' = (case r of None \<Rightarrow> s | Some s1 \<Rightarrow> set_pc t (Notify j cs) s1)"
    using assms by (auto simp: worker_step_def res_bind_eq_Inr dest!: silentD)
  then show ?thesis using assms(4) by (cases r) (auto simp: dispatch_fields)
next
  case (Unbarrier j)
  then show ?thesis using assms by (auto simp: worker_step_def res_bind_eq_Inr barrier_remove_fields dest!: silentD)
next
  case (Popped j)
  then show ?thesis using assms by (auto simp: worker_step_def res_bind_eq_Inr deref_def exchange_state_def split: option.splits if_splits)
next
  case (Running j)
  then show ?thesis using assms by (auto simp: worker_step_def res_bind_eq_Inr deref_def exchange_state_def split: option.splits if_splits)
next
  case (Releasing j)
  then show ?thesis using assms by (auto simp: worker_step_def res_bind_eq_Inr deref_def release_job_def dest!: silentD split: option.splits if_splits)
qed (use assms in \<open>auto simp: worker_step_def res_bind_eq_Inr pop_shape steal_shape dest!: silentD split: if_splits\<close>)

lemma barriers_exist_step:
  assumes "js_inv J E s" "t < length (workers s)" "worker_step cfg n t s = Inr (e, s')" "barriers_exist s"
  shows "barriers_exist s'"
  using worker_step_barrier_ids [OF assms(1-3)] worker_step_shape [OF assms(3)] assms(4) unfolding barriers_exist_def by metis

text \<open>No step of a thread faults.\<close>

lemma worker_step_safe:
  assumes i: "js_inv J E s" and t: "t < length (workers s)" and J: "shared_kept J" "affinities_ok (length (workers s)) J"
    and vict: "max_stealing_attempts cfg = 0 \<or> 2 \<le> length (workers s)" and ci: "child_idle J s" and be: "barriers_exist s"
  shows "\<exists>r. worker_step cfg n t s = Inr r"
proof -
  have ok: "pc_ok J (st s) (todo J s) (pc (workers s ! t))" using inv_worker [OF i] t by (simp add: worker_ok_def)
  have held: "\<exists>jb. jobs s j = Some jb \<and> jstate jb = x" if "st s j = Some x" for j x using that by (auto simp: st_def)
  have alive: "\<exists>jc. jobs s c = Some jc" if c: "c \<in> set (outs J j)" "pc (workers s ! t) \<in> {Removed j c cs, Ready j c cs}" for j c cs
  proof (cases "\<forall>p. (p, c) \<in> edges J \<longrightarrow> p = j")
    case True
    then have "st s c = Some Idle" using ci t c(2) unfolding child_idle_def by blast
    then show ?thesis by (auto simp: st_def)
  next
    case False
    have "(j, c) \<in> edges J" using c(1) by (simp add: edges_outs)
    moreover from this obtain jp where "j \<in> E" "c \<in> E" using held ok c inv_closed [OF i, of j c] in_E [OF i] by (fastforce simp: pc_ok_def)
    then obtain jc where "J c = Some jc" using inv_E [OF i] by blast
    ultimately show ?thesis using J(1) False inv_keep [OF i, of c jc] unfolding shared_kept_def by (metis not_None_eq)
  qed
  show ?thesis
  proof (cases "pc (workers s ! t)")
    case (Look_Steal k)
    have "stealable_workers (length (workers s)) t \<noteq> []" if "0 < max_stealing_attempts cfg"
    proof -
      define v where "v = (if t = 0 then 1 else 0 :: nat)"
      have "v < length (workers s)" "v \<noteq> t" using vict that t by (auto simp: v_def)
      then have "v \<in> set (stealable_workers (length (workers s)) t)" by (simp add: set_stealable)
      then show ?thesis by auto
    qed
    then show ?thesis using Look_Steal by (auto simp: worker_step_def silent_def steal_job_def Let_def)
  next
    case (Popped j)
    then show ?thesis using ok held by (fastforce simp: worker_step_def pc_ok_def deref_def exchange_state_def)
  next
    case (Running j)
    then show ?thesis using ok held by (fastforce simp: worker_step_def pc_ok_def deref_def exchange_state_def job_assert_def)
  next
    case (Children j cs)
    show ?thesis
    proof (cases cs)
      case (Cons c ds)
      then have "st s c = Some Idle" using pc_todo_in [OF t, of c] Children inv_todo [OF i] by simp
      then show ?thesis using held Children Cons by (fastforce simp: worker_step_def deref_def silent_def)
    qed (use Children in \<open>simp add: worker_step_def silent_def\<close>)
  next
    case (Removed j c cs)
    then show ?thesis using ok alive [of c j cs] by (auto simp: worker_step_def pc_ok_def deref_def silent_def)
  next
    case (Ready j c cs)
    then obtain jc where jc: "jobs s c = Some jc" using ok alive [of c j cs] by (auto simp: pc_ok_def)
    have "c \<notin># todo J s" using ok Ready by (simp add: pc_ok_def)
    then have "pending_in jc = 0" using inv_pending_in [OF i jc] by (simp add: not_in_iff)
    then show ?thesis using Ready jc by (auto simp: worker_step_def claim_def deref_def job_assert_def is_ready_def exchange_state_def silent_def)
  next
    case (Won j c cs)
    then obtain jc where jc: "jobs s c = Some jc" using ok by (auto simp: pc_ok_def st_def)
    then have "tid_hint (affinity jc) < length (workers s)" using inv_node [OF i jc] J(2) by (auto simp: affinities_ok_def same_node_def)
    then show ?thesis using Won jc by (auto simp: worker_step_def dispatch_def deref_def job_assert_def silent_def Let_def)
  next
    case (Unbarrier j)
    then obtain jb where "jobs s j = Some jb" using ok by (auto simp: pc_ok_def st_def)
    moreover from this have "barrier_id jb = k_no_barrier \<or> barrier_id jb < length (barriers s)" using be by (auto simp: barriers_exist_def)
    ultimately show ?thesis using Unbarrier
      by (auto simp: worker_step_def deref_def barrier_remove_def get_barrier_def job_assert_def silent_def)
  next
    case (Releasing j)
    then show ?thesis using ok held [of j Processed] by (auto simp: worker_step_def pc_ok_def deref_def release_job_def job_assert_def silent_def)
  qed (auto simp: worker_step_def silent_def)
qed

end
