(* ===== verification/Job_Safety.thy ===== *)
theory Job_Safety
  imports Job_Correct
begin

text \<open>
  The order of kernels, waiting, and memory safety in every reachable state of the job system, with a small graph on which all
  hypotheses hold.
\<close>

section \<open>Reachable states are safe\<close>

lemma task_schedule_pc:
  assumes "js_inv J E s" "fresh_graph J" "r \<in> dom J" "r \<notin> E" "task_schedule cfg t r b s = Some (Inr (Some (ok, s')))"
  shows "length (workers s') = length (workers s) \<and> (u < length (workers s) \<longrightarrow> pc (workers s' ! u) = pc (workers s ! u))"
  by (rule task_scheduleD [OF assms]) (auto simp: nth_list_update)

lemma child_idle_schedule:
  assumes i: "js_inv J E s" and J: "fresh_graph J" and r: "r \<in> dom J" "r \<notin> E"
    and sch: "task_schedule cfg t r b s = Some (Inr (Some (ok, s')))" and ci: "child_idle J s"
  shows "child_idle J s'"
  unfolding child_idle_def
proof (intro allI impI)
  fix u j c cs
  assume u: "u < length (workers s')" and pc: "pc (workers s' ! u) \<in> {Removed j c cs, Ready j c cs}" and single: "\<forall>p. (p, c) \<in> edges J \<longrightarrow> p = j"
  note shape = task_schedule_pc [OF i J r sch]
  have idle: "st s c = Some Idle" using ci u pc single shape unfolding child_idle_def by metis
  have "worker_ok J (st s) (todo J s) (workers s ! u)" using inv_worker [OF i] u shape by simp
  moreover have "pc (workers s ! u) \<in> {Removed j c cs, Ready j c cs}" using pc shape u by simp
  ultimately have "j \<in> E" "c \<in> set (outs J j)"
    using inv_started [OF i, of j] st_dom [OF i, of j] by (auto simp: worker_ok_def pc_ok_def)
  then have "c \<in> E" using inv_closed [OF i, of j c] by (simp add: edges_outs)
  then have "c \<noteq> r" using r by blast
  moreover have "st s' = (st s)(r \<mapsto> Pending)"
    by (rule task_scheduleD [OF i J r sch]) (auto simp: st_def set_barriers_def fun_eq_iff option.map_comp comp_def)
  ultimately show "st s' c = Some Idle" using idle by simp
qed

lemma barrier_add_exists: "barrier_add b k s = Inr s1 \<Longrightarrow> b = k_no_barrier \<or> b < length (barriers s)"
  by (auto simp: barrier_add_def get_barrier_def res_bind_eq_Inr job_assert_def split: if_splits)

lemma barriers_exist_schedule:
  assumes i: "js_inv J E s" and J: "fresh_graph J" and r: "r \<in> dom J" "r \<notin> E"
    and sch: "task_schedule cfg t r b s = Some (Inr (Some (ok, s')))" and be: "barriers_exist s"
  shows "barriers_exist s'"
proof (rule task_scheduleD [OF i J r sch])
  fix s1 jr v w bs
  assume s1: "s' = notify_all s1" and jr: "jobs s r = Some jr" and js: "jobs s1 = (set_barriers b (reach J r) (jobs s))(r \<mapsto> jr\<lparr>barrier_id := b, jstate := Pending\<rparr>)"
    and add: "barrier_add b (card (reach J r)) s = Inr (s\<lparr>barriers := bs\<rparr>)" "barriers s1 = bs"
  have "length (barriers s1) = length (barriers s)" using barrier_add_length [OF add(1)] add(2) by simp
  then show "barriers_exist s'" using be barrier_add_exists [OF add(1)] unfolding barriers_exist_def s1 notify_fields js set_barriers_def
    by (auto split: if_splits)
qed

lemma reach_safe:
  assumes J: "fresh_graph J" "card (dom J) + n < 2 ^ 64"
  shows "js_reach cfg n mb J tr E s \<Longrightarrow> child_idle J s \<and> barriers_exist s"
proof (induction rule: js_reach.induct)
  case reach_init
  then show ?case using fresh_job [OF J(1)] by (auto simp: child_idle_def barriers_exist_def new_job_system_def new_worker_def)
next
  case (reach_schedule tr E s t r b ok s')
  then show ?case using child_idle_schedule [OF _ J(1)] barriers_exist_schedule [OF _ J(1)] reach_inv [OF J reach_schedule.hyps(1)] by blast
next
  case (reach_work tr E s t k e s')
  then show ?case using child_idle_step barriers_exist_step reach_inv [OF J reach_work.hyps(1)] by metis
next
  case (reach_create_barrier tr E s b s')
  then show ?case using create_barrier_fields [OF reach_create_barrier.hyps(2)] by (simp add: child_idle_def barriers_exist_def st_def)
next
  case (reach_destroy_barrier tr E s b s')
  then show ?case using destroy_barrier_fields [OF reach_destroy_barrier.hyps(2)] by (simp add: child_idle_def barriers_exist_def st_def)
qed

section \<open>A sample graph\<close>

text \<open>Two jobs, the second after the first, as \<open>create_job\<close> and \<open>connect\<close> build it.\<close>

definition sample :: jobs where
  "sample = fst (connect 8 8 0 1 [0 \<mapsto> new_job affinity_async, 1 \<mapsto> new_job affinity_any])"

definition sample_cfg :: js_config where
  "sample_cfg = \<lparr>queue_size = 4, max_stealing_attempts = 1\<rparr>"

lemma sample_jobs: "sample = [0 \<mapsto> (new_job affinity_async)\<lparr>out_nodes := [1]\<rparr>, 1 \<mapsto> (new_job affinity_any)\<lparr>in_nodes := [0], pending_in := 1\<rparr>]"
  by (simp add: sample_def connect_def harness_add_def new_job_def fetch_add_def)

lemma sample_edges: "edges sample = {(0, 1)}"
  by (auto simp: edges_def sample_jobs new_job_def split: if_splits)

lemma sample_fresh: "fresh_graph sample"
proof (rule built_fresh_graph [of 2 8 8])
  have "built 2 8 8 ((Map.empty :: jobs)(0 \<mapsto> (new_job affinity_async)\<lparr>keep_alive := False\<rparr>))" by (intro built_job built_empty) simp_all
  then have "built 2 8 8 ([0 \<mapsto> (new_job affinity_async)\<lparr>keep_alive := False\<rparr>, 1 \<mapsto> (new_job affinity_any)\<lparr>keep_alive := False\<rparr>])"
    by (rule built_job) simp_all
  then show "built 2 8 8 sample"
    by (rule built_edge [where p = 0 and c = 1]) (simp add: sample_def connect_def harness_add_def new_job_def)
  have "acyclic {(0 :: nat, 1 :: nat)}" by (auto simp: acyclic_def trancl_insert)
  then show "acyclic (edges sample)" by (simp add: sample_edges)
qed simp_all

lemma sample_dom: "dom sample = {0, 1}" "card (dom sample) = 2"
  by (auto simp: sample_jobs)

lemma sample_outs: "outs sample x = (if x = 0 then [1] else [])"
  by (simp add: outs_def sample_jobs new_job_def)

lemma sample_reach: "reach sample 0 = {0, 1}"
proof
  have "x \<in> {0, 1}" if "x \<in> reach sample 0" for x
    using that by (induction rule: reach_induct) (auto simp: sample_outs split: if_splits)
  then show "reach sample 0 \<subseteq> {0, 1}" by blast
  show "{0, 1} \<subseteq> reach sample 0" using reach_self reach_step [of 0 sample 0 1] by (auto simp: sample_outs)
qed

lemma sample_kept: "shared_kept sample" "affinities_ok 2 sample"
proof -
  show "shared_kept sample" by (auto simp: shared_kept_def sample_edges)
  show "affinities_ok 2 sample"
    by (auto simp: affinities_ok_def sample_jobs new_job_def affinity_async_def affinity_any_def affinity_fields split: if_splits)
qed

definition sample_pending :: jobs where
  "sample_pending = [0 \<mapsto> (new_job affinity_async)\<lparr>out_nodes := [1], jstate := Pending, barrier_id := 0\<rparr>,
     1 \<mapsto> (new_job affinity_any)\<lparr>in_nodes := [0], pending_in := 1, barrier_id := 0\<rparr>]"

definition sample_state :: job_sys where
  "sample_state = \<lparr>jobs = sample_pending, workers = [new_worker\<lparr>notified := True\<rparr>, new_worker\<lparr>q_public := [0], notified := True\<rparr>], round_robin = [1, 0], pending = 2,
     barriers = [\<lparr>bar_pending = 2, in_use = False\<rparr>]\<rparr>"

lemma sample_schedule: "task_schedule sample_cfg 0 0 0 (new_job_system 2 1 sample) = Some (Inr (Some (True, sample_state)))"
proof -
  let ?s = "new_job_system 2 1 sample" and ?js = "sample_pending(0 \<mapsto> (new_job affinity_async)\<lparr>out_nodes := [1], barrier_id := 0\<rparr>)"
  have a: "tid_hint affinity_async = 1" "balance affinity_async" "stealable affinity_async" by (simp_all add: affinity_async_def affinity_fields)
  have walk: "depth_first_walk 0 [0] [] sample = Some (Inr ([1, 0], ?js))"
    by (simp add: depth_first_walk.simps sample_jobs new_job_def sample_pending_def fun_upd_twist)
  let ?b = "?s\<lparr>jobs := ?js, barriers := [\<lparr>bar_pending = 2, in_use = False\<rparr>]\<rparr>"
  have add: "barrier_add 0 2 (?s\<lparr>jobs := ?js\<rparr>) = Inr ?b"
    by (simp add: barrier_add_def k_no_barrier_def get_barrier_def job_assert_def new_job_system_def new_barrier_def fetch_add_def)
  have claim: "claim 0 ?b = Inr (True, ?b\<lparr>jobs := sample_pending\<rparr>)"
    by (simp add: claim_def deref_def job_assert_def is_ready_def exchange_state_def set_job_def new_job_def sample_pending_def fun_upd_twist)
  let ?d = "sample_state\<lparr>workers := [new_worker, new_worker\<lparr>q_public := [0]\<rparr>]\<rparr>"
  have n: "notify_all ?d = sample_state" by (simp add: notify_all_def sample_state_def)
  have disp: "dispatch sample_cfg 0 0 (?b\<lparr>jobs := sample_pending, pending := 2\<rparr>) = Inr (Some ?d)"
    using a by (simp add: dispatch_def deref_def sample_pending_def new_job_def job_assert_def new_job_system_def dispatch_tid_def submit_def sample_cfg_def
      new_worker_def upd_worker_def sample_state_def numeral_2_eq_2 Let_def)
  have f: "fetch_add 2 0 = 2" by (simp add: fetch_add_def)
  have "try_schedule sample_cfg 0 0 2 ?b = Inr (Some (True, sample_state))"
    using disp n unfolding try_schedule_def claim by (simp add: new_job_system_def f)
  then have rest: "res_bind (barrier_add 0 2 (?s\<lparr>jobs := ?js\<rparr>)) (try_schedule sample_cfg 0 0 2) = Inr (Some (True, sample_state))"
    unfolding add res_bind.simps .
  have "jobs ?s = sample" "sample 0 = Some ((new_job affinity_async)\<lparr>out_nodes := [1]\<rparr>)" by (simp_all add: new_job_system_def sample_jobs)
  note root = this
  have w: "map_option (map_sum id (\<lambda>(marked, js). (length marked, js))) (depth_first_walk 0 [0] [] sample) = Some (Inr (2, ?js))" by (simp add: walk)
  show ?thesis unfolding task_schedule_def root option.case w using rest by (simp add: new_job_def)
qed

lemma sample_reached: "js_reach sample_cfg 2 1 sample [] {0, 1} sample_state"
proof -
  have "js_reach sample_cfg 2 1 sample [] ({} \<union> reach sample 0) sample_state"
    by (rule reach_schedule [OF reach_init _ _ _ _ sample_schedule]) (auto simp: sample_dom sole_root_def sample_edges sample_reach)
  then show ?thesis by (simp add: sample_reach)
qed

section \<open>Properties\<close>

text \<open>
  C36. The kernel of every job starts at most once and returns at most once, after it started; no kernel starts before those of all the jobs it depends on
  have returned, whatever the interleaving of the threads, the stealing, and the order in which the queues return jobs.
\<close>

theorem kernels_in_order:
  assumes "fresh_graph J" "card (dom J) + n < 2 ^ 64" "js_reach cfg n max_barriers J tr E s"
  shows "distinct tr \<and> well_ordered J tr"
  using reach_tr [OF assms] by (simp add: tr_inv_def)

lemma sample_trace:
  obtains s where "js_reach sample_cfg 2 1 sample [Start 0] {0, 1} s"
proof -
  let ?w = "\<lambda>q p. [new_worker\<lparr>notified := True\<rparr>, new_worker\<lparr>q_public := q, notified := True, pc := p\<rparr>]"
  have "worker_step sample_cfg 0 1 sample_state = Inr (None, sample_state\<lparr>workers := ?w [0] Looking\<rparr>)"
    by (simp add: worker_step_def sample_state_def new_worker_def set_pc_def upd_worker_def silent_def)
  from reach_work [OF sample_reached _ this]
  have "js_reach sample_cfg 2 1 sample [] {0, 1} (sample_state\<lparr>workers := ?w [0] Looking\<rparr>)" by (simp add: events_of_def)
  from reach_work [OF this, of 1 0 None "sample_state\<lparr>workers := ?w [0] Look_Public\<rparr>"]
  have "js_reach sample_cfg 2 1 sample [] {0, 1} (sample_state\<lparr>workers := ?w [0] Look_Public\<rparr>)"
    by (simp add: events_of_def worker_step_def pop_private_def try_pop_def new_worker_def set_pc_def upd_worker_def silent_def)
  from reach_work [OF this, of 1 0 None "sample_state\<lparr>workers := ?w [] (Popped 0)\<rparr>"]
  have "js_reach sample_cfg 2 1 sample [] {0, 1} (sample_state\<lparr>workers := ?w [] (Popped 0)\<rparr>)"
    by (simp add: events_of_def worker_step_def pop_public_def try_pop_def new_worker_def set_pc_def upd_worker_def silent_def Let_def)
  from reach_work [OF this, of 1 0 "Some (Start 0)" "set_job 0 ((new_job affinity_async)\<lparr>out_nodes := [1], jstate := Executing, barrier_id := 0\<rparr>)
      (sample_state\<lparr>workers := ?w [] (Running 0)\<rparr>)"]
  have "js_reach sample_cfg 2 1 sample [Start 0] {0, 1} (set_job 0 ((new_job affinity_async)\<lparr>out_nodes := [1], jstate := Executing, barrier_id := 0\<rparr>)
      (sample_state\<lparr>workers := ?w [] (Running 0)\<rparr>))"
    by (simp add: events_of_def worker_step_def deref_def exchange_state_def new_worker_def new_job_def set_pc_def set_job_def upd_worker_def
      sample_state_def sample_pending_def)
  then show thesis by (rule that)
qed

lemma kernels_in_order_witness: "\<exists>s. js_reach sample_cfg 2 1 sample [Start 0] {0, 1} s \<and> distinct [Start 0] \<and> well_ordered sample [Start 0]"
proof -
  obtain s where "js_reach sample_cfg 2 1 sample [Start 0] {0, 1} s" by (rule sample_trace)
  then show ?thesis using kernels_in_order [OF sample_fresh, of 2 sample_cfg 1 "[Start 0]" "{0, 1}" s] by (auto simp: sample_dom)
qed

text \<open>
  C38. No step of a thread touches a job that has been released, fails an assertion or divides by zero, if jobs with several parents are kept alive,
  affinities name existing threads, and there is somebody to steal from.
\<close>

theorem threads_never_fault:
  assumes "fresh_graph J" "card (dom J) + n < 2 ^ 64" "js_reach cfg n max_barriers J tr E s" "shared_kept J" "affinities_ok n J"
    "max_stealing_attempts cfg = 0 \<or> 2 \<le> n" "t < n"
  shows "\<exists>e s'. worker_step cfg i t s = Inr (e, s')"
proof -
  have "\<exists>r. worker_step cfg i t s = Inr r"
    by (rule worker_step_safe) (use reach_inv [OF assms(1-3)] reach_safe [OF assms(1-3)] assms(4-7) in auto)
  then show ?thesis by auto
qed

lemma threads_never_fault_witness: "\<exists>e s'. worker_step sample_cfg 0 1 sample_state = Inr (e, s')"
  by (rule threads_never_fault [OF sample_fresh _ sample_reached sample_kept]) (simp_all add: sample_dom)

end
