(* ===== verification/Job_Liveness.thy ===== *)
theory Job_Liveness
  imports Job_Safety
begin

text \<open>
  Every fair run of the threads finishes the jobs that were scheduled. Each step of a thread that holds a job, and each successful pop, lowers a
  weight; a thread that searches with work in its own queues gets to it in a bounded number of its own steps; and if no
  thread holds a job and no queue has one, the graph has no cycle to hide the remaining jobs in.
\<close>

section \<open>The weight of a state\<close>

fun pc_weight :: "pc \<Rightarrow> nat" where
  "pc_weight (Popped j) = 0"
| "pc_weight (Running j) = 0"
| "pc_weight (Children j cs) = 7 * length cs + 5"
| "pc_weight (Removed j c cs) = 7 * length cs + 11"
| "pc_weight (Ready j c cs) = 7 * length cs + 10"
| "pc_weight (Won j c cs) = 7 * length cs + 9"
| "pc_weight (Notify j cs) = 7 * length cs + 6"
| "pc_weight (Unbarrier j) = 4"
| "pc_weight (Releasing j) = 3"
| "pc_weight Finishing = 2"
| "pc_weight _ = 1"

definition st_weight :: "jobs \<Rightarrow> nat \<Rightarrow> job_state option \<Rightarrow> nat" where
  "st_weight J j x = (if x = Some Idle then 7 * length (outs J j) + 8 else if x = Some Pending then 7 * length (outs J j) + 7
     else if x = Some Executing then 7 * length (outs J j) + 6 else 0)"

text \<open>A thread that is about to block with work in its queues, and one that is blocked.\<close>

definition asleep_weight :: "worker \<Rightarrow> nat" where
  "asleep_weight w = (if \<not> had_pending_jobs w then 0 else if pc w = Falling then 2 else if pc w = Waiting \<and> \<not> notified w then 1 else 0)"

definition jobs_weight :: "jobs \<Rightarrow> (nat \<Rightarrow> job_state option) \<Rightarrow> nat" where
  "jobs_weight J f = (\<Sum>j \<in> dom J. st_weight J j (f j))"

definition pcs_weight :: "worker list \<Rightarrow> nat" where
  "pcs_weight ws = (\<Sum>u < length ws. pc_weight (pc (ws ! u)))"

definition asleep :: "worker list \<Rightarrow> nat" where
  "asleep ws = (\<Sum>u < length ws. asleep_weight (ws ! u))"

definition weight :: "jobs \<Rightarrow> job_sys \<Rightarrow> nat" where
  "weight J s = jobs_weight J (st s) + pcs_weight (workers s) + asleep (workers s)"

lemma jobs_weight_upd: "finite (dom J) \<Longrightarrow> j \<in> dom J \<Longrightarrow> jobs_weight J (f(j := x)) + st_weight J j (f j) = jobs_weight J f + st_weight J j x"
  by (simp add: jobs_weight_def sum.remove)

lemma pcs_weight_step:
  assumes "length ws' = length ws" "t < length ws" "\<And>u. u < length ws \<Longrightarrow> u \<noteq> t \<Longrightarrow> pc (ws' ! u) = pc (ws ! u)"
  shows "pcs_weight ws' + pc_weight (pc (ws ! t)) = pcs_weight ws + pc_weight (pc (ws' ! t))"
proof -
  have "(\<Sum>u \<in> {..<length ws} - {t}. pc_weight (pc (ws' ! u))) = (\<Sum>u \<in> {..<length ws} - {t}. pc_weight (pc (ws ! u)))"
    by (rule sum.cong) (use assms(3) in auto)
  then show ?thesis using assms(1,2) by (simp add: pcs_weight_def sum.remove [of "{..<length ws}" t])
qed

lemma asleep_step:
  assumes "length ws' = length ws" "v < length ws" "\<And>u. u < length ws \<Longrightarrow> u \<noteq> v \<Longrightarrow> asleep_weight (ws' ! u) \<le> asleep_weight (ws ! u)"
  shows "asleep ws' + asleep_weight (ws ! v) \<le> asleep ws + asleep_weight (ws' ! v)"
proof -
  have "(\<Sum>u \<in> {..<length ws} - {v}. asleep_weight (ws' ! u)) \<le> (\<Sum>u \<in> {..<length ws} - {v}. asleep_weight (ws ! u))"
    by (rule sum_mono) (use assms(3) in auto)
  then show ?thesis using assms(1,2) by (simp add: asleep_def sum.remove [of "{..<length ws}" v])
qed

lemma weight_step:
  assumes "worker_step cfg i t s = Inr (e, s')" "t < length (workers s)" "asleep (workers s') \<le> asleep (workers s) + k"
    "jobs_weight J (st s') + pc_weight (pc (workers s' ! t)) + k < jobs_weight J (st s) + pc_weight (pc (workers s ! t))"
  shows "weight J s' < weight J s"
proof -
  have "pcs_weight (workers s') + pc_weight (pc (workers s ! t)) = pcs_weight (workers s) + pc_weight (pc (workers s' ! t))"
    by (rule pcs_weight_step) (use worker_step_shape [OF assms(1)] assms(2) in auto)
  then show ?thesis using assms(3,4) by (simp add: weight_def)
qed

text \<open>What a step can do to the flags and queues of the other threads, unless it pushes a job.\<close>

definition calmer :: "worker \<Rightarrow> worker \<Rightarrow> bool" where
  "calmer w w' \<longleftrightarrow> (had_pending_jobs w' \<longrightarrow> had_pending_jobs w) \<and> (notified w \<longrightarrow> notified w')"

lemma calmer_refl [simp]: "calmer w w" "calmer w (w\<lparr>notified := True\<rparr>)"
  by (simp_all add: calmer_def had_pending_jobs_def)

lemma pop_calmer:
  assumes "u < length (workers s)" "u \<noteq> t"
  shows "calmer (workers s ! u) (workers (pop_private i t p s) ! u)" "calmer (workers s ! u) (workers (pop_public i v t p s) ! u)"
proof -
  show "calmer (workers s ! u) (workers (pop_private i t p s) ! u)" using assms by (simp add: pop_private_def split: option.split)
  show "calmer (workers s ! u) (workers (pop_public i v t p s) ! u)"
    using assms by (cases "v = u") (auto simp: pop_public_def calmer_def had_pending_jobs_def try_pop_def Let_def split: option.split if_splits)
qed

lemma steal_calmer:
  assumes "steal_job i t k s = Inr s'" "u < length (workers s)" "u \<noteq> t"
  shows "calmer (workers s ! u) (workers s' ! u)"
proof -
  obtain v f where "s' = pop_public i v t (Look_Steal (Suc k)) (upd_worker t f s)"
    using assms(1) by (auto simp: steal_job_def Let_def split: if_splits)
  then show ?thesis using pop_calmer(2) [of u "upd_worker t f s" t i v "Look_Steal (Suc k)"] assms(2,3) by simp
qed

lemma others_calm:
  assumes step: "worker_step cfg n t s = Inr (e, s')" and u: "u < length (workers s)" "u \<noteq> t" and no: "\<And>j c cs. pc (workers s ! t) \<noteq> Won j c cs"
  shows "asleep_weight (workers s' ! u) \<le> asleep_weight (workers s ! u)"
proof -
  have "calmer (workers s ! u) (workers s' ! u)"
  proof (cases "pc (workers s ! t)")
    case (Children j cs)
    then show ?thesis using step u by (cases cs) (auto simp: worker_step_def res_bind_eq_Inr dest!: silentD)
  next
    case (Ready j c cs)
    then obtain ok s1 where "claim c s = Inr (ok, s1)" "s' = set_pc t (if ok then Won j c cs else Children j cs) s1"
      using step by (auto simp: worker_step_def res_bind_eq_Inr dest!: silentD)
    then show ?thesis using u by (auto elim!: claimD)
  next
    case (Won j c cs)
    then show ?thesis using no by blast
  next
    case (Unbarrier j)
    then show ?thesis using step u by (auto simp: worker_step_def res_bind_eq_Inr barrier_remove_fields dest!: silentD)
  next
    case (Look_Steal k)
    then show ?thesis using step u steal_calmer [of n t k s s' u] by (auto simp: worker_step_def dest!: silentD split: if_splits)
  qed (use step u in \<open>auto simp: worker_step_def res_bind_eq_Inr pop_calmer exchange_state_def release_job_def
      dest!: silentD split: if_splits prod.splits\<close>)
  then show ?thesis using worker_step_shape [OF step, of u] u by (auto simp: asleep_weight_def calmer_def)
qed

section \<open>Threads that hold a job\<close>

text \<open>The next control state of a thread that holds a job and is not waiting for room in a queue.\<close>

fun next_pc :: "jobs \<Rightarrow> pc \<Rightarrow> pc \<Rightarrow> bool" where
  "next_pc J (Popped j) p \<longleftrightarrow> p = Running j"
| "next_pc J (Running j) p \<longleftrightarrow> p = Children j (outs J j)"
| "next_pc J (Children j cs) p \<longleftrightarrow> (case cs of [] \<Rightarrow> p = Unbarrier j | c # cs' \<Rightarrow> p = Removed j c cs')"
| "next_pc J (Removed j c cs) p \<longleftrightarrow> p = Ready j c cs \<or> p = Children j cs"
| "next_pc J (Ready j c cs) p \<longleftrightarrow> p = Won j c cs \<or> p = Children j cs"
| "next_pc J (Won j c cs) p \<longleftrightarrow> p = Notify j cs"
| "next_pc J (Notify j cs) p \<longleftrightarrow> p = Children j cs"
| "next_pc J (Unbarrier j) p \<longleftrightarrow> p = Releasing j"
| "next_pc J (Releasing j) p \<longleftrightarrow> p = Finishing"
| "next_pc J Finishing p \<longleftrightarrow> p = Loop"
| "next_pc J _ p \<longleftrightarrow> False"

lemma inflight_small:
  assumes "js_inv J E s" "finite (dom J)"
  shows "size (inflight s) \<le> card (dom J)"
proof -
  have "set_mset (inflight s) \<subseteq> dom J"
  proof
    fix j assume "j \<in># inflight s"
    then show "j \<in> dom J" using inflight_state [OF assms(1), of j] st_dom [OF assms(1), of j] by auto
  qed
  then show ?thesis using inv_count [OF assms(1)] assms(2) by (simp add: size_set_mset card_mono)
qed

lemma worker_subset: "t < length (workers s) \<Longrightarrow> worker_jobs (workers s ! t) \<subseteq># inflight s"
  unfolding inflight_def by (metis add.left_commute length_map list.map(2) map_append mset_subset_eq_add_left nth_mem split_list sum_list.Cons sum_list.append)

lemma dispatch_not_full:
  assumes i: "js_inv J E s" and J: "finite (dom J)" and t: "t < length (workers s)" and pc: "pc (workers s ! t) = Won j c cs"
    and room: "card (dom J) \<le> queue_size cfg" and d: "dispatch cfg t c s = Inr r"
  shows "r \<noteq> None"
proof
  assume "r = None"
  then obtain jb :: job where jb: "tid_hint (affinity jb) < length (workers s)"
    "submit cfg (dispatch_tid (length (workers s)) (round_robin s ! t) (affinity jb)) c (stealable (affinity jb)) (s\<lparr>round_robin := (round_robin s)
      [t := if balance (affinity jb) then (round_robin s ! t + 1) mod length (workers s) else round_robin s ! t]\<rparr>) = None"
    using d by (auto simp: dispatch_def res_bind_eq_Inr deref_def job_assert_def Let_def simp del: list_update_id split: option.splits if_split_asm)
  then obtain v where "v < length (workers s)" "submit cfg v c (stealable (affinity jb)) (s\<lparr>round_robin := (round_robin s)
      [t := if balance (affinity jb) then (round_robin s ! t + 1) mod length (workers s) else round_robin s ! t]\<rparr>) = None"
    using dispatch_tid_less by blast
  then have "queue_size cfg \<le> size (mset (q_public (workers s ! v)) + mset (q_private (workers s ! v)))"
    by (auto simp: submit_def Let_def split: if_splits)
  also have "\<dots> < size (inflight s)"
  proof -
    let ?q = "mset (q_public (workers s ! v)) + mset (q_private (workers s ! v))"
    have v: "v < length (workers s)" by fact
    have "?q + {#c#} \<subseteq># inflight s"
    proof (cases "v = t")
      case True
      have "?q + {#c#} \<subseteq># worker_jobs (workers s ! t)" using pc True by (simp add: worker_jobs_def)
      moreover note worker_subset [OF t]
      ultimately show ?thesis by (rule subset_mset.order_trans)
    next
      case False
      have "?q \<subseteq># worker_jobs (workers s ! v)" by (simp add: worker_jobs_def)
      moreover have "{#c#} \<subseteq># worker_jobs (workers s ! t)" using pc by (simp add: worker_jobs_def)
      ultimately have "?q + {#c#} \<subseteq># worker_jobs (workers s ! v) + worker_jobs (workers s ! t)" by (rule subset_mset.add_mono)
      also have "\<dots> \<subseteq># inflight s" unfolding inflight_def by (rule two_workers [OF v t False])
      finally show ?thesis .
    qed
    then have "size (?q + {#c#}) \<le> size (inflight s)" by (rule size_mset_mono)
    then show ?thesis by simp
  qed
  finally show False using inflight_small [OF i J] room by simp
qed

lemma holding_step:
  assumes i: "js_inv J E s" and J: "finite (dom J)" and t: "t < length (workers s)" and step: "worker_step cfg n t s = Inr (e, s')"
    and room: "card (dom J) \<le> queue_size cfg" and busy: "\<not> searching (pc (workers s ! t))"
  shows "next_pc J (pc (workers s ! t)) (pc (workers s' ! t))"
proof -
  have ok: "pc_ok J (st s) (todo J s) (pc (workers s ! t))" using inv_worker [OF i] t by (simp add: worker_ok_def)
  show ?thesis
  proof (cases "pc (workers s ! t)")
    case (Popped j)
    then show ?thesis using step ok t by (auto simp: worker_step_def res_bind_eq_Inr exchange_state_def deref_def pc_ok_def st_def split: option.splits if_splits)
  next
    case (Running j)
    then show ?thesis using step t outs_node [OF i, of j]
      by (auto simp: worker_step_def res_bind_eq_Inr exchange_state_def deref_def split: option.splits if_splits)
  next
    case (Children j cs)
    then show ?thesis using step t by (cases cs) (auto simp: worker_step_def res_bind_eq_Inr dest!: silentD)
  next
    case (Ready j c cs)
    then obtain ok s1 where "claim c s = Inr (ok, s1)" "s' = set_pc t (if ok then Won j c cs else Children j cs) s1"
      using step by (auto simp: worker_step_def res_bind_eq_Inr dest!: silentD)
    then show ?thesis using t Ready by (auto elim!: claimD split: if_splits)
  next
    case (Won j c cs)
    then obtain r where r: "dispatch cfg t c s = Inr r" "s' = (case r of None \<Rightarrow> s | Some s1 \<Rightarrow> set_pc t (Notify j cs) s1)"
      using step by (auto simp: worker_step_def res_bind_eq_Inr dest!: silentD)
    then show ?thesis using dispatch_not_full [OF i J t Won room r(1)] t Won by (auto simp: dispatch_fields)
  next
    case (Unbarrier j)
    then show ?thesis using step t by (auto simp: worker_step_def res_bind_eq_Inr barrier_remove_fields dest!: silentD)
  next
    case (Releasing j)
    then show ?thesis using step t by (auto simp: worker_step_def res_bind_eq_Inr release_job_def dest!: silentD split: if_splits)
  qed (use step t busy in \<open>auto simp: worker_step_def res_bind_eq_Inr dest!: silentD split: if_splits\<close>)
qed

lemma jobs_weight_step:
  assumes i: "js_inv J E s" and J: "finite (dom J)" and t: "t < length (workers s)" and step: "worker_step cfg n t s = Inr (e, s')"
  shows "jobs_weight J (st s') \<le> jobs_weight J (st s)"
proof (cases rule: worker_step_st [OF i t step])
  case (2 j)
  then show ?thesis using jobs_weight_upd [OF J st_dom [OF i 2(2)], of "st s" "Some Executing"] by (simp add: st_weight_def)
next
  case (3 j)
  then show ?thesis using jobs_weight_upd [OF J st_dom [OF i 3(2)], of "st s" "Some Processed"] by (simp add: st_weight_def)
next
  case (4 j c cs)
  then show ?thesis using jobs_weight_upd [OF J st_dom [OF i 4(3)], of "st s" "Some Pending"] by (simp add: st_weight_def)
next
  case (5 j)
  then show ?thesis using jobs_weight_upd [OF J st_dom [OF i 5(2)], of "st s" None] by (simp add: st_weight_def)
qed simp

lemma holding_asleep:
  assumes i: "js_inv J E s" and J: "finite (dom J)" and t: "t < length (workers s)" and step: "worker_step cfg n t s = Inr (e, s')"
    and room: "card (dom J) \<le> queue_size cfg" and busy: "\<not> searching (pc (workers s ! t))"
  shows "asleep (workers s') \<le> asleep (workers s) + (case pc (workers s ! t) of Won j c cs \<Rightarrow> 2 | _ \<Rightarrow> 0)"
proof -
  note nx = holding_step [OF i J t step room busy]
  have own: "asleep_weight (workers s' ! t) = 0" using nx by (cases "pc (workers s ! t)") (auto simp: asleep_weight_def split: list.splits)
  show ?thesis
  proof (cases "\<exists>j c cs. pc (workers s ! t) = Won j c cs")
    case False
    then have "asleep (workers s') + asleep_weight (workers s ! t) \<le> asleep (workers s) + asleep_weight (workers s' ! t)"
      using worker_step_shape [OF step] by (intro asleep_step others_calm [OF step]) (auto simp: t)
    then show ?thesis using own by simp
  next
    case True
    then obtain j c cs where pc: "pc (workers s ! t) = Won j c cs" by blast
    then obtain r where r: "dispatch cfg t c s = Inr r" "s' = (case r of None \<Rightarrow> s | Some s1 \<Rightarrow> set_pc t (Notify j cs) s1)"
      using step by (auto simp: worker_step_def res_bind_eq_Inr dest!: silentD)
    then obtain s1 where s1: "dispatch cfg t c s = Inr (Some s1)" "s' = set_pc t (Notify j cs) s1"
      using dispatch_not_full [OF i J t pc room r(1)] by auto
    obtain jb :: job and rr v where v: "v < length (workers s)"
      "submit cfg v c (stealable (affinity jb)) (s\<lparr>round_robin := (round_robin s)[t := rr]\<rparr>) = Some s1" using dispatchD [OF s1(1)] by metis
    obtain w :: worker where w: "s1 = (s\<lparr>round_robin := (round_robin s)[t := rr]\<rparr>)\<lparr>workers := (workers s)[v := w]\<rparr>"
      by (rule submit_workers [OF v(2)]) simp
    have "asleep (workers s') + asleep_weight (workers s ! v) \<le> asleep (workers s) + asleep_weight (workers s' ! v)"
    proof (rule asleep_step)
      fix u assume "u < length (workers s)" "u \<noteq> v"
      then show "asleep_weight (workers s' ! u) \<le> asleep_weight (workers s ! u)" using own by (cases "u = t") (auto simp: s1(2) w)
    qed (use v(1) in \<open>simp_all add: s1(2) w\<close>)
    moreover have "asleep_weight (workers s' ! v) \<le> 2" by (simp add: asleep_weight_def)
    ultimately show ?thesis using pc by simp
  qed
qed

lemma holding_weight:
  assumes i: "js_inv J E s" and J: "finite (dom J)" and t: "t < length (workers s)" and step: "worker_step cfg n t s = Inr (e, s')"
    and room: "card (dom J) \<le> queue_size cfg" and busy: "\<not> searching (pc (workers s ! t))"
  shows "weight J s' < weight J s"
proof (rule weight_step [OF step t holding_asleep [OF i J t step room busy]])
  have ok: "pc_ok J (st s) (todo J s) (pc (workers s ! t))" using inv_worker [OF i] t by (simp add: worker_ok_def)
  note nx = holding_step [OF i J t step room busy] and jw = jobs_weight_step [OF i J t step]
  show "jobs_weight J (st s') + pc_weight (pc (workers s' ! t)) + (case pc (workers s ! t) of Won j c cs \<Rightarrow> 2 | _ \<Rightarrow> 0) < jobs_weight J (st s) + pc_weight (pc (workers s ! t))"
  proof (cases "pc (workers s ! t)")
    case (Popped j)
    then obtain jb where jb: "jobs s j = Some jb" "jstate jb = Pending" using ok by (auto simp: pc_ok_def st_def)
    then have "s' = set_pc t (Running j) (set_job j (jb\<lparr>jstate := Executing\<rparr>) s)"
      using step Popped by (auto simp: worker_step_def deref_def exchange_state_def)
    then have "st s' = (st s)(j \<mapsto> Executing)" by (auto simp: st_def)
    moreover have "st s j = Some Pending" using jb by (simp add: st_def)
    ultimately show ?thesis using jobs_weight_upd [OF J, of j "st s" "Some Executing"] st_dom [OF i, of j] nx Popped by (simp add: st_weight_def)
  next
    case (Running j)
    then obtain jb where jb: "jobs s j = Some jb" "jstate jb = Executing" using ok by (auto simp: pc_ok_def st_def)
    then have "s' = set_pc t (Children j (out_nodes jb)) (set_job j (jb\<lparr>jstate := Processed\<rparr>) s)"
      using step Running by (auto simp: worker_step_def deref_def exchange_state_def job_assert_def)
    then have "st s' = (st s)(j \<mapsto> Processed)" by (auto simp: st_def)
    moreover have "st s j = Some Executing" using jb by (simp add: st_def)
    ultimately show ?thesis using jobs_weight_upd [OF J, of j "st s" "Some Processed"] st_dom [OF i, of j] nx Running by (simp add: st_weight_def)
  next
    case (Children j cs)
    then show ?thesis using nx jw by (auto split: list.splits)
  qed (use nx jw busy in auto)
qed


section \<open>Threads that search\<close>

text \<open>The next control state of a thread that finds no job.\<close>

fun search_next :: "js_config \<Rightarrow> nat \<Rightarrow> worker \<Rightarrow> pc \<Rightarrow> bool" where
  "search_next cfg t w p = (case pc w of
       Loop \<Rightarrow> p = Looking
     | Looking \<Rightarrow> p = Look_Public \<and> q_private w = []
     | Look_Public \<Rightarrow> p = Look_Steal 0 \<and> q_public w = []
     | Look_Steal k \<Rightarrow> p = (if k < max_stealing_attempts cfg then Look_Steal (Suc k) else if t = 0 then Waking else Sleeping)
     | Sleeping \<Rightarrow> p = (if had_pending_jobs w then Loop else Falling)
     | Falling \<Rightarrow> p = Waiting
     | Waiting \<Rightarrow> p = Sleeping \<or> p = Waiting \<and> \<not> notified w
     | Waking \<Rightarrow> p = Loop
     | _ \<Rightarrow> False)"

definition alive :: "worker \<Rightarrow> bool" where
  "alive w \<longleftrightarrow> \<not> should_terminate w \<and> pc w \<noteq> Stopping"

definition same_queues :: "worker list \<Rightarrow> worker list \<Rightarrow> bool" where
  "same_queues ws ws' \<longleftrightarrow> (\<forall>u < length ws. q_public (ws' ! u) = q_public (ws ! u) \<and> q_private (ws' ! u) = q_private (ws ! u))"

lemma try_pop_None: "try_pop i q = None \<longleftrightarrow> q = []"
  by (simp add: try_pop_def Let_def)

lemmas queue_updates = same_queues_def nth_update_same [of q_public] nth_update_same [of q_private]

lemma searching_step:
  assumes t: "t < length (workers s)" and step: "worker_step cfg n t s = Inr (e, s')"
    and pc: "searching (pc (workers s ! t))" and al: "alive (workers s ! t)"
  shows "(\<exists>j. pc (workers s' ! t) = Popped j) \<or> search_next cfg t (workers s ! t) (pc (workers s' ! t)) \<and> same_queues (workers s) (workers s')"
proof (cases "pc (workers s ! t)")
  case (Look_Steal k)
  show ?thesis
  proof (cases "k < max_stealing_attempts cfg")
    case True
    then obtain v where "s' = pop_public n v t (Look_Steal (Suc k)) (upd_worker t (\<lambda>w. w\<lparr>stealing_round_robin := fetch_add 1 (stealing_round_robin (workers s ! t))\<rparr>) s)"
      using step Look_Steal by (auto simp: worker_step_def steal_job_def Let_def dest!: silentD split: if_splits)
    then show ?thesis using t True Look_Steal by (cases "v = t") (auto simp: pop_public_def queue_updates split: option.splits)
  next
    case False
    then have "s' = set_pc t (if t = 0 then Waking else Sleeping) s" using step Look_Steal by (auto simp: worker_step_def dest!: silentD)
    then show ?thesis using t False Look_Steal by (auto simp: queue_updates)
  qed
next
  case Looking
  then have "s' = pop_private n t Look_Public s" using step by (auto simp: worker_step_def dest!: silentD)
  then show ?thesis using t Looking by (auto simp: pop_private_def try_pop_None queue_updates split: option.splits)
next
  case Look_Public
  then have "s' = pop_public n t t (Look_Steal 0) s" using step by (auto simp: worker_step_def dest!: silentD)
  then show ?thesis using t Look_Public by (auto simp: pop_public_def try_pop_None queue_updates split: option.splits)
next
  case Sleeping
  then show ?thesis using t step al by (auto simp: worker_step_def alive_def queue_updates dest!: silentD)
next
  case Falling
  then show ?thesis using t step by (auto simp: worker_step_def queue_updates dest!: silentD)
next
  case Waiting
  then show ?thesis using t step by (auto simp: worker_step_def queue_updates dest!: silentD split: if_splits)
next
  case Waking
  then show ?thesis using t step by (auto simp: worker_step_def queue_updates nth_list_update dest!: silentD)
next
  case Loop
  then have "s' = set_pc t Looking s" using step al by (auto simp: worker_step_def alive_def dest!: silentD)
  then show ?thesis using t Loop by (auto simp: queue_updates)
qed (use pc al in \<open>auto simp: alive_def\<close>)

lemma search_next_searching: "search_next cfg t w p \<Longrightarrow> searching p"
  by (cases "pc w") (auto split: if_splits)

lemma search_next_asleep:
  assumes "search_next cfg t w (pc w')" "q_public w' = q_public w" "q_private w' = q_private w"
  shows "asleep_weight w' \<le> asleep_weight w"
proof -
  have hp: "had_pending_jobs w' = had_pending_jobs w" using assms(2,3) by (simp add: had_pending_jobs_def)
  show ?thesis using assms(1) unfolding asleep_weight_def hp by (cases "pc w") (simp_all split: if_splits, auto)
qed

text \<open>A step that finds no job leaves the weight of every thread alone, or lowers the weight of the state.\<close>

lemma searching_weight:
  assumes i: "js_inv J E s" and J: "finite (dom J)" and t: "t < length (workers s)" and step: "worker_step cfg n t s = Inr (e, s')"
    and pc: "searching (pc (workers s ! t))" and al: "alive (workers s ! t)"
  shows "weight J s' < weight J s \<or> weight J s' = weight J s \<and> search_next cfg t (workers s ! t) (pc (workers s' ! t)) \<and>
    same_queues (workers s) (workers s') \<and> (\<forall>u < length (workers s). asleep_weight (workers s' ! u) = asleep_weight (workers s ! u))"
proof -
  have pw: "pc_weight q = 1" if "searching q" for q using that by (cases q) auto
  note jw = jobs_weight_step [OF i J t step] and sh = worker_step_shape [OF step] and le = others_calm [OF step]
  have own: "asleep_weight (workers s' ! t) \<le> asleep_weight (workers s ! t)"
    using searching_step [OF t step pc al]
  proof
    assume "\<exists>j. pc (workers s' ! t) = Popped j"
    then show ?thesis by (auto simp: asleep_weight_def)
  next
    assume "search_next cfg t (workers s ! t) (pc (workers s' ! t)) \<and> same_queues (workers s) (workers s')"
    then show ?thesis using t by (intro search_next_asleep [of cfg t]) (auto simp: same_queues_def)
  qed
  have all: "asleep_weight (workers s' ! u) \<le> asleep_weight (workers s ! u)" if "u < length (workers s)" for u
  proof (cases "u = t")
    case False
    show ?thesis by (rule le [OF that False]) (use pc in auto)
  qed (use own in simp)
  have as: "asleep (workers s') \<le> asleep (workers s)" unfolding asleep_def using sh all by (auto intro: sum_mono)
  show ?thesis
  proof (cases "\<exists>j. pc (workers s' ! t) = Popped j")
    case True
    then have "weight J s' < weight J s" using jw pw [OF pc] as by (intro weight_step [OF step t, of 0]) auto
    then show ?thesis ..
  next
    case False
    then have nx: "search_next cfg t (workers s ! t) (pc (workers s' ! t))" "same_queues (workers s) (workers s')" using searching_step [OF t step pc al] by auto
    have "pcs_weight (workers s') + pc_weight (pc (workers s ! t)) = pcs_weight (workers s) + pc_weight (pc (workers s' ! t))"
      by (rule pcs_weight_step) (use sh t in auto)
    then have p: "pcs_weight (workers s') = pcs_weight (workers s)" using pw [OF pc] pw [OF search_next_searching [OF nx(1)]] by simp
    show ?thesis
    proof (cases "weight J s' < weight J s")
      case False
      then have eq: "weight J s' = weight J s" "asleep (workers s') = asleep (workers s)" using jw as p by (auto simp: weight_def)
      have "asleep_weight (workers s' ! u) = asleep_weight (workers s ! u)" if u: "u < length (workers s)" for u
      proof (rule ccontr)
        assume "asleep_weight (workers s' ! u) \<noteq> asleep_weight (workers s ! u)"
        then have "asleep_weight (workers s' ! u) < asleep_weight (workers s ! u)" using all [OF u] by simp
        then have "(\<Sum>u < length (workers s). asleep_weight (workers s' ! u)) < (\<Sum>u < length (workers s). asleep_weight (workers s ! u))"
          using u all by (intro sum_strict_mono_ex1) auto
        then show False using eq(2) sh by (simp add: asleep_def)
      qed
      then show ?thesis using eq(1) nx by blast
    qed simp
  qed
qed

section \<open>Nobody is told to stop\<close>

lemma should_terminate_step:
  assumes "worker_step cfg n t s = Inr (e, s')" "u < length (workers s)"
  shows "should_terminate (workers s' ! u) = should_terminate (workers s ! u)"
proof (cases "pc (workers s ! t)")
  case (Children j cs)
  then show ?thesis using assms by (cases cs) (auto simp: worker_step_def res_bind_eq_Inr nth_update_same [of should_terminate] dest!: silentD)
next
  case (Ready j c cs)
  then obtain ok s1 where "claim c s = Inr (ok, s1)" "s' = set_pc t (if ok then Won j c cs else Children j cs) s1"
    using assms by (auto simp: worker_step_def res_bind_eq_Inr dest!: silentD)
  then show ?thesis by (auto simp: nth_update_same [of should_terminate] elim!: claimD)
next
  case (Won j c cs)
  then obtain r where "dispatch cfg t c s = Inr r" "s' = (case r of None \<Rightarrow> s | Some s1 \<Rightarrow> set_pc t (Notify j cs) s1)"
    using assms by (auto simp: worker_step_def res_bind_eq_Inr dest!: silentD)
  then show ?thesis by (cases r) (auto simp: dispatch_shape nth_update_same [of should_terminate])
next
  case (Unbarrier j)
  then show ?thesis using assms
    by (auto simp: worker_step_def res_bind_eq_Inr barrier_remove_fields nth_update_same [of should_terminate] dest!: silentD)
qed (use assms in \<open>auto simp: worker_step_def res_bind_eq_Inr pop_private_def pop_public_def steal_job_def Let_def exchange_state_def release_job_def
    nth_update_same [of should_terminate] dest!: silentD split: if_splits prod.splits option.splits\<close>)

lemma pc_not_stopping:
  assumes t: "t < length (workers s)" and step: "worker_step cfg n t s = Inr (e, s')" and al: "alive (workers s ! t)"
  shows "pc (workers s' ! t) \<noteq> Stopping"
proof (cases "pc (workers s ! t)")
  case (Children j cs)
  then show ?thesis using t step by (cases cs) (auto simp: worker_step_def res_bind_eq_Inr dest!: silentD)
next
  case (Ready j c cs)
  then obtain ok s1 where "claim c s = Inr (ok, s1)" "s' = set_pc t (if ok then Won j c cs else Children j cs) s1"
    using step by (auto simp: worker_step_def res_bind_eq_Inr dest!: silentD)
  then show ?thesis using t by (auto elim!: claimD split: if_splits)
next
  case (Won j c cs)
  then obtain r where "dispatch cfg t c s = Inr r" "s' = (case r of None \<Rightarrow> s | Some s1 \<Rightarrow> set_pc t (Notify j cs) s1)"
    using step by (auto simp: worker_step_def res_bind_eq_Inr dest!: silentD)
  then show ?thesis using t Won by (cases r) (auto simp: dispatch_fields)
next
  case (Unbarrier j)
  then show ?thesis using t step by (auto simp: worker_step_def res_bind_eq_Inr barrier_remove_fields dest!: silentD)
next
  case (Look_Steal k)
  then show ?thesis using t step
    by (auto simp: worker_step_def steal_job_def pop_public_def Let_def nth_update_same [of pc] nth_list_update dest!: silentD split: if_splits option.splits)
qed (use t step al in \<open>auto simp: worker_step_def res_bind_eq_Inr pop_private_def pop_public_def exchange_state_def release_job_def alive_def
    nth_list_update dest!: silentD split: if_splits prod.splits option.splits\<close>)

lemma alive_step:
  assumes "t < length (workers s)" "worker_step cfg n t s = Inr (e, s')" "alive (workers s ! t)" "alive (workers s ! u)" "u < length (workers s)"
  shows "alive (workers s' ! u)"
  using pc_not_stopping [OF assms(1-3)] should_terminate_step [OF assms(2), of u] worker_step_shape [OF assms(2), of u] assms(4,5)
  by (cases "u = t") (simp_all add: alive_def)

section \<open>Fairness\<close>

text \<open>
  A machine of \<open>n\<close> threads whose weight never grows. Away from the goal some thread is helpful: its own steps lower the weight or its rank, and the steps of
  others lower the weight or leave it helpful with the same rank. Then every fair run reaches the goal.
\<close>

definition fair :: "nat \<Rightarrow> (nat \<Rightarrow> nat) \<Rightarrow> bool" where
  "fair n sched \<longleftrightarrow> (\<forall>k. sched k < n) \<and> (\<forall>t < n. \<forall>k. \<exists>m \<ge> k. sched m = t)"

locale fair_progress =
  fixes n :: nat and good :: "'s \<Rightarrow> bool" and step :: "nat \<Rightarrow> 's \<Rightarrow> 's \<Rightarrow> bool" and goal :: "'s \<Rightarrow> bool"
    and size_of :: "'s \<Rightarrow> nat" and helpful :: "nat \<Rightarrow> 's \<Rightarrow> bool" and distance :: "nat \<Rightarrow> 's \<Rightarrow> nat"
  assumes good_step: "good s \<Longrightarrow> t < n \<Longrightarrow> step t s s' \<Longrightarrow> good s'"
    and size_step: "good s \<Longrightarrow> t < n \<Longrightarrow> step t s s' \<Longrightarrow> size_of s' \<le> size_of s"
    and someone: "good s \<Longrightarrow> \<not> goal s \<Longrightarrow> \<exists>t < n. helpful t s"
    and own_step: "good s \<Longrightarrow> t < n \<Longrightarrow> helpful t s \<Longrightarrow> step t s s' \<Longrightarrow> size_of s' < size_of s \<or> helpful t s' \<and> distance t s' < distance t s"
    and other_step: "good s \<Longrightarrow> t < n \<Longrightarrow> u < n \<Longrightarrow> u \<noteq> t \<Longrightarrow> helpful t s \<Longrightarrow> step u s s' \<Longrightarrow>
      size_of s' < size_of s \<or> helpful t s' \<and> distance t s' = distance t s"
begin

lemma good_run:
  assumes "good (\<sigma> 0)" "\<And>k. step (sched k) (\<sigma> k) (\<sigma> (Suc k))" "fair n sched"
  shows "good (\<sigma> k)"
proof (induction k)
  case (Suc k)
  then show ?case using good_step [OF Suc _ assms(2)] assms(3) by (simp add: fair_def)
qed (rule assms(1))

text \<open>The turns of a helpful thread come, and each lowers the weight or brings it closer.\<close>

lemma helpful_until_turn:
  assumes run: "\<And>k. good (\<sigma> k)" "\<And>k. step (sched k) (\<sigma> k) (\<sigma> (Suc k))" "\<And>k. sched k < n"
    and t: "t < n" "helpful t (\<sigma> k)" and m: "\<And>i. k \<le> i \<Longrightarrow> i < k + d \<Longrightarrow> sched i \<noteq> t"
  shows "(\<exists>i. size_of (\<sigma> i) < size_of (\<sigma> k)) \<or> helpful t (\<sigma> (k + d)) \<and> distance t (\<sigma> (k + d)) = distance t (\<sigma> k) \<and> size_of (\<sigma> (k + d)) = size_of (\<sigma> k)"
  using m
proof (induction d)
  case (Suc d)
  then have IH: "(\<exists>i. size_of (\<sigma> i) < size_of (\<sigma> k)) \<or> helpful t (\<sigma> (k + d)) \<and> distance t (\<sigma> (k + d)) = distance t (\<sigma> k) \<and>
      size_of (\<sigma> (k + d)) = size_of (\<sigma> k)" by simp
  have "sched (k + d) \<noteq> t" using Suc.prems by simp
  note other = other_step [OF run(1) t(1) run(3) this _ run(2)] and le = size_step [OF run(1) run(3) run(2), of "k + d"]
  from IH show ?case
  proof
    assume h: "helpful t (\<sigma> (k + d)) \<and> distance t (\<sigma> (k + d)) = distance t (\<sigma> k) \<and> size_of (\<sigma> (k + d)) = size_of (\<sigma> k)"
    then have "size_of (\<sigma> (Suc (k + d))) < size_of (\<sigma> k) \<or> helpful t (\<sigma> (Suc (k + d))) \<and> distance t (\<sigma> (Suc (k + d))) = distance t (\<sigma> k)"
      using other by simp
    then show ?thesis using h le by (metis add_Suc_right le_neq_implies_less)
  qed simp
qed (use t in simp)

lemma helpful_progress:
  assumes run: "\<And>k. good (\<sigma> k)" "\<And>k. step (sched k) (\<sigma> k) (\<sigma> (Suc k))" "fair n sched" and t: "t < n"
  shows "helpful t (\<sigma> k) \<Longrightarrow> \<exists>i. size_of (\<sigma> i) < size_of (\<sigma> k)"
proof (induction "distance t (\<sigma> k)" arbitrary: k rule: less_induct)
  case less
  have turn: "\<exists>m \<ge> k. sched m = t" using run(3) t by (simp add: fair_def)
  define m where "m = (LEAST m. k \<le> m \<and> sched m = t)"
  have m: "k \<le> m" "sched m = t" using LeastI_ex [OF turn [unfolded Bex_def]] by (auto simp: m_def)
  have before: "sched i \<noteq> t" if "k \<le> i" "i < k + (m - k)" for i using that m(1) not_less_Least [of i "\<lambda>m. k \<le> m \<and> sched m = t"] by (auto simp: m_def)
  have lt: "sched k < n" for k using run(3) by (simp add: fair_def)
  have "(\<exists>i. size_of (\<sigma> i) < size_of (\<sigma> k)) \<or> helpful t (\<sigma> (k + (m - k))) \<and> distance t (\<sigma> (k + (m - k))) = distance t (\<sigma> k) \<and>
      size_of (\<sigma> (k + (m - k))) = size_of (\<sigma> k)"
    by (rule helpful_until_turn [OF run(1,2) lt t less.prems]) (rule before)
  then show ?case
  proof
    assume "helpful t (\<sigma> (k + (m - k))) \<and> distance t (\<sigma> (k + (m - k))) = distance t (\<sigma> k) \<and> size_of (\<sigma> (k + (m - k))) = size_of (\<sigma> k)"
    then have h: "helpful t (\<sigma> m)" "distance t (\<sigma> m) = distance t (\<sigma> k)" "size_of (\<sigma> m) = size_of (\<sigma> k)" using m(1) by simp_all
    show ?thesis using own_step [OF run(1) t h(1), of "\<sigma> (Suc m)"] run(2) [of m] m(2) less.hyps [of "Suc m"] h size_step [OF run(1) t, of m "\<sigma> (Suc m)"]
      by (metis less_le_trans)
  qed simp
qed

theorem fair_reaches_goal:
  assumes "good (\<sigma> 0)" "\<And>k. step (sched k) (\<sigma> k) (\<sigma> (Suc k))" "fair n sched"
  shows "\<exists>k. goal (\<sigma> k)"
proof -
  note good = good_run [OF assms]
  have "\<exists>k. goal (\<sigma> k)" for i :: nat
  proof (induction "size_of (\<sigma> i)" arbitrary: i rule: less_induct)
    case less
    show ?case
    proof (cases "goal (\<sigma> i)")
      case False
      then obtain t where "t < n" "helpful t (\<sigma> i)" using someone [OF good] by blast
      then show ?thesis using helpful_progress [OF good assms(2,3)] less by blast
    qed blast
  qed
  then show ?thesis .
qed

end

section \<open>The job system\<close>

text \<open>Someone has work: a thread holds a job, or a queue holds one.\<close>

lemma work_somewhere:
  assumes i: "js_inv J E s" and J: "fresh_graph J" and busy: "is_busy s"
  shows "\<exists>t < length (workers s). \<not> searching (pc (workers s ! t)) \<or> had_pending_jobs (workers s ! t)"
proof (rule ccontr)
  assume "\<not> ?thesis"
  then have no: "searching (pc w) \<and> q_public w = [] \<and> q_private w = []" if "w \<in> set (workers s)" for w
    using that by (auto simp: had_pending_jobs_def in_set_conv_nth)
  have fl: "inflight s = {#}"
  proof -
    have "worker_jobs w = {#}" if "w \<in> set (workers s)" for w using no [OF that] searchingD [of "pc w"] by (simp add: worker_jobs_def)
    then have "j \<notin># inflight s" for j using inflight_held by (metis nth_mem empty_iff set_mset_empty)
    then show ?thesis by (auto intro!: multiset_eqI simp: not_in_iff)
  qed
  have fin: "finishing s = 0" using no searchingD by (fastforce simp: finishing_def sum_list_eq_0_iff)
  let ?I = "{j \<in> E. st s j = Some Idle}"
  have "finite (edges J)"
  proof -
    have "edges J \<subseteq> dom J \<times> dom J" using fresh_range [OF J] by (fastforce simp: edges_def)
    then show ?thesis using fresh_fin [OF J] finite_subset by blast
  qed
  then have wf: "wf (edges J)" using fresh_acyclic [OF J] by (rule finite_acyclic_wf)
  have "0 < card ?I" using busy inv_pending [OF i] fl fin by (simp add: is_busy_def)
  then have "?I \<noteq> {}" by (metis card.empty less_irrefl)
  then obtain j0 where j0: "j0 \<in> ?I" by blast
  obtain j where j: "j \<in> ?I" "\<And>p. (p, j) \<in> edges J \<Longrightarrow> p \<notin> ?I" by (rule wfE_min [OF wf j0]) blast
  have "pc_child (pc w) \<noteq> Some j \<and> pc_todo (pc w) = {#}" if "w \<in> set (workers s)" for w using no [OF that] searchingD [of "pc w"] by simp
  moreover from this have "todo J s = (\<Sum>p \<in> unprocessed s. mset (outs J p))"
    by (simp add: todo_def sum_list_0 comp_def cong: map_cong)
  ultimately have "j \<in># (\<Sum>p \<in> unprocessed s. mset (outs J p))" using inv_idle [OF i, of j] j(1) by auto
  then obtain p where p: "p \<in> unprocessed s" "(p, j) \<in> edges J"
    using finite_unprocessed [OF i fresh_fin [OF J]] by (auto simp: set_mset_sum edges_outs)
  have "st s p \<notin> {Some Pending, Some Executing}" using inv_flight [OF i, of p] fl by auto
  then have "p \<in> ?I" using p inv_closed [OF i p(2)] j(1) by (auto simp: unprocessed_def)
  then show False using j(2) p(2) by blast
qed

text \<open>The main thread never blocks.\<close>

definition main_awake :: "job_sys \<Rightarrow> bool" where
  "main_awake s \<longleftrightarrow> pc (workers s ! 0) \<notin> {Sleeping, Falling, Waiting}"

lemma next_pc_holding: "next_pc J p q \<Longrightarrow> q \<notin> {Sleeping, Falling, Waiting}"
  by (cases p) (auto split: list.splits)

text \<open>The states from which the jobs get done: the conditions are those of the invariant, room in the queues, and that nobody has been told to stop.\<close>

definition can_finish :: "js_config \<Rightarrow> nat \<Rightarrow> jobs \<Rightarrow> nat set \<Rightarrow> job_sys \<Rightarrow> bool" where
  "can_finish cfg n J E s \<longleftrightarrow> fresh_graph J \<and> card (dom J) \<le> queue_size cfg \<and> js_inv J E s \<and> 0 < n \<and> length (workers s) = n \<and>
     (\<forall>t < n. alive (workers s ! t)) \<and> main_awake s"

lemma can_finishD:
  assumes "can_finish cfg n J E s"
  shows "fresh_graph J" "finite (dom J)" "card (dom J) \<le> queue_size cfg" "js_inv J E s" "0 < n" "length (workers s) = n"
    "t < n \<Longrightarrow> alive (workers s ! t)" "main_awake s"
  using assms fresh_fin by (auto simp: can_finish_def)

definition thread_step :: "js_config \<Rightarrow> nat \<Rightarrow> job_sys \<Rightarrow> job_sys \<Rightarrow> bool" where
  "thread_step cfg t s s' \<longleftrightarrow> (\<exists>i e. worker_step cfg i t s = Inr (e, s'))"

text \<open>
  Who gets things going: a thread that holds a job, a thread with work in its queues that is not blocked, and the main thread while one
  is blocked that has.
\<close>

definition helpful :: "nat \<Rightarrow> nat \<Rightarrow> job_sys \<Rightarrow> bool" where
  "helpful n t s \<longleftrightarrow> \<not> searching (pc (workers s ! t)) \<or> had_pending_jobs (workers s ! t) \<and> asleep_weight (workers s ! t) \<noteq> 1 \<or>
     t = 0 \<and> (\<exists>v < n. asleep_weight (workers s ! v) = 1)"

text \<open>How far a thread with work in its own queues is from taking a job, and the main thread from its next notification.\<close>

fun rank :: "js_config \<Rightarrow> worker \<Rightarrow> nat" where
  "rank cfg w = (case pc w of Looking \<Rightarrow> if q_private w \<noteq> [] then 0 else 1 | Loop \<Rightarrow> 2 | Sleeping \<Rightarrow> 3 | Waking \<Rightarrow> 3 | Waiting \<Rightarrow> 4
     | Look_Steal k \<Rightarrow> (max_stealing_attempts cfg - k) + 4 | Look_Public \<Rightarrow> if q_public w \<noteq> [] then 0 else max_stealing_attempts cfg + 5 | _ \<Rightarrow> 0)"

fun notify_rank :: "js_config \<Rightarrow> pc \<Rightarrow> nat" where
  "notify_rank cfg Loop = max_stealing_attempts cfg + 4"
| "notify_rank cfg Looking = max_stealing_attempts cfg + 3"
| "notify_rank cfg Look_Public = max_stealing_attempts cfg + 2"
| "notify_rank cfg (Look_Steal k) = (max_stealing_attempts cfg - k) + 1"
| "notify_rank cfg _ = 0"

definition way_to_go :: "js_config \<Rightarrow> nat \<Rightarrow> job_sys \<Rightarrow> nat" where
  "way_to_go cfg t s = (if \<not> searching (pc (workers s ! t)) then 0
     else if had_pending_jobs (workers s ! t) then rank cfg (workers s ! t) else notify_rank cfg (pc (workers s ! t)))"

lemma rank_decreases:
  assumes "search_next cfg t w (pc w')" "q_public w' = q_public w" "q_private w' = q_private w" "had_pending_jobs w" "asleep_weight w \<noteq> 1"
    "asleep_weight w' = asleep_weight w"
  shows "rank cfg w' < rank cfg w"
  using assms by (cases "pc w") (auto simp: had_pending_jobs_def asleep_weight_def split: if_splits)

lemma notify_rank_decreases:
  assumes "search_next cfg t w p" "pc w \<notin> {Sleeping, Falling, Waiting, Waking}"
  shows "notify_rank cfg p < notify_rank cfg (pc w)"
  using assms by (cases "pc w") (auto split: if_splits)

lemma step_kinds:
  assumes good: "can_finish cfg n J E s" and t: "t < n" and step: "worker_step cfg i t s = Inr (e, s')"
  shows "weight J s' < weight J s \<or> weight J s' = weight J s \<and> search_next cfg t (workers s ! t) (pc (workers s' ! t)) \<and>
    same_queues (workers s) (workers s') \<and> (\<forall>u < n. asleep_weight (workers s' ! u) = asleep_weight (workers s ! u)) \<and> searching (pc (workers s ! t))"
proof -
  note g = can_finishD [OF good]
  have tl: "t < length (workers s)" using t g(6) by simp
  show ?thesis
  proof (cases "searching (pc (workers s ! t))")
    case True
    then show ?thesis using searching_weight [OF g(4,2) tl step True g(7) [OF t]] g(6) by auto
  next
    case False
    then show ?thesis using holding_weight [OF g(4,2) tl step g(3) False] by blast
  qed
qed

lemma can_finish_step:
  assumes good: "can_finish cfg n J E s" and t: "t < n" and step: "worker_step cfg i t s = Inr (e, s')"
  shows "can_finish cfg n J E s'"
proof -
  note g = can_finishD [OF good]
  have tl: "t < length (workers s)" using t g(6) by simp
  have "\<forall>u < n. alive (workers s' ! u)" using alive_step [OF tl step g(7) [OF t]] g(6,7) by auto
  moreover have "js_inv J E s'" by (rule worker_step_inv [OF g(4,2) tl step])
  moreover have "length (workers s') = n" using worker_step_shape [OF step] g(6) by simp
  moreover have "main_awake s'"
  proof (cases "t = 0")
    case False
    then show ?thesis using worker_step_shape [OF step, of 0] g(5,6,8) by (simp add: main_awake_def)
  next
    case True
    show ?thesis
    proof (cases "searching (pc (workers s ! 0))")
      case srch: True
      show ?thesis using searching_step [OF tl step _ g(7) [OF t]] srch True g(8)
        by (cases "pc (workers s ! 0)") (auto simp: main_awake_def split: if_splits)
    next
      case False
      then have "next_pc J (pc (workers s ! 0)) (pc (workers s' ! 0))" using holding_step [OF g(4,2) tl step g(3)] True by simp
      then show ?thesis using next_pc_holding by (auto simp: main_awake_def)
    qed
  qed
  ultimately show ?thesis using g(1,3,5) by (simp add: can_finish_def)
qed

lemma helpful_other:
  assumes good: "can_finish cfg n J E s" and t: "t < n" "u < n" "u \<noteq> t" and step: "worker_step cfg i u s = Inr (e, s')" and h: "helpful n t s"
  shows "weight J s' < weight J s \<or> helpful n t s' \<and> way_to_go cfg t s' = way_to_go cfg t s"
proof -
  have pc: "pc (workers s' ! t) = pc (workers s ! t)" using worker_step_shape [OF step, of t] t can_finishD(6) [OF good] by auto
  from step_kinds [OF good t(2) step] show ?thesis
  proof
    assume k: "weight J s' = weight J s \<and> search_next cfg u (workers s ! u) (pc (workers s' ! u)) \<and> same_queues (workers s) (workers s') \<and>
      (\<forall>u < n. asleep_weight (workers s' ! u) = asleep_weight (workers s ! u)) \<and> searching (pc (workers s ! u))"
    then have q: "q_public (workers s' ! t) = q_public (workers s ! t)" "q_private (workers s' ! t) = q_private (workers s ! t)"
      using t(1) can_finishD(6) [OF good] by (auto simp: same_queues_def)
    then have hp: "had_pending_jobs (workers s' ! t) = had_pending_jobs (workers s ! t)" "rank cfg (workers s' ! t) = rank cfg (workers s ! t)"
      using pc by (simp_all add: had_pending_jobs_def)
    have "helpful n t s'" using h k t(1) unfolding helpful_def hp pc by auto
    then show ?thesis using hp(1) hp(2) pc by (simp add: way_to_go_def)
  qed simp
qed

lemma helpful_own:
  assumes good: "can_finish cfg n J E s" and t: "t < n" and step: "worker_step cfg i t s = Inr (e, s')" and h: "helpful n t s"
  shows "weight J s' < weight J s \<or> helpful n t s' \<and> way_to_go cfg t s' < way_to_go cfg t s"
proof -
  note g = can_finishD [OF good]
  from step_kinds [OF good t(1) step] show ?thesis
  proof
    assume k: "weight J s' = weight J s \<and> search_next cfg t (workers s ! t) (pc (workers s' ! t)) \<and> same_queues (workers s) (workers s') \<and>
      (\<forall>u < n. asleep_weight (workers s' ! u) = asleep_weight (workers s ! u)) \<and> searching (pc (workers s ! t))"
    then have q: "q_public (workers s' ! t) = q_public (workers s ! t)" "q_private (workers s' ! t) = q_private (workers s ! t)"
      using t g(6) by (auto simp: same_queues_def)
    then have hp: "had_pending_jobs (workers s' ! t) = had_pending_jobs (workers s ! t)" by (simp add: had_pending_jobs_def)
    have srch: "searching (pc (workers s' ! t))" using k search_next_searching by blast
    show ?thesis
    proof (cases "had_pending_jobs (workers s ! t) \<and> asleep_weight (workers s ! t) \<noteq> 1")
      case True
      then have "rank cfg (workers s' ! t) < rank cfg (workers s ! t)" using rank_decreases [of cfg t "workers s ! t" "workers s' ! t"] k q t by blast
      then show ?thesis using True k hp srch t by (simp add: helpful_def way_to_go_def)
    next
      case False
      then obtain v where v: "t = 0" "v < n" "asleep_weight (workers s ! v) = 1" using h k by (auto simp: helpful_def)
      have main: "pc (workers s ! 0) \<notin> {Sleeping, Falling, Waiting}" using g(8) by (simp add: main_awake_def)
      then have np: "\<not> had_pending_jobs (workers s ! 0)" using False v(1) by (auto simp: asleep_weight_def)
      have "pc (workers s ! 0) \<noteq> Waking"
      proof
        assume "pc (workers s ! 0) = Waking"
        then have "s' = set_pc 0 Loop (notify_all s)" using step v(1) by (auto simp: worker_step_def silent_def)
        then have "asleep_weight (workers s' ! v) \<noteq> 1" using v(2) g(6) by (cases "v = 0") (auto simp: asleep_weight_def)
        then show False using k v by simp
      qed
      then have "notify_rank cfg (pc (workers s' ! 0)) < notify_rank cfg (pc (workers s ! 0))" using notify_rank_decreases k main v(1) by blast
      moreover have "\<exists>v < n. asleep_weight (workers s' ! v) = 1" using v k by auto
      ultimately show ?thesis using np hp srch k v(1) by (simp add: helpful_def way_to_go_def)
    qed
  qed simp
qed

interpretation js: fair_progress n "can_finish cfg n J E" "thread_step cfg" "\<lambda>s. \<not> is_busy s" "weight J" "helpful n" "way_to_go cfg"
  for n cfg J E
proof unfold_locales
  fix s s' t
  assume good: "can_finish cfg n J E s" and t: "t < n" and step: "thread_step cfg t s s'"
  then obtain i e where st: "worker_step cfg i t s = Inr (e, s')" by (auto simp: thread_step_def)
  show "can_finish cfg n J E s'" by (rule can_finish_step [OF good t st])
  show "weight J s' \<le> weight J s" using step_kinds [OF good t st] by auto
  assume "helpful n t s"
  then show "weight J s' < weight J s \<or> helpful n t s' \<and> way_to_go cfg t s' < way_to_go cfg t s" by (rule helpful_own [OF good t st])
next
  fix s s' t u
  assume a: "can_finish cfg n J E s" "t < n" "u < n" "u \<noteq> t" "helpful n t s" "thread_step cfg u s s'"
  then obtain i e where "worker_step cfg i u s = Inr (e, s')" by (auto simp: thread_step_def)
  then show "weight J s' < weight J s \<or> helpful n t s' \<and> way_to_go cfg t s' = way_to_go cfg t s" by (rule helpful_other [OF a(1-4) _ a(5)])
next
  fix s
  assume good: "can_finish cfg n J E s" and "\<not> \<not> is_busy s"
  then obtain t where "t < n" "\<not> searching (pc (workers s ! t)) \<or> had_pending_jobs (workers s ! t)"
    using work_somewhere [of J E s] can_finishD [OF good] by auto
  then have "helpful n t s \<or> helpful n 0 s" by (auto simp: helpful_def)
  then show "\<exists>t < n. helpful n t s" using \<open>t < n\<close> can_finishD(5) [OF good] by blast
qed

section \<open>Runs from reachable states\<close>

lemma reach_can_finish:
  assumes J: "fresh_graph J" "card (dom J) + n < 2 ^ 64" "0 < n" "card (dom J) \<le> queue_size cfg"
  shows "js_reach cfg n mb J tr E s \<Longrightarrow> can_finish cfg n J E s"
proof (induction rule: js_reach.induct)
  case reach_init
  show ?case using reach_inv [OF J(1,2) js_reach.reach_init] J by (auto simp: can_finish_def main_awake_def new_job_system_def new_worker_def alive_def)
next
  case (reach_schedule tr E s t r b ok s')
  note g = can_finishD [OF reach_schedule.IH] and inv = reach_inv [OF J(1,2) js_reach.reach_schedule [OF reach_schedule.hyps]]
  note shape = task_schedule_pc [OF g(4,1) reach_schedule.hyps(3,4,6)]
  have "main_awake s'" using shape [of 0] g(5,6,8) by (simp add: main_awake_def)
  moreover have "alive (workers s' ! u)" if u: "u < n" for u
  proof (rule task_scheduleD [OF g(4,1) reach_schedule.hyps(3,4,6)])
    fix s1 :: job_sys and v :: nat and w :: worker
    assume "s' = notify_all s1" "v < length (workers s)" "workers s1 = (workers s)[v := w]" "pc w = pc (workers s ! v)"
      "should_terminate w = should_terminate (workers s ! v)"
    then show ?thesis using g(7) [OF u] u g(6) by (auto simp: alive_def nth_list_update)
  qed
  ultimately show ?case using inv J g(5) by (simp add: can_finish_def)
next
  case (reach_work tr E s t i e s')
  then show ?case using can_finish_step by blast
next
  case (reach_create_barrier tr E s b s')
  note f = create_barrier_fields [OF reach_create_barrier.hyps(2)]
  show ?case using reach_create_barrier.IH reach_inv [OF J(1,2) js_reach.reach_create_barrier [OF reach_create_barrier.hyps]] f
    by (simp add: can_finish_def main_awake_def)
next
  case (reach_destroy_barrier tr E s b s')
  note f = destroy_barrier_fields [OF reach_destroy_barrier.hyps(2)]
  show ?case using reach_destroy_barrier.IH reach_inv [OF J(1,2) js_reach.reach_destroy_barrier [OF reach_destroy_barrier.hyps]] f
    by (simp add: can_finish_def main_awake_def)
qed

text \<open>The events of the first \<open>k\<close> steps.\<close>

definition trace :: "(nat \<Rightarrow> event option) \<Rightarrow> nat \<Rightarrow> event list" where
  "trace ev k = concat (map (events_of \<circ> ev) [0..<k])"

lemma run_reach:
  assumes "js_reach cfg n mb J tr E (\<sigma> 0)" "\<And>k. sched k < n" "\<And>k. worker_step cfg (pick k) (sched k) (\<sigma> k) = Inr (ev k, \<sigma> (Suc k))"
  shows "js_reach cfg n mb J (tr @ trace ev k) E (\<sigma> k)"
proof (induction k)
  case (Suc k)
  then show ?case using reach_work [OF Suc assms(2,3)] by (simp add: trace_def)
qed (simp add: trace_def assms(1))

text \<open>There is such a run: the threads take turns.\<close>

lemma fair_round_robin: "0 < n \<Longrightarrow> fair n (\<lambda>k. k mod n)"
proof -
  assume n: "0 < n"
  have "\<exists>m \<ge> k. m mod n = t" if "t < n" for t k
    using that n by (intro exI [of _ "k * n + t"]) (simp add: trans_le_add1)
  then show ?thesis using n by (simp add: fair_def)
qed

lemma run_exists:
  assumes J: "fresh_graph J" "card (dom J) + n < 2 ^ 64" and r: "js_reach cfg n mb J tr E s" and ok: "shared_kept J" "affinities_ok n J"
    "max_stealing_attempts cfg = 0 \<or> 2 \<le> n" "0 < n"
  obtains \<sigma> ev where "\<sigma> 0 = s" "\<forall>k. worker_step cfg 0 (k mod n) (\<sigma> k) = Inr (ev k, \<sigma> (Suc k))"
proof -
  have step: "\<exists>e s'. worker_step cfg 0 t s = Inr (e, s')" if "js_reach cfg n mb J tr E s" "t < n" for tr s t
  proof -
    have "\<exists>r. worker_step cfg 0 t s = Inr r"
      by (rule worker_step_safe) (use reach_inv [OF J that(1)] reach_safe [OF J that(1)] ok that(2) in auto)
    then show ?thesis by auto
  qed
  have "\<exists>\<sigma>. \<forall>k :: nat. ((\<exists>tr. js_reach cfg n mb J tr E (\<sigma> k)) \<and> (k = 0 \<longrightarrow> \<sigma> k = s)) \<and> (\<exists>e. worker_step cfg 0 (k mod n) (\<sigma> k) = Inr (e, \<sigma> (Suc k)))"
  proof (rule dependent_nat_choice)
    show "\<exists>x. (\<exists>tr. js_reach cfg n mb J tr E x) \<and> (0 = (0 :: nat) \<longrightarrow> x = s)" using r by blast
    fix x and k :: nat assume "(\<exists>tr. js_reach cfg n mb J tr E x) \<and> (k = 0 \<longrightarrow> x = s)"
    then obtain tr where x: "js_reach cfg n mb J tr E x" by blast
    obtain e y where "worker_step cfg 0 (k mod n) x = Inr (e, y)" using step [OF x, of "k mod n"] ok(4) by auto
    then show "\<exists>y. ((\<exists>tr. js_reach cfg n mb J tr E y) \<and> (Suc k = 0 \<longrightarrow> y = s)) \<and> (\<exists>e. worker_step cfg 0 (k mod n) x = Inr (e, y))"
      using reach_work [OF x _ \<open>worker_step cfg 0 (k mod n) x = Inr (e, y)\<close>] ok(4) by auto
  qed
  then obtain \<sigma> where s: "\<sigma> 0 = s" "\<forall>k. \<exists>e. worker_step cfg 0 (k mod n) (\<sigma> k) = Inr (e, \<sigma> (Suc k))" by blast
  then obtain ev where "\<forall>k :: nat. worker_step cfg 0 (k mod n) (\<sigma> k) = Inr (ev k, \<sigma> (Suc k))" by (metis (mono_tags))
  then show thesis using that s(1) by blast
qed

lemma sample_run:
  obtains \<sigma> ev where "\<sigma> 0 = sample_state" "\<forall>k. worker_step sample_cfg 0 (k mod 2) (\<sigma> k) = Inr (ev k, \<sigma> (Suc k))"
  by (rule run_exists [OF sample_fresh _ sample_reached sample_kept]) (simp_all add: sample_dom)

lemma sample_done:
  obtains tr s where "js_reach sample_cfg 2 1 sample tr {0, 1} s" "\<not> is_busy s" "\<forall>j jb. jobs s j = Some jb \<longrightarrow> barrier_id jb = 0"
proof -
  obtain \<sigma> ev where r: "\<sigma> 0 = sample_state" "\<forall>k. worker_step sample_cfg 0 (k mod 2) (\<sigma> k) = Inr (ev k, \<sigma> (Suc k))" by (rule sample_run)
  have r0: "js_reach sample_cfg 2 1 sample [] {0, 1} (\<sigma> 0)" using sample_reached r(1) by simp
  have "can_finish sample_cfg 2 sample {0, 1} (\<sigma> 0)" by (rule reach_can_finish [OF sample_fresh _ _ _ r0]) (simp_all add: sample_dom sample_cfg_def)
  then obtain k where k: "\<not> is_busy (\<sigma> k)"
    using js.fair_reaches_goal [of sample_cfg 2 sample "{0, 1}" \<sigma> "\<lambda>k. k mod 2"] r(2) fair_round_robin [of 2] by (auto simp: thread_step_def)
  have reach: "js_reach sample_cfg 2 1 sample ([] @ trace ev k) {0, 1} (\<sigma> k)" for k
    by (rule run_reach [of _ _ _ _ _ _ \<sigma> "\<lambda>k. k mod 2" "\<lambda>_. 0"]) (use r0 r(2) in simp_all)
  have "\<forall>j jb. jobs (\<sigma> k) j = Some jb \<longrightarrow> barrier_id jb = 0" for k
  proof (induction k)
    case (Suc k)
    have "js_inv sample {0, 1} (\<sigma> k)" "length (workers (\<sigma> k)) = 2" using reach_inv [OF sample_fresh _ reach] by (simp_all add: sample_dom)
    then show ?case using worker_step_barrier_ids [of sample "{0, 1}" "\<sigma> k" "k mod 2" sample_cfg 0 "ev k" "\<sigma> (Suc k)"] r(2) Suc by fastforce
  qed (auto simp: r(1) sample_state_def sample_pending_def)
  then show thesis using that [OF reach k] by blast
qed

section \<open>Properties\<close>

text \<open>
  C39. When the counter of pending jobs is back at zero, which is what \<open>wait\<close> waits for, the kernels of all jobs of all scheduled graphs have run to
  their end.
\<close>

theorem wait_means_done:
  assumes "fresh_graph J" "card (dom J) + n < 2 ^ 64" "js_reach cfg n max_barriers J tr E s" "\<not> is_busy s" "j \<in> E"
  shows "Start j \<in> set tr \<and> Finish j \<in> set tr"
proof -
  have i: "js_inv J E s" using reach_inv [OF assms(1-3)] by blast
  have "st s j \<in> {None, Some Processed}" using not_busy_done [OF i fresh_fin [OF assms(1)] _ assms(5)] assms(4) by (simp add: is_busy_def)
  moreover have "j \<in> dom J" using inv_E [OF i] assms(5) by blast
  ultimately show ?thesis using reach_tr [OF assms(1-3)] by (auto simp: tr_inv_def)
qed

lemma wait_means_done_witness: "\<exists>tr s. js_reach sample_cfg 2 1 sample tr {0, 1} s \<and> \<not> is_busy s \<and> Start 1 \<in> set tr \<and> Finish 1 \<in> set tr"
proof -
  obtain tr s where "js_reach sample_cfg 2 1 sample tr {0, 1} s" "\<not> is_busy s" by (rule sample_done)
  then show ?thesis using wait_means_done [OF sample_fresh _ _ _, of 2 sample_cfg 1 tr "{0, 1}" s 1] by (auto simp: sample_dom)
qed

text \<open>
  C37. If the queues have room for all jobs, every fair run of the threads from a reachable state, with the main thread waiting, gets to a point where nothing
  is pending and the kernels of all scheduled jobs have run: there is no deadlock, no job is forgotten, and a wake-up that a worker misses is made up for by the main
  thread.
\<close>

theorem jobs_complete:
  assumes "fresh_graph J" "card (dom J) + n < 2 ^ 64" "0 < n" "card (dom J) \<le> queue_size cfg" "js_reach cfg n max_barriers J tr E (\<sigma> 0)"
    "fair n sched" "\<And>k. worker_step cfg (pick k) (sched k) (\<sigma> k) = Inr (ev k, \<sigma> (Suc k))"
  shows "\<exists>k. \<not> is_busy (\<sigma> k) \<and> (\<forall>j \<in> E. Finish j \<in> set (tr @ trace ev k))"
proof -
  have "can_finish cfg n J E (\<sigma> 0)" by (rule reach_can_finish [OF assms(1-5)])
  then obtain k where k: "\<not> is_busy (\<sigma> k)"
    using js.fair_reaches_goal [of cfg n J E \<sigma> sched] assms(6,7) by (auto simp: thread_step_def)
  have r: "js_reach cfg n max_barriers J (tr @ trace ev k) E (\<sigma> k)"
    by (rule run_reach [OF assms(5) _ assms(7)]) (use assms(6) in \<open>simp add: fair_def\<close>)
  have i: "js_inv J E (\<sigma> k)" using reach_inv [OF assms(1,2) r] by blast
  have "Finish j \<in> set (tr @ trace ev k)" if "j \<in> E" for j
    using not_busy_done [OF i fresh_fin [OF assms(1)] _ that] k reach_tr [OF assms(1,2) r] inv_E [OF i] that by (auto simp: is_busy_def tr_inv_def)
  then show ?thesis using k by blast
qed

lemma jobs_complete_witness:
  "\<exists>\<sigma> ev k. \<sigma> 0 = sample_state \<and> \<not> is_busy (\<sigma> k) \<and> Finish 0 \<in> set (trace ev k) \<and> Finish 1 \<in> set (trace ev k)"
proof -
  obtain \<sigma> ev where r: "\<sigma> 0 = sample_state" "\<forall>k. worker_step sample_cfg 0 (k mod 2) (\<sigma> k) = Inr (ev k, \<sigma> (Suc k))" by (rule sample_run)
  have "js_reach sample_cfg 2 1 sample [] {0, 1} (\<sigma> 0)" using sample_reached r(1) by simp
  then have "\<exists>k. \<not> is_busy (\<sigma> k) \<and> (\<forall>j \<in> {0, 1}. Finish j \<in> set ([] @ trace ev k))"
    by (intro jobs_complete [of sample 2 sample_cfg 1 "[]" "{0, 1}" \<sigma> "\<lambda>k. k mod 2" "\<lambda>_. 0" ev])
      (use r(2) sample_fresh fair_round_robin [of 2] in \<open>simp_all add: sample_dom sample_cfg_def\<close>)
  then show ?thesis using r(1) by auto
qed

end
