(* ===== verification/Job_Barrier.thy ===== *)
theory Job_Barrier
  imports Job_Liveness
begin

text \<open>
  Barriers: the counter of a barrier is the number of jobs scheduled with it that are still to run, run, or have run and not yet left the
  barrier. So a barrier that is finished has all its jobs behind it.
\<close>

section \<open>Jobs that hold a barrier\<close>

text \<open>The job whose children a thread is scheduling.\<close>

fun pc_owner :: "pc \<Rightarrow> nat option" where
  "pc_owner (Children j cs) = Some j"
| "pc_owner (Removed j c cs) = Some j"
| "pc_owner (Ready j c cs) = Some j"
| "pc_owner (Won j c cs) = Some j"
| "pc_owner (Notify j cs) = Some j"
| "pc_owner (Unbarrier j) = Some j"
| "pc_owner _ = None"

definition owned :: "job_sys \<Rightarrow> nat set" where
  "owned s = {j. \<exists>t < length (workers s). pc_owner (pc (workers s ! t)) = Some j}"

definition bar_of :: "job_sys \<Rightarrow> nat \<Rightarrow> nat option" where
  "bar_of s j = map_option barrier_id (jobs s j)"

definition holding_barrier :: "nat set \<Rightarrow> job_sys \<Rightarrow> nat \<Rightarrow> nat set" where
  "holding_barrier E s b = {j \<in> E. j \<in> unprocessed s \<union> owned s \<and> bar_of s j = Some b}"

definition barrier_inv :: "nat set \<Rightarrow> job_sys \<Rightarrow> bool" where
  "barrier_inv E s \<longleftrightarrow> (\<forall>b < length (barriers s). bar_pending (barriers s ! b) = card (holding_barrier E s b))"

lemma owner_processed:
  assumes "js_inv J E s" "t < length (workers s)" "pc_owner (pc (workers s ! t)) = Some j"
  shows "st s j = Some Processed" "j \<in># worker_jobs (workers s ! t)"
proof -
  have "worker_ok J (st s) (todo J s) (workers s ! t)" using inv_worker [OF assms(1)] assms(2) by simp
  then show "st s j = Some Processed" "j \<in># worker_jobs (workers s ! t)"
    using assms(3) by (cases "pc (workers s ! t)"; auto simp: worker_ok_def pc_ok_def worker_jobs_def)+
qed

lemma unprocessed_st: "st s' = st s \<Longrightarrow> unprocessed s' = unprocessed s"
  by (simp add: unprocessed_def)

text \<open>Only the step that leaves the barrier takes a job away.\<close>

lemma owner_step:
  assumes i: "js_inv J E s" and t: "t < length (workers s)" and step: "worker_step cfg n t s = Inr (e, s')"
  obtains (same) "pc_owner (pc (workers s' ! t)) = pc_owner (pc (workers s ! t))" "unprocessed s' = unprocessed s" "barriers s' = barriers s"
  | (finish) j where "pc_owner (pc (workers s ! t)) = None" "pc_owner (pc (workers s' ! t)) = Some j" "unprocessed s = insert j (unprocessed s')" "barriers s' = barriers s"
  | (leave) j jb s1 where "pc (workers s ! t) = Unbarrier j" "jobs s j = Some jb" "barrier_remove (barrier_id jb) s = Inr s1" "s' = set_pc t (Releasing j) s1"
proof -
  have ok: "pc_ok J (st s) (todo J s) (pc (workers s ! t))" using inv_worker [OF i] t by (simp add: worker_ok_def)
  show thesis
  proof (cases "pc (workers s ! t)")
    case (Popped j)
    then obtain jb where jb: "jobs s j = Some jb" "jstate jb = Pending" using ok by (auto simp: pc_ok_def st_def)
    then have "s' = set_pc t (Running j) (set_job j (jb\<lparr>jstate := Executing\<rparr>) s)"
      using step Popped by (auto simp: worker_step_def deref_def exchange_state_def)
    then show thesis using jb t Popped by (intro same) (auto simp: unprocessed_def st_def)
  next
    case (Running j)
    then obtain jb where jb: "jobs s j = Some jb" "jstate jb = Executing" using ok by (auto simp: pc_ok_def st_def)
    then have "s' = set_pc t (Children j (out_nodes jb)) (set_job j (jb\<lparr>jstate := Processed\<rparr>) s)"
      using step Running by (auto simp: worker_step_def deref_def exchange_state_def job_assert_def)
    then show thesis using jb t Running by (intro finish [of j]) (auto simp: unprocessed_def st_def)
  next
    case (Children j cs)
    then show thesis using step t
      by (cases cs) (auto simp: worker_step_def res_bind_eq_Inr deref_def remove_dependency_def st_def split: option.splits
        dest!: silentD intro!: same unprocessed_st)
  next
    case (Removed j c cs)
    then show thesis using step t by (auto simp: worker_step_def res_bind_eq_Inr unprocessed_def st_def dest!: silentD intro!: same)
  next
    case (Ready j c cs)
    then obtain b s1 where cl: "claim c s = Inr (b, s1)" "s' = set_pc t (if b then Won j c cs else Children j cs) s1"
      using step by (auto simp: worker_step_def res_bind_eq_Inr dest!: silentD)
    obtain jc where jc: "jobs s c = Some jc" "b \<longleftrightarrow> jstate jc = Idle" "s1 = (if b then set_job c (jc\<lparr>jstate := Pending\<rparr>) s else set_job c jc s)"
      using claimD [OF cl(1)] by metis
    then show thesis using cl Ready t by (intro same) (auto simp: unprocessed_def st_def)
  next
    case (Won j c cs)
    then obtain r where r: "dispatch cfg t c s = Inr r" "s' = (case r of None \<Rightarrow> s | Some s1 \<Rightarrow> set_pc t (Notify j cs) s1)"
      using step by (auto simp: worker_step_def res_bind_eq_Inr dest!: silentD)
    then show thesis using Won t by (cases r) (auto simp: dispatch_fields unprocessed_def st_def intro!: same)
  next
    case (Unbarrier j)
    then show thesis using step leave by (auto simp: worker_step_def res_bind_eq_Inr deref_def dest!: silentD split: option.splits)
  next
    case (Releasing j)
    then obtain jb where jb: "jobs s j = Some jb" "s' = set_pc t Finishing (if keep_alive jb then s else s\<lparr>jobs := (jobs s)(j := None)\<rparr>)"
      using step by (auto simp: worker_step_def res_bind_eq_Inr deref_def release_job_def dest!: silentD split: option.splits if_splits)
    moreover have "st s j = Some Processed" using ok Releasing by (simp add: pc_ok_def)
    ultimately show thesis using Releasing t by (intro same) (auto simp: unprocessed_def st_def split: if_splits)
  next
    case (Look_Steal k)
    then show thesis using step t
      by (auto simp: worker_step_def steal_job_def pop_public_def Let_def nth_list_update nth_update_same [of pc] unprocessed_def st_def
        dest!: silentD intro!: same split: if_splits option.splits)
  next
    case Loop
    then show thesis using step t by (auto simp: worker_step_def unprocessed_def st_def dest!: silentD intro!: same)
  qed (use step t in \<open>auto simp: worker_step_def pop_private_def pop_public_def unprocessed_def st_def nth_list_update
      dest!: silentD intro!: same split: if_splits option.splits\<close>)
qed

lemma owned_update:
  assumes "length (workers s') = length (workers s)" "t < length (workers s)" "\<And>u. u < length (workers s) \<Longrightarrow> u \<noteq> t \<Longrightarrow> pc (workers s' ! u) = pc (workers s ! u)"
  shows "owned s' = {j. \<exists>u < length (workers s). u \<noteq> t \<and> pc_owner (pc (workers s ! u)) = Some j} \<union> set_option (pc_owner (pc (workers s' ! t)))"
  unfolding owned_def using assms by (auto, metis)

lemma holding_alive:
  assumes "js_inv J E s" "x \<in> unprocessed s \<union> owned s"
  shows "\<exists>jb. jobs s x = Some jb"
proof -
  have "st s x \<noteq> None" using assms owner_processed(1) [OF assms(1)] by (auto simp: unprocessed_def owned_def)
  then show ?thesis by (auto simp: st_def)
qed

lemma barrier_step:
  assumes i: "js_inv J E s" and J: "finite (dom J)" and t: "t < length (workers s)" and step: "worker_step cfg n t s = Inr (e, s')"
    and bi: "barrier_inv E s" and len: "length (barriers s) \<le> k_no_barrier"
  shows "barrier_inv E s'"
proof -
  have i': "js_inv J E s'" by (rule worker_step_inv [OF i J t step])
  note sh = worker_step_shape [OF step]
  let ?rest = "{j. \<exists>u < length (workers s). u \<noteq> t \<and> pc_owner (pc (workers s ! u)) = Some j}"
  have ow: "owned s' = ?rest \<union> set_option (pc_owner (pc (workers s' ! t)))" "owned s = ?rest \<union> set_option (pc_owner (pc (workers s ! t)))"
    using sh t by (intro owned_update; simp)+
  have ids: "bar_of s' x = bar_of s x" if x: "x \<in> unprocessed s' \<union> owned s'" for x
    using holding_alive [OF i' x] worker_step_barrier_ids [OF i t step, of x] by (auto simp: bar_of_def)
  have fin: "finite (holding_barrier E s b)" for b
    using inv_E [OF i] J by (auto simp: holding_barrier_def intro: finite_subset)
  show ?thesis
  proof (cases rule: owner_step [OF i t step])
    case 1
    then have "unprocessed s' \<union> owned s' = unprocessed s \<union> owned s" using ow by simp
    then have "holding_barrier E s' b = holding_barrier E s b" for b using ids by (auto simp: holding_barrier_def)
    then show ?thesis using bi 1 by (simp add: barrier_inv_def)
  next
    case (2 j)
    then have "unprocessed s' \<union> owned s' = unprocessed s \<union> owned s" using ow by auto
    then have "holding_barrier E s' b = holding_barrier E s b" for b using ids by (auto simp: holding_barrier_def)
    then show ?thesis using bi 2 by (simp add: barrier_inv_def)
  next
    case (3 j jb s1)
    have "j \<notin> ?rest"
    proof
      assume "j \<in> ?rest"
      then obtain u where u: "u < length (workers s)" "u \<noteq> t" "pc_owner (pc (workers s ! u)) = Some j" by blast
      then show False using exclusive [OF inv_count [OF i] t u(1)] owner_processed(2) [OF i u(1,3)] owner_processed(2) [OF i t] 3(1) by auto
    qed
    moreover have "j \<notin> unprocessed s" using owner_processed(1) [OF i t] 3(1) by (auto simp: unprocessed_def)
    moreover have js: "jobs s' = jobs s" using 3(4) barrier_remove_fields(1) [OF 3(3)] by simp
    moreover have "unprocessed s' = unprocessed s" by (rule unprocessed_st [OF st_eq [OF js]])
    moreover have "pc_owner (pc (workers s' ! t)) = None" using 3 t barrier_remove_fields [OF 3(3)] by simp
    ultimately have "unprocessed s \<union> owned s = insert j (unprocessed s' \<union> owned s')" "j \<notin> unprocessed s' \<union> owned s'" using ow 3(1) by auto
    moreover have "j \<in> E" by (rule in_E [OF i 3(2)]) (use owner_processed(1) [OF i t] 3(1,2) in \<open>auto simp: st_def\<close>)
    ultimately have hold: "holding_barrier E s b = (if b = barrier_id jb then insert j (holding_barrier E s' b) else holding_barrier E s' b)"
      "j \<notin> holding_barrier E s' b" for b
      using 3(2) js(1) by (auto simp: holding_barrier_def bar_of_def)
    have card: "card (holding_barrier E s b) = (if b = barrier_id jb then Suc (card (holding_barrier E s' b)) else card (holding_barrier E s' b))" for b
      using fin [of b] hold [of b] by (auto split: if_splits)
    show ?thesis
    proof (cases "barrier_id jb = k_no_barrier")
      case True
      then have "barriers s' = barriers s" using 3(3,4) by (auto simp: barrier_remove_def)
      then show ?thesis using bi card True len by (auto simp: barrier_inv_def)
    next
      case False
      then have bs: "barrier_id jb < length (barriers s)"
        "barriers s' = (barriers s)[barrier_id jb := (barriers s ! barrier_id jb)\<lparr>bar_pending := fetch_sub1 (bar_pending (barriers s ! barrier_id jb))\<rparr>]"
        using 3(3,4) by (auto simp: barrier_remove_def get_barrier_def job_assert_def res_bind_eq_Inr split: if_splits)
      have "bar_pending (barriers s ! c) = card (holding_barrier E s c)" if "c < length (barriers s)" for c using bi that by (simp add: barrier_inv_def)
      then show ?thesis using bs(1) unfolding barrier_inv_def bs(2) by (simp add: nth_list_update card fetch_sub1_def)
    qed
  qed
qed

lemma barrier_schedule:
  assumes i: "js_inv J E s" and J: "fresh_graph J" and r: "r \<in> dom J" "r \<notin> E"
    and sch: "task_schedule cfg t r b s = Some (Inr (Some (ok, s')))" and bi: "barrier_inv E s" and len: "length (barriers s) \<le> k_no_barrier"
  shows "barrier_inv (E \<union> reach J r) s'"
proof (rule task_scheduleD [OF i J r sch])
  fix s1 jr v w bs
  let ?A = "reach J r"
  assume s1: "s' = notify_all s1" and jr: "jobs s r = Some jr" "jstate jr = Idle"
    and js: "jobs s1 = (set_barriers b ?A (jobs s))(r \<mapsto> jr\<lparr>barrier_id := b, jstate := Pending\<rparr>)"
    and add: "barrier_add b (card ?A) s = Inr (s\<lparr>barriers := bs\<rparr>)" "barriers s1 = bs"
  have A: "?A \<subseteq> dom J" "?A \<inter> E = {}" using reach_dom [OF J r(1)] reach_disjoint [OF i r(2)] by auto
  have finE: "finite E" "finite ?A" using A(1) inv_E [OF i] fresh_fin [OF J] finite_subset by blast+
  have st: "st s' = (st s)(r \<mapsto> Pending)" using js by (auto simp: st_def s1 set_barriers_def fun_eq_iff option.map_comp comp_def)
  moreover have "st s r = Some Idle" using jr by (simp add: st_def)
  ultimately have un: "unprocessed s' = unprocessed s" by (auto simp: unprocessed_def)
  have "owned s' = owned s" using task_schedule_pc [OF i J r sch] by (auto simp: owned_def)
  note X = un this
  have "st s x = Some Idle" if "x \<in> ?A" for x using inv_started [OF i, of x] A that by blast
  then have AX: "?A \<subseteq> unprocessed s" by (auto simp: unprocessed_def)
  have ids: "bar_of s' x = (if x \<in> ?A then Some b else bar_of s x)" if x: "x \<in> unprocessed s \<union> owned s" for x
    using holding_alive [OF i x] reach_self [of r J] by (auto simp: s1 js set_barriers_def bar_of_def)
  have hold: "holding_barrier (E \<union> ?A) s' c = (if c = b then holding_barrier E s c \<union> ?A else holding_barrier E s c)" for c
    using A(2) AX ids by (auto simp: holding_barrier_def X split: if_splits)
  have card: "card (holding_barrier (E \<union> ?A) s' c) = (if c = b then card (holding_barrier E s c) + card ?A else card (holding_barrier E s c))" for c
  proof -
    have "holding_barrier E s c \<inter> ?A = {}" "finite (holding_barrier E s c)" using A(2) finE(1) by (auto simp: holding_barrier_def)
    then show ?thesis using finE(2) card_Un_disjoint [of "holding_barrier E s c" ?A] by (auto simp: hold)
  qed
  show "barrier_inv (E \<union> ?A) s'"
  proof (cases "b = k_no_barrier")
    case True
    then have "bs = barriers s" using add(1) by (cases s) (auto simp: barrier_add_def)
    then show ?thesis using bi card True len add(2) by (auto simp: barrier_inv_def s1)
  next
    case False
    then have bs: "b < length (barriers s)" "bs = (barriers s)[b := (barriers s ! b)\<lparr>bar_pending := fetch_add (card ?A) (bar_pending (barriers s ! b))\<rparr>]"
      using add(1) by (cases s; auto simp: barrier_add_def get_barrier_def job_assert_def res_bind_eq_Inr split: if_splits)+
    have "card (holding_barrier E s b) \<le> card E" using finE(1) by (auto simp: holding_barrier_def intro: card_mono)
    moreover have "card E + card ?A \<le> card (dom J)"
      using A inv_E [OF i] finE fresh_fin [OF J] card_mono [of "dom J" "E \<union> ?A"] by (simp add: card_Un_disjoint Int_commute)
    moreover have "card (dom J) < 2 ^ 64" using J by (simp add: fresh_graph_def)
    ultimately have "bar_pending (barriers s ! b) + card ?A < 2 ^ 64" using bi bs(1) by (auto simp: barrier_inv_def)
    then have "fetch_add (card ?A) (bar_pending (barriers s ! b)) = bar_pending (barriers s ! b) + card ?A" by (simp add: fetch_add_def)
    moreover have "bar_pending (barriers s ! c) = card (holding_barrier E s c)" if "c < length (barriers s)" for c using bi that by (simp add: barrier_inv_def)
    ultimately show ?thesis using bs(1) unfolding barrier_inv_def s1 notify_fields add(2) bs(2) by (simp add: nth_list_update card [unfolded s1])
  qed
qed

lemma update_pending: "bar_pending x = bar_pending (bs ! i) \<Longrightarrow> map bar_pending (bs[i := x]) = map bar_pending bs"
  by (metis list_update_id map_update)

lemma create_barrier_pending: "create_barrier s = (b, s') \<Longrightarrow> map bar_pending (barriers s') = map bar_pending (barriers s)"
  by (auto simp: create_barrier_def update_pending split: list.splits)

lemma destroy_barrier_pending: "destroy_barrier b s = Inr s' \<Longrightarrow> map bar_pending (barriers s') = map bar_pending (barriers s)"
  by (auto simp: destroy_barrier_def get_barrier_def res_bind_eq_Inr update_pending)

lemma barrier_inv_flags:
  assumes "\<And>c. holding_barrier E s' c = holding_barrier E s c" "map bar_pending (barriers s') = map bar_pending (barriers s)" "barrier_inv E s"
  shows "barrier_inv E s'"
  using assms unfolding barrier_inv_def by (metis length_map nth_map)

lemma reach_barrier:
  assumes J: "fresh_graph J" "card (dom J) + n < 2 ^ 64" "mb \<le> k_no_barrier"
  shows "js_reach cfg n mb J tr E s \<Longrightarrow> barrier_inv E s"
proof (induction rule: js_reach.induct)
  case reach_init
  then show ?case by (simp add: barrier_inv_def new_job_system_def new_barrier_def holding_barrier_def)
next
  case (reach_schedule tr E s t r b ok s')
  then show ?case using barrier_schedule [OF _ J(1)] reach_inv [OF J(1,2) reach_schedule.hyps(1)] J(3) by blast
next
  case (reach_work tr E s t i e s')
  then show ?case using barrier_step [OF _ fresh_fin [OF J(1)] _ reach_work.hyps(3)] reach_inv [OF J(1,2) reach_work.hyps(1)] J(3) by auto
next
  case (reach_create_barrier tr E s b s')
  then have "jobs s' = jobs s" "workers s' = workers s" using create_barrier_fields by blast+
  then have "holding_barrier E s' c = holding_barrier E s c" for c by (simp add: holding_barrier_def bar_of_def unprocessed_def st_def owned_def)
  then show ?case using barrier_inv_flags [OF _ create_barrier_pending [OF reach_create_barrier.hyps(2)]] reach_create_barrier.IH by blast
next
  case (reach_destroy_barrier tr E s b s')
  then have "jobs s' = jobs s" "workers s' = workers s" using destroy_barrier_fields by blast+
  then have "holding_barrier E s' c = holding_barrier E s c" for c by (simp add: holding_barrier_def bar_of_def unprocessed_def st_def owned_def)
  then show ?case using barrier_inv_flags [OF _ destroy_barrier_pending [OF reach_destroy_barrier.hyps(2)]] reach_destroy_barrier.IH by blast
qed

section \<open>Properties\<close>

text \<open>
  C40. When a barrier is finished, which is what \<open>wait_on_barrier\<close> waits for, the kernels of all jobs that were scheduled with it, down to the last
  descendant, have run to their end.
\<close>

theorem barrier_means_done:
  assumes "fresh_graph J" "card (dom J) + n < 2 ^ 64" "max_barriers \<le> k_no_barrier" "js_reach cfg n max_barriers J tr E s"
    "get_barrier b s = Inr bar" "barrier_finished bar" "j \<in> E" "\<forall>jb. jobs s j = Some jb \<longrightarrow> barrier_id jb = b"
  shows "Finish j \<in> set tr"
proof -
  have i: "js_inv J E s" using reach_inv [OF assms(1,2,4)] by blast
  have b: "b < length (barriers s)" "bar_pending (barriers s ! b) = 0" using assms(5,6)
    by (auto simp: get_barrier_def job_assert_def barrier_finished_def split: if_splits)
  then have "card (holding_barrier E s b) = 0" using reach_barrier [OF assms(1-4)] by (simp add: barrier_inv_def)
  moreover have "finite E" using inv_E [OF i] fresh_fin [OF assms(1)] finite_subset by blast
  then have "finite (holding_barrier E s b)" by (simp add: holding_barrier_def)
  ultimately have "j \<notin> holding_barrier E s b" by auto
  then have "j \<notin> unprocessed s" using assms(7,8) holding_alive [OF i, of j] by (auto simp: holding_barrier_def bar_of_def)
  then have "st s j \<in> {None, Some Processed}" using state_cases [OF i, of j] by (auto simp: unprocessed_def)
  then show ?thesis using reach_tr [OF assms(1,2,4)] inv_E [OF i] assms(7) by (auto simp: tr_inv_def)
qed

lemma barrier_means_done_witness:
  "\<exists>tr s bar. js_reach sample_cfg 2 1 sample tr {0, 1} s \<and> get_barrier 0 s = Inr bar \<and> barrier_finished bar \<and> Finish 1 \<in> set tr"
proof -
  obtain tr s where s: "js_reach sample_cfg 2 1 sample tr {0, 1} s" "\<not> is_busy s" and id: "\<forall>j jb. jobs s j = Some jb \<longrightarrow> barrier_id jb = 0" by (rule sample_done)
  have J: "card (dom sample) + 2 < 2 ^ 64" "(1 :: nat) \<le> k_no_barrier" by (simp_all add: sample_dom k_no_barrier_def)
  have i: "js_inv sample {0, 1} s" "length (barriers s) = 1" using reach_inv [OF sample_fresh J(1) s(1)] by simp_all
  have "finite {j \<in> {0 :: nat, 1}. st s j = Some Idle}" by simp
  then have e: "inflight s = {#}" using inv_pending [OF i(1)] s(2) by (auto simp: is_busy_def)
  have gone: "st s j \<in> {None, Some Processed}" if "j \<in> {0, 1}" for j
    using not_busy_done [OF i(1) fresh_fin [OF sample_fresh] _ that] s(2) by (simp add: is_busy_def)
  have ow: "owned s = {}" using owner_processed(2) [OF i(1)] worker_in_inflight e by (fastforce simp: owned_def)
  have "j \<notin> unprocessed s" if "j \<in> {0, 1}" for j using gone [OF that] by (auto simp: unprocessed_def)
  then have "j \<notin> holding_barrier {0, 1} s 0" for j using ow by (auto simp only: holding_barrier_def)
  then have "holding_barrier {0, 1} s 0 = {}" by blast
  then have fin: "bar_pending (barriers s ! 0) = 0" using reach_barrier [OF sample_fresh J s(1)] i(2) by (simp add: barrier_inv_def)
  have g: "get_barrier 0 s = Inr (barriers s ! 0)" using i(2) by (simp add: get_barrier_def job_assert_def)
  have "Finish 1 \<in> set tr"
  proof (rule barrier_means_done [OF sample_fresh J s(1) g])
    show "\<forall>jb. jobs s 1 = Some jb \<longrightarrow> barrier_id jb = 0" using id by blast
  qed (use fin in \<open>simp_all add: barrier_finished_def\<close>)
  then show ?thesis using s(1) g fin by (auto simp: barrier_finished_def)
qed

end
