(* ===== verification/Job_Limits.thy ===== *)
theory Job_Limits
  imports Job_Liveness
begin

text \<open>What the job system does outside the conditions of the theorems, and where its comments promise more.\<close>

section \<open>A shared job that is not kept alive\<close>

fun run_threads :: "js_config \<Rightarrow> nat list \<Rightarrow> job_sys \<Rightarrow> job_fault + job_sys" where
  "run_threads cfg [] s = Inr s"
| "run_threads cfg (t # ts) s = (case worker_step cfg 0 t s of Inl f \<Rightarrow> Inl f | Inr (e, s') \<Rightarrow> run_threads cfg ts s')"

lemma run_threads_reach:
  assumes "js_reach cfg n mb J tr E s" "set ts \<subseteq> {..<n}" "run_threads cfg ts s = Inr s'"
  shows "\<exists>tr'. js_reach cfg n mb J tr' E s'"
  using assms
proof (induction ts arbitrary: tr s)
  case (Cons t ts)
  then obtain e s1 where "worker_step cfg 0 t s = Inr (e, s1)" "run_threads cfg ts s1 = Inr s'" by (auto split: sum.splits)
  moreover from this have "js_reach cfg n mb J (tr @ events_of e) E s1" using Cons.prems by (intro reach_work) auto
  ultimately show ?case using Cons.IH Cons.prems(2) by simp
qed auto

lemma run_threads_append: "run_threads cfg (ts @ us) s = res_bind (run_threads cfg ts s) (run_threads cfg us)"
  by (induction ts arbitrary: s) (auto split: sum.split)

lemmas run_defs = worker_step_def silent_def set_pc_def upd_worker_def set_job_def deref_def exchange_state_def job_assert_def pop_private_def pop_public_def
  try_pop_def claim_def is_ready_def remove_dependency_def fetch_sub1_def dispatch_def submit_def dispatch_tid_def release_job_def notify_all_def
  steal_job_def had_pending_jobs_def

lemma no_barrier [simp]: "barrier_remove k_no_barrier s = Inr s" "barrier_add k_no_barrier k s = Inr s"
  by (simp_all add: barrier_remove_def barrier_add_def)

lemma any_affinity: "tid_hint affinity_any = 0" "balance affinity_any" "stealable affinity_any"
  by (simp_all add: affinity_any_def affinity_fields)

definition start_state :: "jobs \<Rightarrow> job_sys" where
  "start_state J = \<lparr>jobs = J, workers = [new_worker, new_worker], round_robin = [0, 0], pending = 0, barriers = []\<rparr>"

lemma start_state: "new_job_system 2 0 J = start_state J"
  by (simp add: new_job_system_def start_state_def numeral_2_eq_2)

text \<open>Job 3 depends on jobs 1 and 2, which depend on job 0.\<close>

definition diamond :: jobs where
  "diamond = (let j = new_job affinity_any in [0 \<mapsto> j\<lparr>out_nodes := [1, 2]\<rparr>, 1 \<mapsto> j\<lparr>in_nodes := [0], pending_in := 1, out_nodes := [3]\<rparr>,
     2 \<mapsto> j\<lparr>in_nodes := [0], pending_in := 1, out_nodes := [3]\<rparr>, 3 \<mapsto> j\<lparr>in_nodes := [1, 2], pending_in := 2\<rparr>])"

definition diamond_state :: job_sys where
  "diamond_state = \<lparr>jobs = diamond(0 \<mapsto> (new_job affinity_any)\<lparr>out_nodes := [1, 2], jstate := Pending\<rparr>),
     workers = [new_worker\<lparr>q_public := [0], notified := True\<rparr>, new_worker\<lparr>notified := True\<rparr>], round_robin = [1, 0], pending = 4, barriers = []\<rparr>"

text \<open>The first thread has run jobs 0 and 2, the second job 1 and is about to ask whether job 3 is ready.\<close>

definition diamond_race :: job_sys where
  "diamond_race = \<lparr>jobs = [1 \<mapsto> (new_job affinity_any)\<lparr>in_nodes := [0], out_nodes := [3], jstate := Processed\<rparr>,
     2 \<mapsto> (new_job affinity_any)\<lparr>in_nodes := [0], out_nodes := [3], jstate := Pending\<rparr>, 3 \<mapsto> (new_job affinity_any)\<lparr>in_nodes := [1, 2], pending_in := 1\<rparr>],
     workers = [new_worker\<lparr>q_public := [2], notified := True\<rparr>, new_worker\<lparr>notified := True, pc := Removed 1 3 []\<rparr>], round_robin = [1, 0],
     pending = 3, barriers = []\<rparr>"

lemma diamond_to_race: "run_threads sample_cfg ([0, 0, 0, 0, 0, 0, 0, 0, 0, 0, 0, 0, 0, 0, 0, 0, 0, 0, 0] @ [1, 1, 1, 1, 1, 1]) diamond_state = Inr diamond_race"
  by (simp add: diamond_state_def diamond_race_def diamond_def run_defs new_worker_def new_job_def any_affinity sample_cfg_def Let_def fun_upd_twist cong: if_cong)

text \<open>The first thread has finished job 2, and scheduled, run and released job 3.\<close>

definition diamond_gone :: job_sys where
  "diamond_gone = \<lparr>jobs = [1 \<mapsto> (new_job affinity_any)\<lparr>in_nodes := [0], out_nodes := [3], jstate := Processed\<rparr>],
     workers = [new_worker\<lparr>notified := True, stealing_round_robin := 1, pc := Finishing\<rparr>, new_worker\<lparr>notified := True, pc := Removed 1 3 []\<rparr>],
     round_robin = [0, 0], pending = 2, barriers = []\<rparr>"

lemma victims: "stealable_workers (Suc (Suc 0)) 0 = [1]"
  by (simp add: stealable_workers_def)

lemma race_to_gone:
  "run_threads sample_cfg [0, 0, 0, 0, 0, 0, 0, 0, 0, 0, 0, 0, 0, 0, 0, 0, 0, 0, 0, 0, 0, 0, 0] diamond_race = Inr diamond_gone"
  by (simp add: diamond_race_def diamond_gone_def run_defs victims fetch_add_def
    new_worker_def new_job_def any_affinity sample_cfg_def Let_def fun_upd_twist cong: if_cong)

lemma diamond_outs: "outs diamond x = (if x = 0 then [1, 2] else if x = 1 \<or> x = 2 then [3] else [])"
  by (simp add: outs_def diamond_def new_job_def Let_def)

lemma diamond_reach: "reach diamond 0 = {0, 1, 2, 3}"
proof
  have "x \<in> {0, 1, 2, 3}" if "x \<in> reach diamond 0" for x
    using that by (induction rule: reach_induct) (auto simp: diamond_outs split: if_splits)
  then show "reach diamond 0 \<subseteq> {0, 1, 2, 3}" by blast
  show "{0, 1, 2, 3} \<subseteq> reach diamond 0"
    using reach_self reach_step [of 0 diamond 0 1] reach_step [of 0 diamond 0 2] reach_step [of 1 diamond 0 3] by (auto simp: diamond_outs)
qed

lemma schedule_stealable:
  assumes "jobs s r = Some jr" "in_nodes jr = []" "out_nodes jr \<noteq> []" "jstate jr = Idle" "pending_in jr = 0" "affinity jr = affinity_any"
    "depth_first_walk k_no_barrier [r] [] (jobs s) = Some (Inr (marked, jobs s))" "marked \<noteq> []" "0 < length (workers s)"
    "v = round_robin s ! t mod length (workers s)" "length (q_public (workers s ! v)) < queue_size cfg"
  shows "task_schedule cfg t r k_no_barrier s = Some (Inr (Some (True, notify_all (upd_worker v (\<lambda>w. w\<lparr>q_public := q_public w @ [r]\<rparr>)
    (s\<lparr>jobs := (jobs s)(r \<mapsto> jr\<lparr>jstate := Pending\<rparr>), pending := fetch_add (length marked) (pending s),
       round_robin := (round_robin s)[t := (round_robin s ! t + 1) mod length (workers s)]\<rparr>)))))"
proof -
  have s: "s\<lparr>jobs := jobs s\<rparr> = s" by simp
  show ?thesis using assms by (simp add: task_schedule_def s try_schedule_def claim_def deref_def job_assert_def is_ready_def exchange_state_def set_job_def
    dispatch_def dispatch_tid_def any_affinity submit_def upd_worker_def Let_def)
qed

lemma diamond_schedule: "task_schedule sample_cfg 0 0 k_no_barrier (new_job_system 2 0 diamond) = Some (Inr (Some (True, diamond_state)))"
proof -
  have "depth_first_walk k_no_barrier [0] [] diamond = Some (Inr ([1, 3, 2, 0], diamond))"
    by (simp add: depth_first_walk.simps diamond_def new_job_def Let_def fun_upd_twist)
  then show ?thesis
    by (subst schedule_stealable [where marked = "[1, 3, 2, 0]" and v = 0 and jr = "(new_job affinity_any)\<lparr>out_nodes := [1, 2]\<rparr>"])
      (simp_all add: start_state start_state_def new_worker_def sample_cfg_def, simp_all add: diamond_def diamond_state_def new_job_def Let_def notify_all_def
        upd_worker_def fetch_add_def new_worker_def)
qed

text \<open>
  A parent that has removed its dependency reads the child's counter afterwards. If another parent has scheduled the child meanwhile, the child may have run and been
  released: the read is one of freed memory. So the condition that shared jobs are kept alive cannot be dropped.
\<close>

theorem shared_child_dangles: "\<exists>tr s. js_reach sample_cfg 2 0 diamond tr {0, 1, 2, 3} s \<and> worker_step sample_cfg 0 1 s = Inl Dangling_Job"
proof -
  have "js_reach sample_cfg 2 0 diamond [] ({} \<union> reach diamond 0) diamond_state"
    by (rule reach_schedule [OF reach_init _ _ _ _ diamond_schedule])
      (auto simp: sole_root_def diamond_reach edges_outs diamond_outs, auto simp: diamond_def Let_def)
  then have r: "js_reach sample_cfg 2 0 diamond [] {0, 1, 2, 3} diamond_state" by (simp add: diamond_reach)
  obtain tr where "js_reach sample_cfg 2 0 diamond tr {0, 1, 2, 3} diamond_race" using run_threads_reach [OF r _ diamond_to_race] by auto
  then have "\<exists>tr'. js_reach sample_cfg 2 0 diamond tr' {0, 1, 2, 3} diamond_gone" by (rule run_threads_reach [OF _ _ race_to_gone]) auto
  then obtain tr' where "js_reach sample_cfg 2 0 diamond tr' {0, 1, 2, 3} diamond_gone" ..
  moreover have "worker_step sample_cfg 0 1 diamond_gone = Inl Dangling_Job" by (simp add: diamond_gone_def worker_step_def new_worker_def deref_def silent_def)
  ultimately show ?thesis by blast
qed

section \<open>A wake-up that is lost\<close>

text \<open>
  A worker evaluates the predicate under the mutex, but jobs are pushed and notifications sent without it. If both happen between the evaluation and the call that
  blocks, the worker sleeps with a job in its queue until somebody notifies again, as the main thread does while it waits.
\<close>

lemma doze: "run_threads sample_cfg [1, 1, 1, 1, 1, 1] (start_state J) =
    Inr ((start_state J)\<lparr>workers := [new_worker, new_worker\<lparr>stealing_round_robin := 1, pc := Falling\<rparr>]\<rparr>)"
proof -
  have v: "stealable_workers (Suc (Suc 0)) (Suc 0) = [0]" by (simp add: stealable_workers_def)
  show ?thesis by (simp add: run_defs v start_state_def new_worker_def sample_cfg_def fetch_add_def Let_def cong: if_cong)
qed

lemma single_schedule:
  assumes "length (workers s) = 2" "workers s ! 1 = w" "q_private w = []" "jobs s = [0 \<mapsto> new_job (force_worker 1)]" "round_robin s = [0, 0]" "pending s = 0"
  shows "\<exists>s'. task_schedule sample_cfg 0 0 k_no_barrier s = Some (Inr (Some (True, s'))) \<and> workers s' ! 1 = w\<lparr>q_private := [0], notified := True\<rparr> \<and>
    length (workers s') = 2"
proof -
  have a: "tid_hint (force_worker 1) = 1" "\<not> balance (force_worker 1)" "\<not> stealable (force_worker 1)" by (simp_all add: force_worker_def affinity_fields)
  show ?thesis using assms a
    by (simp add: task_schedule_def new_job_def try_schedule_def claim_def deref_def job_assert_def is_ready_def exchange_state_def set_job_def fetch_add_def
      dispatch_def dispatch_tid_def submit_def upd_worker_def sample_cfg_def notify_all_def Let_def)
qed

theorem wake_up_lost:
  "\<exists>tr s. js_reach sample_cfg 2 0 [0 \<mapsto> new_job (force_worker 1)] tr {0} s \<and> q_private (workers s ! 1) = [0] \<and> worker_step sample_cfg 0 1 s = Inr (None, s)"
proof -
  let ?J = "[0 \<mapsto> new_job (force_worker 1)] :: jobs"
  let ?s = "(start_state ?J)\<lparr>workers := [new_worker, new_worker\<lparr>stealing_round_robin := 1, pc := Falling\<rparr>]\<rparr>"
  have "js_reach sample_cfg 2 0 ?J [] {} (start_state ?J)" using reach_init [of sample_cfg 2 0 ?J] by (simp add: start_state)
  then have "\<exists>tr. js_reach sample_cfg 2 0 ?J tr {} ?s" by (rule run_threads_reach [OF _ _ doze]) auto
  then obtain tr where tr: "js_reach sample_cfg 2 0 ?J tr {} ?s" ..
  obtain s' where s': "task_schedule sample_cfg 0 0 k_no_barrier ?s = Some (Inr (Some (True, s')))"
    "workers s' ! 1 = new_worker\<lparr>stealing_round_robin := 1, pc := Falling, q_private := [0], notified := True\<rparr>" "length (workers s') = 2"
    using single_schedule [of ?s "new_worker\<lparr>stealing_round_robin := 1, pc := Falling\<rparr>"] by (auto simp: start_state_def new_worker_def)
  have o: "outs ?J x = []" for x by (simp add: outs_def new_job_def)
  have "x = 0" if "x \<in> reach ?J 0" for x using that by (induction rule: reach_induct) (auto simp: o)
  then have r: "reach ?J 0 = {0}" using reach_self by blast
  have "js_reach sample_cfg 2 0 ?J tr ({} \<union> reach ?J 0) s'"
    by (rule reach_schedule [OF tr _ _ _ _ s'(1)]) (auto simp: sole_root_def edges_outs o)
  then have 1: "js_reach sample_cfg 2 0 ?J tr {0} s'" by (simp add: r)
  let ?w = "new_worker\<lparr>stealing_round_robin := 1, q_private := [0], pc := Waiting\<rparr>"
  have "worker_step sample_cfg 0 1 s' = Inr (None, s'\<lparr>workers := (workers s')[1 := ?w]\<rparr>)"
    using s'(2) by (simp add: worker_step_def silent_def upd_worker_def new_worker_def)
  from reach_work [OF 1 _ this] have "js_reach sample_cfg 2 0 ?J tr {0} (s'\<lparr>workers := (workers s')[1 := ?w]\<rparr>)" by (simp add: events_of_def)
  then show ?thesis using s'(3) by (intro exI [of _ tr] exI conjI) (auto simp: worker_step_def silent_def new_worker_def)
qed

section \<open>Graphs that share a job\<close>

text \<open>
  Two roots with a common child: both schedule, and the counter of pending jobs is four for a graph of three jobs, each of which takes one off when it is done. So the
  counter does not come back to zero, and waiting does not end.
\<close>

definition shared_graph :: jobs where
  "shared_graph = (let j = new_job affinity_any in [0 \<mapsto> j\<lparr>out_nodes := [2]\<rparr>, 1 \<mapsto> j\<lparr>out_nodes := [2]\<rparr>, 2 \<mapsto> j\<lparr>in_nodes := [0, 1], pending_in := 2\<rparr>])"

theorem shared_child_counted_twice:
  "\<exists>s1 s2. task_schedule sample_cfg 0 0 k_no_barrier (start_state shared_graph) = Some (Inr (Some (True, s1))) \<and>
     task_schedule sample_cfg 0 1 k_no_barrier s1 = Some (Inr (Some (True, s2))) \<and> pending s2 = 4 \<and> card (dom shared_graph) = 3"
proof -
  let ?j = "(new_job affinity_any)\<lparr>out_nodes := [2], jstate := Pending\<rparr>"
  let ?s1 = "\<lparr>jobs = shared_graph(0 \<mapsto> ?j), workers = [new_worker\<lparr>q_public := [0], notified := True\<rparr>, new_worker\<lparr>notified := True\<rparr>],
    round_robin = [1, 0], pending = 2, barriers = []\<rparr>"
  let ?s2 = "\<lparr>jobs = shared_graph(0 \<mapsto> ?j, 1 \<mapsto> ?j), workers = [new_worker\<lparr>q_public := [0], notified := True\<rparr>, new_worker\<lparr>q_public := [1], notified := True\<rparr>],
    round_robin = [0, 0], pending = 4, barriers = []\<rparr>"
  have "task_schedule sample_cfg 0 0 k_no_barrier (start_state shared_graph) = Some (Inr (Some (True, ?s1)))"
    by (subst schedule_stealable [where marked = "[2, 0]" and v = 0 and jr = "(new_job affinity_any)\<lparr>out_nodes := [2]\<rparr>"])
      (simp_all add: start_state_def shared_graph_def new_job_def Let_def depth_first_walk.simps notify_all_def upd_worker_def sample_cfg_def fun_upd_twist fetch_add_def new_worker_def)
  moreover have "task_schedule sample_cfg 0 1 k_no_barrier ?s1 = Some (Inr (Some (True, ?s2)))"
    by (subst schedule_stealable [where marked = "[2, 1]" and v = 1 and jr = "(new_job affinity_any)\<lparr>out_nodes := [2]\<rparr>"])
      (simp_all add: start_state_def shared_graph_def new_job_def Let_def depth_first_walk.simps notify_all_def upd_worker_def sample_cfg_def fun_upd_twist fetch_add_def new_worker_def)
  moreover have "dom shared_graph = {0, 1, 2}" by (auto simp: shared_graph_def Let_def)
  ultimately show ?thesis by (intro exI [of _ ?s1] exI [of _ ?s2]) simp
qed

section \<open>The scheduler\<close>

text \<open>The job system with one thread: a job for a worker cannot be dispatched, and there is nobody to steal from.\<close>

theorem one_thread_async: "length (workers s) = 1 \<Longrightarrow> jobs s j = Some jb \<Longrightarrow> affinity jb = affinity_async \<Longrightarrow> dispatch cfg t j s = Inl Job_Assertion"
  by (simp add: dispatch_def deref_def job_assert_def affinity_async_def affinity_fields Let_def)

theorem one_thread_steal:
  "length (workers s) = 1 \<Longrightarrow> pc (workers s ! 0) = Look_Steal k \<Longrightarrow> k < max_stealing_attempts cfg \<Longrightarrow> worker_step cfg i 0 s = Inl No_Victim"
  by (simp add: worker_step_def steal_job_def stealable_workers_def silent_def Let_def)

text \<open>With four threads, a thread that schedules two jobs for workers in a row can hand both to the same one.\<close>

theorem same_worker_twice: "\<exists>rr < 4. dispatch_tid 4 rr affinity_async = dispatch_tid 4 ((rr + 1) mod 4) affinity_async"
  by (rule exI [of _ 3]) (simp add: dispatch_tid_def affinity_async_def affinity_fields)

section \<open>Preemption\<close>

text \<open>Preempting a job that was never scheduled takes one from a counter that does not include it.\<close>

theorem preempt_idle_underflow:
  assumes "jobs s j = Some jb" "jstate jb = Idle" "in_nodes jb = []" "out_nodes jb = []" "barrier_id jb = k_no_barrier" "pending s = 0"
  shows "\<exists>s'. try_preempt_and_execute j s = Inr ([Start j, Finish j], True, s') \<and> pending s' = 2 ^ 64 - 1"
  using assms by (simp add: try_preempt_and_execute_def deref_def job_assert_def release_job_def set_job_def fetch_sub1_def)

text \<open>Preempting a job that is queued leaves its address in the queue; the thread that pops it reads freed memory.\<close>

theorem preempt_queued_dangles:
  assumes "jobs s j = Some jb" "jstate jb = Pending" "in_nodes jb = []" "out_nodes jb = []" "barrier_id jb = k_no_barrier" "pc (workers s ! t) = Popped j"
  shows "\<exists>s'. try_preempt_and_execute j s = Inr ([Start j, Finish j], True, s') \<and> worker_step cfg i t s' = Inl Dangling_Job"
  using assms by (simp add: try_preempt_and_execute_def deref_def job_assert_def release_job_def set_job_def worker_step_def)

end
