(* ===== verification/Spec2Isabelle.thy ===== *)
theory Spec2Isabelle
  imports Undo_Group Sparse_Pool Event_Bus Memory_Arena Tlsf_Client Astar_Correct Morton Arg_Usage
    Job_Barrier Job_Limits
begin

text \<open>
  \<^bold>\<open>Verification of kibble\<close>

  kibble (\<open>src/source/kibble\<close>) is a C++ library of building blocks for engines and tools. Its parts are mostly
  independent of each other: undo stacks, handle pools, an event bus, memory arenas, graph search, bit tricks, a job
  system, and wrappers around the operating system. This development models the parts that keep
  state or compute something exact, each in a theory of its own, and proves what their users rely on.

  \<^bold>\<open>How code becomes HOL.\<close> A class is a \<open>record\<close>, an enumeration or a choice of operations a \<open>datatype\<close>, a method a
  function that takes the object and returns it updated. Integers whose width matters are words
  (\<open>u8\<close>, \<open>u32\<close>, \<open>u64\<close>, or \<open>'w word\<close> for template parameters) and wrap around; sizes of
  standard containers are natural numbers. An operation that can fail returns \<open>fault + 'a\<close>, where
  \<open>fault\<close> (theory \<open>Kibble_Prelude\<close>) names what the C++ code runs into: a failing \<open>K_ASSERT\<close>, an access
  out of bounds, a null pointer, an unbound delegate, a division by zero, a signed overflow, a fatal log entry, a
  second lock of a mutex. Undefined behaviour is such a fault (\<open>None\<close> in \<open>Const_Math\<close>), never an arbitrary result, with
  one exception: a deadline of \<open>dispatch\<close> beyond 64 bits has its two's complement value. A loop that may run
  forever is a \<open>partial_function\<close> or a \<open>while_option\<close> whose value is then \<open>None\<close>, and theorems say that \<open>Some\<close>
  is returned; no fuel is used anywhere. Memory is a function from addresses to bytes. What the
  library takes from its user (virtual functions, event handlers, the state type of a search) and what the
  standard leaves open (the order of equivalent elements after \<open>std::sort\<close>, the layout of a heap,
  the address that \<open>new\<close> returns, the readings of a clock) are parameters of the definitions.

  \<^bold>\<open>Undo system\<close> (\<open>undo/undo.h\<close>, \<open>undo/undo.cpp\<close>). \<open>Undo_Command\<close>: commands with children, the base
  implementations of \<open>undo\<close>, \<open>redo\<close> and \<open>merge_with\<close>, and the dispatch to overrides through a \<open>vtable\<close> parameter.
  \<open>Undo_Stack\<close>: the record \<open>undo_stack\<close> with every operation of \<open>UndoStack\<close>; functor calls are returned as
  a list of signals. The abstract specification is a timeline of documents. Shown: every operation sequence keeps head, clean
  index and limit well-formed and its signals keep an observer in sync; \<open>push\<close> and
  \<open>set_head\<close> refine the timeline; undoing everything restores the document; \<open>is_clean\<close> is sound without limit and
  merging (and two counterexamples with them). \<open>Undo_Group\<close>: named stacks, the active stack, forwarding, relabelling.

  \<^bold>\<open>Sparse sets and handle pools\<close> (\<open>util/sparse_set.h\<close>). \<open>Sparse_Set\<close>:
  the fixed and the dynamic sparse set over \<open>'w word\<close>, refining a finite set for clients that pass objects of their own; arguments are
  references, and erasing through an iterator of the set breaks it. \<open>Sparse_Pool\<close>: the plain
  and the guarded handle pool as two interpretations of a locale that states what a pool promises; handles are
  unique, and guarded handles are not repeated before a guard overflows.

  \<^bold>\<open>Event bus\<close> (\<open>event/event_bus.h\<close>, \<open>event/event_bus.cpp\<close>, \<open>util/delegate.h\<close>). \<open>Event_Bus\<close>: queues per event type, subscription with priorities, \<open>fire\<close>,
  \<open>enqueue\<close> and \<open>dispatch\<close> with a deadline. Handlers are a parameter; they see the application state and may enqueue
  further events. Shown: no operation faults on a reachable bus, delivery follows queue order and priority (with a deadline that fits in 64 bits),
  \<open>dispatch\<close> terminates when handlers generate lighter events only, and unsubscribing undoes subscribing.

  \<^bold>\<open>Memory\<close> (\<open>memory/\<close>). \<open>Memory_Area\<close>: the byte memory, alignment, \<open>HeapArea\<close> with its slabs, and the
  locale \<open>arena_allocator\<close>, the contract between an allocator and the arena on top of it. \<open>Linear_Memory\<close>: the linear
  allocator and the linear buffer. \<open>Pool_Memory\<close>: the pool allocator with its free list inside the free
  nodes. \<open>Memory_Arena\<close>: \<open>MemoryArena\<close> with bounds checking, tracking and thread guard policies; its lemmas are proved once in
  the locale and in \<open>arena_client\<close>, which adds the requests of the arena's clients. All allocators interpret both. Shown: an arena refines a store of blocks, overruns are
  detected, array allocation and deletion are inverse, the leak report is exact. \<open>Const_Math\<close>
  (\<open>math/constexpr_math.h\<close>): powers of two, rounding, binomials, with their bounds.

  \<^bold>\<open>TLSF allocator\<close> (\<open>memory/allocator/tlsf_allocator.cpp\<close>, \<open>memory/allocator/tlsf/impl/\<close>). \<open>Tlsf_Bits\<close>: bit scans and the two-level size classes.
  \<open>Tlsf_Block\<close>: block headers in the byte memory, and the pool as a list of blocks with the bytes of the used ones.
  \<open>Tlsf_Control\<close>: the free lists as doubly linked lists with their bitmaps, and the operations of \<open>Control\<close>. \<open>Tlsf_Pool\<close>: the invariant
  that ties both together, and its preservation. \<open>Tlsf_Allocator\<close>, \<open>Tlsf_Correct\<close>: allocation, deallocation, reallocation and construction refine
  operations on the list of blocks. \<open>Tlsf_Check\<close>: the walk over the pool and the integrity checks. \<open>Tlsf_Store\<close>, \<open>Tlsf_Client\<close>: the allocator as a store of
  blocks, as a provider of \<open>arena_allocator\<close>, and what clients see. Pointers are natural numbers, sizes \<open>u64\<close>. Bounds: the heap lies
  below \<open>2^62\<close>, the pool is smaller than 2 GiB (beyond, \<open>mapping_insert\<close> overflows), requests are below 1 GiB with a
  power of two as alignment and an offset in multiples of 8. Allocation and reallocation succeed whenever the walk over the pool shows
  room for them (\<open>enough\<close>, \<open>room_for\<close>), except that an offset beyond an alignment of 16 or more is never served by a new block.

  \<^bold>\<open>A* search\<close> (\<open>algorithm/astar.h\<close>). \<open>Astar_Search\<close>: the node pool, the search step, the search loop, path
  reconstruction, clean-up and destructor. Scores live in a linearly ordered group instead of \<open>float\<close>; which of several
  best nodes the heap yields is a parameter that may depend on the whole state.
  \<open>Astar_Graph\<close>: paths, costs, and an invariant of the search graph apart from the containers; \<open>Astar_Invariant\<close>: the invariant of
  a running search and its preservation; \<open>Astar_Correct\<close>: the path found is optimal for every admissible heuristic, the search
  decides reachability and terminates when the reachable states fit into the pool, and all
  nodes return to the pool. The termination measure counts, for every reachable state, the costs of simple paths below the current score.

  \<^bold>\<open>Morton codes\<close> (\<open>math/morton.cpp\<close>, \<open>math/impl/\<close>). \<open>Morton\<close>: the lookup tables and the BMI2 variant; both
  implement the same interleaving of bits, and decoding inverts it.

  \<^bold>\<open>Argument parser\<close> (\<open>argparse/argparse.h\<close>, \<open>argparse.cpp\<close>). \<open>Arg_Cast\<close>: operands to integers, strings and lists, with the notations of \<open>std::stoi\<close>; the
  conversions to floating point are parameters. \<open>Arg_Parse\<close>: declarations and the parser, its exceptions and constraints, and next to it the grammar of the
  accepted command lines as an inductive relation. \<open>Arg_Correct\<close>: the parser accepts this grammar with its constraints and nothing else, never runs into
  a failing lookup once declarations went through, reports every rejection, keeps every declared type and
  reads back what is written. \<open>Arg_Usage\<close>: the usage and version strings; every option is described.

  \<^bold>\<open>Job system\<close> (\<open>thread/job/\<close>). \<open>Job_Graph\<close>: jobs with their dependencies and atomic state, affinities, and the walk over a graph. \<open>Job_System\<close>:
  scheduling, dispatch, barriers and the worker threads. Threads take turns; a step is one atomic access to shared data, from the points of
  \<open>WorkerThread::run\<close>, \<open>process\<close> and \<open>schedule_children\<close> that the datatype \<open>pc\<close> lists; reading whether a thread's two queues are empty, and \<open>Task::schedule\<close>, are one
  step each. Atomics are sequentially consistent. The queues are an external library: \<open>push\<close> waits while a queue is full, \<open>try_pop\<close> takes any element. The condition
  variable is modelled with its lost notifications. \<open>Job_Invariant\<close>, \<open>Job_Steps\<close>, \<open>Job_Schedule\<close>: the invariant, in which the counters of the code are
  multiplicities of tokens, and its preservation. \<open>Job_Correct\<close>, \<open>Job_Safety\<close>: reachable states, the order of kernels, no fault in any interleaving.
  \<open>Job_Liveness\<close>: a rule for fair runs as the locale \<open>fair_progress\<close>, interpreted on the threads: all scheduled jobs get done. \<open>Job_Barrier\<close>: a finished
  barrier has its jobs behind it. \<open>Job_Limits\<close>: runs outside the conditions that end in freed memory, a lost wake-up, or a counter that does not come back. The client
  builds its graph first and schedules roots that own all ancestors of their descendants; together with
  the number of threads there are fewer than \<open>2^64\<close> jobs.

  \<^bold>\<open>Not modelled.\<close> Files, sockets, terminal, clocks and process information are calls to the operating
  system. The logger only writes output. Splines, colours, noise and gradient descent are floating point
  numerics. The atomic pool needs a memory model weaker than the interleavings of the job system. Kernels that schedule or wait, the termination of the
  threads, daemons and the monitor depend on clocks and the operating system. Vendored code
  (\<open>util/unordered_dense.h\<close>) is represented by finite maps. String utilities, hashing, UUIDs and random number generators are small leaves that nothing above depends on.
\<close>

end
